(* ===== verification/Prelude.thy ===== *)
theory Prelude
  imports Main "HOL-Library.AList" "HOL-Library.Word" "HOL-Library.Sublist"
begin

text \<open>
  Shared vocabulary of the development.

  Go values are modelled as they are used by the code:
  \<^item> a Go map is an association list with distinct keys (\<open>gomap\<close>); the functions of
    \<open>HOL-Library.AList\<close> are its primitives. Go leaves the order of a \<open>range\<close> loop over a
    map open, so every definition that iterates takes the runtime's choice as an argument
    \<open>ord\<close>, and theorems only assume \<open>map_order ord\<close> (every entry is visited once);
  \<^item> a Go string is a list of bytes (\<open>string\<close>);
  \<^item> \<open>uint64\<close> counters are 64-bit words, which wrap.

  The two locales at the end are the contracts a stateful component is proved against:
  \<open>safe_system\<close> (an invariant every operation keeps) and \<open>ordered_system\<close> (a preorder
  every operation moves up in).
\<close>

named_theorems op_simps
named_theorems inv_intros

subsection \<open>Go maps\<close>

type_synonym ('k, 'v) gomap = "('k \<times> 'v) list"

type_synonym u64 = "64 word"

abbreviation gm_wf :: "('k, 'v) gomap \<Rightarrow> bool" where
  "gm_wf m \<equiv> distinct (map fst m)"

definition map_order :: "(('k, 'v) gomap \<Rightarrow> ('k, 'v) gomap) \<Rightarrow> bool" where
  "map_order ord \<longleftrightarrow> (\<forall>m. set (ord m) = set m \<and> (gm_wf m \<longrightarrow> distinct (ord m)))"

lemma map_order_id: "map_order (\<lambda>m. m)"
  by (auto simp: map_order_def distinct_map)

lemma map_order_rev: "map_order rev"
  by (auto simp: map_order_def distinct_map)

lemma map_order_set [simp]: "map_order ord \<Longrightarrow> set (ord m) = set m"
  by (simp add: map_order_def)

lemma map_order_empty [simp]: "map_order ord \<Longrightarrow> ord m = [] \<longleftrightarrow> m = []"
  by (metis map_order_set set_empty)

lemma gm_update_wf [simp]: "gm_wf m \<Longrightarrow> gm_wf (AList.update k v m)"
  by (rule distinct_update)

lemma gm_delete_wf [simp]: "gm_wf m \<Longrightarrow> gm_wf (AList.delete k m)"
  by (rule distinct_delete)

lemma gm_lookup_update [simp]: "map_of (AList.update k v m) k' = (if k' = k then Some v else map_of m k')"
  by (simp add: update_conv')

lemma gm_lookup_delete [simp]: "map_of (AList.delete k m) k' = (if k' = k then None else map_of m k')"
  by (simp add: delete_conv')

lemma gm_in_set_iff: "gm_wf m \<Longrightarrow> (k, v) \<in> set m \<longleftrightarrow> map_of m k = Some v"
  by simp

lemma gm_delete_absent: "map_of m k = None \<Longrightarrow> AList.delete k m = m"
  by (simp add: delete_id map_of_eq_None_iff)

lemma gm_delete_twice [simp]: "AList.delete k (AList.delete k m) = AList.delete k m"
  by (simp add: delete_idem)

lemma gm_delete_set: "set (AList.delete k m) = {p \<in> set m. fst p \<noteq> k}"
  by (auto simp: AList.delete_eq)

lemma gm_ex_lookup: "m \<noteq> [] \<Longrightarrow> \<exists>k v. map_of m k = Some v"
  by (cases m) force+

lemma map_order_ids:
  assumes "map_order ord" and "gm_wf m"
  shows "distinct (map fst (ord m))" and "set (map fst (ord m)) = set (map fst m)"
proof -
  have "distinct (ord m)" "set (ord m) = set m" using assms by (simp_all add: map_order_def)
  with assms(2) show "distinct (map fst (ord m))" by (simp add: distinct_map)
  show "set (map fst (ord m)) = set (map fst m)" using \<open>set (ord m) = set m\<close> by simp
qed

subsection \<open>Lists\<close>

lemma find_append: "find P (xs @ ys) = (case find P xs of None \<Rightarrow> find P ys | Some x \<Rightarrow> Some x)"
  by (induction xs) auto

lemma find_snoc: "find P (xs @ [x]) = (case find P xs of None \<Rightarrow> if P x then Some x else None | Some y \<Rightarrow> Some y)"
  by (simp add: find_append split: option.split)

text \<open>A \<open>for ... range\<close> loop whose body returns the first value it finds.\<close>

fun first_some :: "('a \<Rightarrow> 'b option) \<Rightarrow> 'a list \<Rightarrow> 'b option" where
  "first_some f [] = None"
| "first_some f (x # xs) = (case f x of None \<Rightarrow> first_some f xs | Some y \<Rightarrow> Some y)"

lemma first_some_None [simp]: "first_some f xs = None \<longleftrightarrow> (\<forall>x\<in>set xs. f x = None)"
  by (induction xs) (auto split: option.splits)

lemma first_some_Some: "first_some f xs = Some y \<Longrightarrow> \<exists>x\<in>set xs. f x = Some y"
  by (induction xs) (auto split: option.splits)

lemma subseq_snoc_both: "subseq xs ys \<Longrightarrow> subseq (xs @ [z]) (ys @ [z])"
  by (simp add: list_emb_append_mono)

subsection \<open>Contracts of stateful components\<close>

text \<open>
  An operation \<open>step\<close> keeps a property \<open>good\<close> of the state. A whole run is \<open>foldl step\<close>,
  so the invariant holds after any sequence of operations.
\<close>

locale safe_system =
  fixes step :: "'s \<Rightarrow> 'e \<Rightarrow> 's"
    and good :: "'s \<Rightarrow> bool"
  assumes step_good: "good s \<Longrightarrow> good (step s e)"
begin

lemma run_good: "good s \<Longrightarrow> good (foldl step s es)"
  by (induction es arbitrary: s) (auto intro: step_good)

lemma prefix_good: "good s \<Longrightarrow> prefix es es' \<Longrightarrow> good (foldl step s es)"
  by (simp add: run_good)

end

text \<open>
  A system whose operations also move the state up in a preorder: facts about the past of a
  run (a decision taken, a counter reached) are never undone.
\<close>

locale ordered_system = safe_system +
  fixes le :: "'s \<Rightarrow> 's \<Rightarrow> bool"
  assumes le_refl: "le s s"
    and le_trans: "le s t \<Longrightarrow> le t u \<Longrightarrow> le s u"
    and step_le: "good s \<Longrightarrow> le s (step s e)"
begin

lemma run_le: "good s \<Longrightarrow> le s (foldl step s es)"
proof (induction es arbitrary: s)
  case Nil
  then show ?case by (simp add: le_refl)
next
  case (Cons e es)
  from Cons.prems have "good (step s e)" by (rule step_good)
  then have "le (step s e) (foldl step (step s e) es)" by (rule Cons.IH)
  with step_le [OF Cons.prems] show ?case by (auto intro: le_trans)
qed

lemma run_le_later: "good s \<Longrightarrow> le (foldl step s es) (foldl step s (es @ es'))"
  by (simp add: run_le run_good)

end

text \<open>
  Operations that can fail (a panic, a refused transition) return \<open>None\<close>. A
  \<open>progressing_system\<close> never fails on the operations \<open>ok\<close> allows, and keeps \<open>good\<close>.
\<close>

fun run_opt :: "('s \<Rightarrow> 'e \<Rightarrow> 's option) \<Rightarrow> 's \<Rightarrow> 'e list \<Rightarrow> 's option" where
  "run_opt step s [] = Some s"
| "run_opt step s (e # es) = (case step s e of None \<Rightarrow> None | Some s' \<Rightarrow> run_opt step s' es)"

locale progressing_system =
  fixes step :: "'s \<Rightarrow> 'e \<Rightarrow> 's option"
    and ok :: "'e \<Rightarrow> bool"
    and good :: "'s \<Rightarrow> bool"
  assumes step_total: "good s \<Longrightarrow> ok e \<Longrightarrow> \<exists>s'. step s e = Some s' \<and> good s'"
begin

lemma run_total: "good s \<Longrightarrow> list_all ok es \<Longrightarrow> \<exists>s'. run_opt step s es = Some s' \<and> good s'"
proof (induction es arbitrary: s)
  case (Cons e es)
  then obtain s' where s': "step s e = Some s'" "good s'"
    using step_total [of s e] by auto
  from Cons.IH [OF s'(2)] Cons.prems(2) have "\<exists>t. run_opt step s' es = Some t \<and> good t" by simp
  with s'(1) show ?case by simp
qed simp

end

end
