(* ===== verification/GoLib.thy ===== *)
theory GoLib
  imports Prelude "HOL-Library.Char_ord"
begin

text \<open>
  The parts of Go's standard library that the modelled code uses on strings, for strings as
  lists of bytes: \<open>strings.Split\<close>, \<open>strings.Join\<close>, \<open>strings.HasPrefix\<close>, \<open>strings.Contains\<close>,
  \<open>path/filepath\<close>'s \<open>Clean\<close> and \<open>Dir\<close> on Unix.
\<close>

subsection \<open>strings\<close>

definition has_prefix :: "string \<Rightarrow> string \<Rightarrow> bool" where
  "has_prefix s p \<longleftrightarrow> take (length p) s = p"

definition has_suffix :: "string \<Rightarrow> string \<Rightarrow> bool" where
  "has_suffix s p \<longleftrightarrow> has_prefix (rev s) (rev p)"

lemma has_prefix_iff: "has_prefix s p \<longleftrightarrow> prefix p s"
  by (metis append_eq_conv_conj has_prefix_def prefix_def)

lemma has_suffix_iff: "has_suffix s p \<longleftrightarrow> suffix p s"
  by (simp add: has_suffix_def has_prefix_iff suffix_to_prefix)

fun str_contains :: "string \<Rightarrow> string \<Rightarrow> bool" where
  "str_contains [] p = (p = [])"
| "str_contains (c # cs) p = (has_prefix (c # cs) p \<or> str_contains cs p)"

lemma str_contains_iff: "str_contains s p \<longleftrightarrow> sublist p s"
  by (induction s) (auto simp: has_prefix_iff sublist_Cons_right)

text \<open>\<open>split_on c s\<close> is \<open>strings.Split\<close> with a separator of one byte.\<close>

fun split_on :: "char \<Rightarrow> string \<Rightarrow> string list" where
  "split_on c [] = [[]]"
| "split_on c (x # xs) =
     (if x = c then [] # split_on c xs
      else (case split_on c xs of [] \<Rightarrow> [[x]] | p # ps \<Rightarrow> (x # p) # ps))"

fun join_with :: "string \<Rightarrow> string list \<Rightarrow> string" where
  "join_with sep [] = []"
| "join_with sep [p] = p"
| "join_with sep (p # q # ps) = p @ sep @ join_with sep (q # ps)"

lemma split_on_not_Nil [simp]: "split_on c s \<noteq> []"
  by (induction s) (auto split: list.splits)

lemma join_with_Cons: "ps \<noteq> [] \<Longrightarrow> join_with sep (p # ps) = p @ sep @ join_with sep ps"
  by (cases ps) auto

lemma join_split_on: "join_with [c] (split_on c s) = s"
proof (induction s)
  case (Cons x xs)
  then show ?case
    by (cases "split_on c xs"; cases "tl (split_on c xs)") (auto simp: join_with_Cons)
qed simp

lemma split_on_no_sep: "p \<in> set (split_on c s) \<Longrightarrow> c \<notin> set p"
  by (induction s arbitrary: p) (auto split: list.splits if_splits)

lemma split_on_append: "split_on c (xs @ c # ys) = split_on c xs @ split_on c ys"
  by (induction xs) (auto split: list.splits)

lemma split_on_absent: "c \<notin> set s \<Longrightarrow> split_on c s = [s]"
  by (induction s) auto

text \<open>
  \<open>strings.TrimSpace\<close>: the encodings of the runes for which \<open>unicode.IsSpace\<close> holds, cut off
  at the front and, on the reversed string, at the end.
\<close>

definition white_space :: "string list" where
  "white_space =
     [[CHR 0x09], [CHR 0x0A], [CHR 0x0B], [CHR 0x0C], [CHR 0x0D], [CHR 0x20], [CHR 0xC2, CHR 0x85],
      [CHR 0xC2, CHR 0xA0], [CHR 0xE1, CHR 0x9A, CHR 0x80]] @
     map (\<lambda>b. [CHR 0xE2, CHR 0x80, b])
       [CHR 0x80, CHR 0x81, CHR 0x82, CHR 0x83, CHR 0x84, CHR 0x85, CHR 0x86, CHR 0x87, CHR 0x88, CHR 0x89,
        CHR 0x8A, CHR 0xA8, CHR 0xA9, CHR 0xAF] @
     [[CHR 0xE2, CHR 0x81, CHR 0x9F], [CHR 0xE3, CHR 0x80, CHR 0x80]]"

function trim_front :: "string list \<Rightarrow> string \<Rightarrow> string" where
  "trim_front ws s =
     (case find (\<lambda>w. w \<noteq> [] \<and> has_prefix s w) ws of
        None \<Rightarrow> s
      | Some w \<Rightarrow> trim_front ws (drop (length w) s))"
  by auto
termination
  by (relation "measure (\<lambda>(ws, s). length s)")
    (auto simp: find_Some_iff has_prefix_def, metis diff_less length_greater_0_conv take_Nil)

declare trim_front.simps [simp del]

definition trim_space :: "string \<Rightarrow> string" where
  "trim_space s = rev (trim_front (map rev white_space) (rev (trim_front white_space s)))"

lemma find_None_prefix:
  "find (\<lambda>w. w \<noteq> [] \<and> has_prefix s w) ws = None \<longleftrightarrow> (\<forall>w\<in>set ws. w \<noteq> [] \<longrightarrow> \<not> prefix w s)"
  by (auto simp: find_None_iff has_prefix_iff)

lemma trim_front_fixed: "trim_front ws s = s \<longleftrightarrow> (\<forall>w\<in>set ws. w \<noteq> [] \<longrightarrow> \<not> prefix w s)"
proof
  have len: "length (trim_front ws t) \<le> length t" for t
    by (induction ws t rule: trim_front.induct)
      (subst trim_front.simps, force split: option.split)
  assume eq: "trim_front ws s = s"
  show "\<forall>w\<in>set ws. w \<noteq> [] \<longrightarrow> \<not> prefix w s"
  proof (cases "find (\<lambda>w. w \<noteq> [] \<and> has_prefix s w) ws")
    case (Some w)
    then have w: "w \<noteq> []" "prefix w s" by (auto simp: find_Some_iff has_prefix_iff)
    have "trim_front ws s = trim_front ws (drop (length w) s)" by (subst trim_front.simps) (simp add: Some)
    with len [of "drop (length w) s"] eq have "length s \<le> length s - length w" by simp
    with w have False by (cases w) (auto dest: prefix_length_le)
    then show ?thesis ..
  qed (simp add: find_None_prefix)
next
  assume "\<forall>w\<in>set ws. w \<noteq> [] \<longrightarrow> \<not> prefix w s"
  then show "trim_front ws s = s" by (subst trim_front.simps) (simp add: find_None_prefix [THEN iffD2])
qed

lemma trim_front_suffix: "suffix (trim_front ws s) s"
  by (induction ws s rule: trim_front.induct)
    (subst trim_front.simps, force split: option.split intro: suffix_order.trans suffix_drop)

lemma trim_front_clean: "w \<in> set ws \<Longrightarrow> w \<noteq> [] \<Longrightarrow> \<not> prefix w (trim_front ws s)"
proof (induction ws s rule: trim_front.induct)
  case (1 ws s)
  show ?case
  proof (cases "find (\<lambda>w. w \<noteq> [] \<and> has_prefix s w) ws")
    case None
    then have "trim_front ws s = s" by (subst trim_front.simps) simp
    with None 1(2,3) show ?thesis by (simp add: find_None_prefix)
  next
    case (Some v)
    with 1(1) [OF Some 1(2,3)] show ?thesis by (subst trim_front.simps) simp
  qed
qed

text \<open>A trimmed string neither starts nor ends with white space, and trimming it changes nothing.\<close>

lemma trim_space_clean:
  assumes "w \<in> set white_space" and "w \<noteq> []"
  shows "\<not> prefix w (trim_space s)" and "\<not> suffix w (trim_space s)"
proof -
  let ?t = "trim_front white_space s"
  have "suffix (trim_front (map rev white_space) (rev ?t)) (rev ?t)" by (rule trim_front_suffix)
  then have "prefix (trim_space s) ?t" by (simp add: trim_space_def suffix_to_prefix)
  moreover have "\<not> prefix w ?t" using assms by (rule trim_front_clean)
  ultimately show "\<not> prefix w (trim_space s)" by (metis prefix_order.trans)
  have "\<not> prefix (rev w) (trim_front (map rev white_space) (rev ?t))"
    using assms by (intro trim_front_clean) auto
  then show "\<not> suffix w (trim_space s)" by (simp add: trim_space_def suffix_to_prefix)
qed

lemma trim_space_idem: "trim_space (trim_space s) = trim_space s"
proof -
  have "trim_front white_space (trim_space s) = trim_space s"
    unfolding trim_front_fixed using trim_space_clean(1) by blast
  moreover have "trim_front (map rev white_space) (rev (trim_space s)) = rev (trim_space s)"
    unfolding trim_front_fixed using trim_space_clean(2)
    by (auto simp: suffix_to_prefix)
  ultimately show ?thesis by (simp add: trim_space_def [of "trim_space s"])
qed

text \<open>
  \<open>strings.ToLower\<close>, as far as ASCII letters are concerned: the runes whose lower case is an
  ASCII letter are the upper case letters, the Kelvin sign (\<open>k\<close>) and the dotted capital I
  (\<open>i\<close>). Other runes are kept here; their lower case contains no ASCII letter either.
\<close>

definition upper_letters :: string where
  "upper_letters = ''ABCDEFGHIJKLMNOPQRSTUVWXYZ''"

fun lower_char :: "char \<Rightarrow> char" where
  "lower_char (Char b0 b1 b2 b3 b4 b5 b6 b7) =
     (if List.member upper_letters (Char b0 b1 b2 b3 b4 b5 b6 b7)
      then Char b0 b1 b2 b3 b4 True b6 b7 else Char b0 b1 b2 b3 b4 b5 b6 b7)"

fun to_lower :: "string \<Rightarrow> string" where
  "to_lower [] = []"
| "to_lower (c # cs) =
     (if has_prefix (c # cs) [CHR 0xE2, CHR 0x84, CHR 0xAA] then CHR ''k'' # to_lower (drop 2 cs)
      else if has_prefix (c # cs) [CHR 0xC4, CHR 0xB0] then CHR ''i'' # to_lower (drop 1 cs)
      else lower_char c # to_lower cs)"

lemma to_lower_example: "to_lower ''Pre_Tool-USE'' = ''pre_tool-use''"
  by code_simp

text \<open>Decimal numbers, as \<open>%d\<close> and \<open>strconv.FormatInt\<close> print them.\<close>

definition digit_char :: "nat \<Rightarrow> char" where
  "digit_char d = ''0123456789'' ! d"

fun nat_str :: "nat \<Rightarrow> string" where
  "nat_str n = (if n < 10 then [digit_char n] else nat_str (n div 10) @ [digit_char (n mod 10)])"

declare nat_str.simps [simp del]

definition int_str :: "int \<Rightarrow> string" where
  "int_str n = (if n < 0 then CHR ''-'' # nat_str (nat (- n)) else nat_str (nat n))"

text \<open>\<open>strings.Count\<close> with a separator of one byte.\<close>

definition count_char :: "char \<Rightarrow> string \<Rightarrow> nat" where
  "count_char c s = length (filter (\<lambda>x. x = c) s)"

lemma count_char_append [simp]: "count_char c (xs @ ys) = count_char c xs + count_char c ys"
  by (simp add: count_char_def)

lemma length_split_on: "length (split_on c s) = Suc (count_char c s)"
  by (induction s) (auto simp: count_char_def split: list.splits)

lemma join_with_append:
  "xs \<noteq> [] \<Longrightarrow> ys \<noteq> [] \<Longrightarrow> join_with sep (xs @ ys) = join_with sep xs @ sep @ join_with sep ys"
proof (induction xs)
  case (Cons x xs)
  then show ?case by (cases "xs = []") (simp_all add: join_with_Cons)
qed simp

lemma split_on_join:
  assumes "ls \<noteq> []" and "\<And>l. l \<in> set ls \<Longrightarrow> c \<notin> set l"
  shows "split_on c (join_with [c] ls) = ls"
  using assms
proof (induction ls)
  case (Cons l ls)
  show ?case
  proof (cases "ls = []")
    case True
    then show ?thesis using Cons.prems by (simp add: split_on_absent)
  next
    case False
    then have "join_with [c] (l # ls) = l @ c # join_with [c] ls" by (simp add: join_with_Cons)
    then show ?thesis using Cons False by (simp add: split_on_append split_on_absent)
  qed
qed simp

lemma join_with_take_prefix: "prefix (join_with sep (take n ps)) (join_with sep ps)"
proof (cases "take n ps = [] \<or> drop n ps = []")
  case False
  then have "join_with sep ps = join_with sep (take n ps) @ sep @ join_with sep (drop n ps)"
    by (metis append_take_drop_id join_with_append)
  then show ?thesis by simp
qed auto

lemma join_with_drop_suffix: "suffix (join_with sep (drop n ps)) (join_with sep ps)"
proof (cases "take n ps = [] \<or> drop n ps = []")
  case True
  then show ?thesis by (auto simp: suffix_def)
next
  case False
  then have "join_with sep ps = (join_with sep (take n ps) @ sep) @ join_with sep (drop n ps)"
    by (metis append_assoc append_take_drop_id join_with_append)
  then show ?thesis by (simp add: suffix_def)
qed

subsection \<open>path/filepath on Unix\<close>

fun clean_comps :: "bool \<Rightarrow> string list \<Rightarrow> string list \<Rightarrow> string list" where
  "clean_comps rooted out [] = rev out"
| "clean_comps rooted out (c # cs) =
     (if c = [] \<or> c = ''.'' then clean_comps rooted out cs
      else if c = ''..'' then
        (if out \<noteq> [] \<and> hd out \<noteq> ''..'' then clean_comps rooted (tl out) cs
         else if rooted then clean_comps rooted out cs
         else clean_comps rooted (c # out) cs)
      else clean_comps rooted (c # out) cs)"

definition path_clean :: "string \<Rightarrow> string" where
  "path_clean p =
     (if p = [] then ''.''
      else let rooted = has_prefix p ''/'';
               body = join_with ''/'' (clean_comps rooted [] (split_on CHR ''/'' p))
           in if rooted then ''/'' @ body else if body = [] then ''.'' else body)"

text \<open>\<open>path_split_dir p\<close> is the prefix of \<open>p\<close> up to and including its last slash.\<close>

definition path_split_dir :: "string \<Rightarrow> string" where
  "path_split_dir p = rev (dropWhile (\<lambda>c. c \<noteq> CHR ''/'') (rev p))"

definition path_dir :: "string \<Rightarrow> string" where
  "path_dir p = path_clean (path_split_dir p)"

lemma path_dir_examples:
  "path_dir ''/a/b/c.go'' = ''/a/b''" "path_dir ''c.go'' = ''.''" "path_dir ''a//b/../c'' = ''a''"
  "path_dir ''/'' = ''/''" "path_dir ''../x'' = ''..''"
  by (simp_all add: path_dir_def path_split_dir_def path_clean_def has_prefix_def)

text \<open>A cleaned path has no empty, \<open>.\<close> or (below the root) \<open>..\<close> components.\<close>

lemma clean_comps_subset:
  assumes "set out \<subseteq> G" and "\<And>c. c \<noteq> [] \<Longrightarrow> c \<noteq> ''.'' \<Longrightarrow> (c = ''..'' \<Longrightarrow> \<not> rooted) \<Longrightarrow> c \<in> G"
  shows "set (clean_comps rooted out cs) \<subseteq> G"
  using assms(1)
proof (induction cs arbitrary: out)
  case (Cons c cs)
  have "set (tl out) \<subseteq> G" using Cons.prems by (cases out) auto
  moreover have "set (c # out) \<subseteq> G" if "c \<noteq> []" "c \<noteq> ''.''" "c = ''..'' \<Longrightarrow> \<not> rooted"
    using Cons.prems assms(2) [OF that] by simp
  ultimately show ?case
    using Cons.IH [OF Cons.prems] Cons.IH [of "tl out"] Cons.IH [of "c # out"]
    by (cases out; cases rooted; cases "c = ''..''"; cases "hd out = ''..''"; simp)
qed simp

lemma clean_comps_components:
  "set (clean_comps rooted [] cs) \<subseteq> {c. c \<noteq> [] \<and> c \<noteq> ''.'' \<and> (c = ''..'' \<longrightarrow> \<not> rooted)}"
  by (rule clean_comps_subset) auto

text \<open>A line terminator does not show in a trimmed line.\<close>

lemma trim_front_unfold:
  "w \<in> set ws \<Longrightarrow> w \<noteq> [] \<Longrightarrow> prefix w s \<Longrightarrow>
   \<exists>v\<in>set ws. v \<noteq> [] \<and> prefix v s \<and> trim_front ws s = trim_front ws (drop (length v) s)"
proof -
  assume "w \<in> set ws" "w \<noteq> []" "prefix w s"
  then obtain v where v: "find (\<lambda>w. w \<noteq> [] \<and> has_prefix s w) ws = Some v"
    by (metis find_None_prefix not_Some_eq)
  then have "v \<in> set ws \<and> v \<noteq> [] \<and> prefix v s" by (auto simp: find_Some_iff has_prefix_iff in_set_conv_nth)
  moreover have "trim_front ws s = trim_front ws (drop (length v) s)" by (subst trim_front.simps) (simp add: v)
  ultimately show ?thesis by blast
qed

lemma trim_front_last:
  assumes "\<And>w. w \<in> set ws \<Longrightarrow> w \<noteq> [] \<Longrightarrow> last w = c \<Longrightarrow> w = [c]" and "[c] \<in> set ws"
  shows "trim_front ws (s @ [c]) = (if trim_front ws s = [] then [] else trim_front ws s @ [c])"
proof (induction "length s" arbitrary: s rule: less_induct)
  case less
  have empty: "trim_front ws [] = []" by (subst trim_front_fixed) auto
  show ?case
  proof (cases "s = []")
    case True
    have "find (\<lambda>w. w \<noteq> [] \<and> has_prefix [c] w) ws = Some [c]" if "find (\<lambda>w. w \<noteq> [] \<and> has_prefix [c] w) ws \<noteq> None"
    proof -
      from that have "\<exists>v. find (\<lambda>w. w \<noteq> [] \<and> has_prefix [c] w) ws = Some v" by (rule not_None_eq [THEN iffD1])
      then obtain v where v: "find (\<lambda>w. w \<noteq> [] \<and> has_prefix [c] w) ws = Some v" ..
      then have "v \<noteq> [] \<and> prefix v [c]" by (auto simp: find_Some_iff has_prefix_iff)
      then have "v = [c]" by (auto simp: prefix_Cons)
      with v show ?thesis by simp
    qed
    moreover have "find (\<lambda>w. w \<noteq> [] \<and> has_prefix [c] w) ws \<noteq> None"
      unfolding find_None_prefix using assms(2) by auto
    ultimately have "trim_front ws [c] = []" by (subst trim_front.simps) (simp add: empty)
    then show ?thesis using True empty by simp
  next
    case False
    show ?thesis
    proof (cases "find (\<lambda>w. w \<noteq> [] \<and> has_prefix s w) ws")
      case None
      have "\<not> prefix w (s @ [c])" if "w \<in> set ws" "w \<noteq> []" for w
      proof
        assume p: "prefix w (s @ [c])"
        then have "w = s @ [c] \<or> prefix w s" by (simp add: prefix_snoc)
        moreover have "\<not> prefix w s" using None that unfolding find_None_prefix by blast
        ultimately have "w = s @ [c]" by blast
        with assms(1) [OF that] False show False by simp
      qed
      then have "trim_front ws (s @ [c]) = s @ [c]" unfolding trim_front_fixed by blast
      moreover have "trim_front ws s = s" using None by (simp add: trim_front_fixed find_None_prefix)
      ultimately show ?thesis using False by simp
    next
      case (Some v)
      then have v: "v \<noteq> []" "prefix v s" by (auto simp: find_Some_iff has_prefix_iff)
      have "find (\<lambda>w. w \<noteq> [] \<and> has_prefix (s @ [c]) w) ws = Some v"
      proof -
        have same: "(w \<noteq> [] \<and> has_prefix (s @ [c]) w) = (w \<noteq> [] \<and> has_prefix s w)" if "w \<in> set ws" for w
        proof (cases "w = s @ [c]")
          case True
          then show ?thesis using assms(1) [OF that] False by simp
        next
          case False
          then show ?thesis by (auto simp: has_prefix_iff prefix_snoc)
        qed
        have "find (\<lambda>w. w \<noteq> [] \<and> has_prefix (s @ [c]) w) ws = find (\<lambda>w. w \<noteq> [] \<and> has_prefix s w) ws"
          by (rule find_cong [OF refl]) (rule same)
        with Some show ?thesis by simp
      qed
      then have "trim_front ws (s @ [c]) = trim_front ws (drop (length v) (s @ [c]))" by (subst trim_front.simps) simp
      moreover have "drop (length v) (s @ [c]) = drop (length v) s @ [c]" using v(2) by (auto simp: prefix_def)
      moreover have "trim_front ws s = trim_front ws (drop (length v) s)" by (subst trim_front.simps) (simp add: Some)
      moreover have "length (drop (length v) s) < length s" using v False by auto
      ultimately show ?thesis using less [of "drop (length v) s"] by simp
    qed
  qed
qed

lemma trim_space_newline: "trim_space (s @ [CHR 0x0A]) = trim_space s"
proof -
  have "trim_front white_space (s @ [CHR 0x0A]) =
      (if trim_front white_space s = [] then [] else trim_front white_space s @ [CHR 0x0A])"
    by (rule trim_front_last) (auto simp: white_space_def)
  moreover have "trim_front (map rev white_space) (CHR 0x0A # t) = trim_front (map rev white_space) t" for t
  proof -
    have "find (\<lambda>w. w \<noteq> [] \<and> has_prefix (CHR 0x0A # t) w) (map rev white_space) = Some [CHR 0x0A]"
      by (simp add: white_space_def has_prefix_def)
    then show ?thesis by (subst trim_front.simps) simp
  qed
  ultimately show ?thesis by (simp add: trim_space_def)
qed

end
