(* ===== verification/CSync.thy ===== *)
theory CSync
  imports Prelude
begin

text \<open>
  The concurrent containers of internal/csync: \<open>Map\<close> (maps.go), \<open>VersionedMap\<close>
  (versionedmap.go), \<open>Slice\<close> (slices.go) and \<open>Value\<close> (value.go).

  Every method of the Go types takes the container's mutex for its whole body, so a method is
  one atomic function of the container. \<open>GetOrSet\<close> is the exception, it takes the lock twice;
  its two critical sections are \<open>map_get_or_set_read\<close> and \<open>map_get_or_set_write\<close>.
  The maps handed to \<open>NewMapFrom\<close> and \<open>Reset\<close> are non-nil Go maps.

  The locale \<open>keyed_store\<close> is the interface the other components rely on; it is interpreted on
  \<open>Map\<close> and on \<open>VersionedMap\<close>.
\<close>

subsection \<open>Map\<close>

record ('k, 'v) cmap =
  inner :: "('k, 'v) gomap"

definition new_map :: "('k, 'v) cmap" where
  "new_map = \<lparr>inner = []\<rparr>"

definition new_map_from :: "('k, 'v) gomap \<Rightarrow> ('k, 'v) cmap" where
  "new_map_from m = \<lparr>inner = m\<rparr>"

text \<open>
  \<open>NewLazyMap\<close> returns with the lock held and releases it once \<open>load\<close> has filled the map, so
  the first state any method can observe is the loaded one.
\<close>

definition new_lazy_map :: "(unit \<Rightarrow> ('k, 'v) gomap) \<Rightarrow> ('k, 'v) cmap" where
  "new_lazy_map load = \<lparr>inner = load ()\<rparr>"

definition map_reset :: "('k, 'v) gomap \<Rightarrow> ('k, 'v) cmap \<Rightarrow> ('k, 'v) cmap" where
  "map_reset input m = m\<lparr>inner := input\<rparr>"

definition map_set :: "'k \<Rightarrow> 'v \<Rightarrow> ('k, 'v) cmap \<Rightarrow> ('k, 'v) cmap" where
  "map_set k v m = m\<lparr>inner := AList.update k v (inner m)\<rparr>"

definition map_del :: "'k \<Rightarrow> ('k, 'v) cmap \<Rightarrow> ('k, 'v) cmap" where
  "map_del k m = m\<lparr>inner := AList.delete k (inner m)\<rparr>"

definition map_get :: "('k, 'v) cmap \<Rightarrow> 'k \<Rightarrow> 'v option" where
  "map_get m k = map_of (inner m) k"

text \<open>
  \<open>expected\<close> is an \<open>any\<close>: \<open>None\<close> stands for a value of another dynamic type, which is never
  equal to the stored one.
\<close>

definition compare_and_delete :: "'k \<Rightarrow> 'v option \<Rightarrow> ('k, 'v) cmap \<Rightarrow> bool \<times> ('k, 'v) cmap" where
  "compare_and_delete k expected m =
     (case map_of (inner m) k of
        None \<Rightarrow> (False, m)
      | Some current \<Rightarrow>
          if Some current \<noteq> expected then (False, m)
          else (True, m\<lparr>inner := AList.delete k (inner m)\<rparr>))"

text \<open>\<open>zero\<close> is the zero value of the value type.\<close>

definition map_update :: "'v \<Rightarrow> 'k \<Rightarrow> ('v \<Rightarrow> 'v) \<Rightarrow> ('k, 'v) cmap \<Rightarrow> ('k, 'v) cmap" where
  "map_update zero k fn m =
     (let v = (case map_of (inner m) k of None \<Rightarrow> zero | Some v \<Rightarrow> v)
      in m\<lparr>inner := AList.update k (fn v) (inner m)\<rparr>)"

definition map_len :: "('k, 'v) cmap \<Rightarrow> nat" where
  "map_len m = length (inner m)"

definition map_get_or_set_read :: "('k, 'v) cmap \<Rightarrow> 'k \<Rightarrow> 'v option" where
  "map_get_or_set_read m k = map_get m k"

definition map_get_or_set_write :: "'k \<Rightarrow> 'v \<Rightarrow> ('k, 'v) cmap \<Rightarrow> 'v \<times> ('k, 'v) cmap" where
  "map_get_or_set_write k value m = (value, map_set k value m)"

definition map_get_or_set :: "'k \<Rightarrow> (unit \<Rightarrow> 'v) \<Rightarrow> ('k, 'v) cmap \<Rightarrow> 'v \<times> ('k, 'v) cmap" where
  "map_get_or_set k fn m =
     (case map_get_or_set_read m k of
        Some got \<Rightarrow> (got, m)
      | None \<Rightarrow> map_get_or_set_write k (fn ()) m)"

definition map_take :: "'k \<Rightarrow> ('k, 'v) cmap \<Rightarrow> 'v option \<times> ('k, 'v) cmap" where
  "map_take k m = (map_of (inner m) k, m\<lparr>inner := AList.delete k (inner m)\<rparr>)"

definition map_copy :: "('k, 'v) cmap \<Rightarrow> ('k, 'v) gomap" where
  "map_copy m = inner m"

text \<open>
  The iterators run over a copy, in the runtime's order, until the consumer's \<open>yield\<close> answers
  false. \<open>yield_all\<close> is that loop for a consumer with a state.
\<close>

fun yield_all :: "('a \<Rightarrow> 's \<Rightarrow> bool \<times> 's) \<Rightarrow> 'a list \<Rightarrow> 's \<Rightarrow> 's" where
  "yield_all yield [] s = s"
| "yield_all yield (x # xs) s =
     (case yield x s of (go_on, s') \<Rightarrow> if go_on then yield_all yield xs s' else s')"

definition map_seq2 ::
  "(('k, 'v) gomap \<Rightarrow> ('k, 'v) gomap) \<Rightarrow> ('k, 'v) cmap \<Rightarrow> ('k \<times> 'v \<Rightarrow> 's \<Rightarrow> bool \<times> 's) \<Rightarrow> 's \<Rightarrow> 's" where
  "map_seq2 ord m yield s = yield_all yield (ord (map_copy m)) s"

definition map_seq ::
  "(('k, 'v) gomap \<Rightarrow> ('k, 'v) gomap) \<Rightarrow> ('k, 'v) cmap \<Rightarrow> ('v \<Rightarrow> 's \<Rightarrow> bool \<times> 's) \<Rightarrow> 's \<Rightarrow> 's" where
  "map_seq ord m yield s = map_seq2 ord m (\<lambda>(k, v). yield v) s"

definition map_wf :: "('k, 'v) cmap \<Rightarrow> bool" where
  "map_wf m \<longleftrightarrow> gm_wf (inner m)"

lemmas map_op_defs = new_map_def new_map_from_def new_lazy_map_def map_reset_def map_set_def
  map_del_def map_get_def compare_and_delete_def map_update_def map_len_def
  map_get_or_set_read_def map_get_or_set_write_def map_get_or_set_def map_take_def map_copy_def

lemma map_wf_ops [inv_intros]:
  "map_wf new_map"
  "map_wf m \<Longrightarrow> map_wf (map_set k v m)"
  "map_wf m \<Longrightarrow> map_wf (map_del k m)"
  "map_wf m \<Longrightarrow> map_wf (map_update z k f m)"
  "map_wf m \<Longrightarrow> map_wf (snd (map_take k m))"
  "map_wf m \<Longrightarrow> map_wf (snd (map_get_or_set k g m))"
  "map_wf m \<Longrightarrow> map_wf (snd (compare_and_delete k e m))"
  by (auto simp: map_wf_def map_op_defs Let_def split: option.splits)

lemma map_get_simps [simp]:
  "map_get new_map k = None"
  "map_get (map_set k v m) k' = (if k' = k then Some v else map_get m k')"
  "map_get (map_del k m) k' = (if k' = k then None else map_get m k')"
  "map_get (snd (map_take k m)) k' = (if k' = k then None else map_get m k')"
  "fst (map_take k m) = map_get m k"
  by (simp_all add: map_op_defs)

lemma map_copy_lookup: "map_wf m \<Longrightarrow> (k, v) \<in> set (map_copy m) \<longleftrightarrow> map_get m k = Some v"
  by (simp add: map_wf_def map_copy_def map_get_def)

text \<open>A loop that never stops early visits every entry, whatever the runtime's order.\<close>

lemma yield_all_collect: "yield_all (\<lambda>x acc. (True, acc @ [x])) xs acc = acc @ xs"
  by (induction xs arbitrary: acc) auto

lemma map_seq2_collect: "map_seq2 ord m (\<lambda>x acc. (True, acc @ [x])) [] = ord (map_copy m)"
  by (simp add: map_seq2_def yield_all_collect)

subsection \<open>The store interface\<close>

text \<open>
  What a client of a concurrent store relies on. \<open>take\<close> is the race primitive: the entry is
  handed to exactly one caller.
\<close>

locale keyed_store =
  fixes lookup :: "'m \<Rightarrow> 'k \<Rightarrow> 'v option"
    and put :: "'k \<Rightarrow> 'v \<Rightarrow> 'm \<Rightarrow> 'm"
    and remove :: "'k \<Rightarrow> 'm \<Rightarrow> 'm"
    and wf :: "'m \<Rightarrow> bool"
  assumes lookup_put: "wf m \<Longrightarrow> lookup (put k v m) k' = (if k' = k then Some v else lookup m k')"
    and lookup_remove: "wf m \<Longrightarrow> lookup (remove k m) k' = (if k' = k then None else lookup m k')"
    and wf_put: "wf m \<Longrightarrow> wf (put k v m)"
    and wf_remove: "wf m \<Longrightarrow> wf (remove k m)"
begin

lemma lookup_put_put: "wf m \<Longrightarrow> lookup (put k v (put k w m)) k' = lookup (put k v m) k'"
  by (simp add: lookup_put wf_put)

lemma lookup_put_commute: "wf m \<Longrightarrow> k \<noteq> j \<Longrightarrow>
    lookup (put k v (put j w m)) i = lookup (put j w (put k v m)) i"
  by (simp add: lookup_put wf_put)

lemma lookup_remove_put: "wf m \<Longrightarrow> lookup m k = None \<Longrightarrow> lookup (remove k (put k v m)) i = lookup m i"
  by (simp add: lookup_put lookup_remove wf_put)

lemma wf_fold_put: "wf m \<Longrightarrow> wf (fold (\<lambda>(k, v). put k v) kvs m)"
  by (induction kvs arbitrary: m) (auto intro: wf_put)

lemma lookup_fold_put_other: "wf m \<Longrightarrow> k \<notin> fst ` set kvs \<Longrightarrow>
    lookup (fold (\<lambda>(k, v). put k v) kvs m) k = lookup m k"
  by (induction kvs arbitrary: m) (auto simp: lookup_put wf_put)

end

locale take_store = keyed_store +
  fixes take :: "'k \<Rightarrow> 'm \<Rightarrow> 'v option \<times> 'm"
  assumes take_eq: "wf m \<Longrightarrow> take k m = (lookup m k, remove k m)"
begin

lemma take_wins: "wf m \<Longrightarrow> lookup m k = Some v \<Longrightarrow> fst (take k m) = Some v"
  by (simp add: take_eq)

lemma take_twice: "wf m \<Longrightarrow> fst (take k (snd (take k m))) = None"
  by (simp add: take_eq lookup_remove wf_remove)

lemma take_after_others: "wf m \<Longrightarrow> k \<noteq> j \<Longrightarrow> fst (take k (snd (take j m))) = fst (take k m)"
  by (simp add: take_eq lookup_remove wf_remove)

text \<open>Of any number of takers of one key, only the first one gets the entry.\<close>

primrec take_results :: "nat \<Rightarrow> 'k \<Rightarrow> 'm \<Rightarrow> 'v option list" where
  "take_results 0 k m = []"
| "take_results (Suc n) k m = fst (take k m) # take_results n k (snd (take k m))"

lemma take_results_absent: "wf m \<Longrightarrow> lookup m k = None \<Longrightarrow> take_results n k m = replicate n None"
  by (induction n arbitrary: m) (auto simp: take_eq lookup_remove wf_remove)

lemma one_winner: "wf m \<Longrightarrow> take_results (Suc n) k m = lookup m k # replicate n None"
  by (simp add: take_eq take_results_absent lookup_remove wf_remove)

end

interpretation cmap: take_store map_get map_set map_del map_wf map_take
  by unfold_locales (auto intro: inv_intros simp: map_take_def map_get_def map_del_def map_set_def map_wf_def)

subsection \<open>VersionedMap\<close>

record ('k, 'v) vmap =
  vm_map :: "('k, 'v) cmap"
  vm_version :: u64

definition new_versioned_map :: "('k, 'v) vmap" where
  "new_versioned_map = \<lparr>vm_map = new_map, vm_version = 0\<rparr>"

definition vmap_get :: "('k, 'v) vmap \<Rightarrow> 'k \<Rightarrow> 'v option" where
  "vmap_get m k = map_get (vm_map m) k"

definition vmap_set :: "'k \<Rightarrow> 'v \<Rightarrow> ('k, 'v) vmap \<Rightarrow> ('k, 'v) vmap" where
  "vmap_set k v m = m\<lparr>vm_map := map_set k v (vm_map m), vm_version := vm_version m + 1\<rparr>"

definition vmap_del :: "'k \<Rightarrow> ('k, 'v) vmap \<Rightarrow> ('k, 'v) vmap" where
  "vmap_del k m = m\<lparr>vm_map := map_del k (vm_map m), vm_version := vm_version m + 1\<rparr>"

definition vmap_copy :: "('k, 'v) vmap \<Rightarrow> ('k, 'v) gomap" where
  "vmap_copy m = map_copy (vm_map m)"

definition vmap_len :: "('k, 'v) vmap \<Rightarrow> nat" where
  "vmap_len m = map_len (vm_map m)"

definition vmap_seq2 ::
  "(('k, 'v) gomap \<Rightarrow> ('k, 'v) gomap) \<Rightarrow> ('k, 'v) vmap \<Rightarrow> ('k \<times> 'v \<Rightarrow> 's \<Rightarrow> bool \<times> 's) \<Rightarrow> 's \<Rightarrow> 's" where
  "vmap_seq2 ord m yield s = map_seq2 ord (vm_map m) yield s"

definition vmap_wf :: "('k, 'v) vmap \<Rightarrow> bool" where
  "vmap_wf m \<longleftrightarrow> map_wf (vm_map m)"

lemmas vmap_op_defs = new_versioned_map_def vmap_get_def vmap_set_def vmap_del_def vmap_wf_def

interpretation vmap: keyed_store vmap_get vmap_set vmap_del vmap_wf
  by unfold_locales (auto intro: inv_intros simp: vmap_op_defs)

datatype ('k, 'v) vmap_op = VSet 'k 'v | VDel 'k

fun vmap_apply :: "('k, 'v) vmap \<Rightarrow> ('k, 'v) vmap_op \<Rightarrow> ('k, 'v) vmap" where
  "vmap_apply m (VSet k v) = vmap_set k v m"
| "vmap_apply m (VDel k) = vmap_del k m"

interpretation vmap_run: safe_system vmap_apply vmap_wf
  by unfold_locales (metis vmap.wf_put vmap.wf_remove vmap_apply.simps vmap_op.exhaust)

lemma vmap_version_run: "vm_version (foldl vmap_apply m es) = vm_version m + of_nat (length es)"
proof (induction es arbitrary: m)
  case Nil
  then show ?case by simp
next
  case (Cons e es)
  have "vm_version (vmap_apply m e) = vm_version m + 1"
    by (cases e) (simp_all add: vmap_op_defs)
  with Cons show ?case by simp
qed

lemma of_nat_word_eq_0: "n < 2 ^ 64 \<Longrightarrow> (of_nat n :: u64) = 0 \<longleftrightarrow> n = 0"
  by (simp add: word_unat_eq_iff unat_of_nat)

text \<open>
  Two reads of \<open>Version\<close> that agree mean that nothing was written in between, as long as
  fewer than \<open>2 ^ 64\<close> writes happened: every \<open>Set\<close> and \<open>Del\<close> moves the counter, also one
  that leaves the contents as they were, and the 64-bit counter only comes back after a full turn.
\<close>

theorem version_detects_writes:
  assumes "length es < 2 ^ 64"
  shows "vm_version (foldl vmap_apply m es) = vm_version m \<longleftrightarrow> es = []"
  using assms by (simp add: vmap_version_run of_nat_word_eq_0)

theorem version_detects_writes_witness:
  "vm_version (foldl vmap_apply (new_versioned_map :: (nat, nat) vmap) [VSet 1 2, VDel 1])
     \<noteq> vm_version (new_versioned_map :: (nat, nat) vmap)"
  using version_detects_writes [of "[VSet 1 2, VDel 1]" "new_versioned_map :: (nat, nat) vmap"]
  by simp

subsection \<open>Slice and Value\<close>

record 'a cslice =
  sl_items :: "'a list"

definition new_slice :: "'a cslice" where
  "new_slice = \<lparr>sl_items = []\<rparr>"

definition new_slice_from :: "'a list \<Rightarrow> 'a cslice" where
  "new_slice_from s = \<lparr>sl_items = s\<rparr>"

definition slice_append :: "'a list \<Rightarrow> 'a cslice \<Rightarrow> 'a cslice" where
  "slice_append xs s = s\<lparr>sl_items := sl_items s @ xs\<rparr>"

definition slice_get :: "'a cslice \<Rightarrow> int \<Rightarrow> 'a option" where
  "slice_get s index =
     (if index < 0 \<or> int (length (sl_items s)) \<le> index then None else Some (sl_items s ! nat index))"

definition slice_len :: "'a cslice \<Rightarrow> nat" where
  "slice_len s = length (sl_items s)"

definition set_slice :: "'a list \<Rightarrow> 'a cslice \<Rightarrow> 'a cslice" where
  "set_slice xs s = s\<lparr>sl_items := xs\<rparr>"

definition slice_copy :: "'a cslice \<Rightarrow> 'a list" where
  "slice_copy s = sl_items s"

definition slice_seq2 :: "'a cslice \<Rightarrow> (nat \<times> 'a \<Rightarrow> 's \<Rightarrow> bool \<times> 's) \<Rightarrow> 's \<Rightarrow> 's" where
  "slice_seq2 s yield st = yield_all yield (zip [0..<length (slice_copy s)] (slice_copy s)) st"

definition slice_seq :: "'a cslice \<Rightarrow> ('a \<Rightarrow> 's \<Rightarrow> bool \<times> 's) \<Rightarrow> 's \<Rightarrow> 's" where
  "slice_seq s yield st = slice_seq2 s (\<lambda>(i, v). yield v) st"

text \<open>\<open>reflect.Kind\<close> as \<open>NewValue\<close> distinguishes it; the kind of the argument is an argument.\<close>

datatype go_kind = KPointer | KSlice | KMap | KOther

datatype value_panic = PointerUnsupported | SliceUnsupported | MapUnsupported

record 'a cvalue =
  val_of :: 'a

definition new_value :: "go_kind \<Rightarrow> 'a \<Rightarrow> value_panic + 'a cvalue" where
  "new_value kind t =
     (case kind of
        KPointer \<Rightarrow> Inl PointerUnsupported
      | KSlice \<Rightarrow> Inl SliceUnsupported
      | KMap \<Rightarrow> Inl MapUnsupported
      | KOther \<Rightarrow> Inr \<lparr>val_of = t\<rparr>)"

definition value_get :: "'a cvalue \<Rightarrow> 'a" where
  "value_get v = val_of v"

definition value_set :: "'a \<Rightarrow> 'a cvalue \<Rightarrow> 'a cvalue" where
  "value_set t v = v\<lparr>val_of := t\<rparr>"

lemmas slice_op_defs = new_slice_def new_slice_from_def slice_append_def slice_get_def slice_len_def
  set_slice_def slice_copy_def slice_seq2_def

text \<open>
  An index never panics: it answers exactly for the positions of the slice, and an append only
  adds positions at the end.
\<close>

lemma slice_get_append: "slice_get (slice_append xs s) i =
    (if i < int (slice_len s) then slice_get s i
     else slice_get (new_slice_from xs) (i - int (slice_len s)))"
  by (auto simp: slice_op_defs nth_append nat_diff_distrib)

lemma slice_get_some_iff: "(\<exists>x. slice_get s i = Some x) \<longleftrightarrow> 0 \<le> i \<and> i < int (slice_len s)"
  by (auto simp: slice_op_defs)

lemma slice_seq_collect: "slice_seq s (\<lambda>x acc. (True, acc @ [x])) [] = sl_items s"
proof -
  have "yield_all (\<lambda>(i, v) acc. (True, acc @ [v])) (zip is xs) acc = acc @ xs"
    if "length is = length xs" for "is" :: "nat list" and xs acc :: "'a list"
    using that by (induction "is" xs arbitrary: acc rule: list_induct2) auto
  then show ?thesis
    by (simp add: slice_seq_def slice_op_defs split_def)
qed

end
