(* ===== verification/PubSub.thy ===== *)
theory PubSub
  imports Prelude "HOL-Library.Multiset"
begin

text \<open>
  The event broker of internal/pubsub (broker.go, events.go).

  A \<open>subscription\<close> owns a bounded queue of pointers to items and the map \<open>open\<close> of the items
  that a later event with the same key may still overwrite in place. The pointers matter: an
  overwrite goes through \<open>open\<close> to an item that is somewhere in the queue. So items live in a
  store (\<open>s_heap\<close>) and the queue and \<open>open\<close> hold addresses.

  \<open>publish\<close>, the fast path of \<open>publishMustDeliver\<close> and the pump's take run under the
  subscription's mutex and are atomic; the slow path of \<open>publishMustDeliver\<close> (a blocking send
  with a timeout) happens outside it and is a step of its own, \<open>sub_slow_send\<close>. \<open>s_out\<close> is what
  the reader has received so far.
\<close>

subsection \<open>Events, items and subscriptions\<close>

record 'p event =
  ev_type :: string
  ev_payload :: 'p
  ev_must :: bool

record 'p item =
  it_event :: "'p event"
  it_key :: string

datatype 'p pump_state = PumpIdle | PumpReceived nat | PumpHolding "'p event" | PumpStopped

record 'p subscription =
  s_heap :: "nat \<Rightarrow> 'p item"
  s_fresh :: nat
  s_queue :: "nat list"
  s_cap :: nat
  s_closed :: bool
  s_open :: "(string, nat) gomap"
  s_pump :: "'p pump_state"
  s_deadline :: bool
  s_out :: "'p event list"

definition new_subscription :: "'p event \<Rightarrow> nat \<Rightarrow> 'p subscription" where
  "new_subscription zero buffer =
     \<lparr>s_heap = (\<lambda>_. \<lparr>it_event = zero, it_key = []\<rparr>), s_fresh = 0, s_queue = [], s_cap = buffer,
      s_closed = False, s_open = [], s_pump = PumpIdle, s_deadline = False, s_out = []\<rparr>"

text \<open>
  A send on the buffered channel goes through at once if there is room, or if the pump is
  blocked receiving on an empty channel (which only makes a difference for a buffer of size 0).
\<close>

definition can_send :: "'p subscription \<Rightarrow> bool" where
  "can_send s \<longleftrightarrow> length (s_queue s) < s_cap s \<or> (s_queue s = [] \<and> s_pump s = PumpIdle)"

definition enqueue :: "'p event \<Rightarrow> string \<Rightarrow> 'p subscription \<Rightarrow> 'p subscription" where
  "enqueue e key s = s\<lparr>s_heap := (s_heap s)(s_fresh s := \<lparr>it_event = e, it_key = key\<rparr>),
                       s_fresh := Suc (s_fresh s), s_queue := s_queue s @ [s_fresh s]\<rparr>"

definition overwrite :: "nat \<Rightarrow> 'p event \<Rightarrow> 'p subscription \<Rightarrow> 'p subscription" where
  "overwrite i e s = s\<lparr>s_heap := (s_heap s)(i := (s_heap s i)\<lparr>it_event := e\<rparr>)\<rparr>"

definition sub_publish :: "'p event \<Rightarrow> string \<Rightarrow> 'p subscription \<Rightarrow> bool \<times> 'p subscription" where
  "sub_publish e key s =
     (case map_of (s_open s) key of
        Some i \<Rightarrow> (True, overwrite i e s)
      | None \<Rightarrow>
          if can_send s
          then (True, if key \<noteq> [] then (enqueue e key s)\<lparr>s_open := AList.update key (s_fresh s) (s_open s)\<rparr>
                      else enqueue e key s)
          else (False, s))"

text \<open>
  The part of \<open>publishMustDeliver\<close> under the lock. \<open>MustDone\<close>: the event took over a pending
  item or was queued; \<open>MustBlocks\<close>: the publisher goes on to the blocking send.
\<close>

datatype must_outcome = MustDone | MustBlocks

definition sub_publish_must ::
  "'p event \<Rightarrow> string \<Rightarrow> 'p subscription \<Rightarrow> must_outcome \<times> 'p subscription" where
  "sub_publish_must e key s =
     (case map_of (s_open s) key of
        Some i \<Rightarrow> (MustDone, (overwrite i e s)\<lparr>s_open := AList.delete key (s_open s)\<rparr>)
      | None \<Rightarrow> if can_send s then (MustDone, enqueue e key s) else (MustBlocks, s))"

definition sub_slow_send :: "'p event \<Rightarrow> string \<Rightarrow> 'p subscription \<Rightarrow> 'p subscription option" where
  "sub_slow_send e key s = (if can_send s then Some (enqueue e key s) else None)"

text \<open>
  The pump. It receives an item from the queue outside the lock (\<open>pump_receive\<close>); a publisher
  may still overwrite that item before the pump has the lock. Then it takes the event out
  (\<open>zero\<close> is the zero \<open>Event\<close>) and closes the item for overwriting (\<open>pump_take\<close>), and offers
  the event to the reader until it is received, the context ends, or, after shutdown, the
  drain deadline passes.
\<close>

definition pump_receive :: "'p subscription \<Rightarrow> 'p subscription" where
  "pump_receive s =
     (case (s_pump s, s_queue s) of
        (PumpIdle, i # rest) \<Rightarrow> s\<lparr>s_queue := rest, s_pump := PumpReceived i\<rparr>
      | (PumpIdle, []) \<Rightarrow> if s_closed s then s\<lparr>s_pump := PumpStopped\<rparr> else s
      | _ \<Rightarrow> s)"

definition pump_take :: "'p event \<Rightarrow> 'p subscription \<Rightarrow> 'p subscription" where
  "pump_take zero s =
     (case s_pump s of
        PumpReceived i \<Rightarrow>
          (let e = it_event (s_heap s i); k = it_key (s_heap s i);
               s' = (overwrite i zero s)\<lparr>s_pump := PumpHolding e\<rparr>
           in if map_of (s_open s) k = Some i then s'\<lparr>s_open := AList.delete k (s_open s)\<rparr> else s')
      | _ \<Rightarrow> s)"

definition pump_deliver :: "'p subscription \<Rightarrow> 'p subscription" where
  "pump_deliver s =
     (case s_pump s of
        PumpHolding e \<Rightarrow> s\<lparr>s_out := s_out s @ [e], s_pump := PumpIdle\<rparr>
      | _ \<Rightarrow> s)"

definition pump_see_done :: "'p subscription \<Rightarrow> 'p subscription" where
  "pump_see_done s = (case s_pump s of PumpHolding e \<Rightarrow> s\<lparr>s_deadline := True\<rparr> | _ \<Rightarrow> s)"

definition pump_give_up :: "bool \<Rightarrow> 'p subscription \<Rightarrow> 'p subscription" where
  "pump_give_up ctx_done s =
     (case s_pump s of
        PumpHolding e \<Rightarrow> if ctx_done \<or> s_deadline s then s\<lparr>s_pump := PumpStopped\<rparr> else s
      | _ \<Rightarrow> s)"

definition close_queue :: "'p subscription \<Rightarrow> 'p subscription" where
  "close_queue s = s\<lparr>s_closed := True\<rparr>"

subsection \<open>What a subscription still owes its reader\<close>

definition sub_held :: "'p subscription \<Rightarrow> 'p event list" where
  "sub_held s = (case s_pump s of PumpHolding e \<Rightarrow> [e] | _ \<Rightarrow> [])"

definition sub_items :: "'p subscription \<Rightarrow> nat list" where
  "sub_items s = (case s_pump s of PumpReceived i \<Rightarrow> [i] | _ \<Rightarrow> []) @ s_queue s"

definition sub_pending :: "'p subscription \<Rightarrow> 'p event list" where
  "sub_pending s = map (\<lambda>i. it_event (s_heap s i)) (sub_items s)"

definition sub_transcript :: "'p subscription \<Rightarrow> 'p event list" where
  "sub_transcript s = s_out s @ sub_held s @ sub_pending s"

text \<open>
  \<open>on_key kf k\<close> selects the events of one key, \<open>kf\<close> being the broker's key function. The
  invariant: \<open>open\<close> only names queued items, under the item's own non-empty key, which carry a
  plain event and behind which no other item of that key is queued.
\<close>

definition on_key :: "('p event \<Rightarrow> string) \<Rightarrow> string \<Rightarrow> 'p event list \<Rightarrow> 'p event list" where
  "on_key kf k = filter (\<lambda>e. kf e = k)"

definition last_of_key :: "'p subscription \<Rightarrow> string \<Rightarrow> nat \<Rightarrow> bool" where
  "last_of_key s k i \<longleftrightarrow>
     (\<exists>xs ys. sub_items s = xs @ i # ys \<and> (\<forall>j\<in>set ys. it_key (s_heap s j) \<noteq> k))"

definition queue_ok :: "('p event \<Rightarrow> string) \<Rightarrow> 'p subscription \<Rightarrow> bool" where
  "queue_ok kf s \<longleftrightarrow>
     distinct (sub_items s) \<and> length (s_queue s) \<le> max 1 (s_cap s) \<and>
     (\<forall>i\<in>set (sub_items s). i < s_fresh s \<and> kf (it_event (s_heap s i)) = it_key (s_heap s i))"

definition open_ok :: "'p subscription \<Rightarrow> string \<Rightarrow> nat \<Rightarrow> bool" where
  "open_ok s k i \<longleftrightarrow> i \<in> set (sub_items s) \<and> it_key (s_heap s i) = k \<and> k \<noteq> [] \<and>
     \<not> ev_must (it_event (s_heap s i))"

definition sub_inv :: "('p event \<Rightarrow> string) \<Rightarrow> 'p subscription \<Rightarrow> bool" where
  "sub_inv kf s \<longleftrightarrow> queue_ok kf s \<and> (\<forall>k i. map_of (s_open s) k = Some i \<longrightarrow> open_ok s k i)"

definition open_last :: "'p subscription \<Rightarrow> bool" where
  "open_last s \<longleftrightarrow> (\<forall>k i. map_of (s_open s) k = Some i \<longrightarrow> last_of_key s k i)"

lemmas sub_view_defs = sub_transcript_def sub_held_def sub_pending_def

subsection \<open>Runs\<close>

text \<open>
  The broker builds plain events for \<open>Publish\<close> and marked ones for \<open>PublishMustDeliver\<close>. A run
  is a sequence of atomic steps of publishers and pump; next to the subscription it keeps the log
  of the events that were accepted, in the order of the steps that accepted them.
\<close>

definition mk_event :: "string \<Rightarrow> 'p \<Rightarrow> bool \<Rightarrow> 'p event" where
  "mk_event t p must = \<lparr>ev_type = t, ev_payload = p, ev_must = must\<rparr>"

datatype 'p act =
    APublish string 'p
  | AMust string 'p
  | ASlow string 'p
  | AReceive
  | ATake
  | ADeliver
  | ASeeDone
  | AGiveUp bool
  | AClose

fun act_step :: "('p event \<Rightarrow> string) \<Rightarrow> 'p event \<Rightarrow> 'p subscription \<times> 'p event list \<Rightarrow> 'p act
    \<Rightarrow> 'p subscription \<times> 'p event list" where
  "act_step kf zero (s, log) (APublish t p) =
     (let e = mk_event t p False
      in case sub_publish e (kf e) s of (ok, s') \<Rightarrow> (s', if ok then log @ [e] else log))"
| "act_step kf zero (s, log) (AMust t p) =
     (let e = mk_event t p True
      in case sub_publish_must e (kf e) s of
           (MustDone, s') \<Rightarrow> (s', log @ [e])
         | (MustBlocks, s') \<Rightarrow> (s', log))"
| "act_step kf zero (s, log) (ASlow t p) =
     (let e = mk_event t p True
      in case sub_slow_send e (kf e) s of None \<Rightarrow> (s, log) | Some s' \<Rightarrow> (s', log @ [e]))"
| "act_step kf zero (s, log) AReceive = (pump_receive s, log)"
| "act_step kf zero (s, log) ATake = (pump_take zero s, log)"
| "act_step kf zero (s, log) ADeliver = (pump_deliver s, log)"
| "act_step kf zero (s, log) ASeeDone = (pump_see_done s, log)"
| "act_step kf zero (s, log) (AGiveUp c) = (pump_give_up c s, log)"
| "act_step kf zero (s, log) AClose = (close_queue s, log)"

definition run_acts :: "('p event \<Rightarrow> string) \<Rightarrow> 'p event \<Rightarrow> nat \<Rightarrow> 'p act list
    \<Rightarrow> 'p subscription \<times> 'p event list" where
  "run_acts kf zero buffer acts = foldl (act_step kf zero) (new_subscription zero buffer, []) acts"

subsubsection \<open>The atomic steps on the transcript\<close>

lemma mk_event_sel [simp]: "ev_must (mk_event t p m) = m"
  by (simp add: mk_event_def)

lemma sub_invI: "queue_ok kf s \<Longrightarrow> (\<And>k i. map_of (s_open s) k = Some i \<Longrightarrow> open_ok s k i) \<Longrightarrow> sub_inv kf s"
  by (simp add: sub_inv_def)

lemma sub_invD:
  assumes "sub_inv kf s"
  shows "queue_ok kf s" and "map_of (s_open s) k = Some i \<Longrightarrow> open_ok s k i"
  using assms by (simp_all add: sub_inv_def)

lemma sub_items_simps [simp]:
  "sub_items (enqueue e key s) = sub_items s @ [s_fresh s]"
  "sub_items (overwrite i e s) = sub_items s"
  "sub_items (s\<lparr>s_open := m\<rparr>) = sub_items s"
  "sub_items (s\<lparr>s_closed := c\<rparr>) = sub_items s"
  "sub_items (s\<lparr>s_deadline := c\<rparr>) = sub_items s"
  "sub_items (s\<lparr>s_out := out\<rparr>) = sub_items s"
  by (simp_all add: sub_items_def enqueue_def overwrite_def)

lemma sub_items_pump [simp]:
  "sub_items (pump_receive s) = sub_items s"
  "sub_items (pump_deliver s) = sub_items s"
  "sub_items (pump_see_done s) = sub_items s"
  "sub_items (pump_give_up c s) = sub_items s"
  "sub_items (close_queue s) = sub_items s"
  by (auto simp: sub_items_def pump_receive_def pump_deliver_def pump_see_done_def pump_give_up_def
      close_queue_def split: pump_state.split list.split)

lemma enqueue_sel:
  "s_heap (enqueue e key s) = (s_heap s)(s_fresh s := \<lparr>it_event = e, it_key = key\<rparr>)"
  "s_fresh (enqueue e key s) = Suc (s_fresh s)" "s_queue (enqueue e key s) = s_queue s @ [s_fresh s]"
  "s_cap (enqueue e key s) = s_cap s" "s_closed (enqueue e key s) = s_closed s"
  "s_open (enqueue e key s) = s_open s" "s_pump (enqueue e key s) = s_pump s"
  "s_deadline (enqueue e key s) = s_deadline s" "s_out (enqueue e key s) = s_out s"
  by (simp_all add: enqueue_def)

lemma overwrite_sel:
  "s_heap (overwrite i e s) = (s_heap s)(i := (s_heap s i)\<lparr>it_event := e\<rparr>)"
  "s_fresh (overwrite i e s) = s_fresh s" "s_queue (overwrite i e s) = s_queue s"
  "s_cap (overwrite i e s) = s_cap s" "s_closed (overwrite i e s) = s_closed s"
  "s_open (overwrite i e s) = s_open s" "s_pump (overwrite i e s) = s_pump s"
  "s_deadline (overwrite i e s) = s_deadline s" "s_out (overwrite i e s) = s_out s"
  by (simp_all add: overwrite_def)

lemma queue_ok_fresh: "queue_ok kf s \<Longrightarrow> s_fresh s \<notin> set (sub_items s)"
  by (auto simp: queue_ok_def)

text \<open>The shape of the pump's take.\<close>

lemma pump_take_received:
  assumes "s_pump s = PumpReceived i"
  shows "pump_take zero s = (overwrite i zero s)\<lparr>s_pump := PumpHolding (it_event (s_heap s i)),
    s_open := if map_of (s_open s) (it_key (s_heap s i)) = Some i
              then AList.delete (it_key (s_heap s i)) (s_open s) else s_open s\<rparr>"
  using assms by (simp add: pump_take_def overwrite_def Let_def)

lemma pump_take_cases:
  obtains i where "s_pump s = PumpReceived i" | "pump_take zero s = s"
  by (cases "s_pump s") (simp_all add: pump_take_def)

lemma sub_items_received: "s_pump s = PumpReceived i \<Longrightarrow> sub_items s = i # s_queue s"
  by (simp add: sub_items_def)

lemma transcript_enqueue: "sub_inv kf s \<Longrightarrow> sub_transcript (enqueue e k s) = sub_transcript s @ [e]"
  by (auto simp: sub_view_defs enqueue_sel dest: sub_invD(1) queue_ok_fresh)

lemma transcript_pump [simp]:
  "sub_transcript (pump_receive s) = sub_transcript s"
  "sub_transcript (pump_deliver s) = sub_transcript s"
  "sub_transcript (pump_see_done s) = sub_transcript s"
  "sub_transcript (close_queue s) = sub_transcript s"
  by (auto simp: sub_view_defs sub_items_def pump_receive_def pump_deliver_def pump_see_done_def
      close_queue_def split: pump_state.splits list.splits)

lemma transcript_take:
  assumes inv: "sub_inv kf s"
  shows "sub_transcript (pump_take zero s) = sub_transcript s"
proof (cases rule: pump_take_cases [where s = s and zero = zero])
  case (1 i)
  with sub_invD(1) [OF inv] have "i \<notin> set (s_queue s)" by (simp add: queue_ok_def sub_items_received)
  with 1 show ?thesis by (auto simp: pump_take_received sub_view_defs sub_items_def overwrite_sel)
qed simp

lemma transcript_open [simp]: "sub_transcript (s\<lparr>s_open := m\<rparr>) = sub_transcript s"
  by (simp add: sub_view_defs)

text \<open>An overwrite replaces one plain event of the key, behind which nothing of the key follows.\<close>

lemma transcript_overwrite:
  assumes inv: "sub_inv kf s" and op: "map_of (s_open s) k = Some i"
  obtains A old B where "sub_transcript s = A @ old # B"
    and "sub_transcript (overwrite i e s) = A @ e # B"
    and "\<not> ev_must old" and "kf old = k"
    and "open_last s \<Longrightarrow> on_key kf k B = []"
proof -
  let ?f = "\<lambda>i. it_event (s_heap s i)"
  note ok = sub_invD(2) [OF inv op, unfolded open_ok_def]
  note qok = sub_invD(1) [OF inv, unfolded queue_ok_def]
  obtain xs ys where q: "sub_items s = xs @ i # ys"
    and ys: "open_last s \<Longrightarrow> \<forall>j\<in>set ys. it_key (s_heap s j) \<noteq> k"
    using op ok by (metis open_last_def last_of_key_def split_list)
  from qok q have notin: "i \<notin> set xs" "i \<notin> set ys"
    and keys: "\<forall>j\<in>set ys. kf (?f j) = it_key (s_heap s j)" by auto
  show thesis
  proof (rule that)
    show "sub_transcript s = (s_out s @ sub_held s @ map ?f xs) @ ?f i # map ?f ys"
      by (simp add: sub_view_defs q)
    have "s_heap (overwrite i e s) i = (s_heap s i)\<lparr>it_event := e\<rparr>"
      "\<And>j. j \<noteq> i \<Longrightarrow> s_heap (overwrite i e s) j = s_heap s j"
      "s_out (overwrite i e s) = s_out s" "sub_held (overwrite i e s) = sub_held s"
      by (simp_all add: overwrite_sel sub_held_def)
    moreover have "map (\<lambda>j. it_event (s_heap (overwrite i e s) j)) xs = map ?f xs"
        "map (\<lambda>j. it_event (s_heap (overwrite i e s) j)) ys = map ?f ys"
      using notin calculation(2) by (metis (mono_tags, lifting) map_eq_conv)+
    ultimately show "sub_transcript (overwrite i e s) = (s_out s @ sub_held s @ map ?f xs) @ e # map ?f ys"
      by (simp add: sub_transcript_def sub_pending_def q)
    show "open_last s \<Longrightarrow> on_key kf k (map ?f ys) = []"
      using keys ys by (auto simp: on_key_def filter_empty_conv)
  qed (use ok qok in auto)
qed

subsubsection \<open>The invariants are kept\<close>

lemma sub_inv_new: "sub_inv kf (new_subscription zero n)"
  by (simp add: sub_inv_def queue_ok_def new_subscription_def sub_items_def)

lemma open_last_new: "open_last (new_subscription zero n)"
  by (simp add: open_last_def new_subscription_def)

lemma queue_ok_enqueue:
  assumes "queue_ok kf s" and "can_send s" and "kf e = key"
  shows "queue_ok kf (enqueue e key s)"
  using assms by (auto simp: queue_ok_def enqueue_sel can_send_def)

lemma open_ok_enqueue: "queue_ok kf s \<Longrightarrow> open_ok s k i \<Longrightarrow> open_ok (enqueue e key s) k i"
  by (auto simp: open_ok_def enqueue_sel dest: queue_ok_fresh)

lemma sub_inv_enqueue:
  assumes "sub_inv kf s" and "can_send s" and "kf e = key"
  shows "sub_inv kf (enqueue e key s)"
proof (rule sub_invI)
  show "queue_ok kf (enqueue e key s)"
    using assms by (intro queue_ok_enqueue) (auto dest: sub_invD(1))
next
  fix k i
  assume "map_of (s_open (enqueue e key s)) k = Some i"
  then have "map_of (s_open s) k = Some i" by (simp add: enqueue_sel)
  then show "open_ok (enqueue e key s) k i"
    using sub_invD [OF assms(1)] by (auto intro: open_ok_enqueue)
qed

lemma sub_inv_open:
  assumes "sub_inv kf s" and "\<not> ev_must e" and "kf e = key" and "key \<noteq> []" and "can_send s"
  shows "sub_inv kf ((enqueue e key s)\<lparr>s_open := AList.update key (s_fresh s) (s_open s)\<rparr>)"
    (is "sub_inv kf ?s")
proof (rule sub_invI)
  show "queue_ok kf ?s"
    using queue_ok_enqueue [OF sub_invD(1) [OF assms(1)] assms(5,3)] by (simp add: queue_ok_def)
next
  fix k i
  assume *: "map_of (s_open ?s) k = Some i"
  show "open_ok ?s k i"
  proof (cases "k = key")
    case True
    with * assms show ?thesis by (simp add: open_ok_def enqueue_sel)
  next
    case False
    with * have "open_ok s k i" using sub_invD(2) [OF assms(1)] by simp
    from open_ok_enqueue [OF sub_invD(1) [OF assms(1)] this, of e key] show ?thesis
      by (simp add: open_ok_def)
  qed
qed

lemma sub_inv_overwrite:
  assumes inv: "sub_inv kf s" and op: "map_of (s_open s) k = Some i" and e: "kf e = k"
  shows "\<not> ev_must e \<Longrightarrow> sub_inv kf (overwrite i e s)"
    and "sub_inv kf ((overwrite i e s)\<lparr>s_open := AList.delete k (s_open s)\<rparr>)"
proof -
  note ok = sub_invD [OF inv]
  from ok(2) [OF op] have key: "it_key (s_heap s i) = k" by (simp add: open_ok_def)
  have q: "queue_ok kf (overwrite i e s)"
    using ok(1) e key by (auto simp: queue_ok_def overwrite_sel)
  have other: "open_ok (overwrite i e s) k' j" if "map_of (s_open s) k' = Some j" "k' \<noteq> k" for k' j
    using ok(2) [OF that(1)] that(2) key by (auto simp: open_ok_def overwrite_sel)
  show "sub_inv kf ((overwrite i e s)\<lparr>s_open := AList.delete k (s_open s)\<rparr>)"
  proof (rule sub_invI)
    fix k' j
    assume "map_of (s_open ((overwrite i e s)\<lparr>s_open := AList.delete k (s_open s)\<rparr>)) k' = Some j"
    then have "map_of (s_open s) k' = Some j" "k' \<noteq> k" by (auto split: if_splits)
    from other [OF this] show "open_ok ((overwrite i e s)\<lparr>s_open := AList.delete k (s_open s)\<rparr>) k' j"
      by (simp add: open_ok_def)
  qed (use q in \<open>simp add: queue_ok_def\<close>)
  show "sub_inv kf (overwrite i e s)" if "\<not> ev_must e"
  proof (rule sub_invI)
    fix k' j
    assume "map_of (s_open (overwrite i e s)) k' = Some j"
    then have *: "map_of (s_open s) k' = Some j" by (simp add: overwrite_sel)
    show "open_ok (overwrite i e s) k' j"
    proof (cases "k' = k")
      case True
      with * op ok(2) [OF op] that show ?thesis by (simp add: open_ok_def overwrite_sel)
    qed (rule other [OF *])
  qed (rule q)
qed

lemma sub_inv_pop:
  assumes inv: "sub_inv kf s" and p: "s_pump s = PumpReceived i"
    and opn: "\<And>k j. map_of opn k = Some j \<Longrightarrow> map_of (s_open s) k = Some j \<and> j \<noteq> i"
  shows "sub_inv kf ((overwrite i zero s)\<lparr>s_pump := PumpHolding e, s_open := opn\<rparr>)"
    (is "sub_inv kf ?s")
proof (rule sub_invI)
  have items: "sub_items ?s = s_queue s" by (simp add: sub_items_def overwrite_sel)
  show "queue_ok kf ?s"
    using sub_invD(1) [OF inv] sub_items_received [OF p] items
    by (auto simp: queue_ok_def overwrite_sel)
  fix k j
  assume "map_of (s_open ?s) k = Some j"
  then have "map_of opn k = Some j" by simp
  from opn [OF this] have "open_ok s k j" and "j \<noteq> i" using sub_invD(2) [OF inv] by auto
  then show "open_ok ?s k j"
    using sub_items_received [OF p] items by (auto simp: open_ok_def overwrite_sel)
qed

lemma sub_inv_frame:
  assumes "sub_inv kf s" and "sub_items t = sub_items s" and "length (s_queue t) \<le> length (s_queue s)"
    and "s_heap t = s_heap s"
    and "s_fresh t = s_fresh s" and "s_cap t = s_cap s" and "s_open t = s_open s"
  shows "sub_inv kf t"
  using assms by (simp add: sub_inv_def queue_ok_def open_ok_def)

lemma open_after_pop:
  assumes inv: "sub_inv kf s"
    and j: "map_of (if map_of (s_open s) (it_key (s_heap s i)) = Some i
                    then AList.delete (it_key (s_heap s i)) (s_open s) else s_open s) k = Some j"
  shows "map_of (s_open s) k = Some j \<and> j \<noteq> i"
proof
  show j': "map_of (s_open s) k = Some j" using j by (simp split: if_splits)
  show "j \<noteq> i"
  proof
    assume "j = i"
    with sub_invD(2) [OF inv j'] have "it_key (s_heap s i) = k" by (simp add: open_ok_def)
    with j j' \<open>j = i\<close> show False by simp
  qed
qed

lemma sub_inv_take:
  assumes inv: "sub_inv kf s"
  shows "sub_inv kf (pump_take zero s)"
proof (cases rule: pump_take_cases [where s = s and zero = zero])
  case (1 i)
  show ?thesis
    unfolding pump_take_received [OF 1] by (rule sub_inv_pop [OF inv 1]) (rule open_after_pop [OF inv])
qed (use inv in simp)

lemma sub_inv_pump [inv_intros]:
  assumes "sub_inv kf s"
  shows "sub_inv kf (pump_deliver s)" and "sub_inv kf (pump_see_done s)"
    and "sub_inv kf (pump_give_up c s)" and "sub_inv kf (close_queue s)"
    and "sub_inv kf (pump_receive s)"
  by (rule sub_inv_frame [OF assms], simp;
      simp add: pump_deliver_def pump_see_done_def pump_give_up_def close_queue_def pump_receive_def
      split: pump_state.split list.split)+

lemma sub_inv_publish: "sub_inv kf s \<Longrightarrow> \<not> ev_must e \<Longrightarrow> sub_inv kf (snd (sub_publish e (kf e) s))"
  by (auto simp: sub_publish_def intro: sub_inv_enqueue sub_inv_open sub_inv_overwrite
      split: option.split)

lemma sub_inv_publish_must: "sub_inv kf s \<Longrightarrow> sub_inv kf (snd (sub_publish_must e (kf e) s))"
  by (auto simp: sub_publish_must_def intro: sub_inv_enqueue sub_inv_overwrite split: option.split)

lemma sub_inv_slow: "sub_inv kf s \<Longrightarrow> sub_slow_send e (kf e) s = Some s' \<Longrightarrow> sub_inv kf s'"
  by (auto simp: sub_slow_send_def intro: sub_inv_enqueue split: if_splits)

lemma act_step_inv:
  assumes inv: "sub_inv kf s"
  shows "sub_inv kf (fst (act_step kf zero (s, log) a))"
proof (cases a)
  case (APublish t p)
  from sub_inv_publish [OF inv, of "mk_event t p False"] APublish show ?thesis
    by (auto simp: Let_def split: prod.split)
next
  case (AMust t p)
  from sub_inv_publish_must [OF inv, of "mk_event t p True"] AMust show ?thesis
    by (auto simp: Let_def split: prod.split must_outcome.split)
next
  case (ASlow t p)
  from sub_inv_slow [OF inv, of "mk_event t p True"] ASlow inv show ?thesis
    by (simp add: Let_def split: option.split)
next
  case ATake
  with sub_inv_take [OF inv] show ?thesis by simp
next
  case (AGiveUp c)
  with sub_inv_pump(3) [OF inv] show ?thesis by simp
qed (simp_all add: sub_inv_pump [OF inv])

interpretation acts: safe_system "act_step kf zero" "\<lambda>sl. sub_inv kf (fst sl)" for kf zero
  by unfold_locales (metis act_step_inv prod.collapse)

lemma run_acts_inv: "sub_inv kf (fst (run_acts kf zero n acts))"
  unfolding run_acts_def by (rule acts.run_good) (simp add: sub_inv_new)

subsection \<open>Delivery order and losses\<close>

text \<open>
  \<open>faithful T L\<close>: of the accepted events \<open>L\<close> of one key the reader sees \<open>T\<close>: in order, with
  every must-deliver event, and ending with the newest.
\<close>

definition faithful :: "'p event list \<Rightarrow> 'p event list \<Rightarrow> bool" where
  "faithful T L \<longleftrightarrow> subseq T L \<and> filter ev_must T = filter ev_must L \<and>
     (L \<noteq> [] \<longrightarrow> T \<noteq> [] \<and> last T = last L)"

lemma faithful_Nil [simp]: "faithful [] []"
  by (simp add: faithful_def)

lemma faithful_snoc: "faithful T L \<Longrightarrow> faithful (T @ [e]) (L @ [e])"
  by (simp add: faithful_def subseq_snoc_both)

lemma faithful_replace: "faithful (pre @ [old]) L \<Longrightarrow> \<not> ev_must old \<Longrightarrow> faithful (pre @ [e]) (L @ [e])"
  by (auto simp: faithful_def intro!: subseq_snoc_both elim: subseq_order.trans [rotated])

lemma on_key_append [simp]: "on_key kf k (xs @ ys) = on_key kf k xs @ on_key kf k ys"
  by (simp add: on_key_def)

lemma on_key_Cons [simp]: "on_key kf k (e # es) = (if kf e = k then e # on_key kf k es else on_key kf k es)"
  by (simp add: on_key_def)

lemma on_key_Nil [simp]: "on_key kf k [] = []"
  by (simp add: on_key_def)

definition order_inv :: "('p event \<Rightarrow> string) \<Rightarrow> 'p subscription \<times> 'p event list \<Rightarrow> bool" where
  "order_inv kf sl \<longleftrightarrow> sub_inv kf (fst sl) \<and> open_last (fst sl) \<and>
     on_key kf [] (sub_transcript (fst sl)) = on_key kf [] (snd sl) \<and>
     (\<forall>k. faithful (on_key kf k (sub_transcript (fst sl))) (on_key kf k (snd sl)))"

lemma order_snoc:
  assumes "order_inv kf (s, log)" and "sub_inv kf s'" and "open_last s'"
    and "sub_transcript s' = sub_transcript s @ [e]"
  shows "order_inv kf (s', log @ [e])"
  using assms by (auto simp: order_inv_def intro: faithful_snoc)

lemma order_same:
  assumes "order_inv kf (s, log)" and "sub_inv kf s'" and "open_last s'"
    and "sub_transcript s' = sub_transcript s"
  shows "order_inv kf (s', log)"
  using assms by (simp add: order_inv_def)

lemma order_overwrite:
  assumes ord: "order_inv kf (s, log)" and op: "map_of (s_open s) (kf e) = Some i"
    and s': "sub_inv kf s'" "open_last s'" "sub_transcript s' = sub_transcript (overwrite i e s)"
  shows "order_inv kf (s', log @ [e])"
proof -
  from ord have inv: "sub_inv kf s" and last: "open_last s" by (simp_all add: order_inv_def)
  from sub_invD(2) [OF inv op] have ne: "kf e \<noteq> []" by (simp add: open_ok_def)
  obtain A old B where t: "sub_transcript s = A @ old # B"
      "sub_transcript (overwrite i e s) = A @ e # B" "\<not> ev_must old" "kf old = kf e"
      "on_key kf (kf e) B = []"
    by (rule transcript_overwrite [OF inv op, of e]) (use last in blast)
  from ord t have "faithful (on_key kf (kf e) A @ [old]) (on_key kf (kf e) log)"
    by (auto simp: order_inv_def dest: spec [of _ "kf e"])
  from faithful_replace [OF this t(3), of e]
  have same: "faithful (on_key kf (kf e) (A @ e # B)) (on_key kf (kf e) (log @ [e]))"
    using t(5) by simp
  have "faithful (on_key kf k (A @ e # B)) (on_key kf k (log @ [e]))" for k
  proof (cases "k = kf e")
    case True
    with same show ?thesis by simp
  next
    case False
    with t(4) have *: "on_key kf k (A @ e # B) = on_key kf k (A @ old # B)" by auto
    have "faithful (on_key kf k (A @ old # B)) (on_key kf k log)"
      using ord unfolding order_inv_def t(1) [symmetric] by simp
    with False show ?thesis unfolding * by simp
  qed
  moreover have "on_key kf [] (A @ e # B) = on_key kf [] (log @ [e])"
    using ord t(4) ne unfolding order_inv_def fst_conv snd_conv t(1) by simp
  ultimately show ?thesis using s' t(2) by (simp add: order_inv_def)
qed

lemma open_last_enqueue:
  assumes "sub_inv kf s" and "open_last s" and "map_of (s_open s) key = None"
  shows "open_last (enqueue e key s)"
  unfolding open_last_def
proof (intro allI impI)
  fix k i
  assume "map_of (s_open (enqueue e key s)) k = Some i"
  then have op: "map_of (s_open s) k = Some i" by (simp add: enqueue_sel)
  then obtain xs ys where q: "sub_items s = xs @ i # ys" "\<forall>j\<in>set ys. it_key (s_heap s j) \<noteq> k"
    using assms(2) unfolding open_last_def last_of_key_def by blast
  have "s_fresh s \<notin> set (sub_items s)"
    using sub_invD(1) [OF assms(1)] by (rule queue_ok_fresh)
  with q op assms(3) have "sub_items (enqueue e key s) = xs @ i # (ys @ [s_fresh s]) \<and>
      (\<forall>j\<in>set (ys @ [s_fresh s]). it_key (s_heap (enqueue e key s) j) \<noteq> k)"
    by (auto simp: enqueue_sel)
  then show "last_of_key (enqueue e key s) k i" unfolding last_of_key_def by blast
qed

lemma open_last_open:
  assumes "sub_inv kf s" and "open_last s" and "map_of (s_open s) key = None"
  shows "open_last ((enqueue e key s)\<lparr>s_open := AList.update key (s_fresh s) (s_open s)\<rparr>)"
    (is "open_last ?s")
  unfolding open_last_def
proof (intro allI impI)
  fix k i
  assume *: "map_of (s_open ?s) k = Some i"
  show "last_of_key ?s k i"
  proof (cases "k = key")
    case True
    with * have "sub_items ?s = sub_items s @ i # []" by (simp add: enqueue_sel)
    then show ?thesis unfolding last_of_key_def by (metis empty_iff list.set(1))
  next
    case False
    with * have "map_of (s_open (enqueue e key s)) k = Some i" by (simp add: enqueue_sel)
    with open_last_enqueue [OF assms, of e] show ?thesis
      by (auto simp: open_last_def last_of_key_def)
  qed
qed

lemma open_last_frame:
  assumes "open_last s" and "sub_items t = sub_items s" and "s_open t = s_open s"
    and "\<And>j. it_key (s_heap t j) = it_key (s_heap s j)"
  shows "open_last t"
  using assms by (simp add: open_last_def last_of_key_def)

lemma open_last_overwrite: "open_last s \<Longrightarrow> open_last (overwrite i e s)"
  by (erule open_last_frame) (simp_all add: overwrite_sel)

lemma open_last_close: "open_last s \<Longrightarrow> open_last (s\<lparr>s_open := AList.delete k (s_open s)\<rparr>)"
  by (auto simp: open_last_def last_of_key_def split: if_splits)

lemma open_last_pop:
  assumes "open_last s" and p: "s_pump s = PumpReceived i"
    and opn: "\<And>k j. map_of opn k = Some j \<Longrightarrow> map_of (s_open s) k = Some j \<and> j \<noteq> i"
  shows "open_last ((overwrite i zero s)\<lparr>s_pump := PumpHolding e, s_open := opn\<rparr>)"
    (is "open_last ?s")
  unfolding open_last_def
proof (intro allI impI)
  fix k j
  assume "map_of (s_open ?s) k = Some j"
  then have "map_of opn k = Some j" by simp
  note j = opn [OF this]
  then obtain xs ys where "sub_items s = xs @ j # ys" "j \<noteq> i"
      "\<forall>l\<in>set ys. it_key (s_heap s l) \<noteq> k"
    using assms(1) unfolding open_last_def last_of_key_def by blast
  with sub_items_received [OF p]
  have "sub_items ?s = tl xs @ j # ys \<and> (\<forall>l\<in>set ys. it_key (s_heap ?s l) \<noteq> k)"
    by (cases xs) (auto simp: sub_items_def overwrite_sel)
  then show "last_of_key ?s k j" unfolding last_of_key_def by auto
qed

lemma open_last_take:
  assumes inv: "sub_inv kf s" and "open_last s"
  shows "open_last (pump_take zero s)"
proof (cases rule: pump_take_cases [where s = s and zero = zero])
  case (1 i)
  show ?thesis
    unfolding pump_take_received [OF 1]
    by (rule open_last_pop [OF assms(2) 1]) (rule open_after_pop [OF inv])
qed (use assms(2) in simp)

lemma open_last_pump [inv_intros]:
  assumes "open_last s"
  shows "open_last (pump_deliver s)" and "open_last (pump_see_done s)" and "open_last (close_queue s)"
    and "open_last (pump_receive s)"
  by (rule open_last_frame [OF assms], simp;
      simp add: pump_deliver_def pump_see_done_def close_queue_def pump_receive_def
      split: pump_state.split list.split)+

text \<open>
  A run is \<open>gentle\<close> if the pump never gives up and the blocking send is only used for events
  without a key. Giving up loses the held event; an example below shows what a keyed
  blocking send does.
\<close>

fun gentle :: "('p event \<Rightarrow> string) \<Rightarrow> 'p act \<Rightarrow> bool" where
  "gentle kf (AGiveUp c) = False"
| "gentle kf (ASlow t p) = (kf (mk_event t p True) = [])"
| "gentle kf _ = True"

lemma order_publish:
  assumes ord: "order_inv kf (s, log)" and e: "\<not> ev_must e"
    and r: "sub_publish e (kf e) s = (ok, s')"
  shows "order_inv kf (s', if ok then log @ [e] else log)"
proof (cases "map_of (s_open s) (kf e)")
  case (Some i)
  from ord have last: "open_last s" by (simp add: order_inv_def)
  from Some r have [simp]: "ok" "s' = overwrite i e s" by (auto simp: sub_publish_def)
  from sub_inv_publish [of kf s e] ord e r have "sub_inv kf s'" by (simp add: order_inv_def)
  with order_overwrite [OF ord Some] open_last_overwrite [OF last] show ?thesis by simp
next
  case None
  from ord have inv: "sub_inv kf s" and last: "open_last s" by (simp_all add: order_inv_def)
  from sub_inv_publish [OF inv e] r have s': "sub_inv kf s'" by simp
  from None r open_last_enqueue [OF inv last None] open_last_open [OF inv last None]
  have "open_last s'" using last by (auto simp: sub_publish_def split: if_splits)
  moreover have "ok \<Longrightarrow> sub_transcript s' = sub_transcript s @ [e]" "\<not> ok \<Longrightarrow> s' = s"
    using None r transcript_enqueue [OF inv] by (auto simp: sub_publish_def split: if_splits)
  ultimately show ?thesis using order_snoc [OF ord s'] ord by (cases ok) auto
qed

lemma order_publish_must:
  assumes ord: "order_inv kf (s, log)" and r: "sub_publish_must e (kf e) s = (res, s')"
  shows "order_inv kf (s', case res of MustDone \<Rightarrow> log @ [e] | MustBlocks \<Rightarrow> log)"
proof (cases "map_of (s_open s) (kf e)")
  case (Some i)
  from ord have inv: "sub_inv kf s" and last: "open_last s" by (simp_all add: order_inv_def)
  from Some r have s': "res = MustDone" "s' = (overwrite i e s)\<lparr>s_open := AList.delete (kf e) (s_open s)\<rparr>"
    by (auto simp: sub_publish_must_def)
  have "open_last s'"
    using open_last_close [OF open_last_overwrite [OF last, of i e], of "kf e"]
    by (simp add: s' overwrite_sel)
  with order_overwrite [OF ord Some, of s'] sub_inv_overwrite(2) [OF inv Some] show ?thesis
    by (simp add: s')
next
  case None
  from ord have inv: "sub_inv kf s" and last: "open_last s" by (simp_all add: order_inv_def)
  from sub_inv_publish_must [OF inv, of e] r have s': "sub_inv kf s'" by simp
  from None r open_last_enqueue [OF inv last None] have "open_last s'"
    using last by (auto simp: sub_publish_must_def split: if_splits)
  moreover have "res = MustDone \<Longrightarrow> sub_transcript s' = sub_transcript s @ [e]"
      "res = MustBlocks \<Longrightarrow> s' = s"
    using None r transcript_enqueue [OF inv] by (auto simp: sub_publish_must_def split: if_splits)
  ultimately show ?thesis using order_snoc [OF ord s'] ord by (cases res) auto
qed

lemma order_slow:
  assumes ord: "order_inv kf (s, log)" and nokey: "kf e = []"
    and r: "sub_slow_send e (kf e) s = Some s'"
  shows "order_inv kf (s', log @ [e])"
proof -
  from ord have inv: "sub_inv kf s" and last: "open_last s" by (simp_all add: order_inv_def)
  have None: "map_of (s_open s) (kf e) = None"
    using sub_invD(2) [OF inv, of "kf e"] nokey by (cases "map_of (s_open s) (kf e)") (auto simp: open_ok_def)
  from r have s': "s' = enqueue e (kf e) s" by (auto simp: sub_slow_send_def split: if_splits)
  show ?thesis
    by (rule order_snoc [OF ord sub_inv_slow [OF inv r]])
      (simp_all add: s' open_last_enqueue [OF inv last None] transcript_enqueue [OF inv])
qed

lemma order_step:
  assumes ord: "order_inv kf (s, log)" and g: "gentle kf a"
  shows "order_inv kf (act_step kf zero (s, log) a)"
proof -
  from ord have inv: "sub_inv kf s" and last: "open_last s" by (simp_all add: order_inv_def)
  show ?thesis
  proof (cases a)
    case (APublish t p)
    obtain ok s' where r: "sub_publish (mk_event t p False) (kf (mk_event t p False)) s = (ok, s')"
      by fastforce
    from order_publish [OF ord _ r] show ?thesis by (simp add: APublish Let_def r)
  next
    case (AMust t p)
    obtain res s' where r: "sub_publish_must (mk_event t p True) (kf (mk_event t p True)) s = (res, s')"
      by fastforce
    from order_publish_must [OF ord r] show ?thesis
      by (cases res) (simp_all add: AMust Let_def r)
  next
    case (ASlow t p)
    with g order_slow [OF ord, of "mk_event t p True"] ord show ?thesis
      by (simp add: Let_def split: option.split)
  next
    case ATake
    then show ?thesis
      using order_same [OF ord sub_inv_take [OF inv] open_last_take [OF inv last]]
        transcript_take [OF inv] by simp
  next
    case (AGiveUp c)
    with g show ?thesis by simp
  qed (use order_same [OF ord] sub_inv_pump [OF inv] open_last_pump [OF last] in simp_all)
qed

lemma order_run: "list_all (gentle kf) acts \<Longrightarrow> order_inv kf (run_acts kf zero n acts)"
proof (induction acts rule: rev_induct)
  case Nil
  then show ?case
    by (simp add: run_acts_def order_inv_def sub_inv_new open_last_new)
      (simp add: new_subscription_def sub_view_defs sub_items_def)
next
  case (snoc a acts)
  then have "order_inv kf (run_acts kf zero n acts)" and "gentle kf a" by simp_all
  then show ?case
    by (cases "run_acts kf zero n acts") (simp add: run_acts_def order_step)
qed

text \<open>
  C38: as long as the pump never gives up on a delivery and no must-deliver event with a key goes
  the slow way (the blocking send on a full buffer), then whatever publishers and the reader do in
  between, what a subscriber has received or still has queued for a key is a subsequence, in
  publication order, of what was accepted for it, it ends with the newest accepted event, and every
  must-deliver event is in it. Without the conditions this fails: giving up drops the event held, and
  the slow way reorders events of a key (\<open>slow_path_reorders\<close>).
\<close>

theorem coalescing_keeps_order:
  assumes "list_all (gentle kf) acts" and "run_acts kf zero buffer acts = (s, log)"
  shows "faithful (on_key kf k (sub_transcript s)) (on_key kf k log)"
  using order_run [OF assms(1), of zero buffer] assms(2) by (simp add: order_inv_def)

definition demo_zero :: "nat event" where
  "demo_zero = mk_event [] 0 False"

lemmas run_eval = run_acts_def new_subscription_def mk_event_def sub_publish_def sub_publish_must_def
  sub_slow_send_def can_send_def enqueue_def overwrite_def pump_receive_def pump_take_def pump_deliver_def Let_def
  sub_items_def demo_zero_def sub_view_defs on_key_def faithful_def

theorem coalescing_keeps_order_witness:
  "faithful
     (on_key ev_type ''k'' (sub_transcript (fst (run_acts ev_type demo_zero 2
        [APublish ''k'' 1, APublish ''k'' 2, AMust ''k'' 3, APublish ''k'' 4]))))
     (on_key ev_type ''k'' (snd (run_acts ev_type demo_zero 2
        [APublish ''k'' 1, APublish ''k'' 2, AMust ''k'' 3, APublish ''k'' 4])))"
  by (rule coalescing_keeps_order [where zero = demo_zero and buffer = 2, OF _ prod.collapse [symmetric]])
    simp

text \<open>
  Events for which the key function returns the empty string are delivered without
  coalescing: received and pending ones together are exactly the accepted ones, in order.
\<close>

theorem unkeyed_fifo:
  assumes "list_all (gentle kf) acts" and "run_acts kf zero buffer acts = (s, log)"
  shows "on_key kf [] (sub_transcript s) = on_key kf [] log"
  using order_run [OF assms(1), of zero buffer] assms(2) by (simp add: order_inv_def)

theorem unkeyed_fifo_witness:
  "on_key (\<lambda>e. []) [] (sub_transcript (fst (run_acts (\<lambda>e. []) demo_zero 1
       [APublish ''a'' 1, AReceive, ATake, ASlow ''b'' 2, APublish ''c'' 3, ADeliver])))
   = on_key (\<lambda>e. []) [] (snd (run_acts (\<lambda>e. []) demo_zero 1
       [APublish ''a'' 1, AReceive, ATake, ASlow ''b'' 2, APublish ''c'' 3, ADeliver]))"
  by (rule unkeyed_fifo [where zero = demo_zero and buffer = 1, OF _ prod.collapse [symmetric]])
    (simp add: mk_event_def)

text \<open>
  The blocking send of \<open>PublishMustDeliver\<close> runs outside the subscription's lock, and so
  a keyed event sent that way can be overtaken by a later plain event of its key: with a buffer
  of two, a plain update slips in while the must-deliver event is blocked, the event is queued
  behind it, and the next update overwrites the earlier item. The reader sees the update
  published last before the must-deliver event.
\<close>

theorem slow_path_reorders:
  "\<exists>acts. list_all (\<lambda>a. \<forall>c. a \<noteq> AGiveUp c) acts \<and>
     on_key ev_type ''k'' (snd (run_acts ev_type demo_zero 2 acts)) =
       [mk_event ''k'' 1 False, mk_event ''k'' 2 True, mk_event ''k'' 3 False] \<and>
     on_key ev_type ''k'' (sub_transcript (fst (run_acts ev_type demo_zero 2 acts))) =
       [mk_event ''k'' 3 False, mk_event ''k'' 2 True]"
proof -
  let ?acts = "[APublish ''a'' 0, APublish ''b'' 0, AMust ''k'' 2, AReceive, ATake, APublish ''k'' 1,
    ADeliver, AReceive, ATake, ASlow ''k'' 2, APublish ''k'' (3::nat)]"
  have "on_key ev_type ''k'' (snd (run_acts ev_type demo_zero 2 ?acts)) =
       [mk_event ''k'' 1 False, mk_event ''k'' 2 True, mk_event ''k'' 3 False]"
    by (simp add: run_eval)
  moreover have "on_key ev_type ''k'' (sub_transcript (fst (run_acts ev_type demo_zero 2 ?acts))) =
       [mk_event ''k'' 3 False, mk_event ''k'' 2 True]"
    by (simp add: run_eval)
  ultimately show ?thesis by (intro exI [of _ ?acts]) simp
qed

subsection \<open>Must-deliver events are never lost\<close>

text \<open>
  \<open>patient\<close> runs: the pump never gives up. The blocking send is allowed here, also for events
  with a key, so order is not promised, but no must-deliver event disappears.
\<close>

definition patient :: "'p act \<Rightarrow> bool" where
  "patient a \<longleftrightarrow> (case a of AGiveUp c \<Rightarrow> False | _ \<Rightarrow> True)"

definition must_inv :: "('p event \<Rightarrow> string) \<Rightarrow> 'p subscription \<times> 'p event list \<Rightarrow> bool" where
  "must_inv kf sl \<longleftrightarrow> sub_inv kf (fst sl) \<and>
     mset (filter ev_must (sub_transcript (fst sl))) = mset (filter ev_must (snd sl))"

lemma must_overwrite:
  assumes "must_inv kf (s, log)" and "map_of (s_open s) k = Some i"
  shows "mset (filter ev_must (sub_transcript (overwrite i e s))) = mset (filter ev_must (log @ [e]))"
proof -
  from assms have inv: "sub_inv kf s" by (simp add: must_inv_def)
  obtain A old B where "sub_transcript s = A @ old # B"
    "sub_transcript (overwrite i e s) = A @ e # B" "\<not> ev_must old"
    by (rule transcript_overwrite [OF inv assms(2), of e])
  with assms(1) show ?thesis by (auto simp: must_inv_def)
qed

lemma must_publish:
  assumes m: "must_inv kf (s, log)" and r: "sub_publish e key s = (ok, s')"
  shows "mset (filter ev_must (sub_transcript s')) = mset (filter ev_must (if ok then log @ [e] else log))"
  using m r must_overwrite [OF m] transcript_enqueue [of kf s e key]
  by (auto simp: sub_publish_def must_inv_def split: option.splits if_splits)

lemma must_publish_must:
  assumes m: "must_inv kf (s, log)" and r: "sub_publish_must e key s = (res, s')"
  shows "mset (filter ev_must (sub_transcript s')) =
    mset (filter ev_must (case res of MustDone \<Rightarrow> log @ [e] | MustBlocks \<Rightarrow> log))"
  using m r must_overwrite [OF m] transcript_enqueue [of kf s e key]
  by (auto simp: sub_publish_must_def must_inv_def split: option.splits if_splits)

lemma must_slow:
  assumes m: "must_inv kf (s, log)" and r: "sub_slow_send e key s = Some s'"
  shows "mset (filter ev_must (sub_transcript s')) = mset (filter ev_must (log @ [e]))"
  using m r transcript_enqueue [of kf s e key]
  by (auto simp: sub_slow_send_def must_inv_def split: if_splits)

lemma must_step:
  assumes m: "must_inv kf (s, log)" and g: "patient a"
  shows "must_inv kf (act_step kf zero (s, log) a)"
proof -
  from m have inv: "sub_inv kf s" by (simp add: must_inv_def)
  have "sub_inv kf (fst (act_step kf zero (s, log) a))" by (rule act_step_inv [OF inv])
  moreover have "mset (filter ev_must (sub_transcript (fst (act_step kf zero (s, log) a)))) =
      mset (filter ev_must (snd (act_step kf zero (s, log) a)))"
  proof (cases a)
    case (APublish t p)
    with must_publish [OF m] show ?thesis by (auto simp: Let_def split: prod.split)
  next
    case (AMust t p)
    with must_publish_must [OF m] show ?thesis
      by (auto simp: Let_def split: prod.split must_outcome.split)
  next
    case (ASlow t p)
    with must_slow [OF m] m show ?thesis by (auto simp: Let_def must_inv_def split: option.split)
  next
    case (AGiveUp c)
    with g show ?thesis by (simp add: patient_def)
  qed (use m transcript_take [OF inv] in \<open>simp_all add: must_inv_def\<close>)
  ultimately show ?thesis by (simp add: must_inv_def)
qed

text \<open>
  No must-deliver event that was accepted for a subscriber is lost, replaced or duplicated,
  whichever path it took into the queue, as long as the reader is not given up on.
\<close>

theorem must_deliver_kept:
  assumes "list_all patient acts" and "run_acts kf zero buffer acts = (s, log)"
  shows "mset (filter ev_must (sub_transcript s)) = mset (filter ev_must log)"
proof -
  have "must_inv kf (run_acts kf zero buffer acts)" using assms(1)
  proof (induction acts rule: rev_induct)
    case Nil
    show ?case by (simp add: run_acts_def must_inv_def sub_inv_new)
        (simp add: new_subscription_def sub_view_defs sub_items_def)
  next
    case (snoc a acts)
    then show ?case
      by (cases "run_acts kf zero buffer acts") (simp add: run_acts_def must_step)
  qed
  with assms(2) show ?thesis by (simp add: must_inv_def)
qed

theorem must_deliver_kept_witness:
  "mset (filter ev_must (sub_transcript (fst (run_acts ev_type demo_zero 1
       [AMust ''k'' 1, AReceive, ASlow ''k'' 2, ATake, ADeliver])))) =
   mset (filter ev_must (snd (run_acts ev_type demo_zero 1
       [AMust ''k'' 1, AReceive, ASlow ''k'' 2, ATake, ADeliver])))"
  by (rule must_deliver_kept [where kf = ev_type and zero = demo_zero and buffer = 1,
        OF _ prod.collapse [symmetric]]) (simp add: patient_def)

subsection \<open>The broker\<close>

text \<open>
  \<open>b_cells\<close> holds every subscription ever created (the pump of one that was removed goes on
  draining it), \<open>b_subs\<close> the ids of those the broker publishes to (the Go map \<open>subs\<close>, a set).
\<close>

record 'p broker =
  b_cells :: "nat \<Rightarrow> 'p subscription"
  b_next :: nat
  b_subs :: "(nat, unit) gomap"
  b_key :: "('p event \<Rightarrow> string) option"
  b_done :: bool
  b_count :: int
  b_buffer :: nat
  b_timeout :: int
  b_drop :: u64
  b_must_drop :: u64

definition default_must_timeout :: int where
  "default_must_timeout = 50 * 1000000"

definition new_broker_with_options :: "'p event \<Rightarrow> nat \<Rightarrow> 'p broker" where
  "new_broker_with_options zero n =
     \<lparr>b_cells = (\<lambda>_. new_subscription zero n), b_next = 0, b_subs = [], b_key = None, b_done = False,
      b_count = 0, b_buffer = n, b_timeout = default_must_timeout, b_drop = 0, b_must_drop = 0\<rparr>"

definition new_broker :: "'p event \<Rightarrow> 'p broker" where
  "new_broker zero = new_broker_with_options zero 4096"

definition new_coalescing_broker :: "'p event \<Rightarrow> ('p event \<Rightarrow> string) \<Rightarrow> 'p broker" where
  "new_coalescing_broker zero key = (new_broker zero)\<lparr>b_key := Some key\<rparr>"

definition set_must_deliver_timeout :: "int \<Rightarrow> 'p broker \<Rightarrow> 'p broker" where
  "set_must_deliver_timeout d b = (if d \<le> 0 then b\<lparr>b_timeout := default_must_timeout\<rparr> else b\<lparr>b_timeout := d\<rparr>)"

definition broker_key :: "'p broker \<Rightarrow> 'p event \<Rightarrow> string" where
  "broker_key b e = (case b_key b of None \<Rightarrow> [] | Some f \<Rightarrow> f e)"

definition set_cell :: "nat \<Rightarrow> 'p subscription \<Rightarrow> 'p broker \<Rightarrow> 'p broker" where
  "set_cell i s b = b\<lparr>b_cells := (b_cells b)(i := s)\<rparr>"

text \<open>\<open>Subscribe\<close> returns no id where the code returns a channel that is closed already.\<close>

definition subscribe :: "'p event \<Rightarrow> 'p broker \<Rightarrow> nat option \<times> 'p broker" where
  "subscribe zero b =
     (if b_done b then (None, b)
      else (Some (b_next b),
            b\<lparr>b_cells := (b_cells b)(b_next b := new_subscription zero (b_buffer b)),
              b_next := Suc (b_next b), b_subs := AList.update (b_next b) () (b_subs b),
              b_count := b_count b + 1\<rparr>))"

text \<open>Closing a closed channel panics: \<open>None\<close>.\<close>

definition close_cell :: "nat \<Rightarrow> 'p broker \<Rightarrow> 'p broker option" where
  "close_cell i b =
     (if s_closed (b_cells b i) then None else Some (set_cell i (close_queue (b_cells b i)) b))"

text \<open>The goroutine started by \<open>Subscribe\<close>, once its context is done and it has the lock.\<close>

definition unsubscribe :: "nat \<Rightarrow> 'p broker \<Rightarrow> 'p broker option" where
  "unsubscribe i b =
     (if b_done b then Some b
      else (case close_cell i (b\<lparr>b_subs := AList.delete i (b_subs b)\<rparr>) of
              None \<Rightarrow> None
            | Some b' \<Rightarrow> Some (b'\<lparr>b_count := b_count b' - 1\<rparr>)))"

text \<open>
  \<open>Shutdown\<close> is three steps of its caller: the check of \<open>done\<close>, closing \<open>done\<close>, and, under
  the lock, closing every queue.
\<close>

definition shutdown_close :: "'p broker \<Rightarrow> 'p broker option" where
  "shutdown_close b = (if b_done b then None else Some (b\<lparr>b_done := True\<rparr>))"

fun sweep_subs :: "nat list \<Rightarrow> 'p broker \<Rightarrow> 'p broker option" where
  "sweep_subs [] b = Some b"
| "sweep_subs (i # is) b =
     (case close_cell i (b\<lparr>b_subs := AList.delete i (b_subs b)\<rparr>) of
        None \<Rightarrow> None
      | Some b' \<Rightarrow> sweep_subs is b')"

definition shutdown_sweep :: "((nat, unit) gomap \<Rightarrow> (nat, unit) gomap) \<Rightarrow> 'p broker \<Rightarrow> 'p broker option" where
  "shutdown_sweep ord b =
     (case sweep_subs (map fst (ord (b_subs b))) b of
        None \<Rightarrow> None | Some b' \<Rightarrow> Some (b'\<lparr>b_count := 0\<rparr>))"

text \<open>\<open>Publish\<close>: one non-blocking attempt per subscriber; failures are counted.\<close>

definition publish_one :: "'p event \<Rightarrow> string \<Rightarrow> nat \<Rightarrow> 'p broker \<Rightarrow> 'p broker" where
  "publish_one e key i b =
     (case sub_publish e key (b_cells b i) of
        (True, s) \<Rightarrow> set_cell i s b
      | (False, s) \<Rightarrow> (set_cell i s b)\<lparr>b_drop := b_drop b + 1\<rparr>)"

definition publish :: "((nat, unit) gomap \<Rightarrow> (nat, unit) gomap) \<Rightarrow> string \<Rightarrow> 'p \<Rightarrow> 'p broker \<Rightarrow> 'p broker" where
  "publish ord t p b =
     (if b_done b then b
      else (let e = mk_event t p False; key = broker_key b e
            in fold (publish_one e key) (map fst (ord (b_subs b))) b))"

text \<open>
  \<open>PublishMustDeliver\<close>. While it blocks on subscriber \<open>i\<close> the other goroutines change the
  subscription: \<open>wait i\<close> gives the subscription at the end of the wait and whether the select
  took the send (which needs room). Otherwise the timer fired or the context ended;
  \<open>ctx_err i\<close> is what \<open>ctx.Err() != nil\<close> says then, and a cancelled publisher stops.
\<close>

fun must_loop :: "(nat \<Rightarrow> 'p subscription \<Rightarrow> 'p subscription \<times> bool) \<Rightarrow> (nat \<Rightarrow> bool) \<Rightarrow>
    'p event \<Rightarrow> string \<Rightarrow> nat list \<Rightarrow> 'p broker \<Rightarrow> 'p broker" where
  "must_loop wait ctx_err e key [] b = b"
| "must_loop wait ctx_err e key (i # is) b =
     (case sub_publish_must e key (b_cells b i) of
        (MustDone, s) \<Rightarrow> must_loop wait ctx_err e key is (set_cell i s b)
      | (MustBlocks, s) \<Rightarrow>
          (let (s', send) = wait i s
           in case (if send then sub_slow_send e key s' else None) of
                Some s'' \<Rightarrow> must_loop wait ctx_err e key is (set_cell i s'' b)
              | None \<Rightarrow>
                  if ctx_err i then set_cell i s' b
                  else must_loop wait ctx_err e key is
                         ((set_cell i s' b)\<lparr>b_must_drop := b_must_drop b + 1\<rparr>)))"

definition publish_must_deliver :: "(nat \<Rightarrow> 'p subscription \<Rightarrow> 'p subscription \<times> bool) \<Rightarrow> (nat \<Rightarrow> bool) \<Rightarrow>
    ((nat, unit) gomap \<Rightarrow> (nat, unit) gomap) \<Rightarrow> string \<Rightarrow> 'p \<Rightarrow> 'p broker \<Rightarrow> 'p broker" where
  "publish_must_deliver wait ctx_err ord t p b =
     (if b_done b then b
      else (let e = mk_event t p True; key = broker_key b e
            in must_loop wait ctx_err e key (map fst (ord (b_subs b))) b))"

subsubsection \<open>Publishing\<close>

lemma publish_one_other [simp]:
  "b_subs (publish_one e key i b) = b_subs b" "b_next (publish_one e key i b) = b_next b"
  "b_count (publish_one e key i b) = b_count b" "b_done (publish_one e key i b) = b_done b"
  "b_must_drop (publish_one e key i b) = b_must_drop b" "b_key (publish_one e key i b) = b_key b"
  by (simp_all add: publish_one_def set_cell_def split: prod.split bool.split)

lemma publish_one_cells:
  "b_cells (publish_one e key i b) = (b_cells b)(i := snd (sub_publish e key (b_cells b i)))"
  by (simp add: publish_one_def set_cell_def split: prod.split bool.split)

lemma publish_one_drop:
  "b_drop (publish_one e key i b) = b_drop b + (if fst (sub_publish e key (b_cells b i)) then 0 else 1)"
  by (simp add: publish_one_def set_cell_def split: prod.split bool.split)

lemma publish_fold:
  assumes "distinct is"
  shows "b_cells (fold (publish_one e key) is b) =
           (\<lambda>i. if i \<in> set is then snd (sub_publish e key (b_cells b i)) else b_cells b i) \<and>
         b_drop (fold (publish_one e key) is b) =
           b_drop b + of_nat (length (filter (\<lambda>i. \<not> fst (sub_publish e key (b_cells b i))) is))"
  using assms
proof (induction "is" arbitrary: b)
  case (Cons i "is")
  have "filter (\<lambda>j. \<not> fst (sub_publish e key (b_cells (publish_one e key i b) j))) is =
      filter (\<lambda>j. \<not> fst (sub_publish e key (b_cells b j))) is"
    using Cons.prems by (intro filter_cong refl) (auto simp: publish_one_cells)
  with Cons.IH [of "publish_one e key i b"] Cons.prems show ?case
    by (auto simp: publish_one_cells publish_one_drop)
qed simp

lemma publish_fold_other [simp]:
  "b_subs (fold (publish_one e key) is b) = b_subs b" "b_next (fold (publish_one e key) is b) = b_next b"
  "b_count (fold (publish_one e key) is b) = b_count b" "b_done (fold (publish_one e key) is b) = b_done b"
  by (induction "is" arbitrary: b) simp_all

text \<open>A queue without room for an event: its key is not open and the channel is full.\<close>

definition saturated :: "string \<Rightarrow> 'p subscription \<Rightarrow> bool" where
  "saturated key s \<longleftrightarrow> map_of (s_open s) key = None \<and> \<not> can_send s"

lemma sub_publish_fst: "fst (sub_publish e key s) \<longleftrightarrow> \<not> saturated key s"
  by (auto simp: sub_publish_def saturated_def split: option.split)

text \<open>
  \<open>Publish\<close> gives the event to every subscriber exactly once, touches no other
  subscription, and the drop counter grows (modulo 2^64) by the number of subscribers whose queue
  was full, in whatever order the runtime walks the map.
\<close>

theorem publish_fanout:
  assumes "map_order ord" and "gm_wf (b_subs b)" and "\<not> b_done b" and "e = mk_event t p False"
  shows "(\<forall>i. b_cells (publish ord t p b) i =
            (if i \<in> fst ` set (b_subs b) then snd (sub_publish e (broker_key b e) (b_cells b i))
             else b_cells b i)) \<and>
         b_drop (publish ord t p b) =
           b_drop b + of_nat (card {i \<in> fst ` set (b_subs b). saturated (broker_key b e) (b_cells b i)})"
proof -
  let ?is = "map fst (ord (b_subs b))"
  note ids = map_order_ids [OF assms(1,2)]
  have "length (filter (saturated (broker_key b e) \<circ> b_cells b) ?is) =
      card (set (filter (saturated (broker_key b e) \<circ> b_cells b) ?is))"
    by (metis distinct_card distinct_filter ids(1))
  also have "set (filter (saturated (broker_key b e) \<circ> b_cells b) ?is) =
      {i \<in> fst ` set (b_subs b). saturated (broker_key b e) (b_cells b i)}"
    using ids(2) by auto
  finally show ?thesis
    using publish_fold [OF ids(1), of e "broker_key b e" b] ids(2) assms(3)
    by (simp add: publish_def Let_def assms(4) [symmetric] sub_publish_fst comp_def)
qed

theorem publish_fanout_witness:
  "let b = snd (subscribe demo_zero (snd (subscribe demo_zero (new_coalescing_broker demo_zero ev_type))));
       e = mk_event ''k'' 7 False
   in (\<forall>i. b_cells (publish rev ''k'' 7 b) i =
            (if i \<in> fst ` set (b_subs b) then snd (sub_publish e (broker_key b e) (b_cells b i))
             else b_cells b i)) \<and>
         b_drop (publish rev ''k'' 7 b) =
           b_drop b + of_nat (card {i \<in> fst ` set (b_subs b). saturated (broker_key b e) (b_cells b i)})"
  unfolding Let_def
  by (rule publish_fanout [OF map_order_rev _ _ refl])
    (simp_all add: subscribe_def new_coalescing_broker_def new_broker_def new_broker_with_options_def)

text \<open>A must-deliver publication leaves the set of subscribers and the plain drop counter alone.\<close>

lemma must_loop_other [simp]:
  "b_subs (must_loop wait ctx_err e key is b) = b_subs b"
  "b_next (must_loop wait ctx_err e key is b) = b_next b"
  "b_count (must_loop wait ctx_err e key is b) = b_count b"
  "b_done (must_loop wait ctx_err e key is b) = b_done b"
  "b_drop (must_loop wait ctx_err e key is b) = b_drop b"
  by (induction "is" arbitrary: b)
    (simp_all add: set_cell_def Let_def split: prod.split must_outcome.split option.split)

text \<open>A publisher with a live context reaches every subscriber or counts it as dropped.\<close>

lemma must_loop_cells_outside: "i \<notin> set is \<Longrightarrow> b_cells (must_loop wait ctx_err e key is b) i = b_cells b i"
  by (induction "is" arbitrary: b)
    (simp_all add: set_cell_def Let_def split: prod.split must_outcome.split option.split)

definition must_one :: "(nat \<Rightarrow> 'p subscription \<Rightarrow> 'p subscription \<times> bool) \<Rightarrow> 'p event \<Rightarrow> string \<Rightarrow> nat
    \<Rightarrow> 'p subscription \<Rightarrow> bool \<times> 'p subscription" where
  "must_one wait e key i s0 =
     (case sub_publish_must e key s0 of
        (MustDone, s) \<Rightarrow> (True, s)
      | (MustBlocks, s) \<Rightarrow>
          (case wait i s of (s', send) \<Rightarrow>
             case (if send then sub_slow_send e key s' else None) of
               Some s'' \<Rightarrow> (True, s'') | None \<Rightarrow> (False, s')))"

lemma must_loop_Cons:
  assumes "must_one wait e key i (b_cells b i) = (ok, s)" and "ok \<or> \<not> ctx_err i"
  shows "must_loop wait ctx_err e key (i # is) b =
    must_loop wait ctx_err e key is
      (if ok then set_cell i s b else (set_cell i s b)\<lparr>b_must_drop := b_must_drop b + 1\<rparr>)"
  using assms
  by (auto simp: must_one_def Let_def set_cell_def
      split: prod.splits must_outcome.splits option.splits if_splits)

lemma must_loop_all:
  assumes "distinct is" and ctx: "\<And>i. \<not> ctx_err i"
  shows "b_cells (must_loop wait ctx_err e key is b) =
           (\<lambda>i. if i \<in> set is then snd (must_one wait e key i (b_cells b i)) else b_cells b i) \<and>
         b_must_drop (must_loop wait ctx_err e key is b) = b_must_drop b +
           of_nat (length (filter (\<lambda>i. \<not> fst (must_one wait e key i (b_cells b i))) is))"
  using assms(1)
proof (induction "is" arbitrary: b)
  case (Cons i "is")
  obtain ok s where o: "must_one wait e key i (b_cells b i) = (ok, s)" by fastforce
  define b' where "b' =
    (if ok then set_cell i s b else (set_cell i s b)\<lparr>b_must_drop := b_must_drop b + 1\<rparr>)"
  have step: "must_loop wait ctx_err e key (i # is) b = must_loop wait ctx_err e key is b'"
    unfolding b'_def using ctx by (intro must_loop_Cons [OF o]) simp
  have cells: "b_cells b' = (b_cells b)(i := s)"
    and drop: "b_must_drop b' = b_must_drop b + (if ok then 0 else 1)"
    by (simp_all add: b'_def set_cell_def)
  have "filter (\<lambda>j. \<not> fst (must_one wait e key j (b_cells b' j))) is =
      filter (\<lambda>j. \<not> fst (must_one wait e key j (b_cells b j))) is"
    using Cons.prems cells by (intro filter_cong refl) auto
  with Cons.IH [of b'] Cons.prems cells drop o show ?case unfolding step by auto
qed simp

subsubsection \<open>Subscribing, unsubscribing and shutting down\<close>

text \<open>
  The broker with its goroutines. \<open>bs_watch\<close>: the subscriptions whose unsubscribe goroutine has
  not finished; \<open>bs_shut c\<close>: how far caller \<open>c\<close> of \<open>Shutdown\<close> has got. A step is one critical
  section or one channel operation; \<open>None\<close> is a panic of the process.
\<close>

datatype shut_pc = ShutStart | ShutChecked | ShutClosed | ShutReturned

record 'p bsys =
  bs_broker :: "'p broker"
  bs_watch :: "nat list"
  bs_shut :: "nat \<Rightarrow> shut_pc"

datatype 'p bstep =
    BSubscribe
  | BUnsubscribe nat
  | BUnwatch nat
  | BPublish string 'p
  | BMust "nat \<Rightarrow> 'p subscription \<Rightarrow> 'p subscription \<times> bool" "nat \<Rightarrow> bool" string 'p
  | BPump nat "'p act"
  | BShutdown nat

definition is_pump :: "'p act \<Rightarrow> bool" where
  "is_pump a \<longleftrightarrow> (case a of AReceive \<Rightarrow> True | ATake \<Rightarrow> True | ADeliver \<Rightarrow> True | ASeeDone \<Rightarrow> True
     | AGiveUp c \<Rightarrow> True | _ \<Rightarrow> False)"

definition shutdown_step :: "((nat, unit) gomap \<Rightarrow> (nat, unit) gomap) \<Rightarrow> nat \<Rightarrow> 'p bsys \<Rightarrow> 'p bsys option" where
  "shutdown_step ord c y =
     (case bs_shut y c of
        ShutStart \<Rightarrow>
          Some (y\<lparr>bs_shut := (bs_shut y)(c := if b_done (bs_broker y) then ShutReturned else ShutChecked)\<rparr>)
      | ShutChecked \<Rightarrow>
          map_option (\<lambda>b. y\<lparr>bs_broker := b, bs_shut := (bs_shut y)(c := ShutClosed)\<rparr>)
            (shutdown_close (bs_broker y))
      | ShutClosed \<Rightarrow>
          map_option (\<lambda>b. y\<lparr>bs_broker := b, bs_shut := (bs_shut y)(c := ShutReturned)\<rparr>)
            (shutdown_sweep ord (bs_broker y))
      | ShutReturned \<Rightarrow> Some y)"

fun bsys_step :: "((nat, unit) gomap \<Rightarrow> (nat, unit) gomap) \<Rightarrow> 'p event \<Rightarrow> 'p bsys \<Rightarrow> 'p bstep
    \<Rightarrow> 'p bsys option" where
  "bsys_step ord zero y BSubscribe =
     (case subscribe zero (bs_broker y) of
        (None, b) \<Rightarrow> Some (y\<lparr>bs_broker := b\<rparr>)
      | (Some i, b) \<Rightarrow> Some (y\<lparr>bs_broker := b, bs_watch := i # bs_watch y\<rparr>))"
| "bsys_step ord zero y (BUnsubscribe i) =
     (if i \<in> set (bs_watch y)
      then map_option (\<lambda>b. y\<lparr>bs_broker := b, bs_watch := removeAll i (bs_watch y)\<rparr>)
             (unsubscribe i (bs_broker y))
      else Some y)"
| "bsys_step ord zero y (BUnwatch i) =
     Some (if b_done (bs_broker y) then y\<lparr>bs_watch := removeAll i (bs_watch y)\<rparr> else y)"
| "bsys_step ord zero y (BPublish t p) = Some (y\<lparr>bs_broker := publish ord t p (bs_broker y)\<rparr>)"
| "bsys_step ord zero y (BMust wait err t p) =
     Some (y\<lparr>bs_broker := publish_must_deliver wait err ord t p (bs_broker y)\<rparr>)"
| "bsys_step ord zero y (BPump i a) =
     Some (if is_pump a
           then y\<lparr>bs_broker := set_cell i (fst (act_step (broker_key (bs_broker y)) zero
                    (b_cells (bs_broker y) i, []) a)) (bs_broker y)\<rparr>
           else y)"
| "bsys_step ord zero y (BShutdown c) = shutdown_step ord c y"

definition bsys_init :: "'p broker \<Rightarrow> 'p bsys" where
  "bsys_init b = \<lparr>bs_broker = b, bs_watch = [], bs_shut = (\<lambda>_. ShutStart)\<rparr>"

text \<open>
  The invariant: the counter is the number of subscriptions, no queue the broker publishes to
  is closed, every live unsubscribe goroutine has its subscription still registered, and \<open>done\<close>
  is only closed by the one caller \<open>c\<close> of \<open>Shutdown\<close>.
\<close>

definition sub_ids :: "'p broker \<Rightarrow> nat set" where
  "sub_ids b = fst ` set (b_subs b)"

lemma sub_ids_cong: "b_subs b' = b_subs b \<Longrightarrow> sub_ids b' = sub_ids b"
  by (simp add: sub_ids_def)

definition broker_ok :: "'p broker \<Rightarrow> bool" where
  "broker_ok b \<longleftrightarrow> gm_wf (b_subs b) \<and> b_count b = int (length (b_subs b)) \<and>
     (\<forall>i\<in>sub_ids b. i < b_next b \<and> \<not> s_closed (b_cells b i))"

definition bsys_ok :: "nat \<Rightarrow> 'p bsys \<Rightarrow> bool" where
  "bsys_ok c y \<longleftrightarrow> broker_ok (bs_broker y) \<and>
     (\<not> b_done (bs_broker y) \<longrightarrow> set (bs_watch y) \<subseteq> sub_ids (bs_broker y)) \<and>
     (b_done (bs_broker y) \<longleftrightarrow> bs_shut y c \<in> {ShutClosed, ShutReturned})"

definition bstep_ok :: "nat \<Rightarrow> 'p bstep \<Rightarrow> bool" where
  "bstep_ok c a \<longleftrightarrow> (case a of
       BShutdown c' \<Rightarrow> c' = c
     | BMust wait err t p \<Rightarrow> (\<forall>i s. s_closed (fst (wait i s)) = s_closed s)
     | _ \<Rightarrow> True)"

lemma sub_publish_closed [simp]: "s_closed (snd (sub_publish e key s)) = s_closed s"
  by (simp add: sub_publish_def overwrite_sel enqueue_sel split: option.split)

lemma sub_publish_must_closed [simp]: "s_closed (snd (sub_publish_must e key s)) = s_closed s"
  by (simp add: sub_publish_must_def overwrite_sel enqueue_sel split: option.split)

lemma sub_slow_closed: "sub_slow_send e key s = Some s' \<Longrightarrow> s_closed s' = s_closed s"
  by (auto simp: sub_slow_send_def enqueue_sel split: if_splits)

lemma pump_closed: "is_pump a \<Longrightarrow> s_closed (fst (act_step kf zero (s, log) a)) = s_closed s"
  by (cases a) (auto simp: is_pump_def pump_receive_def pump_take_def pump_deliver_def
      pump_see_done_def pump_give_up_def overwrite_sel Let_def split: pump_state.split list.split)

lemma must_one_closed:
  assumes "\<And>i s. s_closed (fst (wait i s)) = s_closed s"
  shows "s_closed (snd (must_one wait e key i s)) = s_closed s"
proof -
  obtain o1 s1 where p: "sub_publish_must e key s = (o1, s1)" by fastforce
  obtain s2 send where w: "wait i s1 = (s2, send)" by fastforce
  have "s_closed s1 = s_closed s" using sub_publish_must_closed [of e key s] p by simp
  moreover have "s_closed s2 = s_closed s1" using assms [of i s1] w by simp
  ultimately show ?thesis
    by (auto simp: must_one_def p w dest: sub_slow_closed split: must_outcome.split option.split)
qed

lemma must_loop_closed:
  assumes "\<And>i s. s_closed (fst (wait i s)) = s_closed s"
  shows "s_closed (b_cells (must_loop wait ctx_err e key is b) j) = s_closed (b_cells b j)"
proof (induction "is" arbitrary: b)
  case (Cons i "is")
  obtain ok s where o: "must_one wait e key i (b_cells b i) = (ok, s)" by fastforce
  have s: "s_closed s = s_closed (b_cells b i)"
    using must_one_closed [of wait e key i "b_cells b i"] assms o by simp
  show ?case
  proof (cases "ok \<or> \<not> ctx_err i")
    case True
    note step = must_loop_Cons [of wait e key i b ok s ctx_err "is", OF o True]
    from Cons.IH s show ?thesis unfolding step by (simp add: set_cell_def)
  next
    case False
    then have "must_loop wait ctx_err e key (i # is) b = set_cell i s b"
      using o by (auto simp: must_one_def Let_def
          split: prod.splits must_outcome.splits option.splits if_splits)
    with s show ?thesis by (simp add: set_cell_def)
  qed
qed simp

lemma publish_closed: "s_closed (b_cells (fold (publish_one e key) is b) j) = s_closed (b_cells b j)"
  by (induction "is" arbitrary: b) (simp_all add: publish_one_cells)

lemma broker_ok_frame:
  assumes "broker_ok b" and "b_subs b' = b_subs b" and "b_count b' = b_count b" and "b_next b' = b_next b"
    and "\<And>i. s_closed (b_cells b' i) = s_closed (b_cells b i)"
  shows "broker_ok b'"
  using assms by (simp add: broker_ok_def sub_ids_cong [OF assms(2)])

lemma broker_ok_publish: "broker_ok b \<Longrightarrow> broker_ok (publish ord t p b)"
  by (erule broker_ok_frame) (simp_all add: publish_def Let_def publish_closed)

lemma broker_ok_must:
  assumes "broker_ok b" and "\<And>i s. s_closed (fst (wait i s)) = s_closed s"
  shows "broker_ok (publish_must_deliver wait err ord t p b)"
  using assms(1) by (rule broker_ok_frame)
    (simp_all add: publish_must_deliver_def Let_def must_loop_closed [of wait, OF assms(2)])

lemma gm_update_new: "map_of m k = None \<Longrightarrow> AList.update k v m = m @ [(k, v)]"
  by (induction m) auto

lemma length_delete_present:
  "gm_wf m \<Longrightarrow> i \<in> fst ` set m \<Longrightarrow> int (length (AList.delete i m)) = int (length m) - 1"
proof (induction m)
  case (Cons a m)
  show ?case
  proof (cases "fst a = i")
    case True
    with Cons.prems(1) have "map_of m i = None" by (simp add: map_of_eq_None_iff)
    from gm_delete_absent [OF this] True show ?thesis by (cases a) simp
  next
    case False
    with Cons show ?thesis by (cases a) (auto simp: AList.delete_eq)
  qed
qed simp

lemma sub_ids_delete: "b_subs b' = AList.delete i (b_subs b) \<Longrightarrow> sub_ids b' = sub_ids b - {i}"
  by (auto simp: sub_ids_def gm_delete_set image_iff)

lemma broker_okI:
  assumes "gm_wf (b_subs b)" and "b_count b = int (length (b_subs b))"
    and "\<And>i. i \<in> sub_ids b \<Longrightarrow> i < b_next b" and "\<And>i. i \<in> sub_ids b \<Longrightarrow> \<not> s_closed (b_cells b i)"
  shows "broker_ok b"
  using assms by (simp add: broker_ok_def)

lemma broker_okD:
  assumes "broker_ok b"
  shows "gm_wf (b_subs b)" and "b_count b = int (length (b_subs b))"
    and "i \<in> sub_ids b \<Longrightarrow> i < b_next b" and "i \<in> sub_ids b \<Longrightarrow> \<not> s_closed (b_cells b i)"
  using assms by (simp_all add: broker_ok_def)

lemma broker_ok_subscribe:
  assumes ok: "broker_ok b"
  shows "broker_ok (snd (subscribe zero b))"
proof (cases "b_done b")
  case False
  let ?b = "snd (subscribe zero b)"
  have new: "map_of (b_subs b) (b_next b) = None"
    using broker_okD(3) [OF ok, of "b_next b"] by (force simp: sub_ids_def map_of_eq_None_iff)
  then have subs: "b_subs ?b = b_subs b @ [(b_next b, ())]"
    using False by (simp add: subscribe_def gm_update_new)
  then have ids: "sub_ids ?b = insert (b_next b) (sub_ids b)" by (auto simp: sub_ids_def)
  show ?thesis
  proof (rule broker_okI)
    show "gm_wf (b_subs ?b)" using broker_okD(1) [OF ok] new by (simp add: subs map_of_eq_None_iff)
    show "b_count ?b = int (length (b_subs ?b))"
      using broker_okD(2) [OF ok] False subs by (simp add: subscribe_def)
    fix i
    assume "i \<in> sub_ids ?b"
    with ids broker_okD(3) [OF ok, of i] broker_okD(4) [OF ok, of i]
    show "i < b_next ?b" and "\<not> s_closed (b_cells ?b i)"
      using False by (auto simp: subscribe_def new_subscription_def)
  qed
qed (use ok in \<open>simp add: subscribe_def\<close>)

lemma broker_ok_unsubscribe:
  assumes ok: "broker_ok b" and i: "i \<in> sub_ids b" and nd: "\<not> b_done b"
  shows "\<exists>b'. unsubscribe i b = Some b' \<and> broker_ok b' \<and> b_subs b' = AList.delete i (b_subs b) \<and>
    b_done b' = b_done b"
proof -
  have nc: "\<not> s_closed (b_cells b i)" using broker_okD(4) [OF ok i] .
  define b' where "b' = (set_cell i (close_queue (b_cells b i)) (b\<lparr>b_subs := AList.delete i (b_subs b)\<rparr>))
    \<lparr>b_count := b_count b - 1\<rparr>"
  have u: "unsubscribe i b = Some b'"
    using nc nd by (simp add: unsubscribe_def close_cell_def b'_def set_cell_def)
  have subs: "b_subs b' = AList.delete i (b_subs b)" by (simp add: b'_def set_cell_def)
  note ids = sub_ids_delete [OF subs]
  have "broker_ok b'"
  proof (rule broker_okI)
    show "gm_wf (b_subs b')" using broker_okD(1) [OF ok] by (simp add: subs)
    have "int (length (AList.delete i (b_subs b))) = int (length (b_subs b)) - 1"
      using broker_okD(1) [OF ok] i by (intro length_delete_present) (simp_all add: sub_ids_def)
    then show "b_count b' = int (length (b_subs b'))"
      using broker_okD(2) [OF ok] by (simp add: b'_def set_cell_def)
    fix j
    assume "j \<in> sub_ids b'"
    with ids broker_okD(3,4) [OF ok, of j] show "j < b_next b'" and "\<not> s_closed (b_cells b' j)"
      by (auto simp: b'_def set_cell_def)
  qed
  with u subs show ?thesis by (simp add: b'_def set_cell_def)
qed

lemma sweep_total:
  assumes "gm_wf (b_subs b)" and "distinct is" and "set is \<subseteq> sub_ids b"
    and "\<And>i. i \<in> sub_ids b \<Longrightarrow> \<not> s_closed (b_cells b i)"
  shows "\<exists>b'. sweep_subs is b = Some b' \<and> gm_wf (b_subs b') \<and>
    sub_ids b' = sub_ids b - set is \<and> b_done b' = b_done b \<and> b_next b' = b_next b"
  using assms
proof (induction "is" arbitrary: b)
  case (Cons i "is")
  define b1 where "b1 = set_cell i (close_queue (b_cells b i)) (b\<lparr>b_subs := AList.delete i (b_subs b)\<rparr>)"
  have "\<not> s_closed (b_cells b i)" using Cons.prems(3,4) by simp
  then have c: "close_cell i (b\<lparr>b_subs := AList.delete i (b_subs b)\<rparr>) = Some b1"
    by (simp add: close_cell_def b1_def)
  have b1: "b_subs b1 = AList.delete i (b_subs b)" "b_done b1 = b_done b" "b_next b1 = b_next b"
      "b_cells b1 = (b_cells b)(i := close_queue (b_cells b i))"
    by (simp_all add: b1_def set_cell_def)
  note ids = sub_ids_delete [OF b1(1)]
  have "\<exists>b'. sweep_subs is b1 = Some b' \<and> gm_wf (b_subs b') \<and>
    sub_ids b' = sub_ids b1 - set is \<and> b_done b' = b_done b1 \<and> b_next b' = b_next b1"
  proof (rule Cons.IH)
    show "set is \<subseteq> sub_ids b1" using Cons.prems(2,3) by (auto simp: ids)
    show "\<not> s_closed (b_cells b1 j)" if "j \<in> sub_ids b1" for j
      using that Cons.prems(4) by (simp add: ids b1)
  qed (use Cons.prems in \<open>simp_all add: b1\<close>)
  with c ids b1 show ?case by auto
qed simp

text \<open>A finished \<open>Shutdown\<close> leaves no subscriber, and the counter at zero.\<close>

lemma shutdown_sweep_total:
  assumes ok: "broker_ok b" and ord: "map_order ord"
  shows "\<exists>b'. shutdown_sweep ord b = Some b' \<and> broker_ok b' \<and> sub_ids b' = {} \<and> b_done b' = b_done b"
proof -
  note ids = map_order_ids [OF ord broker_okD(1) [OF ok]]
  have "\<exists>b'. sweep_subs (map fst (ord (b_subs b))) b = Some b' \<and> gm_wf (b_subs b') \<and>
    sub_ids b' = sub_ids b - set (map fst (ord (b_subs b))) \<and> b_done b' = b_done b \<and> b_next b' = b_next b"
    using broker_okD(1,4) [OF ok] ids by (intro sweep_total) (simp_all add: sub_ids_def)
  then obtain b' where b': "sweep_subs (map fst (ord (b_subs b))) b = Some b'"
    "sub_ids b' = {}" "b_done b' = b_done b" using ids(2) by (auto simp: sub_ids_def)
  then have "b_subs b' = []" by (simp add: sub_ids_def)
  then have "broker_ok (b'\<lparr>b_count := 0\<rparr>)" "sub_ids (b'\<lparr>b_count := 0\<rparr>) = {}"
    by (simp_all add: broker_ok_def sub_ids_def)
  with b' show ?thesis by (simp add: shutdown_sweep_def)
qed

lemma subscribe_watch:
  assumes "subscribe zero b = (Some i, b')"
  shows "i \<in> sub_ids b'" and "sub_ids b \<subseteq> sub_ids b'" and "\<not> b_done b" and "b_done b' = b_done b"
  using assms by (auto simp: subscribe_def sub_ids_def dom_map_of_conv_image_fst [symmetric] update_conv
      split: if_splits)

lemma bsys_okI:
  assumes "broker_ok (bs_broker y)"
    and "\<not> b_done (bs_broker y) \<Longrightarrow> set (bs_watch y) \<subseteq> sub_ids (bs_broker y)"
    and "b_done (bs_broker y) \<longleftrightarrow> bs_shut y c \<in> {ShutClosed, ShutReturned}"
  shows "bsys_ok c y"
  using assms by (simp add: bsys_ok_def)

lemma bsys_okD:
  assumes "bsys_ok c y"
  shows "broker_ok (bs_broker y)" and "\<not> b_done (bs_broker y) \<Longrightarrow> set (bs_watch y) \<subseteq> sub_ids (bs_broker y)"
    and "b_done (bs_broker y) \<longleftrightarrow> bs_shut y c \<in> {ShutClosed, ShutReturned}"
  using assms by (simp_all add: bsys_ok_def)

text \<open>A step that leaves the broker's set of subscriptions and \<open>done\<close> alone.\<close>

lemma bsys_ok_broker:
  assumes ok: "bsys_ok c y" and "broker_ok b" and "b_subs b = b_subs (bs_broker y)"
    and "b_done b = b_done (bs_broker y)"
  shows "bsys_ok c (y\<lparr>bs_broker := b\<rparr>)"
  using assms bsys_okD(2,3) [OF ok] sub_ids_cong [OF assms(3)] by (intro bsys_okI) simp_all

lemma shutdown_step_total:
  assumes ok: "bsys_ok c y" and ord: "map_order ord"
  shows "\<exists>y'. shutdown_step ord c y = Some y' \<and> bsys_ok c y'"
proof (cases "bs_shut y c")
  case ShutStart
  with bsys_okD [OF ok] show ?thesis
    by (auto simp: shutdown_step_def intro!: bsys_okI)
next
  case ShutChecked
  with bsys_okD [OF ok] show ?thesis
    by (auto simp: shutdown_step_def shutdown_close_def broker_ok_def sub_ids_def intro!: bsys_okI)
next
  case ShutClosed
  obtain b where b: "shutdown_sweep ord (bs_broker y) = Some b" "broker_ok b" "sub_ids b = {}"
      "b_done b = b_done (bs_broker y)"
    using shutdown_sweep_total [OF bsys_okD(1) [OF ok] ord] by blast
  with bsys_okD(3) [OF ok] ShutClosed show ?thesis
    by (auto simp: shutdown_step_def intro!: bsys_okI)
qed (use ok in \<open>simp add: shutdown_step_def\<close>)

lemma publish_other [simp]:
  "b_subs (publish ord t p b) = b_subs b" "b_done (publish ord t p b) = b_done b"
  "b_subs (publish_must_deliver wait err ord t p b) = b_subs b"
  "b_done (publish_must_deliver wait err ord t p b) = b_done b"
  by (simp_all add: publish_def publish_must_deliver_def Let_def)

lemma bsys_step_total:
  assumes ok: "bsys_ok c y" and ord: "map_order ord" and a: "bstep_ok c a"
  shows "\<exists>y'. bsys_step ord zero y a = Some y' \<and> bsys_ok c y'"
proof (cases a)
  case BSubscribe
  obtain r b where r: "subscribe zero (bs_broker y) = (r, b)" by fastforce
  note b = broker_ok_subscribe [OF bsys_okD(1) [OF ok], of zero]
  show ?thesis
  proof (cases r)
    case None
    with r have "b = bs_broker y" by (auto simp: subscribe_def split: if_splits)
    with r ok None show ?thesis by (simp add: BSubscribe)
  next
    case (Some i)
    note w = subscribe_watch [OF r [unfolded Some]]
    have "bsys_ok c (y\<lparr>bs_broker := b, bs_watch := i # bs_watch y\<rparr>)"
      using b r w bsys_okD(2,3) [OF ok] by (intro bsys_okI) auto
    with r Some show ?thesis by (simp add: BSubscribe)
  qed
next
  case (BUnsubscribe i)
  show ?thesis
  proof (cases "i \<in> set (bs_watch y) \<and> \<not> b_done (bs_broker y)")
    case True
    then have "i \<in> sub_ids (bs_broker y)" using bsys_okD(2) [OF ok] by auto
    then obtain b where b: "unsubscribe i (bs_broker y) = Some b" "broker_ok b"
        "b_subs b = AList.delete i (b_subs (bs_broker y))" "b_done b = b_done (bs_broker y)"
      using broker_ok_unsubscribe [OF bsys_okD(1) [OF ok]] True by blast
    have "bsys_ok c (y\<lparr>bs_broker := b, bs_watch := removeAll i (bs_watch y)\<rparr>)"
      using b sub_ids_delete [OF b(3)] bsys_okD(2,3) [OF ok] by (intro bsys_okI) auto
    with b True show ?thesis by (simp add: BUnsubscribe)
  next
    case False
    with ok bsys_okD [OF ok] show ?thesis
      by (auto simp: BUnsubscribe unsubscribe_def intro!: bsys_okI)
  qed
next
  case (BUnwatch i)
  with bsys_okD [OF ok] ok show ?thesis by (auto intro!: bsys_okI)
next
  case (BPublish t p)
  with bsys_ok_broker [OF ok broker_ok_publish [OF bsys_okD(1) [OF ok]]] show ?thesis by simp
next
  case (BMust wait err t p)
  with a have "\<And>i s. s_closed (fst (wait i s)) = s_closed s" by (simp add: bstep_ok_def)
  with bsys_ok_broker [OF ok broker_ok_must [OF bsys_okD(1) [OF ok], of wait]] BMust
  show ?thesis by simp
next
  case (BPump i u)
  have "broker_ok (set_cell i (fst (act_step (broker_key (bs_broker y)) zero
                    (b_cells (bs_broker y) i, []) u)) (bs_broker y))" if "is_pump u"
    using bsys_okD(1) [OF ok] by (rule broker_ok_frame) (simp_all add: set_cell_def pump_closed [OF that])
  with bsys_ok_broker [OF ok] ok show ?thesis by (simp add: BPump set_cell_def)
next
  case (BShutdown c')
  with shutdown_step_total [OF ok ord] a show ?thesis by (simp add: bstep_ok_def)
qed

lemma bsys_init_ok: "bsys_ok c (bsys_init (new_broker_with_options zero n))"
  by (simp add: bsys_ok_def bsys_init_def broker_ok_def new_broker_with_options_def sub_ids_def)

interpretation bsys: progressing_system "bsys_step ord zero" "bstep_ok c"
    "\<lambda>y. map_order ord \<and> bsys_ok c y" for ord zero c
  by unfold_locales (use bsys_step_total in blast)

text \<open>
  C35: as long as a single caller shuts the broker down, no interleaving of subscribers coming
  and going, publishers, pumps and the shutdown panics (no queue is closed twice), publishers
  only ever send on open queues, and the subscriber count is the number of subscribers.
\<close>

theorem broker_never_panics:
  assumes "map_order ord" and "list_all (bstep_ok c) steps"
  shows "\<exists>y. run_opt (bsys_step ord zero) (bsys_init (new_broker_with_options zero n)) steps = Some y \<and>
    b_count (bs_broker y) = int (card (sub_ids (bs_broker y))) \<and>
    (\<forall>i. i \<in> sub_ids (bs_broker y) \<longrightarrow> \<not> s_closed (b_cells (bs_broker y) i))"
proof -
  obtain y where y: "run_opt (bsys_step ord zero) (bsys_init (new_broker_with_options zero n)) steps = Some y"
      "bsys_ok c y"
    using bsys.run_total [of ord c "bsys_init (new_broker_with_options zero n)" steps zero]
      assms bsys_init_ok by blast
  note ok = broker_okD [OF bsys_okD(1) [OF y(2)]]
  have "int (card (sub_ids (bs_broker y))) = int (length (b_subs (bs_broker y)))"
    using ok(1) distinct_card [of "map fst (b_subs (bs_broker y))"] by (simp add: sub_ids_def)
  with y(1) ok show ?thesis by auto
qed

definition demo_steps :: "nat bstep list" where
  "demo_steps = [BSubscribe, BSubscribe, BPublish ''k'' 1, BUnsubscribe 0, BPump 1 AReceive,
     BMust (\<lambda>i s. (s, False)) (\<lambda>i. False) ''k'' 2, BShutdown 0, BShutdown 0, BUnsubscribe 1,
     BShutdown 0, BPublish ''k'' 3]"

theorem broker_never_panics_witness:
  "\<exists>y. run_opt (bsys_step rev demo_zero) (bsys_init (new_broker_with_options demo_zero 2)) demo_steps = Some y \<and>
    b_count (bs_broker y) = int (card (sub_ids (bs_broker y))) \<and>
    (\<forall>i. i \<in> sub_ids (bs_broker y) \<longrightarrow> \<not> s_closed (b_cells (bs_broker y) i))"
  by (rule broker_never_panics [where c = 0, OF map_order_rev]) (simp add: demo_steps_def bstep_ok_def)

text \<open>
  \<open>Shutdown\<close> checks \<open>done\<close> and closes it in two separate steps outside the lock, so two
  concurrent callers can both pass the check, and the second one panics closing a closed channel.
\<close>

theorem concurrent_shutdown_panics:
  "run_opt (bsys_step ord zero) (bsys_init (new_broker_with_options zero n))
     [BShutdown 0, BShutdown 1, BShutdown 0, BShutdown 1] = None"
  by (simp add: bsys_init_def new_broker_with_options_def shutdown_step_def shutdown_close_def)

text \<open>
  A publisher whose context stays alive reaches every subscriber, on the fast path or by the
  blocking send, or counts it in the must-deliver drop counter; subscriptions of the broker are
  the only ones it touches.
\<close>

theorem must_deliver_accounted:
  assumes "map_order ord" and "gm_wf (b_subs b)" and "\<not> b_done b" and "\<And>i. \<not> ctx_err i"
    and "e = mk_event t p True" and "one = must_one wait e (broker_key b e)"
  shows "(\<forall>i. b_cells (publish_must_deliver wait ctx_err ord t p b) i =
            (if i \<in> sub_ids b then snd (one i (b_cells b i)) else b_cells b i)) \<and>
         b_must_drop (publish_must_deliver wait ctx_err ord t p b) =
           b_must_drop b + of_nat (card {i \<in> sub_ids b. \<not> fst (one i (b_cells b i))})"
proof -
  let ?is = "map fst (ord (b_subs b))"
  note ids = map_order_ids [OF assms(1,2)]
  have "length (filter (\<lambda>i. \<not> fst (one i (b_cells b i))) ?is) =
      card (set (filter (\<lambda>i. \<not> fst (one i (b_cells b i))) ?is))"
    by (metis distinct_card distinct_filter ids(1))
  also have "set (filter (\<lambda>i. \<not> fst (one i (b_cells b i))) ?is) = {i \<in> sub_ids b. \<not> fst (one i (b_cells b i))}"
    using ids(2) by (auto simp: sub_ids_def)
  finally show ?thesis
    using must_loop_all [of ?is ctx_err wait e "broker_key b e" b, OF ids(1) assms(4)] ids(2) assms(3)
    by (simp add: publish_must_deliver_def Let_def assms(5) [symmetric] assms(6) [symmetric] sub_ids_def)
qed

theorem must_deliver_accounted_witness:
  "let b = snd (subscribe demo_zero (new_broker_with_options demo_zero 1));
       one = must_one (\<lambda>i s. (s, False)) (mk_event ''k'' 7 True) (broker_key b (mk_event ''k'' 7 True))
   in (\<forall>i. b_cells (publish_must_deliver (\<lambda>i s. (s, False)) (\<lambda>i. False) rev ''k'' 7 b) i =
            (if i \<in> sub_ids b then snd (one i (b_cells b i)) else b_cells b i)) \<and>
         b_must_drop (publish_must_deliver (\<lambda>i s. (s, False)) (\<lambda>i. False) rev ''k'' 7 b) =
           b_must_drop b + of_nat (card {i \<in> sub_ids b. \<not> fst (one i (b_cells b i))})"
  unfolding Let_def
  by (rule must_deliver_accounted [OF map_order_rev _ _ _ refl refl])
    (simp_all add: subscribe_def new_broker_with_options_def)

end
