(* ===== verification/Permission.thy ===== *)
theory Permission
  imports CSync GoLib
begin

text \<open>
  The permission service of internal/permission (permission.go).

  \<open>perm_state\<close> is the service: the table of pending requests and the remembered session grants
  are \<open>csync.Map\<close>s (theory \<open>CSync\<close>), the auto-approve overrides, tombstones and generations Go
  maps. A response channel has room for one answer; channels are addressed by numbers and
  \<open>ps_chans\<close> holds what is buffered in each. \<open>ps_notes\<close> and \<open>ps_asked\<close> log what was published
  to subscribers. \<open>uuid n\<close> is the n-th id that \<open>uuid.New\<close> returns.

  The second half of the theory interleaves the service's callers: a step is one critical
  section of one caller.
\<close>

subsection \<open>Requests, keys and the service's state\<close>

datatype perm_mode = ModeNormal | ModeYolo | ModeSysadmin

definition skips_prompts :: "perm_mode \<Rightarrow> bool" where
  "skips_prompts m \<longleftrightarrow> m = ModeYolo \<or> m = ModeSysadmin"

text \<open>\<open>approved\<close> is the id stored in the context by \<open>WithHookApproval\<close>, if any.\<close>

definition hook_approved :: "string option \<Rightarrow> string \<Rightarrow> bool" where
  "hook_approved approved call_id =
     (if call_id = [] then False
      else (case approved of None \<Rightarrow> [] | Some v \<Rightarrow> v) = call_id)"

record 'p create_request =
  cr_session :: string
  cr_call :: string
  cr_tool :: string
  cr_description :: string
  cr_action :: string
  cr_params :: 'p
  cr_path :: string
  cr_danger :: string
  cr_grant :: string

record 'p perm_request =
  pr_id :: string
  pr_session :: string
  pr_call :: string
  pr_tool :: string
  pr_description :: string
  pr_action :: string
  pr_params :: 'p
  pr_path :: string
  pr_danger :: string
  pr_grant :: string

record perm_note =
  pn_session :: string
  pn_call :: string
  pn_granted :: bool
  pn_denied :: bool
  pn_cancelled :: bool

record perm_key =
  pk_session :: string
  pk_tool :: string
  pk_action :: string
  pk_path :: string
  pk_grant :: string

datatype outcome = OutcomeGranted | OutcomeDenied | OutcomeCancelled

definition outcome_of :: "bool \<Rightarrow> outcome" where
  "outcome_of granted = (if granted then OutcomeGranted else OutcomeDenied)"

record 'p pending_request =
  pd_req :: "'p perm_request"
  pd_chan :: nat

record 'p perm_state =
  ps_workdir :: string
  ps_grants :: "(perm_key, bool) cmap"
  ps_pending :: "(string, 'p pending_request) cmap"
  ps_auto :: "(string, bool) gomap"
  ps_misses :: "(string, unit) gomap"
  ps_gen :: "(string, u64) gomap"
  ps_allowed :: "string list"
  ps_mode :: perm_mode
  ps_active :: "'p perm_request option"
  ps_chans :: "nat \<Rightarrow> bool list"
  ps_next :: nat
  ps_notes :: "perm_note list"
  ps_asked :: "'p perm_request list"
  ps_modes :: "perm_mode list"

definition new_permission_service :: "string \<Rightarrow> string list \<Rightarrow> 'p perm_state" where
  "new_permission_service workdir allowed =
     \<lparr>ps_workdir = workdir, ps_grants = new_map, ps_pending = new_map, ps_auto = [], ps_misses = [],
      ps_gen = [], ps_allowed = allowed, ps_mode = ModeNormal, ps_active = None,
      ps_chans = (\<lambda>_. []), ps_next = 0, ps_notes = [], ps_asked = [], ps_modes = []\<rparr>"

definition permission_key_for :: "'p perm_request \<Rightarrow> perm_key" where
  "permission_key_for r = \<lparr>pk_session = pr_session r, pk_tool = pr_tool r, pk_action = pr_action r,
     pk_path = pr_path r, pk_grant = pr_grant r\<rparr>"

definition notify :: "perm_note \<Rightarrow> 'p perm_state \<Rightarrow> 'p perm_state" where
  "notify n s = s\<lparr>ps_notes := ps_notes s @ [n]\<rparr>"

definition mk_note :: "string \<Rightarrow> string \<Rightarrow> bool \<Rightarrow> bool \<Rightarrow> bool \<Rightarrow> perm_note" where
  "mk_note session call granted denied cancelled =
     \<lparr>pn_session = session, pn_call = call, pn_granted = granted, pn_denied = denied,
      pn_cancelled = cancelled\<rparr>"

subsection \<open>Resolving a request\<close>

text \<open>
  \<open>resolve\<close> is: take the entry out of the pending table; run \<open>on_resolve\<close>; then publish the
  notification, send the answer to the waiter and clear the active pointer
  (\<open>resolve_finish\<close>). The first is the atomic step the callers race for.
\<close>

definition resolve_finish :: "bool \<Rightarrow> bool \<Rightarrow> 'p pending_request \<Rightarrow> 'p perm_state \<Rightarrow> 'p perm_state" where
  "resolve_finish granted denied pend s =
     (let req = pd_req pend;
          s1 = notify (mk_note (pr_session req) (pr_call req) granted denied False) s;
          s2 = s1\<lparr>ps_chans := (ps_chans s1)(pd_chan pend := ps_chans s1 (pd_chan pend) @ [granted])\<rparr>
      in case ps_active s2 of
           Some a \<Rightarrow> if pr_id a = pr_id req then s2\<lparr>ps_active := None\<rparr> else s2
         | None \<Rightarrow> s2)"

definition take_pending :: "string \<Rightarrow> 'p perm_state \<Rightarrow> 'p pending_request option \<times> 'p perm_state" where
  "take_pending rid s = (case map_take rid (ps_pending s) of (e, m) \<Rightarrow> (e, s\<lparr>ps_pending := m\<rparr>))"

definition resolve :: "('p perm_request \<Rightarrow> 'p perm_state \<Rightarrow> 'p perm_state) \<Rightarrow> string \<Rightarrow> bool \<Rightarrow> bool
    \<Rightarrow> 'p perm_state \<Rightarrow> 'p perm_request option \<times> 'p perm_state" where
  "resolve on_resolve rid granted denied s =
     (case take_pending rid s of
        (None, s') \<Rightarrow> (None, s')
      | (Some pend, s') \<Rightarrow>
          (Some (pd_req pend), resolve_finish granted denied pend (on_resolve (pd_req pend) s')))"

definition grant :: "'p perm_request \<Rightarrow> 'p perm_state \<Rightarrow> bool \<times> 'p perm_state" where
  "grant answer s = (case resolve (\<lambda>r s. s) (pr_id answer) True False s of (r, s') \<Rightarrow> (r \<noteq> None, s'))"

definition deny :: "'p perm_request \<Rightarrow> 'p perm_state \<Rightarrow> bool \<times> 'p perm_state" where
  "deny answer s = (case resolve (\<lambda>r s. s) (pr_id answer) False True s of (r, s') \<Rightarrow> (r \<noteq> None, s'))"

definition record_grant :: "'p perm_request \<Rightarrow> 'p perm_state \<Rightarrow> 'p perm_state" where
  "record_grant r s = s\<lparr>ps_grants := map_set (permission_key_for r) True (ps_grants s)\<rparr>"

text \<open>The sweep of \<open>GrantPersistent\<close> over a copy of the pending table.\<close>

definition sweep_entry :: "perm_key \<Rightarrow> string \<times> 'p pending_request \<Rightarrow> 'p perm_state \<Rightarrow> 'p perm_state" where
  "sweep_entry key kv s =
     (if permission_key_for (pd_req (snd kv)) = key
      then snd (resolve (\<lambda>r s. s) (pr_id (pd_req (snd kv))) True False s) else s)"

definition sweep :: "((string, 'p pending_request) gomap \<Rightarrow> (string, 'p pending_request) gomap)
    \<Rightarrow> perm_key \<Rightarrow> 'p perm_state \<Rightarrow> 'p perm_state" where
  "sweep ord key s = fold (sweep_entry key) (ord (map_copy (ps_pending s))) s"

definition grant_persistent :: "((string, 'p pending_request) gomap \<Rightarrow> (string, 'p pending_request) gomap)
    \<Rightarrow> 'p perm_request \<Rightarrow> 'p perm_state \<Rightarrow> bool \<times> 'p perm_state" where
  "grant_persistent ord answer s =
     (case resolve record_grant (pr_id answer) True False s of
        (None, s') \<Rightarrow> (False, s')
      | (Some req, s') \<Rightarrow> (True, sweep ord (permission_key_for req) s'))"

subsection \<open>Overrides\<close>

definition set_session_auto_approve :: "string \<Rightarrow> bool \<Rightarrow> 'p perm_state \<Rightarrow> 'p perm_state" where
  "set_session_auto_approve sid approve s =
     s\<lparr>ps_auto := AList.update sid approve (ps_auto s), ps_misses := AList.delete sid (ps_misses s),
       ps_gen := AList.update sid (case map_of (ps_gen s) sid of None \<Rightarrow> 1 | Some g \<Rightarrow> g + 1) (ps_gen s)\<rparr>"

definition clear_session_auto_approve :: "string \<Rightarrow> 'p perm_state \<Rightarrow> 'p perm_state" where
  "clear_session_auto_approve sid s =
     s\<lparr>ps_auto := AList.delete sid (ps_auto s), ps_misses := AList.delete sid (ps_misses s),
       ps_gen := AList.update sid (case map_of (ps_gen s) sid of None \<Rightarrow> 1 | Some g \<Rightarrow> g + 1) (ps_gen s)\<rparr>"

definition auto_approve_session :: "string \<Rightarrow> 'p perm_state \<Rightarrow> 'p perm_state" where
  "auto_approve_session sid = set_session_auto_approve sid True"

text \<open>
  \<open>sessionAutoApproveOverride\<close>: what it reads under the read lock, then (outside any lock) the
  persisted row, then the seed under the write lock. An override is \<open>None\<close> where the code's
  second result is false. The lookup gives \<open>Inl ()\<close> for an error, \<open>Inr None\<close> for a row without
  an override; a service without a lookup has \<open>None\<close>.
\<close>

definition gen_of :: "'p perm_state \<Rightarrow> string \<Rightarrow> u64" where
  "gen_of s sid = (case map_of (ps_gen s) sid of None \<Rightarrow> 0 | Some g \<Rightarrow> g)"

definition override_read :: "'p perm_state \<Rightarrow> string \<Rightarrow> (bool option + u64)" where
  "override_read s sid =
     (case map_of (ps_auto s) sid of
        Some v \<Rightarrow> Inl (Some v)
      | None \<Rightarrow> if map_of (ps_misses s) sid \<noteq> None then Inl None else Inr (gen_of s sid))"

definition override_seed :: "string \<Rightarrow> u64 \<Rightarrow> bool option \<Rightarrow> 'p perm_state \<Rightarrow> bool option \<times> 'p perm_state" where
  "override_seed sid gen persisted s =
     (case map_of (ps_auto s) sid of
        Some v \<Rightarrow> (Some v, s)
      | None \<Rightarrow>
          if map_of (ps_misses s) sid \<noteq> None then (None, s)
          else if gen_of s sid \<noteq> gen then (None, s\<lparr>ps_misses := AList.update sid () (ps_misses s)\<rparr>)
          else (case persisted of
                  None \<Rightarrow> (None, s\<lparr>ps_misses := AList.update sid () (ps_misses s)\<rparr>)
                | Some v \<Rightarrow> (Some v, s\<lparr>ps_auto := AList.update sid v (ps_auto s)\<rparr>)))"

definition session_auto_approve_override ::
  "(string \<Rightarrow> unit + bool option) option \<Rightarrow> string \<Rightarrow> 'p perm_state \<Rightarrow> bool option \<times> 'p perm_state" where
  "session_auto_approve_override db sid s =
     (case override_read s sid of
        Inl v \<Rightarrow> (v, s)
      | Inr gen \<Rightarrow>
          (case db of
             None \<Rightarrow> (None, s)
           | Some lookup \<Rightarrow>
               (case lookup sid of
                  Inl _ \<Rightarrow> (Some False, s)
                | Inr persisted \<Rightarrow> override_seed sid gen persisted s)))"

definition session_auto_approves ::
  "(string \<Rightarrow> unit + bool option) option \<Rightarrow> string \<Rightarrow> 'p perm_state \<Rightarrow> bool \<times> 'p perm_state" where
  "session_auto_approves db sid s =
     (case session_auto_approve_override db sid s of
        (Some v, s') \<Rightarrow> (v, s')
      | (None, s') \<Rightarrow> (skips_prompts (ps_mode s'), s'))"

definition set_permission_mode :: "perm_mode \<Rightarrow> 'p perm_state \<Rightarrow> 'p perm_state" where
  "set_permission_mode m s = s\<lparr>ps_mode := m, ps_modes := ps_modes s @ [m]\<rparr>"

subsection \<open>Requesting\<close>

text \<open>
  \<open>register_check\<close> and \<open>register_insert\<close> are the two halves of \<open>registerRequest\<close>, which holds
  \<open>requestMu\<close> throughout: the inline approvals, and the insertion of the pending entry. A grant
  can be recorded in between, because \<open>resolve\<close> does not take \<open>requestMu\<close>.
\<close>

definition build_request :: "string \<Rightarrow> 'p create_request \<Rightarrow> string \<Rightarrow> 'p perm_request" where
  "build_request rid opts dir =
     \<lparr>pr_id = rid, pr_session = cr_session opts, pr_call = cr_call opts, pr_tool = cr_tool opts,
      pr_description = cr_description opts, pr_action = cr_action opts, pr_params = cr_params opts,
      pr_path = dir, pr_danger = cr_danger opts, pr_grant = cr_grant opts\<rparr>"

definition register_check ::
  "string \<Rightarrow> 'p create_request \<Rightarrow> string \<Rightarrow> 'p perm_state \<Rightarrow> 'p perm_request option \<times> 'p perm_state" where
  "register_check rid opts dir s =
     (let s1 = notify (mk_note (cr_session opts) (cr_call opts) False False False) s;
          approved = notify (mk_note (cr_session opts) (cr_call opts) True False False) s1;
          perm = build_request rid opts dir
      in if map_of (ps_auto s1) (cr_session opts) = Some True then (None, approved)
         else if map_get (ps_grants s1) (permission_key_for perm) \<noteq> None then (None, approved)
         else (Some perm, s1))"

definition register_insert :: "'p perm_request \<Rightarrow> 'p perm_state \<Rightarrow> 'p pending_request \<times> 'p perm_state" where
  "register_insert perm s =
     (let entry = \<lparr>pd_req = perm, pd_chan = ps_next s\<rparr>
      in (entry, s\<lparr>ps_active := Some perm, ps_next := Suc (ps_next s),
                   ps_chans := (ps_chans s)(ps_next s := []),
                   ps_pending := map_set (pr_id perm) entry (ps_pending s),
                   ps_asked := ps_asked s @ [perm]\<rparr>))"

definition register_request ::
  "string \<Rightarrow> 'p create_request \<Rightarrow> string \<Rightarrow> 'p perm_state \<Rightarrow> 'p pending_request option \<times> 'p perm_state" where
  "register_request rid opts dir s =
     (case register_check rid opts dir s of
        (None, s') \<Rightarrow> (None, s')
      | (Some perm, s') \<Rightarrow> (case register_insert perm s' of (e, s'') \<Rightarrow> (Some e, s'')))"

text \<open>
  \<open>request_dir\<close>: \<open>stat\<close> answers \<open>os.Stat\<close>: no such path, or whether it is a directory.
  \<open>request_start\<close> is \<open>Request\<close> up to the point where it parks: \<open>Approved\<close> is a return of
  (true, nil), \<open>Parked\<close> waits for the answer.
\<close>

definition request_dir :: "(string \<Rightarrow> bool option) \<Rightarrow> string \<Rightarrow> string \<Rightarrow> string" where
  "request_dir stat workdir p =
     (let dir = (case stat p of None \<Rightarrow> p | Some is_dir \<Rightarrow> if is_dir then p else path_dir p)
      in if dir = ''.'' then workdir else dir)"

definition allowlisted :: "'p perm_state \<Rightarrow> 'p create_request \<Rightarrow> bool" where
  "allowlisted s opts \<longleftrightarrow>
     List.member (ps_allowed s) (cr_tool opts @ '':'' @ cr_action opts) \<or>
     List.member (ps_allowed s) (cr_tool opts)"

datatype 'p request_result = Approved | Parked "'p pending_request"

definition request_start ::
  "(string \<Rightarrow> unit + bool option) option \<Rightarrow> (string \<Rightarrow> bool option) \<Rightarrow> string \<Rightarrow> string option
    \<Rightarrow> 'p create_request \<Rightarrow> 'p perm_state \<Rightarrow> 'p request_result \<times> 'p perm_state" where
  "request_start db stat rid approval opts s =
     (case session_auto_approve_override db (cr_session opts) s of (ov, s1) \<Rightarrow>
        if ov = None \<and> skips_prompts (ps_mode s1) then (Approved, s1)
        else if allowlisted s1 opts then (Approved, s1)
        else if hook_approved approval (cr_call opts)
        then (Approved, notify (mk_note (cr_session opts) (cr_call opts) True False False) s1)
        else (case register_request rid opts (request_dir stat (ps_workdir s1) (cr_path opts)) s1 of
                (None, s2) \<Rightarrow> (Approved, s2)
              | (Some e, s2) \<Rightarrow> (Parked e, s2)))"

text \<open>
  How a parked \<open>Request\<close> ends: the two cases of its \<open>select\<close>, with the deferred \<open>Del\<close>. The result
  is the granted flag returned to the tool and the outcome told to the observer; \<open>None\<close> means
  that the channel is empty and the caller goes on waiting.
\<close>

definition request_cancelled ::
  "'p pending_request \<Rightarrow> 'p perm_state \<Rightarrow> (bool \<times> outcome) option \<times> 'p perm_state" where
  "request_cancelled e s =
     (let rid = pr_id (pd_req e) in
      case take_pending rid s of
        (Some _, s1) \<Rightarrow>
          (Some (False, OutcomeCancelled),
           (notify (mk_note (pr_session (pd_req e)) (pr_call (pd_req e)) False False True) s1)
             \<lparr>ps_pending := map_del rid (ps_pending s1)\<rparr>)
      | (None, s1) \<Rightarrow>
          (case ps_chans s1 (pd_chan e) of
             [] \<Rightarrow> (None, s1)
           | g # _ \<Rightarrow> (Some (False, outcome_of g), s1\<lparr>ps_pending := map_del rid (ps_pending s1)\<rparr>)))"

definition request_answered ::
  "'p pending_request \<Rightarrow> 'p perm_state \<Rightarrow> (bool \<times> outcome) option \<times> 'p perm_state" where
  "request_answered e s =
     (case ps_chans s (pd_chan e) of
        [] \<Rightarrow> (None, s)
      | g # _ \<Rightarrow> (Some (g, outcome_of g),
                  s\<lparr>ps_pending := map_del (pr_id (pd_req e)) (ps_pending s)\<rparr>))"

definition active_request :: "((string, 'p pending_request) gomap \<Rightarrow> (string, 'p pending_request) gomap)
    \<Rightarrow> 'p perm_state \<Rightarrow> 'p perm_request option" where
  "active_request ord s =
     (case ps_active s of
        Some a \<Rightarrow> if map_get (ps_pending s) (pr_id a) \<noteq> None then Some a
                  else (case ord (map_copy (ps_pending s)) of [] \<Rightarrow> None | kv # _ \<Rightarrow> Some (pd_req (snd kv)))
      | None \<Rightarrow> (case ord (map_copy (ps_pending s)) of [] \<Rightarrow> None | kv # _ \<Rightarrow> Some (pd_req (snd kv))))"

definition pending_requests :: "((string, 'p pending_request) gomap \<Rightarrow> (string, 'p pending_request) gomap)
    \<Rightarrow> 'p perm_state \<Rightarrow> 'p perm_request list" where
  "pending_requests ord s = map (pd_req \<circ> snd) (ord (map_copy (ps_pending s)))"

subsection \<open>Resolution, call by call\<close>

lemma take_pending_simps:
  "map_get (ps_pending s) rid = None \<Longrightarrow> take_pending rid s = (None, s)"
  "map_get (ps_pending s) rid = Some e \<Longrightarrow>
     take_pending rid s = (Some e, s\<lparr>ps_pending := map_del rid (ps_pending s)\<rparr>)"
  by (simp_all add: take_pending_def map_take_def map_get_def map_del_def gm_delete_absent)

lemma resolve_simps:
  "map_get (ps_pending s) rid = None \<Longrightarrow> resolve f rid g d s = (None, s)"
  "map_get (ps_pending s) rid = Some e \<Longrightarrow>
     resolve f rid g d s =
       (Some (pd_req e), resolve_finish g d e (f (pd_req e) (s\<lparr>ps_pending := map_del rid (ps_pending s)\<rparr>)))"
  by (simp_all add: resolve_def take_pending_simps)

lemma resolve_finish_sel [simp]:
  "ps_pending (resolve_finish g d e s) = ps_pending s" "ps_grants (resolve_finish g d e s) = ps_grants s"
  "ps_auto (resolve_finish g d e s) = ps_auto s" "ps_next (resolve_finish g d e s) = ps_next s"
  "ps_misses (resolve_finish g d e s) = ps_misses s" "ps_gen (resolve_finish g d e s) = ps_gen s"
  "ps_mode (resolve_finish g d e s) = ps_mode s" "ps_allowed (resolve_finish g d e s) = ps_allowed s"
  "ps_chans (resolve_finish g d e s) = (ps_chans s)(pd_chan e := ps_chans s (pd_chan e) @ [g])"
  "ps_notes (resolve_finish g d e s) =
     ps_notes s @ [mk_note (pr_session (pd_req e)) (pr_call (pd_req e)) g d False]"
  by (simp_all add: resolve_finish_def Let_def notify_def split: option.split)

lemma record_grant_sel [simp]:
  "ps_pending (record_grant r s) = ps_pending s" "ps_chans (record_grant r s) = ps_chans s"
  "ps_next (record_grant r s) = ps_next s" "ps_notes (record_grant r s) = ps_notes s"
  "ps_grants (record_grant r s) = map_set (permission_key_for r) True (ps_grants s)"
  by (simp_all add: record_grant_def)

lemma notify_sel [simp]:
  "ps_pending (notify n s) = ps_pending s" "ps_chans (notify n s) = ps_chans s"
  "ps_next (notify n s) = ps_next s" "ps_grants (notify n s) = ps_grants s"
  "ps_auto (notify n s) = ps_auto s" "ps_notes (notify n s) = ps_notes s @ [n]"
  "ps_allowed (notify n s) = ps_allowed s" "ps_mode (notify n s) = ps_mode s"
  by (simp_all add: notify_def)

subsubsection \<open>The sweep\<close>

text \<open>Entries of the table are filed under their own id.\<close>

definition filed :: "(string, 'p pending_request) cmap \<Rightarrow> bool" where
  "filed m \<longleftrightarrow> map_wf m \<and> (\<forall>rid e. map_get m rid = Some e \<longrightarrow> pr_id (pd_req e) = rid)"

definition swept :: "perm_key \<Rightarrow> (string \<times> 'p pending_request) list \<Rightarrow> 'p pending_request list" where
  "swept key kvs = filter (\<lambda>e. permission_key_for (pd_req e) = key) (map snd kvs)"

lemma swept_simps [simp]:
  "swept key [] = []"
  "swept key (kv # kvs) =
     (if permission_key_for (pd_req (snd kv)) = key then snd kv # swept key kvs else swept key kvs)"
  by (simp_all add: swept_def)

lemma sweep_fold:
  assumes "distinct kvs" and "distinct (map fst kvs)"
    and "\<forall>(rid, e)\<in>set kvs. map_get (ps_pending s) rid = Some e \<and> pr_id (pd_req e) = rid"
    and "distinct (map (pd_chan \<circ> snd) kvs)"
  shows "(\<forall>rid. map_get (ps_pending (fold (sweep_entry key) kvs s)) rid =
           (if rid \<in> (pr_id \<circ> pd_req) ` set (swept key kvs) then None else map_get (ps_pending s) rid)) \<and>
         (\<forall>c. ps_chans (fold (sweep_entry key) kvs s) c =
           (if c \<in> pd_chan ` set (swept key kvs) then ps_chans s c @ [True] else ps_chans s c)) \<and>
         ps_grants (fold (sweep_entry key) kvs s) = ps_grants s \<and>
         ps_next (fold (sweep_entry key) kvs s) = ps_next s \<and>
         (map_wf (ps_pending s) \<longrightarrow> map_wf (ps_pending (fold (sweep_entry key) kvs s)))"
  using assms
proof (induction kvs arbitrary: s)
  case (Cons kv kvs)
  obtain rid e where kv: "kv = (rid, e)" by (cases kv)
  with Cons.prems have here: "map_get (ps_pending s) rid = Some e" "pr_id (pd_req e) = rid" by auto
  let ?t = "sweep_entry key kv s"
  have miss: "permission_key_for (pd_req e) \<noteq> key \<Longrightarrow> ?t = s" by (simp add: sweep_entry_def kv)
  have hit: "permission_key_for (pd_req e) = key \<Longrightarrow>
      ps_pending ?t = map_del rid (ps_pending s) \<and> ps_grants ?t = ps_grants s \<and> ps_next ?t = ps_next s \<and>
      ps_chans ?t = (ps_chans s)(pd_chan e := ps_chans s (pd_chan e) @ [True])"
    using here by (simp add: sweep_entry_def kv resolve_simps(2))
  have "\<forall>(r, e)\<in>set kvs. map_get (ps_pending ?t) r = Some e \<and> pr_id (pd_req e) = r"
    using Cons.prems(2,3) hit miss kv
    by (cases "permission_key_for (pd_req e) = key") (force+)
  note IH = Cons.IH [of ?t, OF _ _ this]
  have notin: "pd_chan e \<notin> pd_chan ` set (swept key kvs)"
    using Cons.prems(4) kv by (auto simp: swept_def image_iff)
  show ?case
  proof (cases "permission_key_for (pd_req e) = key")
    case True
    with IH Cons.prems hit [OF True] notin here(2) show ?thesis
      by (auto simp: kv map_wf_ops)
  next
    case False
    with IH Cons.prems miss [OF False] show ?thesis by (simp add: kv)
  qed
qed simp

lemma map_copy_distinct: "map_wf m \<Longrightarrow> distinct (map fst (map_copy m))"
  by (simp add: map_wf_def map_copy_def)

definition chans_apart :: "(string, 'p pending_request) cmap \<Rightarrow> bool" where
  "chans_apart m \<longleftrightarrow> (\<forall>r e r' e'. map_get m r = Some e \<longrightarrow> map_get m r' = Some e' \<longrightarrow>
     pd_chan e = pd_chan e' \<longrightarrow> r = r')"

definition covered :: "perm_key \<Rightarrow> 'p perm_state \<Rightarrow> 'p pending_request \<Rightarrow> bool" where
  "covered key s e \<longleftrightarrow> permission_key_for (pd_req e) = key \<and> (\<exists>rid. map_get (ps_pending s) rid = Some e)"

lemma sweep_spec:
  assumes filed: "filed (ps_pending s)" and apart: "chans_apart (ps_pending s)" and ord: "map_order ord"
  shows "map_get (ps_pending (sweep ord key s)) rid =
           (case map_get (ps_pending s) rid of
              None \<Rightarrow> None | Some e \<Rightarrow> if permission_key_for (pd_req e) = key then None else Some e)"
    and "(\<And>e. covered key s e \<Longrightarrow> pd_chan e \<noteq> c) \<Longrightarrow> ps_chans (sweep ord key s) c = ps_chans s c"
    and "covered key s e \<Longrightarrow> ps_chans (sweep ord key s) (pd_chan e) = ps_chans s (pd_chan e) @ [True]"
    and "ps_grants (sweep ord key s) = ps_grants s" and "ps_next (sweep ord key s) = ps_next s"
    and "filed (ps_pending (sweep ord key s))"
proof -
  let ?m = "map_copy (ps_pending s)" let ?kvs = "ord ?m"
  have wf: "map_wf (ps_pending s)" using filed by (simp add: filed_def)
  then have gw: "gm_wf ?m" by (simp add: map_copy_distinct)
  then have d: "distinct ?kvs" "distinct (map fst ?kvs)"
    using ord map_order_ids [OF ord gw] by (simp_all add: map_order_def)
  have mem: "(r, e) \<in> set ?kvs \<longleftrightarrow> map_get (ps_pending s) r = Some e" for r e
    using ord wf by (simp add: map_copy_lookup)
  have filed': "\<forall>(r, e)\<in>set ?kvs. map_get (ps_pending s) r = Some e \<and> pr_id (pd_req e) = r"
    using filed mem by (auto simp: filed_def)
  have "inj_on (pd_chan \<circ> snd) (set ?kvs)"
  proof (rule inj_onI)
    fix x y
    assume xy: "x \<in> set ?kvs" "y \<in> set ?kvs" "(pd_chan \<circ> snd) x = (pd_chan \<circ> snd) y"
    obtain r e r' e' where eq: "x = (r, e)" "y = (r', e')" by (cases x; cases y)
    with xy mem apart have "r = r'" unfolding chans_apart_def by (metis comp_apply snd_conv)
    with xy mem eq show "x = y" by simp
  qed
  with d have "distinct (map (pd_chan \<circ> snd) ?kvs)" by (simp add: distinct_map)
  note f = sweep_fold [OF d filed' this, of key, folded sweep_def]
  have swept: "e \<in> set (swept key ?kvs) \<longleftrightarrow> covered key s e" for e
    using mem by (force simp: swept_def covered_def)
  have byid: "rid \<in> (pr_id \<circ> pd_req) ` set (swept key ?kvs) \<longleftrightarrow>
      (\<exists>e. map_get (ps_pending s) rid = Some e \<and> permission_key_for (pd_req e) = key)" for rid
  proof
    assume "rid \<in> (pr_id \<circ> pd_req) ` set (swept key ?kvs)"
    then obtain e where "e \<in> set (swept key ?kvs)" "rid = pr_id (pd_req e)" by auto
    then show "\<exists>e. map_get (ps_pending s) rid = Some e \<and> permission_key_for (pd_req e) = key"
      using filed swept [of e] unfolding covered_def filed_def by metis
  next
    assume "\<exists>e. map_get (ps_pending s) rid = Some e \<and> permission_key_for (pd_req e) = key"
    then obtain e where e: "map_get (ps_pending s) rid = Some e" "covered key s e"
      unfolding covered_def by blast
    then have "e \<in> set (swept key ?kvs)" "pr_id (pd_req e) = rid"
      using swept [of e] filed unfolding filed_def by simp_all
    then show "rid \<in> (pr_id \<circ> pd_req) ` set (swept key ?kvs)" by force
  qed
  show get: "map_get (ps_pending (sweep ord key s)) rid =
           (case map_get (ps_pending s) rid of
              None \<Rightarrow> None | Some e \<Rightarrow> if permission_key_for (pd_req e) = key then None else Some e)" for rid
    using f byid [of rid] by (auto split: option.split)
  show "ps_chans (sweep ord key s) c = ps_chans s c" if "\<And>e. covered key s e \<Longrightarrow> pd_chan e \<noteq> c"
    using f that swept by auto
  show "ps_chans (sweep ord key s) (pd_chan e) = ps_chans s (pd_chan e) @ [True]" if "covered key s e"
    using f that swept by simp
  show "ps_grants (sweep ord key s) = ps_grants s" and "ps_next (sweep ord key s) = ps_next s"
    using f by simp_all
  show "filed (ps_pending (sweep ord key s))"
    using f wf filed get by (auto simp: filed_def split: option.splits if_splits)
qed

text \<open>
  A \<open>GrantPersistent\<close> that lost the race (its request is not pending any more) changes
  nothing: no grant is remembered, nothing is swept, nobody is notified. The same holds for
  \<open>Grant\<close> and \<open>Deny\<close>.
\<close>

theorem losing_answer_inert:
  assumes "map_get (ps_pending s) (pr_id answer) = None"
  shows "grant_persistent ord answer s = (False, s) \<and> grant answer s = (False, s) \<and> deny answer s = (False, s)"
  using assms by (simp add: grant_persistent_def grant_def deny_def resolve_simps)

definition demo_opts :: "unit create_request" where
  "demo_opts = \<lparr>cr_session = ''s'', cr_call = ''c'', cr_tool = ''bash'', cr_description = [],
     cr_action = ''execute'', cr_params = (), cr_path = ''/w'', cr_danger = [], cr_grant = ''ls''\<rparr>"

definition demo_parked :: "unit perm_state" where
  "demo_parked = snd (register_request ''id1'' demo_opts ''/w'' (new_permission_service ''/w'' []))"

theorem losing_answer_inert_witness:
  "let answer = build_request ''id2'' demo_opts ''/w''
   in grant_persistent rev answer demo_parked = (False, demo_parked) \<and>
      grant answer demo_parked = (False, demo_parked) \<and> deny answer demo_parked = (False, demo_parked)"
  unfolding Let_def
  by (rule losing_answer_inert)
    (simp add: demo_parked_def register_request_def register_check_def register_insert_def Let_def
      new_permission_service_def build_request_def notify_def)

text \<open>
  What a winning \<open>GrantPersistent\<close> remembers is the key of the request the server issued
  under that id, whatever session, tool, action, path or grant key the answer carries; only that
  key is added, and afterwards no request with that key is pending.
\<close>

theorem grant_persistent_records_issued:
  assumes "map_get (ps_pending s) (pr_id answer) = Some e" and "filed (ps_pending s)"
    and "chans_apart (ps_pending s)" and "map_order ord"
  shows "fst (grant_persistent ord answer s) \<and>
    ps_grants (snd (grant_persistent ord answer s)) =
      map_set (permission_key_for (pd_req e)) True (ps_grants s) \<and>
    (\<forall>rid e'. map_get (ps_pending (snd (grant_persistent ord answer s))) rid = Some e' \<longrightarrow>
       permission_key_for (pd_req e') \<noteq> permission_key_for (pd_req e))"
proof -
  let ?rid = "pr_id answer" and ?key = "permission_key_for (pd_req e)"
  let ?t = "resolve_finish True False e (record_grant (pd_req e)
              (s\<lparr>ps_pending := map_del ?rid (ps_pending s)\<rparr>))"
  have g: "grant_persistent ord answer s = (True, sweep ord ?key ?t)"
    by (simp add: grant_persistent_def resolve_simps(2) [OF assms(1)])
  have wf: "map_wf (ps_pending s)" using assms(2) by (simp add: filed_def)
  have f: "filed (ps_pending ?t)" using assms(2) map_wf_ops(3) [OF wf] by (simp add: filed_def)
  have a: "chans_apart (ps_pending ?t)" using assms(3) unfolding chans_apart_def by simp
  note sw = sweep_spec [OF f a assms(4), of ?key]
  show ?thesis unfolding g using sw(1,4) by (auto split: option.splits if_splits)
qed

lemma demo_parked_pending:
  "ps_pending demo_parked =
     map_set ''id1'' \<lparr>pd_req = build_request ''id1'' demo_opts ''/w'', pd_chan = 0\<rparr> new_map"
  by (simp add: demo_parked_def register_request_def register_check_def register_insert_def Let_def
      new_permission_service_def build_request_def notify_def)

theorem grant_persistent_records_issued_witness:
  "let answer = build_request ''id1'' demo_opts ''/elsewhere''; e = \<lparr>pd_req = build_request ''id1'' demo_opts ''/w'', pd_chan = 0\<rparr>
   in fst (grant_persistent rev answer demo_parked) \<and>
    ps_grants (snd (grant_persistent rev answer demo_parked)) =
      map_set (permission_key_for (pd_req e)) True (ps_grants demo_parked) \<and>
    (\<forall>rid e'. map_get (ps_pending (snd (grant_persistent rev answer demo_parked))) rid = Some e' \<longrightarrow>
       permission_key_for (pd_req e') \<noteq> permission_key_for (pd_req e))"
  unfolding Let_def
proof (rule grant_persistent_records_issued [OF _ _ _ map_order_rev])
  show "filed (ps_pending demo_parked)"
    by (simp add: demo_parked_pending filed_def map_wf_ops build_request_def)
  show "chans_apart (ps_pending demo_parked)" by (simp add: demo_parked_pending chans_apart_def)
qed (simp add: demo_parked_pending build_request_def)

subsection \<open>Who is asked\<close>

text \<open>The sequential behaviour of the override lookup, case by case.\<close>

lemma override_known: "map_of (ps_auto s) sid = Some v \<Longrightarrow> session_auto_approve_override db sid s = (Some v, s)"
  by (simp add: session_auto_approve_override_def override_read_def)

lemma override_tombstone:
  "map_of (ps_auto s) sid = None \<Longrightarrow> map_of (ps_misses s) sid = Some u \<Longrightarrow>
     session_auto_approve_override db sid s = (None, s)"
  by (simp add: session_auto_approve_override_def override_read_def)

lemma override_error:
  "map_of (ps_auto s) sid = None \<Longrightarrow> map_of (ps_misses s) sid = None \<Longrightarrow> lookup sid = Inl e \<Longrightarrow>
     session_auto_approve_override (Some lookup) sid s = (Some False, s)"
  by (simp add: session_auto_approve_override_def override_read_def)

lemma override_frame:
  "ps_mode (snd (session_auto_approve_override db sid s)) = ps_mode s"
  "ps_allowed (snd (session_auto_approve_override db sid s)) = ps_allowed s"
  "ps_grants (snd (session_auto_approve_override db sid s)) = ps_grants s"
  "ps_pending (snd (session_auto_approve_override db sid s)) = ps_pending s"
  "ps_workdir (snd (session_auto_approve_override db sid s)) = ps_workdir s"
  by (simp_all add: session_auto_approve_override_def override_seed_def split: sum.split option.split)

text \<open>An override that was found has been seeded, unless it stands for an unreadable row.\<close>

lemma override_on_seeded:
  "session_auto_approve_override db sid s = (Some True, s') \<Longrightarrow> map_of (ps_auto s') sid = Some True"
  by (auto simp: session_auto_approve_override_def override_read_def override_seed_def
      split: sum.splits option.splits if_splits)

lemma override_off_kept:
  "session_auto_approve_override db sid s = (Some False, s') \<Longrightarrow> map_of (ps_auto s') sid \<noteq> Some True"
  by (auto simp: session_auto_approve_override_def override_read_def override_seed_def
      split: sum.splits option.splits if_splits)

lemma override_none_kept:
  "session_auto_approve_override db sid s = (None, s') \<Longrightarrow> map_of (ps_auto s') sid = None"
  by (auto simp: session_auto_approve_override_def override_read_def override_seed_def
      split: sum.splits option.splits if_splits)

lemma register_request_parks:
  "fst (register_request rid opts dir s) = None \<longleftrightarrow>
     map_of (ps_auto s) (cr_session opts) = Some True \<or>
     map_get (ps_grants s) (permission_key_for (build_request rid opts dir)) \<noteq> None"
  by (simp add: register_request_def register_check_def register_insert_def Let_def split: prod.split)

text \<open>The key under which \<open>Request\<close> looks up a remembered grant.\<close>

definition request_key :: "(string \<Rightarrow> bool option) \<Rightarrow> 'p create_request \<Rightarrow> 'p perm_state \<Rightarrow> perm_key" where
  "request_key stat opts s =
     permission_key_for (build_request [] opts (request_dir stat (ps_workdir s) (cr_path opts)))"

lemma request_key_any: "permission_key_for (build_request rid opts dir) = permission_key_for (build_request rid' opts dir)"
  by (simp add: permission_key_for_def build_request_def)

text \<open>
  C18: a tool call is put in front of the user exactly when nothing approves it: the session's
  override is not on, there is an override or the workspace mode asks, neither the tool nor the
  tool and action are on the allowlist, no hook approved this very call, and the session has no
  remembered grant for its key. In particular a session whose override cannot be read is asked,
  whatever the workspace mode.
\<close>

theorem request_asks_iff:
  assumes "session_auto_approve_override db (cr_session opts) s = (ov, s1)"
  shows "(\<exists>e. fst (request_start db stat rid approval opts s) = Parked e) \<longleftrightarrow>
     ov \<noteq> Some True \<and> (ov = None \<longrightarrow> \<not> skips_prompts (ps_mode s)) \<and> \<not> allowlisted s opts \<and>
     \<not> hook_approved approval (cr_call opts) \<and> map_get (ps_grants s) (request_key stat opts s) = None"
proof -
  have fr: "ps_mode s1 = ps_mode s" "ps_allowed s1 = ps_allowed s" "ps_grants s1 = ps_grants s"
      "ps_workdir s1 = ps_workdir s"
    using override_frame [of db "cr_session opts" s] assms by simp_all
  let ?dir = "request_dir stat (ps_workdir s) (cr_path opts)"
  have park: "fst (register_request rid opts ?dir s1) = None \<longleftrightarrow>
      ov = Some True \<or> map_get (ps_grants s) (request_key stat opts s) \<noteq> None"
    using override_on_seeded [of db "cr_session opts" s s1] override_off_kept [of db "cr_session opts" s s1]
      override_none_kept [of db "cr_session opts" s s1] assms
    by (cases ov; cases "the ov") (auto simp: register_request_parks fr request_key_def
        request_key_any [of rid opts ?dir "[]"])
  have al: "allowlisted s1 opts = allowlisted s opts" by (simp add: allowlisted_def fr)
  obtain r s2 where rr: "register_request rid opts ?dir s1 = (r, s2)" by fastforce
  show ?thesis
    using park by (cases r) (auto simp: request_start_def assms fr al rr)
qed

theorem request_asks_iff_witness:
  "let s = set_permission_mode ModeYolo (new_permission_service ''/w'' [''ls''])
   in (\<exists>e. fst (request_start (Some (\<lambda>sid. Inl ())) (\<lambda>p. None) ''id'' None demo_opts s) = Parked e) \<longleftrightarrow>
     Some False \<noteq> Some True \<and> (Some False = None \<longrightarrow> \<not> skips_prompts (ps_mode s)) \<and> \<not> allowlisted s demo_opts \<and>
     \<not> hook_approved None (cr_call demo_opts) \<and>
     map_get (ps_grants s) (request_key (\<lambda>p. None) demo_opts s) = None"
  unfolding Let_def
  by (rule request_asks_iff)
    (simp add: session_auto_approve_override_def override_read_def set_permission_mode_def
      new_permission_service_def)

subsection \<open>Overrides and their persisted rows\<close>

text \<open>Changes of overrides that can come between the read of a row and its seed.\<close>

datatype ov_write = OvSet string bool | OvClear string

fun ov_apply :: "'p perm_state \<Rightarrow> ov_write \<Rightarrow> 'p perm_state" where
  "ov_apply s (OvSet sid v) = set_session_auto_approve sid v s"
| "ov_apply s (OvClear sid) = clear_session_auto_approve sid s"

fun ov_session :: "ov_write \<Rightarrow> string" where
  "ov_session (OvSet sid v) = sid"
| "ov_session (OvClear sid) = sid"

fun ov_value :: "ov_write \<Rightarrow> bool option" where
  "ov_value (OvSet sid v) = Some v"
| "ov_value (OvClear sid) = None"

definition ov_writes :: "string \<Rightarrow> ov_write list \<Rightarrow> ov_write list" where
  "ov_writes sid ws = filter (\<lambda>w. ov_session w = sid) ws"

lemma ov_apply_other:
  assumes "ov_session w \<noteq> sid"
  shows "map_of (ps_auto (ov_apply s w)) sid = map_of (ps_auto s) sid"
    and "map_of (ps_misses (ov_apply s w)) sid = map_of (ps_misses s) sid"
    and "gen_of (ov_apply s w) sid = gen_of s sid"
  using assms
  by (cases w; simp add: set_session_auto_approve_def clear_session_auto_approve_def gen_of_def)+

lemma ov_apply_own:
  assumes "ov_session w = sid"
  shows "map_of (ps_auto (ov_apply s w)) sid = ov_value w"
    and "map_of (ps_misses (ov_apply s w)) sid = None"
    and "gen_of (ov_apply s w) sid = gen_of s sid + 1"
  using assms
  by (cases w; simp add: set_session_auto_approve_def clear_session_auto_approve_def gen_of_def
      split: option.split)+

lemma ov_run:
  "gen_of (foldl ov_apply s ws) sid = gen_of s sid + of_nat (length (ov_writes sid ws)) \<and>
   (ov_writes sid ws \<noteq> [] \<longrightarrow>
      map_of (ps_auto (foldl ov_apply s ws)) sid = ov_value (last (ov_writes sid ws)) \<and>
      map_of (ps_misses (foldl ov_apply s ws)) sid = None) \<and>
   (ov_writes sid ws = [] \<longrightarrow>
      map_of (ps_auto (foldl ov_apply s ws)) sid = map_of (ps_auto s) sid \<and>
      map_of (ps_misses (foldl ov_apply s ws)) sid = map_of (ps_misses s) sid)"
proof (induction ws rule: rev_induct)
  case (snoc w ws)
  then show ?case
    by (cases "ov_session w = sid") (simp_all add: ov_writes_def ov_apply_own ov_apply_other)
qed (simp add: ov_writes_def gen_of_def)

text \<open>
  No resurrection. If between reading a session's row and seeding it the override was
  written at least once (and fewer than 2^64 times), then whatever the row said, the lookup
  answers with the last write and leaves the overrides as the writers left them.
\<close>

theorem stale_row_not_seeded:
  assumes "override_read s sid = Inr gen" and "s' = foldl ov_apply s ws"
    and "0 < length (ov_writes sid ws)" and "length (ov_writes sid ws) < 2 ^ 64"
  shows "fst (override_seed sid gen persisted s') = ov_value (last (ov_writes sid ws)) \<and>
    ps_auto (snd (override_seed sid gen persisted s')) = ps_auto s'"
proof -
  have gen: "gen = gen_of s sid"
    using assms(1) by (auto simp: override_read_def split: option.splits if_splits)
  note r = ov_run [where s = s and ws = ws and sid = sid, folded assms(2)]
  have "(of_nat (length (ov_writes sid ws)) :: u64) \<noteq> 0"
    using assms(3,4) by (simp add: word_unat_eq_iff unat_of_nat take_bit_nat_eq_self)
  then have "gen_of s' sid \<noteq> gen" using r gen by simp
  with r assms(3) show ?thesis
    by (simp add: override_seed_def split: option.split)
qed

theorem stale_row_not_seeded_witness:
  "let s = new_permission_service ''/w'' []; s' = foldl ov_apply s [OvSet ''a'' True, OvSet ''b'' False, OvClear ''a'']
   in fst (override_seed ''a'' 0 (Some True) s') = ov_value (last (ov_writes ''a'' [OvSet ''a'' True, OvSet ''b'' False, OvClear ''a''])) \<and>
    ps_auto (snd (override_seed ''a'' 0 (Some True) s')) = ps_auto s'"
  unfolding Let_def
  by (rule stale_row_not_seeded [OF _ refl])
    (simp_all add: override_read_def new_permission_service_def gen_of_def ov_writes_def)

subsection \<open>Concurrent callers\<close>

text \<open>
  \<open>py_mu\<close> is the request being registered while its caller holds \<open>requestMu\<close>; \<open>py_thr t\<close> is
  where caller \<open>t\<close> stands in \<open>Grant\<close>, \<open>Deny\<close>, \<open>GrantPersistent\<close> or a cancelled \<open>Request\<close>;
  \<open>py_issued\<close> lists the entries ever parked and \<open>py_won\<close> the takes that won, with what they
  decided. Resolving is two or three steps of its caller: take, remember the grant, finish.
  \<open>GrantPersistent\<close> then sweeps: it takes \<open>requestMu\<close> (\<open>py_sweeper\<close>) and a copy of the table, and
  goes through the copy entry by entry (\<open>sweep_next\<close>). It does not hold the table's lock, so other
  callers can take an entry of the copy before the sweep gets to it; \<open>TSweeping\<close> carries what is
  left of the copy, \<open>TSweepTaken\<close> also the entry the sweep took and has not answered yet.
  \<open>SFinish\<close> takes the publication, the send and the clearing of the active pointer of a \<open>resolve\<close>
  together: by then the entry is out of the table, and no other caller looks at any of the three to
  decide anything, except the waiter, which the send wakes.
\<close>

datatype decision = DGrant | DPersist | DDeny | DCancel

datatype 'p pthread = TIdle | TTaken decision "'p pending_request" | TRecorded "'p pending_request" | TSweep perm_key
  | TSweeping perm_key "(string \<times> 'p pending_request) list"
  | TSweepTaken perm_key "'p pending_request" "(string \<times> 'p pending_request) list"

record 'p perm_sys =
  py_svc :: "'p perm_state"
  py_mu :: "'p perm_request option"
  py_sweeper :: "nat option"
  py_thr :: "nat \<Rightarrow> 'p pthread"
  py_ids :: nat
  py_issued :: "'p pending_request list"
  py_won :: "(string \<times> decision) list"

datatype 'p pstep =
    SRegister "'p create_request" string
  | SInsert
  | STake nat decision string
  | SRecord nat
  | SFinish nat
  | SSweep nat
  | SReturn nat
  | SOverride ov_write
  | SMode perm_mode

definition finish :: "nat \<Rightarrow> 'p perm_sys \<Rightarrow> 'p perm_sys" where
  "finish t y =
     (case py_thr y t of
        TTaken DGrant e \<Rightarrow> y\<lparr>py_svc := resolve_finish True False e (py_svc y), py_thr := (py_thr y)(t := TIdle)\<rparr>
      | TTaken DDeny e \<Rightarrow> y\<lparr>py_svc := resolve_finish False True e (py_svc y), py_thr := (py_thr y)(t := TIdle)\<rparr>
      | TTaken DCancel e \<Rightarrow>
          y\<lparr>py_svc := notify (mk_note (pr_session (pd_req e)) (pr_call (pd_req e)) False False True) (py_svc y),
            py_thr := (py_thr y)(t := TIdle)\<rparr>
      | TRecorded e \<Rightarrow> y\<lparr>py_svc := resolve_finish True False e (py_svc y),
                         py_thr := (py_thr y)(t := TSweep (permission_key_for (pd_req e)))\<rparr>
      | TSweepTaken key e kvs \<Rightarrow>
          y\<lparr>py_svc := resolve_finish True False e (py_svc y), py_thr := (py_thr y)(t := TSweeping key kvs)\<rparr>
      | _ \<Rightarrow> y)"

text \<open>
  One turn of the sweep's loop, up to the outcome of its \<open>Take\<close>: an entry of another key and an
  entry somebody else has taken are passed over. After the last entry \<open>requestMu\<close> is released.
\<close>

fun sweep_next :: "nat \<Rightarrow> perm_key \<Rightarrow> (string \<times> 'p pending_request) list \<Rightarrow> 'p perm_sys \<Rightarrow> 'p perm_sys" where
  "sweep_next t key [] y = y\<lparr>py_thr := (py_thr y)(t := TIdle), py_sweeper := None\<rparr>"
| "sweep_next t key (kv # kvs) y =
     (if permission_key_for (pd_req (snd kv)) = key
      then (case take_pending (pr_id (pd_req (snd kv))) (py_svc y) of
              (None, s) \<Rightarrow> y\<lparr>py_svc := s, py_thr := (py_thr y)(t := TSweeping key kvs)\<rparr>
            | (Some e, s) \<Rightarrow> y\<lparr>py_svc := s, py_thr := (py_thr y)(t := TSweepTaken key e kvs),
                                py_won := py_won y @ [(pr_id (pd_req (snd kv)), DGrant)]\<rparr>)
      else y\<lparr>py_thr := (py_thr y)(t := TSweeping key kvs)\<rparr>)"

fun perm_step :: "(nat \<Rightarrow> string) \<Rightarrow> ((string, 'p pending_request) gomap \<Rightarrow> (string, 'p pending_request) gomap)
    \<Rightarrow> 'p perm_sys \<Rightarrow> 'p pstep \<Rightarrow> 'p perm_sys" where
  "perm_step uuid ord y (SRegister opts dir) =
     (if py_mu y = None \<and> py_sweeper y = None
      then (case register_check (uuid (py_ids y)) opts dir (py_svc y) of (r, s) \<Rightarrow>
              y\<lparr>py_svc := s, py_mu := r, py_ids := Suc (py_ids y)\<rparr>)
      else y)"
| "perm_step uuid ord y SInsert =
     (case py_mu y of
        None \<Rightarrow> y
      | Some perm \<Rightarrow> (case register_insert perm (py_svc y) of (e, s) \<Rightarrow>
          y\<lparr>py_svc := s, py_mu := None, py_issued := py_issued y @ [e]\<rparr>))"
| "perm_step uuid ord y (STake t d rid) =
     (if py_thr y t = TIdle
      then (case take_pending rid (py_svc y) of
              (None, s) \<Rightarrow> y\<lparr>py_svc := s\<rparr>
            | (Some e, s) \<Rightarrow> y\<lparr>py_svc := s, py_thr := (py_thr y)(t := TTaken d e),
                                py_won := py_won y @ [(rid, d)]\<rparr>)
      else y)"
| "perm_step uuid ord y (SRecord t) =
     (case py_thr y t of
        TTaken DPersist e \<Rightarrow> y\<lparr>py_svc := record_grant (pd_req e) (py_svc y),
                               py_thr := (py_thr y)(t := TRecorded e)\<rparr>
      | _ \<Rightarrow> y)"
| "perm_step uuid ord y (SFinish t) = finish t y"
| "perm_step uuid ord y (SSweep t) =
     (case py_thr y t of
        TSweep key \<Rightarrow>
          if py_mu y = None \<and> py_sweeper y = None
          then y\<lparr>py_thr := (py_thr y)(t := TSweeping key (ord (map_copy (ps_pending (py_svc y))))),
                 py_sweeper := Some t\<rparr>
          else y
      | TSweeping key kvs \<Rightarrow> sweep_next t key kvs y
      | _ \<Rightarrow> y)"
| "perm_step uuid ord y (SReturn i) =
     (if i < length (py_issued y)
      then y\<lparr>py_svc := snd (request_answered (py_issued y ! i) (py_svc y))\<rparr> else y)"
| "perm_step uuid ord y (SOverride w) = y\<lparr>py_svc := ov_apply (py_svc y) w\<rparr>"
| "perm_step uuid ord y (SMode m) = y\<lparr>py_svc := set_permission_mode m (py_svc y)\<rparr>"

definition perm_sys_init :: "'p perm_state \<Rightarrow> 'p perm_sys" where
  "perm_sys_init s = \<lparr>py_svc = s, py_mu = None, py_sweeper = None, py_thr = (\<lambda>_. TIdle), py_ids = 0, py_issued = [], py_won = []\<rparr>"

text \<open>
  \<open>holds\<close>: the caller has taken the entry and not yet answered its waiter. \<open>decides\<close>: what it will
  answer.
\<close>

definition holds :: "'p pthread \<Rightarrow> 'p pending_request \<Rightarrow> bool" where
  "holds th e \<longleftrightarrow> (\<exists>d. th = TTaken d e) \<or> th = TRecorded e \<or> (\<exists>key kvs. th = TSweepTaken key e kvs)"

fun decides :: "'p pthread \<Rightarrow> decision \<Rightarrow> bool" where
  "decides (TTaken d e) d' \<longleftrightarrow> d' = d"
| "decides (TRecorded e) d' \<longleftrightarrow> d' = DPersist"
| "decides (TSweepTaken key e kvs) d' \<longleftrightarrow> d' = DGrant"
| "decides _ d' \<longleftrightarrow> False"

definition answer_of :: "decision \<Rightarrow> bool list" where
  "answer_of d = (case d of DGrant \<Rightarrow> [True] | DPersist \<Rightarrow> [True] | DDeny \<Rightarrow> [False] | DCancel \<Rightarrow> [])"

text \<open>
  \<open>table_ok\<close>: entries are filed under ids that were issued, channel \<open>i\<close> belongs to the i-th
  entry. \<open>entry_ok\<close>: an entry is pending and unanswered, or was won once and is in the hands of
  its winner, or its channel holds the winner's answer.
\<close>

definition table_ok :: "(nat \<Rightarrow> string) \<Rightarrow> 'p perm_sys \<Rightarrow> bool" where
  "table_ok uuid y \<longleftrightarrow>
     map_wf (ps_pending (py_svc y)) \<and> ps_next (py_svc y) = length (py_issued y) \<and>
     (\<forall>i<length (py_issued y). pd_chan (py_issued y ! i) = i) \<and>
     distinct (map (pr_id \<circ> pd_req) (py_issued y)) \<and>
     (\<forall>e\<in>set (py_issued y). pr_id (pd_req e) \<in> uuid ` {..<py_ids y}) \<and>
     (\<forall>p. py_mu y = Some p \<longrightarrow> pr_id p \<in> uuid ` {..<py_ids y} \<and>
        pr_id p \<notin> (pr_id \<circ> pd_req) ` set (py_issued y)) \<and>
     (\<forall>rid e. map_get (ps_pending (py_svc y)) rid = Some e \<longrightarrow> e \<in> set (py_issued y) \<and> pr_id (pd_req e) = rid)"

definition threads_ok :: "'p perm_sys \<Rightarrow> bool" where
  "threads_ok y \<longleftrightarrow>
     (\<forall>t e. holds (py_thr y t) e \<longrightarrow> e \<in> set (py_issued y)) \<and>
     (\<forall>t t' e. holds (py_thr y t) e \<longrightarrow> holds (py_thr y t') e \<longrightarrow> t = t') \<and>
     (\<forall>t d e. holds (py_thr y t) e \<longrightarrow> decides (py_thr y t) d \<longrightarrow> (pr_id (pd_req e), d) \<in> set (py_won y))"

definition entry_ok :: "'p perm_sys \<Rightarrow> 'p pending_request \<Rightarrow> bool" where
  "entry_ok y e \<longleftrightarrow>
     (if pr_id (pd_req e) \<in> fst ` set (py_won y)
      then map_get (ps_pending (py_svc y)) (pr_id (pd_req e)) = None \<and>
        (\<forall>d. (pr_id (pd_req e), d) \<in> set (py_won y) \<longrightarrow>
           ps_chans (py_svc y) (pd_chan e) = (if \<exists>t. holds (py_thr y t) e then [] else answer_of d))
      else map_get (ps_pending (py_svc y)) (pr_id (pd_req e)) = Some e \<and>
        ps_chans (py_svc y) (pd_chan e) = [] \<and> (\<forall>t. \<not> holds (py_thr y t) e))"

definition once_inv :: "(nat \<Rightarrow> string) \<Rightarrow> 'p perm_sys \<Rightarrow> bool" where
  "once_inv uuid y \<longleftrightarrow> table_ok uuid y \<and> threads_ok y \<and> distinct (map fst (py_won y)) \<and>
     fst ` set (py_won y) \<subseteq> (pr_id \<circ> pd_req) ` set (py_issued y) \<and> (\<forall>e\<in>set (py_issued y). entry_ok y e)"

lemma once_invD:
  assumes "once_inv uuid y"
  shows "table_ok uuid y" and "threads_ok y" and "distinct (map fst (py_won y))"
    and "fst ` set (py_won y) \<subseteq> (pr_id \<circ> pd_req) ` set (py_issued y)"
    and "e \<in> set (py_issued y) \<Longrightarrow> entry_ok y e"
  using assms by (simp_all add: once_inv_def)

lemma table_okD:
  assumes "table_ok uuid y"
  shows "map_wf (ps_pending (py_svc y))" and "ps_next (py_svc y) = length (py_issued y)"
    and "i < length (py_issued y) \<Longrightarrow> pd_chan (py_issued y ! i) = i"
    and "distinct (map (pr_id \<circ> pd_req) (py_issued y))"
    and "e \<in> set (py_issued y) \<Longrightarrow> pr_id (pd_req e) \<in> uuid ` {..<py_ids y}"
    and "py_mu y = Some p \<Longrightarrow> pr_id p \<in> uuid ` {..<py_ids y}"
    and "py_mu y = Some p \<Longrightarrow> pr_id p \<notin> (pr_id \<circ> pd_req) ` set (py_issued y)"
    and "map_get (ps_pending (py_svc y)) rid = Some e \<Longrightarrow> e \<in> set (py_issued y) \<and> pr_id (pd_req e) = rid"
  using assms by (simp_all add: table_ok_def)

lemma threads_okD:
  assumes "threads_ok y"
  shows "holds (py_thr y t) e \<Longrightarrow> e \<in> set (py_issued y)"
    and "holds (py_thr y t) e \<Longrightarrow> holds (py_thr y t') e \<Longrightarrow> t = t'"
    and "holds (py_thr y t) e \<Longrightarrow> decides (py_thr y t) d \<Longrightarrow> (pr_id (pd_req e), d) \<in> set (py_won y)"
  using assms unfolding threads_ok_def by blast+

lemma holds_simps [simp]:
  "\<not> holds TIdle e" "holds (TTaken d e') e \<longleftrightarrow> e' = e" "holds (TRecorded e') e \<longleftrightarrow> e' = e" "\<not> holds (TSweep k) e"
  "\<not> holds (TSweeping k kvs) e" "holds (TSweepTaken k e' kvs) e \<longleftrightarrow> e' = e"
  by (auto simp: holds_def)

lemma holder_update:
  assumes "\<not> holds (f t) e" and "\<not> holds th e"
  shows "(\<exists>u. holds ((f(t := th)) u) e) = (\<exists>u. holds (f u) e)"
proof
  assume "\<exists>u. holds ((f(t := th)) u) e"
  then obtain u where "holds ((f(t := th)) u) e" by blast
  with assms show "\<exists>u. holds (f u) e" by (cases "u = t") auto
next
  assume "\<exists>u. holds (f u) e"
  then obtain u where "holds (f u) e" by blast
  with assms have "holds ((f(t := th)) u) e" by (cases "u = t") auto
  then show "\<exists>u. holds ((f(t := th)) u) e" by blast
qed

text \<open>Ids and channels tell issued entries apart.\<close>

lemma issued_unique:
  assumes t: "table_ok uuid y" and "e \<in> set (py_issued y)" and "e' \<in> set (py_issued y)"
  shows "pr_id (pd_req e) = pr_id (pd_req e') \<Longrightarrow> e = e'" and "pd_chan e = pd_chan e' \<Longrightarrow> e = e'"
proof -
  show "e = e'" if "pr_id (pd_req e) = pr_id (pd_req e')"
    using table_okD(4) [OF t] assms that by (auto simp: distinct_map inj_on_def)
  obtain i j where "i < length (py_issued y)" "e = py_issued y ! i" "j < length (py_issued y)" "e' = py_issued y ! j"
    using assms(2,3) by (metis in_set_conv_nth)
  with table_okD(3) [OF t] show "e = e'" if "pd_chan e = pd_chan e'" using that by metis
qed

lemma table_filed: "table_ok uuid y \<Longrightarrow> filed (ps_pending (py_svc y))"
  by (auto simp: filed_def dest: table_okD(1,8))

lemma table_apart: "table_ok uuid y \<Longrightarrow> chans_apart (ps_pending (py_svc y))"
  unfolding chans_apart_def by (metis issued_unique(2) table_okD(8))

text \<open>A step that leaves the table, the channels and the winners alone.\<close>

lemma once_frame:
  assumes inv: "once_inv uuid y"
    and svc: "ps_pending (py_svc y') = ps_pending (py_svc y)" "ps_chans (py_svc y') = ps_chans (py_svc y)"
      "ps_next (py_svc y') = ps_next (py_svc y)"
    and eq: "py_issued y' = py_issued y" "py_won y' = py_won y"
    and mu: "py_ids y \<le> py_ids y'" "\<And>p. py_mu y' = Some p \<Longrightarrow> py_mu y = Some p \<or>
        (pr_id p \<in> uuid ` {..<py_ids y'} \<and> pr_id p \<notin> uuid ` {..<py_ids y})"
    and thr: "\<And>t. holds (py_thr y' t) = holds (py_thr y t)"
      "\<And>t. decides (py_thr y' t) = decides (py_thr y t)"
  shows "once_inv uuid y'"
proof -
  note t = table_okD [OF once_invD(1) [OF inv]] and h = threads_okD [OF once_invD(2) [OF inv]]
  have sub: "uuid ` {..<py_ids y} \<subseteq> uuid ` {..<py_ids y'}" using mu(1) by (intro image_mono) auto
  have "table_ok uuid y'"
    unfolding table_ok_def svc eq
  proof (intro conjI allI impI)
    show "\<forall>e\<in>set (py_issued y). pr_id (pd_req e) \<in> uuid ` {..<py_ids y'}" using t(5) sub by blast
    fix p
    assume "py_mu y' = Some p"
    from mu(2) [OF this] t(5-7) [of _ ] sub
    show "pr_id p \<in> uuid ` {..<py_ids y'}" and "pr_id p \<notin> (pr_id \<circ> pd_req) ` set (py_issued y)"
      by auto
  qed (use t in auto)
  moreover have "threads_ok y'"
    unfolding threads_ok_def eq thr using h by blast
  moreover have "entry_ok y' e = entry_ok y e" for e
    by (simp add: entry_ok_def svc eq thr(1))
  ultimately show ?thesis using once_invD(3-5) [OF inv] by (simp add: once_inv_def eq)
qed

lemma once_register:
  assumes inv: "once_inv uuid y" and uuid: "inj uuid"
  shows "once_inv uuid (perm_step uuid ord y (SRegister opts dir))"
proof (cases "py_mu y")
  case None
  obtain r s where r: "register_check (uuid (py_ids y)) opts dir (py_svc y) = (r, s)" by fastforce
  then have s: "ps_pending s = ps_pending (py_svc y)" "ps_chans s = ps_chans (py_svc y)"
      "ps_next s = ps_next (py_svc y)" and p: "\<And>p. r = Some p \<Longrightarrow> pr_id p = uuid (py_ids y)"
    by (auto simp: register_check_def Let_def build_request_def split: if_splits)
  have "uuid (py_ids y) \<in> uuid ` {..<Suc (py_ids y)} \<and> uuid (py_ids y) \<notin> uuid ` {..<py_ids y}"
    using uuid by (auto simp: inj_def)
  with inv show ?thesis by (rule_tac once_frame [OF inv]) (auto simp: None r s p)
qed (use inv in simp)

lemma once_insert:
  assumes inv: "once_inv uuid y"
  shows "once_inv uuid (perm_step uuid ord y SInsert)"
proof (cases "py_mu y")
  case (Some p)
  note t = table_okD [OF once_invD(1) [OF inv]] and h = threads_okD [OF once_invD(2) [OF inv]]
  define e where "e = \<lparr>pd_req = p, pd_chan = ps_next (py_svc y)\<rparr>"
  let ?y = "perm_step uuid ord y SInsert"
  have y: "ps_pending (py_svc ?y) = map_set (pr_id p) e (ps_pending (py_svc y))"
    "ps_chans (py_svc ?y) = (ps_chans (py_svc y))(ps_next (py_svc y) := [])"
    "ps_next (py_svc ?y) = Suc (ps_next (py_svc y))" "py_issued ?y = py_issued y @ [e]"
    "py_won ?y = py_won y" "py_mu ?y = None" "py_thr ?y = py_thr y" "py_ids ?y = py_ids y"
    by (simp_all add: Some register_insert_def Let_def e_def)
  have e: "pr_id (pd_req e) = pr_id p" "pd_chan e = length (py_issued y)" by (simp_all add: e_def t(2))
  note new = t(6,7) [OF Some]
  have other: "pr_id (pd_req e') \<noteq> pr_id p" "pd_chan e' \<noteq> length (py_issued y)" if "e' \<in> set (py_issued y)" for e'
    using that new(2) by (auto simp: image_iff) (use that t(3) in \<open>auto simp: in_set_conv_nth\<close>)
  have "table_ok uuid ?y"
    unfolding table_ok_def y
  proof (intro conjI allI impI)
    fix i
    assume "i < length (py_issued y @ [e])"
    then show "pd_chan ((py_issued y @ [e]) ! i) = i" using t(3) e(2) by (auto simp: nth_append less_Suc_eq)
  next
    fix rid e'
    assume "map_get (map_set (pr_id p) e (ps_pending (py_svc y))) rid = Some e'"
    then show "e' \<in> set (py_issued y @ [e])" and "pr_id (pd_req e') = rid"
      using t(8) e by (auto split: if_splits)
  qed (use t new e in \<open>auto intro: map_wf_ops\<close>)
  moreover have "threads_ok ?y"
    unfolding threads_ok_def y using h by auto
  moreover have "entry_ok ?y e'" if "e' \<in> set (py_issued ?y)" for e'
  proof (cases "e' = e")
    case True
    have "pr_id p \<notin> fst ` set (py_won y)" using once_invD(4) [OF inv] new(2) by auto
    moreover have "\<not> holds (py_thr y u) e" for u using h(1) [of u e] other(1) e(1) by auto
    ultimately show ?thesis unfolding entry_ok_def y True e by (simp add: t(2))
  next
    case False
    with that have e': "e' \<in> set (py_issued y)" unfolding y by simp
    from once_invD(5) [OF inv e'] other [OF e'] show ?thesis unfolding entry_ok_def y by (simp add: t(2))
  qed
  ultimately show ?thesis using once_invD(3,4) [OF inv] unfolding once_inv_def y by auto
qed (use inv in simp)

text \<open>Winning an entry: a caller that held nothing takes it out of the table.\<close>

lemma once_takes:
  assumes inv: "once_inv uuid y" and e: "map_get (ps_pending (py_svc y)) rid = Some e"
    and svc: "ps_pending (py_svc y') = map_del rid (ps_pending (py_svc y))"
      "ps_chans (py_svc y') = ps_chans (py_svc y)" "ps_next (py_svc y') = ps_next (py_svc y)"
    and eq: "py_issued y' = py_issued y" "py_won y' = py_won y @ [(rid, d)]" "py_mu y' = py_mu y" "py_ids y' = py_ids y"
    and thr: "py_thr y' = (py_thr y)(t := th)" "\<And>e'. \<not> holds (py_thr y t) e'" "\<And>e'. holds th e' \<longleftrightarrow> e' = e"
      "\<And>d'. decides th d' \<longleftrightarrow> d' = d"
  shows "once_inv uuid y'"
proof -
  note tb = table_okD [OF once_invD(1) [OF inv]] and h = threads_okD [OF once_invD(2) [OF inv]]
  from tb(8) [OF e] have mem: "e \<in> set (py_issued y)" and rid: "pr_id (pd_req e) = rid" by simp_all
  from once_invD(5) [OF inv mem] e rid have fresh: "rid \<notin> fst ` set (py_won y)"
    and empty: "ps_chans (py_svc y) (pd_chan e) = []" and free: "\<And>u. \<not> holds (py_thr y u) e"
    by (auto simp: entry_ok_def split: if_splits)
  have "table_ok uuid y'"
    unfolding table_ok_def svc eq using tb by (auto intro: map_wf_ops split: if_splits)
  moreover have "threads_ok y'"
    unfolding threads_ok_def eq thr(1)
  proof (intro conjI allI impI)
    fix u u' e'
    assume "holds (((py_thr y)(t := th)) u) e'" "holds (((py_thr y)(t := th)) u') e'"
    then show "u = u'" using h(2) [of u e' u'] free thr(3) by (auto split: if_splits)
  next
    fix u d' e'
    assume "holds (((py_thr y)(t := th)) u) e'" "decides (((py_thr y)(t := th)) u) d'"
    then show "(pr_id (pd_req e'), d') \<in> set (py_won y @ [(rid, d)])"
      using h(3) [of u e' d'] thr(3,4) rid by (auto split: if_splits)
  qed (use h(1) mem thr(3) in \<open>auto split: if_splits\<close>)
  moreover have "entry_ok y' e'" if e': "e' \<in> set (py_issued y)" for e'
  proof (cases "e' = e")
    case True
    have "\<exists>u. holds (((py_thr y)(t := th)) u) e" by (rule exI [of _ t]) (simp add: thr(3))
    with True show ?thesis using fresh rid empty unfolding entry_ok_def svc eq thr(1) by simp
  next
    case False
    then have "pr_id (pd_req e') \<noteq> rid"
      using issued_unique(1) [OF once_invD(1) [OF inv] e' mem] rid by auto
    moreover have "(\<exists>u. holds (((py_thr y)(t := th)) u) e') = (\<exists>u. holds (py_thr y u) e')"
      using thr(2,3) False by (intro holder_update) auto
    ultimately show ?thesis using once_invD(5) [OF inv e'] unfolding entry_ok_def svc eq thr(1) by auto
  qed
  ultimately show ?thesis
    using once_invD(3,4) [OF inv] fresh mem rid unfolding once_inv_def eq by auto
qed

lemma once_take:
  assumes inv: "once_inv uuid y"
  shows "once_inv uuid (perm_step uuid ord y (STake t d rid))"
proof (cases "py_thr y t = TIdle \<and> (\<exists>e. map_get (ps_pending (py_svc y)) rid = Some e)")
  case True
  then obtain e where idle: "py_thr y t = TIdle" and e: "map_get (ps_pending (py_svc y)) rid = Some e" by blast
  show ?thesis
    by (rule once_takes [OF inv e, of _ d t "TTaken d e"])
      (use idle in \<open>auto simp: take_pending_simps(2) [OF e]\<close>)
next
  case False
  then have "perm_step uuid ord y (STake t d rid) = y"
    by (cases "map_get (ps_pending (py_svc y)) rid") (auto simp: take_pending_simps(1))
  with inv show ?thesis by simp
qed

lemma once_record: "once_inv uuid y \<Longrightarrow> once_inv uuid (perm_step uuid ord y (SRecord t))"
  by (erule once_frame) (auto simp: fun_eq_iff split: pthread.splits decision.splits if_splits)

text \<open>Letting go of an entry: its answer is in the channel and no caller holds it any more.\<close>

lemma once_release:
  assumes inv: "once_inv uuid y" and hold: "holds (py_thr y t) e" and won: "(pr_id (pd_req e), d) \<in> set (py_won y)"
    and svc: "ps_pending (py_svc y') = ps_pending (py_svc y)" "ps_next (py_svc y') = ps_next (py_svc y)"
      "ps_chans (py_svc y') = (ps_chans (py_svc y))(pd_chan e := ps_chans (py_svc y) (pd_chan e) @ answer_of d)"
    and eq: "py_issued y' = py_issued y" "py_won y' = py_won y" "py_mu y' = py_mu y" "py_ids y' = py_ids y"
    and thr: "py_thr y' = (py_thr y)(t := th)" "\<And>e'. \<not> holds th e'"
  shows "once_inv uuid y'"
proof -
  note tb = table_okD [OF once_invD(1) [OF inv]] and h = threads_okD [OF once_invD(2) [OF inv]]
  have mem: "e \<in> set (py_issued y)" by (rule h(1) [OF hold])
  have "table_ok uuid y'" using once_invD(1) [OF inv] by (simp add: table_ok_def svc eq)
  moreover have "threads_ok y'"
    unfolding threads_ok_def eq thr(1)
  proof (intro conjI allI impI)
    fix u u' e'
    assume "holds (((py_thr y)(t := th)) u) e'" "holds (((py_thr y)(t := th)) u') e'"
    then show "u = u'" using h(2) [of u e' u'] thr(2) by (auto split: if_splits)
  next
    fix u e'
    assume "holds (((py_thr y)(t := th)) u) e'"
    then show "e' \<in> set (py_issued y)" using h(1) [of u e'] thr(2) by (auto split: if_splits)
  next
    fix u d' e'
    assume "holds (((py_thr y)(t := th)) u) e'" "decides (((py_thr y)(t := th)) u) d'"
    then show "(pr_id (pd_req e'), d') \<in> set (py_won y)"
      using h(3) [of u e' d'] thr(2) by (cases "u = t") auto
  qed
  moreover have "entry_ok y' e'" if e': "e' \<in> set (py_issued y)" for e'
  proof (cases "e' = e")
    case True
    have "\<not> holds (((py_thr y)(t := th)) u) e" for u
      using h(2) [OF hold, of u] thr(2) by auto
    moreover have uniq: "d' = d" if "(pr_id (pd_req e), d') \<in> set (py_won y)" for d'
      using once_invD(3) [OF inv] that won by (auto dest: eq_key_imp_eq_value)
    moreover have "pr_id (pd_req e) \<in> fst ` set (py_won y)" using won by force
    moreover have "ps_chans (py_svc y) (pd_chan e) = []"
      using once_invD(5) [OF inv mem] won hold calculation(3) unfolding entry_ok_def by auto
    ultimately show ?thesis
      using once_invD(5) [OF inv mem] unfolding True entry_ok_def svc eq thr(1) by auto
  next
    case False
    then have "pd_chan e' \<noteq> pd_chan e"
      using issued_unique(2) [OF once_invD(1) [OF inv] e' mem] by auto
    moreover have "\<not> holds (py_thr y t) e'" using hold False by (auto simp: holds_def)
    moreover note holder_update [of "py_thr y" t e' th, OF this thr(2)]
    moreover have "(\<forall>u. \<not> holds (((py_thr y)(t := th)) u) e') = (\<forall>u. \<not> holds (py_thr y u) e')"
      using calculation(3) by blast
    ultimately show ?thesis using once_invD(5) [OF inv e'] unfolding entry_ok_def svc eq thr(1) by simp
  qed
  ultimately show ?thesis using once_invD(3,4) [OF inv] by (simp add: once_inv_def eq)
qed

lemma once_finish:
  assumes inv: "once_inv uuid y"
  shows "once_inv uuid (finish t y)"
proof (cases "py_thr y t")
  case (TTaken d e)
  have won: "(pr_id (pd_req e), d) \<in> set (py_won y)"
    by (rule threads_okD(3) [OF once_invD(2) [OF inv], of t]) (simp_all add: TTaken)
  show ?thesis
  proof (cases "d = DPersist")
    case True
    with inv show ?thesis by (simp add: finish_def TTaken)
  next
    case False
    then show ?thesis
      by (intro once_release [OF inv _ won, of t _ TIdle])
        (cases d; simp add: finish_def TTaken answer_of_def; fail)+
  qed
next
  case (TRecorded e)
  have won: "(pr_id (pd_req e), DPersist) \<in> set (py_won y)"
    by (rule threads_okD(3) [OF once_invD(2) [OF inv], of t]) (simp_all add: TRecorded)
  show ?thesis
    by (rule once_release [OF inv _ won, of t _ "TSweep (permission_key_for (pd_req e))"])
      (simp_all add: finish_def TRecorded answer_of_def)
next
  case (TSweepTaken key e kvs)
  have won: "(pr_id (pd_req e), DGrant) \<in> set (py_won y)"
    by (rule threads_okD(3) [OF once_invD(2) [OF inv], of t]) (simp_all add: TSweepTaken)
  show ?thesis
    by (rule once_release [OF inv _ won, of t _ "TSweeping key kvs"])
      (simp_all add: finish_def TSweepTaken answer_of_def)
qed (use inv in \<open>simp_all add: finish_def\<close>)

lemma once_sweep_next:
  assumes inv: "once_inv uuid y" and t: "py_thr y t = TSweeping key kvs"
  shows "once_inv uuid (sweep_next t key kvs y)"
proof (cases kvs)
  case Nil
  then show ?thesis by (intro once_frame [OF inv]) (auto simp: t fun_eq_iff)
next
  case (Cons kv kvs')
  let ?rid = "pr_id (pd_req (snd kv))"
  show ?thesis
  proof (cases "permission_key_for (pd_req (snd kv)) = key \<and> map_get (ps_pending (py_svc y)) ?rid \<noteq> None")
    case True
    then obtain e where e: "map_get (ps_pending (py_svc y)) ?rid = Some e" by blast
    from True show ?thesis
      by (intro once_takes [OF inv e, of _ DGrant t "TSweepTaken key e kvs'"])
        (auto simp: t Cons take_pending_simps(2) [OF e])
  next
    case False
    then have "sweep_next t key kvs y = y\<lparr>py_thr := (py_thr y)(t := TSweeping key kvs')\<rparr>"
      by (auto simp: Cons take_pending_simps(1))
    then show ?thesis by (intro once_frame [OF inv]) (auto simp: t fun_eq_iff)
  qed
qed

lemma once_sweep:
  assumes inv: "once_inv uuid y"
  shows "once_inv uuid (perm_step uuid ord y (SSweep t))"
proof (cases "py_thr y t")
  case (TSweep key)
  then show ?thesis by (intro once_frame [OF inv]) (auto simp: fun_eq_iff split: if_splits)
next
  case (TSweeping key kvs)
  with once_sweep_next [OF inv TSweeping] show ?thesis by simp
qed (use inv in simp_all)

lemma once_return:
  assumes inv: "once_inv uuid y"
  shows "once_inv uuid (perm_step uuid ord y (SReturn i))"
proof (cases "i < length (py_issued y) \<and> ps_chans (py_svc y) (pd_chan (py_issued y ! i)) \<noteq> []")
  case True
  let ?e = "py_issued y ! i"
  have "map_get (ps_pending (py_svc y)) (pr_id (pd_req ?e)) = None"
    using once_invD(5) [OF inv, of ?e] True by (auto simp: entry_ok_def split: if_splits)
  then have "map_del (pr_id (pd_req ?e)) (ps_pending (py_svc y)) = ps_pending (py_svc y)"
    by (simp add: map_get_def map_del_def gm_delete_absent)
  with True inv show ?thesis by (auto simp: request_answered_def neq_Nil_conv)
next
  case False
  then have "perm_step uuid ord y (SReturn i) = y" by (auto simp: request_answered_def)
  with inv show ?thesis by simp
qed

lemma once_step:
  assumes "inj uuid" and "map_order ord" and "once_inv uuid y"
  shows "once_inv uuid (perm_step uuid ord y a)"
proof (cases a)
  case (SOverride w)
  with assms(3) show ?thesis
    by (cases w) (auto intro!: once_frame [OF assms(3)]
        simp: set_session_auto_approve_def clear_session_auto_approve_def)
next
  case (SMode m)
  with assms(3) show ?thesis by (auto intro!: once_frame [OF assms(3)] simp: set_permission_mode_def)
next
  case (SFinish t)
  with once_finish [OF assms(3)] show ?thesis by simp
qed (simp_all only: once_register [OF assms(3,1)] once_insert [OF assms(3)] once_take [OF assms(3)]
    once_record [OF assms(3)] once_sweep [OF assms(3)] once_return [OF assms(3)])

interpretation psys: safe_system "perm_step uuid ord"
  "\<lambda>y. inj uuid \<and> map_order ord \<and> once_inv uuid y" for uuid ord
  by unfold_locales (use once_step in blast)

lemma once_init: "once_inv uuid (perm_sys_init (new_permission_service workdir allowed))"
  by (simp add: once_inv_def table_ok_def threads_ok_def perm_sys_init_def new_permission_service_def
      map_wf_ops)

lemma once_run:
  assumes "inj uuid" and "map_order ord"
  shows "once_inv uuid (foldl (perm_step uuid ord) (perm_sys_init (new_permission_service workdir allowed)) as)"
  using psys.run_good [of uuid ord "perm_sys_init (new_permission_service workdir allowed)" as]
    assms once_init by blast

text \<open>
  C7: exactly one answer. However \<open>Grant\<close>, \<open>Deny\<close>, \<open>GrantPersistent\<close> (with its sweep, whose takes
  and sends interleave with everybody else's) and cancelled waiters race, every request is won at most once; as long as nobody won it is still
  pending and its channel is empty; and once its winner has finished, the waiter's channel holds
  exactly the winner's answer (one value: the send never blocks), or nothing if the waiter itself
  gave up.
\<close>

theorem one_answer_per_request:
  assumes "inj uuid" and "map_order ord"
    and "y = foldl (perm_step uuid ord) (perm_sys_init (new_permission_service workdir allowed)) as"
    and "e \<in> set (py_issued y)"
  shows "(case filter (\<lambda>w. fst w = pr_id (pd_req e)) (py_won y) of
            [] \<Rightarrow> map_get (ps_pending (py_svc y)) (pr_id (pd_req e)) = Some e \<and>
                  ps_chans (py_svc y) (pd_chan e) = []
          | [(rid, d)] \<Rightarrow> map_get (ps_pending (py_svc y)) (pr_id (pd_req e)) = None \<and>
                  ps_chans (py_svc y) (pd_chan e) =
                    (if \<exists>t. holds (py_thr y t) e then [] else answer_of d)
          | _ \<Rightarrow> False)"
proof -
  have inv: "once_inv uuid y" unfolding assms(3) by (rule once_run [OF assms(1,2)])
  note ok = once_invD(5) [OF inv assms(4), unfolded entry_ok_def]
  let ?w = "filter (\<lambda>w. fst w = pr_id (pd_req e)) (py_won y)"
  show ?thesis
  proof (cases ?w)
    case Nil
    then have "pr_id (pd_req e) \<notin> fst ` set (py_won y)" by (auto simp: filter_empty_conv)
    with ok Nil show ?thesis by simp
  next
    case (Cons w ws)
    have d: "distinct (map fst ?w)" using once_invD(3) [OF inv] by (rule distinct_map_filter)
    have same: "fst w' = pr_id (pd_req e)" if "w' \<in> set ?w" for w' using that by simp
    have "ws = []"
    proof (rule ccontr)
      assume "ws \<noteq> []"
      then obtain w' ws' where ws: "ws = w' # ws'" by (cases ws) auto
      have "fst w' = fst w" using same [of w] same [of w'] Cons ws by simp
      with d show False unfolding Cons ws by simp
    qed
    with Cons have w: "?w = [w]" by simp
    then have "w \<in> set ?w" by simp
    then have "w \<in> set (py_won y)" and "fst w = pr_id (pd_req e)" by simp_all
    then have "pr_id (pd_req e) \<in> fst ` set (py_won y)" "(pr_id (pd_req e), snd w) \<in> set (py_won y)"
      by (metis imageI, metis prod.collapse)
    with ok w show ?thesis by (cases w) simp
  qed
qed

text \<open>
  In the witness the sweep of a \<open>GrantPersistent\<close> has a second request of the key in its copy, but a
  \<open>Deny\<close> takes it first; the sweep loses its \<open>Take\<close> and passes over it.
\<close>

definition demo_sys_steps :: "unit pstep list" where
  "demo_sys_steps = [SRegister demo_opts ''/w'', SInsert, SRegister demo_opts ''/w'', SInsert,
     STake 1 DPersist (replicate 0 CHR ''u''), SRecord 1, SFinish 1, SSweep 1,
     STake 2 DDeny (replicate 1 CHR ''u''), SSweep 1, SFinish 2, SSweep 1, SReturn 1]"

lemma inj_replicate: "inj (\<lambda>n. replicate n x)"
  by (rule injI) (metis length_replicate)

lemma demo_sys_issued:
  "py_issued (foldl (perm_step (\<lambda>n. replicate n CHR ''u'') rev)
     (perm_sys_init (new_permission_service ''/w'' [])) demo_sys_steps) =
   [\<lparr>pd_req = build_request [] demo_opts ''/w'', pd_chan = 0\<rparr>,
    \<lparr>pd_req = build_request ''u'' demo_opts ''/w'', pd_chan = 1\<rparr>]"
  by (simp add: demo_sys_steps_def perm_sys_init_def new_permission_service_def register_check_def
      register_insert_def take_pending_def map_take_def map_get_def map_set_def map_del_def
      finish_def resolve_finish_def notify_def Let_def build_request_def request_answered_def new_map_def
      record_grant_def map_copy_def permission_key_for_def demo_opts_def)

theorem one_answer_per_request_witness:
  "let y = foldl (perm_step (\<lambda>n. replicate n CHR ''u'') rev)
         (perm_sys_init (new_permission_service ''/w'' [])) demo_sys_steps;
       e = \<lparr>pd_req = build_request ''u'' demo_opts ''/w'', pd_chan = 1\<rparr>
   in (case filter (\<lambda>w. fst w = pr_id (pd_req e)) (py_won y) of
            [] \<Rightarrow> map_get (ps_pending (py_svc y)) (pr_id (pd_req e)) = Some e \<and>
                  ps_chans (py_svc y) (pd_chan e) = []
          | [(rid, d)] \<Rightarrow> map_get (ps_pending (py_svc y)) (pr_id (pd_req e)) = None \<and>
                  ps_chans (py_svc y) (pd_chan e) =
                    (if \<exists>t. holds (py_thr y t) e then [] else answer_of d)
          | _ \<Rightarrow> False)"
  unfolding Let_def
  by (rule one_answer_per_request [OF inj_replicate map_order_rev refl]) (simp add: demo_sys_issued)

subsubsection \<open>No request is missed by a sweep\<close>

text \<open>
  \<open>claims\<close>: the caller has remembered a grant of the key and its sweep is not over. \<open>covers\<close>: its
  sweep will still come across everything that waits for the key, because it has not copied the
  table yet or the rest of its copy lists all of it.
\<close>

fun claims :: "'p pthread \<Rightarrow> perm_key \<Rightarrow> bool" where
  "claims (TRecorded e) key \<longleftrightarrow> permission_key_for (pd_req e) = key"
| "claims (TSweep k) key \<longleftrightarrow> k = key"
| "claims (TSweeping k kvs) key \<longleftrightarrow> k = key"
| "claims (TSweepTaken k e kvs) key \<longleftrightarrow> k = key"
| "claims _ key \<longleftrightarrow> False"

fun rest_of :: "'p pthread \<Rightarrow> (string \<times> 'p pending_request) list option" where
  "rest_of (TSweeping k kvs) = Some kvs"
| "rest_of (TSweepTaken k e kvs) = Some kvs"
| "rest_of _ = None"

definition covers :: "'p perm_state \<Rightarrow> 'p pthread \<Rightarrow> perm_key \<Rightarrow> bool" where
  "covers s th key \<longleftrightarrow> claims th key \<and>
     (case rest_of th of
        None \<Rightarrow> True
      | Some kvs \<Rightarrow> \<forall>rid e. map_get (ps_pending s) rid = Some e \<longrightarrow> permission_key_for (pd_req e) = key \<longrightarrow>
          (rid, e) \<in> set kvs)"

lemma covers_mono:
  assumes "covers s th key"
    and "\<And>rid e. map_get (ps_pending s') rid = Some e \<Longrightarrow> map_get (ps_pending s) rid = Some e"
  shows "covers s' th key"
  using assms unfolding covers_def by (auto split: option.splits)

definition waiting :: "'p perm_sys \<Rightarrow> perm_key \<Rightarrow> bool" where
  "waiting y key \<longleftrightarrow>
     (\<exists>rid e. map_get (ps_pending (py_svc y)) rid = Some e \<and> permission_key_for (pd_req e) = key) \<or>
     (\<exists>p. py_mu y = Some p \<and> permission_key_for p = key)"

text \<open>\<open>lock_ok\<close>: a sweep in progress holds \<open>requestMu\<close>, so nobody registers meanwhile.\<close>

definition lock_ok :: "'p perm_sys \<Rightarrow> bool" where
  "lock_ok y \<longleftrightarrow> (\<forall>t. rest_of (py_thr y t) \<noteq> None \<longleftrightarrow> py_sweeper y = Some t) \<and>
     (py_sweeper y \<noteq> None \<longrightarrow> py_mu y = None)"

definition sweep_inv :: "'p perm_sys \<Rightarrow> bool" where
  "sweep_inv y \<longleftrightarrow> lock_ok y \<and>
     (\<forall>key. map_get (ps_grants (py_svc y)) key \<noteq> None \<longrightarrow> waiting y key \<longrightarrow>
        (\<exists>t. covers (py_svc y) (py_thr y t) key))"

lemma sweep_invD:
  assumes "sweep_inv y"
  shows "lock_ok y"
    and "map_get (ps_grants (py_svc y)) key \<noteq> None \<Longrightarrow> waiting y key \<Longrightarrow> \<exists>t. covers (py_svc y) (py_thr y t) key"
  using assms by (simp_all add: sweep_inv_def)

lemma lock_okD:
  assumes "lock_ok y"
  shows "rest_of (py_thr y t) \<noteq> None \<Longrightarrow> py_sweeper y = Some t"
    and "py_sweeper y = Some t \<Longrightarrow> rest_of (py_thr y t) \<noteq> None"
    and "rest_of (py_thr y t) \<noteq> None \<Longrightarrow> py_mu y = None"
  using assms unfolding lock_ok_def by blast+

text \<open>
  A step of caller \<open>t\<close> that adds nothing to the table, grants no further key and lets nothing else
  wait, and after which \<open>t\<close> covers what it covered.
\<close>

lemma sweep_frame:
  assumes inv: "sweep_inv y" and lock: "lock_ok y'" and thr: "py_thr y' = (py_thr y)(t := th)"
    and pend: "\<And>rid e. map_get (ps_pending (py_svc y')) rid = Some e \<Longrightarrow> map_get (ps_pending (py_svc y)) rid = Some e"
    and own: "\<And>key. covers (py_svc y) (py_thr y t) key \<Longrightarrow> waiting y' key \<Longrightarrow> covers (py_svc y') th key"
    and new: "\<And>key. map_get (ps_grants (py_svc y')) key \<noteq> None \<Longrightarrow> waiting y' key \<Longrightarrow>
       (map_get (ps_grants (py_svc y)) key \<noteq> None \<and> waiting y key) \<or> covers (py_svc y') th key"
  shows "sweep_inv y'"
  unfolding sweep_inv_def
proof (intro conjI allI impI lock)
  fix key
  assume g: "map_get (ps_grants (py_svc y')) key \<noteq> None" and w: "waiting y' key"
  show "\<exists>u. covers (py_svc y') (py_thr y' u) key"
  proof (cases "covers (py_svc y') th key")
    case True
    then show ?thesis using thr by (intro exI [of _ t]) simp
  next
    case False
    with new [OF g w] obtain u where u: "covers (py_svc y) (py_thr y u) key"
      using sweep_invD(2) [OF inv] by blast
    with own [of key] w False have "u \<noteq> t" by auto
    with covers_mono [OF u pend] thr show ?thesis by (intro exI [of _ u]) simp
  qed
qed

lemma sweep_frame_same:
  assumes inv: "sweep_inv y" and "py_thr y' = py_thr y" and "lock_ok y'"
    and "\<And>rid e. map_get (ps_pending (py_svc y')) rid = Some e \<Longrightarrow> map_get (ps_pending (py_svc y)) rid = Some e"
    and "\<And>key. map_get (ps_grants (py_svc y')) key \<noteq> None \<Longrightarrow> waiting y' key \<Longrightarrow>
       map_get (ps_grants (py_svc y)) key \<noteq> None \<and> waiting y key"
  shows "sweep_inv y'"
  by (rule sweep_frame [OF inv assms(3), of undefined "py_thr y undefined"])
    (use assms in \<open>auto intro: covers_mono\<close>)

text \<open>The lock after a step of a caller whose sweep does not begin or end.\<close>

lemma lock_frame:
  assumes "lock_ok y" and "py_thr y' = (py_thr y)(t := th)"
    and "rest_of th = None \<longleftrightarrow> rest_of (py_thr y t) = None"
    and "py_sweeper y' = py_sweeper y" and "py_mu y' = py_mu y"
  shows "lock_ok y'"
proof -
  have "rest_of (py_thr y' u) \<noteq> None \<longleftrightarrow> rest_of (py_thr y u) \<noteq> None" for u
    using assms(2,3) by (cases "u = t") auto
  then show ?thesis using assms(1,4,5) unfolding lock_ok_def by metis
qed

lemma sweep_inv_insert:
  assumes inv: "sweep_inv y"
  shows "sweep_inv (perm_step uuid ord y SInsert)"
proof (cases "py_mu y")
  case (Some p)
  let ?y = "perm_step uuid ord y SInsert"
  note l = sweep_invD(1) [OF inv]
  have none: "rest_of (py_thr y u) = None" for u using lock_okD(3) [OF l, of u] Some by (metis option.distinct(1))
  have thr: "py_thr ?y = py_thr y" and sw: "py_sweeper ?y = py_sweeper y" and mu: "py_mu ?y = None"
    and gr: "ps_grants (py_svc ?y) = ps_grants (py_svc y)"
    by (simp_all add: Some register_insert_def Let_def)
  have w: "waiting y key" if "waiting ?y key" for key
    using that Some by (auto simp: waiting_def register_insert_def Let_def split: if_splits)
  have lock: "lock_ok ?y" using l none unfolding lock_ok_def thr sw mu by auto
  show ?thesis
    unfolding sweep_inv_def
  proof (intro conjI allI impI lock)
    fix key
    assume "map_get (ps_grants (py_svc ?y)) key \<noteq> None" and "waiting ?y key"
    then obtain u where "covers (py_svc y) (py_thr y u) key"
      using sweep_invD(2) [OF inv] w gr by metis
    then show "\<exists>u. covers (py_svc ?y) (py_thr ?y u) key"
      using none by (auto simp: covers_def thr simp del: perm_step.simps)
  qed
qed (use inv in simp)

lemma sweep_inv_start:
  assumes once: "once_inv uuid y" and inv: "sweep_inv y" and ord: "map_order ord"
    and t: "py_thr y t = TSweep key" and free: "py_mu y = None" "py_sweeper y = None"
  shows "sweep_inv (perm_step uuid ord y (SSweep t))"
proof -
  let ?kvs = "ord (map_copy (ps_pending (py_svc y)))"
  have mem: "(r, e) \<in> set ?kvs \<longleftrightarrow> map_get (ps_pending (py_svc y)) r = Some e" for r e
    using ord map_copy_lookup [OF table_okD(1) [OF once_invD(1) [OF once]]] by simp
  have "lock_ok (perm_step uuid ord y (SSweep t))"
    using sweep_invD(1) [OF inv] free unfolding lock_ok_def by (auto simp: t)
  then show ?thesis
    by (rule sweep_frame [OF inv, of _ t "TSweeping key ?kvs"])
      (auto simp: t free covers_def mem waiting_def)
qed

lemma sweep_inv_next:
  assumes once: "once_inv uuid y" and inv: "sweep_inv y" and t: "py_thr y t = TSweeping key kvs"
  shows "sweep_inv (sweep_next t key kvs y)"
proof -
  note l = sweep_invD(1) [OF inv]
  have mu: "py_mu y = None" using lock_okD(3) [OF l, of t] by (simp add: t)
  have sw: "py_sweeper y = Some t" using lock_okD(1) [OF l, of t] by (simp add: t)
  have filed: "pr_id (pd_req e) = rid" if "map_get (ps_pending (py_svc y)) rid = Some e" for rid e
    using table_okD(8) [OF once_invD(1) [OF once] that] by simp
  have rest: "\<forall>rid e. map_get (ps_pending s) rid = Some e \<longrightarrow> permission_key_for (pd_req e) = key \<longrightarrow> (rid, e) \<in> set kvs'"
    if "kvs = kv # kvs'" and "covers (py_svc y) (py_thr y t) key"
      and "\<And>rid e. map_get (ps_pending s) rid = Some e \<Longrightarrow> map_get (ps_pending (py_svc y)) rid = Some e"
      and "permission_key_for (pd_req (snd kv)) \<noteq> key \<or> map_get (ps_pending s) (pr_id (pd_req (snd kv))) = None"
    for kv kvs' s
  proof (intro allI impI)
    fix rid e
    assume e: "map_get (ps_pending s) rid = Some e" "permission_key_for (pd_req e) = key"
    have "(rid, e) \<in> set (kv # kvs')" using that(1,2) that(3) [OF e(1)] e(2) by (auto simp: covers_def t)
    moreover have "(rid, e) \<noteq> kv" using that(4) e filed [OF that(3) [OF e(1)]] by auto
    ultimately show "(rid, e) \<in> set kvs'" by simp
  qed
  show ?thesis
  proof (cases kvs)
    case Nil
    have "lock_ok (sweep_next t key kvs y)"
      using l sw unfolding lock_ok_def Nil by auto
    then show ?thesis
      by (rule sweep_frame [OF inv, of _ t TIdle]) (auto simp: t Nil covers_def waiting_def mu)
  next
    case (Cons kv kvs')
    let ?rid = "pr_id (pd_req (snd kv))"
    show ?thesis
    proof (cases "permission_key_for (pd_req (snd kv)) = key \<and> map_get (ps_pending (py_svc y)) ?rid \<noteq> None")
      case True
      then obtain e where e: "map_get (ps_pending (py_svc y)) ?rid = Some e" by blast
      have "lock_ok (sweep_next t key kvs y)"
        by (rule lock_frame [OF l, of _ t "TSweepTaken key e kvs'"])
          (use True in \<open>simp_all add: t Cons take_pending_simps(2) [OF e]\<close>)
      then show ?thesis
      proof (rule sweep_frame [OF inv, of _ t "TSweepTaken key e kvs'"])
        fix k assume c: "covers (py_svc y) (py_thr y t) k"
        then have k: "k = key" by (simp add: covers_def t)
        show "covers (py_svc (sweep_next t key kvs y)) (TSweepTaken key e kvs') k"
        proof -
          let ?s = "py_svc (sweep_next t key kvs y)"
          have p: "ps_pending ?s = map_del ?rid (ps_pending (py_svc y))"
            using True by (simp add: Cons take_pending_simps(2) [OF e])
          have "\<forall>rid e. map_get (ps_pending ?s) rid = Some e \<longrightarrow> permission_key_for (pd_req e) = key \<longrightarrow> (rid, e) \<in> set kvs'"
            by (rule rest [OF Cons c [unfolded k]]) (auto simp: p split: if_splits)
          then show ?thesis by (simp add: k covers_def)
        qed
      qed (use True in \<open>auto simp: Cons take_pending_simps(2) [OF e] waiting_def mu split: if_splits\<close>)
    next
      case False
      then have y: "sweep_next t key kvs y = y\<lparr>py_thr := (py_thr y)(t := TSweeping key kvs')\<rparr>"
        by (auto simp: Cons take_pending_simps(1))
      have "lock_ok (sweep_next t key kvs y)"
        unfolding y by (rule lock_frame [OF l, of _ t "TSweeping key kvs'"]) (simp_all add: t)
      then show ?thesis
        unfolding y
      proof (rule sweep_frame [OF inv, of _ t "TSweeping key kvs'"])
        fix k assume c: "covers (py_svc y) (py_thr y t) k"
        then have k: "k = key" by (simp add: covers_def t)
        show "covers (py_svc (y\<lparr>py_thr := (py_thr y)(t := TSweeping key kvs')\<rparr>)) (TSweeping key kvs') k"
          using rest [OF Cons c [unfolded k], of "py_svc y"] False by (auto simp: k covers_def)
      qed (simp_all add: waiting_def)
    qed
  qed
qed

lemma sweep_inv_step:
  assumes ord: "map_order ord" and once: "once_inv uuid y" and inv: "sweep_inv y"
  shows "sweep_inv (perm_step uuid ord y a)"
proof (cases a)
  case (SRegister opts dir)
  obtain r s where r: "register_check (uuid (py_ids y)) opts dir (py_svc y) = (r, s)" by fastforce
  have s: "ps_pending s = ps_pending (py_svc y)" "ps_grants s = ps_grants (py_svc y)"
    and p: "\<And>p. r = Some p \<Longrightarrow> map_get (ps_grants (py_svc y)) (permission_key_for p) = None"
    using r by (auto simp: register_check_def Let_def split: if_splits)
  show ?thesis
  proof (cases "py_mu y = None \<and> py_sweeper y = None")
    case True
    with sweep_invD(1) [OF inv] have "lock_ok (perm_step uuid ord y a)"
      unfolding lock_ok_def by (simp add: SRegister r)
    with True s p show ?thesis
      by (intro sweep_frame_same [OF inv]) (auto simp: SRegister r waiting_def)
  qed (use inv SRegister in auto)
next
  case SInsert
  with sweep_inv_insert [OF inv] show ?thesis by simp
next
  case (STake t d rid)
  show ?thesis
  proof (cases "py_thr y t = TIdle \<and> (\<exists>e. map_get (ps_pending (py_svc y)) rid = Some e)")
    case True
    then obtain e where idle: "py_thr y t = TIdle" and e: "map_get (ps_pending (py_svc y)) rid = Some e" by blast
    have "lock_ok (perm_step uuid ord y a)"
      by (rule lock_frame [OF sweep_invD(1) [OF inv], of _ t "TTaken d e"])
        (simp_all add: STake idle take_pending_simps(2) [OF e])
    then show ?thesis
      unfolding STake
      by (rule sweep_frame [OF inv, of _ t "TTaken d e"])
        (auto simp: idle take_pending_simps(2) [OF e] waiting_def covers_def split: if_splits)
  next
    case False
    then have "perm_step uuid ord y a = y"
      by (cases "map_get (ps_pending (py_svc y)) rid") (auto simp: STake take_pending_simps(1))
    with inv show ?thesis by simp
  qed
next
  case (SRecord t)
  show ?thesis
  proof (cases "\<exists>e. py_thr y t = TTaken DPersist e")
    case True
    then obtain e where e: "py_thr y t = TTaken DPersist e" by blast
    have "lock_ok (perm_step uuid ord y a)"
      by (rule lock_frame [OF sweep_invD(1) [OF inv], of _ t "TRecorded e"]) (simp_all add: SRecord e)
    then show ?thesis
      unfolding SRecord
      by (rule sweep_frame [OF inv, of _ t "TRecorded e"])
        (auto simp: e waiting_def covers_def split: if_splits)
  next
    case False
    then have "perm_step uuid ord y a = y" by (auto simp: SRecord split: pthread.split decision.split)
    with inv show ?thesis by simp
  qed
next
  case (SFinish t)
  have same: "ps_pending (py_svc (finish t y)) = ps_pending (py_svc y)"
    "ps_grants (py_svc (finish t y)) = ps_grants (py_svc y)" "py_mu (finish t y) = py_mu y"
    "py_sweeper (finish t y) = py_sweeper y"
    by (auto simp: finish_def split: pthread.split decision.split)
  have "\<exists>th. py_thr (finish t y) = (py_thr y)(t := th) \<and> rest_of th = rest_of (py_thr y t) \<and>
      (\<forall>key. claims (py_thr y t) key \<longrightarrow> claims th key)"
    by (cases "py_thr y t"; cases "case py_thr y t of TTaken d e \<Rightarrow> d | _ \<Rightarrow> DPersist")
      (auto simp: finish_def fun_upd_idem intro: exI [of _ "py_thr y t"])
  then obtain th where th: "py_thr (finish t y) = (py_thr y)(t := th)" "rest_of th = rest_of (py_thr y t)"
    "\<And>key. claims (py_thr y t) key \<Longrightarrow> claims th key" by blast
  have "lock_ok (finish t y)"
    by (rule lock_frame [OF sweep_invD(1) [OF inv] th(1)]) (simp_all add: th(2) same)
  then show ?thesis
    unfolding SFinish perm_step.simps
    by (rule sweep_frame [OF inv _ th(1)]) (auto simp: waiting_def same covers_def th(2,3) split: option.splits)
next
  case (SSweep t)
  show ?thesis
  proof (cases "py_thr y t")
    case (TSweep key)
    with inv sweep_inv_start [OF once inv ord TSweep] show ?thesis
      by (cases "py_mu y = None \<and> py_sweeper y = None") (auto simp: SSweep)
  next
    case (TSweeping key kvs)
    with sweep_inv_next [OF once inv TSweeping] show ?thesis by (simp add: SSweep)
  qed (use inv in \<open>simp_all add: SSweep\<close>)
next
  case (SReturn i)
  have "lock_ok (perm_step uuid ord y a)"
    using sweep_invD(1) [OF inv] unfolding lock_ok_def by (simp add: SReturn)
  then show ?thesis
    by (rule sweep_frame_same [OF inv, rotated])
      (auto simp: SReturn waiting_def request_answered_def split: list.splits if_splits)
next
  case (SOverride w)
  have "lock_ok (perm_step uuid ord y a)"
    using sweep_invD(1) [OF inv] unfolding lock_ok_def by (simp add: SOverride)
  then show ?thesis
    unfolding SOverride
    by (rule sweep_frame_same [OF inv, rotated])
      (cases w; auto simp: waiting_def set_session_auto_approve_def clear_session_auto_approve_def)+
next
  case (SMode m)
  have "lock_ok (perm_step uuid ord y a)"
    using sweep_invD(1) [OF inv] unfolding lock_ok_def by (simp add: SMode)
  then show ?thesis
    by (rule sweep_frame_same [OF inv, rotated]) (auto simp: SMode waiting_def set_permission_mode_def)
qed

interpretation psweep: safe_system "perm_step uuid ord"
  "\<lambda>y. (inj uuid \<and> map_order ord) \<and> once_inv uuid y \<and> sweep_inv y" for uuid ord
  by unfold_locales (use once_step sweep_inv_step in blast)

lemma sweep_inv_init: "sweep_inv (perm_sys_init (new_permission_service workdir allowed))"
  by (simp add: sweep_inv_def lock_ok_def waiting_def perm_sys_init_def new_permission_service_def)

text \<open>
  C14: no missed request. Whenever no \<open>GrantPersistent\<close> is between remembering its grant and
  having swept, no pending request (and none being registered) has a key the session has a
  remembered grant for: it was either swept or approved inline.
\<close>

theorem granted_never_waits:
  assumes "inj uuid" and "map_order ord"
    and "y = foldl (perm_step uuid ord) (perm_sys_init (new_permission_service workdir allowed)) as"
    and "map_get (ps_grants (py_svc y)) key \<noteq> None" and "\<And>t. \<not> claims (py_thr y t) key"
  shows "\<not> waiting y key"
  using psweep.run_good [of uuid ord "perm_sys_init (new_permission_service workdir allowed)" as]
    sweep_invD(2) [of y key] assms once_init sweep_inv_init unfolding covers_def by blast

text \<open>
  In the witness a request is registered (checked) before the grant of its key is remembered
  and inserted afterwards; the sweep resolves it.
\<close>

definition demo_race :: "unit pstep list" where
  "demo_race = [SRegister demo_opts ''/w'', SInsert, STake 1 DPersist [], SRegister demo_opts ''/w'',
     SRecord 1, SFinish 1, SInsert, SSweep 1, SSweep 1, SFinish 1, SSweep 1]"

definition demo_race_end :: "unit perm_sys" where
  "demo_race_end = foldl (perm_step (\<lambda>n. replicate n CHR ''u'') rev)
     (perm_sys_init (new_permission_service ''/w'' [])) demo_race"

lemma demo_race_end:
  "map_get (ps_grants (py_svc demo_race_end)) (permission_key_for (build_request [] demo_opts ''/w'')) \<noteq> None \<and>
   (\<forall>t. py_thr demo_race_end t = TIdle)"
  by (simp add: demo_race_end_def demo_race_def perm_sys_init_def new_permission_service_def register_check_def
      register_insert_def take_pending_def map_take_def map_get_def map_set_def map_del_def record_grant_def
      finish_def resolve_finish_def notify_def Let_def build_request_def new_map_def permission_key_for_def
      demo_opts_def map_copy_def)

theorem granted_never_waits_witness:
  "\<not> waiting demo_race_end (permission_key_for (build_request [] demo_opts ''/w''))"
  by (rule granted_never_waits [OF inj_replicate map_order_rev demo_race_end_def])
    (use demo_race_end in simp_all)

end
