(* ===== verification/Hooks.thy ===== *)
theory Hooks
  imports GoLib
begin

text \<open>
  User-defined hooks: internal/hooks (hooks.go, runner.go, input.go, events.go, config.go) and the
  exit codes of internal/shell/shell.go.

  Outside the model, as arguments: running a shell command (\<open>exec\<close> gives how it ended and what it
  wrote), the regular expression engine (\<open>compile\<close>, \<open>matches\<close>), the JSON decoder (\<open>json_dec\<close>:
  the fields of the structs the code decodes into) and the third-party gjson/sjson packages.
\<close>

subsection \<open>Decisions and results\<close>

datatype hook_decision = DecisionNone | DecisionAllow | DecisionDeny

text \<open>The order of the constants: deny wins over allow, allow wins over none.\<close>

fun decision_rank :: "hook_decision \<Rightarrow> nat" where
  "decision_rank DecisionNone = 0"
| "decision_rank DecisionAllow = 1"
| "decision_rank DecisionDeny = 2"

instantiation hook_decision :: linorder
begin

definition less_eq_hook_decision :: "hook_decision \<Rightarrow> hook_decision \<Rightarrow> bool" where
  "less_eq_hook_decision a b \<longleftrightarrow> decision_rank a \<le> decision_rank b"

definition less_hook_decision :: "hook_decision \<Rightarrow> hook_decision \<Rightarrow> bool" where
  "less_hook_decision a b \<longleftrightarrow> decision_rank a < decision_rank b"

instance
proof
  fix a b :: hook_decision
  show "a \<le> b \<Longrightarrow> b \<le> a \<Longrightarrow> a = b"
    by (cases a; cases b) (simp_all add: less_eq_hook_decision_def)
qed (auto simp: less_eq_hook_decision_def less_hook_decision_def)

end

lemma decision_le [simp]:
  "DecisionNone \<le> d" "d \<le> DecisionDeny" "DecisionDeny \<le> d \<longleftrightarrow> d = DecisionDeny"
  "d \<le> DecisionNone \<longleftrightarrow> d = DecisionNone" "DecisionAllow \<le> d \<longleftrightarrow> d \<noteq> DecisionNone"
  by (cases d; simp add: less_eq_hook_decision_def)+

fun decision_string :: "hook_decision \<Rightarrow> string" where
  "decision_string DecisionAllow = ''allow''"
| "decision_string DecisionDeny = ''deny''"
| "decision_string DecisionNone = ''none''"

record hook_result =
  hr_decision :: hook_decision
  hr_halt :: bool
  hr_reason :: string
  hr_context :: string
  hr_input :: string
  hr_output :: string

definition no_opinion :: hook_result where
  "no_opinion = \<lparr>hr_decision = DecisionNone, hr_halt = False, hr_reason = [], hr_context = [],
     hr_input = [], hr_output = []\<rparr>"

record hook_info =
  hi_name :: string
  hi_event :: string
  hi_matcher :: string
  hi_decision :: string
  hi_halt :: bool
  hi_reason :: string
  hi_input_rewrite :: bool
  hi_output_rewrite :: bool

record aggregate_result =
  ag_decision :: hook_decision
  ag_halt :: bool
  ag_count :: nat
  ag_hooks :: "hook_info list"
  ag_reason :: string
  ag_context :: string
  ag_input :: string
  ag_output :: string

definition empty_aggregate :: aggregate_result where
  "empty_aggregate = \<lparr>ag_decision = DecisionNone, ag_halt = False, ag_count = 0, ag_hooks = [],
     ag_reason = [], ag_context = [], ag_input = [], ag_output = []\<rparr>"

definition blocked :: "aggregate_result \<Rightarrow> bool" where
  "blocked a \<longleftrightarrow> ag_decision a = DecisionDeny \<or> ag_halt a"

subsection \<open>Merging patches\<close>

text \<open>
  \<open>is_object\<close>: the JSON value is an object; \<open>members\<close>: the top-level members of a JSON object,
  if the text is one; \<open>set_raw\<close>: sjson's \<open>SetRawBytes\<close>; \<open>ord\<close>: the order of the range loop.
\<close>

fun set_all :: "(string \<Rightarrow> string \<Rightarrow> string \<Rightarrow> string option) \<Rightarrow> (string \<times> string) list \<Rightarrow> string \<Rightarrow> string option" where
  "set_all set_raw [] out = Some out"
| "set_all set_raw ((k, v) # kvs) out =
     (case set_raw out k v of None \<Rightarrow> None | Some out' \<Rightarrow> set_all set_raw kvs out')"

record json_edit =
  je_is_object :: "string \<Rightarrow> bool"
  je_members :: "string \<Rightarrow> (string, string) gomap option"
  je_set :: "string \<Rightarrow> string \<Rightarrow> string \<Rightarrow> string option"
  je_order :: "(string, string) gomap \<Rightarrow> (string, string) gomap"

definition shallow_merge :: "json_edit \<Rightarrow> string \<Rightarrow> string \<Rightarrow> string option" where
  "shallow_merge je base0 patch =
     (let base = (if base0 = [] then ''{}'' else base0)
      in if \<not> je_is_object je base then None
         else (case je_members je patch of
                 None \<Rightarrow> None
               | Some m \<Rightarrow> set_all (je_set je) (je_order je m) base))"

subsection \<open>Aggregation\<close>

text \<open>The loop variables of \<open>aggregate\<close>, and one turn of its loop.\<close>

record agg_state =
  as_decision :: hook_decision
  as_halt :: bool
  as_reasons :: "string list"
  as_contexts :: "string list"
  as_merged :: string
  as_patched :: bool
  as_output :: string

definition agg_decide :: "hook_result \<Rightarrow> agg_state \<Rightarrow> agg_state" where
  "agg_decide r s =
     (case hr_decision r of
        DecisionDeny \<Rightarrow> s\<lparr>as_decision := DecisionDeny,
          as_reasons := if hr_reason r \<noteq> [] then as_reasons s @ [hr_reason r] else as_reasons s\<rparr>
      | DecisionAllow \<Rightarrow> if as_decision s \<noteq> DecisionDeny then s\<lparr>as_decision := DecisionAllow\<rparr> else s
      | DecisionNone \<Rightarrow> s)"

definition agg_halt :: "hook_result \<Rightarrow> agg_state \<Rightarrow> agg_state" where
  "agg_halt r s =
     (if hr_halt r
      then s\<lparr>as_halt := True,
             as_reasons := if hr_reason r \<noteq> [] \<and> hr_decision r \<noteq> DecisionDeny
                           then as_reasons s @ [hr_reason r] else as_reasons s\<rparr>
      else s)"

definition agg_texts :: "hook_result \<Rightarrow> agg_state \<Rightarrow> agg_state" where
  "agg_texts r s =
     s\<lparr>as_contexts := if hr_context r \<noteq> [] then as_contexts s @ [hr_context r] else as_contexts s,
       as_output := if hr_output r \<noteq> [] then hr_output r else as_output s\<rparr>"

definition agg_patch :: "json_edit \<Rightarrow> hook_result \<Rightarrow> agg_state \<Rightarrow> agg_state" where
  "agg_patch je r s =
     (if hr_input r \<noteq> []
      then (case shallow_merge je (as_merged s) (hr_input r) of
              None \<Rightarrow> s
            | Some next \<Rightarrow> s\<lparr>as_merged := next, as_patched := True\<rparr>)
      else s)"

definition agg_step :: "json_edit \<Rightarrow> agg_state \<Rightarrow> hook_result \<Rightarrow> agg_state" where
  "agg_step je s r = agg_patch je r (agg_texts r (agg_halt r (agg_decide r s)))"

definition agg_init :: "string \<Rightarrow> agg_state" where
  "agg_init input = \<lparr>as_decision = DecisionNone, as_halt = False, as_reasons = [], as_contexts = [],
     as_merged = input, as_patched = False, as_output = []\<rparr>"

definition aggregate_results :: "json_edit \<Rightarrow> hook_result list \<Rightarrow> string \<Rightarrow> aggregate_result" where
  "aggregate_results je results input =
     (let s = foldl (agg_step je) (agg_init input) results
      in \<lparr>ag_decision = as_decision s, ag_halt = as_halt s, ag_count = length results, ag_hooks = [],
          ag_reason = (if as_reasons s \<noteq> [] then join_with [CHR 0x0A] (as_reasons s) else []),
          ag_context = (if as_contexts s \<noteq> [] then join_with [CHR 0x0A] (as_contexts s) else []),
          ag_input = (if as_patched s then as_merged s else []),
          ag_output = as_output s\<rparr>)"

subsection \<open>Events\<close>

definition hook_events :: "(string \<times> bool) list" where
  "hook_events =
     [(''PreToolUse'', True), (''PostToolUse'', True), (''PostToolUseFailure'', True),
      (''PermissionRequest'', True), (''PermissionResult'', True), (''SessionStart'', False),
      (''SessionEnd'', False), (''TurnStart'', False), (''TurnEnd'', False), (''StopFailure'', False),
      (''Interrupt'', False), (''PreCompact'', False), (''PostCompact'', False)]"

definition fold_event :: "string \<Rightarrow> string" where
  "fold_event name = to_lower (filter (\<lambda>c. c \<noteq> CHR ''_'') name)"

definition event_by_key :: "string \<rightharpoonup> string" where
  "event_by_key = map_of (map (\<lambda>(name, _). (fold_event name, name)) hook_events)"

definition normalize_event :: "string \<Rightarrow> string option" where
  "normalize_event name = event_by_key (fold_event name)"

definition event_has_tool :: "string \<Rightarrow> bool" where
  "event_has_tool name = (case map_of hook_events name of None \<Rightarrow> False | Some b \<Rightarrow> b)"

record hook_tool =
  ht_id :: string
  ht_name :: string
  ht_input :: string

record hook_event =
  hv_name :: string
  hv_session :: string
  hv_tool :: "hook_tool option"
  hv_response :: "string option"
  hv_error :: string
  hv_last_message :: "string option"
  hv_decision :: string
  hv_source :: string
  hv_reason :: string
  hv_trigger :: string

definition event_tool_name :: "hook_event \<Rightarrow> string" where
  "event_tool_name ev = (case hv_tool ev of None \<Rightarrow> [] | Some t \<Rightarrow> ht_name t)"

record hook_config =
  hc_name :: string
  hc_matcher :: string
  hc_command :: string
  hc_timeout :: int

definition display_name :: "hook_config \<Rightarrow> string" where
  "display_name h = (if hc_name h \<noteq> [] then hc_name h else hc_command h)"

text \<open>\<open>time.Duration\<close> is a 64-bit count of nanoseconds; the product wraps.\<close>

definition timeout_duration :: "hook_config \<Rightarrow> u64" where
  "timeout_duration h =
     (if hc_timeout h \<le> 0 then 30 * 1000000000 else word_of_int (hc_timeout h) * 1000000000)"

subsection \<open>What a hook is given\<close>

record hook_payload =
  hp_event :: string
  hp_hook_event :: string
  hp_session :: string
  hp_cwd :: string
  hp_tool_name :: string
  hp_tool_input :: string
  hp_tool_id :: string
  hp_response :: "string option"
  hp_error :: string
  hp_last_message :: "string option"
  hp_decision :: string
  hp_source :: string
  hp_reason :: string
  hp_trigger :: string

text \<open>\<open>valid\<close> is \<open>json.Valid\<close>. Marshalling the struct is left to the encoder.\<close>

definition build_payload :: "(string \<Rightarrow> bool) \<Rightarrow> hook_event \<Rightarrow> string \<Rightarrow> hook_payload" where
  "build_payload valid ev cwd =
     (let p = \<lparr>hp_event = hv_name ev, hp_hook_event = hv_name ev, hp_session = hv_session ev, hp_cwd = cwd,
               hp_tool_name = [], hp_tool_input = [], hp_tool_id = [], hp_response = hv_response ev,
               hp_error = hv_error ev, hp_last_message = hv_last_message ev, hp_decision = hv_decision ev,
               hp_source = hv_source ev, hp_reason = hv_reason ev, hp_trigger = hv_trigger ev\<rparr>
      in case hv_tool ev of
           None \<Rightarrow> p
         | Some t \<Rightarrow> p\<lparr>hp_tool_name := ht_name t, hp_tool_id := ht_id t,
                       hp_tool_input := if valid (ht_input t) then ht_input t else ''{}''\<rparr>)"

text \<open>\<open>environ\<close> and \<open>markers\<close> are the process environment and the shell's markers, \<open>field\<close> is gjson's \<open>Get\<close>.\<close>

definition build_env :: "string list \<Rightarrow> string list \<Rightarrow> (string \<Rightarrow> string \<Rightarrow> string option) \<Rightarrow>
    hook_event \<Rightarrow> string \<Rightarrow> string \<Rightarrow> string list" where
  "build_env environ markers field ev cwd project =
     (let env = environ @ markers @
            [''CRUSH_EVENT='' @ hv_name ev, ''CRUSH_SESSION_ID='' @ hv_session ev, ''CRUSH_CWD='' @ cwd,
             ''CRUSH_PROJECT_DIR='' @ project, ''CLAUDE_PROJECT_DIR='' @ project]
      in case hv_tool ev of
           None \<Rightarrow> env
         | Some t \<Rightarrow> env @ [''CRUSH_TOOL_NAME='' @ ht_name t] @
             (case field (ht_input t) ''command'' of
                None \<Rightarrow> [] | Some c \<Rightarrow> [''CRUSH_TOOL_INPUT_COMMAND='' @ c]) @
             (case field (ht_input t) ''file_path'' of
                None \<Rightarrow> [] | Some f \<Rightarrow> [''CRUSH_TOOL_INPUT_FILE_PATH='' @ f]))"

subsection \<open>What a hook answers\<close>

text \<open>
  The structs that \<open>parseStdout\<close> and \<open>applyClaudeCodeOutput\<close> decode into; raw members keep
  their JSON text (empty if absent). \<open>jd_string\<close> and \<open>jd_strings\<close> decode a JSON string and a JSON
  array of strings.
\<close>

record hook_envelope =
  he_decision :: string
  he_halt :: bool
  he_reason :: string
  he_context :: string
  he_updated_input :: string
  he_updated_output :: string
  he_continue :: "bool option"
  he_stop_reason :: string
  he_specific :: string

record hook_specific =
  hs_decision :: string
  hs_reason :: string
  hs_updated_input :: string
  hs_updated_output :: string
  hs_context :: string

record json_dec =
  jd_envelope :: "string \<Rightarrow> hook_envelope option"
  jd_specific :: "string \<Rightarrow> hook_specific option"
  jd_string :: "string \<Rightarrow> string option"
  jd_strings :: "string \<Rightarrow> string list option"

definition parse_decision :: "string \<Rightarrow> hook_decision" where
  "parse_decision s =
     (let l = to_lower s
      in if l = ''allow'' \<or> l = ''approve'' then DecisionAllow
         else if l = ''deny'' \<or> l = ''block'' then DecisionDeny else DecisionNone)"

definition parse_context :: "json_dec \<Rightarrow> string \<Rightarrow> string" where
  "parse_context jd raw =
     (if raw = [] \<or> raw = ''null'' then []
      else if hd raw = CHR 0x22 then (case jd_string jd raw of None \<Rightarrow> [] | Some t \<Rightarrow> t)
      else if hd raw = CHR ''['' then
        (case jd_strings jd raw of
           None \<Rightarrow> [] | Some items \<Rightarrow> join_with [CHR 0x0A] (filter (\<lambda>t. t \<noteq> []) items))
      else [])"

definition raw_to_string :: "json_dec \<Rightarrow> string \<Rightarrow> string" where
  "raw_to_string jd raw =
     (if raw = [] \<or> raw = ''null'' then []
      else if hd raw = CHR 0x22 then (case jd_string jd raw of None \<Rightarrow> raw | Some t \<Rightarrow> t)
      else raw)"

definition apply_claude_code_output :: "json_dec \<Rightarrow> string \<Rightarrow> hook_result \<Rightarrow> hook_result" where
  "apply_claude_code_output jd data r =
     (case jd_specific jd data of
        None \<Rightarrow> r
      | Some h \<Rightarrow>
          (let d = parse_decision (hs_decision h);
               r1 = (if d \<noteq> DecisionNone then r\<lparr>hr_decision := d\<rparr> else r);
               r2 = (if hs_reason h \<noteq> [] then r1\<lparr>hr_reason := hs_reason h\<rparr> else r1);
               r3 = (if hs_context h \<noteq> []
                     then r2\<lparr>hr_context := trim_space (hr_context r2 @ [CHR 0x0A] @ hs_context h)\<rparr> else r2);
               i = raw_to_string jd (hs_updated_input h);
               r4 = (if i \<noteq> [] then r3\<lparr>hr_input := i\<rparr> else r3);
               u = raw_to_string jd (hs_updated_output h)
           in if u \<noteq> [] then r4\<lparr>hr_output := u\<rparr> else r4))"

definition parse_stdout :: "json_dec \<Rightarrow> string \<Rightarrow> hook_result \<times> bool" where
  "parse_stdout jd stdout =
     (let out = trim_space stdout
      in if out = [] then (no_opinion, False)
         else (case jd_envelope jd out of
                 None \<Rightarrow> (no_opinion, False)
               | Some e \<Rightarrow>
                   (let r = \<lparr>hr_decision = parse_decision (he_decision e), hr_halt = he_halt e,
                             hr_reason = he_reason e, hr_context = parse_context jd (he_context e),
                             hr_input = raw_to_string jd (he_updated_input e),
                             hr_output = raw_to_string jd (he_updated_output e)\<rparr>;
                        r1 = (if he_continue e = Some False
                              then r\<lparr>hr_halt := True,
                                     hr_reason := if he_stop_reason e \<noteq> [] then he_stop_reason e else hr_reason r\<rparr>
                              else r)
                    in (if he_specific e \<noteq> [] then apply_claude_code_output jd (he_specific e) r1 else r1, True))))"

subsection \<open>Running hooks\<close>

text \<open>
  How a shell run ends: with no error or one of these, or the runner stops waiting for it after
  the deadline and the grace period, and then must not look at its output.
\<close>

datatype exec_error = Interrupted | ExitStatus int | OtherError

datatype hook_exec = ExecDone "exec_error option" string string | ExecAbandoned

definition is_interrupt :: "exec_error option \<Rightarrow> bool" where
  "is_interrupt err \<longleftrightarrow> err = Some Interrupted"

definition exit_code :: "exec_error option \<Rightarrow> int" where
  "exit_code err = (case err of None \<Rightarrow> 0 | Some (ExitStatus n) \<Rightarrow> n | Some _ \<Rightarrow> 1)"

definition halt_exit_code :: int where
  "halt_exit_code = 49"

definition run_one :: "json_dec \<Rightarrow> hook_exec \<Rightarrow> hook_result" where
  "run_one jd ex =
     (case ex of
        ExecAbandoned \<Rightarrow> no_opinion
      | ExecDone err stdout stderr \<Rightarrow>
          if is_interrupt err then no_opinion
          else (case parse_stdout jd stdout of (result, has_json) \<Rightarrow>
            if err = None then result
            else (let reason0 = trim_space stderr;
                      reason = (if reason0 = [] then hr_reason result else reason0)
                  in if exit_code err = 2
                     then no_opinion\<lparr>hr_decision := DecisionDeny,
                            hr_reason := if reason = [] then ''blocked by hook'' else reason\<rparr>
                     else if exit_code err = halt_exit_code
                     then no_opinion\<lparr>hr_decision := DecisionDeny, hr_halt := True,
                            hr_reason := if reason = [] then ''turn halted by hook'' else reason\<rparr>
                     else if has_json then result else no_opinion)))"

text \<open>The matcher cache: a pattern that does not compile is cached as such.\<close>

definition matcher :: "(string \<Rightarrow> 'r option) \<Rightarrow> hook_config \<Rightarrow> (string, 'r option) gomap
    \<Rightarrow> 'r option \<times> (string, 'r option) gomap" where
  "matcher compile h cache =
     (case map_of cache (hc_matcher h) of
        Some re \<Rightarrow> (re, cache)
      | None \<Rightarrow> (compile (hc_matcher h), AList.update (hc_matcher h) (compile (hc_matcher h)) cache))"

fun matching_loop :: "(string \<Rightarrow> 'r option) \<Rightarrow> ('r \<Rightarrow> string \<Rightarrow> bool) \<Rightarrow> string option \<Rightarrow> hook_config list
    \<Rightarrow> string list \<Rightarrow> (string, 'r option) gomap \<Rightarrow> hook_config list \<times> (string, 'r option) gomap" where
  "matching_loop compile matches tool [] seen cache = ([], cache)"
| "matching_loop compile matches tool (h # hs) seen cache =
     (if hc_command h \<in> set seen then matching_loop compile matches tool hs seen cache
      else (case (if hc_matcher h \<noteq> [] then tool else None) of
              None \<Rightarrow> apfst ((#) h) (matching_loop compile matches tool hs (hc_command h # seen) cache)
            | Some name \<Rightarrow>
                (case matcher compile h cache of
                   (None, c) \<Rightarrow> matching_loop compile matches tool hs seen c
                 | (Some re, c) \<Rightarrow>
                     if matches re name
                     then apfst ((#) h) (matching_loop compile matches tool hs (hc_command h # seen) c)
                     else matching_loop compile matches tool hs seen c)))"

definition matching_hooks :: "(string \<Rightarrow> 'r option) \<Rightarrow> ('r \<Rightarrow> string \<Rightarrow> bool) \<Rightarrow> (string \<Rightarrow> hook_config list)
    \<Rightarrow> hook_event \<Rightarrow> (string, 'r option) gomap \<Rightarrow> hook_config list \<times> (string, 'r option) gomap" where
  "matching_hooks compile matches source ev cache =
     matching_loop compile matches (map_option ht_name (hv_tool ev)) (source (hv_name ev)) [] cache"

text \<open>
  The hooks run in parallel; each writes its own slot of the result slice. \<open>done\<close> is the order
  in which they finish.
\<close>

definition run_parallel :: "json_dec \<Rightarrow> (hook_config \<Rightarrow> hook_exec) \<Rightarrow> nat list \<Rightarrow> hook_config list \<Rightarrow> hook_result list" where
  "run_parallel jd exec done hooks =
     fold (\<lambda>i rs. rs[i := run_one jd (exec (hooks ! i))]) done (replicate (length hooks) no_opinion)"

definition hook_info_of :: "hook_event \<Rightarrow> hook_config \<Rightarrow> hook_result \<Rightarrow> hook_info" where
  "hook_info_of ev h r =
     \<lparr>hi_name = display_name h, hi_event = hv_name ev, hi_matcher = hc_matcher h,
      hi_decision = decision_string (hr_decision r), hi_halt = hr_halt r, hi_reason = hr_reason r,
      hi_input_rewrite = (hr_input r \<noteq> []), hi_output_rewrite = (hr_output r \<noteq> [])\<rparr>"

definition run_hooks :: "json_edit \<Rightarrow> json_dec \<Rightarrow> (string \<Rightarrow> 'r option) \<Rightarrow> ('r \<Rightarrow> string \<Rightarrow> bool)
    \<Rightarrow> (string \<Rightarrow> hook_config list) \<Rightarrow> (hook_config \<Rightarrow> hook_exec) \<Rightarrow> nat list \<Rightarrow> hook_event
    \<Rightarrow> (string, 'r option) gomap \<Rightarrow> aggregate_result \<times> (string, 'r option) gomap" where
  "run_hooks je jd compile matches source exec done ev cache =
     (case matching_hooks compile matches source ev cache of (hooks, c) \<Rightarrow>
        if hooks = [] then (empty_aggregate, c)
        else (let results = run_parallel jd exec done hooks;
                  input = (case hv_tool ev of None \<Rightarrow> [] | Some t \<Rightarrow> ht_input t)
              in ((aggregate_results je results input)\<lparr>ag_hooks := map2 (hook_info_of ev) hooks results\<rparr>, c)))"

subsection \<open>Aggregation: decisions\<close>

definition contributes :: "hook_result \<Rightarrow> bool" where
  "contributes r \<longleftrightarrow> hr_reason r \<noteq> [] \<and> (hr_decision r = DecisionDeny \<or> hr_halt r)"

lemma agg_patch_sel [simp]:
  "as_decision (agg_patch je r s) = as_decision s" "as_halt (agg_patch je r s) = as_halt s"
  "as_reasons (agg_patch je r s) = as_reasons s" "as_contexts (agg_patch je r s) = as_contexts s"
  "as_output (agg_patch je r s) = as_output s"
  by (simp_all add: agg_patch_def split: option.split)

lemma agg_texts_sel [simp]:
  "as_decision (agg_texts r s) = as_decision s" "as_halt (agg_texts r s) = as_halt s"
  "as_reasons (agg_texts r s) = as_reasons s" "as_merged (agg_texts r s) = as_merged s"
  "as_patched (agg_texts r s) = as_patched s"
  "as_contexts (agg_texts r s) = as_contexts s @ (if hr_context r \<noteq> [] then [hr_context r] else [])"
  "as_output (agg_texts r s) = (if hr_output r \<noteq> [] then hr_output r else as_output s)"
  by (simp_all add: agg_texts_def)

lemma agg_halt_sel [simp]:
  "as_decision (agg_halt r s) = as_decision s" "as_halt (agg_halt r s) = (as_halt s \<or> hr_halt r)"
  "as_contexts (agg_halt r s) = as_contexts s" "as_merged (agg_halt r s) = as_merged s"
  "as_patched (agg_halt r s) = as_patched s" "as_output (agg_halt r s) = as_output s"
  by (simp_all add: agg_halt_def)

lemma agg_decide_sel [simp]:
  "as_decision (agg_decide r s) = max (hr_decision r) (as_decision s)"
  "as_halt (agg_decide r s) = as_halt s" "as_contexts (agg_decide r s) = as_contexts s"
  "as_merged (agg_decide r s) = as_merged s" "as_patched (agg_decide r s) = as_patched s"
  "as_output (agg_decide r s) = as_output s"
  by (cases "hr_decision r"; cases "as_decision s";
      simp add: agg_decide_def max_def less_eq_hook_decision_def)+

lemma agg_reasons [simp]:
  "as_reasons (agg_halt r (agg_decide r s)) = as_reasons s @ (if contributes r then [hr_reason r] else [])"
  by (cases "hr_decision r") (simp_all add: agg_decide_def agg_halt_def contributes_def)

lemma agg_fold:
  "as_halt (foldl (agg_step je) s rs) = (as_halt s \<or> (\<exists>r\<in>set rs. hr_halt r)) \<and>
   as_decision (foldl (agg_step je) s rs) = fold max (map hr_decision rs) (as_decision s) \<and>
   as_reasons (foldl (agg_step je) s rs) = as_reasons s @ map hr_reason (filter contributes rs) \<and>
   as_contexts (foldl (agg_step je) s rs) = as_contexts s @ map hr_context (filter (\<lambda>r. hr_context r \<noteq> []) rs)"
  by (induction rs arbitrary: s) (simp_all add: agg_step_def)

lemma decision_max:
  "max d e = DecisionDeny \<longleftrightarrow> d = DecisionDeny \<or> e = DecisionDeny"
  "max d e = DecisionNone \<longleftrightarrow> d = DecisionNone \<and> e = DecisionNone"
  by (cases d; cases e; simp add: max_def less_eq_hook_decision_def)+

lemma decision_fold_max:
  "fold max ds e = DecisionDeny \<longleftrightarrow> e = DecisionDeny \<or> DecisionDeny \<in> set ds"
  "fold max ds e = DecisionNone \<longleftrightarrow> e = DecisionNone \<and> set ds \<subseteq> {DecisionNone}"
  by (induction ds arbitrary: e; auto simp: decision_max)+

lemma join_with_Nil_iff: "\<forall>p\<in>set ps. p \<noteq> [] \<Longrightarrow> join_with sep ps = [] \<longleftrightarrow> ps = []"
  by (cases "(sep, ps)" rule: join_with.cases) auto

lemma aggregate_facts:
  "ag_decision (aggregate_results je rs input) = DecisionDeny \<longleftrightarrow> (\<exists>r\<in>set rs. hr_decision r = DecisionDeny)"
  "ag_decision (aggregate_results je rs input) = DecisionNone \<longleftrightarrow> \<not> (\<exists>r\<in>set rs. hr_decision r \<noteq> DecisionNone)"
  "blocked (aggregate_results je rs input) \<longleftrightarrow> (\<exists>r\<in>set rs. hr_decision r = DecisionDeny \<or> hr_halt r)"
  "ag_reason (aggregate_results je rs input) = join_with [CHR 0x0A] (map hr_reason (filter contributes rs))"
  "ag_context (aggregate_results je rs input) =
     join_with [CHR 0x0A] (map hr_context (filter (\<lambda>r. hr_context r \<noteq> []) rs))"
proof -
  note f = agg_fold [of je "agg_init input" rs]
  note d = decision_fold_max [of "map hr_decision rs" DecisionNone]
  have deny: "(DecisionDeny \<in> set (map hr_decision rs)) = (\<exists>r\<in>set rs. hr_decision r = DecisionDeny)"
    by force
  show "ag_decision (aggregate_results je rs input) = DecisionDeny \<longleftrightarrow> (\<exists>r\<in>set rs. hr_decision r = DecisionDeny)"
    "ag_decision (aggregate_results je rs input) = DecisionNone \<longleftrightarrow> \<not> (\<exists>r\<in>set rs. hr_decision r \<noteq> DecisionNone)"
    "blocked (aggregate_results je rs input) \<longleftrightarrow> (\<exists>r\<in>set rs. hr_decision r = DecisionDeny \<or> hr_halt r)"
    "ag_reason (aggregate_results je rs input) = join_with [CHR 0x0A] (map hr_reason (filter contributes rs))"
    "ag_context (aggregate_results je rs input) =
     join_with [CHR 0x0A] (map hr_context (filter (\<lambda>r. hr_context r \<noteq> []) rs))"
    using f d deny by (auto simp: aggregate_results_def Let_def blocked_def agg_init_def)
qed

text \<open>
  Aggregation. Deny wins over allow and allow over no opinion, whatever the order; halting is
  sticky; the reason is, line by line and in configuration order, that of the hooks that denied or
  halted, and the context that of all hooks.
\<close>

theorem aggregate_combines:
  "(ag_decision (aggregate_results je rs input) = DecisionDeny \<longleftrightarrow> (\<exists>r\<in>set rs. hr_decision r = DecisionDeny)) \<and>
   (ag_decision (aggregate_results je rs input) = DecisionNone \<longleftrightarrow> \<not> (\<exists>r\<in>set rs. hr_decision r \<noteq> DecisionNone)) \<and>
   (blocked (aggregate_results je rs input) \<longleftrightarrow> (\<exists>r\<in>set rs. hr_decision r = DecisionDeny \<or> hr_halt r)) \<and>
   ag_reason (aggregate_results je rs input) = join_with [CHR 0x0A] (map hr_reason (filter contributes rs)) \<and>
   ag_context (aggregate_results je rs input) =
     join_with [CHR 0x0A] (map hr_context (filter (\<lambda>r. hr_context r \<noteq> []) rs))"
  using aggregate_facts by blast

subsection \<open>Which hooks run\<close>

text \<open>The same selection without a cache and in one sentence: accepted hooks, first per command.\<close>

definition accepts :: "(string \<Rightarrow> 'r option) \<Rightarrow> ('r \<Rightarrow> string \<Rightarrow> bool) \<Rightarrow> string option \<Rightarrow> hook_config \<Rightarrow> bool" where
  "accepts compile matches tool h \<longleftrightarrow>
     (case (if hc_matcher h \<noteq> [] then tool else None) of
        None \<Rightarrow> True
      | Some name \<Rightarrow> (case compile (hc_matcher h) of None \<Rightarrow> False | Some re \<Rightarrow> matches re name))"

fun first_per_command :: "string list \<Rightarrow> hook_config list \<Rightarrow> hook_config list" where
  "first_per_command seen [] = []"
| "first_per_command seen (h # hs) =
     (if hc_command h \<in> set seen then first_per_command seen hs
      else h # first_per_command (hc_command h # seen) hs)"

lemma first_per_command_set:
  "hc_command ` set (first_per_command seen hs) = hc_command ` set hs - set seen"
  by (induction seen hs rule: first_per_command.induct) auto

lemma first_per_command_distinct: "distinct (map hc_command (first_per_command seen hs))"
  by (induction seen hs rule: first_per_command.induct)
    (auto simp: first_per_command_set simp flip: image_image) 

lemma first_per_command_subset: "set (first_per_command seen hs) \<subseteq> set hs"
  by (induction seen hs rule: first_per_command.induct) auto

definition cache_ok :: "(string \<Rightarrow> 'r option) \<Rightarrow> (string, 'r option) gomap \<Rightarrow> bool" where
  "cache_ok compile cache \<longleftrightarrow> (\<forall>p re. map_of cache p = Some re \<longrightarrow> re = compile p)"

lemma matcher_cached:
  assumes "cache_ok compile cache"
  shows "fst (matcher compile h cache) = compile (hc_matcher h)" and "cache_ok compile (snd (matcher compile h cache))"
  using assms by (auto simp: matcher_def cache_ok_def split: option.split)

lemma matching_loop_spec:
  assumes "cache_ok compile cache"
  shows "fst (matching_loop compile matches tool hs seen cache) =
           first_per_command seen (filter (accepts compile matches tool) hs) \<and>
         cache_ok compile (snd (matching_loop compile matches tool hs seen cache))"
  using assms
proof (induction hs arbitrary: seen cache)
  case (Cons h hs)
  obtain re c where m: "matcher compile h cache = (re, c)" by fastforce
  from matcher_cached [OF Cons.prems, of h] m have re: "re = compile (hc_matcher h)" and c: "cache_ok compile c"
    by simp_all
  note IH = Cons.IH [OF Cons.prems] Cons.IH [OF c]
  show ?case
    using IH by (cases re) (auto simp: m re [symmetric] accepts_def split: option.split)
qed simp

text \<open>
  With whatever the matcher cache holds, the hooks that run for an event are those whose
  matcher accepts the tool (or that have none, or the event no tool), one per command, the
  earliest configured one; and the cache stays consistent with the patterns.
\<close>

theorem matching_hooks_selects:
  assumes "cache_ok compile cache"
  shows "fst (matching_hooks compile matches source ev cache) =
      first_per_command [] (filter (accepts compile matches (map_option ht_name (hv_tool ev))) (source (hv_name ev))) \<and>
    distinct (map hc_command (fst (matching_hooks compile matches source ev cache))) \<and>
    hc_command ` set (fst (matching_hooks compile matches source ev cache)) =
      hc_command ` {h \<in> set (source (hv_name ev)). accepts compile matches (map_option ht_name (hv_tool ev)) h} \<and>
    cache_ok compile (snd (matching_hooks compile matches source ev cache))"
  using matching_loop_spec [OF assms, of matches "map_option ht_name (hv_tool ev)" "source (hv_name ev)" "[]"]
  by (simp add: matching_hooks_def first_per_command_distinct first_per_command_set)

definition demo_hooks :: "hook_config list" where
  "demo_hooks = [\<lparr>hc_name = [], hc_matcher = ''bash'', hc_command = ''a'', hc_timeout = 0\<rparr>,
     \<lparr>hc_name = [], hc_matcher = [], hc_command = ''a'', hc_timeout = 0\<rparr>,
     \<lparr>hc_name = ''N'', hc_matcher = ''('', hc_command = ''b'', hc_timeout = 5\<rparr>]"

definition demo_event :: hook_event where
  "demo_event = \<lparr>hv_name = ''PreToolUse'', hv_session = ''s'',
     hv_tool = Some \<lparr>ht_id = ''1'', ht_name = ''bash'', ht_input = ''{}''\<rparr>, hv_response = None, hv_error = [],
     hv_last_message = None, hv_decision = [], hv_source = [], hv_reason = [], hv_trigger = []\<rparr>"

definition demo_compile :: "string \<Rightarrow> string option" where
  "demo_compile p = (if p = ''('' then None else Some p)"

theorem matching_hooks_selects_witness:
  "let src = (\<lambda>_. demo_hooks); tool = map_option ht_name (hv_tool demo_event); cache = [(''('', None)]
   in fst (matching_hooks demo_compile (=) src demo_event cache) =
      first_per_command [] (filter (accepts demo_compile (=) tool) (src (hv_name demo_event))) \<and>
    distinct (map hc_command (fst (matching_hooks demo_compile (=) src demo_event cache))) \<and>
    hc_command ` set (fst (matching_hooks demo_compile (=) src demo_event cache)) =
      hc_command ` {h \<in> set (src (hv_name demo_event)). accepts demo_compile (=) tool h} \<and>
    cache_ok demo_compile (snd (matching_hooks demo_compile (=) src demo_event cache))"
  unfolding Let_def by (rule matching_hooks_selects) (simp add: cache_ok_def demo_compile_def)

subsection \<open>What blocks\<close>

lemma fill_slots:
  assumes "set is \<subseteq> {..<length rs}"
  shows "fold (\<lambda>i rs. rs[i := f i]) is rs = map (\<lambda>i. if i \<in> set is then f i else rs ! i) [0..<length rs]"
  using assms
proof (induction "is" arbitrary: rs)
  case Nil
  then show ?case by (simp add: map_nth)
next
  case (Cons i "is")
  then show ?case by (auto simp: nth_list_update intro!: map_cong)
qed

lemma run_parallel_order:
  assumes "set done = {..<length hooks}"
  shows "run_parallel jd exec done hooks = map (run_one jd \<circ> exec) hooks"
proof -
  have "run_parallel jd exec done hooks = map (\<lambda>i. run_one jd (exec (hooks ! i))) [0..<length hooks]"
    using fill_slots [of "done" "replicate (length hooks) no_opinion" "\<lambda>i. run_one jd (exec (hooks ! i))"] assms
    by (simp add: run_parallel_def)
  also have "\<dots> = map (run_one jd \<circ> exec) hooks" by (rule nth_equalityI) simp_all
  finally show ?thesis .
qed

text \<open>The outcomes of a shell run that deny the action or halt the turn.\<close>

definition blocking :: "json_dec \<Rightarrow> hook_exec \<Rightarrow> bool" where
  "blocking jd ex \<longleftrightarrow>
     (\<exists>err out errout. ex = ExecDone err out errout \<and> err \<noteq> Some Interrupted \<and>
        (err = Some (ExitStatus 2) \<or> err = Some (ExitStatus 49) \<or>
         (\<exists>r. parse_stdout jd out = (r, True) \<and> (hr_decision r = DecisionDeny \<or> hr_halt r))))"

lemma parse_stdout_no_json: "parse_stdout jd out = (r, False) \<Longrightarrow> r = no_opinion"
  by (auto simp: parse_stdout_def Let_def split: if_splits option.splits)

lemma no_opinion_sel [simp]: "hr_decision no_opinion = DecisionNone" "\<not> hr_halt no_opinion"
  by (simp_all add: no_opinion_def)

lemma run_one_blocks: "hr_decision (run_one jd ex) = DecisionDeny \<or> hr_halt (run_one jd ex) \<longleftrightarrow> blocking jd ex"
proof (cases ex)
  case (ExecDone err out errout)
  obtain r j where p: "parse_stdout jd out = (r, j)" by fastforce
  with parse_stdout_no_json [of jd out r] have nj: "\<not> j \<Longrightarrow> r = no_opinion" by simp
  have b: "blocking jd ex \<longleftrightarrow> err \<noteq> Some Interrupted \<and>
      (err = Some (ExitStatus 2) \<or> err = Some (ExitStatus 49) \<or> j \<and> (hr_decision r = DecisionDeny \<or> hr_halt r))"
    unfolding blocking_def ExecDone using p by simp
  show ?thesis
  proof (cases "err = None \<or> err = Some Interrupted")
    case True
    with nj show ?thesis unfolding b by (cases j) (auto simp: ExecDone run_one_def p is_interrupt_def)
  next
    case False
    then obtain x where x: "err = Some x" "x \<noteq> Interrupted" by (cases err) auto
    show ?thesis
    proof (cases "exit_code err = 2 \<or> exit_code err = 49")
      case True
      with x have "x = ExitStatus 2 \<or> x = ExitStatus 49" by (cases x) (auto simp: exit_code_def)
      with x True show ?thesis unfolding b
        by (auto simp: ExecDone run_one_def p is_interrupt_def halt_exit_code_def Let_def)
    next
      case False
      with x have "x \<noteq> ExitStatus 2 \<and> x \<noteq> ExitStatus 49" by (auto simp: exit_code_def)
      with x False nj show ?thesis unfolding b
        by (cases j) (simp_all add: ExecDone run_one_def p is_interrupt_def halt_exit_code_def)
    qed
  qed
qed (simp add: run_one_def blocking_def)

text \<open>
  C22: an event is blocked exactly if some selected hook ran to its end and exited with 2 or 49,
  or printed a JSON object that denies or halts. A hook that times out, is cancelled or
  abandoned, fails otherwise or prints something else never blocks, and the order in which the
  hooks finish does not matter.
\<close>

theorem hooks_block_iff:
  assumes "hooks = fst (matching_hooks compile matches source ev cache)" and "set done = {..<length hooks}"
  shows "blocked (fst (run_hooks je jd compile matches source exec done ev cache)) \<longleftrightarrow>
    (\<exists>h\<in>set hooks. blocking jd (exec h))"
proof -
  obtain c where m: "matching_hooks compile matches source ev cache = (hooks, c)"
    using assms(1) by (cases "matching_hooks compile matches source ev cache") simp
  have upd: "blocked (a\<lparr>ag_hooks := hs\<rparr>) = blocked a" for a hs by (simp add: blocked_def)
  show ?thesis
  proof (cases "hooks = []")
    case True
    then show ?thesis by (simp add: run_hooks_def m blocked_def empty_aggregate_def)
  next
    case False
    then show ?thesis
      using aggregate_facts(3) [of je "map (run_one jd \<circ> exec) hooks"] run_one_blocks [of jd]
      by (simp add: run_hooks_def m upd Let_def run_parallel_order [OF assms(2)])
  qed
qed

theorem hooks_block_iff_witness:
  "let src = (\<lambda>_. demo_hooks); hooks = fst (matching_hooks demo_compile (=) src demo_event []);
       exec = (\<lambda>h. ExecDone (Some (ExitStatus 2)) [] ''no'');
       jd = \<lparr>jd_envelope = \<lambda>_. None, jd_specific = \<lambda>_. None, jd_string = \<lambda>_. None, jd_strings = \<lambda>_. None\<rparr>;
       je = \<lparr>je_is_object = \<lambda>_. True, je_members = \<lambda>_. None, je_set = \<lambda>_ _ _. None, je_order = \<lambda>m. m\<rparr>
   in blocked (fst (run_hooks je jd demo_compile (=) src exec [0] demo_event [])) \<longleftrightarrow>
    (\<exists>h\<in>set hooks. blocking jd (exec h))"
  unfolding Let_def
  by (rule hooks_block_iff [OF refl])
    (simp add: demo_hooks_def demo_event_def demo_compile_def matching_hooks_def matcher_def lessThan_Suc)

subsection \<open>Input patches\<close>

text \<open>
  What is relied on: the members decoded from a patch, and for keys that are \<open>plain\<close> (sjson reads
  \<open>.\<close>, \<open>*\<close>, \<open>|\<close> and the like in a key as a path) that setting a member succeeds on an object,
  keeps it an object, and changes exactly that top-level member. \<open>member out k\<close> is the raw value
  of a top-level member.
\<close>

definition set_law :: "json_edit \<Rightarrow> (string \<Rightarrow> bool) \<Rightarrow> (string \<Rightarrow> string \<Rightarrow> string option) \<Rightarrow> bool" where
  "set_law je plain member \<longleftrightarrow>
     (\<forall>out k v. je_is_object je out \<longrightarrow> plain k \<longrightarrow>
        (\<exists>out'. je_set je out k v = Some out' \<and> out' \<noteq> [] \<and> je_is_object je out' \<and>
           (\<forall>j. member out' j = (if j = k then Some v else member out j))))"

lemma set_all_law:
  assumes law: "set_law je plain member" and "je_is_object je out" and "\<forall>kv\<in>set kvs. plain (fst kv)"
    and "distinct (map fst kvs)"
  shows "\<exists>out'. set_all (je_set je) kvs out = Some out' \<and> je_is_object je out' \<and> (kvs \<noteq> [] \<longrightarrow> out' \<noteq> []) \<and>
    (kvs = [] \<longrightarrow> out' = out) \<and>
    (\<forall>j. member out' j = (case map_of kvs j of Some v \<Rightarrow> Some v | None \<Rightarrow> member out j))"
  using assms(2-4)
proof (induction kvs arbitrary: out)
  case (Cons kv kvs)
  obtain k v where kv: "kv = (k, v)" by (cases kv)
  with Cons.prems law obtain o1 where o1: "je_set je out k v = Some o1" "o1 \<noteq> []" "je_is_object je o1"
      "\<And>j. member o1 j = (if j = k then Some v else member out j)"
    unfolding set_law_def by fastforce
  from Cons.IH [OF o1(3)] Cons.prems kv obtain o2 where o2: "set_all (je_set je) kvs o1 = Some o2"
      "je_is_object je o2" "kvs \<noteq> [] \<longrightarrow> o2 \<noteq> []" "kvs = [] \<longrightarrow> o2 = o1"
      "\<And>j. member o2 j = (case map_of kvs j of Some v \<Rightarrow> Some v | None \<Rightarrow> member o1 j)"
    by auto
  have "map_of kvs k = None" using Cons.prems(3) kv by (simp add: map_of_eq_None_iff)
  with o1 o2 show ?case by (auto simp: kv split: option.split)
qed simp

text \<open>A usable patch: one that decodes to an object with plain keys.\<close>

definition usable :: "json_edit \<Rightarrow> (string \<Rightarrow> bool) \<Rightarrow> string \<Rightarrow> bool" where
  "usable je plain patch \<longleftrightarrow>
     (case je_members je patch of None \<Rightarrow> True | Some m \<Rightarrow> gm_wf m \<and> (\<forall>kv\<in>set m. plain (fst kv)))"

definition patch_value :: "json_edit \<Rightarrow> string \<Rightarrow> hook_result \<Rightarrow> string option" where
  "patch_value je k r =
     (if hr_input r = [] then None else case je_members je (hr_input r) of None \<Rightarrow> None | Some m \<Rightarrow> map_of m k)"

text \<open>The last hook that sets a member decides; else the tool's own input does.\<close>

fun last_patch :: "(hook_result \<Rightarrow> string option) \<Rightarrow> hook_result list \<Rightarrow> string option \<Rightarrow> string option" where
  "last_patch f [] v = v"
| "last_patch f (r # rs) v = last_patch f rs (case f r of None \<Rightarrow> v | Some w \<Rightarrow> Some w)"

lemma map_order_map_of:
  assumes "map_order ord" and "gm_wf m"
  shows "map_of (ord m) = map_of m" and "distinct (map fst (ord m))"
proof -
  show d: "distinct (map fst (ord m))" by (rule map_order_ids [OF assms])
  show "map_of (ord m) = map_of m"
    using assms(2) d map_order_set [OF assms(1), of m]
    by (intro ext) (metis map_of_SomeD map_of_eq_Some_iff not_None_eq)
qed

lemma merge_step:
  assumes law: "set_law je plain member" and ord: "map_order (je_order je)"
    and ok: "je_is_object je base" "base \<noteq> []" and r: "usable je plain (hr_input r)"
  shows "as_merged (agg_patch je r s) = base' \<Longrightarrow> as_merged s = base \<Longrightarrow>
    je_is_object je base' \<and> base' \<noteq> [] \<and>
    (\<forall>k. member base' k = (case patch_value je k r of None \<Rightarrow> member base k | Some v \<Rightarrow> Some v))"
proof -
  assume m: "as_merged (agg_patch je r s) = base'" "as_merged s = base"
  show ?thesis
  proof (cases "hr_input r = [] \<or> je_members je (hr_input r) = None")
    case True
    with m ok have "base' = base" by (auto simp: agg_patch_def shallow_merge_def Let_def split: option.splits)
    with True ok show ?thesis by (auto simp: patch_value_def)
  next
    case False
    then obtain ms where ms: "hr_input r \<noteq> []" "je_members je (hr_input r) = Some ms" by auto
    with r have ms': "gm_wf ms" "\<forall>kv\<in>set ms. plain (fst kv)" by (simp_all add: usable_def)
    note o = map_order_map_of [OF ord ms'(1)]
    have "\<forall>kv\<in>set (je_order je ms). plain (fst kv)" using ms'(2) ord by simp
    from set_all_law [OF law ok(1) this o(2)] obtain out where
      out: "set_all (je_set je) (je_order je ms) base = Some out" "je_is_object je out"
        "je_order je ms \<noteq> [] \<longrightarrow> out \<noteq> []" "je_order je ms = [] \<longrightarrow> out = base"
        "\<And>j. member out j = (case map_of ms j of Some v \<Rightarrow> Some v | None \<Rightarrow> member base j)"
      unfolding o(1) by blast
    have "base' = out" using m ms ok out(1) by (simp add: agg_patch_def shallow_merge_def)
    with out ok(2) ms show ?thesis by (auto simp: patch_value_def split: option.split)
  qed
qed

text \<open>
  The input a tool finally gets: member by member, the value of the last hook whose patch
  has that member, and the original value where no patch has it; a patch that is not a JSON
  object is ignored.
\<close>

theorem patches_merge_in_order:
  assumes "set_law je plain member" and "map_order (je_order je)" and "je_is_object je input" and "input \<noteq> []"
    and "\<forall>r\<in>set rs. usable je plain (hr_input r)"
    and "merged = as_merged (foldl (agg_step je) (agg_init input) rs)"
  shows "ag_input (aggregate_results je rs input) \<in> {[], merged} \<and>
    (\<forall>k. member merged k = last_patch (patch_value je k) rs (member input k))"
proof -
  have "(\<forall>k. member (as_merged (foldl (agg_step je) s rs)) k = last_patch (patch_value je k) rs (member (as_merged s) k))"
    if "je_is_object je (as_merged s)" "as_merged s \<noteq> []" for s
    using assms(5) that
  proof (induction rs arbitrary: s)
    case (Cons r rs)
    let ?t = "agg_texts r (agg_halt r (agg_decide r s))"
    have u: "usable je plain (hr_input r)" and us: "\<forall>r\<in>set rs. usable je plain (hr_input r)"
      using Cons.prems(1) by simp_all
    from merge_step [OF assms(1,2) Cons.prems(2,3) u, of ?t "as_merged (agg_patch je r ?t)"]
    have st: "je_is_object je (as_merged (agg_step je s r)) \<and> as_merged (agg_step je s r) \<noteq> [] \<and>
        (\<forall>k. member (as_merged (agg_step je s r)) k =
           (case patch_value je k r of None \<Rightarrow> member (as_merged s) k | Some v \<Rightarrow> Some v))"
      by (simp add: agg_step_def)
    with Cons.IH [OF us, of "agg_step je s r"] show ?case by simp
  qed simp
  from this [of "agg_init input"] assms(3,4,6)
  show ?thesis by (simp add: agg_init_def aggregate_results_def Let_def)
qed

text \<open>In the witness an object is a brace followed by its only member \<open>a\<close>, if any.\<close>

definition demo_edit :: json_edit where
  "demo_edit = \<lparr>je_is_object = \<lambda>s. has_prefix s ''{'',
     je_members = \<lambda>p. if p = ''bad'' then None else Some [(''a'', p)],
     je_set = \<lambda>out k v. if has_prefix out ''{'' \<and> k = ''a'' then Some (''{a'' @ v) else None,
     je_order = rev\<rparr>"

definition demo_member :: "string \<Rightarrow> string \<Rightarrow> string option" where
  "demo_member out k = (if k = ''a'' \<and> has_prefix out ''{a'' then Some (drop 2 out) else None)"

definition demo_results :: "hook_result list" where
  "demo_results = [no_opinion\<lparr>hr_input := ''1''\<rparr>, no_opinion\<lparr>hr_input := ''bad''\<rparr>, no_opinion]"

theorem patches_merge_in_order_witness:
  "let merged = as_merged (foldl (agg_step demo_edit) (agg_init ''{}'') demo_results)
   in ag_input (aggregate_results demo_edit demo_results ''{}'') \<in> {[], merged} \<and>
    (\<forall>k. demo_member merged k = last_patch (patch_value demo_edit k) demo_results (demo_member ''{}'' k))"
  unfolding Let_def
proof (rule patches_merge_in_order [where plain = "\<lambda>k. k = ''a''"])
  show "set_law demo_edit (\<lambda>k. k = ''a'') demo_member"
    by (simp add: set_law_def demo_edit_def demo_member_def has_prefix_def)
  show "map_order (je_order demo_edit)" by (simp add: demo_edit_def map_order_rev)
qed (simp_all add: demo_edit_def demo_results_def usable_def has_prefix_def)

subsection \<open>Event names\<close>

text \<open>Folding keeps the event names apart, so the table does not depend on the map's order.\<close>

lemma fold_event_distinct: "distinct (map (fold_event \<circ> fst) hook_events)"
  by code_simp

lemma normalize_canonical: "n \<in> fst ` set hook_events \<Longrightarrow> normalize_event n = Some n"
proof -
  assume "n \<in> fst ` set hook_events"
  then obtain b where "(n, b) \<in> set hook_events" by auto
  then have "(fold_event n, n) \<in> set (map (\<lambda>(name, _). (fold_event name, name)) hook_events)" by force
  moreover have "distinct (map fst (map (\<lambda>(name, _). (fold_event name, name)) hook_events))"
    using fold_event_distinct by (simp add: comp_def case_prod_beta)
  ultimately show ?thesis by (simp add: normalize_event_def event_by_key_def)
qed

lemma normalize_canonical_only: "normalize_event s = Some n \<Longrightarrow> n \<in> fst ` set hook_events \<and> fold_event n = fold_event s"
  by (auto simp: normalize_event_def event_by_key_def dest!: map_of_SomeD) force

text \<open>A time-out of more than 9223372036 seconds does not fit the duration: it turns negative.\<close>

lemma timeout_duration_small:
  assumes "0 < hc_timeout h" and "hc_timeout h \<le> 9223372036"
  shows "sint (timeout_duration h) = hc_timeout h * 1000000000"
proof -
  have "timeout_duration h = word_of_int (hc_timeout h * 1000000000)"
    using assms by (simp add: timeout_duration_def)
  moreover have "sint (word_of_int (hc_timeout h * 1000000000) :: u64) = hc_timeout h * 1000000000"
    using assms by (simp only: sint_sbintrunc') (simp add: signed_take_bit_int_eq_self)
  ultimately show ?thesis by simp
qed

end
