(* ===== verification/StringExt.thy ===== *)
theory StringExt
  imports GoLib
begin

text \<open>
  internal/stringext (string.go): cut points that split neither a UTF-8 rune nor an ANSI escape
  sequence, canonical base64, newline and tab normalisation. Strings are byte lists, indices and
  lengths natural numbers (every caller passes non-negative ones); a result of \<open>-1\<close> is \<open>None\<close>.
\<close>

subsection \<open>Bytes\<close>

abbreviation esc_char :: char where
  "esc_char \<equiv> CHR 0x1B"

text \<open>\<open>s[i]&0xC0 == 0x80\<close>: a continuation byte.\<close>

fun cont_byte :: "char \<Rightarrow> bool" where
  "cont_byte (Char b0 b1 b2 b3 b4 b5 b6 b7) \<longleftrightarrow> b7 \<and> \<not> b6"

text \<open>A byte from \<open>@\<close> to \<open>~\<close> ends a control sequence.\<close>

definition csi_final :: "char \<Rightarrow> bool" where
  "csi_final c \<longleftrightarrow> 0x40 \<le> (of_char c :: nat) \<and> (of_char c :: nat) \<le> 0x7E"

text \<open>A cut at \<open>i\<close> splits no rune.\<close>

definition rune_boundary :: "string \<Rightarrow> nat \<Rightarrow> bool" where
  "rune_boundary s i \<longleftrightarrow> i = 0 \<or> length s \<le> i \<or> \<not> cont_byte (s ! i)"

subsection \<open>Rune boundaries\<close>

fun back_off :: "string \<Rightarrow> nat \<Rightarrow> nat" where
  "back_off s 0 = 0"
| "back_off s (Suc n) = (if Suc n < length s \<and> cont_byte (s ! Suc n) then back_off s n else Suc n)"

definition cut_rune_boundary_left :: "string \<Rightarrow> nat \<Rightarrow> nat" where
  "cut_rune_boundary_left s n = back_off s (if length s < n then length s else n)"

definition cut_rune_boundary_right :: "string \<Rightarrow> nat \<Rightarrow> nat" where
  "cut_rune_boundary_right s start = start + length (takeWhile cont_byte (drop start s))"

lemma back_off_le: "back_off s n \<le> n"
  by (induction s n rule: back_off.induct) auto

lemma back_off_boundary: "rune_boundary s (back_off s n)"
  by (induction s n rule: back_off.induct) (auto simp: rune_boundary_def)

lemma cut_left_le: "cut_rune_boundary_left s n \<le> n" "cut_rune_boundary_left s n \<le> length s"
  using back_off_le [of s "length s"] back_off_le [of s n] by (auto simp: cut_rune_boundary_left_def)

lemma cut_left_boundary: "rune_boundary s (cut_rune_boundary_left s n)"
  by (simp add: cut_rune_boundary_left_def back_off_boundary)

lemma cut_right_ge: "start \<le> cut_rune_boundary_right s start"
  by (simp add: cut_rune_boundary_right_def)

lemma cut_right_le: "start \<le> length s \<Longrightarrow> cut_rune_boundary_right s start \<le> length s"
  using length_takeWhile_le [of cont_byte "drop start s"] by (simp add: cut_rune_boundary_right_def)

lemma cut_right_boundary: "start \<le> length s \<Longrightarrow> rune_boundary s (cut_rune_boundary_right s start)"
proof -
  assume le: "start \<le> length s"
  let ?k = "length (takeWhile cont_byte (drop start s))"
  show ?thesis
  proof (cases "?k < length (drop start s)")
    case True
    then have "\<not> cont_byte (drop start s ! ?k)" by (rule nth_length_takeWhile)
    with le True show ?thesis by (simp add: rune_boundary_def cut_rune_boundary_right_def)
  next
    case False
    with le have "length s \<le> cut_rune_boundary_right s start"
      by (simp add: cut_rune_boundary_right_def)
    then show ?thesis by (simp add: rune_boundary_def)
  qed
qed

subsection \<open>Escape sequences\<close>

fun scan_csi :: "nat \<Rightarrow> string \<Rightarrow> nat option" where
  "scan_csi i [] = None"
| "scan_csi i (c # cs) = (if csi_final c then Some (Suc i) else scan_csi (Suc i) cs)"

fun scan_string :: "nat \<Rightarrow> char \<Rightarrow> string \<Rightarrow> nat option" where
  "scan_string i prev [] = None"
| "scan_string i prev (c # cs) =
     (if c = CHR 0x07 then Some (Suc i)
      else if c = CHR 0x5C \<and> prev = esc_char then Some (Suc i)
      else scan_string (Suc i) c cs)"

definition string_intro :: "char \<Rightarrow> bool" where
  "string_intro c \<longleftrightarrow> List.member '']PX^_'' c"

definition charset_intro :: "char \<Rightarrow> bool" where
  "charset_intro c \<longleftrightarrow> List.member ''()*+#%'' c"

definition ansi_end :: "string \<Rightarrow> nat option" where
  "ansi_end seq =
     (if length seq < 2 then None
      else let c = seq ! 1 in
        if c = CHR ''['' then scan_csi 2 (drop 2 seq)
        else if string_intro c then scan_string 2 c (drop 2 seq)
        else if charset_intro c then (if 3 \<le> length seq then Some 3 else None)
        else Some 2)"

definition ansi_terminated :: "string \<Rightarrow> bool" where
  "ansi_terminated seq \<longleftrightarrow> (case ansi_end seq of None \<Rightarrow> False | Some n \<Rightarrow> 0 < n)"

text \<open>\<open>strings.LastIndex(s, "\x1b")\<close>.\<close>

fun last_esc :: "string \<Rightarrow> nat option" where
  "last_esc [] = None"
| "last_esc (c # cs) =
     (case last_esc cs of Some i \<Rightarrow> Some (Suc i) | None \<Rightarrow> if c = esc_char then Some 0 else None)"

definition cut_ansi_safe_left :: "string \<Rightarrow> nat \<Rightarrow> nat" where
  "cut_ansi_safe_left s n0 =
     (let n = cut_rune_boundary_left s n0
      in case last_esc (take n s) of
           None \<Rightarrow> n
         | Some e \<Rightarrow> if ansi_terminated (drop e (take n s)) then n else e)"

definition cut_ansi_safe_right :: "string \<Rightarrow> nat \<Rightarrow> nat" where
  "cut_ansi_safe_right s start0 =
     (let start = cut_rune_boundary_right s start0
      in case last_esc (take start s) of
           None \<Rightarrow> start
         | Some e \<Rightarrow>
             if ansi_terminated (drop e (take start s)) then start
             else (case ansi_end (drop e s) of Some k \<Rightarrow> e + k | None \<Rightarrow> length s))"

lemma last_esc_Some: "last_esc s = Some i \<Longrightarrow> i < length s \<and> s ! i = esc_char \<and> esc_char \<notin> set (drop (Suc i) s)"
proof (induction s arbitrary: i)
  case (Cons c cs)
  show ?case
  proof (cases "last_esc cs")
    case None
    moreover have "last_esc cs = None \<Longrightarrow> esc_char \<notin> set cs"
      by (induction cs) (auto split: option.splits if_splits)
    ultimately show ?thesis using Cons.prems by (auto split: if_splits)
  next
    case (Some j)
    with Cons.prems have "i = Suc j" by simp
    with Cons.IH [OF Some] show ?thesis by simp
  qed
qed simp

lemma last_esc_None: "last_esc s = None \<longleftrightarrow> esc_char \<notin> set s"
  by (induction s) (auto split: option.splits if_splits)

lemma scan_csi_bounds: "scan_csi i cs = Some k \<Longrightarrow> i < k \<and> k \<le> i + length cs"
  by (induction i cs rule: scan_csi.induct) (auto split: if_splits)

lemma scan_string_bounds: "scan_string i p cs = Some k \<Longrightarrow> i < k \<and> k \<le> i + length cs"
  by (induction i p cs rule: scan_string.induct) (auto split: if_splits)

lemma ansi_end_bounds: "ansi_end seq = Some k \<Longrightarrow> 2 \<le> k \<and> k \<le> length seq"
  by (auto simp: ansi_end_def Let_def split: if_splits dest!: scan_csi_bounds scan_string_bounds)

text \<open>Reading further never moves the end of a sequence that has ended.\<close>

lemma scan_csi_append: "scan_csi i cs = Some k \<Longrightarrow> scan_csi i (cs @ ds) = Some k"
  by (induction i cs rule: scan_csi.induct) auto

lemma scan_string_append: "scan_string i p cs = Some k \<Longrightarrow> scan_string i p (cs @ ds) = Some k"
  by (induction i p cs rule: scan_string.induct) auto

lemma ansi_end_append: "ansi_end seq = Some k \<Longrightarrow> ansi_end (seq @ ds) = Some k"
proof -
  assume e: "ansi_end seq = Some k"
  then have "2 \<le> length seq" using ansi_end_bounds [of seq k] by simp
  then obtain a b r where seq: "seq = a # b # r" by (metis Suc_le_length_iff numeral_2_eq_2)
  from e show ?thesis unfolding seq
    by (simp add: ansi_end_def scan_csi_append scan_string_append split: if_splits)
qed

lemma ansi_terminated_iff: "ansi_terminated seq \<longleftrightarrow> ansi_end seq \<noteq> None"
  using ansi_end_bounds [of seq] by (auto simp: ansi_terminated_def split: option.split)

lemma cut_left_spec:
  assumes "p = cut_ansi_safe_left s n"
  shows "p \<le> n \<and> p \<le> length s \<and> rune_boundary s p \<and>
    (\<forall>e. last_esc (take (cut_rune_boundary_left s n) s) = Some e \<longrightarrow>
       p = e \<or> (e < p \<and> ansi_end (drop e (take p s)) \<noteq> None))"
proof -
  let ?n = "cut_rune_boundary_left s n"
  note le = cut_left_le [of s n] and b = cut_left_boundary [of s n]
  show ?thesis
  proof (cases "last_esc (take ?n s)")
    case None
    with le b assms show ?thesis by (simp add: cut_ansi_safe_left_def)
  next
    case (Some e)
    have e: "e < ?n" using last_esc_Some [OF Some] by simp
    then have "s ! e = esc_char" using last_esc_Some [OF Some] by simp
    then have "rune_boundary s e" using e by (simp add: rune_boundary_def)
    with Some le b e assms show ?thesis
      by (auto simp: cut_ansi_safe_left_def Let_def ansi_terminated_iff)
  qed
qed

lemma cut_left_bounds:
  "cut_ansi_safe_left s n \<le> n" "cut_ansi_safe_left s n \<le> length s" "rune_boundary s (cut_ansi_safe_left s n)"
  using cut_left_spec [OF refl, of s n] by simp_all

text \<open>
  The left cut is at most \<open>n\<close>, on a rune boundary, and does not split the last escape
  sequence that begins before it: there is none, or it has ended by then.
\<close>

theorem cut_left_safe:
  assumes "p = cut_ansi_safe_left s n"
  shows "p \<le> n \<and> p \<le> length s \<and> rune_boundary s p \<and>
    (\<forall>e. last_esc (take (cut_rune_boundary_left s n) s) = Some e \<longrightarrow>
       p = e \<or> (e < p \<and> ansi_end (drop e (take p s)) \<noteq> None))"
  using assms by (rule cut_left_spec)

theorem cut_left_safe_witness:
  "let s = ''ab'' @ [esc_char] @ ''[31mred''
   in 2 = cut_ansi_safe_left s 5 \<and>
    (2::nat) \<le> 5 \<and> 2 \<le> length s \<and> rune_boundary s 2 \<and>
    (\<forall>e. last_esc (take (cut_rune_boundary_left s 5) s) = Some e \<longrightarrow>
       2 = e \<or> (e < 2 \<and> ansi_end (drop e (take 2 s)) \<noteq> None))"
proof -
  have "2 = cut_ansi_safe_left (''ab'' @ [esc_char] @ ''[31mred'') 5" by code_simp
  from this cut_left_safe [OF this] show ?thesis unfolding Let_def by blast
qed

text \<open>
  The cut is only checked against the last escape byte before it. If that byte is the
  first half of the string terminator of a hyperlink or title, the cut goes just before it, and
  leaves the sequence it should have ended without its end.
\<close>

lemma cut_left_leaves_open_string:
  "let s = [esc_char] @ '']0;t'' @ [esc_char, CHR 0x5C] @ ''x''; p = cut_ansi_safe_left s 6
   in p = 5 \<and> take p s = [esc_char] @ '']0;t'' \<and> \<not> ansi_terminated (take p s) \<and> ansi_terminated s"
  by code_simp

lemma scan_csi_take: "scan_csi i cs = Some k \<Longrightarrow> k \<le> i + m \<Longrightarrow> scan_csi i (take m cs) = Some k"
proof (induction i cs arbitrary: m rule: scan_csi.induct)
  case (2 i c cs)
  then show ?case using scan_csi_bounds [of "Suc i" cs k] by (cases m) (auto split: if_splits)
qed simp

lemma scan_string_take: "scan_string i p cs = Some k \<Longrightarrow> k \<le> i + m \<Longrightarrow> scan_string i p (take m cs) = Some k"
proof (induction i p cs arbitrary: m rule: scan_string.induct)
  case (2 i p c cs)
  then show ?case using scan_string_bounds [of "Suc i" c cs k] by (cases m) (auto split: if_splits)
qed simp

lemma ansi_end_take: "ansi_end seq = Some k \<Longrightarrow> k \<le> m \<Longrightarrow> ansi_end (take m seq) = Some k"
  using ansi_end_bounds [of seq k]
  by (auto simp: ansi_end_def Let_def drop_take split: if_splits
      intro!: scan_csi_take scan_string_take)

text \<open>The right cut starts no earlier than asked for, and stays inside the string.\<close>

lemma cut_right_safe:
  assumes "start \<le> length s"
  shows "start \<le> cut_ansi_safe_right s start \<and> cut_ansi_safe_right s start \<le> length s"
proof -
  let ?t = "cut_rune_boundary_right s start"
  note t = cut_right_ge [of start s] cut_right_le [OF assms]
  show ?thesis
  proof (cases "last_esc (take ?t s)")
    case None
    with t show ?thesis by (simp add: cut_ansi_safe_right_def)
  next
    case (Some e)
    from last_esc_Some [OF Some] t have e: "e < ?t" by simp
    show ?thesis
    proof (cases "ansi_terminated (drop e (take ?t s))")
      case True
      with Some t show ?thesis by (simp add: cut_ansi_safe_right_def)
    next
      case open_seq: False
      show ?thesis
      proof (cases "ansi_end (drop e s)")
        case None
        with Some open_seq t show ?thesis by (simp add: cut_ansi_safe_right_def)
      next
        case ends: (Some k)
        have "e \<le> length s" using e t(2) by linarith
        with ansi_end_bounds [OF ends] have k: "e + k \<le> length s" by (simp add: le_diff_conv2)
        have "?t - e < k"
          using ansi_end_take [OF ends, of "?t - e"] open_seq
          by (force simp: ansi_terminated_iff drop_take)
        with Some open_seq ends t k e show ?thesis by (simp add: cut_ansi_safe_right_def)
      qed
    qed
  qed
qed

text \<open>
  An escape byte followed by a rune of several bytes is taken for a sequence of two bytes, and
  the right cut then falls inside that rune.
\<close>

lemma cut_right_splits_rune:
  "cut_ansi_safe_right [esc_char, CHR 0xC3, CHR 0xA9] 1 = 2 \<and> \<not> rune_boundary [esc_char, CHR 0xC3, CHR 0xA9] 2"
  by code_simp

subsection \<open>Normalisation\<close>

text \<open>\<open>strings.ReplaceAll\<close> with a separator that is not empty, and \<open>strings.Trim(s, "\n")\<close>.\<close>

fun replace_crlf :: "string \<Rightarrow> string" where
  "replace_crlf (a # b # s) =
     (if a = CHR 0x0D \<and> b = CHR 0x0A then CHR 0x0A # replace_crlf s else a # replace_crlf (b # s))"
| "replace_crlf s = s"

definition replace_tabs :: "string \<Rightarrow> string" where
  "replace_tabs s = concat (map (\<lambda>c. if c = CHR 0x09 then ''    '' else [c]) s)"

definition trim_newlines :: "string \<Rightarrow> string" where
  "trim_newlines s = rev (dropWhile (\<lambda>c. c = CHR 0x0A) (rev (dropWhile (\<lambda>c. c = CHR 0x0A) s)))"

definition normalize_space :: "string \<Rightarrow> string" where
  "normalize_space s = trim_newlines (replace_tabs (replace_crlf s))"

lemma trim_newlines_subset: "set (trim_newlines s) \<subseteq> set s"
  by (auto simp: trim_newlines_def dest!: set_dropWhileD)

lemma replace_tabs_none: "CHR 0x09 \<notin> set (replace_tabs s)"
  by (auto simp: replace_tabs_def)

lemma normalize_space_no_tabs: "CHR 0x09 \<notin> set (normalize_space s)"
  using trim_newlines_subset replace_tabs_none by (auto simp: normalize_space_def)

subsection \<open>Base64\<close>

text \<open>
  Standard base64 with padding. A sextet is six bits, most significant first; a byte is a
  character. The decoder skips line breaks and, as the standard library's, does not look at the
  bits of the last sextet that belong to no byte.
\<close>

type_synonym sextet = "bool \<times> bool \<times> bool \<times> bool \<times> bool \<times> bool"

definition b64_alphabet :: string where
  "b64_alphabet = ''ABCDEFGHIJKLMNOPQRSTUVWXYZabcdefghijklmnopqrstuvwxyz0123456789+/''"

definition bits :: "bool list" where
  "bits = [False, True]"

lemma bits_all: "set bits = UNIV"
  by (auto simp: bits_def)

definition sextets :: "sextet list" where
  "sextets = [(a, b, c, d, e, f). a \<leftarrow> bits, b \<leftarrow> bits, c \<leftarrow> bits, d \<leftarrow> bits, e \<leftarrow> bits, f \<leftarrow> bits]"

definition b64_char :: "sextet \<Rightarrow> char" where
  "b64_char x = the (map_of (zip sextets b64_alphabet) x)"

definition b64_value :: "char \<Rightarrow> sextet option" where
  "b64_value c = map_of (zip b64_alphabet sextets) c"

fun b64_encode :: "string \<Rightarrow> string" where
  "b64_encode [] = []"
| "b64_encode [Char a0 a1 a2 a3 a4 a5 a6 a7] =
     [b64_char (a7, a6, a5, a4, a3, a2), b64_char (a1, a0, False, False, False, False), CHR ''='', CHR ''='']"
| "b64_encode [Char a0 a1 a2 a3 a4 a5 a6 a7, Char b0 b1 b2 b3 b4 b5 b6 b7] =
     [b64_char (a7, a6, a5, a4, a3, a2), b64_char (a1, a0, b7, b6, b5, b4),
      b64_char (b3, b2, b1, b0, False, False), CHR ''='']"
| "b64_encode (Char a0 a1 a2 a3 a4 a5 a6 a7 # Char b0 b1 b2 b3 b4 b5 b6 b7 # Char c0 c1 c2 c3 c4 c5 c6 c7 # s) =
     b64_char (a7, a6, a5, a4, a3, a2) # b64_char (a1, a0, b7, b6, b5, b4) #
     b64_char (b3, b2, b1, b0, c7, c6) # b64_char (c5, c4, c3, c2, c1, c0) # b64_encode s"

definition byte1 :: "sextet \<Rightarrow> sextet \<Rightarrow> char" where
  "byte1 x y = (case (x, y) of ((a7, a6, a5, a4, a3, a2), (a1, a0, _)) \<Rightarrow> Char a0 a1 a2 a3 a4 a5 a6 a7)"

definition byte2 :: "sextet \<Rightarrow> sextet \<Rightarrow> char" where
  "byte2 y z = (case (y, z) of ((_, _, b7, b6, b5, b4), (b3, b2, b1, b0, _)) \<Rightarrow> Char b0 b1 b2 b3 b4 b5 b6 b7)"

definition byte3 :: "sextet \<Rightarrow> sextet \<Rightarrow> char" where
  "byte3 z w = (case (z, w) of ((_, _, _, _, c7, c6), (c5, c4, c3, c2, c1, c0)) \<Rightarrow> Char c0 c1 c2 c3 c4 c5 c6 c7)"

fun b64_quanta :: "string \<Rightarrow> string option" where
  "b64_quanta [] = Some []"
| "b64_quanta (p # q # r # t # s) =
     (case (b64_value p, b64_value q) of
        (Some x, Some y) \<Rightarrow>
          (if r = CHR ''='' then (if t = CHR ''='' \<and> s = [] then Some [byte1 x y] else None)
           else (case b64_value r of
                   None \<Rightarrow> None
                 | Some z \<Rightarrow>
                     if t = CHR ''='' then (if s = [] then Some [byte1 x y, byte2 y z] else None)
                     else (case b64_value t of
                             None \<Rightarrow> None
                           | Some w \<Rightarrow>
                               (case b64_quanta s of
                                  None \<Rightarrow> None
                                | Some bs \<Rightarrow> Some (byte1 x y # byte2 y z # byte3 z w # bs)))))
      | _ \<Rightarrow> None)"
| "b64_quanta _ = None"

definition b64_decode :: "string \<Rightarrow> string option" where
  "b64_decode s = b64_quanta (filter (\<lambda>c. c \<noteq> CHR 0x0D \<and> c \<noteq> CHR 0x0A) s)"

definition is_valid_base64 :: "string \<Rightarrow> bool" where
  "is_valid_base64 s =
     (if s = [] then False
      else (case b64_decode s of None \<Rightarrow> False | Some d \<Rightarrow> b64_encode d = s))"

lemma sextets_all: "x \<in> set sextets"
  by (cases x) (simp add: sextets_def bits_all image_iff)

lemma b64_tables:
  "list_all (\<lambda>x. b64_value (b64_char x) = Some x \<and> b64_char x \<noteq> CHR ''='' \<and> b64_char x \<noteq> CHR 0x0D \<and>
     b64_char x \<noteq> CHR 0x0A) sextets"
  by code_simp

lemma b64_char_simps [simp]:
  "b64_value (b64_char x) = Some x" "b64_char x \<noteq> CHR ''=''" "b64_char x \<noteq> CHR 0x0D" "b64_char x \<noteq> CHR 0x0A"
  using b64_tables sextets_all [of x] by (auto simp: list_all_iff)

lemma b64_no_breaks: "filter (\<lambda>c. c \<noteq> CHR 0x0D \<and> c \<noteq> CHR 0x0A) (b64_encode bs) = b64_encode bs"
  by (induction bs rule: b64_encode.induct) simp_all

lemma b64_quanta_encode: "b64_quanta (b64_encode bs) = Some bs"
  by (induction bs rule: b64_encode.induct) (simp_all add: byte1_def byte2_def byte3_def)

text \<open>
  Decoding what was encoded gives the bytes back, and \<open>IsValidBase64\<close> accepts exactly the
  strings the encoder produces, except the empty one: no white space, no missing padding, no
  stray bits.
\<close>

theorem base64_canonical:
  "b64_decode (b64_encode bs) = Some bs \<and> (is_valid_base64 s \<longleftrightarrow> s \<noteq> [] \<and> (\<exists>d. s = b64_encode d))"
proof -
  have rt: "b64_decode (b64_encode d) = Some d" for d
    by (simp add: b64_decode_def b64_no_breaks b64_quanta_encode)
  then show ?thesis
    by (auto simp: is_valid_base64_def split: option.split)
qed

end
