(* ===== verification/OutputBounds.thy ===== *)
theory OutputBounds
  imports StringExt
begin

text \<open>
  Bounds on command and tool output: the capped buffer and the head-and-tail truncation of
  internal/shell (capped_buffer.go, truncate.go) and internal/agent/tools/truncate.go.

  Writing a spill file and stripping escape sequences (\<open>ansi.Strip\<close>) are arguments. The limits of
  the code are the constants below; the routines take them as arguments where the code uses
  constants, so that small instances can be evaluated.
\<close>

subsection \<open>UTF-8\<close>

definition byte_val :: "char \<Rightarrow> nat" where
  "byte_val c = of_char c"

text \<open>\<open>utf8.RuneStart\<close> and \<open>utf8.FullRune\<close> (an invalid encoding counts as a full rune).\<close>

definition rune_start :: "char \<Rightarrow> bool" where
  "rune_start c \<longleftrightarrow> \<not> cont_byte c"

definition rune_size :: "char \<Rightarrow> nat" where
  "rune_size c = (let b = byte_val c in
     if b < 0xC2 then 1 else if b < 0xE0 then 2 else if b < 0xF0 then 3 else if b < 0xF5 then 4 else 1)"

definition second_ok :: "char \<Rightarrow> char \<Rightarrow> bool" where
  "second_ok c d =
     (let b = byte_val c; x = byte_val d;
          lo = (if b = 0xE0 then 0xA0 else if b = 0xF0 then 0x90 else 0x80);
          hi = (if b = 0xED then 0x9F else if b = 0xF4 then 0x8F else 0xBF)
      in lo \<le> x \<and> x \<le> hi)"

definition full_rune :: "string \<Rightarrow> bool" where
  "full_rune p =
     (case p of
        [] \<Rightarrow> False
      | c # cs \<Rightarrow>
          rune_size c \<le> length p \<or>
          (case cs of
             [] \<Rightarrow> False
           | d # ds \<Rightarrow> \<not> second_ok c d \<or> (case ds of [] \<Rightarrow> False | e # _ \<Rightarrow> \<not> cont_byte e)))"

subsection \<open>The capped buffer\<close>

record capped_buffer =
  cb_half :: nat
  cb_head :: string
  cb_ring :: string
  cb_next :: nat
  cb_dropped :: nat

definition new_capped_buffer :: "nat \<Rightarrow> capped_buffer" where
  "new_capped_buffer limit = \<lparr>cb_half = limit div 2, cb_head = [], cb_ring = [], cb_next = 0, cb_dropped = 0\<rparr>"

text \<open>
  The copy loop of \<open>Write\<close>. With room in the ring every turn copies at least one byte; the
  guard \<open>cb_half b \<le> cb_next b\<close> (a ring without room, on which Go's \<open>%\<close> would panic or the loop
  not end) is excluded by the invariant below.
\<close>

definition ring_copy :: "string \<Rightarrow> capped_buffer \<Rightarrow> nat \<times> capped_buffer" where
  "ring_copy p b =
     (let c = min (length (cb_ring b) - cb_next b) (length p)
      in (c, b\<lparr>cb_ring := take (cb_next b) (cb_ring b) @ take c p @ drop (cb_next b + c) (cb_ring b),
               cb_dropped := cb_dropped b + c, cb_next := (cb_next b + c) mod cb_half b\<rparr>))"

function ring_loop :: "string \<Rightarrow> capped_buffer \<Rightarrow> capped_buffer" where
  "ring_loop p b =
     (if p = [] \<or> length (cb_ring b) \<le> cb_next b then b
      else ring_loop (drop (fst (ring_copy p b)) p) (snd (ring_copy p b)))"
  by auto
termination
  by (relation "measure (\<lambda>(p, b). length p)") (auto simp: ring_copy_def Let_def)

declare ring_loop.simps [simp del]

definition cb_write_tail :: "string \<Rightarrow> capped_buffer \<Rightarrow> capped_buffer" where
  "cb_write_tail p b =
     (let fill = min (cb_half b - length (cb_ring b)) (length p);
          b1 = b\<lparr>cb_ring := cb_ring b @ take fill p\<rparr>;
          p1 = drop fill p;
          over = length p1 - cb_half b
      in ring_loop (drop over p1) (b1\<lparr>cb_dropped := cb_dropped b1 + over\<rparr>))"

definition cb_write :: "string \<Rightarrow> capped_buffer \<Rightarrow> capped_buffer" where
  "cb_write p b =
     (let n = min (cb_half b - length (cb_head b)) (length p)
      in cb_write_tail (drop n p) (b\<lparr>cb_head := cb_head b @ take n p\<rparr>))"

text \<open>\<open>String\<close>: what is kept of the head and the tail, and the marker in between.\<close>

definition cb_tail :: "capped_buffer \<Rightarrow> string" where
  "cb_tail b = drop (cb_next b) (cb_ring b) @ take (cb_next b) (cb_ring b)"

fun seam_start :: "string \<Rightarrow> nat \<Rightarrow> nat" where
  "seam_start h 0 = 0"
| "seam_start h (Suc i) =
     (if length h - Suc i < 4 \<and> \<not> rune_start (h ! Suc i) then seam_start h i else Suc i)"

definition trim_head :: "string \<Rightarrow> string" where
  "trim_head h =
     (if h = [] then []
      else let start = seam_start h (length h - 1)
           in if \<not> full_rune (drop start h) then take start h else h)"

definition tail_skip :: "string \<Rightarrow> nat" where
  "tail_skip t = length (takeWhile (\<lambda>c. \<not> rune_start c) (take 3 t))"

definition cb_string :: "capped_buffer \<Rightarrow> string" where
  "cb_string b =
     (if cb_dropped b = 0 then cb_head b @ cb_tail b
      else let head = trim_head (cb_head b);
               skip = tail_skip (cb_tail b);
               dropped = cb_dropped b + (length (cb_head b) - length head + skip)
           in head @ [CHR 0x0A, CHR 0x0A] @ ''... ['' @ nat_str dropped @ '' bytes truncated] ...'' @
              [CHR 0x0A, CHR 0x0A] @ drop skip (cb_tail b))"

text \<open>
  The specification: after writing \<open>w\<close> in any number of pieces the head is its first half, the
  tail the last half of the rest, and \<open>dropped\<close> counts what lies between.
\<close>

definition tail_holds :: "nat \<Rightarrow> string \<Rightarrow> capped_buffer \<Rightarrow> bool" where
  "tail_holds half x b \<longleftrightarrow> cb_half b = half \<and> cb_tail b = drop (length x - half) x \<and>
     cb_dropped b = length x - half \<and> length (cb_ring b) = min half (length x) \<and>
     cb_next b < half \<and> (length x < half \<longrightarrow> cb_next b = 0)"

definition cb_holds :: "nat \<Rightarrow> string \<Rightarrow> capped_buffer \<Rightarrow> bool" where
  "cb_holds half w b \<longleftrightarrow> cb_head b = take half w \<and> tail_holds half (drop half w) b"

lemma ring_copy_tail:
  assumes "cb_next b < length (cb_ring b)" and "length (cb_ring b) = cb_half b" and "ring_copy p b = (c, b')"
  shows "cb_tail b' = drop c (cb_tail b) @ take c p" and "length (cb_ring b') = cb_half b"
    and "cb_next b' < cb_half b" and "cb_dropped b' = cb_dropped b + c" and "cb_head b' = cb_head b"
    and "cb_half b' = cb_half b" and "c \<le> length p" and "p \<noteq> [] \<Longrightarrow> 0 < c" and "c \<le> cb_half b - cb_next b"
proof -
  have c: "c = min (cb_half b - cb_next b) (length p)" using assms(2,3) by (simp add: ring_copy_def Let_def)
  let ?r = "take (cb_next b) (cb_ring b) @ take c p @ drop (cb_next b + c) (cb_ring b)"
  have b': "b' = b\<lparr>cb_ring := ?r, cb_dropped := cb_dropped b + c, cb_next := (cb_next b + c) mod cb_half b\<rparr>"
    using assms(2,3) by (simp add: ring_copy_def Let_def c)
  have le: "cb_next b + c \<le> cb_half b" using assms(1,2) c by auto
  have len: "length (take c p) = c" by (simp add: c)
  show "length (cb_ring b') = cb_half b" using assms(1,2) le len by (simp add: b')
  show "cb_next b' < cb_half b" using assms(1,2) by (simp add: b')
  show "cb_tail b' = drop c (cb_tail b) @ take c p"
  proof (cases "cb_next b + c = cb_half b")
    case True
    then show ?thesis using assms(1,2) len by (simp add: b' cb_tail_def)
  next
    case False
    with le have "(cb_next b + c) mod cb_half b = cb_next b + c" by simp
    with assms(1,2) len le False show ?thesis by (simp add: b' cb_tail_def add.commute)
  qed
  show "cb_dropped b' = cb_dropped b + c" "cb_head b' = cb_head b" "cb_half b' = cb_half b" by (simp_all add: b')
  show "c \<le> length p" "c \<le> cb_half b - cb_next b" by (simp_all add: c)
  show "0 < c" if "p \<noteq> []" using that assms(1,2) by (simp add: c)
qed

lemma ring_loop_tail:
  assumes "length (cb_ring b) = cb_half b" and "cb_next b < cb_half b" and "length p \<le> cb_half b"
  shows "cb_tail (ring_loop p b) = drop (length p) (cb_tail b) @ p \<and>
    length (cb_ring (ring_loop p b)) = cb_half b \<and> cb_next (ring_loop p b) < cb_half b \<and>
    cb_dropped (ring_loop p b) = cb_dropped b + length p \<and> cb_head (ring_loop p b) = cb_head b \<and>
    cb_half (ring_loop p b) = cb_half b"
  using assms
proof (induction p b rule: ring_loop.induct)
  case (1 p b)
  show ?case
  proof (cases "p = []")
    case True
    then show ?thesis using 1(2-4) by (simp add: ring_loop.simps)
  next
    case False
    obtain c b' where rc: "ring_copy p b = (c, b')" by fastforce
    have nx: "cb_next b < length (cb_ring b)" using 1(2,3) by simp
    note r = ring_copy_tail [OF nx 1(2) rc]
    have unf: "ring_loop p b = ring_loop (drop c p) b'"
      using False nx by (subst ring_loop.simps) (simp add: rc)
    have IH: "cb_tail (ring_loop (drop c p) b') = drop (length (drop c p)) (cb_tail b') @ drop c p \<and>
        length (cb_ring (ring_loop (drop c p) b')) = cb_half b' \<and> cb_next (ring_loop (drop c p) b') < cb_half b' \<and>
        cb_dropped (ring_loop (drop c p) b') = cb_dropped b' + length (drop c p) \<and>
        cb_head (ring_loop (drop c p) b') = cb_head b' \<and> cb_half (ring_loop (drop c p) b') = cb_half b'"
      using 1(1) [unfolded rc fst_conv snd_conv] False nx r 1(4) by simp
    have lt: "length (cb_tail b) = cb_half b" using 1(2,3) by (simp add: cb_tail_def)
    have "drop (length p - c) (drop c (cb_tail b) @ take c p) @ drop c p = drop (length p) (cb_tail b) @ p"
    proof -
      have "length p - c \<le> length (drop c (cb_tail b))" using lt 1(4) r(7) by simp
      then have "drop (length p - c) (drop c (cb_tail b) @ take c p) = drop (length p) (cb_tail b) @ take c p"
        using r(7) by (simp add: add.commute)
      then show ?thesis by simp
    qed
    with IH r unf show ?thesis by simp
  qed
qed

text \<open>One \<open>Write\<close> appends to the stream the buffer stands for.\<close>

lemma write_tail_holds:
  assumes h: "tail_holds half x b" and pos: "0 < half"
  shows "tail_holds half (x @ p) (cb_write_tail p b)" and "cb_head (cb_write_tail p b) = cb_head b"
proof -
  note t = h [unfolded tail_holds_def]
  define fill where "fill = min (half - length (cb_ring b)) (length p)"
  define b1 where "b1 = b\<lparr>cb_ring := cb_ring b @ take fill p\<rparr>"
  define p1 where "p1 = drop fill p"
  define over where "over = length p1 - half"
  define b2 where "b2 = b1\<lparr>cb_dropped := cb_dropped b1 + over\<rparr>"
  have wr: "cb_write_tail p b = ring_loop (drop over p1) b2"
    using t by (simp add: cb_write_tail_def Let_def fill_def b1_def p1_def over_def b2_def)
  have sel: "cb_half b2 = half" "cb_next b2 = cb_next b" "cb_head b2 = cb_head b"
      "cb_dropped b2 = length x - half + over" "cb_ring b2 = cb_ring b @ take fill p"
    using t by (simp_all add: b2_def b1_def)
  have tail2: "cb_tail b2 = drop (length x - half) x @ take fill p"
  proof (cases "length x < half")
    case True
    with t have "cb_next b = 0" "cb_tail b = x" by simp_all
    then have "cb_ring b = x" by (simp add: cb_tail_def)
    with True \<open>cb_next b = 0\<close> show ?thesis by (simp add: cb_tail_def sel)
  next
    case False
    with t have "fill = 0" by (simp add: fill_def)
    with t show ?thesis by (simp add: cb_tail_def sel)
  qed
  have "tail_holds half (x @ p) (cb_write_tail p b) \<and> cb_head (cb_write_tail p b) = cb_head b"
  proof (cases "p1 = []")
    case True
    then have lp: "length p \<le> half - length (cb_ring b)" and fp: "take fill p = p"
      by (auto simp: p1_def fill_def)
    have res: "cb_write_tail p b = b2" using True by (simp add: wr ring_loop.simps)
    have "over = 0" using True by (simp add: over_def)
    have eqs: "length x - half = length (x @ p) - half \<and>
        drop (length x - half) x @ p = drop (length (x @ p) - half) (x @ p) \<and>
        length (cb_ring b) + length p = min half (length (x @ p))"
      using t lp by (cases "half \<le> length x") auto
    then have c: "cb_tail b2 = drop (length (x @ p) - half) (x @ p)" unfolding tail2 fp by blast
    from eqs have e: "length x - half = length (x @ p) - half"
        "length (cb_ring b) + length p = min half (length (x @ p))" by blast+
    show ?thesis
      using t \<open>over = 0\<close> c e by (simp_all add: tail_holds_def res sel fp)
  next
    case False
    then have full: "fill = half - length (cb_ring b)" and lf: "half - length (cb_ring b) < length p"
      by (auto simp: p1_def fill_def min_def split: if_splits)
    have ring2: "length (cb_ring b2) = cb_half b2" using t lf by (simp add: sel full)
    have nx: "cb_next b2 < cb_half b2" using t by (simp add: sel)
    have lo: "length (drop over p1) \<le> cb_half b2" by (simp add: over_def sel)
    note r = ring_loop_tail [OF ring2 nx lo]
    have lt2: "length (cb_tail b2) = half" using ring2 nx by (simp add: cb_tail_def sel(1))
    have all: "cb_tail b2 @ p1 = drop (length x - half) (x @ p)"
      unfolding tail2 by (simp add: p1_def)
    have len_all: "half + length p1 = length (x @ p) - (length x - half)"
      using arg_cong [OF all, of length] lt2 by simp
    have "drop (length (drop over p1)) (cb_tail b2) @ drop over p1 =
        drop (length (cb_tail b2 @ p1) - half) (cb_tail b2 @ p1)"
      using lt2 by (cases "half \<le> length p1") (simp_all add: over_def)
    also have "\<dots> = drop (length (x @ p) - half) (x @ p)"
      unfolding all using len_all by (simp add: add.commute)
    finally have tl: "drop (length (drop over p1)) (cb_tail b2) @ drop over p1 =
        drop (length (x @ p) - half) (x @ p)" .
    have d: "cb_dropped b2 + length (drop over p1) = length (x @ p) - half"
      using len_all by (simp add: sel over_def)
    have lx: "half \<le> length (x @ p)" using len_all by simp
    show ?thesis
      using r tl d lx unfolding wr tail_holds_def sel(1,3) by auto
  qed
  then show "tail_holds half (x @ p) (cb_write_tail p b)" and "cb_head (cb_write_tail p b) = cb_head b"
    by simp_all
qed

lemma cb_write_holds:
  assumes "cb_holds half w b" and "0 < half"
  shows "cb_holds half (w @ p) (cb_write p b)"
proof -
  have half: "cb_half b = half" and head: "cb_head b = take half w"
    using assms(1) by (simp_all add: cb_holds_def tail_holds_def)
  define n where "n = min (half - length (take half w)) (length p)"
  let ?b = "b\<lparr>cb_head := take half w @ take n p\<rparr>"
  have wr: "cb_write p b = cb_write_tail (drop n p) ?b"
    by (simp add: cb_write_def half head n_def Let_def)
  have "take half (w @ p) = take half w @ take n p"
    by (cases "length w \<le> half") (simp_all add: n_def min_def)
  moreover have "drop half (w @ p) = drop half w @ drop n p"
    by (cases "length w \<le> half") (simp_all add: n_def min_def)
  moreover have "tail_holds half (drop half w) ?b"
    using assms(1) by (simp add: cb_holds_def tail_holds_def cb_tail_def)
  ultimately show ?thesis
    using write_tail_holds [of half "drop half w" ?b "drop n p"] assms(2) by (simp add: cb_holds_def wr)
qed

interpretation cbuf: safe_system "\<lambda>(w, b) p. (w @ p, cb_write p b)" "\<lambda>(w, b). 0 < half \<and> cb_holds half w b" for half
  by unfold_locales (auto intro: cb_write_holds)

lemma cb_run: "foldl (\<lambda>(w, b) p. (w @ p, cb_write p b)) (w, b) ps = (w @ concat ps, foldl (\<lambda>b p. cb_write p b) b ps)"
  by (induction ps arbitrary: w b) simp_all

lemma cb_new_holds: "1 < limit \<Longrightarrow> cb_holds (limit div 2) [] (new_capped_buffer limit)"
  by (simp add: cb_holds_def tail_holds_def new_capped_buffer_def cb_tail_def)

lemma cb_stream:
  assumes "1 < limit"
  shows "cb_holds (limit div 2) (concat ps) (foldl (\<lambda>b p. cb_write p b) (new_capped_buffer limit) ps)"
proof -
  have "0 < limit div 2" using assms by (simp add: div_greater_zero_iff)
  with cbuf.run_good [of "limit div 2" "([], new_capped_buffer limit)" ps] cb_new_holds [OF assms]
  show ?thesis by (simp add: cb_run)
qed

lemma seam_start_le: "seam_start h i \<le> i"
  by (induction h i rule: seam_start.induct) (auto simp: le_Suc_eq)

lemma seam_start_near: "i < length h \<Longrightarrow> length h \<le> i + 4 \<Longrightarrow> length h \<le> seam_start h i + 4"
  by (induction h i rule: seam_start.induct) auto

lemma trim_head_prefix: "prefix (trim_head h) h \<and> length h \<le> length (trim_head h) + 4"
proof (cases h)
  case (Cons c cs)
  have "seam_start h (length h - 1) \<le> length h - 1" by (rule seam_start_le)
  moreover have "length h \<le> seam_start h (length h - 1) + 4"
    using Cons by (intro seam_start_near) simp_all
  ultimately show ?thesis by (simp add: trim_head_def Let_def take_is_prefix)
qed (simp add: trim_head_def)

lemma tail_skip_le: "tail_skip t \<le> 3" "tail_skip t \<le> length t"
  using length_takeWhile_le [of "\<lambda>c. \<not> rune_start c" "take 3 t"] by (simp_all add: tail_skip_def)

text \<open>
  C33: whatever pieces a stream is written in, the buffer's text is the stream itself if it fits
  in the limit; otherwise it is a beginning and an end of the stream with a marker in between
  that says exactly how many bytes are missing, and at most eight bytes of what was kept are
  given up at the seams.
\<close>

theorem capped_buffer_text:
  assumes "1 < limit" and "half = limit div 2" and "w = concat ps"
    and "b = foldl (\<lambda>b p. cb_write p b) (new_capped_buffer limit) ps"
  shows "(length w \<le> 2 * half \<longrightarrow> cb_string b = w) \<and>
    (2 * half < length w \<longrightarrow>
      (\<exists>hd tl n. cb_string b = hd @ [CHR 0x0A, CHR 0x0A] @ ''... ['' @ nat_str n @ '' bytes truncated] ...'' @
           [CHR 0x0A, CHR 0x0A] @ tl \<and> prefix hd w \<and> suffix tl w \<and>
         n + length hd + length tl = length w \<and> half \<le> length hd + 4 \<and> half \<le> length tl + 4))"
proof -
  have h: "cb_holds half w b" using cb_stream [OF assms(1), of ps] by (simp add: assms(2-4))
  have pos: "0 < half" using assms(1,2) by (simp add: div_greater_zero_iff)
  note t = h [unfolded cb_holds_def tail_holds_def]
  show ?thesis
  proof (cases "length w \<le> 2 * half")
    case True
    with t have "cb_dropped b = 0" "cb_tail b = drop half w" by simp_all
    with t True show ?thesis by (simp add: cb_string_def)
  next
    case False
    let ?hd = "trim_head (cb_head b)" and ?sk = "tail_skip (cb_tail b)"
    let ?tl = "drop ?sk (cb_tail b)"
    let ?n = "cb_dropped b + (length (cb_head b) - length ?hd + ?sk)"
    have lens: "length (cb_head b) = half" "length (cb_tail b) = half" "cb_dropped b = length w - 2 * half"
      using t False by simp_all
    have "cb_string b = ?hd @ [CHR 0x0A, CHR 0x0A] @ ''... ['' @ nat_str ?n @ '' bytes truncated] ...'' @
           [CHR 0x0A, CHR 0x0A] @ ?tl"
      using lens False by (simp add: cb_string_def Let_def)
    moreover have "prefix ?hd w"
      using trim_head_prefix [of "cb_head b"] t by (metis prefix_order.trans take_is_prefix)
    moreover have "suffix ?tl w" using t by (simp add: suffix_drop suffix_order.trans [OF suffix_drop] )
    moreover have "?n + length ?hd + length ?tl = length w"
      using trim_head_prefix [of "cb_head b"] tail_skip_le(2) [of "cb_tail b"] lens False
      by (auto dest: prefix_length_le)
    moreover have "half \<le> length ?hd + 4" using trim_head_prefix [of "cb_head b"] lens by simp
    moreover have "half \<le> length ?tl + 4" using tail_skip_le(1) [of "cb_tail b"] lens by simp
    ultimately show ?thesis using False by blast
  qed
qed

theorem capped_buffer_text_witness:
  "let b = foldl (\<lambda>b p. cb_write p b) (new_capped_buffer 4) [''abc'', [], ''defg'', ''h'']; w = ''abcdefgh''
   in (length w \<le> 2 * 2 \<longrightarrow> cb_string b = w) \<and>
    (2 * 2 < length w \<longrightarrow>
      (\<exists>hd tl n. cb_string b = hd @ [CHR 0x0A, CHR 0x0A] @ ''... ['' @ nat_str n @ '' bytes truncated] ...'' @
           [CHR 0x0A, CHR 0x0A] @ tl \<and> prefix hd w \<and> suffix tl w \<and>
         n + length hd + length tl = length w \<and> 2 \<le> length hd + 4 \<and> 2 \<le> length tl + 4))"
  unfolding Let_def by (rule capped_buffer_text [OF _ _ _ refl]) simp_all

subsection \<open>Head and tail of a command's output\<close>

definition max_persisted_lines :: nat where
  "max_persisted_lines = 2000"

definition max_persisted_bytes :: nat where
  "max_persisted_bytes = 50 * 1024"

definition within_budget :: "nat \<Rightarrow> nat \<Rightarrow> string \<Rightarrow> bool" where
  "within_budget max_bytes max_lines out \<longleftrightarrow>
     length out \<le> max_bytes \<and> count_char (CHR 0x0A) out + 1 \<le> max_lines"

fun clip_back :: "string \<Rightarrow> nat \<Rightarrow> nat" where
  "clip_back s 0 = 0"
| "clip_back s (Suc n) = (if \<not> rune_start (s ! Suc n) then clip_back s n else Suc n)"

definition clip_head :: "string \<Rightarrow> nat \<Rightarrow> string" where
  "clip_head s n = (if length s \<le> n then s else take (clip_back s n) s)"

definition clip_tail :: "string \<Rightarrow> nat \<Rightarrow> string" where
  "clip_tail s n =
     (if length s \<le> n then s else dropWhile (\<lambda>c. \<not> rune_start c) (drop (length s - n) s))"

text \<open>The loop of \<open>headAndTail\<close>: lines \<open>[0, first)\<close> go to the head, lines \<open>[last, n)\<close> to the tail.\<close>

function claim_lines :: "nat \<Rightarrow> nat \<Rightarrow> string list \<Rightarrow> nat \<Rightarrow> nat \<Rightarrow> nat \<Rightarrow> nat \<Rightarrow> nat \<times> nat" where
  "claim_lines half_lines half_bytes lines first stop hb tb =
     (if \<not> first < stop then (first, stop)
      else if first < half_lines \<and> hb + length (lines ! first) + 1 \<le> half_bytes
      then claim_lines half_lines half_bytes lines (first + 1) stop (hb + length (lines ! first) + 1) tb
      else if length lines - stop < half_lines \<and> tb + length (lines ! (stop - 1)) + 1 \<le> half_bytes
      then claim_lines half_lines half_bytes lines first (stop - 1) hb (tb + length (lines ! (stop - 1)) + 1)
      else (first, stop))"
  by auto
termination
  by (relation "measure (\<lambda>(hl, hb, ls, f, l, a, b). l - f)") auto

declare claim_lines.simps [simp del]

definition head_and_tail :: "nat \<Rightarrow> nat \<Rightarrow> string \<Rightarrow> string \<times> string" where
  "head_and_tail max_bytes max_lines out =
     (let lines = split_on (CHR 0x0A) out;
          half_lines = max_lines div 2; half_bytes = max_bytes div 2;
          (first, stop) = claim_lines half_lines half_bytes lines 0 (length lines) 0 0;
          head = join_with [CHR 0x0A] (take first lines);
          tail = join_with [CHR 0x0A] (drop stop lines)
      in (if head = [] then clip_head (lines ! 0) half_bytes else head,
          if tail = [] then clip_tail (lines ! (length lines - 1)) half_bytes else tail))"

text \<open>\<open>spill\<close>: the path of the spill file, if it could be written.\<close>

definition truncate_for_persist :: "nat \<Rightarrow> nat \<Rightarrow> (string \<Rightarrow> string) \<Rightarrow> (string \<Rightarrow> string option) \<Rightarrow> string \<Rightarrow> string" where
  "truncate_for_persist max_bytes max_lines strip spill out =
     (if within_budget max_bytes max_lines out then out
      else let plain = strip out
           in if within_budget max_bytes max_lines plain then out
              else let (head, tail) = head_and_tail max_bytes max_lines plain;
                       omitted = int (count_char (CHR 0x0A) plain) - int (count_char (CHR 0x0A) head) -
                                 int (count_char (CHR 0x0A) tail);
                       note = (if 0 < omitted then int_str omitted @ '' lines omitted'' else ''output truncated'');
                       note' = (case spill plain of Some path \<Rightarrow> note @ '', full output: '' @ path | None \<Rightarrow> note)
                   in head @ [CHR 0x0A, CHR 0x0A] @ note' @ [CHR 0x0A, CHR 0x0A] @ tail)"

lemma clip_back_le: "clip_back s n \<le> n"
  by (induction s n rule: clip_back.induct) (auto simp: le_Suc_eq)

lemma clip_head_prefix: "prefix (clip_head s n) s" "length (clip_head s n) \<le> n"
  using clip_back_le [of s n] by (auto simp: clip_head_def take_is_prefix)

lemma clip_tail_suffix: "suffix (clip_tail s n) s" "length (clip_tail s n) \<le> n"
proof -
  show "suffix (clip_tail s n) s"
    by (auto simp: clip_tail_def suffix_drop intro: suffix_order.trans [OF suffix_dropWhile])
  have "length (dropWhile (\<lambda>c. \<not> rune_start c) (drop (length s - n) s)) \<le> length (drop (length s - n) s)"
    by (rule length_dropWhile_le)
  then show "length (clip_tail s n) \<le> n" by (auto simp: clip_tail_def)
qed

lemma join_nl_length: "length (join_with [c] ps) + (if ps = [] then 0 else 1) = (\<Sum>p\<leftarrow>ps. length p + 1)"
proof (induction ps)
  case (Cons p ps)
  then show ?case by (cases "ps = []") (simp_all add: join_with_Cons)
qed simp

definition claim_ok :: "nat \<Rightarrow> string list \<Rightarrow> nat \<Rightarrow> nat \<Rightarrow> nat \<Rightarrow> nat \<Rightarrow> bool" where
  "claim_ok half_bytes lines f l hb tb \<longleftrightarrow> f \<le> l \<and> l \<le> length lines \<and>
     hb = (\<Sum>p\<leftarrow>take f lines. length p + 1) \<and> tb = (\<Sum>p\<leftarrow>drop l lines. length p + 1) \<and>
     hb \<le> half_bytes \<and> tb \<le> half_bytes"

lemma claim_lines_ok:
  assumes "claim_lines hl half_bytes lines f l hb tb = (f', l')" and "claim_ok half_bytes lines f l hb tb"
  shows "\<exists>hb' tb'. claim_ok half_bytes lines f' l' hb' tb'"
  using assms
proof (induction hl half_bytes lines f l hb tb rule: claim_lines.induct)
  case (1 hl half_bytes lines f l hb tb)
  note ok = 1(4) [unfolded claim_ok_def]
  show ?case
  proof (cases "f < l")
    case lt: True
    show ?thesis
    proof (cases "f < hl \<and> hb + length (lines ! f) + 1 \<le> half_bytes")
      case True
      have "claim_ok half_bytes lines (f + 1) l (hb + length (lines ! f) + 1) tb"
        using ok lt True by (simp add: claim_ok_def take_Suc_conv_app_nth)
      with 1(1) [OF _ True] lt 1(3) True show ?thesis by (simp add: claim_lines.simps [of hl half_bytes lines f l])
    next
      case head_full: False
      show ?thesis
      proof (cases "length lines - l < hl \<and> tb + length (lines ! (l - 1)) + 1 \<le> half_bytes")
        case True
        have "drop (l - 1) lines = lines ! (l - 1) # drop l lines"
          using ok lt by (metis Cons_nth_drop_Suc One_nat_def Suc_pred diff_less less_le_trans gr_implies_not0 not_gr_zero zero_less_one)
        then have "claim_ok half_bytes lines f (l - 1) hb (tb + length (lines ! (l - 1)) + 1)"
          using ok lt True by (auto simp: claim_ok_def)
        moreover have "claim_lines hl half_bytes lines f (l - 1) hb (tb + length (lines ! (l - 1)) + 1) = (f', l')"
          using 1(3) unfolding claim_lines.simps [of hl half_bytes lines f l hb tb]
          by (simp only: lt head_full True if_True if_False not_True_eq_False simp_thms)
        ultimately show ?thesis using 1(2) [OF _ head_full True] lt by simp
      next
        case False
        have "(f, l) = (f', l')"
          using 1(3) unfolding claim_lines.simps [of hl half_bytes lines f l hb tb]
          by (simp only: lt head_full False if_True if_False not_True_eq_False)
        with 1(4) show ?thesis by blast
      qed
    qed
  next
    case False
    with 1(3,4) show ?thesis by (subst (asm) claim_lines.simps) auto
  qed
qed

text \<open>
  What \<open>headAndTail\<close> keeps of an output that is over budget is a beginning and an end of it,
  each within its half of the byte budget, that do not overlap.
\<close>

theorem head_and_tail_bounded:
  assumes "head_and_tail max_bytes max_lines out = (head, tail)" and "max_bytes < length out"
  shows "prefix head out \<and> suffix tail out \<and> length head \<le> max_bytes div 2 \<and> length tail \<le> max_bytes div 2 \<and>
    length head + length tail \<le> length out"
proof -
  let ?ls = "split_on (CHR 0x0A) out" and ?hb = "max_bytes div 2"
  obtain f l where fl: "claim_lines (max_lines div 2) ?hb ?ls 0 (length ?ls) 0 0 = (f, l)" by fastforce
  have "claim_ok ?hb ?ls 0 (length ?ls) 0 0" by (simp add: claim_ok_def)
  from claim_lines_ok [OF fl this] obtain a b where ok: "claim_ok ?hb ?ls f l a b" by blast
  have whole: "join_with [CHR 0x0A] ?ls = out" by (rule join_split_on)
  let ?h = "join_with [CHR 0x0A] (take f ?ls)" and ?t = "join_with [CHR 0x0A] (drop l ?ls)"
  have head: "head = (if ?h = [] then clip_head (?ls ! 0) ?hb else ?h)"
    and tail: "tail = (if ?t = [] then clip_tail (?ls ! (length ?ls - 1)) ?hb else ?t)"
    using assms(1) by (simp_all add: head_and_tail_def Let_def fl)
  have h: "length ?h \<le> ?hb" using join_nl_length [of "CHR 0x0A" "take f ?ls"] ok by (auto simp: claim_ok_def)
  have t: "length ?t \<le> ?hb" using join_nl_length [of "CHR 0x0A" "drop l ?ls"] ok by (auto simp: claim_ok_def)
  have "prefix (?ls ! 0) out"
    using join_with_take_prefix [of "[CHR 0x0A]" 1 ?ls] unfolding whole
    by (cases ?ls) auto
  then have "prefix head out"
    using clip_head_prefix(1) [of "?ls ! 0" ?hb] join_with_take_prefix [of "[CHR 0x0A]" f ?ls]
    unfolding head whole by (auto intro: prefix_order.trans)
  moreover have "drop (length ?ls - 1) ?ls = [?ls ! (length ?ls - 1)]"
    by (metis Cons_nth_drop_Suc Suc_pred diff_less drop_all length_greater_0_conv order_refl split_on_not_Nil zero_less_one One_nat_def)
  then have "suffix (?ls ! (length ?ls - 1)) out"
    using join_with_drop_suffix [of "[CHR 0x0A]" "length ?ls - 1" ?ls] unfolding whole by simp
  then have "suffix tail out"
    using clip_tail_suffix(1) [of "?ls ! (length ?ls - 1)" ?hb] join_with_drop_suffix [of "[CHR 0x0A]" l ?ls]
    unfolding tail whole by (auto intro: suffix_order.trans)
  moreover have "length head \<le> ?hb" using h clip_head_prefix(2) unfolding head by auto
  moreover have "length tail \<le> ?hb" using t clip_tail_suffix(2) unfolding tail by auto
  ultimately show ?thesis using assms(2) by auto
qed

theorem head_and_tail_bounded_witness:
  "let out = ''a'' @ [CHR 0x0A] @ ''bbbbbbbb'' @ [CHR 0x0A] @ ''cc''; head = fst (head_and_tail 8 10 out);
       tail = snd (head_and_tail 8 10 out)
   in prefix head out \<and> suffix tail out \<and> length head \<le> 8 div 2 \<and> length tail \<le> 8 div 2 \<and>
    length head + length tail \<le> length out"
  unfolding Let_def by (rule head_and_tail_bounded [OF prod.collapse [symmetric]]) simp

text \<open>
  A line too wide for either end is clipped from both ends only if it is the first and the
  last line. With a final newline, as commands print it, the tail claims the empty line behind
  it: the end of the wide line is lost, although the tail budget is unused.
\<close>

theorem wide_line_loses_its_end:
  assumes "CHR 0x0A \<notin> set w" and "max_bytes div 2 < length w" and "2 \<le> max_lines" and "2 \<le> max_bytes"
  shows "head_and_tail max_bytes max_lines (w @ [CHR 0x0A]) = (clip_head w (max_bytes div 2), [])"
proof -
  have ls: "split_on (CHR 0x0A) (w @ [CHR 0x0A]) = [w, []]"
    using split_on_append [of "CHR 0x0A" w "[]"] split_on_absent [OF assms(1)] by simp
  have ml: "0 < max_lines div 2" "0 < max_bytes div 2" using assms(3,4) by (simp_all add: div_greater_zero_iff)
  have "claim_lines (max_lines div 2) (max_bytes div 2) [w, []] 0 2 0 0 = (0, 1)"
    using assms(2) ml by (subst claim_lines.simps, subst claim_lines.simps) auto
  then show ?thesis by (simp add: head_and_tail_def ls clip_tail_def numeral_2_eq_2)
qed

theorem wide_line_loses_its_end_witness:
  "head_and_tail 6 10 (''abcdefghij'' @ [CHR 0x0A]) = (clip_head ''abcdefghij'' (6 div 2), [])"
  by (rule wide_line_loses_its_end) simp_all

subsection \<open>Tool results\<close>

text \<open>
  \<open>humanBytes\<close>: \<open>%.1f\<close> of a count divided by a power of two, which is exact in floating point,
  rounds to the nearest tenth, ties to even.
\<close>

definition tenths :: "nat \<Rightarrow> nat \<Rightarrow> nat" where
  "tenths n d =
     (let t = (n * 10) div d; r = (n * 10) mod d
      in if d < 2 * r \<or> (d = 2 * r \<and> odd t) then t + 1 else t)"

definition human_bytes :: "nat \<Rightarrow> string" where
  "human_bytes n =
     (let one = (\<lambda>t. nat_str (t div 10) @ ''.'' @ nat_str (t mod 10))
      in if 1024 * 1024 \<le> n then one (tenths n (1024 * 1024)) @ '' MB''
         else if 1024 \<le> n then one (tenths n 1024) @ '' KB''
         else nat_str n @ '' B'')"

text \<open>The three parts of a cut: the head, what is left out, the tail.\<close>

definition cut_parts :: "string \<Rightarrow> nat \<Rightarrow> string \<times> string \<times> string" where
  "cut_parts content half =
     (let head_end = cut_ansi_safe_left content half;
          tail_start = cut_ansi_safe_right content (length content - half)
      in (take head_end content, drop head_end (take tail_start content), drop tail_start content))"

definition cut_marker :: "string \<Rightarrow> string \<Rightarrow> string \<Rightarrow> string" where
  "cut_marker omitted prov recover =
     [CHR 0x0A, CHR 0x0A] @ ''... ['' @ nat_str (count_char (CHR 0x0A) omitted) @ '' lines ('' @
     human_bytes (length omitted) @ '') truncated at '' @ prov @ ''; '' @ recover @ ''] ...'' @
     [CHR 0x0A, CHR 0x0A]"

definition rerun_hint :: string where
  "rerun_hint = ''re-run or re-view the source for the rest''"

definition truncate_head_tail :: "string \<Rightarrow> nat \<Rightarrow> string \<Rightarrow> string" where
  "truncate_head_tail content max_bytes prov =
     (if length content \<le> max_bytes then content
      else (case cut_parts content (max_bytes div 2) of (head, omitted, tail) \<Rightarrow>
              head @ cut_marker omitted prov rerun_hint @ tail))"

definition max_output_length :: nat where
  "max_output_length = 30000"

definition truncate_output :: "nat \<Rightarrow> (string \<Rightarrow> string) \<Rightarrow> (string \<Rightarrow> string option) \<Rightarrow> string \<Rightarrow> string" where
  "truncate_output max_length strip spill content =
     (if length content \<le> max_length then content
      else (case cut_parts content (max_length div 2) of (head, omitted, tail) \<Rightarrow>
              head @ cut_marker omitted ''capture''
                (case spill (strip content) of Some path \<Rightarrow> ''full output: '' @ path | None \<Rightarrow> rerun_hint) @ tail))"

text \<open>
  The slices a truncation takes are well formed, and nothing is lost silently: the content is
  the head, the omitted part and the tail, one after the other; head and tail stay within half of
  the limit each, and both cuts spare the escape sequence and the rune they fall on at the left.
\<close>

theorem cut_parts_partition:
  assumes "max_bytes < length content" and "cut_parts content (max_bytes div 2) = (head, omitted, tail)"
  shows "content = head @ omitted @ tail \<and> length head \<le> max_bytes div 2 \<and> length tail \<le> max_bytes div 2 \<and>
    rune_boundary content (length head)"
proof -
  let ?half = "max_bytes div 2"
  let ?a = "cut_ansi_safe_left content ?half" and ?b = "cut_ansi_safe_right content (length content - ?half)"
  have a: "?a \<le> ?half" "?a \<le> length content" "rune_boundary content ?a"
    using cut_left_bounds [of content ?half] by simp_all
  have b: "length content - ?half \<le> ?b" "?b \<le> length content"
    using cut_right_safe [of "length content - ?half" content] by simp_all
  have ab: "?a \<le> ?b" using a b assms(1) by linarith
  have parts: "head = take ?a content" "omitted = drop ?a (take ?b content)" "tail = drop ?b content"
    using assms(2) by (simp_all add: cut_parts_def Let_def)
  have "take ?a content @ drop ?a (take ?b content) = take ?b content"
    using ab by (metis append_take_drop_id min.absorb1 take_take)
  then have "content = head @ omitted @ tail" unfolding parts by (metis append_assoc append_take_drop_id)
  moreover have "length (take ?a content) \<le> ?half \<and> length (drop ?b content) \<le> ?half"
    using a(1) b(1) by (simp only: length_take length_drop) linarith
  moreover have "rune_boundary content (length (take ?a content))" using a(2,3) by (simp add: min_absorb2)
  ultimately show ?thesis unfolding parts by simp
qed

theorem cut_parts_partition_witness:
  "let content = ''ab'' @ [esc_char] @ ''[31m'' @ ''cdefgh''; p = cut_parts content (8 div 2)
   in content = fst p @ fst (snd p) @ snd (snd p) \<and> length (fst p) \<le> 8 div 2 \<and> length (snd (snd p)) \<le> 8 div 2 \<and>
    rune_boundary content (length (fst p))"
  unfolding Let_def by (rule cut_parts_partition) simp_all

end
