(* ===== verification/JsonScan.thy ===== *)
theory JsonScan
  imports GoLib
begin

text \<open>
  \<open>json.Valid\<close> of encoding/json: a pushdown scanner that reads one byte at a time. The stack holds,
  for every open object or array, what the scanner expects next in it. The scanner looks at bytes
  only, as Go's does: it does not check that a string is UTF-8.
\<close>

datatype json_frame = ObjectKey | ObjectValue | ArrayValue

datatype json_mode =
    BeginValue | BeginValueOrEmpty | BeginString | BeginStringOrEmpty | EndValue | EndTop
  | InString | InEscape | InUnicode nat
  | Minus | IntDigits | IntZero | Dot | FracDigits | Exp | ExpSign | ExpDigits
  | InLiteral string

type_synonym json_scanner = "json_mode \<times> json_frame list"

definition json_space :: "char \<Rightarrow> bool" where
  "json_space c \<longleftrightarrow> c \<in> {CHR 0x20, CHR 0x09, CHR 0x0D, CHR 0x0A}"

definition json_digit :: "char \<Rightarrow> bool" where
  "json_digit c \<longleftrightarrow> c \<in> set ''0123456789''"

definition json_hex :: "char \<Rightarrow> bool" where
  "json_hex c \<longleftrightarrow> c \<in> set ''0123456789abcdefABCDEF''"

text \<open>A byte below \<open>0x20\<close>: the three high bits are clear.\<close>

fun control_byte :: "char \<Rightarrow> bool" where
  "control_byte (Char b0 b1 b2 b3 b4 b5 b6 b7) \<longleftrightarrow> \<not> b5 \<and> \<not> b6 \<and> \<not> b7"

definition max_nesting_depth :: nat where
  "max_nesting_depth = 10000"

definition json_push :: "json_frame \<Rightarrow> json_mode \<Rightarrow> json_frame list \<Rightarrow> json_scanner option" where
  "json_push f m st = (if length st < max_nesting_depth then Some (m, f # st) else None)"

fun json_pop :: "json_frame list \<Rightarrow> json_scanner option" where
  "json_pop [] = None"
| "json_pop [f] = Some (EndTop, [])"
| "json_pop (f # g # st) = Some (EndValue, g # st)"

fun json_end_value :: "char \<Rightarrow> json_frame list \<Rightarrow> json_scanner option" where
  "json_end_value c [] = (if json_space c then Some (EndTop, []) else None)"
| "json_end_value c (f # st) =
     (if json_space c then Some (EndValue, f # st)
      else case f of
        ObjectKey \<Rightarrow> (if c = CHR '':'' then Some (BeginValue, ObjectValue # st) else None)
      | ObjectValue \<Rightarrow> (if c = CHR '','' then Some (BeginString, ObjectKey # st)
                        else if c = CHR ''}'' then json_pop (f # st) else None)
      | ArrayValue \<Rightarrow> (if c = CHR '','' then Some (BeginValue, ArrayValue # st)
                       else if c = CHR '']'' then json_pop (f # st) else None))"

definition json_begin_value :: "json_mode \<Rightarrow> char \<Rightarrow> json_frame list \<Rightarrow> json_scanner option" where
  "json_begin_value stay c st =
     (if json_space c then Some (stay, st)
      else if c = CHR ''{'' then json_push ObjectKey BeginStringOrEmpty st
      else if c = CHR ''['' then json_push ArrayValue BeginValueOrEmpty st
      else if c = CHR 0x22 then Some (InString, st)
      else if c = CHR ''-'' then Some (Minus, st)
      else if c = CHR ''0'' then Some (IntZero, st)
      else if c = CHR ''t'' then Some (InLiteral ''rue'', st)
      else if c = CHR ''f'' then Some (InLiteral ''alse'', st)
      else if c = CHR ''n'' then Some (InLiteral ''ull'', st)
      else if json_digit c then Some (IntDigits, st)
      else None)"

definition json_begin_string :: "json_mode \<Rightarrow> char \<Rightarrow> json_frame list \<Rightarrow> json_scanner option" where
  "json_begin_string stay c st =
     (if json_space c then Some (stay, st) else if c = CHR 0x22 then Some (InString, st) else None)"

definition json_after_int :: "char \<Rightarrow> json_frame list \<Rightarrow> json_scanner option" where
  "json_after_int c st =
     (if c = CHR ''.'' then Some (Dot, st)
      else if c = CHR ''e'' \<or> c = CHR ''E'' then Some (Exp, st)
      else json_end_value c st)"

fun json_step :: "json_scanner \<Rightarrow> char \<Rightarrow> json_scanner option" where
  "json_step (BeginValue, st) c = json_begin_value BeginValue c st"
| "json_step (BeginValueOrEmpty, st) c =
     (if c = CHR '']'' then json_end_value c st else json_begin_value BeginValueOrEmpty c st)"
| "json_step (BeginString, st) c = json_begin_string BeginString c st"
| "json_step (BeginStringOrEmpty, st) c =
     (if c = CHR ''}'' then json_end_value c (ObjectValue # tl st)
      else json_begin_string BeginStringOrEmpty c st)"
| "json_step (EndValue, st) c = json_end_value c st"
| "json_step (EndTop, st) c = (if json_space c then Some (EndTop, st) else None)"
| "json_step (InString, st) c =
     (if c = CHR 0x22 then Some (EndValue, st)
      else if c = CHR 0x5C then Some (InEscape, st)
      else if control_byte c then None else Some (InString, st))"
| "json_step (InEscape, st) c =
     (if c \<in> {CHR ''b'', CHR ''f'', CHR ''n'', CHR ''r'', CHR ''t'', CHR 0x5C, CHR ''/'', CHR 0x22}
      then Some (InString, st)
      else if c = CHR ''u'' then Some (InUnicode 3, st) else None)"
| "json_step (InUnicode k, st) c =
     (if \<not> json_hex c then None
      else case k of 0 \<Rightarrow> Some (InString, st) | Suc k' \<Rightarrow> Some (InUnicode k', st))"
| "json_step (Minus, st) c =
     (if c = CHR ''0'' then Some (IntZero, st) else if json_digit c then Some (IntDigits, st) else None)"
| "json_step (IntDigits, st) c = (if json_digit c then Some (IntDigits, st) else json_after_int c st)"
| "json_step (IntZero, st) c = json_after_int c st"
| "json_step (Dot, st) c = (if json_digit c then Some (FracDigits, st) else None)"
| "json_step (FracDigits, st) c =
     (if json_digit c then Some (FracDigits, st)
      else if c = CHR ''e'' \<or> c = CHR ''E'' then Some (Exp, st) else json_end_value c st)"
| "json_step (Exp, st) c =
     (if c = CHR ''+'' \<or> c = CHR ''-'' then Some (ExpSign, st)
      else if json_digit c then Some (ExpDigits, st) else None)"
| "json_step (ExpSign, st) c = (if json_digit c then Some (ExpDigits, st) else None)"
| "json_step (ExpDigits, st) c = (if json_digit c then Some (ExpDigits, st) else json_end_value c st)"
| "json_step (InLiteral [], st) c = None"
| "json_step (InLiteral (l # ls), st) c =
     (if c = l then Some (if ls = [] then EndValue else InLiteral ls, st) else None)"

text \<open>The input ends where a blank would leave the top-level value complete.\<close>

definition json_valid :: "string \<Rightarrow> bool" where
  "json_valid s =
     (case run_opt json_step (BeginValue, []) s of
        None \<Rightarrow> False
      | Some sc \<Rightarrow> fst sc = EndTop \<or>
          (case json_step sc (CHR 0x20) of None \<Rightarrow> False | Some sc' \<Rightarrow> fst sc' = EndTop))"

lemma json_valid_empty_object: "json_valid ''{}''"
  by code_simp

lemma json_valid_examples:
  "json_valid ('' {'' @ [CHR 0x22] @ ''a'' @ [CHR 0x22] @ '': [1, -0.5e+7, null, {}]} '')"
  "\<not> json_valid ''''" "\<not> json_valid ''{'' " "\<not> json_valid ''[1,]''" "\<not> json_valid ''01''" "\<not> json_valid ''true false''"
  by code_simp+

end
