(* ===== verification/Message.thy ===== *)
theory Message
  imports StringExt JsonScan "HOL-Library.Multiset"
begin

text \<open>
  internal/message (content.go, attachment.go): a message and its parts, the operations that build
  an assistant message while a response streams in, and what a stored message is replayed as.
  Methods that only touch \<open>m.Parts\<close> are functions on the part list. The clock is the argument
  \<open>now\<close>; a pointer into a provider's own metadata is its address; \<open>strip\<close> is
  charmbracelet/x/ansi's \<open>Strip\<close> and \<open>quote\<close> fmt's \<open>%q\<close>.
\<close>

subsection \<open>Messages and parts\<close>

datatype message_role = Assistant | User | System | ToolRole | OtherRole string

datatype finish_reason = FinishReasonEndTurn | FinishReasonMaxTokens | FinishReasonToolUse
  | FinishReasonCanceled | FinishReasonError | FinishReasonContentFilter | FinishReasonUnknown
  | OtherReason string

record reasoning_content =
  mr_id :: string
  mr_thinking :: string
  mr_signature :: string
  mr_thought_signature :: string
  mr_tool_id :: string
  mr_responses_data :: "nat option"
  mr_started_at :: int
  mr_finished_at :: int

record text_content =
  mt_text :: string
  mt_hidden :: bool

record image_url_content =
  mi_url :: string
  mi_detail :: string

record binary_content =
  mb_path :: string
  mb_mime_type :: string
  mb_data :: string

record tool_call =
  tc_id :: string
  tc_name :: string
  tc_input :: string
  tc_provider_executed :: bool
  tc_finished :: bool

datatype stub_kind = StubKindSuperseded | StubKindModified | StubKindDeleted
  | StubKindDuplicate | StubKindRerun | StubKindStale | OtherStubKind string

record superseded_mark =
  sm_path :: string
  sm_by_tool :: string
  sm_turn :: int
  sm_applied :: bool
  sm_kind :: stub_kind
  sm_bytes :: int

record tool_result =
  tr_call_id :: string
  tr_name :: string
  tr_content :: string
  tr_data :: string
  tr_mime_type :: string
  tr_metadata :: string
  tr_is_error :: bool
  tr_file_mtime :: int
  tr_superseded :: "superseded_mark option"

record finish =
  fi_reason :: finish_reason
  fi_time :: int
  fi_message :: string
  fi_details :: string

record shell_command =
  sh_command :: string
  sh_output :: string
  sh_exit_code :: int

datatype content_part =
    Reasoning reasoning_content
  | TextPart text_content
  | ImageURL image_url_content
  | Binary binary_content
  | Call tool_call
  | Result tool_result
  | Finished finish
  | Shell shell_command

type_synonym parts = "content_part list"

record message =
  m_id :: string
  m_role :: message_role
  m_session_id :: string
  m_parts :: parts
  m_updated_at :: int

definition no_reasoning :: reasoning_content where
  "no_reasoning = \<lparr>mr_id = '''', mr_thinking = '''', mr_signature = '''', mr_thought_signature = '''',
     mr_tool_id = '''', mr_responses_data = None, mr_started_at = 0, mr_finished_at = 0\<rparr>"

definition no_text :: text_content where
  "no_text = \<lparr>mt_text = '''', mt_hidden = False\<rparr>"

subsection \<open>Reading a message\<close>

fun the_text :: "content_part \<Rightarrow> text_content option" where
  "the_text (TextPart c) = Some c" | "the_text _ = None"

fun the_reasoning :: "content_part \<Rightarrow> reasoning_content option" where
  "the_reasoning (Reasoning c) = Some c" | "the_reasoning _ = None"

fun the_binary :: "content_part \<Rightarrow> binary_content option" where
  "the_binary (Binary c) = Some c" | "the_binary _ = None"

fun the_image :: "content_part \<Rightarrow> image_url_content option" where
  "the_image (ImageURL c) = Some c" | "the_image _ = None"

fun the_call :: "content_part \<Rightarrow> tool_call option" where
  "the_call (Call c) = Some c" | "the_call _ = None"

fun the_result :: "content_part \<Rightarrow> tool_result option" where
  "the_result (Result c) = Some c" | "the_result _ = None"

fun the_finish :: "content_part \<Rightarrow> finish option" where
  "the_finish (Finished c) = Some c" | "the_finish _ = None"

fun the_shell :: "content_part \<Rightarrow> shell_command option" where
  "the_shell (Shell c) = Some c" | "the_shell _ = None"

text \<open>\<open>for _, part := range m.Parts\<close> collecting the parts of one type.\<close>

fun collect :: "('a \<Rightarrow> 'b option) \<Rightarrow> 'a list \<Rightarrow> 'b list" where
  "collect f [] = []"
| "collect f (x # xs) = (case f x of None \<Rightarrow> collect f xs | Some y \<Rightarrow> y # collect f xs)"

definition content :: "parts \<Rightarrow> text_content" where
  "content ps = (case first_some the_text ps of None \<Rightarrow> no_text | Some c \<Rightarrow> c)"

definition joined_text :: "parts \<Rightarrow> string" where
  "joined_text ps = join_with [CHR 0x0A] (map mt_text (collect the_text ps))"

definition reasoning_content_of :: "parts \<Rightarrow> reasoning_content" where
  "reasoning_content_of ps = (case first_some the_reasoning ps of None \<Rightarrow> no_reasoning | Some c \<Rightarrow> c)"

definition image_url_contents :: "parts \<Rightarrow> image_url_content list" where
  "image_url_contents ps = collect the_image ps"

definition binary_contents :: "parts \<Rightarrow> binary_content list" where
  "binary_contents ps = collect the_binary ps"

definition tool_calls :: "parts \<Rightarrow> tool_call list" where
  "tool_calls ps = collect the_call ps"

definition tool_results :: "parts \<Rightarrow> tool_result list" where
  "tool_results ps = collect the_result ps"

definition shell_commands :: "parts \<Rightarrow> shell_command list" where
  "shell_commands ps = collect the_shell ps"

definition finish_part :: "parts \<Rightarrow> finish option" where
  "finish_part ps = first_some the_finish ps"

definition is_finished :: "parts \<Rightarrow> bool" where
  "is_finished ps \<longleftrightarrow> finish_part ps \<noteq> None"

definition message_finish_reason :: "parts \<Rightarrow> finish_reason" where
  "message_finish_reason ps =
     (case finish_part ps of None \<Rightarrow> OtherReason '''' | Some f \<Rightarrow> fi_reason f)"

definition is_error_like :: "parts \<Rightarrow> bool" where
  "is_error_like ps \<longleftrightarrow>
     message_finish_reason ps = FinishReasonError \<or> message_finish_reason ps = FinishReasonContentFilter"

definition is_thinking :: "parts \<Rightarrow> bool" where
  "is_thinking ps \<longleftrightarrow>
     mr_thinking (reasoning_content_of ps) \<noteq> '''' \<and> mt_text (content ps) = '''' \<and> \<not> is_finished ps"

definition has_shell_command :: "parts \<Rightarrow> bool" where
  "has_shell_command ps \<longleftrightarrow> shell_commands ps \<noteq> []"

definition is_prompt :: "message \<Rightarrow> bool" where
  "is_prompt m \<longleftrightarrow> m_role m = User \<and> \<not> has_shell_command (m_parts m)"

text \<open>\<open>ThinkingDuration\<close> in seconds.\<close>

definition thinking_duration :: "int \<Rightarrow> parts \<Rightarrow> int" where
  "thinking_duration now ps =
     (let r = reasoning_content_of ps
      in if mr_started_at r = 0 then 0
         else (if mr_finished_at r = 0 then now else mr_finished_at r) - mr_started_at r)"

lemma collect_append [simp]: "collect f (xs @ ys) = collect f xs @ collect f ys"
  by (induction xs) (auto split: option.splits)

lemma set_collect: "set (collect f xs) = {y. \<exists>x\<in>set xs. f x = Some y}"
  by (induction xs) (auto split: option.splits)

lemma first_some_collect: "first_some f xs = (case collect f xs of [] \<Rightarrow> None | y # _ \<Rightarrow> Some y)"
  by (induction xs) (auto split: option.splits)

lemma collect_update_same: "(\<And>x. x \<in> set xs \<Longrightarrow> f (g x) = f x) \<Longrightarrow> collect f (map g xs) = collect f xs"
  by (induction xs) (auto split: option.splits)

subsection \<open>Building a message\<close>

definition append_content :: "string \<Rightarrow> parts \<Rightarrow> parts" where
  "append_content delta ps =
     (let grow = (\<lambda>p. case p of TextPart c \<Rightarrow> TextPart (c\<lparr>mt_text := mt_text c @ delta\<rparr>) | _ \<Rightarrow> p)
      in if collect the_text ps \<noteq> [] then map grow ps
         else ps @ [TextPart (no_text\<lparr>mt_text := delta\<rparr>)])"

fun first_index :: "('a \<Rightarrow> bool) \<Rightarrow> 'a list \<Rightarrow> nat option" where
  "first_index P [] = None"
| "first_index P (x # xs) = (if P x then Some 0 else map_option Suc (first_index P xs))"

fun last_index :: "('a \<Rightarrow> bool) \<Rightarrow> 'a list \<Rightarrow> nat option" where
  "last_index P [] = None"
| "last_index P (x # xs) =
     (case last_index P xs of Some i \<Rightarrow> Some (Suc i) | None \<Rightarrow> if P x then Some 0 else None)"

definition last_open_reasoning_index :: "parts \<Rightarrow> nat option" where
  "last_open_reasoning_index ps =
     last_index (\<lambda>p. case the_reasoning p of Some c \<Rightarrow> mr_finished_at c = 0 | None \<Rightarrow> False) ps"

definition reasoning_part_index :: "string \<Rightarrow> parts \<Rightarrow> nat option" where
  "reasoning_part_index i ps =
     (if i \<noteq> '''' then first_index (\<lambda>p. case the_reasoning p of Some c \<Rightarrow> mr_id c = i | None \<Rightarrow> False) ps
      else case last_open_reasoning_index ps of
             Some k \<Rightarrow> Some k
           | None \<Rightarrow> last_index (\<lambda>p. the_reasoning p \<noteq> None) ps)"

text \<open>\<open>c := m.Parts[i].(ReasoningContent); ...; m.Parts[i] = c\<close>\<close>

definition set_reasoning :: "nat \<Rightarrow> (reasoning_content \<Rightarrow> reasoning_content) \<Rightarrow> parts \<Rightarrow> parts" where
  "set_reasoning k f ps = (case ps ! k of Reasoning c \<Rightarrow> ps[k := Reasoning (f c)] | _ \<Rightarrow> ps)"

definition append_reasoning_content :: "int \<Rightarrow> string \<Rightarrow> string \<Rightarrow> parts \<Rightarrow> parts" where
  "append_reasoning_content now i delta ps =
     (case reasoning_part_index i ps of
        Some k \<Rightarrow> set_reasoning k (\<lambda>c. c\<lparr>mr_thinking := mr_thinking c @ delta\<rparr>) ps
      | None \<Rightarrow> ps @ [Reasoning (no_reasoning\<lparr>mr_id := i, mr_thinking := delta, mr_started_at := now\<rparr>)])"

definition append_thought_signature :: "string \<Rightarrow> string \<Rightarrow> string \<Rightarrow> parts \<Rightarrow> parts" where
  "append_thought_signature i signature call_id ps =
     (case reasoning_part_index i ps of
        Some k \<Rightarrow> set_reasoning k (\<lambda>c. c\<lparr>mr_thought_signature := mr_thought_signature c @ signature,
                                          mr_tool_id := call_id\<rparr>) ps
      | None \<Rightarrow> ps @ [Reasoning (no_reasoning\<lparr>mr_id := i, mr_thought_signature := signature,
                                              mr_tool_id := call_id\<rparr>)])"

definition append_reasoning_signature :: "string \<Rightarrow> string \<Rightarrow> parts \<Rightarrow> parts" where
  "append_reasoning_signature i signature ps =
     (case reasoning_part_index i ps of
        Some k \<Rightarrow> set_reasoning k (\<lambda>c. c\<lparr>mr_signature := mr_signature c @ signature\<rparr>) ps
      | None \<Rightarrow> ps @ [Reasoning (no_reasoning\<lparr>mr_id := i, mr_signature := signature\<rparr>)])"

definition set_reasoning_responses_data :: "string \<Rightarrow> nat option \<Rightarrow> parts \<Rightarrow> parts" where
  "set_reasoning_responses_data i data ps =
     (case reasoning_part_index i ps of
        Some k \<Rightarrow> set_reasoning k (\<lambda>c. c\<lparr>mr_responses_data := data\<rparr>) ps
      | None \<Rightarrow> ps @ [Reasoning (no_reasoning\<lparr>mr_id := i, mr_responses_data := data\<rparr>)])"

definition finish_thinking :: "int \<Rightarrow> string \<Rightarrow> parts \<Rightarrow> parts" where
  "finish_thinking now i ps =
     (case (case reasoning_part_index i ps of Some k \<Rightarrow> Some k | None \<Rightarrow> last_open_reasoning_index ps) of
        None \<Rightarrow> ps
      | Some k \<Rightarrow> set_reasoning k (\<lambda>c. if mr_finished_at c = 0 then c\<lparr>mr_finished_at := now\<rparr> else c) ps)"

text \<open>A loop that changes the first element the body accepts and returns; \<open>None\<close> if there is none.\<close>

fun change_first :: "('a \<Rightarrow> 'a option) \<Rightarrow> 'a list \<Rightarrow> 'a list option" where
  "change_first g [] = None"
| "change_first g (x # xs) =
     (case g x of Some y \<Rightarrow> Some (y # xs) | None \<Rightarrow> map_option ((#) x) (change_first g xs))"

definition change_call :: "string \<Rightarrow> (tool_call \<Rightarrow> tool_call) \<Rightarrow> parts \<Rightarrow> parts option" where
  "change_call i f ps =
     change_first (\<lambda>p. case the_call p of
                         Some c \<Rightarrow> (if tc_id c = i then Some (Call (f c)) else None)
                       | None \<Rightarrow> None) ps"

definition finish_tool_call :: "string \<Rightarrow> parts \<Rightarrow> parts" where
  "finish_tool_call i ps =
     (case change_call i (\<lambda>c. c\<lparr>tc_finished := True\<rparr>) ps of Some ps' \<Rightarrow> ps' | None \<Rightarrow> ps)"

definition append_tool_call_input :: "string \<Rightarrow> string \<Rightarrow> parts \<Rightarrow> parts" where
  "append_tool_call_input i delta ps =
     (case change_call i (\<lambda>c. c\<lparr>tc_input := tc_input c @ delta\<rparr>) ps of Some ps' \<Rightarrow> ps' | None \<Rightarrow> ps)"

definition add_tool_call :: "tool_call \<Rightarrow> parts \<Rightarrow> parts" where
  "add_tool_call tc ps =
     (case change_call (tc_id tc) (\<lambda>_. tc) ps of Some ps' \<Rightarrow> ps' | None \<Rightarrow> ps @ [Call tc])"

definition set_tool_calls :: "tool_call list \<Rightarrow> parts \<Rightarrow> parts" where
  "set_tool_calls tcs ps = filter (\<lambda>p. the_call p = None) ps @ map Call tcs"

definition add_tool_result :: "tool_result \<Rightarrow> parts \<Rightarrow> parts" where
  "add_tool_result tr ps = ps @ [Result tr]"

definition set_tool_results :: "tool_result list \<Rightarrow> parts \<Rightarrow> parts" where
  "set_tool_results trs ps = ps @ map Result trs"

definition streamed_part :: "content_part \<Rightarrow> bool" where
  "streamed_part p \<longleftrightarrow> (case p of TextPart _ \<Rightarrow> True | Reasoning _ \<Rightarrow> True | Call _ \<Rightarrow> True | Finished _ \<Rightarrow> True | _ \<Rightarrow> False)"

definition reset_streamed_content :: "parts \<Rightarrow> parts" where
  "reset_streamed_content ps = filter (\<lambda>p. \<not> streamed_part p) ps"

fun delete_first :: "('a \<Rightarrow> bool) \<Rightarrow> 'a list \<Rightarrow> 'a list" where
  "delete_first P [] = []"
| "delete_first P (x # xs) = (if P x then xs else x # delete_first P xs)"

definition is_finish_part :: "content_part \<Rightarrow> bool" where
  "is_finish_part p \<longleftrightarrow> the_finish p \<noteq> None"

definition add_finish_at :: "finish_reason \<Rightarrow> string \<Rightarrow> string \<Rightarrow> int \<Rightarrow> parts \<Rightarrow> parts" where
  "add_finish_at reason msg details at ps =
     delete_first is_finish_part ps @
     [Finished \<lparr>fi_reason = reason, fi_time = at, fi_message = msg, fi_details = details\<rparr>]"

definition add_image_url :: "string \<Rightarrow> string \<Rightarrow> parts \<Rightarrow> parts" where
  "add_image_url url detail ps = ps @ [ImageURL \<lparr>mi_url = url, mi_detail = detail\<rparr>]"

definition add_binary :: "string \<Rightarrow> string \<Rightarrow> parts \<Rightarrow> parts" where
  "add_binary mime_type data ps =
     ps @ [Binary \<lparr>mb_path = '''', mb_mime_type = mime_type, mb_data = data\<rparr>]"

subsection \<open>Where an operation writes\<close>

lemma first_index_Some: "first_index P xs = Some k \<Longrightarrow> k < length xs \<and> P (xs ! k)"
  by (induction xs arbitrary: k) (auto split: if_splits)

lemma first_index_None: "first_index P xs = None \<longleftrightarrow> (\<forall>x\<in>set xs. \<not> P x)"
  by (induction xs) auto

lemma last_index_Some: "last_index P xs = Some k \<Longrightarrow> k < length xs \<and> P (xs ! k)"
  by (induction xs arbitrary: k) (auto split: option.splits if_splits)

lemma last_index_None: "last_index P xs = None \<longleftrightarrow> (\<forall>x\<in>set xs. \<not> P x)"
  by (induction xs) (auto split: option.splits)

lemma the_reasoning_Some [simp]: "the_reasoning p = Some c \<longleftrightarrow> p = Reasoning c"
  by (cases p) auto

lemma the_call_Some [simp]: "the_call p = Some c \<longleftrightarrow> p = Call c"
  by (cases p) auto

lemma the_finish_Some [simp]: "the_finish p = Some c \<longleftrightarrow> p = Finished c"
  by (cases p) auto

lemma the_text_Some [simp]: "the_text p = Some c \<longleftrightarrow> p = TextPart c"
  by (cases p) auto

lemma set_reasoning_split:
  assumes "k < length ps" and "ps ! k = Reasoning c"
  shows "\<exists>as bs. ps = as @ Reasoning c # bs \<and> (\<forall>f. set_reasoning k f ps = as @ Reasoning (f c) # bs)"
proof (intro exI conjI allI)
  show "ps = take k ps @ Reasoning c # drop (Suc k) ps"
    using id_take_nth_drop [OF assms(1)] assms(2) by simp
  show "set_reasoning k f ps = take k ps @ Reasoning (f c) # drop (Suc k) ps" for f
    using upd_conv_take_nth_drop [OF assms(1)] assms(2) by (simp add: set_reasoning_def)
qed

lemma open_index_reasoning:
  "last_open_reasoning_index ps = Some k \<Longrightarrow> k < length ps \<and> (\<exists>c. ps ! k = Reasoning c)"
  by (auto simp: last_open_reasoning_index_def split: option.splits dest!: last_index_Some)

lemma part_index_reasoning:
  assumes "reasoning_part_index i ps = Some k"
  shows "k < length ps \<and> (\<exists>c. ps ! k = Reasoning c \<and> (i \<noteq> '''' \<longrightarrow> mr_id c = i))"
proof (cases "i = ''''")
  case True
  show ?thesis
  proof (cases "last_open_reasoning_index ps")
    case None
    then have "last_index (\<lambda>p. the_reasoning p \<noteq> None) ps = Some k"
      using assms True by (simp add: reasoning_part_index_def)
    from last_index_Some [OF this] show ?thesis using True by auto
  next
    case (Some k')
    then show ?thesis using open_index_reasoning [OF Some] assms True by (simp add: reasoning_part_index_def)
  qed
next
  case False
  then have "first_index (\<lambda>p. case the_reasoning p of Some c \<Rightarrow> mr_id c = i | None \<Rightarrow> False) ps = Some k"
    using assms by (simp add: reasoning_part_index_def)
  from first_index_Some [OF this] show ?thesis by (auto split: option.splits)
qed

lemma part_index_absent:
  assumes "reasoning_part_index i ps = None"
  shows "\<forall>c\<in>set (collect the_reasoning ps). i \<noteq> '''' \<and> mr_id c \<noteq> i"
  using assms
  by (cases "i = ''''")
     (force simp: reasoning_part_index_def set_collect first_index_None last_index_None split: option.splits)+

lemma change_first_Some:
  "change_first g xs = Some ys \<Longrightarrow>
   \<exists>as x y bs. xs = as @ x # bs \<and> ys = as @ y # bs \<and> g x = Some y"
proof (induction xs arbitrary: ys)
  case (Cons x xs)
  show ?case
  proof (cases "g x")
    case None
    then obtain zs where zs: "change_first g xs = Some zs" "ys = x # zs" using Cons.prems by auto
    from Cons.IH [OF zs(1)] obtain as x' y bs
      where "xs = as @ x' # bs" "zs = as @ y # bs" "g x' = Some y" by blast
    then have "x # xs = (x # as) @ x' # bs \<and> ys = (x # as) @ y # bs \<and> g x' = Some y" using zs(2) by simp
    then show ?thesis by blast
  next
    case (Some y)
    then have "x # xs = [] @ x # xs \<and> ys = [] @ y # xs \<and> g x = Some y" using Cons.prems by simp
    then show ?thesis by blast
  qed
qed simp

lemma change_first_None: "change_first g xs = None \<longleftrightarrow> (\<forall>x\<in>set xs. g x = None)"
  by (induction xs) (auto split: option.splits)

lemma change_call_split:
  assumes "change_call i f ps = Some ps'"
  obtains as c bs where "ps = as @ Call c # bs" "ps' = as @ Call (f c) # bs" "tc_id c = i"
proof -
  from change_first_Some [OF assms [unfolded change_call_def]] obtain as x y bs
    where "ps = as @ x # bs" "ps' = as @ y # bs"
      "(case the_call x of Some c \<Rightarrow> (if tc_id c = i then Some (Call (f c)) else None) | None \<Rightarrow> None) = Some y"
    by blast
  then show thesis using that by (auto split: option.splits if_splits)
qed

lemma change_call_absent: "change_call i f ps = None \<Longrightarrow> i \<notin> tc_id ` set (tool_calls ps)"
  by (force simp: change_call_def change_first_None tool_calls_def set_collect split: option.splits)

subsection \<open>A response streaming in\<close>

text \<open>The operations the agent applies to an assistant message while a response streams in.\<close>

datatype stream_op =
    TextDelta string
  | ReasoningDelta int string string
  | ThoughtSignature string string string
  | ReasoningSignature string string
  | ResponsesData string "nat option"
  | EndThinking int string
  | AddCall tool_call
  | CallInput string string
  | EndCall string
  | AddFinish finish_reason string string int
  | ResetStream

fun stream_step :: "parts \<Rightarrow> stream_op \<Rightarrow> parts" where
  "stream_step ps (TextDelta d) = append_content d ps"
| "stream_step ps (ReasoningDelta now i d) = append_reasoning_content now i d ps"
| "stream_step ps (ThoughtSignature i d c) = append_thought_signature i d c ps"
| "stream_step ps (ReasoningSignature i d) = append_reasoning_signature i d ps"
| "stream_step ps (ResponsesData i d) = set_reasoning_responses_data i d ps"
| "stream_step ps (EndThinking now i) = finish_thinking now i ps"
| "stream_step ps (AddCall tc) = add_tool_call tc ps"
| "stream_step ps (CallInput i d) = append_tool_call_input i d ps"
| "stream_step ps (EndCall i) = finish_tool_call i ps"
| "stream_step ps (AddFinish r m d at) = add_finish_at r m d at ps"
| "stream_step ps ResetStream = reset_streamed_content ps"

abbreviation reasonings :: "parts \<Rightarrow> reasoning_content list" where
  "reasonings ps \<equiv> collect the_reasoning ps"

definition call_ids :: "parts \<Rightarrow> string list" where
  "call_ids ps = map tc_id (tool_calls ps)"

text \<open>
  What the readers of a streamed message rely on: one text part, one part per reasoning block, one
  per call, one finish; and a stream without block ids has a single reasoning part.
\<close>

definition stream_shape :: "parts \<Rightarrow> bool" where
  "stream_shape ps \<longleftrightarrow>
     length (collect the_text ps) \<le> 1 \<and> distinct (map mr_id (reasonings ps)) \<and>
     distinct (call_ids ps) \<and> length (collect the_finish ps) \<le> 1"

text \<open>\<open>reason_op\<close>: the reasoning events, which change one block or add one.\<close>

definition reason_op :: "string \<Rightarrow> (reasoning_content \<Rightarrow> reasoning_content) \<Rightarrow> reasoning_content \<Rightarrow> parts \<Rightarrow> parts \<Rightarrow> bool" where
  "reason_op i f new ps ps' \<longleftrightarrow>
     (\<exists>as c bs. ps = as @ Reasoning c # bs \<and> ps' = as @ Reasoning (f c) # bs \<and> (i \<noteq> '''' \<longrightarrow> mr_id c = i)) \<or>
     ps' = ps @ [Reasoning new] \<and> (\<forall>c\<in>set (reasonings ps). i \<noteq> '''' \<and> mr_id c \<noteq> i)"

lemma reason_opI:
  "reason_op i f new ps
     (case reasoning_part_index i ps of Some k \<Rightarrow> set_reasoning k f ps | None \<Rightarrow> ps @ [Reasoning new])"
proof (cases "reasoning_part_index i ps")
  case None
  then show ?thesis using part_index_absent [OF None] by (simp add: reason_op_def)
next
  case (Some k)
  from part_index_reasoning [OF Some] obtain c
    where c: "k < length ps" "ps ! k = Reasoning c" "i \<noteq> '''' \<longrightarrow> mr_id c = i" by auto
  from set_reasoning_split [OF c(1,2)] Some c(3) show ?thesis by (auto simp: reason_op_def)
qed

lemma reason_op_shape:
  assumes "reason_op i f new ps ps'" and "stream_shape ps" and "\<And>c. mr_id (f c) = mr_id c" and "mr_id new = i"
  shows "stream_shape ps'"
  using assms by (fastforce simp: reason_op_def stream_shape_def call_ids_def tool_calls_def)

lemma finish_thinking_cases:
  obtains "finish_thinking now i ps = ps"
  | as c bs where "ps = as @ Reasoning c # bs"
      "finish_thinking now i ps = as @ Reasoning (if mr_finished_at c = 0 then c\<lparr>mr_finished_at := now\<rparr> else c) # bs"
proof (cases "case reasoning_part_index i ps of Some k \<Rightarrow> Some k | None \<Rightarrow> last_open_reasoning_index ps")
  case None
  then show thesis using that(1) by (simp add: finish_thinking_def)
next
  case (Some k)
  then have "k < length ps \<and> (\<exists>c. ps ! k = Reasoning c)"
    using part_index_reasoning [of i ps k] open_index_reasoning [of ps k] by (auto split: option.splits)
  then obtain c where "k < length ps" "ps ! k = Reasoning c" by blast
  from set_reasoning_split [OF this] show thesis using that(2) Some by (auto simp: finish_thinking_def)
qed

lemma collect_grow:
  "collect the_text (map (\<lambda>p. case p of TextPart c \<Rightarrow> TextPart (g c) | _ \<Rightarrow> p) ps) = map g (collect the_text ps)"
  "reasonings (map (\<lambda>p. case p of TextPart c \<Rightarrow> TextPart (g c) | _ \<Rightarrow> p) ps) = reasonings ps"
  "collect the_call (map (\<lambda>p. case p of TextPart c \<Rightarrow> TextPart (g c) | _ \<Rightarrow> p) ps) = collect the_call ps"
  "collect the_finish (map (\<lambda>p. case p of TextPart c \<Rightarrow> TextPart (g c) | _ \<Rightarrow> p) ps) = collect the_finish ps"
  by (induction ps) (auto split: content_part.splits)

lemma collect_reset:
  "collect the_text (reset_streamed_content ps) = []" "reasonings (reset_streamed_content ps) = []"
  "collect the_call (reset_streamed_content ps) = []" "collect the_finish (reset_streamed_content ps) = []"
  by (induction ps) (auto simp: reset_streamed_content_def streamed_part_def split: content_part.splits)

lemma collect_delete_first:
  assumes "\<And>x. P x \<Longrightarrow> f x = None"
  shows "collect f (delete_first P xs) = collect f xs"
  using assms by (induction xs) (auto split: option.splits)

lemma delete_first_finish:
  "collect the_finish (delete_first is_finish_part ps) = tl (collect the_finish ps)"
  by (induction ps) (auto simp: is_finish_part_def split: option.splits)

lemma collect_delete_finish:
  "collect the_text (delete_first is_finish_part ps) = collect the_text ps"
  "reasonings (delete_first is_finish_part ps) = reasonings ps"
  "collect the_call (delete_first is_finish_part ps) = collect the_call ps"
  by (rule collect_delete_first, auto simp: is_finish_part_def)+

lemma change_call_shape:
  assumes "change_call i f ps = Some ps'" and "stream_shape ps" and "\<And>c. tc_id c = i \<Longrightarrow> tc_id (f c) = i"
  shows "stream_shape ps'"
  using assms by (elim change_call_split) (auto simp: stream_shape_def call_ids_def tool_calls_def)

lemma stream_step_shape:
  assumes "stream_shape ps"
  shows "stream_shape (stream_step ps e)"
proof (cases e)
  case (TextDelta d)
  with assms show ?thesis
    by (auto simp: append_content_def Let_def stream_shape_def call_ids_def tool_calls_def collect_grow)
next
  case (ReasoningDelta now i d)
  show ?thesis using assms unfolding ReasoningDelta stream_step.simps append_reasoning_content_def
    by (rule reason_op_shape [OF reason_opI]) simp_all
next
  case (ThoughtSignature i d c)
  show ?thesis using assms unfolding ThoughtSignature stream_step.simps append_thought_signature_def
    by (rule reason_op_shape [OF reason_opI]) simp_all
next
  case (ReasoningSignature i d)
  show ?thesis using assms unfolding ReasoningSignature stream_step.simps append_reasoning_signature_def
    by (rule reason_op_shape [OF reason_opI]) simp_all
next
  case (ResponsesData i d)
  show ?thesis using assms unfolding ResponsesData stream_step.simps set_reasoning_responses_data_def
    by (rule reason_op_shape [OF reason_opI]) simp_all
next
  case (EndThinking now i)
  show ?thesis
    by (rule finish_thinking_cases [of now i ps])
       (use assms EndThinking in \<open>auto simp: stream_shape_def call_ids_def tool_calls_def\<close>)
next
  case (AddCall tc)
  show ?thesis
  proof (cases "change_call (tc_id tc) (\<lambda>_. tc) ps")
    case None
    with change_call_absent [OF None] assms AddCall show ?thesis
      by (simp add: add_tool_call_def stream_shape_def call_ids_def tool_calls_def)
  next
    case (Some ps')
    have "stream_shape ps'" using change_call_shape [OF Some assms] by simp
    then show ?thesis using AddCall Some by (simp add: add_tool_call_def)
  qed
next
  case (CallInput i d)
  then show ?thesis using assms change_call_shape [of i _ ps]
    by (auto simp: append_tool_call_input_def split: option.splits)
next
  case (EndCall i)
  then show ?thesis using assms change_call_shape [of i _ ps]
    by (auto simp: finish_tool_call_def split: option.splits)
next
  case (AddFinish r m d at)
  then show ?thesis using assms
    by (simp add: add_finish_at_def stream_shape_def call_ids_def tool_calls_def collect_delete_finish delete_first_finish)
next
  case ResetStream
  then show ?thesis by (simp add: stream_shape_def call_ids_def tool_calls_def collect_reset)
qed

interpretation streamed: safe_system stream_step stream_shape
  by unfold_locales (rule stream_step_shape)

text \<open>
  However the events of a response arrive, the message keeps its shape at every moment: at most
  one text part, one part per reasoning block, one per tool call, at most one finish.
\<close>

theorem stream_keeps_shape:
  assumes "stream_shape ps" and "prefix ops ops'"
  shows "stream_shape (foldl stream_step ps ops)"
  using assms by (rule streamed.prefix_good)

theorem stream_keeps_shape_witness:
  "stream_shape (foldl stream_step [] [TextDelta ''a'', ReasoningDelta 7 ''r'' ''x'', TextDelta ''b''])"
  by (rule stream_keeps_shape [where ops' = "[TextDelta ''a'', ReasoningDelta 7 ''r'' ''x'', TextDelta ''b'', EndCall ''c'']"])
     (simp_all add: stream_shape_def call_ids_def tool_calls_def)

fun text_delta :: "stream_op \<Rightarrow> string" where
  "text_delta (TextDelta d) = d" | "text_delta _ = ''''"

fun thinking_delta :: "string \<Rightarrow> stream_op \<Rightarrow> string" where
  "thinking_delta x (ReasoningDelta now i d) = (if i = x then d else '''')" | "thinking_delta x _ = ''''"

fun block_id :: "stream_op \<Rightarrow> string option" where
  "block_id (ReasoningDelta now i d) = Some i"
| "block_id (ThoughtSignature i d c) = Some i"
| "block_id (ReasoningSignature i d) = Some i"
| "block_id (ResponsesData i d) = Some i"
| "block_id _ = None"

definition thinking_of :: "string \<Rightarrow> parts \<Rightarrow> string" where
  "thinking_of x ps = concat (map mr_thinking (filter (\<lambda>c. mr_id c = x) (reasonings ps)))"

lemma thinking_of_cong: "reasonings ps' = reasonings ps \<Longrightarrow> thinking_of x ps' = thinking_of x ps"
  by (simp add: thinking_of_def)

lemma reason_op_thinking:
  assumes "reason_op i f new ps ps'" and "\<And>c. mr_id (f c) = mr_id c" and "mr_id new = i"
    and "\<And>c. mr_thinking (f c) = mr_thinking c @ d" and "mr_thinking new = d"
    and "distinct (map mr_id (reasonings ps))" and "i = '''' \<Longrightarrow> \<forall>c\<in>set (reasonings ps). mr_id c = ''''"
  shows "thinking_of x ps' = thinking_of x ps @ (if i = x then d else '''')"
proof -
  from assms(1) show ?thesis unfolding reason_op_def
  proof (elim disjE exE conjE)
    fix as c bs
    assume 1: "ps = as @ Reasoning c # bs" "ps' = as @ Reasoning (f c) # bs" and c: "i \<noteq> '''' \<longrightarrow> mr_id c = i"
    have "c \<in> set (reasonings ps)" using 1(1) by simp
    with c assms(7) have ic: "mr_id c = i" by blast
    have "i \<notin> mr_id ` set (reasonings bs)" using assms(6) unfolding 1(1) ic [symmetric] by simp
    then have none: "filter (\<lambda>c. mr_id c = i) (reasonings bs) = []" by (auto simp: filter_empty_conv)
    show ?thesis
    proof (cases "i = x")
      case True
      show ?thesis using none ic assms(2,4) unfolding 1 thinking_of_def True by simp
    next
      case False
      then show ?thesis using ic assms(2) unfolding 1 thinking_of_def by simp
    qed
  next
    assume "ps' = ps @ [Reasoning new]" "\<forall>c\<in>set (reasonings ps). i \<noteq> '''' \<and> mr_id c \<noteq> i"
    then show ?thesis using assms(3,5) by (auto simp: thinking_of_def filter_empty_conv)
  qed
qed

lemma reason_op_text: "reason_op i f new ps ps' \<Longrightarrow> collect the_text ps' = collect the_text ps"
  by (auto simp: reason_op_def)

lemma change_call_text:
  "change_call i f ps = Some ps' \<Longrightarrow> collect the_text ps' = collect the_text ps \<and> reasonings ps' = reasonings ps"
  by (elim change_call_split) auto

definition idless :: "parts \<Rightarrow> bool" where
  "idless ps \<longleftrightarrow> (\<forall>c\<in>set (reasonings ps). mr_id c = '''')"

text \<open>The effect of one event on the text and on what block \<open>x\<close> has thought.\<close>

lemma stream_step_text:
  assumes "stream_shape ps" and "e \<noteq> ResetStream"
  shows "joined_text (stream_step ps e) = joined_text ps @ text_delta e"
proof -
  have other: "collect the_text (stream_step ps e) = collect the_text ps" if "\<forall>d. e \<noteq> TextDelta d"
  proof (cases e)
    case (EndThinking now i)
    show ?thesis by (rule finish_thinking_cases [of now i ps]) (use EndThinking in auto)
  qed (use assms(2) that reason_op_text [OF reason_opI] in \<open>auto simp: append_reasoning_content_def
        append_thought_signature_def append_reasoning_signature_def set_reasoning_responses_data_def
        add_tool_call_def append_tool_call_input_def finish_tool_call_def add_finish_at_def collect_delete_finish
        split: option.splits dest!: change_call_text\<close>)
  show ?thesis
  proof (cases "\<exists>d. e = TextDelta d")
    case True
    then obtain d where e: "e = TextDelta d" ..
    have "length (collect the_text ps) \<le> 1" using assms(1) by (simp add: stream_shape_def)
    then have "collect the_text ps = [] \<or> (\<exists>c. collect the_text ps = [c])"
      by (cases "collect the_text ps") auto
    then show ?thesis by (auto simp: e append_content_def Let_def joined_text_def collect_grow no_text_def)
  next
    case False
    then have "collect the_text (stream_step ps e) = collect the_text ps" "text_delta e = ''''"
      using other by (auto, cases e, auto)
    then show ?thesis by (simp add: joined_text_def)
  qed
qed

lemma step_reasonings:
  "reasonings (append_content s ps) = reasonings ps" "reasonings (add_tool_call tc ps) = reasonings ps"
  "reasonings (append_tool_call_input i s ps) = reasonings ps"
  "reasonings (finish_tool_call i ps) = reasonings ps" "reasonings (add_finish_at r s t at ps) = reasonings ps"
  by (auto simp: append_content_def Let_def collect_grow add_tool_call_def append_tool_call_input_def
      finish_tool_call_def add_finish_at_def collect_delete_finish split: option.splits dest: change_call_text)

lemma finish_thinking_thinking: "thinking_of x (finish_thinking now i ps) = thinking_of x ps"
  by (rule finish_thinking_cases [of now i ps]) (auto simp: thinking_of_def)

lemma finish_thinking_ids: "map mr_id (reasonings (finish_thinking now i ps)) = map mr_id (reasonings ps)"
  by (rule finish_thinking_cases [of now i ps]) auto

lemma stream_step_thinking:
  assumes "stream_shape ps" and "e \<noteq> ResetStream" and "block_id e = Some '''' \<Longrightarrow> idless ps"
  shows "thinking_of x (stream_step ps e) = thinking_of x ps @ thinking_delta x e"
proof -
  have d: "distinct (map mr_id (reasonings ps))" using assms(1) by (simp add: stream_shape_def)
  note op = reason_op_thinking [OF reason_opI _ _ _ _ d]
  have other: "thinking_of x (append_content s ps) = thinking_of x ps" "thinking_of x (add_tool_call tc ps) = thinking_of x ps"
    "thinking_of x (append_tool_call_input i s ps) = thinking_of x ps"
    "thinking_of x (finish_tool_call i ps) = thinking_of x ps"
    "thinking_of x (add_finish_at r s t at ps) = thinking_of x ps" for s t i tc r at
    by (rule thinking_of_cong, rule step_reasonings)+
  show ?thesis
  proof (cases e)
    case (ReasoningDelta now i s)
    then have "thinking_of x (append_reasoning_content now i s ps) = thinking_of x ps @ (if i = x then s else '''')"
      unfolding append_reasoning_content_def using assms(3)
      by (intro op) (simp_all add: idless_def no_reasoning_def)
    then show ?thesis by (simp add: ReasoningDelta)
  next
    case (ThoughtSignature i s c)
    then have "thinking_of x (append_thought_signature i s c ps) = thinking_of x ps @ (if i = x then '''' else '''')"
      unfolding append_thought_signature_def using assms(3)
      by (intro op) (simp_all add: idless_def no_reasoning_def)
    then show ?thesis by (simp add: ThoughtSignature)
  next
    case (ReasoningSignature i s)
    then have "thinking_of x (append_reasoning_signature i s ps) = thinking_of x ps @ (if i = x then '''' else '''')"
      unfolding append_reasoning_signature_def using assms(3)
      by (intro op) (simp_all add: idless_def no_reasoning_def)
    then show ?thesis by (simp add: ReasoningSignature)
  next
    case (ResponsesData i s)
    then have "thinking_of x (set_reasoning_responses_data i s ps) = thinking_of x ps @ (if i = x then '''' else '''')"
      unfolding set_reasoning_responses_data_def using assms(3)
      by (intro op) (simp_all add: idless_def no_reasoning_def)
    then show ?thesis by (simp add: ResponsesData)
  next
    case (EndThinking now i)
    then show ?thesis by (simp add: finish_thinking_thinking)
  qed (use assms(2) in \<open>simp_all add: other\<close>)
qed

lemma reason_op_idless:
  assumes "reason_op '''' f new ps ps'" and "\<And>c. mr_id (f c) = mr_id c" and "mr_id new = ''''" and "idless ps"
  shows "idless ps'"
  using assms(1) unfolding reason_op_def
  by (elim disjE exE conjE) (use assms(2-4) in \<open>simp_all add: idless_def\<close>)

lemma stream_step_idless:
  assumes "idless ps" and "e \<noteq> ResetStream" and "block_id e \<in> {None, Some ''''}"
  shows "idless (stream_step ps e)"
proof -
  have ids: "idless qs" if "map mr_id (reasonings qs) = map mr_id (reasonings ps)" for qs
  proof -
    have "set (map mr_id (reasonings qs)) \<subseteq> {''''}" using assms(1) unfolding that by (auto simp: idless_def)
    then show ?thesis by (auto simp: idless_def)
  qed
  note op = reason_op_idless [OF reason_opI _ _ assms(1)]
  show ?thesis
  proof (cases e)
    case (EndThinking now i)
    then show ?thesis by (simp add: ids finish_thinking_ids)
  next
    case (ReasoningDelta now i s)
    then show ?thesis using assms(3) by (simp add: append_reasoning_content_def op)
  next
    case (ThoughtSignature i s c)
    then show ?thesis using assms(3) by (simp add: append_thought_signature_def op)
  next
    case (ReasoningSignature i s)
    then show ?thesis using assms(3) by (simp add: append_reasoning_signature_def op)
  next
    case (ResponsesData i s)
    then show ?thesis using assms(3) by (simp add: set_reasoning_responses_data_def op)
  qed (use assms(2) in \<open>simp_all add: ids step_reasonings\<close>)
qed

lemma reset_shape: "stream_shape (reset_streamed_content ps)"
  by (simp add: stream_shape_def call_ids_def tool_calls_def collect_reset)

text \<open>Every event names its block, or none does.\<close>

definition blocks_named :: "stream_op list \<Rightarrow> bool" where
  "blocks_named ops \<longleftrightarrow> (\<forall>e\<in>set ops. block_id e \<noteq> Some '''') \<or> (\<forall>e\<in>set ops. block_id e \<in> {None, Some ''''})"

lemma stream_run_accumulates:
  assumes "stream_shape ps" and "ResetStream \<notin> set ops"
    and "(\<forall>e\<in>set ops. block_id e \<noteq> Some '''') \<or> idless ps \<and> (\<forall>e\<in>set ops. block_id e \<in> {None, Some ''''})"
  shows "joined_text (foldl stream_step ps ops) = joined_text ps @ concat (map text_delta ops) \<and>
    thinking_of x (foldl stream_step ps ops) = thinking_of x ps @ concat (map (thinking_delta x) ops)"
  using assms
proof (induction ops arbitrary: ps)
  case (Cons e ops)
  have e: "e \<noteq> ResetStream" and ops: "ResetStream \<notin> set ops" using Cons.prems(2) by auto
  have id: "block_id e = Some '''' \<Longrightarrow> idless ps" using Cons.prems(3) by auto
  have next_ids: "(\<forall>e\<in>set ops. block_id e \<noteq> Some '''') \<or>
      idless (stream_step ps e) \<and> (\<forall>e\<in>set ops. block_id e \<in> {None, Some ''''})"
    using Cons.prems(3) stream_step_idless [OF _ e] by auto
  from Cons.IH [OF stream_step_shape [OF Cons.prems(1)] ops next_ids]
  show ?case by (simp add: stream_step_text [OF Cons.prems(1) e] stream_step_thinking [OF Cons.prems(1) e id])
qed simp

text \<open>What came in since the stream was last reset.\<close>

definition since_reset :: "stream_op list \<Rightarrow> stream_op list" where
  "since_reset ops = rev (takeWhile (\<lambda>e. e \<noteq> ResetStream) (rev ops))"

lemma since_reset_simps [simp]:
  "since_reset [] = []"
  "since_reset (ops @ [e]) = (if e = ResetStream then [] else since_reset ops @ [e])"
  by (simp_all add: since_reset_def)

lemma since_reset_none: "ResetStream \<notin> set ops \<Longrightarrow> since_reset ops = ops"
  by (induction ops rule: rev_induct) auto

lemma run_since_reset:
  "\<exists>qs. foldl stream_step (reset_streamed_content ps) ops =
      foldl stream_step (reset_streamed_content qs) (since_reset ops) \<and> ResetStream \<notin> set (since_reset ops)"
proof (induction ops rule: rev_induct)
  case (snoc e ops)
  then obtain qs where "foldl stream_step (reset_streamed_content ps) ops =
      foldl stream_step (reset_streamed_content qs) (since_reset ops)" "ResetStream \<notin> set (since_reset ops)" by blast
  then show ?case by (cases "e = ResetStream") auto
qed auto

lemma stream_since_reset:
  assumes "ResetStream \<notin> set ops" and "blocks_named ops"
  shows "joined_text (foldl stream_step (reset_streamed_content ps) ops) = concat (map text_delta ops) \<and>
    thinking_of x (foldl stream_step (reset_streamed_content ps) ops) = concat (map (thinking_delta x) ops)"
proof -
  have "idless (reset_streamed_content ps)" by (simp add: idless_def collect_reset)
  with assms(2) have "(\<forall>e\<in>set ops. block_id e \<noteq> Some '''') \<or>
      idless (reset_streamed_content ps) \<and> (\<forall>e\<in>set ops. block_id e \<in> {None, Some ''''})"
    by (simp add: blocks_named_def)
  from stream_run_accumulates [OF reset_shape assms(1) this, of x]
  show ?thesis by (simp add: joined_text_def thinking_of_def collect_reset)
qed

text \<open>
  C27: nothing a response streams is lost, duplicated or put in the wrong place, provided that since
  the last reset either every reasoning event named its block or none did (in a mixed stream a delta
  without an id joins whatever block is there). On a reset message, whatever events follow and however
  often the stream is reset again, the text is the text deltas since the last reset in their order,
  and each reasoning block holds exactly the deltas of its own id since then, however the blocks
  interleave; a stream that gives no block ids accumulates in one block.
\<close>

theorem stream_accumulates:
  assumes "blocks_named (since_reset ops)"
  shows "joined_text (foldl stream_step (reset_streamed_content ps) ops) = concat (map text_delta (since_reset ops)) \<and>
    thinking_of x (foldl stream_step (reset_streamed_content ps) ops) = concat (map (thinking_delta x) (since_reset ops))"
proof -
  obtain qs where qs: "foldl stream_step (reset_streamed_content ps) ops =
      foldl stream_step (reset_streamed_content qs) (since_reset ops)" "ResetStream \<notin> set (since_reset ops)"
    using run_since_reset by blast
  show ?thesis unfolding qs(1) by (rule stream_since_reset [OF qs(2) assms])
qed

theorem stream_accumulates_witness:
  "let ops = [TextDelta ''lost'', ResetStream, ReasoningDelta 1 ''a'' ''x'', ReasoningDelta 2 ''b'' ''y'',
     TextDelta ''t'', ReasoningDelta 3 ''a'' ''z'']
   in joined_text (foldl stream_step (reset_streamed_content [TextPart no_text]) ops) = concat (map text_delta (since_reset ops)) \<and>
      thinking_of ''a'' (foldl stream_step (reset_streamed_content [TextPart no_text]) ops) =
        concat (map (thinking_delta ''a'') (since_reset ops))"
  unfolding Let_def by (rule stream_accumulates) (simp add: blocks_named_def since_reset_def)

text \<open>
  A message that already holds two text parts (a provider that fragments its response) gets a delta
  appended to both.
\<close>

lemma append_content_every_text:
  "joined_text (append_content d [TextPart a, TextPart b]) = mt_text a @ d @ [CHR 0x0A] @ mt_text b @ d"
  by (simp add: append_content_def joined_text_def)

subsection \<open>Prompts\<close>

record attachment =
  at_file_path :: string
  at_file_name :: string
  at_mime_type :: string
  at_content :: string

definition is_text :: "attachment \<Rightarrow> bool" where
  "is_text a \<longleftrightarrow> has_prefix (at_mime_type a) ''text/''"

definition is_image :: "attachment \<Rightarrow> bool" where
  "is_image a \<longleftrightarrow> has_prefix (at_mime_type a) ''image/''"

definition is_audio :: "attachment \<Rightarrow> bool" where
  "is_audio a \<longleftrightarrow> has_prefix (at_mime_type a) ''audio/''"

definition is_markdown :: "attachment \<Rightarrow> bool" where
  "is_markdown a \<longleftrightarrow> at_mime_type a = ''text/markdown''"

definition contains_text_attachment :: "attachment list \<Rightarrow> bool" where
  "contains_text_attachment as \<longleftrightarrow> list_ex is_text as"

abbreviation nl :: string where
  "nl \<equiv> [CHR 0x0A]"

definition attachments_intro :: string where
  "attachments_intro = nl @ ''<system_info>The files below have been attached by the user, consider them in your response</system_info>'' @ nl"

definition file_block :: "attachment \<Rightarrow> string" where
  "file_block a =
     (if at_file_path a \<noteq> '''' then ''<file path='' @ [CHR 0x27] @ at_file_path a @ [CHR 0x27] @ ''>'' @ nl
      else ''<file>'' @ nl) @ nl @ at_content a @ nl @ ''</file>'' @ nl"

fun attach_loop :: "bool \<Rightarrow> attachment list \<Rightarrow> string" where
  "attach_loop added [] = ''''"
| "attach_loop added (a # as) =
     (if \<not> is_text a then attach_loop added as
      else (if added then '''' else attachments_intro) @ file_block a @ attach_loop True as)"

definition prompt_with_text_attachments :: "string \<Rightarrow> attachment list \<Rightarrow> string" where
  "prompt_with_text_attachments prompt as = prompt @ attach_loop False as"

subsection \<open>Replaying a stored message\<close>

text \<open>The parts handed to the provider library; each provider's options are the ones the code sets.\<close>

record reasoning_part =
  rp_text :: string
  rp_anthropic :: "string option"
  rp_openai :: "nat option"
  rp_google :: "(string \<times> string) option"

record tool_call_part =
  cp_id :: string
  cp_name :: string
  cp_input :: string
  cp_provider_executed :: bool

datatype result_output = OutputError string | OutputMedia string string | OutputText string

datatype ai_part =
    AiText string
  | AiFile string string string
  | AiReasoning reasoning_part
  | AiCall tool_call_part
  | AiResult string result_output

datatype ai_role = AiUser | AiAssistant | AiTool

definition tool_call_input :: "string \<Rightarrow> string" where
  "tool_call_input input = (if \<not> json_valid input then ''{}'' else input)"

definition shell_text :: "(string \<Rightarrow> string) \<Rightarrow> shell_command \<Rightarrow> string" where
  "shell_text strip sc = ''$ '' @ sh_command sc @ nl @ strip (sh_output sc) @ nl @
     ''(exit code '' @ int_str (sh_exit_code sc) @ '')''"

definition text_binary :: "binary_content \<Rightarrow> bool" where
  "text_binary b \<longleftrightarrow> has_prefix (mb_mime_type b) ''text/''"

definition user_text :: "(string \<Rightarrow> string) \<Rightarrow> parts \<Rightarrow> string" where
  "user_text strip ps =
     (let files = filter text_binary (binary_contents ps);
          text = prompt_with_text_attachments (trim_space (mt_text (content ps)))
                   (map (\<lambda>b. \<lparr>at_file_path = mb_path b, at_file_name = '''', at_mime_type = mb_mime_type b,
                              at_content = mb_data b\<rparr>) files)
      in foldl (\<lambda>t sc. if t \<noteq> '''' then t @ nl @ nl @ shell_text strip sc else shell_text strip sc)
           text (shell_commands ps))"

definition user_parts :: "(string \<Rightarrow> string) \<Rightarrow> parts \<Rightarrow> ai_part list" where
  "user_parts strip ps =
     (let text = user_text strip ps
      in (if text \<noteq> '''' then [AiText text] else []) @
         map (\<lambda>b. AiFile (mb_path b) (mb_data b) (mb_mime_type b))
           (filter (\<lambda>b. \<not> text_binary b) (binary_contents ps)))"

definition reasoning_part_of :: "reasoning_content \<Rightarrow> reasoning_part" where
  "reasoning_part_of r =
     \<lparr>rp_text = mr_thinking r,
      rp_anthropic = (if mr_signature r \<noteq> '''' then Some (mr_signature r) else None),
      rp_openai = mr_responses_data r,
      rp_google = (if mr_thought_signature r \<noteq> '''' then Some (mr_thought_signature r, mr_tool_id r) else None)\<rparr>"

definition call_part_of :: "tool_call \<Rightarrow> tool_call_part" where
  "call_part_of c = \<lparr>cp_id = tc_id c, cp_name = tc_name c, cp_input = tool_call_input (tc_input c),
     cp_provider_executed = tc_provider_executed c\<rparr>"

definition unbound_reasoning :: "parts \<Rightarrow> reasoning_content list" where
  "unbound_reasoning ps = filter (\<lambda>r. mr_tool_id r \<notin> set (call_ids ps)) (reasonings ps)"

definition bound_reasoning :: "parts \<Rightarrow> string \<Rightarrow> reasoning_content list" where
  "bound_reasoning ps i = filter (\<lambda>r. mr_tool_id r \<in> set (call_ids ps) \<and> mr_tool_id r = i) (reasonings ps)"

definition assistant_parts :: "parts \<Rightarrow> ai_part list" where
  "assistant_parts ps =
     (let text = trim_space (mt_text (content ps))
      in (if text \<noteq> '''' then [AiText text] else []) @
         map (AiReasoning \<circ> reasoning_part_of) (unbound_reasoning ps) @
         concat (map (\<lambda>c. map (AiReasoning \<circ> reasoning_part_of) (bound_reasoning ps (tc_id c)) @
                          [AiCall (call_part_of c)]) (tool_calls ps)))"

definition media_load_failed_placeholder :: string where
  "media_load_failed_placeholder = ''[Image data could not be loaded]''"

definition result_output_of :: "tool_result \<Rightarrow> result_output" where
  "result_output_of r =
     (if tr_is_error r then OutputError (tr_content r)
      else if tr_data r \<noteq> '''' then
        (if is_valid_base64 (tr_data r) then OutputMedia (tr_data r) (tr_mime_type r)
         else OutputText media_load_failed_placeholder)
      else OutputText (tr_content r))"

definition tool_parts :: "parts \<Rightarrow> ai_part list" where
  "tool_parts ps = map (\<lambda>r. AiResult (tr_call_id r) (result_output_of r)) (tool_results ps)"

definition to_ai_message :: "(string \<Rightarrow> string) \<Rightarrow> message \<Rightarrow> (ai_role \<times> ai_part list) list" where
  "to_ai_message strip m =
     (case m_role m of
        User \<Rightarrow> [(AiUser, user_parts strip (m_parts m))]
      | Assistant \<Rightarrow> [(AiAssistant, assistant_parts (m_parts m))]
      | ToolRole \<Rightarrow> [(AiTool, tool_parts (m_parts m))]
      | _ \<Rightarrow> [])"

fun ai_call :: "ai_part \<Rightarrow> tool_call_part option" where
  "ai_call (AiCall c) = Some c" | "ai_call _ = None"

fun ai_reasoning :: "ai_part \<Rightarrow> reasoning_part option" where
  "ai_reasoning (AiReasoning r) = Some r" | "ai_reasoning _ = None"

lemma collect_map_all: "(\<And>x. f (g x) = Some (h x)) \<Longrightarrow> collect f (map g xs) = map h xs"
  by (induction xs) auto

lemma collect_map_none: "(\<And>x. f (g x) = None) \<Longrightarrow> collect f (map g xs) = []"
  by (induction xs) auto

lemma collect_concat: "collect f (concat xss) = concat (map (collect f) xss)"
  by (induction xss) auto

lemma mset_by_key:
  assumes "distinct is"
  shows "mset (concat (map (\<lambda>i. filter (\<lambda>r. key r = i) rs) is)) = mset (filter (\<lambda>r. key r \<in> set is) rs)"
  using assms
proof (induction "is")
  case (Cons i js)
  have "filter_mset (\<lambda>r. key r = i \<or> key r \<in> set js) M =
      filter_mset (\<lambda>r. key r = i) M + filter_mset (\<lambda>r. key r \<in> set js) M" for M
    using Cons.prems by (induction M) auto
  then show ?case using Cons by simp
qed simp

lemma concat_split_at:
  "concat bs = xs @ y # ys \<Longrightarrow> \<exists>pre u v post. bs = pre @ (u @ y # v) # post \<and> ys = v @ concat post"
proof (induction bs arbitrary: xs)
  case (Cons b bs)
  then have "b @ concat bs = xs @ y # ys" by simp
  then consider us where "b = xs @ us" "us @ concat bs = y # ys" | us where "xs = b @ us" "concat bs = us @ y # ys"
    by (auto simp: append_eq_append_conv2)
  then show ?case
  proof cases
    case 1
    show ?thesis
    proof (cases us)
      case Nil
      then have "concat bs = [] @ y # ys" using 1(2) by simp
      from Cons.IH [OF this] obtain pre u v post
        where "bs = pre @ (u @ y # v) # post" "ys = v @ concat post" by blast
      then have "b # bs = (b # pre) @ (u @ y # v) # post \<and> ys = v @ concat post" by simp
      then show ?thesis by blast
    next
      case (Cons a vs)
      then have "b # bs = [] @ (xs @ y # vs) # bs \<and> ys = vs @ concat bs" using 1 by simp
      then show ?thesis by blast
    qed
  next
    case 2
    from Cons.IH [OF 2(2)] obtain pre u v post
      where "bs = pre @ (u @ y # v) # post" "ys = v @ concat post" by blast
    then have "b # bs = (b # pre) @ (u @ y # v) # post \<and> ys = v @ concat post" by simp
    then show ?thesis by blast
  qed
qed simp

lemma block_split:
  assumes "map (AiReasoning \<circ> f) rs @ [AiCall c] = u @ AiReasoning r # v"
  shows "\<exists>qs. v = map AiReasoning qs @ [AiCall c] \<and> r \<in> f ` set rs"
proof (cases v rule: rev_cases)
  case Nil
  then show ?thesis using assms by simp
next
  case (snoc v' z)
  then have z: "z = AiCall c" and "map (AiReasoning \<circ> f) rs = u @ AiReasoning r # v'" using assms by simp_all
  then obtain as b bs where "rs = as @ b # bs" "v' = map (AiReasoning \<circ> f) bs" "f b = r"
    by (auto simp: map_eq_append_conv map_eq_Cons_conv)
  then have "v = map AiReasoning (map f bs) @ [AiCall c] \<and> r \<in> f ` set rs" using z snoc by auto
  then show ?thesis by blast
qed

lemma member_singles_blocks:
  "b \<in> set (map (\<lambda>p. [p]) as @ map f cs) \<Longrightarrow> (\<exists>p\<in>set as. b = [p]) \<or> (\<exists>c\<in>set cs. b = f c)"
  by auto

lemma tool_call_input_valid: "json_valid (tool_call_input input)"
  by (simp add: tool_call_input_def json_valid_empty_object)

lemma assistant_parts_calls: "collect ai_call (assistant_parts ps) = map call_part_of (tool_calls ps)"
proof -
  have "concat (map (collect ai_call \<circ> (\<lambda>c. map (AiReasoning \<circ> reasoning_part_of) (bound_reasoning ps (tc_id c)) @
      [AiCall (call_part_of c)])) cs) = map call_part_of cs" for cs
    by (induction cs) (auto simp: collect_map_none)
  then show ?thesis by (simp add: assistant_parts_def Let_def collect_concat collect_map_none)
qed

lemma assistant_parts_reasoning:
  assumes "distinct (call_ids ps)"
  shows "mset (collect ai_reasoning (assistant_parts ps)) = mset (map reasoning_part_of (reasonings ps))"
proof -
  let ?bound = "\<lambda>i. filter (\<lambda>r. mr_tool_id r = i) (reasonings ps)"
  have block: "concat (map (collect ai_reasoning \<circ> (\<lambda>c. map (AiReasoning \<circ> reasoning_part_of) (bound_reasoning ps (tc_id c)) @
      [AiCall (call_part_of c)])) cs) = map reasoning_part_of (concat (map ?bound (map tc_id cs)))"
    if "set cs \<subseteq> set (tool_calls ps)" for cs
    using that
  proof (induction cs)
    case (Cons c cs)
    then have "tc_id c \<in> set (call_ids ps)" by (auto simp: call_ids_def)
    then have "bound_reasoning ps (tc_id c) = ?bound (tc_id c)"
      by (auto simp: bound_reasoning_def intro: filter_cong)
    with Cons show ?case by (simp add: collect_map_all [where h = reasoning_part_of])
  qed simp
  have "collect ai_reasoning (assistant_parts ps) =
      map reasoning_part_of (unbound_reasoning ps @ concat (map ?bound (call_ids ps)))"
    using block [OF subset_refl]
    by (simp add: assistant_parts_def Let_def collect_concat collect_map_all [where h = reasoning_part_of] call_ids_def)
  moreover have "mset (unbound_reasoning ps @ concat (map ?bound (call_ids ps))) = mset (reasonings ps)"
    using mset_by_key [OF assms, of mr_tool_id "reasonings ps"]
    by (simp add: unbound_reasoning_def)
  ultimately show ?thesis by (metis mset_map)
qed

lemma assistant_parts_binding:
  assumes "assistant_parts ps = xs @ AiReasoning r # ys" and "rp_google r = Some (sig, t)" and "t \<in> set (call_ids ps)"
  shows "\<exists>rs c zs. ys = map AiReasoning rs @ AiCall c # zs \<and> cp_id c = t"
proof -
  let ?text = "if trim_space (mt_text (content ps)) \<noteq> '''' then [AiText (trim_space (mt_text (content ps)))] else []"
  let ?pre = "?text @ map (AiReasoning \<circ> reasoning_part_of) (unbound_reasoning ps)"
  let ?block = "\<lambda>c. map (AiReasoning \<circ> reasoning_part_of) (bound_reasoning ps (tc_id c)) @ [AiCall (call_part_of c)]"
  have singles: "concat (map (\<lambda>p. [p]) qs) = qs" for qs :: "ai_part list" by (induction qs) auto
  have out: "concat (map (\<lambda>p. [p]) ?pre @ map ?block (tool_calls ps)) = xs @ AiReasoning r # ys"
    unfolding concat_append singles using assms(1) by (simp add: assistant_parts_def Let_def)
  have google: "mr_tool_id q = t" if "r = reasoning_part_of q" for q
    using that assms(2) by (auto simp: reasoning_part_of_def split: if_splits)
  from concat_split_at [OF out] obtain pre u v post
    where split: "map (\<lambda>p. [p]) ?pre @ map ?block (tool_calls ps) = pre @ (u @ AiReasoning r # v) # post"
      and ys: "ys = v @ concat post" by blast
  then have "u @ AiReasoning r # v \<in> set (map (\<lambda>p. [p]) ?pre @ map ?block (tool_calls ps))" by simp
  from member_singles_blocks [OF this] show ?thesis
  proof (elim disjE bexE)
    fix p
    assume "p \<in> set ?pre" "u @ AiReasoning r # v = [p]"
    then have "AiReasoning r \<in> set ?pre" by (cases u) auto
    then obtain q where "q \<in> set (unbound_reasoning ps)" "r = reasoning_part_of q" by (auto split: if_splits)
    with google assms(3) show ?thesis by (auto simp: unbound_reasoning_def)
  next
    fix c
    assume "c \<in> set (tool_calls ps)" and "u @ AiReasoning r # v = ?block c"
    from block_split [OF this(2) [symmetric]] obtain qs where v: "v = map AiReasoning qs @ [AiCall (call_part_of c)]"
      and r: "r \<in> reasoning_part_of ` set (bound_reasoning ps (tc_id c))" by blast
    then have "tc_id c = t" using google by (auto simp: bound_reasoning_def)
    then have "ys = map AiReasoning qs @ AiCall (call_part_of c) # concat post \<and> cp_id (call_part_of c) = t"
      using v ys by (simp add: call_part_of_def)
    then show ?thesis by blast
  qed
qed

text \<open>
  C24: the replay of an assistant message with distinct call ids keeps every tool call once, in order,
  with arguments that are valid JSON whatever was streamed; it keeps every reasoning part exactly
  once, even empty ones; and a thought signature that names one of the calls is followed, past other
  reasoning only, by that very call, which is what its positional reading needs.
\<close>

theorem replay_keeps_calls_and_reasoning:
  assumes "to_ai_message strip m = [(AiAssistant, out)]" and "distinct (call_ids (m_parts m))"
  shows "collect ai_call out = map call_part_of (tool_calls (m_parts m)) \<and>
    (\<forall>c\<in>set (collect ai_call out). json_valid (cp_input c)) \<and>
    mset (collect ai_reasoning out) = mset (map reasoning_part_of (reasonings (m_parts m))) \<and>
    (\<forall>xs r ys sig t. out = xs @ AiReasoning r # ys \<and> rp_google r = Some (sig, t) \<and> t \<in> set (call_ids (m_parts m)) \<longrightarrow>
       (\<exists>rs c zs. ys = map AiReasoning rs @ AiCall c # zs \<and> cp_id c = t))"
proof -
  have "out = assistant_parts (m_parts m)"
    using assms(1) by (auto simp: to_ai_message_def split: message_role.splits)
  moreover have "json_valid (cp_input c)" if "c \<in> set (map call_part_of tcs)" for c tcs
    using that by (auto simp: call_part_of_def tool_call_input_valid)
  ultimately show ?thesis
    using assistant_parts_calls assistant_parts_reasoning [OF assms(2)] assistant_parts_binding by metis
qed

theorem replay_keeps_calls_and_reasoning_witness:
  "let c = \<lparr>tc_id = ''c'', tc_name = ''bash'', tc_input = ''{'', tc_provider_executed = False, tc_finished = False\<rparr>;
       r = no_reasoning\<lparr>mr_thought_signature := ''s'', mr_tool_id := ''c''\<rparr>;
       out = [AiReasoning (reasoning_part_of r), AiCall (call_part_of c)]
   in collect ai_call out = [call_part_of c] \<and> mset (collect ai_reasoning out) = {#reasoning_part_of r#}"
proof -
  let ?c = "\<lparr>tc_id = ''c'', tc_name = ''bash'', tc_input = ''{'', tc_provider_executed = False, tc_finished = False\<rparr>"
  let ?r = "no_reasoning\<lparr>mr_thought_signature := ''s'', mr_tool_id := ''c''\<rparr>"
  let ?m = "\<lparr>m_id = ''m'', m_role = Assistant, m_session_id = ''s'', m_parts = [Reasoning ?r, Call ?c], m_updated_at = 0\<rparr>"
  have "to_ai_message (\<lambda>s. s) ?m = [(AiAssistant, [AiReasoning (reasoning_part_of ?r), AiCall (call_part_of ?c)])]"
    by code_simp
  moreover have "distinct (call_ids (m_parts ?m))" by (simp add: call_ids_def tool_calls_def)
  ultimately show ?thesis
    using replay_keeps_calls_and_reasoning [of "\<lambda>s. s" ?m] by (simp add: Let_def tool_calls_def)
qed

subsection \<open>Stubs\<close>

text \<open>The UTF-8 bytes of an em dash and of an ellipsis.\<close>

definition em_dash :: string where
  "em_dash = [CHR 0xE2, CHR 0x80, CHR 0x94]"

definition ellipsis :: string where
  "ellipsis = [CHR 0xE2, CHR 0x80, CHR 0xA6]"

definition stub_kind_string :: "stub_kind \<Rightarrow> string" where
  "stub_kind_string k =
     (case k of StubKindSuperseded \<Rightarrow> ''superseded'' | StubKindModified \<Rightarrow> ''modified''
      | StubKindDeleted \<Rightarrow> ''deleted'' | StubKindDuplicate \<Rightarrow> ''duplicate'' | StubKindRerun \<Rightarrow> ''rerun''
      | StubKindStale \<Rightarrow> ''stale'' | OtherStubKind s \<Rightarrow> s)"

definition stub_kinds :: "stub_kind list" where
  "stub_kinds = [StubKindSuperseded, StubKindModified, StubKindDeleted, StubKindDuplicate, StubKindRerun, StubKindStale]"

definition stub_head_prefix_bytes :: nat where
  "stub_head_prefix_bytes = 320"

definition stub_head_line_bytes :: nat where
  "stub_head_line_bytes = 160"

definition head_prefix :: "string \<Rightarrow> nat \<Rightarrow> string" where
  "head_prefix s n =
     (if length s \<le> n then s
      else let cut = (case last_index (\<lambda>c. c = CHR 0x0A) (take n s) of
                        Some i \<Rightarrow> (if n * 3 div 4 \<le> i then i + 1 else n)
                      | None \<Rightarrow> n)
           in take (cut_ansi_safe_left s cut) s)"

definition head_line :: "string \<Rightarrow> nat \<Rightarrow> string" where
  "head_line s n =
     (let l = (case first_index (\<lambda>c. c = CHR 0x0A) s of Some i \<Rightarrow> take i s | None \<Rightarrow> s)
      in if n < length l then take (cut_ansi_safe_left l n) l @ ellipsis else l)"

definition recall_text :: "tool_result \<Rightarrow> string" where
  "recall_text tr = ''recall('' @ [CHR 0x22] @ ''result:'' @ tr_call_id tr @ [CHR 0x22] @ '')''"

definition stub_text :: "(string \<Rightarrow> string) \<Rightarrow> superseded_mark \<Rightarrow> tool_result \<Rightarrow> string" where
  "stub_text quote m tr =
     (let recall = recall_text tr; turn = int_str (sm_turn m)
      in case sm_kind m of
           StubKindModified \<Rightarrow>
             ''[content of '' @ sm_path m @ '' is stale '' @ em_dash @
             '' the file changed on disk after this read (turn '' @ turn @
             ''); re-view for current state, or '' @ recall @ '' for the snapshot]''
         | StubKindDeleted \<Rightarrow>
             ''['' @ sm_path m @ '' was deleted after this read (turn '' @ turn @ ''); '' @ recall @
             '' for the last snapshot]''
         | StubKindDuplicate \<Rightarrow>
             ''[identical '' @ tr_name tr @ '' output superseded by a later run at turn '' @ turn @ ''; '' @
             recall @ '' for this copy]''
         | StubKindRerun \<Rightarrow>
             ''[earlier '' @ tr_name tr @ '' output differed from a re-run at turn '' @ turn @ '' '' @ em_dash @
             '' it began '' @ quote (head_line (tr_content tr) stub_head_line_bytes) @ ''; '' @ recall @
             '' for the full output]''
         | StubKindStale \<Rightarrow>
             (let total = (if sm_bytes m = 0 then int (length (tr_content tr)) else sm_bytes m)
              in head_prefix (tr_content tr) stub_head_prefix_bytes @ nl @ ''[rest of '' @ tr_name tr @
                 '' output elided ('' @ int_str total @ '' bytes total, turn '' @ turn @ ''); '' @ recall @
                 '' or re-run for the rest]'')
         | _ \<Rightarrow>
             ''[content of '' @ sm_path m @ '' superseded by '' @ sm_by_tool m @ '' at turn '' @ turn @
             ''; re-view for current state, or '' @ recall @ '' for the pre-edit snapshot]'')"

lemma head_prefix_spec:
  "\<exists>k\<le>n. head_prefix s n = take k s \<and> rune_boundary s (length (head_prefix s n))"
proof (cases "length s \<le> n")
  case True
  then show ?thesis by (intro exI [of _ "length s"]) (simp add: head_prefix_def rune_boundary_def)
next
  case False
  define cut where "cut = (case last_index (\<lambda>c. c = CHR 0x0A) (take n s) of
                        Some i \<Rightarrow> (if n * 3 div 4 \<le> i then i + 1 else n) | None \<Rightarrow> n)"
  have "cut \<le> n"
    using last_index_Some [of "\<lambda>c. c = CHR 0x0A" "take n s"] by (auto simp: cut_def split: option.splits)
  then have "cut_ansi_safe_left s cut \<le> n" using cut_left_bounds(1) [of s cut] by simp
  moreover have "head_prefix s n = take (cut_ansi_safe_left s cut) s"
    using False by (simp add: head_prefix_def cut_def Let_def)
  ultimately show ?thesis using cut_left_bounds [of s cut] by (auto simp: min_absorb2 intro!: exI [of _ "cut_ansi_safe_left s cut"])
qed

lemma head_line_bound: "length (head_line s n) \<le> n + 3"
proof -
  have "length (take (cut_ansi_safe_left l n) l) \<le> n" for l using cut_left_bounds(1) [of l n] by simp
  then show ?thesis by (simp only: head_line_def Let_def) (simp add: ellipsis_def)
qed

lemma sublist_midI: "sublist p (xs @ p @ ys)"
  by (auto simp: sublist_def)

lemma stub_text_recall: "sublist (recall_text tr) (stub_text quote m tr)"
proof (cases "sm_kind m")
  case StubKindModified
  then show ?thesis by (simp add: stub_text_def Let_def del: append_Cons) (metis append_assoc sublist_midI)
qed (simp_all add: stub_text_def Let_def del: append_Cons, (metis append_assoc sublist_midI)+)

text \<open>
  Whatever kind of stub replaces a tool result, it names the recall key of the stored original;
  a stale result's stub begins with a prefix of the output, of at most 320 bytes, that ends on a rune
  boundary.
\<close>

theorem stub_recoverable:
  shows "sublist (''recall('' @ [CHR 0x22] @ ''result:'' @ tr_call_id tr @ [CHR 0x22] @ '')'') (stub_text quote m tr) \<and>
    (sm_kind m = StubKindStale \<longrightarrow>
       (\<exists>k\<le>320. prefix (take k (tr_content tr)) (stub_text quote m tr) \<and>
         rune_boundary (tr_content tr) (length (take k (tr_content tr)))))"
proof (intro conjI impI)
  show "sublist (''recall('' @ [CHR 0x22] @ ''result:'' @ tr_call_id tr @ [CHR 0x22] @ '')'') (stub_text quote m tr)"
    using stub_text_recall [of tr quote m] by (simp only: recall_text_def)
  assume k: "sm_kind m = StubKindStale"
  obtain j where j: "j \<le> 320" "head_prefix (tr_content tr) stub_head_prefix_bytes = take j (tr_content tr)"
      "rune_boundary (tr_content tr) (length (take j (tr_content tr)))"
    using head_prefix_spec [where n = stub_head_prefix_bytes and s = "tr_content tr"]
    by (metis stub_head_prefix_bytes_def)
  have "prefix (take j (tr_content tr)) (stub_text quote m tr)"
    by (simp add: stub_text_def Let_def k j(2))
  with j show "\<exists>k\<le>320. prefix (take k (tr_content tr)) (stub_text quote m tr) \<and>
      rune_boundary (tr_content tr) (length (take k (tr_content tr)))" by blast
qed

theorem stub_recoverable_witness:
  "let tr = \<lparr>tr_call_id = ''c1'', tr_name = ''bash'', tr_content = ''ok'', tr_data = '''', tr_mime_type = '''',
            tr_metadata = '''', tr_is_error = False, tr_file_mtime = 0, tr_superseded = None\<rparr>;
       m = \<lparr>sm_path = '''', sm_by_tool = '''', sm_turn = 3, sm_applied = True, sm_kind = StubKindStale, sm_bytes = 0\<rparr>
   in \<exists>k\<le>320. prefix (take k ''ok'') (stub_text (\<lambda>s. s) m tr) \<and> rune_boundary ''ok'' (length (take k ''ok''))"
  using stub_recoverable [of "\<lparr>tr_call_id = ''c1'', tr_name = ''bash'', tr_content = ''ok'', tr_data = '''', tr_mime_type = '''',
      tr_metadata = '''', tr_is_error = False, tr_file_mtime = 0, tr_superseded = None\<rparr>" "\<lambda>s. s"
      "\<lparr>sm_path = '''', sm_by_tool = '''', sm_turn = 3, sm_applied = True, sm_kind = StubKindStale, sm_bytes = 0\<rparr>"]
  by (simp add: Let_def)

end
