(* ===== verification/MessageStore.thy ===== *)
theory MessageStore
  imports Message
begin

text \<open>
  internal/message/message.go: the message store. \<open>Update\<close> is buffered: streaming deltas are
  coalesced in a \<open>pendingState\<close> per message and written by the debounce timer, by the next
  terminal update or by \<open>Flush\<close>. The sections under \<open>s.mu\<close> are one step each; the SQL
  statements and the publications between them are steps of their own, so that flushers, deletions
  and updates interleave as they do at run time. The table is a map from ids to rows (\<open>UPDATE\<close> and
  \<open>DELETE\<close> of a missing id affect no row, \<open>INSERT\<close> draws a fresh uuid); whether a statement fails is
  the argument \<open>ok\<close>. Publications are logged in their order. The parts of a row are kept decoded;
  their encoding is the last section. The \<open>updated_at\<close> stamp of a row is the database's. The columns
  \<open>write\<close> sets beside the parts (the finish time, which repeats the finish part's, and the four Prism
  columns) are left out: nothing modelled here reads them.
\<close>

subsection \<open>What must not be coalesced\<close>

record flush_baseline =
  fb_calls_finished :: "bool list"
  fb_reasoning_finished :: nat

definition count_finished_reasoning :: "parts \<Rightarrow> nat" where
  "count_finished_reasoning ps = length (filter (\<lambda>c. mr_finished_at c \<noteq> 0) (reasonings ps))"

definition new_flush_baseline :: "parts \<Rightarrow> flush_baseline" where
  "new_flush_baseline ps = \<lparr>fb_calls_finished = map tc_finished (tool_calls ps),
     fb_reasoning_finished = count_finished_reasoning ps\<rparr>"

definition no_baseline :: flush_baseline where
  "no_baseline = \<lparr>fb_calls_finished = [], fb_reasoning_finished = 0\<rparr>"

fun calls_changed :: "tool_call list \<Rightarrow> bool list \<Rightarrow> bool" where
  "calls_changed (c # cs) (f # fs) = (if tc_finished c \<noteq> f then True else calls_changed cs fs)"
| "calls_changed _ _ = False"

definition should_flush_now :: "flush_baseline option \<Rightarrow> parts \<Rightarrow> bool" where
  "should_flush_now prev ps =
     (if is_finished ps then True
      else let base = (case prev of None \<Rightarrow> no_baseline | Some b \<Rightarrow> b);
               calls = tool_calls ps
           in if length calls \<noteq> length (fb_calls_finished base) then True
              else if calls_changed calls (fb_calls_finished base) then True
              else fb_reasoning_finished base < count_finished_reasoning ps)"

lemma calls_changed_iff: "length cs = length fs \<Longrightarrow> calls_changed cs fs \<longleftrightarrow> map tc_finished cs \<noteq> fs"
  by (induction cs fs rule: list_induct2) auto

text \<open>An update that is not terminal shows the same calls, as finished as they were written last.\<close>

lemma should_flush_now_iff:
  "should_flush_now (Some b) ps \<longleftrightarrow>
     is_finished ps \<or> map tc_finished (tool_calls ps) \<noteq> fb_calls_finished b \<or>
     fb_reasoning_finished b < count_finished_reasoning ps"
proof (cases "length (tool_calls ps) = length (fb_calls_finished b)")
  case True
  then show ?thesis by (simp add: should_flush_now_def Let_def calls_changed_iff)
next
  case False
  then have "map tc_finished (tool_calls ps) \<noteq> fb_calls_finished b" by (metis length_map)
  with False show ?thesis by (simp add: should_flush_now_def Let_def)
qed

subsection \<open>The service\<close>

record pending_state =
  pp_latest :: message
  pp_dirty :: bool
  pp_flushing :: bool
  pp_timer :: bool
  pp_baseline :: flush_baseline
  pp_has_flushed :: bool

definition no_message :: message where
  "no_message = \<lparr>m_id = '''', m_role = OtherRole '''', m_session_id = '''', m_parts = [], m_updated_at = 0\<rparr>"

definition new_pending :: pending_state where
  "new_pending = \<lparr>pp_latest = no_message, pp_dirty = False, pp_flushing = False, pp_timer = False,
     pp_baseline = no_baseline, pp_has_flushed = False\<rparr>"

datatype message_event = MsgCreated message | MsgUpdated message | MsgUpdatedMustDeliver message | MsgDeleted message

text \<open>
  \<open>ms_pending\<close> maps an id to the address of its entry: a flusher keeps the pointer while its entry
  may be dropped from the map.
\<close>

record store =
  ms_debounced :: bool
  ms_pending :: "(string, nat) gomap"
  ms_heap :: "nat \<Rightarrow> pending_state"
  ms_next :: nat
  ms_rows :: "(string, message) gomap"
  ms_log :: "message_event list"

definition new_service :: "bool \<Rightarrow> store" where
  "new_service debounced = \<lparr>ms_debounced = debounced, ms_pending = [], ms_heap = (\<lambda>_. new_pending),
     ms_next = 0, ms_rows = [], ms_log = []\<rparr>"

definition set_entry :: "nat \<Rightarrow> pending_state \<Rightarrow> store \<Rightarrow> store" where
  "set_entry p e st = st\<lparr>ms_heap := (ms_heap st)(p := e)\<rparr>"

definition publish :: "message_event \<Rightarrow> store \<Rightarrow> store" where
  "publish ev st = st\<lparr>ms_log := ms_log st @ [ev]\<rparr>"

text \<open>The key an undelivered update is replaced under.\<close>

definition coalesce_key :: "message_event \<Rightarrow> string" where
  "coalesce_key ev = (case ev of MsgUpdated m \<Rightarrow> m_id m | MsgUpdatedMustDeliver m \<Rightarrow> m_id m | _ \<Rightarrow> '''')"

definition pending_for :: "string \<Rightarrow> store \<Rightarrow> nat \<times> store" where
  "pending_for i st =
     (case map_of (ms_pending st) i of
        Some p \<Rightarrow> (p, st)
      | None \<Rightarrow> (ms_next st, st\<lparr>ms_pending := AList.update i (ms_next st) (ms_pending st),
                               ms_heap := (ms_heap st)(ms_next st := new_pending), ms_next := ms_next st + 1\<rparr>))"

definition prev_baseline :: "pending_state \<Rightarrow> flush_baseline option" where
  "prev_baseline e = (if pp_has_flushed e then Some (pp_baseline e) else None)"

text \<open>\<open>Update\<close> up to the unlock; the answer says whether the caller goes on to flush synchronously.\<close>

definition update_locked :: "message \<Rightarrow> store \<Rightarrow> bool \<times> store" where
  "update_locked m st =
     (let (p, st1) = pending_for (m_id m) st;
          e = (ms_heap st1 p)\<lparr>pp_latest := m, pp_dirty := True\<rparr>
      in if \<not> ms_debounced st then (True, set_entry p e st1)
         else if should_flush_now (prev_baseline e) (m_parts m)
         then (True, set_entry p (e\<lparr>pp_timer := False\<rparr>) st1)
         else if \<not> pp_timer e \<and> \<not> pp_flushing e then (False, set_entry p (e\<lparr>pp_timer := True\<rparr>) st1)
         else (False, set_entry p e st1))"

text \<open>The two locked sections of a turn of \<open>flushOne\<close> and the write between them.\<close>

datatype flush_begin = FlushReturn | FlushWait | FlushStart nat message bool

definition flush_begin :: "string \<Rightarrow> bool \<Rightarrow> store \<Rightarrow> flush_begin \<times> store" where
  "flush_begin i sync st =
     (case map_of (ms_pending st) i of
        None \<Rightarrow> (FlushReturn, st)
      | Some p \<Rightarrow>
          (let e = ms_heap st p
           in if pp_flushing e then (if sync then FlushWait else FlushReturn, st)
              else if \<not> pp_dirty e then (FlushReturn, st)
              else (FlushStart p (pp_latest e) (should_flush_now (prev_baseline e) (m_parts (pp_latest e))),
                    set_entry p (e\<lparr>pp_timer := False, pp_flushing := True, pp_dirty := False\<rparr>) st)))"

definition write_row :: "message \<Rightarrow> store \<Rightarrow> store" where
  "write_row m st =
     (case map_of (ms_rows st) (m_id m) of
        None \<Rightarrow> st
      | Some r \<Rightarrow> st\<lparr>ms_rows := AList.update (m_id m) (r\<lparr>m_parts := m_parts m\<rparr>) (ms_rows st)\<rparr>)"

definition flush_end :: "nat \<Rightarrow> message \<Rightarrow> bool \<Rightarrow> store \<Rightarrow> bool \<times> store" where
  "flush_end p snap ok st =
     (let e = (ms_heap st p)\<lparr>pp_flushing := False\<rparr>;
          e1 = (if ok then e\<lparr>pp_baseline := new_flush_baseline (m_parts snap), pp_has_flushed := True\<rparr>
                else e\<lparr>pp_dirty := True\<rparr>);
          e2 = (if \<not> pp_dirty e1 then e1\<lparr>pp_latest := no_message\<rparr> else e1)
      in (pp_dirty e1, set_entry p e2 st))"

text \<open>\<open>Create\<close>: only assistant messages are created unfinished.\<close>

definition created_parts :: "message_role \<Rightarrow> parts \<Rightarrow> parts" where
  "created_parts role ps =
     (if role \<noteq> Assistant
      then ps @ [Finished \<lparr>fi_reason = OtherReason ''stop'', fi_time = 0, fi_message = '''', fi_details = ''''\<rparr>]
      else ps)"

definition create :: "string \<Rightarrow> string \<Rightarrow> message_role \<Rightarrow> parts \<Rightarrow> bool \<Rightarrow> store \<Rightarrow> message option \<times> store" where
  "create uuid session role ps ok st =
     (if \<not> ok then (None, st)
      else let m = \<lparr>m_id = uuid, m_role = role, m_session_id = session, m_parts = created_parts role ps, m_updated_at = 0\<rparr>
           in (Some m, publish (MsgCreated m) (st\<lparr>ms_rows := ms_rows st @ [(uuid, m)]\<rparr>)))"

definition get_message :: "string \<Rightarrow> store \<Rightarrow> message option" where
  "get_message i st = map_of (ms_rows st) i"

definition delete_row :: "string \<Rightarrow> store \<Rightarrow> store" where
  "delete_row i st = st\<lparr>ms_rows := AList.delete i (ms_rows st)\<rparr>"

text \<open>\<open>delete(s.pending, id)\<close>, with the entry's timer stopped.\<close>

definition drop_pending :: "string \<Rightarrow> store \<Rightarrow> store" where
  "drop_pending i st =
     (case map_of (ms_pending st) i of
        None \<Rightarrow> st
      | Some p \<Rightarrow> (set_entry p ((ms_heap st p)\<lparr>pp_timer := False\<rparr>) st)\<lparr>ms_pending := AList.delete i (ms_pending st)\<rparr>)"

definition list_messages :: "string \<Rightarrow> store \<Rightarrow> message list" where
  "list_messages session st = filter (\<lambda>m. m_session_id m = session) (map snd (ms_rows st))"

subsection \<open>Goroutines\<close>

text \<open>Where a goroutine in the service stands; \<open>sync\<close> is \<open>syncCaller\<close>.\<close>

datatype routine =
    FlushLoop string bool
  | FlushWriting string bool nat message bool
  | FlushWritten string bool nat message bool bool
  | FlushPublish string bool message bool bool
  | DeleteGet string
  | DeleteRow string message
  | DeletePending string message
  | DeletePublish message
  | Returned bool

fun routine_step :: "bool \<Rightarrow> routine \<Rightarrow> store \<Rightarrow> routine \<times> store" where
  "routine_step ok (FlushLoop i sync) st =
     (case flush_begin i sync st of
        (FlushReturn, st') \<Rightarrow> (Returned True, st')
      | (FlushWait, st') \<Rightarrow> (FlushLoop i sync, st')
      | (FlushStart p snap terminal, st') \<Rightarrow> (FlushWriting i sync p snap terminal, st'))"
| "routine_step ok (FlushWriting i sync p snap terminal) st =
     (FlushWritten i sync p snap terminal ok, if ok then write_row snap st else st)"
| "routine_step ok (FlushWritten i sync p snap terminal written) st =
     (case flush_end p snap written st of
        (was_dirty, st') \<Rightarrow> (if \<not> written then Returned False else FlushPublish i sync snap terminal was_dirty, st'))"
| "routine_step ok (FlushPublish i sync snap terminal was_dirty) st =
     (if was_dirty \<and> sync then FlushLoop i sync else Returned True,
      publish (if terminal then MsgUpdatedMustDeliver snap else MsgUpdated snap) st)"
| "routine_step ok (DeleteGet i) st =
     (if \<not> ok then (Returned False, st)
      else case get_message i st of None \<Rightarrow> (Returned False, st) | Some m \<Rightarrow> (DeleteRow i m, st))"
| "routine_step ok (DeleteRow i m) st =
     (if \<not> ok then (Returned False, st) else (DeletePending i m, delete_row (m_id m) st))"
| "routine_step ok (DeletePending i m) st = (DeletePublish m, drop_pending i st)"
| "routine_step ok (DeletePublish m) st = (Returned True, publish (MsgDeleted m) st)"
| "routine_step ok (Returned b) st = (Returned b, st)"

text \<open>
  The whole service: calls come in, timers fire, and every routine takes its steps in any order.
  \<open>sy_used\<close> are the ids seen so far; a uuid drawn by \<open>Create\<close> is not among them.
\<close>

record system =
  sy_store :: store
  sy_routines :: "routine list"
  sy_used :: "string list"

datatype system_event =
    CallCreate string string message_role parts bool
  | CallUpdate message
  | CallFlush string
  | CallDelete string
  | FireTimer string
  | Run nat bool

definition spawn :: "routine \<Rightarrow> system \<Rightarrow> system" where
  "spawn r sys = sys\<lparr>sy_routines := sy_routines sys @ [r]\<rparr>"

definition timer_set :: "string \<Rightarrow> store \<Rightarrow> bool" where
  "timer_set i st = (case map_of (ms_pending st) i of None \<Rightarrow> False | Some p \<Rightarrow> pp_timer (ms_heap st p))"

fun system_step :: "system \<Rightarrow> system_event \<Rightarrow> system" where
  "system_step sys (CallCreate uuid session role ps ok) =
     (if uuid \<in> set (sy_used sys) then sys
      else sys\<lparr>sy_store := snd (create uuid session role ps ok (sy_store sys)), sy_used := uuid # sy_used sys\<rparr>)"
| "system_step sys (CallUpdate m) =
     (let (sync, st) = update_locked m (sy_store sys);
          sys' = sys\<lparr>sy_store := st, sy_used := m_id m # sy_used sys\<rparr>
      in if sync then spawn (FlushLoop (m_id m) True) sys' else sys')"
| "system_step sys (CallFlush i) = spawn (FlushLoop i True) sys"
| "system_step sys (CallDelete i) = spawn (DeleteGet i) sys"
| "system_step sys (FireTimer i) =
     (if timer_set i (sy_store sys) then spawn (FlushLoop i False) sys else sys)"
| "system_step sys (Run t ok) =
     (if t < length (sy_routines sys)
      then let (r, st) = routine_step ok (sy_routines sys ! t) (sy_store sys)
           in sys\<lparr>sy_store := st, sy_routines := (sy_routines sys)[t := r]\<rparr>
      else sys)"

definition init_system :: "bool \<Rightarrow> system" where
  "init_system debounced = \<lparr>sy_store = new_service debounced, sy_routines = [], sy_used = []\<rparr>"

definition run_system :: "system \<Rightarrow> system_event list \<Rightarrow> system" where
  "run_system sys evs = foldl system_step sys evs"

subsection \<open>The invariant of the service\<close>

abbreviation entry_of :: "store \<Rightarrow> string \<Rightarrow> nat option" where
  "entry_of st i \<equiv> map_of (ms_pending st) i"

abbreviation row_of :: "store \<Rightarrow> string \<Rightarrow> message option" where
  "row_of st i \<equiv> map_of (ms_rows st) i"

definition store_inv :: "store \<Rightarrow> bool" where
  "store_inv st \<longleftrightarrow>
     (\<forall>i p. entry_of st i = Some p \<longrightarrow> p < ms_next st) \<and>
     (\<forall>i j p. i \<noteq> j \<and> entry_of st i = Some p \<longrightarrow> entry_of st j \<noteq> Some p) \<and>
     (\<forall>i r. row_of st i = Some r \<longrightarrow> m_id r = i) \<and>
     (\<forall>i p. entry_of st i = Some p \<and> (pp_dirty (ms_heap st p) \<or> pp_flushing (ms_heap st p)) \<longrightarrow>
        m_id (pp_latest (ms_heap st p)) = i)"

text \<open>A routine between the two sections of a flush of entry \<open>p\<close> with snapshot \<open>m\<close>.\<close>

definition flight_inv :: "store \<Rightarrow> string \<Rightarrow> nat \<Rightarrow> message \<Rightarrow> bool" where
  "flight_inv st i p m \<longleftrightarrow>
     p < ms_next st \<and> pp_flushing (ms_heap st p) \<and> m_id m = i \<and>
     (pp_dirty (ms_heap st p) \<or> pp_latest (ms_heap st p) = m) \<and>
     (row_of st i = None \<or> entry_of st i = Some p) \<and> (\<forall>j. j \<noteq> i \<longrightarrow> entry_of st j \<noteq> Some p)"

fun routine_inv :: "store \<Rightarrow> routine \<Rightarrow> bool" where
  "routine_inv st (FlushWriting i sync p m t) = flight_inv st i p m"
| "routine_inv st (FlushWritten i sync p m t ok) =
     (flight_inv st i p m \<and> (\<forall>r. ok \<and> row_of st i = Some r \<longrightarrow> m_parts r = m_parts m))"
| "routine_inv st (DeleteRow i m) = (m_id m = i)"
| "routine_inv st (DeletePending i m) = (row_of st i = None)"
| "routine_inv st _ = True"

fun holds :: "routine \<Rightarrow> nat option" where
  "holds (FlushWriting i sync p m t) = Some p"
| "holds (FlushWritten i sync p m t ok) = Some p"
| "holds _ = None"

fun routine_id :: "routine \<Rightarrow> string option" where
  "routine_id (FlushWriting i sync p m t) = Some i"
| "routine_id (FlushWritten i sync p m t ok) = Some i"
| "routine_id (DeleteRow i m) = Some i"
| "routine_id (DeletePending i m) = Some i"
| "routine_id _ = None"

text \<open>No two routines flush the same entry.\<close>

definition exclusive :: "routine list \<Rightarrow> bool" where
  "exclusive rs \<longleftrightarrow>
     (\<forall>u<length rs. \<forall>v<length rs. u \<noteq> v \<longrightarrow> holds (rs ! u) = None \<or> holds (rs ! u) \<noteq> holds (rs ! v))"

definition system_inv :: "system \<Rightarrow> bool" where
  "system_inv sys \<longleftrightarrow>
     store_inv (sy_store sys) \<and> (\<forall>r\<in>set (sy_routines sys). routine_inv (sy_store sys) r) \<and>
     exclusive (sy_routines sys) \<and>
     (\<forall>i. i \<notin> set (sy_used sys) \<longrightarrow> entry_of (sy_store sys) i = None \<and> row_of (sy_store sys) i = None) \<and>
     (\<forall>r\<in>set (sy_routines sys). \<forall>i. routine_id r = Some i \<longrightarrow> i \<in> set (sy_used sys))"

lemma set_entry_simps [simp]:
  "ms_pending (set_entry p e st) = ms_pending st" "ms_rows (set_entry p e st) = ms_rows st"
  "ms_next (set_entry p e st) = ms_next st" "ms_heap (set_entry p e st) = (ms_heap st)(p := e)"
  "ms_log (set_entry p e st) = ms_log st" "ms_debounced (set_entry p e st) = ms_debounced st"
  by (simp_all add: set_entry_def)

lemma publish_simps [simp]:
  "ms_pending (publish ev st) = ms_pending st" "ms_rows (publish ev st) = ms_rows st"
  "ms_next (publish ev st) = ms_next st" "ms_heap (publish ev st) = ms_heap st"
  "ms_log (publish ev st) = ms_log st @ [ev]"
  by (simp_all add: publish_def)

lemma publish_inv [simp]:
  "store_inv (publish ev st) = store_inv st" "routine_inv (publish ev st) r = routine_inv st r"
  by (simp add: store_inv_def) (cases r; simp add: flight_inv_def)

lemma pending_for_spec:
  assumes "store_inv st" and "pending_for i st = (p, st1)"
  shows "store_inv st1" and "entry_of st1 i = Some p" and "ms_rows st1 = ms_rows st"
    and "\<And>j. j \<noteq> i \<Longrightarrow> entry_of st1 j = entry_of st j" and "ms_next st \<le> ms_next st1" and "p < ms_next st1"
    and "entry_of st i = Some p \<and> st1 = st \<or> entry_of st i = None \<and> p = ms_next st \<and> ms_heap st1 p = new_pending"
    and "\<And>q. q < ms_next st \<Longrightarrow> ms_heap st1 q = ms_heap st q" and "ms_debounced st1 = ms_debounced st"
proof -
  have "store_inv st1 \<and> entry_of st1 i = Some p \<and> ms_rows st1 = ms_rows st \<and>
    (\<forall>j. j \<noteq> i \<longrightarrow> entry_of st1 j = entry_of st j) \<and> ms_next st \<le> ms_next st1 \<and> p < ms_next st1 \<and>
    (entry_of st i = Some p \<and> st1 = st \<or> entry_of st i = None \<and> p = ms_next st \<and> ms_heap st1 p = new_pending) \<and>
    (\<forall>q. q < ms_next st \<longrightarrow> ms_heap st1 q = ms_heap st q) \<and> ms_debounced st1 = ms_debounced st"
  proof (cases "entry_of st i")
    case (Some q)
    then show ?thesis using assms by (auto simp: pending_for_def store_inv_def)
  next
    case None
    let ?st = "st\<lparr>ms_pending := AList.update i (ms_next st) (ms_pending st),
                 ms_heap := (ms_heap st)(ms_next st := new_pending), ms_next := ms_next st + 1\<rparr>"
    have new: "p = ms_next st" "st1 = ?st" using assms(2) None unfolding pending_for_def by auto
    have old: "entry_of st j = Some q \<Longrightarrow> q < ms_next st" for j q using assms(1) by (simp add: store_inv_def)
    have "store_inv ?st" unfolding store_inv_def
    proof (intro conjI allI impI)
      fix j q assume "entry_of ?st j = Some q"
      then show "q < ms_next ?st" using old [of j q] by (auto split: if_splits)
    next
      fix j k q assume "j \<noteq> k \<and> entry_of ?st j = Some q"
      then show "entry_of ?st k \<noteq> Some q"
        using assms(1) old [of j "ms_next st"] old [of k "ms_next st"] by (auto simp: store_inv_def split: if_splits)
    next
      fix j r assume "row_of ?st j = Some r"
      then show "m_id r = j" using assms(1) by (simp add: store_inv_def)
    next
      fix j q assume "entry_of ?st j = Some q \<and> (pp_dirty (ms_heap ?st q) \<or> pp_flushing (ms_heap ?st q))"
      then have e: "entry_of ?st j = Some q" "pp_dirty (ms_heap ?st q) \<or> pp_flushing (ms_heap ?st q)" by blast+
      show "m_id (pp_latest (ms_heap ?st q)) = j"
      proof (cases "j = i")
        case True
        with e show ?thesis by (auto simp: new_pending_def)
      next
        case False
        then have "entry_of st j = Some q" using e(1) by simp
        moreover from old [OF this] have "ms_heap ?st q = ms_heap st q" by simp
        ultimately show ?thesis using e(2) assms(1) unfolding store_inv_def by metis
      qed
    qed
    moreover have "entry_of ?st i = Some (ms_next st)" "ms_heap ?st (ms_next st) = new_pending"
      "\<forall>q. q < ms_next st \<longrightarrow> ms_heap ?st q = ms_heap st q" "\<forall>j. j \<noteq> i \<longrightarrow> entry_of ?st j = entry_of st j"
      by simp_all
    ultimately show ?thesis unfolding new using None by simp
  qed
  then show "store_inv st1" "entry_of st1 i = Some p" "ms_rows st1 = ms_rows st"
    "\<And>j. j \<noteq> i \<Longrightarrow> entry_of st1 j = entry_of st j" "ms_next st \<le> ms_next st1" "p < ms_next st1"
    "entry_of st i = Some p \<and> st1 = st \<or> entry_of st i = None \<and> p = ms_next st \<and> ms_heap st1 p = new_pending"
    "\<And>q. q < ms_next st \<Longrightarrow> ms_heap st1 q = ms_heap st q" "ms_debounced st1 = ms_debounced st" by simp_all
qed

lemma set_entry_store_inv:
  assumes "store_inv st"
    and "\<And>i. entry_of st i = Some p \<Longrightarrow> pp_dirty e \<or> pp_flushing e \<Longrightarrow> i = m_id (pp_latest e)"
  shows "store_inv (set_entry p e st)"
  unfolding store_inv_def
proof (intro conjI allI impI)
  fix i q
  assume "entry_of (set_entry p e st) i = Some q \<and>
    (pp_dirty (ms_heap (set_entry p e st) q) \<or> pp_flushing (ms_heap (set_entry p e st) q))"
  then show "m_id (pp_latest (ms_heap (set_entry p e st) q)) = i"
    using assms(1) assms(2) [of i] by (cases "q = p") (simp_all add: store_inv_def)
qed (use assms(1) in \<open>simp_all add: store_inv_def\<close>)

text \<open>What an update leaves in the entry of its message.\<close>

lemma update_locked_spec:
  assumes "store_inv st" and "update_locked m st = (sync, st')"
  obtains p st1 e where "pending_for (m_id m) st = (p, st1)" and "st' = set_entry p e st1"
    and "pp_latest e = m" and "pp_dirty e" and "pp_flushing e = pp_flushing (ms_heap st1 p)"
proof (cases "pending_for (m_id m) st")
  case (Pair p st1)
  then show thesis using assms(2) that [of p st1]
    by (auto simp: update_locked_def Let_def split: if_splits)
qed

lemma routine_invI:
  assumes "\<And>i p m. holds r = Some p \<Longrightarrow> flight_inv st i p m \<Longrightarrow> flight_inv st' i p m"
    and "\<And>i p m v. holds r = Some p \<Longrightarrow> flight_inv st i p m \<Longrightarrow> row_of st' i = Some v \<Longrightarrow> row_of st i = Some v"
    and "\<And>i m. routine_id r = Some i \<Longrightarrow> row_of st i = None \<Longrightarrow> row_of st' i = None"
    and "routine_inv st r"
  shows "routine_inv st' r"
proof (cases r)
  case (FlushWritten i sync p m t ok)
  with assms(4) have "flight_inv st i p m" "\<forall>v. ok \<and> row_of st i = Some v \<longrightarrow> m_parts v = m_parts m" by simp_all
  moreover have "flight_inv st' i p m" by (rule assms(1)) (use calculation FlushWritten in simp_all)
  moreover have "m_parts v = m_parts m" if "ok" "row_of st' i = Some v" for v
    using assms(2) [of p i m v] calculation(1,2) that FlushWritten by auto
  ultimately show ?thesis using FlushWritten by simp
qed (use assms in auto)

lemma update_locked_inv:
  assumes "store_inv st" and "update_locked m st = (sync, st')"
  shows "store_inv st' \<and> (\<forall>r. routine_inv st r \<longrightarrow> routine_inv st' r) \<and> ms_rows st' = ms_rows st \<and>
    (\<forall>j. j \<noteq> m_id m \<longrightarrow> entry_of st' j = entry_of st j)"
proof -
  from update_locked_spec [OF assms] obtain p st1 e
    where pf: "pending_for (m_id m) st = (p, st1)" and st': "st' = set_entry p e st1"
      and e: "pp_latest e = m" "pp_dirty e" "pp_flushing e = pp_flushing (ms_heap st1 p)" .
  note s = pending_for_spec [OF assms(1) pf]
  have "i = m_id m" if "entry_of st1 i = Some p" for i
    using s(1,2) that unfolding store_inv_def by blast
  then have "store_inv st'"
    unfolding st' e(1) [symmetric] by (intro set_entry_store_inv s(1)) blast
  moreover have "flight_inv st' i q n" if "flight_inv st i q n" for i q n
  proof (cases "q = p")
    case True
    with that s(7) have "st1 = st" by (auto simp: flight_inv_def)
    with True that e show ?thesis unfolding flight_inv_def st' by auto
  next
    case False
    have "entry_of st' j = entry_of st j \<or> entry_of st' j = Some p" for j
      using s(2) s(4) [where j = j] by (cases "j = m_id m") (auto simp: st')
    moreover have "row_of st i \<noteq> None \<Longrightarrow> entry_of st' i = Some q"
      using that s(2,4,7) False by (cases "i = m_id m") (auto simp: flight_inv_def st')
    moreover have "ms_heap st' q = ms_heap st q" "q < ms_next st'" "row_of st' i = row_of st i"
      using that s(3,5,8) False by (auto simp: flight_inv_def st')
    ultimately show ?thesis using that False unfolding flight_inv_def by (metis option.inject)
  qed
  then have "routine_inv st' r" if "routine_inv st r" for r
    by (rule routine_invI [OF _ _ _ that]) (use s(3) st' in auto)
  ultimately show ?thesis using s(3,4) st' by simp
qed

lemma flush_begin_inv:
  assumes "store_inv st" and "flush_begin i sync st = (res, st')"
  shows "store_inv st' \<and> (\<forall>r. routine_inv st r \<longrightarrow> routine_inv st' r) \<and>
    ms_rows st' = ms_rows st \<and> ms_pending st' = ms_pending st \<and>
    (\<forall>p m t. res = FlushStart p m t \<longrightarrow> entry_of st i = Some p \<and> \<not> pp_flushing (ms_heap st p) \<and> flight_inv st' i p m)"
proof (cases "st' = st \<and> (\<forall>p m t. res \<noteq> FlushStart p m t)")
  case True
  then show ?thesis using assms(1) by simp
next
  case False
  then obtain p where p: "entry_of st i = Some p" "\<not> pp_flushing (ms_heap st p)" "pp_dirty (ms_heap st p)"
    and res: "res = FlushStart p (pp_latest (ms_heap st p)) (should_flush_now (prev_baseline (ms_heap st p)) (m_parts (pp_latest (ms_heap st p))))"
    and st': "st' = set_entry p ((ms_heap st p)\<lparr>pp_timer := False, pp_flushing := True, pp_dirty := False\<rparr>) st"
    using assms(2) by (auto simp: flush_begin_def Let_def split: option.splits if_splits)
  have "store_inv st'" using assms(1) p unfolding store_inv_def st' by auto
  moreover have "flight_inv st' j q n" if "flight_inv st j q n" for j q n
    using that p(2) unfolding flight_inv_def st' by (cases "q = p") auto
  then have "routine_inv st' r" if "routine_inv st r" for r
    by (rule routine_invI [OF _ _ _ that]) (use st' in auto)
  moreover have "flight_inv st' i p (pp_latest (ms_heap st p))"
    using assms(1) p unfolding flight_inv_def store_inv_def st' by auto
  ultimately show ?thesis using p res st' by simp
qed

lemma write_row_lookup:
  "row_of (write_row m st) i = (if i = m_id m then map_option (m_parts_update (\<lambda>_. m_parts m)) (row_of st i) else row_of st i)"
  by (simp add: write_row_def split: option.splits)

lemma write_row_simps [simp]:
  "ms_pending (write_row m st) = ms_pending st" "ms_heap (write_row m st) = ms_heap st"
  "ms_next (write_row m st) = ms_next st"
  by (simp_all add: write_row_def split: option.splits)

lemma write_row_flight: "flight_inv (write_row m st) i p n = flight_inv st i p n"
  by (auto simp: flight_inv_def write_row_lookup)

lemma write_row_inv:
  assumes "store_inv st" and "flight_inv st i p m"
  shows "store_inv (write_row m st)"
    and "routine_inv st r \<Longrightarrow> holds r \<noteq> Some p \<Longrightarrow> routine_inv (write_row m st) r"
    and "row_of (write_row m st) i = Some v \<Longrightarrow> m_parts v = m_parts m"
proof -
  show "store_inv (write_row m st)" using assms(1) by (auto simp: store_inv_def write_row_lookup)
  have mi: "m_id m = i" using assms(2) by (simp add: flight_inv_def)
  then show "row_of (write_row m st) i = Some v \<Longrightarrow> m_parts v = m_parts m"
    by (auto simp: write_row_lookup)
  show "routine_inv (write_row m st) r" if r: "routine_inv st r" "holds r \<noteq> Some p"
  proof (rule routine_invI [OF _ _ _ r(1)])
    fix j q n v
    assume *: "holds r = Some q" "flight_inv st j q n" "row_of (write_row m st) j = Some v"
    have "j \<noteq> i"
    proof
      assume "j = i"
      with *(3) mi have "row_of st i \<noteq> None" by (auto simp: write_row_lookup)
      with assms(2) have "entry_of st i = Some p" by (simp add: flight_inv_def)
      moreover have "row_of st j = None \<or> entry_of st j = Some q" using *(2) unfolding flight_inv_def by blast
      then have "entry_of st i = Some q" using \<open>row_of st i \<noteq> None\<close> unfolding \<open>j = i\<close> by blast
      ultimately show False using r(2) *(1) by simp
    qed
    with * mi show "row_of st j = Some v" by (simp add: write_row_lookup)
  qed (auto simp: write_row_flight write_row_lookup)
qed

lemma flush_end_inv:
  assumes "store_inv st" and "flight_inv st i p m" and "flush_end p m ok st = (was, st')"
  shows "store_inv st'" and "routine_inv st r \<Longrightarrow> holds r \<noteq> Some p \<Longrightarrow> routine_inv st' r"
    and "ms_rows st' = ms_rows st" and "ms_pending st' = ms_pending st"
proof -
  obtain e where st': "st' = set_entry p e st" and "\<not> pp_flushing e"
    and e: "pp_dirty e \<longrightarrow> pp_latest e = pp_latest (ms_heap st p)"
    using assms(3) by (auto simp: flush_end_def Let_def)
  show "store_inv st'"
    using assms(1,2) e \<open>\<not> pp_flushing e\<close> unfolding store_inv_def st' flight_inv_def by auto
  show "routine_inv st' r" if r: "routine_inv st r" "holds r \<noteq> Some p"
  proof (rule routine_invI [OF _ _ _ r(1)])
    fix j q n
    assume "holds r = Some q" "flight_inv st j q n"
    with r(2) show "flight_inv st' j q n" by (auto simp: flight_inv_def st')
  qed (simp_all add: st')
qed (use assms(3) in \<open>auto simp: flush_end_def Let_def\<close>)

lemma delete_row_inv:
  assumes "store_inv st"
  shows "store_inv (delete_row i st)" "routine_inv st r \<Longrightarrow> routine_inv (delete_row i st) r"
proof -
  show "store_inv (delete_row i st)" using assms by (auto simp: store_inv_def delete_row_def)
  show "routine_inv (delete_row i st) r" if "routine_inv st r"
    by (rule routine_invI [OF _ _ _ that]) (auto simp: flight_inv_def delete_row_def split: if_splits)
qed

lemma drop_pending_inv:
  assumes "store_inv st" and "row_of st i = None"
  shows "store_inv (drop_pending i st)" "routine_inv st r \<Longrightarrow> routine_inv (drop_pending i st) r"
    "ms_rows (drop_pending i st) = ms_rows st"
    "entry_of (drop_pending i st) j = (if j = i then None else entry_of st j)"
proof -
  show "store_inv (drop_pending i st)"
    using assms by (auto simp: store_inv_def drop_pending_def split: option.splits)
  show rows: "ms_rows (drop_pending i st) = ms_rows st"
    by (simp add: drop_pending_def split: option.splits)
  show "entry_of (drop_pending i st) j = (if j = i then None else entry_of st j)"
    by (simp add: drop_pending_def split: option.splits)
  have "flight_inv (drop_pending i st) j q n" if "flight_inv st j q n" for j q n
    using that assms(2) by (auto simp: flight_inv_def drop_pending_def split: option.splits)
  then show "routine_inv (drop_pending i st) r" if "routine_inv st r"
    by (rule routine_invI [OF _ _ _ that]) (auto simp: rows)
qed

lemma create_inv:
  assumes "store_inv st" and "row_of st i = None"
  shows "store_inv (snd (create i s role ps ok st))"
    and "routine_inv st r \<Longrightarrow> routine_id r \<noteq> Some i \<Longrightarrow> routine_inv (snd (create i s role ps ok st)) r"
    and "ms_pending (snd (create i s role ps ok st)) = ms_pending st"
    and "ms_heap (snd (create i s role ps ok st)) = ms_heap st"
    and "row_of (snd (create i s role ps ok st)) j = (if ok \<and> j = i
      then Some \<lparr>m_id = i, m_role = role, m_session_id = s, m_parts = created_parts role ps, m_updated_at = 0\<rparr> else row_of st j)"
proof -
  let ?st = "snd (create i s role ps ok st)"
  show rows: "row_of ?st j = (if ok \<and> j = i
      then Some \<lparr>m_id = i, m_role = role, m_session_id = s, m_parts = created_parts role ps, m_updated_at = 0\<rparr> else row_of st j)" for j
    using assms(2) by (auto simp: create_def Let_def map_add_def split: option.splits)
  show same: "ms_pending ?st = ms_pending st" "ms_heap ?st = ms_heap st"
    by (simp_all add: create_def Let_def)
  have nx: "ms_next ?st = ms_next st" by (simp add: create_def Let_def)
  show "store_inv ?st"
    using assms(1) unfolding store_inv_def same rows nx by auto
  show "routine_inv ?st r" if r: "routine_inv st r" "routine_id r \<noteq> Some i"
  proof (cases r)
    case (FlushWriting j sy p m t)
    then show ?thesis using r by (auto simp: flight_inv_def same rows nx)
  next
    case (FlushWritten j sy p m t ok')
    then show ?thesis using r by (auto simp: flight_inv_def same rows nx)
  next
    case (DeletePending j m)
    then show ?thesis using r by (auto simp: rows)
  qed (use r in auto)
qed

lemma exclusive_snoc: "exclusive rs \<Longrightarrow> holds r = None \<Longrightarrow> exclusive (rs @ [r])"
  by (auto simp: exclusive_def nth_append less_Suc_eq)

lemma exclusive_update:
  assumes "exclusive rs" and "t < length rs"
    and "holds r = None \<or> holds r = holds (rs ! t) \<or> (\<forall>u<length rs. holds (rs ! u) \<noteq> holds r)"
  shows "exclusive (rs[t := r])"
  unfolding exclusive_def
proof (intro allI impI)
  fix u v
  assume uv: "u < length (rs[t := r])" "v < length (rs[t := r])" "u \<noteq> v"
  have ex: "holds (rs ! a) = None \<or> holds (rs ! a) \<noteq> holds (rs ! b)"
    if "a < length rs" "b < length rs" "a \<noteq> b" for a b
    using assms(1) that unfolding exclusive_def by blast
  from ex [of u v] ex [of t v] ex [of u t] show "holds (rs[t := r] ! u) = None \<or> holds (rs[t := r] ! u) \<noteq> holds (rs[t := r] ! v)"
    using uv assms(2,3) by (cases "u = t"; cases "v = t") (auto; metis)+
qed

text \<open>One routine takes a step: the store keeps its invariant, and so do the other routines.\<close>

lemma routine_step_inv:
  assumes sys: "store_inv st" "exclusive rs" "t < length rs" and all: "\<And>u. u < length rs \<Longrightarrow> routine_inv st (rs ! u)"
    and step: "routine_step ok (rs ! t) st = (r', st')"
  shows "store_inv st' \<and> routine_inv st' r' \<and> (\<forall>u<length rs. u \<noteq> t \<longrightarrow> routine_inv st' (rs ! u)) \<and>
    (holds r' = None \<or> holds r' = holds (rs ! t) \<or> (\<forall>u<length rs. holds (rs ! u) \<noteq> holds r')) \<and>
    (\<forall>i. entry_of st i = None \<longrightarrow> entry_of st' i = None) \<and> (\<forall>i. row_of st i = None \<longrightarrow> row_of st' i = None) \<and>
    (\<forall>i. routine_id r' = Some i \<longrightarrow> routine_id (rs ! t) = Some i \<or> entry_of st i \<noteq> None \<or> row_of st i \<noteq> None)"
proof -
  have others: "holds (rs ! u) \<noteq> Some p" if "holds (rs ! t) = Some p" "u < length rs" "u \<noteq> t" for u p
    using sys(2,3) that unfolding exclusive_def by (metis option.distinct(1))
  have me: "routine_inv st (rs ! t)" using all sys(3) by blast
  show ?thesis
  proof (cases "rs ! t")
    case (FlushLoop i sync)
    obtain res st1 where fb: "flush_begin i sync st = (res, st1)" by (cases "flush_begin i sync st")
    note f = flush_begin_inv [OF sys(1) fb]
    show ?thesis
    proof (cases res)
      case (FlushStart p m t')
      then have p: "entry_of st i = Some p" "\<not> pp_flushing (ms_heap st p)" "flight_inv st1 i p m" using f by auto
      have "holds (rs ! u) \<noteq> Some p" if "u < length rs" for u
        using all [OF that] p(2) by (cases "rs ! u") (auto simp: flight_inv_def)
      then show ?thesis using step f p all FlushLoop fb FlushStart by auto
    qed (use step f all [OF sys(3)] all FlushLoop fb in auto)
  next
    case (FlushWriting i sync p m t')
    then have fl: "flight_inv st i p m" using me by simp
    note w = write_row_inv [OF sys(1) fl]
    show ?thesis
    proof (cases ok)
      case True
      then have r: "r' = FlushWritten i sync p m t' True" "st' = write_row m st" using step FlushWriting by auto
      then have "routine_inv st' r'" using w(3) fl by (simp add: write_row_flight)
      moreover have "routine_inv st' (rs ! u)" if "u < length rs" "u \<noteq> t" for u
        unfolding r(2) by (rule w(2) [OF all [OF that(1)]]) (use others that FlushWriting in auto)
      ultimately show ?thesis using r w(1) FlushWriting by (auto simp: write_row_lookup)
    next
      case False
      then show ?thesis using step FlushWriting sys(1) all fl by auto
    qed
  next
    case (FlushWritten i sync p m t' written)
    then have fl: "flight_inv st i p m" using me by simp
    obtain was st1 where fe: "flush_end p m written st = (was, st1)" by (cases "flush_end p m written st")
    note w = flush_end_inv [OF sys(1) fl fe]
    have st1: "st' = st1" "holds r' = None" "routine_id r' = None" "routine_inv st' r'"
      using step FlushWritten fe by (auto split: if_splits)
    have "routine_inv st' (rs ! u)" if "u < length rs" "u \<noteq> t" for u
      unfolding st1(1) by (rule w(2) [OF all [OF that(1)]]) (use others that FlushWritten in auto)
    then show ?thesis using w(1,3,4) st1 by simp
  next
    case (FlushPublish i sync m t' was)
    then show ?thesis using step sys(1) all by (cases "was \<and> sync") auto
  next
    case (DeleteGet i)
    then show ?thesis using step sys(1) all by (auto simp: get_message_def store_inv_def split: if_splits option.splits)
  next
    case (DeleteRow i m)
    then have "m_id m = i" using me by simp
    then show ?thesis using step sys(1) all DeleteRow delete_row_inv [OF sys(1)]
      by (auto simp: delete_row_def split: if_splits)
  next
    case (DeletePending i m)
    then show ?thesis using step me all drop_pending_inv [OF sys(1), of i] by auto
  next
    case (DeletePublish m)
    then show ?thesis using step sys(1) all by auto
  next
    case (Returned b)
    then have "r' = rs ! t" "st' = st" using step by simp_all
    then show ?thesis using me sys(1) all by simp
  qed
qed

lemma run_inv:
  assumes "system_inv sys"
  shows "system_inv (system_step sys (Run t ok))"
proof (cases "t < length (sy_routines sys)")
  case True
  let ?rs = "sy_routines sys" and ?st = "sy_store sys"
  obtain r' st' where step: "routine_step ok (?rs ! t) ?st = (r', st')" by (cases "routine_step ok (?rs ! t) ?st")
  have inv: "store_inv ?st" "exclusive ?rs" and all: "\<And>u. u < length ?rs \<Longrightarrow> routine_inv ?st (?rs ! u)"
    and unused: "\<And>i. i \<notin> set (sy_used sys) \<Longrightarrow> entry_of ?st i = None \<and> row_of ?st i = None"
    and ids: "\<And>u i. u < length ?rs \<Longrightarrow> routine_id (?rs ! u) = Some i \<Longrightarrow> i \<in> set (sy_used sys)"
    using assms unfolding system_inv_def by auto
  note s = routine_step_inv [OF inv True all step]
  have "routine_inv st' r" if "r \<in> set (?rs[t := r'])" for r
    using that s True unfolding in_set_conv_nth by (metis length_list_update nth_list_update_eq nth_list_update_neq)
  moreover have "i \<in> set (sy_used sys)" if "r \<in> set (?rs[t := r'])" "routine_id r = Some i" for r i
    using that s True ids unused unfolding in_set_conv_nth
    by (metis length_list_update nth_list_update_eq nth_list_update_neq)
  moreover have "exclusive (?rs[t := r'])" using exclusive_update [OF inv(2) True] s by blast
  ultimately show ?thesis using s unused True step unfolding system_inv_def by simp
next
  case False
  then show ?thesis using assms by simp
qed

lemma spawn_inv:
  "system_inv sys \<Longrightarrow> holds r = None \<Longrightarrow> routine_id r = None \<Longrightarrow> routine_inv (sy_store sys) r \<Longrightarrow> system_inv (spawn r sys)"
  by (auto simp: system_inv_def spawn_def exclusive_snoc)

lemma system_step_inv:
  assumes "system_inv sys"
  shows "system_inv (system_step sys e)"
proof (cases e)
  case (CallCreate uuid s role ps ok)
  let ?st = "sy_store sys"
  show ?thesis
  proof (cases "uuid \<in> set (sy_used sys)")
    case True
    then show ?thesis using assms CallCreate by simp
  next
    case False
    then have fresh: "row_of ?st uuid = None" "\<forall>r\<in>set (sy_routines sys). routine_id r \<noteq> Some uuid"
      using assms unfolding system_inv_def by blast+
    have "store_inv ?st" using assms by (simp add: system_inv_def)
    note c = create_inv [OF this fresh(1), where s = s and role = role and ps = ps and ok = ok]
    show ?thesis using assms c fresh False CallCreate unfolding system_inv_def by auto
  qed
next
  case (CallUpdate m)
  obtain sync st where u: "update_locked m (sy_store sys) = (sync, st)" by (cases "update_locked m (sy_store sys)")
  have "store_inv (sy_store sys)" using assms by (simp add: system_inv_def)
  note c = update_locked_inv [OF this u]
  let ?sys = "sys\<lparr>sy_store := st, sy_used := m_id m # sy_used sys\<rparr>"
  have "system_inv ?sys" using assms c unfolding system_inv_def by auto
  then show ?thesis using CallUpdate u spawn_inv [of ?sys "FlushLoop (m_id m) True"] by (auto simp: Let_def)
next
  case (Run t ok)
  then show ?thesis using run_inv [OF assms] by simp
qed (use assms spawn_inv in auto)

interpretation message_service: safe_system system_step system_inv
  by unfold_locales (rule system_step_inv)

lemma init_inv: "system_inv (init_system d)"
  by (simp add: system_inv_def init_system_def new_service_def store_inv_def exclusive_def)

subsection \<open>Refinement: one map from messages to their latest parts\<close>

text \<open>
  What the store promises, seen from its callers: a map from message ids to parts that \<open>Update\<close>
  writes at once. The buffer, the timers and the writes in flight are invisible in it.
\<close>

datatype spec_op = SpecPut string parts | SpecSet string parts | SpecRemove string | SpecSkip

fun spec_apply :: "spec_op \<Rightarrow> (string \<Rightarrow> parts option) \<Rightarrow> string \<Rightarrow> parts option" where
  "spec_apply (SpecPut i ps) f = f(i := Some ps)"
| "spec_apply (SpecSet i ps) f = f(i := map_option (\<lambda>_. ps) (f i))"
| "spec_apply (SpecRemove i) f = f(i := None)"
| "spec_apply SpecSkip f = f"

definition view :: "store \<Rightarrow> string \<Rightarrow> parts option" where
  "view st i =
     (case row_of st i of
        None \<Rightarrow> None
      | Some r \<Rightarrow> Some (case entry_of st i of
                        None \<Rightarrow> m_parts r
                      | Some p \<Rightarrow> (if pp_dirty (ms_heap st p) \<or> pp_flushing (ms_heap st p)
                                 then m_parts (pp_latest (ms_heap st p)) else m_parts r)))"

fun spec_action :: "system \<Rightarrow> system_event \<Rightarrow> spec_op" where
  "spec_action sys (CallCreate uuid session role ps ok) =
     (if ok \<and> uuid \<notin> set (sy_used sys) then SpecPut uuid (created_parts role ps) else SpecSkip)"
| "spec_action sys (CallUpdate m) = SpecSet (m_id m) (m_parts m)"
| "spec_action sys (Run t ok) =
     (if ok \<and> t < length (sy_routines sys)
      then case sy_routines sys ! t of DeleteRow i m \<Rightarrow> SpecRemove i | _ \<Rightarrow> SpecSkip
      else SpecSkip)"
| "spec_action sys _ = SpecSkip"

lemma view_cong:
  assumes "map_option m_parts (row_of st' i) = map_option m_parts (row_of st i)" and "entry_of st' i = entry_of st i"
    and "\<And>p. entry_of st i = Some p \<Longrightarrow> ms_heap st' p = ms_heap st p"
  shows "view st' i = view st i"
proof (cases "row_of st i")
  case None
  then show ?thesis using assms(1) by (simp add: view_def)
next
  case (Some r)
  then obtain r' where "row_of st' i = Some r'" "m_parts r' = m_parts r" using assms(1) by (cases "row_of st' i") auto
  then show ?thesis using Some assms(3) by (auto simp: view_def assms(2) split: option.splits)
qed

lemma view_publish [simp]: "view (publish ev st) i = view st i"
  by (rule view_cong) simp_all

text \<open>An entry keeps what it shows of its message, however the bookkeeping around it changes.\<close>

lemma view_set_entry:
  assumes "entry_of st i = Some p"
    and "(pp_dirty e \<or> pp_flushing e) \<and> m_parts (pp_latest e) = v \<or>
      \<not> pp_dirty e \<and> \<not> pp_flushing e \<and> (\<forall>r. row_of st i = Some r \<longrightarrow> m_parts r = v)"
  shows "view (set_entry p e st) i = map_option (\<lambda>_. v) (row_of st i)"
  using assms by (auto simp: view_def split: option.splits)

lemma view_set_entry_other:
  assumes "store_inv st" and "entry_of st i = Some p" and "j \<noteq> i"
  shows "view (set_entry p e st) j = view st j"
proof (rule view_cong)
  fix q
  assume "entry_of st j = Some q"
  then have "q \<noteq> p" using assms unfolding store_inv_def by blast
  then show "ms_heap (set_entry p e st) q = ms_heap st q" by simp
qed simp_all

lemma view_busy:
  "entry_of st i = Some p \<Longrightarrow> pp_dirty (ms_heap st p) \<or> pp_flushing (ms_heap st p) \<Longrightarrow>
   view st i = map_option (\<lambda>_. m_parts (pp_latest (ms_heap st p))) (row_of st i)"
  by (auto simp: view_def split: option.splits)

lemma view_None: "row_of st i = None \<Longrightarrow> view st i = None"
  by (simp add: view_def)

lemma view_row: "map_option (\<lambda>_. v) (view st i) = map_option (\<lambda>_. v) (row_of st i)"
  by (simp add: view_def split: option.splits)

lemma update_view:
  assumes "store_inv st" and "update_locked m st = (sync, st')"
  shows "view st' = spec_apply (SpecSet (m_id m) (m_parts m)) (view st)"
proof
  fix j
  from update_locked_spec [OF assms] obtain p st1 e
    where pf: "pending_for (m_id m) st = (p, st1)" and st': "st' = set_entry p e st1"
      and e: "pp_latest e = m" "pp_dirty e" .
  note s = pending_for_spec [OF assms(1) pf]
  show "view st' j = spec_apply (SpecSet (m_id m) (m_parts m)) (view st) j"
  proof (cases "j = m_id m")
    case True
    have "view st' (m_id m) = map_option (\<lambda>_. m_parts m) (row_of st1 (m_id m))"
      unfolding st' by (rule view_set_entry [OF s(2)]) (simp add: e)
    then show ?thesis by (simp add: True s(3) view_row)
  next
    case False
    have "view st' j = view st1 j" unfolding st' by (rule view_set_entry_other [OF s(1,2) False])
    also have "\<dots> = view st j"
    proof (rule view_cong)
      fix q
      assume "entry_of st j = Some q"
      then have "q < ms_next st" using assms(1) unfolding store_inv_def by blast
      then show "ms_heap st1 q = ms_heap st q" by (rule s(8))
    qed (simp_all add: s(3,4) False)
    finally show ?thesis by (simp add: False)
  qed
qed

lemma flush_begin_view:
  assumes "store_inv st" and "flush_begin i sync st = (res, st')"
  shows "view st' = view st"
proof (cases "st' = st")
  case False
  then obtain p e where p: "entry_of st i = Some p" "pp_dirty (ms_heap st p)"
    and st': "st' = set_entry p e st" and e: "pp_flushing e" "pp_latest e = pp_latest (ms_heap st p)"
    using assms(2) by (auto simp: flush_begin_def Let_def split: option.splits if_splits)
  have "view st' i = view st i"
    using view_set_entry [OF p(1), of e "m_parts (pp_latest (ms_heap st p))"] e view_busy [OF p(1)] p(2) st' by simp
  moreover have "view st' j = view st j" if "j \<noteq> i" for j
    unfolding st' by (rule view_set_entry_other [OF assms(1) p(1) that])
  ultimately show ?thesis by (intro ext) metis
qed simp

lemma write_row_view:
  assumes "flight_inv st i p m"
  shows "view (write_row m st) = view st"
proof
  fix j
  have mi: "m_id m = i" using assms by (simp add: flight_inv_def)
  show "view (write_row m st) j = view st j"
  proof (cases "j = i \<and> row_of st i \<noteq> None")
    case True
    then have "entry_of st i = Some p" "pp_flushing (ms_heap st p)" using assms by (auto simp: flight_inv_def)
    then show ?thesis using True by (auto simp: view_def write_row_lookup mi)
  next
    case False
    then show ?thesis by (intro view_cong) (auto simp: write_row_lookup mi)
  qed
qed

lemma flush_end_view:
  assumes "store_inv st" and "flight_inv st i p m" and "flush_end p m ok st = (was, st')"
    and "\<And>r. ok \<Longrightarrow> row_of st i = Some r \<Longrightarrow> m_parts r = m_parts m"
  shows "view st' = view st" and "ok \<Longrightarrow> \<not> was \<Longrightarrow> view st' i = map_option m_parts (row_of st' i)"
proof -
  let ?v = "m_parts (pp_latest (ms_heap st p))"
  obtain e where st': "st' = set_entry p e st"
    and e: "pp_dirty e \<and> pp_latest e = pp_latest (ms_heap st p) \<or> \<not> pp_dirty e \<and> \<not> pp_flushing e \<and> ok \<and> \<not> pp_dirty (ms_heap st p)"
    and was: "was = pp_dirty e" "\<not> pp_flushing e"
    using assms(3) by (cases "pp_dirty (ms_heap st p)"; cases ok) (auto simp: flush_end_def Let_def)
  have i: "view st' i = view st i \<and> (ok \<and> \<not> was \<longrightarrow> view st' i = map_option m_parts (row_of st' i))"
  proof (cases "row_of st i")
    case None
    then show ?thesis using st' by (simp add: view_None)
  next
    case (Some r)
    then have p: "entry_of st i = Some p" and busy: "pp_flushing (ms_heap st p)"
      and latest: "pp_dirty (ms_heap st p) \<or> pp_latest (ms_heap st p) = m" using assms(2) by (auto simp: flight_inv_def)
    have cond: "(pp_dirty e \<or> pp_flushing e) \<and> m_parts (pp_latest e) = ?v \<or>
      \<not> pp_dirty e \<and> \<not> pp_flushing e \<and> (\<forall>r. row_of st i = Some r \<longrightarrow> m_parts r = ?v)"
      using e latest assms(4) by auto
    have "view st' i = map_option (\<lambda>_. ?v) (row_of st i)"
      unfolding st' by (rule view_set_entry [OF p cond])
    moreover have "ok \<and> \<not> was \<longrightarrow> view st' i = map_option m_parts (row_of st' i)"
      using was p Some by (simp add: st' view_def)
    ultimately show ?thesis using view_busy [OF p] busy by simp
  qed
  moreover have "view st' j = view st j" if "j \<noteq> i" for j
  proof (cases "entry_of st j = Some p")
    case True
    then show ?thesis using assms(2) that unfolding flight_inv_def by blast
  next
    case False
    then show ?thesis unfolding st' by (intro view_cong) auto
  qed
  ultimately show "view st' = view st" by (intro ext) metis
  show "view st' i = map_option m_parts (row_of st' i)" if "ok" "\<not> was" using i that by blast
qed

lemma routine_step_view:
  assumes "store_inv st" and "routine_inv st r" and "routine_step ok r st = (r', st')"
  shows "view st' = (case r of DeleteRow i m \<Rightarrow> if ok then (view st)(i := None) else view st | _ \<Rightarrow> view st)"
proof (cases r)
  case (FlushLoop i sync)
  obtain res st1 where fb: "flush_begin i sync st = (res, st1)" by (cases "flush_begin i sync st")
  with assms(3) FlushLoop flush_begin_view [OF assms(1) fb] show ?thesis by (cases res) auto
next
  case (FlushWriting i sync p m t)
  then show ?thesis using assms(2,3) write_row_view [of st i p m] by (auto split: if_splits)
next
  case (FlushWritten i sync p m t written)
  obtain was st1 where fe: "flush_end p m written st = (was, st1)" by (cases "flush_end p m written st")
  have "view st1 = view st"
    by (rule flush_end_view [OF assms(1) _ fe, of i]) (use assms(2) FlushWritten in auto)
  then show ?thesis using assms(3) FlushWritten fe by auto
next
  case (DeleteRow i m)
  have "view (delete_row i st) j = ((view st)(i := None)) j" for j
    by (cases "j = i") (simp_all add: view_None delete_row_def, rule view_cong, simp_all)
  then show ?thesis using assms DeleteRow by (auto split: if_splits)
next
  case (DeletePending i m)
  then have none: "row_of st i = None" using assms(2) by simp
  have "view (drop_pending i st) j = view st j" for j
  proof (cases "j = i")
    case True
    then show ?thesis using none by (simp add: view_def drop_pending_inv(3) [OF assms(1) none])
  next
    case False
    have "ms_heap (drop_pending i st) q = ms_heap st q" if "entry_of st j = Some q" for q
      using that False assms(1) by (auto simp: drop_pending_def store_inv_def split: option.splits)
    then show ?thesis using False
      by (intro view_cong) (simp_all add: drop_pending_inv(3,4) [OF assms(1) none])
  qed
  then show ?thesis using assms(3) DeletePending by auto
qed (use assms(3) in \<open>auto split: if_splits option.splits\<close>)

lemma create_view:
  assumes "row_of st i = None" and "entry_of st i = None"
  shows "view (snd (create i s role ps ok st)) = (if ok then (view st)(i := Some (created_parts role ps)) else view st)"
proof (cases ok)
  case True
  have "view (snd (create i s role ps ok st)) j = ((view st)(i := Some (created_parts role ps))) j" for j
    using assms True by (auto simp: view_def create_def Let_def map_add_def split: option.splits)
  then show ?thesis using True by auto
next
  case False
  then show ?thesis by (simp add: create_def)
qed

lemma system_step_view:
  assumes "system_inv sys"
  shows "view (sy_store (system_step sys e)) = spec_apply (spec_action sys e) (view (sy_store sys))"
proof -
  have inv: "store_inv (sy_store sys)" using assms by (simp add: system_inv_def)
  show ?thesis
  proof (cases e)
    case (CallCreate uuid s role ps ok)
    show ?thesis
    proof (cases "uuid \<in> set (sy_used sys)")
      case False
      then have "row_of (sy_store sys) uuid = None" "entry_of (sy_store sys) uuid = None"
        using assms unfolding system_inv_def by blast+
      from create_view [OF this] show ?thesis using CallCreate False by simp
    qed (use CallCreate in simp)
  next
    case (CallUpdate m)
    obtain sync st where u: "update_locked m (sy_store sys) = (sync, st)" by (cases "update_locked m (sy_store sys)")
    show ?thesis using CallUpdate u update_view [OF inv u] by (simp add: spawn_def Let_def)
  next
    case (Run t ok)
    show ?thesis
    proof (cases "t < length (sy_routines sys)")
      case True
      obtain r' st' where step: "routine_step ok (sy_routines sys ! t) (sy_store sys) = (r', st')"
        by (cases "routine_step ok (sy_routines sys ! t) (sy_store sys)")
      have "routine_inv (sy_store sys) (sy_routines sys ! t)" using assms True by (simp add: system_inv_def)
      have new: "sy_store (system_step sys (Run t ok)) = st'" using True step by simp
      show ?thesis
        unfolding Run new routine_step_view [OF inv \<open>routine_inv _ _\<close> step] using True
        by (cases "sy_routines sys ! t") simp_all
    qed (use Run in simp)
  qed (simp_all add: spawn_def)
qed

text \<open>
  C29: the buffered store refines a plain map from message ids to parts. However updates, creations,
  deletions, flushes, timers and their partial writes interleave, and whichever statements fail, what
  the store shows of a message (the buffered or in-flight parts, else its row) changes exactly as the
  map does: an update sets it, no flush, retry or failed write ever changes or loses it.
\<close>

theorem store_refines_map:
  assumes "sys = run_system (init_system debounced) evs"
  shows "view (sy_store (system_step sys e)) = spec_apply (spec_action sys e) (view (sy_store sys))"
  unfolding assms run_system_def
  by (rule system_step_view) (rule message_service.run_good [OF init_inv])

definition demo_message :: "string \<Rightarrow> message" where
  "demo_message s = \<lparr>m_id = ''m'', m_role = Assistant, m_session_id = ''s'',
     m_parts = [TextPart \<lparr>mt_text = s, mt_hidden = False\<rparr>], m_updated_at = 0\<rparr>"

theorem store_refines_map_witness:
  "let sys = run_system (init_system True) [CallCreate ''m'' ''s'' Assistant [] True];
       e = CallUpdate (demo_message ''a'')
   in view (sy_store (system_step sys e)) = spec_apply (SpecSet ''m'' (m_parts (demo_message ''a''))) (view (sy_store sys))"
  unfolding Let_def
  using store_refines_map [OF refl, of "True" "[CallCreate ''m'' ''s'' Assistant [] True]" "CallUpdate (demo_message ''a'')"]
  by (simp add: demo_message_def)

lemma run_system_inv: "system_inv (run_system (init_system d) evs)"
  unfolding run_system_def by (rule message_service.run_good [OF init_inv])

text \<open>
  What the callers have had accepted, read off the events: \<open>Create\<close> and \<open>Update\<close> set the parts of a
  message when they are called, the statement of a deletion removes it.
\<close>

fun accepted :: "system \<Rightarrow> system_event list \<Rightarrow> (string \<Rightarrow> parts option) \<Rightarrow> string \<Rightarrow> parts option" where
  "accepted sys [] f = f"
| "accepted sys (e # es) f = accepted (system_step sys e) es (spec_apply (spec_action sys e) f)"

lemma accepted_view:
  "system_inv sys \<Longrightarrow> accepted sys es (view (sy_store sys)) = view (sy_store (run_system sys es))"
proof (induction es arbitrary: sys)
  case (Cons e es)
  have "system_inv (system_step sys e)"
    using message_service.run_good [OF Cons.prems, of "[e]"] by simp
  from Cons.IH [OF this] show ?case
    by (simp add: system_step_view [OF Cons.prems] run_system_def)
qed (simp add: run_system_def)

lemma view_init: "view (sy_store (init_system d)) = (\<lambda>_. None)"
  by (simp add: view_def init_system_def new_service_def fun_eq_iff)

lemma flush_row_view:
  assumes "system_inv sys" and "t < length (sy_routines sys)"
    and "routine_step ok (sy_routines sys ! t) (sy_store sys) = (r', st')"
    and "(\<exists>i. sy_routines sys ! t = FlushLoop i True \<and> r' = Returned True \<and> j = i) \<or>
         (\<exists>i sync p m terminal. sy_routines sys ! t = FlushWritten i sync p m terminal True \<and>
            r' = FlushPublish i sync m terminal False \<and> j = i)"
  shows "map_option m_parts (row_of st' j) = view st' j" and "view st' = view (sy_store sys)"
proof -
  have st: "store_inv (sy_store sys)" and r: "routine_inv (sy_store sys) (sy_routines sys ! t)"
    using assms(1,2) by (auto simp: system_inv_def)
  show "view st' = view (sy_store sys)"
    using assms(4) by (subst routine_step_view [OF st r assms(3)]) auto
  from assms(4) show "map_option m_parts (row_of st' j) = view st' j"
  proof (elim disjE exE conjE)
    fix i
    assume *: "sy_routines sys ! t = FlushLoop i True" "r' = Returned True" "j = i"
    obtain res st1 where fb: "flush_begin i True (sy_store sys) = (res, st1)" by (cases "flush_begin i True (sy_store sys)")
    then have "res = FlushReturn" "st' = st1" using assms(3) * by (auto split: flush_begin.splits)
    then show ?thesis using fb \<open>j = i\<close>
      by (auto simp: flush_begin_def Let_def view_def split: option.splits if_splits)
  next
    fix i sync p m terminal
    assume *: "sy_routines sys ! t = FlushWritten i sync p m terminal True"
      "r' = FlushPublish i sync m terminal False" "j = i"
    obtain was st1 where fe: "flush_end p m True (sy_store sys) = (was, st1)" by (cases "flush_end p m True (sy_store sys)")
    then have "st' = st1" "\<not> was" using assms(3) * by auto
    moreover have "view st1 i = map_option m_parts (row_of st1 i)"
      by (rule flush_end_view(2) [OF st _ fe]) (use r * \<open>\<not> was\<close> in auto)
    ultimately show ?thesis using \<open>j = i\<close> by simp
  qed
qed

text \<open>
  C36: a flush that ends well has written the latest state. When a synchronous flush finds nothing to
  do, and when the write of a flush ends with no newer update behind it, the row of the message holds
  the parts its last \<open>Create\<close> or \<open>Update\<close> passed in, whoever called it and whatever was flushed, failed
  or deleted in between (and there is no row if the message has been deleted or never was).
\<close>

theorem flush_writes_latest:
  assumes "sys = run_system (init_system debounced) evs" and "t < length (sy_routines sys)"
    and "routine_step ok (sy_routines sys ! t) (sy_store sys) = (r', st')"
    and "(\<exists>i. sy_routines sys ! t = FlushLoop i True \<and> r' = Returned True \<and> j = i) \<or>
         (\<exists>i sync p m terminal. sy_routines sys ! t = FlushWritten i sync p m terminal True \<and>
            r' = FlushPublish i sync m terminal False \<and> j = i)"
  shows "map_option m_parts (row_of st' j) = accepted (init_system debounced) evs (\<lambda>_. None) j"
proof -
  have inv: "system_inv sys" unfolding assms(1) by (rule run_system_inv)
  have "accepted (init_system debounced) evs (\<lambda>_. None) = view (sy_store sys)"
    unfolding assms(1) view_init [symmetric, of debounced] by (rule accepted_view [OF init_inv])
  with flush_row_view [OF inv assms(2-4)] show ?thesis by simp
qed

text \<open>
  In the witness the timer's flush is writing an older text when a newer one comes in; it is the
  second turn of a synchronous flush that ends with the newer text in the row.
\<close>

definition demo_flushes :: "system_event list" where
  "demo_flushes = [CallCreate ''m'' ''s'' Assistant [] True, CallUpdate (demo_message ''a''), CallFlush ''m'',
     Run 0 True, Run 0 True, CallUpdate (demo_message ''ab''), Run 0 True, Run 0 True, Run 0 True, Run 0 True]"

lemma demo_flushes_end:
  "let sys = run_system (init_system True) demo_flushes;
       step = routine_step True (sy_routines sys ! 0) (sy_store sys)
   in length (sy_routines sys) = 1 \<and>
      sy_routines sys ! 0 = FlushWritten ''m'' True 0 (demo_message ''ab'') False True \<and>
      fst step = FlushPublish ''m'' True (demo_message ''ab'') False False \<and>
      accepted (init_system True) demo_flushes (\<lambda>_. None) ''m'' = Some (m_parts (demo_message ''ab''))"
  by code_simp

theorem flush_writes_latest_witness:
  "let sys = run_system (init_system True) demo_flushes;
       st' = snd (routine_step True (sy_routines sys ! 0) (sy_store sys))
   in map_option m_parts (row_of st' ''m'') = Some (m_parts (demo_message ''ab''))"
proof -
  let ?sys = "run_system (init_system True) demo_flushes"
  let ?step = "routine_step True (sy_routines ?sys ! 0) (sy_store ?sys)"
  note e = demo_flushes_end [unfolded Let_def]
  have "?step = (FlushPublish ''m'' True (demo_message ''ab'') False False, snd ?step)"
    using e by (metis prod.collapse)
  moreover have "(\<exists>i. sy_routines ?sys ! 0 = FlushLoop i True \<and> FlushPublish ''m'' True (demo_message ''ab'') False False = Returned True \<and> ''m'' = i) \<or>
      (\<exists>i sync p m terminal. sy_routines ?sys ! 0 = FlushWritten i sync p m terminal True \<and>
         FlushPublish ''m'' True (demo_message ''ab'') False False = FlushPublish i sync m terminal False \<and> ''m'' = i)"
    using e by blast
  moreover have "0 < length (sy_routines ?sys)" using e by simp
  ultimately have "map_option m_parts (row_of (snd ?step) ''m'') = accepted (init_system True) demo_flushes (\<lambda>_. None) ''m''"
    by (intro flush_writes_latest [OF refl])
  with e show ?thesis unfolding Let_def by metis
qed

subsection \<open>Flushing with nobody else around\<close>

text \<open>A routine that runs alone for \<open>n\<close> steps, every statement succeeding or every one failing.\<close>

fun solo :: "bool \<Rightarrow> nat \<Rightarrow> routine \<Rightarrow> store \<Rightarrow> routine \<times> store" where
  "solo ok 0 r st = (r, st)"
| "solo ok (Suc n) r st = (case routine_step ok r st of (r', st') \<Rightarrow> solo ok n r' st')"

definition idle :: "store \<Rightarrow> bool" where
  "idle st \<longleftrightarrow> (\<forall>i p. entry_of st i = Some p \<longrightarrow> \<not> pp_flushing (ms_heap st p))"

definition dirty :: "store \<Rightarrow> string \<Rightarrow> bool" where
  "dirty st i \<longleftrightarrow> (case entry_of st i of None \<Rightarrow> False | Some p \<Rightarrow> pp_dirty (ms_heap st p))"

lemma flush_begin_idle:
  assumes "idle st"
  shows "flush_begin i True st =
    (case entry_of st i of
       None \<Rightarrow> (FlushReturn, st)
     | Some p \<Rightarrow> let e = ms_heap st p in if \<not> pp_dirty e then (FlushReturn, st)
         else (FlushStart p (pp_latest e) (should_flush_now (prev_baseline e) (m_parts (pp_latest e))),
               set_entry p (e\<lparr>pp_timer := False, pp_flushing := True, pp_dirty := False\<rparr>) st))"
  using assms by (simp add: flush_begin_def idle_def Let_def split: option.splits)

text \<open>A flush that runs alone: four steps, and what it leaves behind.\<close>

lemma solo_flush:
  assumes "idle st"
  shows "solo ok 4 (FlushLoop i True) st =
    (if \<not> dirty st i then (Returned True, st)
     else let p = the (entry_of st i); e = ms_heap st p; m = pp_latest e;
              t = should_flush_now (prev_baseline e) (m_parts m)
          in if ok then (Returned True, publish (if t then MsgUpdatedMustDeliver m else MsgUpdated m)
                  (set_entry p (e\<lparr>pp_timer := False, pp_flushing := False, pp_dirty := False, pp_latest := no_message,
                      pp_baseline := new_flush_baseline (m_parts m), pp_has_flushed := True\<rparr>) (write_row m st)))
             else (Returned False, set_entry p (e\<lparr>pp_timer := False, pp_flushing := False\<rparr>) st))"
proof (cases "entry_of st i")
  case None
  then show ?thesis by (simp add: dirty_def flush_begin_idle [OF assms] numeral_eq_Suc)
next
  case (Some p)
  let ?e = "ms_heap st p"
  have nf: "\<not> pp_flushing ?e" using assms Some by (simp add: idle_def)
  show ?thesis
  proof (cases "pp_dirty ?e")
    case False
    then show ?thesis using Some by (simp add: dirty_def flush_begin_idle [OF assms] numeral_eq_Suc)
  next
    case True
    have comm: "write_row m (set_entry p e st) = set_entry p e (write_row m st)" for m e
      by (simp add: write_row_def set_entry_def split: option.splits)
    have over: "set_entry p e (set_entry p e' s) = set_entry p e s" for e e' s
      by (simp add: set_entry_def)
    show ?thesis using Some True nf
      by (cases ok; cases "ms_heap st p")
        (simp_all add: dirty_def flush_begin_idle [OF assms] numeral_eq_Suc Let_def flush_end_def comm over)
  qed
qed

definition flush_alone :: "bool \<Rightarrow> string \<Rightarrow> store \<Rightarrow> bool \<times> store" where
  "flush_alone ok i st = (case solo ok 4 (FlushLoop i True) st of (r, st') \<Rightarrow> (r = Returned True, st'))"

text \<open>\<open>FlushAll\<close>: \<open>ok i\<close> says whether the write of message \<open>i\<close> succeeds; the first error is kept.\<close>

fun flush_each :: "(string \<Rightarrow> bool) \<Rightarrow> string list \<Rightarrow> store \<Rightarrow> bool \<times> store" where
  "flush_each ok [] st = (True, st)"
| "flush_each ok (i # is) st =
     (case flush_alone (ok i) i st of
        (fine, st') \<Rightarrow> (case flush_each ok is st' of (rest, st'') \<Rightarrow> (fine \<and> rest, st'')))"

definition flush_ids :: "((string, nat) gomap \<Rightarrow> (string, nat) gomap) \<Rightarrow> store \<Rightarrow> string list" where
  "flush_ids ord st =
     map fst (filter (\<lambda>(i, p). pp_dirty (ms_heap st p) \<or> pp_flushing (ms_heap st p)) (ord (ms_pending st)))"

definition flush_all :: "((string, nat) gomap \<Rightarrow> (string, nat) gomap) \<Rightarrow> (string \<Rightarrow> bool) \<Rightarrow> store \<Rightarrow> bool \<times> store" where
  "flush_all ord ok st = flush_each ok (flush_ids ord st) st"

lemma solo_inv:
  assumes "store_inv st" and "routine_inv st r" and "\<forall>i m. r \<noteq> DeleteRow i m" and "routine_id r = None \<or> holds r \<noteq> None"
    and "solo ok n r st = (r', st')"
  shows "store_inv st' \<and> view st' = view st \<or> (\<exists>i. r = DeleteGet i)"
proof (cases "\<exists>i. r = DeleteGet i")
  case False
  then have "store_inv st' \<and> view st' = view st"
    using assms
  proof (induction n arbitrary: r st)
    case (Suc n)
    obtain r1 st1 where s: "routine_step ok r st = (r1, st1)" by (cases "routine_step ok r st")
    have "store_inv st1 \<and> routine_inv st1 r1"
      using routine_step_inv [of st "[r]" 0 ok r1 st1] Suc.prems s by (simp add: exclusive_def)
    moreover have "view st1 = view st"
      using routine_step_view [OF Suc.prems(2,3) s] Suc.prems(4) by (simp split: routine.splits)
    moreover have "(\<nexists>i. r1 = DeleteGet i) \<and> (\<forall>i m. r1 \<noteq> DeleteRow i m) \<and> (routine_id r1 = None \<or> holds r1 \<noteq> None)"
      using s Suc.prems(1,4,5)
      by (cases r) (auto split: prod.splits flush_begin.splits if_splits)
    ultimately show ?case using Suc.IH [of r1 st1] Suc.prems(6) s by simp
  qed simp
  then show ?thesis ..
qed simp

lemma flush_alone_spec:
  assumes "store_inv st" and "idle st" and "flush_alone ok i st = (fine, st')"
  shows "store_inv st' \<and> idle st' \<and> view st' = view st \<and> (fine \<longleftrightarrow> ok \<or> \<not> dirty st i) \<and>
    (\<forall>j. dirty st' j \<longleftrightarrow> dirty st j \<and> (j \<noteq> i \<or> \<not> ok))"
proof -
  obtain r where s: "solo ok 4 (FlushLoop i True) st = (r, st')" and fine: "fine \<longleftrightarrow> r = Returned True"
    using assms(3) by (auto simp: flush_alone_def split: prod.splits)
  have "store_inv st' \<and> view st' = view st" using solo_inv [OF assms(1) _ _ _ s] by simp
  moreover have "idle st' \<and> (fine \<longleftrightarrow> ok \<or> \<not> dirty st i) \<and> (\<forall>j. dirty st' j \<longleftrightarrow> dirty st j \<and> (j \<noteq> i \<or> \<not> ok))"
  proof (cases "dirty st i")
    case False
    then show ?thesis using s fine assms(2) unfolding solo_flush [OF assms(2)] by auto
  next
    case True
    then obtain p where p: "entry_of st i = Some p" "pp_dirty (ms_heap st p)" by (auto simp: dirty_def split: option.splits)
    have other: "entry_of st j \<noteq> Some p" if "j \<noteq> i" for j using assms(1) p that unfolding store_inv_def by metis
    then have "\<And>j q. j \<noteq> i \<Longrightarrow> entry_of st j = Some q \<Longrightarrow> q \<noteq> p" by blast
    then show ?thesis using s fine p True assms(2) unfolding solo_flush [OF assms(2)]
      by (auto simp: idle_def dirty_def Let_def split: if_splits option.splits)
  qed
  ultimately show ?thesis by blast
qed

lemma flush_each_spec:
  assumes "store_inv st" and "idle st" and "flush_each ok is st = (fine, st')"
  shows "store_inv st' \<and> idle st' \<and> view st' = view st \<and> (fine \<longleftrightarrow> (\<forall>i\<in>set is. ok i \<or> \<not> dirty st i)) \<and>
    (\<forall>j. dirty st' j \<longleftrightarrow> dirty st j \<and> (j \<notin> set is \<or> \<not> ok j))"
  using assms
proof (induction "is" arbitrary: st fine st')
  case (Cons i js)
  obtain f1 st1 where one: "flush_alone (ok i) i st = (f1, st1)" by (cases "flush_alone (ok i) i st")
  obtain f2 st2 where rest: "flush_each ok js st1 = (f2, st2)" by (cases "flush_each ok js st1")
  note a = flush_alone_spec [OF Cons.prems(1,2) one]
  then have "store_inv st1" "idle st1" by blast+
  from Cons.IH [OF this rest] a show ?case using Cons.prems(3) one rest by auto
qed simp

lemma flush_ids_dirty:
  assumes "map_order ord" and "gm_wf (ms_pending st)" and "dirty st i"
  shows "i \<in> set (flush_ids ord st)"
proof -
  obtain p where "entry_of st i = Some p" "pp_dirty (ms_heap st p)" using assms(3) by (auto simp: dirty_def split: option.splits)
  then have "(i, p) \<in> set (ord (ms_pending st))" using assms(1) map_of_SomeD by fastforce
  with \<open>pp_dirty (ms_heap st p)\<close> show ?thesis by (force simp: flush_ids_def)
qed

text \<open>The buffer has one entry per message.\<close>

definition pending_wf :: "system \<Rightarrow> bool" where
  "pending_wf sys \<longleftrightarrow> gm_wf (ms_pending (sy_store sys))"

lemma pending_for_wf: "gm_wf (ms_pending st) \<Longrightarrow> gm_wf (ms_pending (snd (pending_for i st)))"
  by (simp add: pending_for_def split: option.splits)

lemma update_locked_wf: "gm_wf (ms_pending st) \<Longrightarrow> gm_wf (ms_pending (snd (update_locked m st)))"
  using pending_for_wf [of st "m_id m"]
  by (cases "pending_for (m_id m) st") (simp add: update_locked_def Let_def split: option.splits)

lemma routine_step_wf: "gm_wf (ms_pending st) \<Longrightarrow> gm_wf (ms_pending (snd (routine_step ok r st)))"
proof (cases r)
  case (FlushLoop i sync)
  assume "gm_wf (ms_pending st)"
  then have "gm_wf (ms_pending (snd (flush_begin i sync st)))"
    by (simp add: flush_begin_def Let_def split: option.splits)
  then show ?thesis using FlushLoop by (auto split: prod.splits flush_begin.splits)
qed (auto simp: flush_end_def Let_def delete_row_def drop_pending_def split: option.splits)

lemma system_step_wf:
  assumes "pending_wf sys"
  shows "pending_wf (system_step sys e)"
proof (cases e)
  case (CallUpdate m)
  then show ?thesis using assms update_locked_wf [of "sy_store sys" m]
    by (auto simp: pending_wf_def spawn_def Let_def split: prod.splits)
next
  case (Run t ok)
  then show ?thesis using assms routine_step_wf [of "sy_store sys" ok "sy_routines sys ! t"]
    by (auto simp: pending_wf_def split: prod.splits)
qed (use assms in \<open>simp_all add: pending_wf_def spawn_def create_def Let_def\<close>)

interpretation message_buffer: safe_system system_step pending_wf
  by unfold_locales (rule system_step_wf)

lemma run_system_wf: "gm_wf (ms_pending (sy_store (run_system (init_system d) evs)))"
  using message_buffer.run_good [of "init_system d" evs]
  by (simp add: pending_wf_def run_system_def init_system_def new_service_def)

lemma clean_view: "idle st \<Longrightarrow> \<not> dirty st i \<Longrightarrow> map_option m_parts (row_of st i) = view st i"
  by (auto simp: view_def dirty_def idle_def split: option.splits)

text \<open>
  \<open>FlushAll\<close> ends and drains the buffer. Called while no write is in flight, it makes four steps
  per message; if every write succeeds it reports success and each row holds what the store shows;
  if some fail it reports an error exactly if one of those was needed, and every update that was not
  written stays in the buffer.
\<close>

theorem flush_all_drains:
  assumes "sys = run_system (init_system debounced) evs" and "idle (sy_store sys)" and "map_order ord"
    and "flush_all ord ok (sy_store sys) = (fine, st')"
  shows "view st' = view (sy_store sys) \<and> (fine \<longleftrightarrow> \<not> (\<exists>i. dirty (sy_store sys) i \<and> \<not> ok i)) \<and>
    (\<forall>i. dirty st' i \<longleftrightarrow> dirty (sy_store sys) i \<and> \<not> ok i) \<and>
    (fine \<longrightarrow> (\<forall>i. map_option m_parts (row_of st' i) = view (sy_store sys) i))"
proof -
  have st: "store_inv (sy_store sys)" using run_system_inv [of debounced evs] assms(1) by (simp add: system_inv_def)
  have "gm_wf (ms_pending (sy_store sys))" unfolding assms(1) by (rule run_system_wf)
  then have ids: "dirty (sy_store sys) i \<Longrightarrow> i \<in> set (flush_ids ord (sy_store sys))" for i
    by (rule flush_ids_dirty [OF assms(3)])
  have "flush_each ok (flush_ids ord (sy_store sys)) (sy_store sys) = (fine, st')"
    using assms(4) by (simp add: flush_all_def)
  note f = flush_each_spec [OF st assms(2) this]
  have "fine \<longleftrightarrow> \<not> (\<exists>i. dirty (sy_store sys) i \<and> \<not> ok i)" using f ids by blast
  moreover have d: "\<forall>i. dirty st' i \<longleftrightarrow> dirty (sy_store sys) i \<and> \<not> ok i" using f ids by blast
  moreover have "map_option m_parts (row_of st' i) = view (sy_store sys) i" if "fine" for i
    using f clean_view [of st' i] d that calculation(1) by auto
  ultimately show ?thesis using f by blast
qed

theorem flush_all_drains_witness:
  "let sys = run_system (init_system True) [CallCreate ''m'' ''s'' Assistant [] True, CallUpdate (demo_message ''a'')];
       st' = snd (flush_all (\<lambda>m. m) (\<lambda>_. True) (sy_store sys))
   in map_option m_parts (row_of st' ''m'') = Some (m_parts (demo_message ''a'')) \<and> dirty (sy_store sys) ''m''"
proof -
  let ?sys = "run_system (init_system True) [CallCreate ''m'' ''s'' Assistant [] True, CallUpdate (demo_message ''a'')]"
  have pend: "ms_pending (sy_store ?sys) = [(''m'', 0)]" and fl: "\<not> pp_flushing (ms_heap (sy_store ?sys) 0)"
    and d: "dirty (sy_store ?sys) ''m''" and v: "view (sy_store ?sys) ''m'' = Some (m_parts (demo_message ''a''))"
    by code_simp+
  have "idle (sy_store ?sys)" using pend fl by (auto simp: idle_def)
  moreover obtain fine st' where fa: "flush_all (\<lambda>m. m) (\<lambda>_. True) (sy_store ?sys) = (fine, st')" by fastforce
  ultimately have "map_option m_parts (row_of st' ''m'') = view (sy_store ?sys) ''m''"
    using flush_all_drains [OF refl _ map_order_id fa] by simp
  then show ?thesis using d v fa unfolding Let_def by (metis snd_conv)
qed

subsection \<open>What the publications and the timer do not promise\<close>

text \<open>
  A routine publishes after it has released the lock. A write that another one overtakes between
  its second section and its publication announces its older snapshot last: subscribers end with the
  unfinished text although the row holds the finished message. In the same way an update can be
  announced after the deletion of its message.
\<close>

definition demo_finished :: message where
  "demo_finished = (demo_message ''ab'')\<lparr>m_parts := m_parts (demo_message ''ab'') @
     [Finished \<lparr>fi_reason = FinishReasonEndTurn, fi_time = 1, fi_message = '''', fi_details = ''''\<rparr>]\<rparr>"

lemma stale_snapshot_published_last:
  "let sys = run_system (init_system True)
        [CallCreate ''m'' ''s'' Assistant [] True, CallUpdate (demo_message ''a''), FireTimer ''m'',
         Run 0 True, Run 0 True, Run 0 True,
         CallUpdate demo_finished, Run 1 True, Run 1 True, Run 1 True, Run 1 True, Run 0 True]
   in sy_routines sys = [Returned True, Returned True] \<and>
      map_option m_parts (row_of (sy_store sys) ''m'') = Some (m_parts demo_finished) \<and>
      last (ms_log (sy_store sys)) = MsgUpdated (demo_message ''a'')"
  by code_simp

lemma deleted_message_updated_last:
  "let sys = run_system (init_system True)
        [CallCreate ''m'' ''s'' Assistant [] True, CallUpdate (demo_message ''a''), FireTimer ''m'', Run 0 True,
         CallDelete ''m'', Run 1 True, Run 1 True, Run 1 True, Run 1 True,
         Run 0 True, Run 0 True, Run 0 True]
   in row_of (sy_store sys) ''m'' = None \<and>
      (\<exists>before m. ms_log (sy_store sys) = before @ [MsgDeleted m, MsgUpdated (demo_message ''a'')])"
proof -
  let ?sys = "run_system (init_system True)
        [CallCreate ''m'' ''s'' Assistant [] True, CallUpdate (demo_message ''a''), FireTimer ''m'', Run 0 True,
         CallDelete ''m'', Run 1 True, Run 1 True, Run 1 True, Run 1 True,
         Run 0 True, Run 0 True, Run 0 True]"
  have "row_of (sy_store ?sys) ''m'' = None \<and>
      ms_log (sy_store ?sys) = [MsgCreated ((demo_message '''')\<lparr>m_parts := []\<rparr>)] @
        [MsgDeleted ((demo_message '''')\<lparr>m_parts := []\<rparr>), MsgUpdated (demo_message ''a'')]"
    by code_simp
  then show ?thesis unfolding Let_def by blast
qed

text \<open>
  An update that arrives while the timer's flush is writing arms no timer, and that flush does not
  go round again: with no further call the update stays in the buffer, and its row out of date.
\<close>

lemma trailing_update_stranded:
  "let sys = run_system (init_system True)
        [CallCreate ''m'' ''s'' Assistant [] True, CallUpdate (demo_message ''a''), FireTimer ''m'', Run 0 True,
         CallUpdate (demo_message ''ab''), Run 0 True, Run 0 True, Run 0 True]
   in sy_routines sys = [Returned True] \<and> \<not> timer_set ''m'' (sy_store sys) \<and> dirty (sy_store sys) ''m'' \<and>
      map_option m_parts (row_of (sy_store sys) ''m'') = Some (m_parts (demo_message ''a''))"
  by code_simp

subsection \<open>The encoding of parts\<close>

text \<open>
  \<open>enc\<close> and \<open>dec\<close> are encoding/json on the payload of one part (\<open>dec\<close> decodes into the type of a
  tag), \<open>enc_list\<close> and \<open>dec_list\<close> on the list of wrappers.
\<close>

definition part_type :: "content_part \<Rightarrow> string" where
  "part_type p =
     (case p of Reasoning _ \<Rightarrow> ''reasoning'' | TextPart _ \<Rightarrow> ''text'' | ImageURL _ \<Rightarrow> ''image_url''
      | Binary _ \<Rightarrow> ''binary'' | Call _ \<Rightarrow> ''tool_call'' | Result _ \<Rightarrow> ''tool_result''
      | Finished _ \<Rightarrow> ''finish'' | Shell _ \<Rightarrow> ''shell_command'')"

definition part_types :: "string list" where
  "part_types = [''reasoning'', ''text'', ''image_url'', ''binary'', ''tool_call'', ''tool_result'', ''finish'', ''shell_command'']"

definition marshal_parts :: "(content_part \<Rightarrow> string) \<Rightarrow> ((string \<times> string) list \<Rightarrow> string) \<Rightarrow> parts \<Rightarrow> string" where
  "marshal_parts enc enc_list ps = enc_list (map (\<lambda>p. (part_type p, enc p)) ps)"

definition unmarshal_part :: "(string \<Rightarrow> string \<Rightarrow> content_part option) \<Rightarrow> string \<Rightarrow> string \<Rightarrow> content_part option" where
  "unmarshal_part dec typ data = (if typ \<in> set part_types then dec typ data else None)"

fun unmarshal_each :: "(string \<Rightarrow> string \<Rightarrow> content_part option) \<Rightarrow> (string \<times> string) list \<Rightarrow> parts option" where
  "unmarshal_each dec [] = Some []"
| "unmarshal_each dec ((typ, data) # ws) =
     (case unmarshal_part dec typ data of
        None \<Rightarrow> None
      | Some p \<Rightarrow> map_option ((#) p) (unmarshal_each dec ws))"

definition unmarshal_parts :: "(string \<Rightarrow> string \<Rightarrow> content_part option) \<Rightarrow> (string \<Rightarrow> (string \<times> string) list option) \<Rightarrow>
    string \<Rightarrow> parts option" where
  "unmarshal_parts dec dec_list data =
     (case dec_list data of None \<Rightarrow> None | Some ws \<Rightarrow> unmarshal_each dec ws)"

lemma part_type_known: "part_type p \<in> set part_types"
  by (cases p) (simp_all add: part_type_def part_types_def)

lemma unmarshal_marshal:
  assumes "\<And>ws. dec_list (enc_list ws) = Some ws" and "\<And>p. p \<in> set ps \<Longrightarrow> dec (part_type p) (enc p) = Some p"
  shows "unmarshal_parts dec dec_list (marshal_parts enc enc_list ps) = Some ps"
proof -
  have "unmarshal_each dec (map (\<lambda>p. (part_type p, enc p)) ps) = Some ps"
    using assms(2) by (induction ps) (simp_all add: unmarshal_part_def part_type_known)
  then show ?thesis by (simp add: unmarshal_parts_def marshal_parts_def assms(1))
qed

end
