(* ===== verification/Settle.thy ===== *)
theory Settle
  imports MessageStore
begin

text \<open>
  internal/agent/settle.go: no tool call outlives the turn that made it. Every way a turn ends
  answers its open calls, a restart answers those a dead process left behind, and the replay pairs
  each assistant message with the results of its calls. The messages are those of the store of
  \<open>MessageStore\<close>; \<open>draw k\<close> is the uuid and the success of the \<open>k\<close>-th statement of an operation.
\<close>

definition canceled_tool_call_result :: string where
  "canceled_tool_call_result = ''Error: user cancelled assistant tool calling''"

definition failed_tool_call_result :: string where
  "failed_tool_call_result = ''There was an error while executing the tool''"

definition truncated_tool_call_result :: string where
  "truncated_tool_call_result = ''the model ran out of output tokens before it finished writing this tool call, so the call was never run; retry with smaller arguments, splitting the work across several calls if that helps''"

definition refused_tool_call_result :: string where
  "refused_tool_call_result = ''the provider'' @ [CHR 0x27] @ ''s safety classifier stopped this response before the tool call was finished, so the call was never run; rephrase the request or try a different model''"

definition abandoned_tool_call_result :: string where
  "abandoned_tool_call_result = ''the turn ended before the model finished writing this tool call, so the call was never run; retry the call if the result is still needed''"

definition interrupted_tool_call_result :: string where
  "interrupted_tool_call_result = ''tool call was interrupted and did not produce a result, you may retry this call if the result is still needed''"

definition interrupted_turn_message :: string where
  "interrupted_turn_message = ''Interrupted''"

subsection \<open>Pairing calls with results in a replay\<close>

fun results_loop :: "(string, ai_part list) gomap \<Rightarrow> tool_call list \<Rightarrow> ai_part list \<times> (string, ai_part list) gomap" where
  "results_loop by_call [] = ([], by_call)"
| "results_loop by_call (tc # tcs) =
     (let stored = (case map_of by_call (tc_id tc) of None \<Rightarrow> [] | Some ps \<Rightarrow> ps);
          (rest, left) = results_loop (AList.delete (tc_id tc) by_call) tcs
      in ((if stored \<noteq> [] then stored
           else [AiResult (tc_id tc) (OutputError interrupted_tool_call_result)]) @ rest, left))"

definition tool_results_for_calls ::
  "message \<Rightarrow> (string, ai_part list) gomap \<Rightarrow> (ai_role \<times> ai_part list) \<times> (string, ai_part list) gomap" where
  "tool_results_for_calls m by_call =
     (case results_loop by_call (tool_calls (m_parts m)) of (body, left) \<Rightarrow> ((AiTool, body), left))"

subsection \<open>Settling\<close>

text \<open>\<open>runErr\<close>: none, \<open>context.Canceled\<close>, or another.\<close>

datatype run_error = NoError | ContextCanceled | OtherError

definition turn_end_reason :: "parts \<Rightarrow> run_error \<Rightarrow> string" where
  "turn_end_reason ps err =
     (case err of
        ContextCanceled \<Rightarrow> canceled_tool_call_result
      | OtherError \<Rightarrow> failed_tool_call_result
      | NoError \<Rightarrow>
          (case finish_part ps of
             None \<Rightarrow> abandoned_tool_call_result
           | Some f \<Rightarrow> (case fi_reason f of
                 FinishReasonMaxTokens \<Rightarrow> truncated_tool_call_result
               | FinishReasonContentFilter \<Rightarrow> refused_tool_call_result
               | _ \<Rightarrow> abandoned_tool_call_result)))"

text \<open>\<open>Update\<close> when no other goroutine is flushing the message.\<close>

definition service_update :: "bool \<Rightarrow> message \<Rightarrow> store \<Rightarrow> bool \<times> store" where
  "service_update ok m st =
     (case update_locked m st of (sync, st') \<Rightarrow> if sync then flush_alone ok (m_id m) st' else (True, st'))"

fun finish_calls :: "tool_call list \<Rightarrow> parts \<Rightarrow> parts" where
  "finish_calls [] ps = ps"
| "finish_calls (tc # tcs) ps =
     finish_calls tcs (if tc_finished tc then ps else add_tool_call (tc\<lparr>tc_finished := True\<rparr>) ps)"

definition settled_result :: "string \<Rightarrow> tool_call \<Rightarrow> tool_result" where
  "settled_result reason tc = \<lparr>tr_call_id = tc_id tc, tr_name = tc_name tc, tr_content = reason, tr_data = '''',
     tr_mime_type = '''', tr_metadata = '''', tr_is_error = True, tr_file_mtime = 0, tr_superseded = None\<rparr>"

type_synonym draws = "nat \<Rightarrow> string \<times> bool"

fun create_results :: "draws \<Rightarrow> nat \<Rightarrow> string \<Rightarrow> string \<Rightarrow> tool_call list \<Rightarrow> store \<Rightarrow> message list option \<times> store" where
  "create_results draw k session reason [] st = (Some [], st)"
| "create_results draw k session reason (tc # tcs) st =
     (case create (fst (draw k)) session ToolRole [Result (settled_result reason tc)] (snd (draw k)) st of
        (None, st') \<Rightarrow> (None, st')
      | (Some m, st') \<Rightarrow>
          (case create_results draw (Suc k) session reason tcs st' of
             (None, st'') \<Rightarrow> (None, st'')
           | (Some ms, st'') \<Rightarrow> (Some (m # ms), st'')))"

text \<open>
  \<open>settleToolCalls\<close>: the replies written (\<open>None\<close> if a statement failed), the assistant message as
  the function leaves it, and the store. It runs \<open>1 + length calls\<close> statements.
\<close>

definition settle_tool_calls ::
  "draws \<Rightarrow> nat \<Rightarrow> message \<Rightarrow> tool_call list \<Rightarrow> string \<Rightarrow> store \<Rightarrow> message list option \<times> message \<times> store" where
  "settle_tool_calls draw k assistant calls reason st =
     (if calls = [] then (Some [], assistant, st)
      else let a = assistant\<lparr>m_parts := finish_calls calls (m_parts assistant)\<rparr>
           in case service_update (snd (draw k)) a st of
                (False, st') \<Rightarrow> (None, a, st')
              | (True, st') \<Rightarrow>
                  (case create_results draw (Suc k) (m_session_id a) reason calls st' of
                     (res, st'') \<Rightarrow> (res, a, st'')))"

definition settle_turn ::
  "draws \<Rightarrow> message \<Rightarrow> (string \<Rightarrow> bool) \<Rightarrow> run_error \<Rightarrow> store \<Rightarrow> message list option \<times> message \<times> store" where
  "settle_turn draw assistant answered err st =
     (let open_calls = filter (\<lambda>tc. \<not> answered (tc_id tc)) (tool_calls (m_parts assistant))
      in settle_tool_calls draw 0 assistant open_calls (turn_end_reason (m_parts assistant) err) st)"

subsection \<open>Repairing what a dead process left\<close>

definition resolved_ids :: "message list \<Rightarrow> string list" where
  "resolved_ids msgs = concat (map (\<lambda>m. map tr_call_id (tool_results (m_parts m))) msgs)"

definition orphans :: "string list \<Rightarrow> message \<Rightarrow> tool_call list" where
  "orphans resolved m = filter (\<lambda>tc. tc_id tc \<notin> set resolved) (tool_calls (m_parts m))"

definition close_turn :: "message \<Rightarrow> message" where
  "close_turn m =
     (if is_finished (m_parts m) then m
      else m\<lparr>m_parts := add_finish_at FinishReasonError interrupted_turn_message '''' (m_updated_at m) (m_parts m)\<rparr>)"

fun repair_loop :: "draws \<Rightarrow> nat \<Rightarrow> string list \<Rightarrow> message list \<Rightarrow> store \<Rightarrow>
    (message list \<times> message list) option \<times> store" where
  "repair_loop draw k resolved [] st = (Some ([], []), st)"
| "repair_loop draw k resolved (m # ms) st =
     (if m_role m \<noteq> Assistant \<or> orphans resolved m = []
      then case repair_loop draw k resolved ms st of
             (None, st') \<Rightarrow> (None, st')
           | (Some (ms', repaired), st') \<Rightarrow> (Some (m # ms', repaired), st')
      else case settle_tool_calls draw k (close_turn m) (orphans resolved m) interrupted_tool_call_result st of
             (None, a, st') \<Rightarrow> (None, st')
           | (Some settled, a, st') \<Rightarrow>
               (case repair_loop draw (k + 1 + length (orphans resolved m)) resolved ms st' of
                  (None, st'') \<Rightarrow> (None, st'')
                | (Some (ms', repaired), st'') \<Rightarrow> (Some (a # ms', settled @ repaired), st'')))"

definition repair_interrupted_tool_calls :: "draws \<Rightarrow> message list \<Rightarrow> store \<Rightarrow> message list option \<times> store" where
  "repair_interrupted_tool_calls draw msgs st =
     (case repair_loop draw 0 (resolved_ids msgs) msgs st of
        (None, st') \<Rightarrow> (None, st')
      | (Some (msgs', repaired), st') \<Rightarrow> (Some (msgs' @ repaired), st'))"

text \<open>\<open>ListSettledMessages\<close> under the session's dispatch lock; \<open>busy\<close> is \<open>IsSessionBusy\<close>.\<close>

definition list_settled_messages ::
  "((string, nat) gomap \<Rightarrow> (string, nat) gomap) \<Rightarrow> (string \<Rightarrow> bool) \<Rightarrow> bool \<Rightarrow> draws \<Rightarrow> string \<Rightarrow> store \<Rightarrow> message list option \<times> store" where
  "list_settled_messages ord flushes busy draw session st =
     (case flush_all ord flushes st of
        (False, st1) \<Rightarrow> (None, st1)
      | (True, st1) \<Rightarrow>
          (let msgs = list_messages session st1
           in if busy then (Some msgs, st1)
              else case repair_interrupted_tool_calls draw msgs st1 of
                     (Some settled, st2) \<Rightarrow> (Some settled, st2)
                   | (None, st2) \<Rightarrow> (Some (list_messages session st2), st2)))"

subsection \<open>The replies\<close>

lemma finish_calls_ids:
  "set (map tc_id tcs) \<subseteq> set (call_ids ps) \<Longrightarrow> call_ids (finish_calls tcs ps) = call_ids ps"
proof (induction tcs arbitrary: ps)
  case (Cons tc tcs)
  let ?tc = "tc\<lparr>tc_finished := True\<rparr>"
  have "call_ids (add_tool_call ?tc ps) = call_ids ps"
  proof (cases "change_call (tc_id ?tc) (\<lambda>_. ?tc) ps")
    case None
    then show ?thesis using change_call_absent [OF None] Cons.prems by (simp add: call_ids_def)
  next
    case (Some ps')
    then have "add_tool_call ?tc ps = ps'" by (simp add: add_tool_call_def)
    with Some show ?thesis by (elim change_call_split) (simp add: call_ids_def tool_calls_def)
  qed
  then show ?case using Cons by simp
qed simp

lemma finish_calls_results: "set (map tc_id tcs) \<subseteq> set (call_ids ps) \<Longrightarrow> tool_results (finish_calls tcs ps) = tool_results ps
   \<and> collect the_finish (finish_calls tcs ps) = collect the_finish ps"
proof (induction tcs arbitrary: ps)
  case (Cons tc tcs)
  let ?tc = "tc\<lparr>tc_finished := True\<rparr>"
  have *: "tool_results (add_tool_call ?tc ps) = tool_results ps \<and>
      collect the_finish (add_tool_call ?tc ps) = collect the_finish ps"
    by (auto simp: add_tool_call_def tool_results_def split: option.splits elim!: change_call_split)
  have "call_ids (finish_calls [tc] ps) = call_ids ps" using Cons.prems by (intro finish_calls_ids) simp
  then have "set (map tc_id tcs) \<subseteq> set (call_ids (if tc_finished tc then ps else add_tool_call ?tc ps))"
    using Cons.prems by simp
  from Cons.IH [OF this] * show ?case by simp
qed simp

text \<open>
  What settling does to the parts of the assistant message: the flag of the calls that are settled
  is set, and everything else stays where it was. (With two calls of the same id only the parts that
  are not calls are sure to stay: \<open>AddToolCall\<close> overwrites the first call of an id.)
\<close>

definition finish_in :: "string set \<Rightarrow> content_part \<Rightarrow> content_part" where
  "finish_in ids p =
     (case p of Call tc \<Rightarrow> if tc_id tc \<in> ids then Call (tc\<lparr>tc_finished := True\<rparr>) else p | _ \<Rightarrow> p)"

lemma finish_in_simps [simp]:
  "finish_in ids (Call tc) = (if tc_id tc \<in> ids then Call (tc\<lparr>tc_finished := True\<rparr>) else Call tc)"
  "the_call p = None \<Longrightarrow> finish_in ids p = p" "finish_in {} = (\<lambda>p. p)"
  "finish_in ids (finish_in ids' p) = finish_in (ids \<union> ids') p"
  "map_option tc_id (the_call (finish_in ids p)) = map_option tc_id (the_call p)"
  by (cases p; auto simp: finish_in_def fun_eq_iff split: content_part.splits)+

lemma finish_in_calls: "call_ids (map (finish_in ids) ps) = call_ids ps"
  by (induction ps) (auto simp: call_ids_def tool_calls_def finish_in_def split: content_part.splits)

lemma call_ids_split: "call_ids (as @ Call c # bs) = call_ids as @ tc_id c # call_ids bs"
  by (simp add: call_ids_def tool_calls_def)

lemma call_ids_member: "Call c \<in> set ps \<Longrightarrow> tc_id c \<in> set (call_ids ps)"
  by (metis call_ids_split in_set_conv_decomp)

lemma finish_in_absent: "i \<notin> set (call_ids ps) \<Longrightarrow> map (finish_in {i}) ps = ps"
  by (rule map_idI) (auto simp: finish_in_def dest: call_ids_member split: content_part.splits)

lemma add_finished_call:
  assumes "Call tc \<in> set ps" and "distinct (call_ids ps)"
  shows "add_tool_call (tc\<lparr>tc_finished := True\<rparr>) ps = map (finish_in {tc_id tc}) ps"
proof -
  let ?tc = "tc\<lparr>tc_finished := True\<rparr>"
  obtain ps' where ps': "change_call (tc_id ?tc) (\<lambda>_. ?tc) ps = Some ps'"
    using change_call_absent [of "tc_id ?tc" "\<lambda>_. ?tc" ps] call_ids_member [OF assms(1)]
    by (cases "change_call (tc_id ?tc) (\<lambda>_. ?tc) ps") (auto simp: call_ids_def)
  from change_call_split [OF ps'] obtain as c bs where split: "ps = as @ Call c # bs" "ps' = as @ Call ?tc # bs"
    "tc_id c = tc_id tc" by auto
  have d: "tc_id tc \<notin> set (call_ids as)" "tc_id tc \<notin> set (call_ids bs)"
    using assms(2) split(3) by (auto simp: split(1) call_ids_split)
  then have "c = tc" using assms(1) call_ids_member [of tc] by (auto simp: split(1))
  with d split(2) ps' show ?thesis by (simp add: add_tool_call_def split(1) finish_in_absent)
qed

lemma finish_calls_map:
  assumes "\<forall>tc\<in>set tcs. Call tc \<in> set ps" and "distinct (map tc_id tcs)" and "distinct (call_ids ps)"
  shows "finish_calls tcs ps = map (finish_in (tc_id ` set tcs)) ps"
  using assms
proof (induction tcs arbitrary: ps)
  case (Cons tc tcs)
  have tc: "Call tc \<in> set ps" using Cons.prems(1) by simp
  have step: "(if tc_finished tc then ps else add_tool_call (tc\<lparr>tc_finished := True\<rparr>) ps) = map (finish_in {tc_id tc}) ps"
  proof (cases "tc_finished tc")
    case True
    have "finish_in {tc_id tc} p = p" if "p \<in> set ps" for p
    proof (cases p)
      case (Call c)
      have "c = tc" if "tc_id c = tc_id tc"
      proof -
        obtain as bs where split: "ps = as @ Call tc # bs" using tc by (auto simp: in_set_conv_decomp)
        have "tc_id c \<notin> set (call_ids as)" "tc_id c \<notin> set (call_ids bs)"
          using Cons.prems(3) that by (auto simp: split call_ids_split)
        with \<open>p \<in> set ps\<close> Call call_ids_member [of c] show ?thesis by (auto simp: split)
      qed
      with True Call show ?thesis by (cases c) auto
    qed (simp_all add: finish_in_def)
    then have "map (finish_in {tc_id tc}) ps = ps" by (intro map_idI)
    with True show ?thesis by simp
  qed (simp add: add_finished_call [OF tc Cons.prems(3)])
  have "\<forall>u\<in>set tcs. Call u \<in> set (map (finish_in {tc_id tc}) ps)"
  proof
    fix u assume u: "u \<in> set tcs"
    then have "tc_id u \<noteq> tc_id tc" using Cons.prems(2) by (metis distinct.simps(2) image_eqI list.set_map list.simps(9))
    then have "finish_in {tc_id tc} (Call u) = Call u" by simp
    with u Cons.prems(1) show "Call u \<in> set (map (finish_in {tc_id tc}) ps)"
      by (metis image_eqI list.set_map list.set_intros(2))
  qed
  from Cons.IH [OF this] Cons.prems(2,3)
  have "finish_calls tcs (map (finish_in {tc_id tc}) ps) = map (finish_in (tc_id ` set (tc # tcs))) ps"
    by (simp add: finish_in_calls comp_def)
  with step show ?case by simp
qed simp

lemma finish_calls_others:
  "set (map tc_id tcs) \<subseteq> set (call_ids ps) \<Longrightarrow>
     filter (\<lambda>p. the_call p = None) (finish_calls tcs ps) = filter (\<lambda>p. the_call p = None) ps"
proof (induction tcs arbitrary: ps)
  case (Cons tc tcs)
  let ?tc = "tc\<lparr>tc_finished := True\<rparr>"
  let ?ps = "if tc_finished tc then ps else add_tool_call ?tc ps"
  have "call_ids (finish_calls [tc] ps) = call_ids ps" using Cons.prems by (intro finish_calls_ids) simp
  then have "set (map tc_id tcs) \<subseteq> set (call_ids ?ps)" using Cons.prems by simp
  moreover have "filter (\<lambda>p. the_call p = None) ?ps = filter (\<lambda>p. the_call p = None) ps"
    by (auto simp: add_tool_call_def split: option.splits elim!: change_call_split)
  ultimately show ?case using Cons.IH [of ?ps] by simp
qed simp

lemma create_results_spec:
  "create_results draw k session reason tcs st = (Some ms, st') \<Longrightarrow>
   map m_parts ms = map (\<lambda>tc. created_parts ToolRole [Result (settled_result reason tc)]) tcs \<and>
   (\<forall>m\<in>set ms. m_role m = ToolRole \<and> m_session_id m = session)"
proof (induction tcs arbitrary: k st ms)
  case (Cons tc tcs)
  then obtain m ms' st1 where c: "create (fst (draw k)) session ToolRole [Result (settled_result reason tc)] (snd (draw k)) st = (Some m, st1)"
    and r: "create_results draw (Suc k) session reason tcs st1 = (Some ms', st')" and ms: "ms = m # ms'"
    by (auto split: prod.splits option.splits)
  have m: "m_parts m = created_parts ToolRole [Result (settled_result reason tc)]" "m_id m = fst (draw k)"
    "m_role m = ToolRole" "m_session_id m = session"
    using c by (auto simp: create_def Let_def split: if_splits)
  then show ?case using Cons.IH [OF r] ms by simp
qed simp

lemma created_result: "tool_results (created_parts ToolRole [Result r]) = [r]" "tool_calls (created_parts ToolRole [Result r]) = []"
  by (simp_all add: created_parts_def tool_results_def tool_calls_def)

lemma settle_tool_calls_parts:
  assumes "settle_tool_calls draw k m calls reason st = (Some settled, a, st')"
  shows "a = m\<lparr>m_parts := finish_calls calls (m_parts m)\<rparr>"
    and "map m_parts settled = map (\<lambda>tc. created_parts ToolRole [Result (settled_result reason tc)]) calls"
  using assms create_results_spec
  by (auto simp: settle_tool_calls_def Let_def split: prod.splits bool.splits if_splits)

lemma settle_tool_calls_spec:
  assumes "settle_tool_calls draw k m calls reason st = (Some settled, a, st')"
    and "set (map tc_id calls) \<subseteq> set (call_ids (m_parts m))"
  shows "concat (map (\<lambda>r. map tr_call_id (tool_results (m_parts r))) settled) = map tc_id calls \<and>
    concat (map (tool_calls \<circ> m_parts) settled) = [] \<and> (\<forall>r\<in>set settled. m_role r = ToolRole) \<and>
    call_ids (m_parts a) = call_ids (m_parts m) \<and> tool_results (m_parts a) = tool_results (m_parts m) \<and>
    m_role a = m_role m \<and> m_id a = m_id m \<and> is_finished (m_parts a) = is_finished (m_parts m)"
proof (cases "calls = []")
  case True
  then show ?thesis using assms(1) by (simp add: settle_tool_calls_def)
next
  case False
  let ?a = "m\<lparr>m_parts := finish_calls calls (m_parts m)\<rparr>"
  from assms(1) False obtain st1 where a: "a = ?a"
    and c: "create_results draw (Suc k) (m_session_id m) reason calls st1 = (Some settled, st')"
    by (auto simp: settle_tool_calls_def Let_def split: prod.splits bool.splits)
  note s = create_results_spec [OF c]
  have "concat (map (\<lambda>ps. map tr_call_id (tool_results ps)) (map m_parts settled)) = map tc_id calls"
    unfolding conjunct1 [OF s] by (induction calls) (simp_all add: created_result settled_result_def)
  then have ids: "concat (map (\<lambda>r. map tr_call_id (tool_results (m_parts r))) settled) = map tc_id calls"
    by (simp add: comp_def)
  have "concat (map tool_calls (map m_parts settled)) = []"
    unfolding conjunct1 [OF s] by (induction calls) (simp_all add: created_result)
  then have none: "concat (map (tool_calls \<circ> m_parts) settled) = []" by (simp add: comp_def)
  show ?thesis
    using s finish_calls_ids [OF assms(2)] finish_calls_results [OF assms(2)] ids none
    by (simp add: a is_finished_def finish_part_def first_some_collect)
qed

lemma close_turn_spec:
  "tool_calls (m_parts (close_turn m)) = tool_calls (m_parts m)" "tool_results (m_parts (close_turn m)) = tool_results (m_parts m)"
  "m_role (close_turn m) = m_role m" "m_id (close_turn m) = m_id m" "is_finished (m_parts (close_turn m))"
proof -
  have res: "collect the_result (delete_first is_finish_part ps) = collect the_result ps" for ps
    by (rule collect_delete_first) (auto simp: is_finish_part_def)
  show "tool_calls (m_parts (close_turn m)) = tool_calls (m_parts m)"
    "tool_results (m_parts (close_turn m)) = tool_results (m_parts m)"
    "m_role (close_turn m) = m_role m" "m_id (close_turn m) = m_id m"
    by (simp_all add: close_turn_def add_finish_at_def tool_calls_def tool_results_def collect_delete_finish res)
  show "is_finished (m_parts (close_turn m))"
    by (auto simp: close_turn_def is_finished_def finish_part_def first_some_collect add_finish_at_def split: list.splits)
qed

text \<open>The calls of the assistant messages, and those nothing answers.\<close>

definition asked_ids :: "message list \<Rightarrow> string list" where
  "asked_ids msgs = concat (map (\<lambda>m. if m_role m = Assistant then call_ids (m_parts m) else []) msgs)"

lemma orphan_ids: "set (map tc_id (orphans resolved m)) \<subseteq> set (call_ids (m_parts m))"
  by (auto simp: orphans_def call_ids_def)

text \<open>
  What a repair makes of a message: one with nothing open stays as it is; of the others only the parts
  change, by the flags of the open calls and by the finish of an interrupted turn at the end, if there
  was none.
\<close>

definition interruption :: "message \<Rightarrow> parts" where
  "interruption m =
     (if is_finished (m_parts m) then []
      else [Finished \<lparr>fi_reason = FinishReasonError, fi_time = m_updated_at m,
              fi_message = interrupted_turn_message, fi_details = ''''\<rparr>])"

definition repaired_from :: "string list \<Rightarrow> message \<Rightarrow> message \<Rightarrow> bool" where
  "repaired_from resolved m m' \<longleftrightarrow>
     (if m_role m \<noteq> Assistant \<or> orphans resolved m = [] then m' = m
      else is_finished (m_parts m') \<and> m' = m\<lparr>m_parts := m_parts m'\<rparr> \<and>
        filter (\<lambda>p. the_call p = None) (m_parts m') =
          filter (\<lambda>p. the_call p = None) (m_parts m) @ interruption m \<and>
        call_ids (m_parts m') = call_ids (m_parts m) \<and>
        (distinct (call_ids (m_parts m)) \<longrightarrow>
           m_parts m' = map (finish_in (tc_id ` set (orphans resolved m))) (m_parts m) @ interruption m))"

definition open_calls :: "message list \<Rightarrow> tool_call list" where
  "open_calls msgs = concat (map (\<lambda>m. if m_role m = Assistant then orphans (resolved_ids msgs) m else []) msgs)"

lemma delete_first_no_finish:
  "collect the_finish ps = [] \<Longrightarrow> delete_first is_finish_part ps = ps"
  by (induction ps) (auto simp: is_finish_part_def split: option.splits)

lemma close_turn_parts: "close_turn m = m\<lparr>m_parts := m_parts m @ interruption m\<rparr>"
proof (cases "is_finished (m_parts m)")
  case False
  then have "collect the_finish (m_parts m) = []"
    by (simp add: is_finished_def finish_part_def first_some_collect split: list.splits)
  then have "delete_first is_finish_part (m_parts m) = m_parts m" by (rule delete_first_no_finish)
  with False show ?thesis by (simp add: close_turn_def interruption_def add_finish_at_def)
qed (simp add: close_turn_def interruption_def)

lemma orphan_calls: "tc \<in> set (orphans resolved m) \<Longrightarrow> Call tc \<in> set (m_parts m)"
  by (auto simp: orphans_def tool_calls_def set_collect split: content_part.splits elim!: the_call.elims)

lemma interruption_calls [simp]: "call_ids (ps @ interruption m) = call_ids ps"
  "filter (\<lambda>p. the_call p = None) (interruption m) = interruption m" "map (finish_in ids) (interruption m) = interruption m"
  by (simp_all add: interruption_def call_ids_def tool_calls_def)

lemma settled_repair:
  assumes "m_role m = Assistant" and "orphans resolved m \<noteq> []"
    and a: "a = (close_turn m)\<lparr>m_parts := finish_calls (orphans resolved m) (m_parts (close_turn m))\<rparr>"
    and "is_finished (m_parts a)"
  shows "repaired_from resolved m a"
proof -
  let ?ps = "m_parts m @ interruption m" and ?os = "orphans resolved m"
  have parts: "m_parts a = finish_calls ?os ?ps" by (simp add: a close_turn_parts)
  have sub: "set (map tc_id ?os) \<subseteq> set (call_ids ?ps)" using orphan_ids [of resolved m] by simp
  have "m_parts a = map (finish_in (tc_id ` set ?os)) (m_parts m) @ interruption m"
    if d: "distinct (call_ids (m_parts m))"
  proof -
    have "distinct (map tc_id ?os)"
      using d unfolding orphans_def call_ids_def by (rule distinct_map_filter)
    then have "finish_calls ?os ?ps = map (finish_in (tc_id ` set ?os)) ?ps"
      using d orphan_calls by (intro finish_calls_map) auto
    then show ?thesis by (simp add: parts)
  qed
  moreover have "a = m\<lparr>m_parts := m_parts a\<rparr>" by (simp add: a close_turn_parts)
  ultimately show ?thesis
    using assms(1,2,4) finish_calls_others [OF sub] finish_calls_ids [OF sub]
    by (simp add: repaired_from_def parts)
qed

lemma repair_loop_spec:
  assumes "repair_loop draw k resolved msgs st = (Some (msgs', repaired), st')"
  shows "asked_ids msgs' = asked_ids msgs \<and> asked_ids repaired = [] \<and> resolved_ids msgs' = resolved_ids msgs \<and>
    resolved_ids repaired = filter (\<lambda>i. i \<notin> set resolved) (asked_ids msgs) \<and>
    list_all2 (repaired_from resolved) msgs msgs' \<and>
    map m_parts repaired = map (\<lambda>tc. created_parts ToolRole [Result (settled_result interrupted_tool_call_result tc)])
      (concat (map (\<lambda>m. if m_role m = Assistant then orphans resolved m else []) msgs))"
  using assms
proof (induction msgs arbitrary: k st msgs' repaired)
  case (Cons m ms)
  show ?case
  proof (cases "m_role m \<noteq> Assistant \<or> orphans resolved m = []")
    case True
    then obtain ms' where r: "repair_loop draw k resolved ms st = (Some (ms', repaired), st')" and m': "msgs' = m # ms'"
      using Cons.prems by (auto split: prod.splits option.splits)
    have "filter (\<lambda>i. i \<notin> set resolved) (if m_role m = Assistant then call_ids (m_parts m) else []) = []"
      using True by (auto simp: orphans_def call_ids_def filter_empty_conv)
    with Cons.IH [OF r] m' True show ?thesis by (auto simp: asked_ids_def resolved_ids_def repaired_from_def)
  next
    case False
    then obtain settled a st1 ms' rep where
      s: "settle_tool_calls draw k (close_turn m) (orphans resolved m) interrupted_tool_call_result st = (Some settled, a, st1)"
      and r: "repair_loop draw (k + 1 + length (orphans resolved m)) resolved ms st1 = (Some (ms', rep), st')"
      and m': "msgs' = a # ms'" "repaired = settled @ rep"
      using Cons.prems by (auto split: prod.splits option.splits)
    have "set (map tc_id (orphans resolved m)) \<subseteq> set (call_ids (m_parts (close_turn m)))"
      using orphan_ids by (simp add: call_ids_def close_turn_spec)
    note t = settle_tool_calls_spec [OF s this]
    have "asked_ids settled = []" using t by (auto simp: asked_ids_def)
    moreover have "map tc_id (orphans resolved m) = filter (\<lambda>i. i \<notin> set resolved) (call_ids (m_parts m))"
      by (simp add: orphans_def call_ids_def filter_map comp_def)
    moreover have "call_ids (m_parts (close_turn m)) = call_ids (m_parts m)" by (simp add: call_ids_def close_turn_spec)
    moreover have "m_role m = Assistant" using False by simp
    moreover have "repaired_from resolved m a"
      using t False close_turn_spec(5) [of m] settle_tool_calls_parts(1) [OF s] by (intro settled_repair) auto
    ultimately show ?thesis using t Cons.IH [OF r] False settle_tool_calls_parts(2) [OF s]
      by (simp add: m' asked_ids_def resolved_ids_def close_turn_spec)
  qed
qed (simp add: asked_ids_def resolved_ids_def)

lemma repair_loop_id:
  assumes "set (asked_ids msgs) \<subseteq> set resolved"
  shows "repair_loop draw k resolved msgs st = (Some (msgs, []), st)"
  using assms
proof (induction msgs)
  case (Cons m ms)
  then have "set (asked_ids ms) \<subseteq> set resolved" by (auto simp: asked_ids_def)
  moreover have "m_role m \<noteq> Assistant \<or> orphans resolved m = []"
    using Cons.prems by (auto simp: asked_ids_def orphans_def call_ids_def filter_empty_conv)
  ultimately show ?case using Cons.IH by simp
qed simp

text \<open>
  C39: after a repair every tool call an assistant message holds has a result: each call that had
  none gets exactly one, in the order of the calls, and the messages added are these results only.
  Messages with nothing open are untouched. Of the others nothing changes but the parts: the parts
  that are not calls stay, in their order, followed by the finish of an interrupted turn if there was
  none, the calls keep their ids, and when these are distinct exactly the open calls are marked
  finished and all else of every part stays. A second repair finds nothing to do and writes nothing.
\<close>

theorem repair_answers_every_call:
  assumes "repair_interrupted_tool_calls draw msgs st = (Some settled, st')"
  shows "set (asked_ids settled) \<subseteq> set (resolved_ids settled) \<and>
    resolved_ids settled = resolved_ids msgs @ filter (\<lambda>i. i \<notin> set (resolved_ids msgs)) (asked_ids msgs) \<and>
    list_all2 (repaired_from (resolved_ids msgs)) msgs (take (length msgs) settled) \<and>
    map m_parts (drop (length msgs) settled) =
      map (\<lambda>tc. created_parts ToolRole [Result (settled_result interrupted_tool_call_result tc)]) (open_calls msgs) \<and>
    repair_interrupted_tool_calls draw' settled st' = (Some settled, st')"
proof -
  obtain msgs' repaired where r: "repair_loop draw 0 (resolved_ids msgs) msgs st = (Some (msgs', repaired), st')"
    and s: "settled = msgs' @ repaired"
    using assms by (auto simp: repair_interrupted_tool_calls_def split: prod.splits option.splits)
  note t = repair_loop_spec [OF r]
  have asked: "asked_ids settled = asked_ids msgs" using t by (simp add: s asked_ids_def)
  have res: "resolved_ids settled = resolved_ids msgs @ filter (\<lambda>i. i \<notin> set (resolved_ids msgs)) (asked_ids msgs)"
    using t by (simp add: s resolved_ids_def)
  have all: "set (asked_ids settled) \<subseteq> set (resolved_ids settled)" unfolding asked res by auto
  moreover have "length msgs = length msgs'" using t list_all2_lengthD by blast
  moreover have "repair_interrupted_tool_calls draw' settled st' = (Some settled, st')"
    by (simp add: repair_interrupted_tool_calls_def repair_loop_id [OF all])
  ultimately show ?thesis using t res s by (simp add: open_calls_def)
qed

definition demo_call :: tool_call where
  "demo_call = \<lparr>tc_id = ''c'', tc_name = ''bash'', tc_input = ''{'', tc_provider_executed = False, tc_finished = False\<rparr>"

definition demo_dead :: message where
  "demo_dead = \<lparr>m_id = ''m'', m_role = Assistant, m_session_id = ''s'', m_parts = [Call demo_call], m_updated_at = 5\<rparr>"

theorem repair_answers_every_call_witness:
  "let st = (new_service True)\<lparr>ms_rows := [(''m'', demo_dead)]\<rparr>;
       draw = (\<lambda>k. (nat_str k, True)); settled = the (fst (repair_interrupted_tool_calls draw [demo_dead] st))
   in set (asked_ids settled) \<subseteq> set (resolved_ids settled) \<and> asked_ids settled = [''c'']"
proof -
  let ?st = "(new_service True)\<lparr>ms_rows := [(''m'', demo_dead)]\<rparr>"
  let ?r = "repair_interrupted_tool_calls (\<lambda>k. (nat_str k, True)) [demo_dead] ?st"
  have ok: "fst ?r \<noteq> None" and asked: "asked_ids (the (fst ?r)) = [''c'']" by code_simp+
  then have "?r = (Some (the (fst ?r)), snd ?r)" by (metis option.collapse prod.collapse)
  from repair_answers_every_call [OF this] asked show ?thesis unfolding Let_def by blast
qed

subsection \<open>What is returned is what is stored\<close>

lemma service_update_view:
  assumes "store_inv st" and "service_update ok m st = (fine, st')"
  shows "store_inv st' \<and> view st' = (view st)(m_id m := map_option (\<lambda>_. m_parts m) (view st (m_id m)))"
proof -
  obtain sync st1 where u: "update_locked m st = (sync, st1)" by (cases "update_locked m st")
  have st1: "store_inv st1" "view st1 = (view st)(m_id m := map_option (\<lambda>_. m_parts m) (view st (m_id m)))"
    using update_locked_inv [OF assms(1) u] update_view [OF assms(1) u] by simp_all
  show ?thesis
  proof (cases sync)
    case False
    then show ?thesis using assms(2) u st1 by (simp add: service_update_def)
  next
    case True
    obtain r where "solo ok 4 (FlushLoop (m_id m) True) st1 = (r, st')"
      using assms(2) u True by (auto simp: service_update_def flush_alone_def split: prod.splits)
    from solo_inv [OF st1(1) _ _ _ this] st1(2) show ?thesis by simp
  qed
qed

text \<open>The uuids still to be drawn are new.\<close>

definition fresh_draws :: "draws \<Rightarrow> nat \<Rightarrow> store \<Rightarrow> bool" where
  "fresh_draws draw k st \<longleftrightarrow>
     inj_on (fst \<circ> draw) {k..} \<and> (\<forall>j\<ge>k. row_of st (fst (draw j)) = None \<and> entry_of st (fst (draw j)) = None)"

lemma fresh_draws_inj:
  "fresh_draws draw k st \<Longrightarrow> k \<le> i \<Longrightarrow> k \<le> j \<Longrightarrow> fst (draw i) = fst (draw j) \<Longrightarrow> i = j"
  using inj_onD [of "fst \<circ> draw" "{k..}" i j] by (simp add: fresh_draws_def)

definition drawn :: "draws \<Rightarrow> nat \<Rightarrow> string set" where
  "drawn draw k = (fst \<circ> draw) ` {k..}"

lemma update_domain:
  assumes "store_inv st" and "service_update ok m st = (fine, st')"
  shows "row_of st i = None \<Longrightarrow> row_of st' i = None" and "i \<noteq> m_id m \<Longrightarrow> entry_of st i = None \<Longrightarrow> entry_of st' i = None"
proof -
  obtain sync st1 where u: "update_locked m st = (sync, st1)" by (cases "update_locked m st")
  note l = update_locked_inv [OF assms(1) u]
  have solo: "(row_of s i = None \<longrightarrow> row_of s' i = None) \<and> (entry_of s i = None \<longrightarrow> entry_of s' i = None)"
    if "store_inv s" "routine_inv s r" "routine_id r = None \<or> holds r \<noteq> None" "\<forall>j. r \<noteq> DeleteGet j" "solo ok n r s = (r', s')"
    for n r s r' s'
    using that
  proof (induction n arbitrary: r s)
    case (Suc n)
    obtain r1 s1 where s: "routine_step ok r s = (r1, s1)" by (cases "routine_step ok r s")
    have a: "store_inv s1 \<and> routine_inv s1 r1 \<and> (row_of s i = None \<longrightarrow> row_of s1 i = None) \<and>
        (entry_of s i = None \<longrightarrow> entry_of s1 i = None)"
      using routine_step_inv [of s "[r]" 0 ok r1 s1] Suc.prems s by (simp add: exclusive_def)
    have "(routine_id r1 = None \<or> holds r1 \<noteq> None) \<and> (\<forall>j. r1 \<noteq> DeleteGet j)"
      using s Suc.prems(3,4) by (cases r) (auto split: prod.splits flush_begin.splits if_splits)
    with a Suc.IH [of s1 r1] Suc.prems(5) s show ?case by simp
  qed simp
  obtain r where step: "st' = st1 \<or> solo ok 4 (FlushLoop (m_id m) True) st1 = (r, st')"
    using assms(2) u by (auto simp: service_update_def flush_alone_def split: prod.splits if_splits)
  have l1: "store_inv st1" using l by simp
  have s: "(row_of st1 i = None \<longrightarrow> row_of st' i = None) \<and> (entry_of st1 i = None \<longrightarrow> entry_of st' i = None)"
    using step solo [OF l1, of "FlushLoop (m_id m) True" 4 r st'] by auto
  show "row_of st i = None \<Longrightarrow> row_of st' i = None" "i \<noteq> m_id m \<Longrightarrow> entry_of st i = None \<Longrightarrow> entry_of st' i = None"
    using s l by auto
qed

lemma create_results_view:
  assumes "create_results draw k session reason tcs st = (Some ms, st')" and "store_inv st" and "fresh_draws draw k st"
  shows "store_inv st' \<and> fresh_draws draw (k + length tcs) st' \<and> (\<forall>m\<in>set ms. view st' (m_id m) = Some (m_parts m)) \<and>
    (\<forall>i. i \<notin> drawn draw k \<longrightarrow> view st' i = view st i) \<and> m_id ` set ms \<subseteq> (fst \<circ> draw) ` {k..<k + length tcs} \<and>
    (\<forall>i. i \<notin> (fst \<circ> draw) ` {k..<k + length tcs} \<longrightarrow> view st' i = view st i)"
  using assms
proof (induction tcs arbitrary: k st ms)
  case (Cons tc tcs)
  let ?u = "fst (draw k)"
  obtain m ms' st1 where c: "create ?u session ToolRole [Result (settled_result reason tc)] (snd (draw k)) st = (Some m, st1)"
    and r: "create_results draw (Suc k) session reason tcs st1 = (Some ms', st')" and ms: "ms = m # ms'"
    using Cons.prems(1) by (auto split: prod.splits option.splits)
  have new: "row_of st ?u = None" "entry_of st ?u = None" using Cons.prems(3) by (auto simp: fresh_draws_def)
  have ok: "snd (draw k)" and m: "m_id m = ?u" "m_parts m = created_parts ToolRole [Result (settled_result reason tc)]"
    using c by (auto simp: create_def Let_def split: if_splits)
  have st1: "st1 = snd (create ?u session ToolRole [Result (settled_result reason tc)] (snd (draw k)) st)" using c by simp
  note ci = create_inv [OF Cons.prems(2) new(1), where s = session and role = ToolRole
      and ps = "[Result (settled_result reason tc)]" and ok = "snd (draw k)", folded st1]
  have v: "view st1 = (view st)(?u := Some (m_parts m))"
    unfolding st1 using create_view [OF new] ok m(2) by simp
  have inj: "fst (draw j) \<noteq> ?u" if "Suc k \<le> j" for j
  proof
    assume "fst (draw j) = ?u"
    then have "j = k" using fresh_draws_inj [OF Cons.prems(3), of j k] that by simp
    with that show False by simp
  qed
  have "inj_on (fst \<circ> draw) {Suc k..}"
    using Cons.prems(3) by (auto simp: fresh_draws_def elim: inj_on_subset)
  moreover have "row_of st1 (fst (draw j)) = None \<and> entry_of st1 (fst (draw j)) = None" if "Suc k \<le> j" for j
    using Cons.prems(3) inj [OF that] that ci(3,5) by (auto simp: fresh_draws_def)
  ultimately have "fresh_draws draw (Suc k) st1" by (simp add: fresh_draws_def)
  note ih = Cons.IH [OF r ci(1) this]
  have "?u \<notin> (fst \<circ> draw) ` {Suc k..<Suc k + length tcs}" using inj by fastforce
  then have "view st' ?u = Some (m_parts m)" using ih v by simp
  moreover have "{k..<k + length (tc # tcs)} = insert k {Suc k..<Suc k + length tcs}" by auto
  ultimately show ?case using ih v ms m(1) by (auto simp: drawn_def image_iff)
qed (auto simp: drawn_def)

lemma settle_tool_calls_view:
  assumes "settle_tool_calls draw k m calls reason st = (Some settled, a, st')" and "store_inv st"
    and "fresh_draws draw k st" and "view st (m_id m) \<noteq> None" and "calls \<noteq> []"
  shows "store_inv st' \<and> fresh_draws draw (k + 1 + length calls) st' \<and> view st' (m_id m) = Some (m_parts a) \<and>
    (\<forall>r\<in>set settled. view st' (m_id r) = Some (m_parts r)) \<and>
    m_id ` set settled \<subseteq> drawn draw (Suc k) - drawn draw (k + 1 + length calls) \<and>
    (\<forall>i. i \<noteq> m_id m \<and> i \<notin> m_id ` set settled \<union> drawn draw (Suc k) \<longrightarrow> view st' i = view st i)"
proof -
  let ?a = "m\<lparr>m_parts := finish_calls calls (m_parts m)\<rparr>"
  from assms(1,5) obtain st1 where a: "a = ?a" and u: "service_update (snd (draw k)) ?a st = (True, st1)"
    and c: "create_results draw (Suc k) (m_session_id m) reason calls st1 = (Some settled, st')"
    by (auto simp: settle_tool_calls_def Let_def split: prod.splits bool.splits)
  have row: "row_of st (m_id m) \<noteq> None" using assms(4) view_None by metis
  then have mine: "m_id m \<notin> drawn draw k" using assms(3) by (auto simp: fresh_draws_def drawn_def)
  have "row_of st1 (fst (draw j)) = None \<and> entry_of st1 (fst (draw j)) = None" if "Suc k \<le> j" for j
  proof -
    have "k \<le> j" using that by simp
    then have "fst (draw j) \<in> drawn draw k" by (auto simp: drawn_def)
    then have "fst (draw j) \<noteq> m_id ?a" using mine by auto
    with update_domain [OF assms(2) u, of "fst (draw j)"] assms(3) \<open>k \<le> j\<close> show ?thesis
      by (simp add: fresh_draws_def)
  qed
  moreover have "inj_on (fst \<circ> draw) {Suc k..}"
    using assms(3) by (auto simp: fresh_draws_def elim: inj_on_subset)
  ultimately have fresh: "fresh_draws draw (Suc k) st1" by (simp add: fresh_draws_def)
  have v: "store_inv st1" "view st1 = (view st)(m_id m := Some (m_parts a))"
    using service_update_view [OF assms(2) u] assms(4) by (auto simp: a)
  note r = create_results_view [OF c v(1) fresh]
  have "m_id m \<notin> drawn draw (Suc k)" using mine by (auto simp: drawn_def)
  moreover have "m_id ` set settled \<subseteq> drawn draw (Suc k) - drawn draw (k + 1 + length calls)"
  proof
    fix i assume "i \<in> m_id ` set settled"
    then obtain j where j: "i = fst (draw j)" "Suc k \<le> j" "j < Suc k + length calls" using r by auto
    have "fst (draw j') \<noteq> i" if "k + 1 + length calls \<le> j'" for j'
      using fresh_draws_inj [OF fresh, of j' j] j that by auto
    then have "i \<notin> drawn draw (k + 1 + length calls)" unfolding drawn_def image_iff comp_def by fastforce
    with j show "i \<in> drawn draw (Suc k) - drawn draw (k + 1 + length calls)" by (auto simp: drawn_def)
  qed
  ultimately show ?thesis using r v(2) by simp
qed

lemma repair_loop_view:
  assumes "repair_loop draw k resolved msgs st = (Some (msgs', repaired), st')" and "store_inv st" and "fresh_draws draw k st"
    and "distinct (map m_id msgs)" and "\<forall>m\<in>set msgs. view st (m_id m) = Some (m_parts m)"
  shows "(\<forall>m\<in>set (msgs' @ repaired). view st' (m_id m) = Some (m_parts m)) \<and>
    map m_id msgs' = map m_id msgs \<and> m_id ` set repaired \<subseteq> drawn draw k \<and>
    (\<forall>i. i \<notin> m_id ` set msgs \<and> i \<notin> drawn draw k \<longrightarrow> view st' i = view st i)"
  using assms
proof (induction msgs arbitrary: k st msgs' repaired)
  case (Cons m ms)
  have known: "m_id m \<notin> drawn draw k"
    using Cons.prems(3,5) by (auto simp: fresh_draws_def drawn_def view_def)
  show ?case
  proof (cases "m_role m \<noteq> Assistant \<or> orphans resolved m = []")
    case True
    then obtain ms' where r: "repair_loop draw k resolved ms st = (Some (ms', repaired), st')" and m': "msgs' = m # ms'"
      using Cons.prems(1) by (auto split: prod.splits option.splits)
    have "distinct (map m_id ms)" "\<forall>m\<in>set ms. view st (m_id m) = Some (m_parts m)" using Cons.prems(4,5) by auto
    from Cons.IH [OF r Cons.prems(2,3) this] show ?thesis using known Cons.prems(4,5) m' by auto
  next
    case False
    let ?n = "k + 1 + length (orphans resolved m)"
    obtain settled a st1 ms' rep where
      s: "settle_tool_calls draw k (close_turn m) (orphans resolved m) interrupted_tool_call_result st = (Some settled, a, st1)"
      and r: "repair_loop draw ?n resolved ms st1 = (Some (ms', rep), st')"
      and m': "msgs' = a # ms'" "repaired = settled @ rep"
      using Cons.prems(1) False by (auto split: prod.splits option.splits)
    have v: "view st (m_id (close_turn m)) \<noteq> None" using Cons.prems(5) by (simp add: close_turn_spec)
    note t = settle_tool_calls_view [OF s Cons.prems(2,3) v conjunct2 [OF False [unfolded de_Morgan_disj]]]
    have "set (map tc_id (orphans resolved m)) \<subseteq> set (call_ids (m_parts (close_turn m)))"
      using orphan_ids by (simp add: call_ids_def close_turn_spec)
    from settle_tool_calls_spec [OF s this] have a: "m_id a = m_id m" by (simp add: close_turn_spec)
    have sub: "drawn draw (Suc k) \<subseteq> drawn draw k" "drawn draw ?n \<subseteq> drawn draw k" by (auto simp: drawn_def)
    have old: "m_id x \<notin> drawn draw k" if "x \<in> set ms" for x
      using that Cons.prems(3,5) by (auto simp: fresh_draws_def drawn_def view_def)
    have keep: "view st1 (m_id x) = Some (m_parts x)" if "x \<in> set ms" for x
    proof -
      have "m_id x \<in> m_id ` set ms" using that by simp
      then have "m_id x \<noteq> m_id m" using Cons.prems(4) by force
      moreover have "m_id x \<notin> m_id ` set settled \<union> drawn draw (Suc k)"
        using old [OF that] t sub by blast
      moreover note calculation
      then show ?thesis using t Cons.prems(5) that by (simp add: close_turn_spec)
    qed
    have "store_inv st1" "fresh_draws draw ?n st1" "distinct (map m_id ms)" using t Cons.prems(4) by auto
    from Cons.IH [OF r this] keep
    have ih: "\<forall>x\<in>set (ms' @ rep). view st' (m_id x) = Some (m_parts x)" "map m_id ms' = map m_id ms"
      "m_id ` set rep \<subseteq> drawn draw ?n" "\<forall>i. i \<notin> m_id ` set ms \<and> i \<notin> drawn draw ?n \<longrightarrow> view st' i = view st1 i" by auto
    have "view st' (m_id a) = Some (m_parts a)"
      using ih(4) t a known sub Cons.prems(4) by (auto simp: close_turn_spec)
    moreover have "view st' (m_id x) = Some (m_parts x)" if "x \<in> set settled" for x
    proof -
      have "m_id x \<in> drawn draw (Suc k) - drawn draw ?n" using t that by blast
      then have "m_id x \<notin> m_id ` set ms" "m_id x \<notin> drawn draw ?n" using old sub by auto
      then show ?thesis using ih(4) t that by simp
    qed
    moreover have "view st' i = view st i" if "i \<notin> m_id ` set (m # ms)" "i \<notin> drawn draw k" for i
    proof -
      have "i \<notin> m_id ` set settled \<union> drawn draw (Suc k)" "i \<notin> drawn draw ?n" using that sub t by blast+
      then show ?thesis using ih(4) t that by (simp add: close_turn_spec)
    qed
    moreover have "m_id ` set repaired \<subseteq> drawn draw k" using t ih(3) sub m' by auto
    ultimately show ?thesis using ih a m' by auto
  qed
qed simp

text \<open>
  A repair stores what it returns: after it, the store shows for every message of the returned
  transcript, repaired assistants and new replies alike, exactly the parts returned, and no message
  outside of it has changed.
\<close>

theorem repair_is_stored:
  assumes "repair_interrupted_tool_calls draw msgs st = (Some settled, st')" and "store_inv st" and "fresh_draws draw 0 st"
    and "distinct (map m_id msgs)" and "\<not> (\<exists>m\<in>set msgs. view st (m_id m) \<noteq> Some (m_parts m))"
  shows "\<not> (\<exists>m\<in>set settled. view st' (m_id m) \<noteq> Some (m_parts m)) \<and>
    (view st i = view st' i \<or> i \<in> m_id ` set msgs \<or> i \<in> drawn draw 0)"
proof -
  obtain msgs' repaired where r: "repair_loop draw 0 (resolved_ids msgs) msgs st = (Some (msgs', repaired), st')"
    and s: "settled = msgs' @ repaired"
    using assms(1) by (auto simp: repair_interrupted_tool_calls_def split: prod.splits option.splits)
  have "\<forall>m\<in>set msgs. view st (m_id m) = Some (m_parts m)" using assms(5) by blast
  from repair_loop_view [OF r assms(2,3,4) this] s show ?thesis by metis
qed

theorem repair_is_stored_witness:
  "let st = (new_service True)\<lparr>ms_rows := [(''m'', demo_dead)]\<rparr>;
       draw = (\<lambda>k. (replicate (Suc (Suc k)) (CHR ''m''), True)); r = repair_interrupted_tool_calls draw [demo_dead] st
   in \<not> (\<exists>m\<in>set (the (fst r)). view (snd r) (m_id m) \<noteq> Some (m_parts m))"
proof -
  let ?st = "(new_service True)\<lparr>ms_rows := [(''m'', demo_dead)]\<rparr>"
  let ?draw = "\<lambda>k. (replicate (Suc (Suc k)) (CHR ''m''), True)"
  let ?r = "repair_interrupted_tool_calls ?draw [demo_dead] ?st"
  have "fst ?r \<noteq> None" by code_simp
  then have r: "?r = (Some (the (fst ?r)), snd ?r)" by (metis option.collapse prod.collapse)
  have "store_inv ?st" by (auto simp: store_inv_def new_service_def demo_dead_def)
  moreover have "fresh_draws ?draw 0 ?st" by (auto simp: fresh_draws_def new_service_def inj_on_def)
  moreover have "view ?st (m_id demo_dead) = Some (m_parts demo_dead)"
    by (simp add: view_def new_service_def demo_dead_def)
  ultimately show ?thesis using repair_is_stored [OF r] unfolding Let_def by simp
qed

subsection \<open>The end of a turn\<close>

lemma settled_parts:
  assumes "settle_tool_calls draw k m calls reason st = (Some settled, a, st')"
  shows "map (tool_results \<circ> m_parts) settled = map (\<lambda>tc. [settled_result reason tc]) calls"
proof (cases "calls = []")
  case False
  from assms False obtain st1
    where "create_results draw (Suc k) (m_session_id m) reason calls st1 = (Some settled, st')"
    by (auto simp: settle_tool_calls_def Let_def split: prod.splits bool.splits)
  then have "map tool_results (map m_parts settled) = map tool_results (map (\<lambda>tc. created_parts ToolRole [Result (settled_result reason tc)]) calls)"
    using create_results_spec by metis
  then show ?thesis by (simp add: comp_def created_result)
qed (use assms in \<open>simp add: settle_tool_calls_def\<close>)

text \<open>
  However a turn ends, \<open>settleTurn\<close> leaves no call open. It writes one error result for exactly
  the calls without a reply, in their order, and none for the others; the text says why the run
  stopped: cancellation and failure of the run come first, then an exhausted token budget or a
  refusal, and only a turn that ended without any of these is called abandoned.
\<close>

theorem settle_turn_answers:
  assumes "settle_turn draw m answered err st = (Some settled, a, st')"
  shows "map (tool_results \<circ> m_parts) settled =
      map (\<lambda>tc. [settled_result (turn_end_reason (m_parts m) err) tc])
        (filter (\<lambda>tc. \<not> answered (tc_id tc)) (tool_calls (m_parts m))) \<and>
    set (call_ids (m_parts a)) \<subseteq> {i. answered i} \<union> set (resolved_ids settled) \<and>
    (turn_end_reason (m_parts m) err = abandoned_tool_call_result \<longleftrightarrow>
       err = NoError \<and> message_finish_reason (m_parts m) \<notin> {FinishReasonMaxTokens, FinishReasonContentFilter})"
proof -
  let ?open = "filter (\<lambda>tc. \<not> answered (tc_id tc)) (tool_calls (m_parts m))"
  have s: "settle_tool_calls draw 0 m ?open (turn_end_reason (m_parts m) err) st = (Some settled, a, st')"
    using assms by (simp add: settle_turn_def Let_def)
  have "set (map tc_id ?open) \<subseteq> set (call_ids (m_parts m))" by (auto simp: call_ids_def)
  note t = settle_tool_calls_spec [OF s this]
  have "resolved_ids settled = map tc_id ?open" using t by (simp add: resolved_ids_def)
  then have "set (call_ids (m_parts a)) \<subseteq> {i. answered i} \<union> set (resolved_ids settled)"
    using t by (auto simp: call_ids_def)
  moreover have "turn_end_reason (m_parts m) err = abandoned_tool_call_result \<longleftrightarrow>
       err = NoError \<and> message_finish_reason (m_parts m) \<notin> {FinishReasonMaxTokens, FinishReasonContentFilter}"
    by (auto simp: turn_end_reason_def message_finish_reason_def abandoned_tool_call_result_def
        canceled_tool_call_result_def failed_tool_call_result_def truncated_tool_call_result_def
        refused_tool_call_result_def split: run_error.splits option.splits finish_reason.splits)
  ultimately show ?thesis using settled_parts [OF s] by blast
qed

theorem settle_turn_answers_witness:
  "let st = (new_service True)\<lparr>ms_rows := [(''m'', demo_dead)]\<rparr>;
       r = settle_turn (\<lambda>k. (nat_str k, True)) demo_dead (\<lambda>_. False) ContextCanceled st
   in map (tool_results \<circ> m_parts) (the (fst r)) = [[settled_result canceled_tool_call_result demo_call]]"
proof -
  let ?st = "(new_service True)\<lparr>ms_rows := [(''m'', demo_dead)]\<rparr>"
  let ?r = "settle_turn (\<lambda>k. (nat_str k, True)) demo_dead (\<lambda>_. False) ContextCanceled ?st"
  have "fst ?r \<noteq> None" by code_simp
  then have "?r = (Some (the (fst ?r)), fst (snd ?r), snd (snd ?r))" by (metis option.collapse prod.collapse)
  from settle_turn_answers [OF this] show ?thesis
    unfolding Let_def by (simp add: turn_end_reason_def demo_dead_def tool_calls_def)
qed

text \<open>Every call is followed by its stored results, taken once, or by the synthetic one.\<close>

lemma results_loop_pairs:
  assumes "distinct (map tc_id tcs)"
  shows "fst (results_loop by_call tcs) =
      concat (map (\<lambda>tc. case map_of by_call (tc_id tc) of
                          Some (p # ps) \<Rightarrow> p # ps
                        | _ \<Rightarrow> [AiResult (tc_id tc) (OutputError interrupted_tool_call_result)]) tcs) \<and>
    (\<forall>i. map_of (snd (results_loop by_call tcs)) i = (if i \<in> tc_id ` set tcs then None else map_of by_call i))"
  using assms
proof (induction tcs arbitrary: by_call)
  case (Cons tc tcs)
  let ?by = "AList.delete (tc_id tc) by_call"
  have "concat (map (\<lambda>t. case map_of ?by (tc_id t) of Some (p # ps) \<Rightarrow> p # ps
        | _ \<Rightarrow> [AiResult (tc_id t) (OutputError interrupted_tool_call_result)]) tcs) =
      concat (map (\<lambda>t. case map_of by_call (tc_id t) of Some (p # ps) \<Rightarrow> p # ps
        | _ \<Rightarrow> [AiResult (tc_id t) (OutputError interrupted_tool_call_result)]) tcs)"
    using Cons.prems by (intro arg_cong [where f = concat] map_cong refl) (force simp: image_iff)
  with Cons.IH [of ?by] Cons.prems show ?case
    by (auto simp: Let_def split: prod.splits option.splits list.splits)
qed simp

end
