(* ===== verification/Plan.thy ===== *)
theory Plan
  imports GoLib
begin

text \<open>
  The plan of a session: internal/session (planseed.go and the plan items of session.go) and the
  todos tool (internal/agent/tools/todos.go). The xxh3 hash that mints item ids is the argument
  \<open>hash\<close>; encoding/json's decoding of the seed block is \<open>decode\<close>; whether an evidence path
  normalises to the working directory or above it is \<open>covers\<close>.
\<close>

subsection \<open>Plan items and their ids\<close>

definition plan_item_pending :: string where "plan_item_pending = ''pending''"
definition plan_item_in_progress :: string where "plan_item_in_progress = ''in_progress''"
definition plan_item_completed :: string where "plan_item_completed = ''completed''"

record plan_item =
  pl_id :: string
  pl_key :: string
  pl_content :: string
  pl_status :: string
  pl_active_form :: string
  pl_depends_on :: "string list"
  pl_evidence_checks :: "string list"
  pl_evidence_paths :: "string list"

definition mint_plan_item_id :: "(string \<Rightarrow> string) \<Rightarrow> string \<Rightarrow> string \<Rightarrow> string" where
  "mint_plan_item_id hash key content =
     hash (if key \<noteq> '''' then ''key:'' @ key else ''content:'' @ content)"

definition has_incomplete_todos :: "plan_item list \<Rightarrow> bool" where
  "has_incomplete_todos todos \<longleftrightarrow> list_ex (\<lambda>t. pl_status t \<noteq> plan_item_completed) todos"

definition plan_items_bound :: "plan_item list \<Rightarrow> bool" where
  "plan_items_bound items \<longleftrightarrow>
     items \<noteq> [] \<and> \<not> list_ex (\<lambda>it. pl_evidence_checks it = [] \<and> pl_evidence_paths it = []) items"

subsection \<open>Ids for rows written before items carried them\<close>

text \<open>\<open>base#n\<close>\<close>

definition suffixed :: "string \<Rightarrow> nat \<Rightarrow> string" where
  "suffixed base n = base @ ''#'' @ nat_str n"

lemma nat_str_step: "nat_str n = (if n < 10 then [digit_char n] else nat_str (n div 10) @ [digit_char (n mod 10)])"
  by (rule nat_str.simps)

lemma digit_char_inj: "a < 10 \<Longrightarrow> b < 10 \<Longrightarrow> digit_char a = digit_char b \<Longrightarrow> a = b"
  using nth_eq_iff_index_eq [of "''0123456789''" a b] by (simp add: digit_char_def)

lemma nat_str_nonempty: "nat_str n \<noteq> []"
  by (subst nat_str_step) simp

lemma nat_str_inj: "nat_str a = nat_str b \<Longrightarrow> a = b"
proof (induction a arbitrary: b rule: less_induct)
  case (less a)
  show ?case
  proof (cases "a < 10")
    case True
    then have "nat_str b = [digit_char a]" using less.prems nat_str_step [of a] by simp
    then have "b < 10 \<and> digit_char b = digit_char a"
      using nat_str_step [of b] nat_str_nonempty [of "b div 10"] by (auto split: if_splits)
    then show ?thesis using True digit_char_inj [of a b] by simp
  next
    case False
    then have a: "nat_str b = nat_str (a div 10) @ [digit_char (a mod 10)]" using less.prems nat_str_step [of a] by simp
    then have "\<not> b < 10" using nat_str_step [of b] nat_str_nonempty [of "a div 10"] by (auto split: if_splits)
    then have "nat_str (a div 10) = nat_str (b div 10)" "digit_char (a mod 10) = digit_char (b mod 10)"
      using a nat_str_step [of b] by auto
    then have "a div 10 = b div 10" "a mod 10 = b mod 10"
      using less.IH [of "a div 10" "b div 10"] False digit_char_inj by auto
    then show ?thesis by (metis div_mult_mod_eq)
  qed
qed

lemma suffixed_inj: "suffixed base a = suffixed base b \<Longrightarrow> a = b"
  by (simp add: suffixed_def nat_str_inj)

text \<open>
  The loop \<open>for seen[id] > 0\<close>: \<open>seen\<close> are the ids with a positive count. It ends because the ids it
  tries are pairwise different and only finitely many are taken.
\<close>

function free_suffix :: "string list \<Rightarrow> string \<Rightarrow> nat \<Rightarrow> string \<Rightarrow> nat \<times> string" where
  "free_suffix seen base n i =
     (if i \<in> set seen then free_suffix seen base (Suc n) (suffixed base (Suc n)) else (n, i))"
  by auto
termination
proof (relation "measure (\<lambda>(seen, base, n, i).
    card {j. n < j \<and> suffixed base j \<in> set seen} + (if i \<in> set seen then 1 else 0))")
  fix seen base n and i :: string
  assume i: "i \<in> set seen"
  let ?A = "\<lambda>n. {j. n < j \<and> suffixed base j \<in> set seen}"
  have "finite (suffixed base -` set seen)"
    by (rule finite_vimageI) (auto simp: inj_def suffixed_inj)
  then have fin: "finite (?A n)" by (rule rev_finite_subset) auto
  show "((seen, base, Suc n, suffixed base (Suc n)), seen, base, n, i) \<in> measure (\<lambda>(seen, base, n, i).
      card {j. n < j \<and> suffixed base j \<in> set seen} + (if i \<in> set seen then 1 else 0))"
  proof (cases "suffixed base (Suc n) \<in> set seen")
    case True
    then have "?A n = insert (Suc n) (?A (Suc n))" by (auto simp: Suc_lessI)
    moreover have "finite (?A (Suc n))" using fin by (rule rev_finite_subset) auto
    ultimately have "card (?A n) = Suc (card (?A (Suc n)))" by simp
    then show ?thesis using i True by simp
  next
    case False
    have "card (?A (Suc n)) \<le> card (?A n)" by (rule card_mono [OF fin]) auto
    then show ?thesis using i False by simp
  qed
qed simp

declare free_suffix.simps [simp del]

lemma free_suffix_fresh: "free_suffix seen base n i = (m, j) \<Longrightarrow> j \<notin> set seen"
  by (induction seen base n i rule: free_suffix.induct)
     (metis free_suffix.simps prod.inject)

text \<open>The second pass; \<open>counts\<close> are the per-base counters.\<close>

fun mint_loop :: "(string \<Rightarrow> string) \<Rightarrow> string list \<Rightarrow> (string, nat) gomap \<Rightarrow> plan_item list \<Rightarrow> plan_item list" where
  "mint_loop hash seen counts [] = []"
| "mint_loop hash seen counts (t # ts) =
     (if pl_id t \<noteq> '''' then t # mint_loop hash seen counts ts
      else let base = mint_plan_item_id hash (pl_key t) (pl_content t);
               n0 = (case map_of counts base of None \<Rightarrow> 0 | Some n \<Rightarrow> n);
               (n, i) = free_suffix seen base n0 base
           in t\<lparr>pl_id := i\<rparr> # mint_loop hash (i # seen) (AList.update base n counts) ts)"

definition mint_plan_item_ids :: "(string \<Rightarrow> string) \<Rightarrow> plan_item list \<Rightarrow> plan_item list" where
  "mint_plan_item_ids hash todos = mint_loop hash (filter (\<lambda>i. i \<noteq> '''') (map pl_id todos)) [] todos"

lemma mint_loop_spec:
  "list_all2 (\<lambda>t t'. t'\<lparr>pl_id := pl_id t\<rparr> = t \<and> (pl_id t \<noteq> '''' \<longrightarrow> t' = t)) todos (mint_loop hash seen counts todos) \<and>
   distinct (map (pl_id \<circ> snd) (filter (\<lambda>(t, t'). pl_id t = '''') (zip todos (mint_loop hash seen counts todos)))) \<and>
   (\<forall>(t, t')\<in>set (zip todos (mint_loop hash seen counts todos)). pl_id t = '''' \<longrightarrow> pl_id t' \<notin> set seen)"
proof (induction todos arbitrary: seen counts)
  case (Cons t ts)
  show ?case
  proof (cases "pl_id t = ''''")
    case False
    then show ?thesis using Cons.IH [of seen counts] by auto
  next
    case True
    define base where "base = mint_plan_item_id hash (pl_key t) (pl_content t)"
    obtain n i where f: "free_suffix seen base (case map_of counts base of None \<Rightarrow> 0 | Some n \<Rightarrow> n) base = (n, i)"
      by (cases "free_suffix seen base (case map_of counts base of None \<Rightarrow> 0 | Some n \<Rightarrow> n) base")
    have new: "i \<notin> set seen" by (rule free_suffix_fresh [OF f])
    have step: "mint_loop hash seen counts (t # ts) =
        t\<lparr>pl_id := i\<rparr> # mint_loop hash (i # seen) (AList.update base n counts) ts"
      using True f by (simp add: base_def [symmetric] Let_def)
    let ?ts = "mint_loop hash (i # seen) (AList.update base n counts) ts"
    note ih = Cons.IH [of "i # seen" "AList.update base n counts"]
    have later: "pl_id t' \<notin> set (i # seen)" if "(t0, t') \<in> set (zip ts ?ts)" "pl_id t0 = ''''" for t0 t'
      using ih that by fastforce
    have "i \<notin> set (map (pl_id \<circ> snd) (filter (\<lambda>(t, t'). pl_id t = '''') (zip ts ?ts)))"
      using later by fastforce
    then show ?thesis unfolding step using ih new True later by (auto simp: split_def)
  qed
qed simp

text \<open>
  The shim for rows without ids ends and fills every empty id: stored ids and everything else
  stay as they are, and a minted id is different from every stored id and from every other minted
  one, even when rows have identical contents or a stored row holds a suffixed id.
\<close>

theorem minted_ids_unique:
  assumes "minted = mint_plan_item_ids hash todos"
  shows "list_all2 (\<lambda>t t'. t'\<lparr>pl_id := pl_id t\<rparr> = t \<and> (pl_id t \<noteq> '''' \<longrightarrow> t' = t)) todos minted \<and>
    distinct (map (pl_id \<circ> snd) (filter (\<lambda>(t, t'). pl_id t = '''') (zip todos minted))) \<and>
    \<not> (\<exists>(t, t')\<in>set (zip todos minted). pl_id t = '''' \<and> pl_id t' \<in> set (filter (\<lambda>i. i \<noteq> '''') (map pl_id todos)))"
proof -
  note spec = mint_loop_spec [of todos hash "filter (\<lambda>i. i \<noteq> '''') (map pl_id todos)" "[]", folded mint_plan_item_ids_def]
  from spec have "\<forall>(t, t')\<in>set (zip todos minted). pl_id t = '''' \<longrightarrow> pl_id t' \<notin> set (filter (\<lambda>i. i \<noteq> '''') (map pl_id todos))"
    unfolding assms by blast
  with spec show ?thesis unfolding assms by fast
qed

definition demo_item :: "string \<Rightarrow> string \<Rightarrow> plan_item" where
  "demo_item i c = \<lparr>pl_id = i, pl_key = '''', pl_content = c, pl_status = ''pending'', pl_active_form = '''',
     pl_depends_on = [], pl_evidence_checks = [], pl_evidence_paths = []\<rparr>"

theorem minted_ids_unique_witness:
  "let todos = [demo_item '''' ''a'', demo_item '''' ''a'', demo_item ''h#1'' ''b'']; minted = mint_plan_item_ids (\<lambda>_. ''h'') todos
   in distinct (map (pl_id \<circ> snd) (filter (\<lambda>(t, t'). pl_id t = '''') (zip todos minted)))"
  unfolding Let_def using minted_ids_unique [OF refl] by blast

subsection \<open>The seed block of a plan\<close>

definition newline :: char where "newline = CHR 0x0A"

text \<open>\<open>strings.Lines\<close>: the lines with their terminators.\<close>

fun str_lines :: "string \<Rightarrow> string list" where
  "str_lines [] = []"
| "str_lines (c # cs) =
     (if c = CHR 0x0A then [c] # str_lines cs
      else case str_lines cs of [] \<Rightarrow> [[c]] | l # ls \<Rightarrow> (c # l) # ls)"

definition backtick :: char where "backtick = CHR 0x60"

definition trim_left_ticks :: "string \<Rightarrow> string" where
  "trim_left_ticks s = dropWhile (\<lambda>c. c = CHR 0x60) s"

definition trim_ticks :: "string \<Rightarrow> string" where
  "trim_ticks s = rev (trim_left_ticks (rev (trim_left_ticks s)))"

definition plan_marker_line :: "string \<Rightarrow> string \<Rightarrow> bool" where
  "plan_marker_line line marker \<longleftrightarrow> trim_space (trim_ticks (trim_space line)) = marker"

definition plan_marker_present :: "string \<Rightarrow> string \<Rightarrow> bool" where
  "plan_marker_present text marker \<longleftrightarrow> list_ex (\<lambda>l. plan_marker_line l marker) (str_lines text)"

definition plan_items_fence :: string where
  "plan_items_fence = ''crush-plan-items''"

definition fence :: string where
  "fence = [CHR 0x60, CHR 0x60, CHR 0x60]"

definition is_fence_line :: "string \<Rightarrow> bool" where
  "is_fence_line t \<longleftrightarrow> has_prefix t fence \<and> trim_space (trim_left_ticks (drop 3 t)) \<noteq> plan_items_fence"

definition is_plan_items_fence_line :: "string \<Rightarrow> bool" where
  "is_plan_items_fence_line t \<longleftrightarrow> has_prefix t fence \<and> trim_space (trim_left_ticks (drop 3 t)) = plan_items_fence"

fun block_loop :: "bool \<Rightarrow> bool \<Rightarrow> string \<Rightarrow> string list \<Rightarrow> string option" where
  "block_loop in_block in_fence block [] = None"
| "block_loop in_block in_fence block (line # ls) =
     (let t = trim_space line
      in if in_block then (if has_prefix t fence then Some block else block_loop True in_fence (block @ line) ls)
         else if is_fence_line t then block_loop False (\<not> in_fence) block ls
         else if \<not> in_fence \<and> is_plan_items_fence_line t then block_loop True in_fence block ls
         else block_loop False in_fence block ls)"

definition plan_items_block :: "string \<Rightarrow> string option" where
  "plan_items_block text = block_loop False False '''' (str_lines text)"

fun strip_loop :: "bool \<Rightarrow> bool \<Rightarrow> string list \<Rightarrow> string list" where
  "strip_loop in_block in_fence [] = []"
| "strip_loop in_block in_fence (line # ls) =
     (let t = trim_space line
      in if in_block then strip_loop (\<not> has_prefix t fence) in_fence ls
         else if is_fence_line t then line # strip_loop False (\<not> in_fence) ls
         else if \<not> in_fence \<and> is_plan_items_fence_line t then strip_loop True in_fence ls
         else line # strip_loop False in_fence ls)"

definition strip_plan_items :: "string \<Rightarrow> string" where
  "strip_plan_items text = join_with [CHR 0x0A] (strip_loop False False (split_on (CHR 0x0A) text))"

record plan_seed_item =
  sd_key :: string
  sd_content :: string
  sd_active_form :: string
  sd_depends_on :: "string list"
  sd_evidence_checks :: "string list"
  sd_evidence_paths :: "string list"

text \<open>\<open>keys\<close>: the first pass of \<open>ParsePlanSeed\<close>.\<close>

definition seed_keys :: "plan_seed_item list \<Rightarrow> string list" where
  "seed_keys raw = map sd_key (filter (\<lambda>it. sd_key it \<noteq> '''' \<and> trim_space (sd_content it) \<noteq> '''') raw)"

definition seed_deps :: "(string \<Rightarrow> string) \<Rightarrow> string list \<Rightarrow> plan_seed_item \<Rightarrow> string list" where
  "seed_deps hash keys it =
     map (\<lambda>dep. mint_plan_item_id hash dep '''') (filter (\<lambda>dep. dep \<in> set keys \<and> dep \<noteq> sd_key it) (sd_depends_on it))"

fun seed_loop :: "(string \<Rightarrow> string) \<Rightarrow> string list \<Rightarrow> string list \<Rightarrow> string list \<Rightarrow> plan_seed_item list \<Rightarrow> plan_item list" where
  "seed_loop hash keys seen_keys seen_ids [] = []"
| "seed_loop hash keys seen_keys seen_ids (it # its) =
     (if trim_space (sd_content it) = '''' \<or> trim_space (sd_key it) = '''' then seed_loop hash keys seen_keys seen_ids its
      else if sd_key it \<in> set seen_keys then seed_loop hash keys seen_keys seen_ids its
      else let i = mint_plan_item_id hash (sd_key it) (sd_content it)
           in if i \<in> set seen_ids then seed_loop hash keys (sd_key it # seen_keys) seen_ids its
              else \<lparr>pl_id = i, pl_key = sd_key it, pl_content = sd_content it, pl_status = plan_item_pending,
                    pl_active_form = sd_active_form it, pl_depends_on = seed_deps hash keys it,
                    pl_evidence_checks = sd_evidence_checks it, pl_evidence_paths = sd_evidence_paths it\<rparr>
                   # seed_loop hash keys (sd_key it # seen_keys) (i # seen_ids) its)"

text \<open>\<open>ParsePlanSeed\<close>: \<open>None\<close> is the error of a malformed block.\<close>

definition parse_plan_seed :: "(string \<Rightarrow> string) \<Rightarrow> (string \<Rightarrow> plan_seed_item list option) \<Rightarrow> string \<Rightarrow> plan_item list option" where
  "parse_plan_seed hash decode text =
     (case plan_items_block text of
        None \<Rightarrow> Some []
      | Some block \<Rightarrow> map_option (\<lambda>raw. seed_loop hash (seed_keys raw) [] [] raw) (decode block))"

text \<open>\<open>MergePlanSeed\<close>: the map it builds keeps the last status of an id.\<close>

definition merge_plan_seed :: "plan_item list \<Rightarrow> plan_item list \<Rightarrow> plan_item list" where
  "merge_plan_seed existing seeds =
     (let status_by_id = foldl (\<lambda>m it. AList.update (pl_id it) (pl_status it) m) [] existing
      in map (\<lambda>it. case map_of status_by_id (pl_id it) of Some s \<Rightarrow> it\<lparr>pl_status := s\<rparr> | None \<Rightarrow> it) seeds)"

definition plan_key_by_id :: "plan_item list \<Rightarrow> (string, string) gomap" where
  "plan_key_by_id items =
     foldl (\<lambda>m it. if pl_id it \<noteq> '''' \<and> pl_key it \<noteq> '''' then AList.update (pl_id it) (pl_key it) m else m) [] items"

definition format_plan_item_line :: "plan_item \<Rightarrow> (string, string) gomap \<Rightarrow> string" where
  "format_plan_item_line t key_by_id =
     (let names = map (\<lambda>dep. case map_of key_by_id dep of Some k \<Rightarrow> (if k \<noteq> '''' then k else dep) | None \<Rightarrow> dep) (pl_depends_on t);
          attrs = (if pl_key t \<noteq> '''' then [''key: '' @ pl_key t] else []) @
                  (if pl_depends_on t \<noteq> [] then [''depends_on: '' @ join_with '', '' names] else []) @
                  (if pl_evidence_checks t \<noteq> [] then [''checks: '' @ join_with '', '' (pl_evidence_checks t)] else []) @
                  (if pl_evidence_paths t \<noteq> [] then [''paths: '' @ join_with '', '' (pl_evidence_paths t)] else [])
      in ''- ['' @ pl_status t @ ''] '' @ pl_content t @
         (if attrs \<noteq> [] then '' ('' @ join_with ''; '' attrs @ '')'' else ''''))"

subsection \<open>Stripping the block\<close>

text \<open>No line opens an items block.\<close>

fun quiet :: "bool \<Rightarrow> string list \<Rightarrow> bool" where
  "quiet in_fence [] = True"
| "quiet in_fence (line # ls) =
     (if is_fence_line (trim_space line) then quiet (\<not> in_fence) ls
      else (in_fence \<or> \<not> is_plan_items_fence_line (trim_space line)) \<and> quiet in_fence ls)"

lemma strip_loop_quiet: "quiet in_fence (strip_loop in_block in_fence ls)"
  by (induction in_block in_fence ls rule: strip_loop.induct) (simp_all add: Let_def)

lemma strip_loop_id: "quiet in_fence ls \<Longrightarrow> strip_loop False in_fence ls = ls"
  by (induction ls arbitrary: in_fence) (auto simp: Let_def split: if_splits)

lemma str_lines_line: "CHR 0x0A \<notin> set l \<Longrightarrow> str_lines (l @ CHR 0x0A # r) = (l @ [CHR 0x0A]) # str_lines r"
  by (induction l) auto

lemma str_lines_last: "CHR 0x0A \<notin> set l \<Longrightarrow> str_lines l = (if l = [] then [] else [l])"
  by (induction l) auto

lemma block_loop_quiet:
  "quiet in_fence (split_on (CHR 0x0A) s) \<Longrightarrow> block_loop False in_fence acc (str_lines s) = None"
proof (induction "length s" arbitrary: s in_fence rule: less_induct)
  case less
  show ?case
  proof (cases "CHR 0x0A \<in> set s")
    case False
    then show ?thesis using less.prems
      by (cases "s = []") (auto simp: split_on_absent str_lines_last Let_def split: if_splits)
  next
    case True
    then obtain l r where s: "s = l @ CHR 0x0A # r" and l: "CHR 0x0A \<notin> set l" by (meson split_list_first)
    have q: "quiet in_fence (l # split_on (CHR 0x0A) r)"
      using less.prems by (simp add: s split_on_append split_on_absent [OF l])
    show ?thesis
      unfolding s str_lines_line [OF l]
      using q less.hyps [of r] s by (auto simp: Let_def trim_space_newline split: if_splits)
  qed
qed

lemma strip_loop_subset: "set (strip_loop in_block in_fence ls) \<subseteq> set ls"
  by (induction in_block in_fence ls rule: strip_loop.induct) (auto simp: Let_def)

text \<open>
  Stripping leaves no items block: nothing can be parsed from the stripped text, and stripping
  it again changes nothing, whatever other code blocks, indentation or unclosed fences the text has.
\<close>

theorem strip_removes_block:
  "plan_items_block (strip_plan_items text) = None \<and> strip_plan_items (strip_plan_items text) = strip_plan_items text"
proof -
  let ?kept = "strip_loop False False (split_on (CHR 0x0A) text)"
  have lines: "split_on (CHR 0x0A) (strip_plan_items text) = (if ?kept = [] then [''''] else ?kept)"
    using split_on_join [of ?kept "CHR 0x0A"] strip_loop_subset split_on_no_sep
    by (auto simp: strip_plan_items_def dest!: subsetD) blast
  have "quiet False (if ?kept = [] then [''''] else ?kept)"
    using strip_loop_quiet [of False False "split_on (CHR 0x0A) text"]
    by (auto simp: is_fence_line_def is_plan_items_fence_line_def fence_def has_prefix_def) code_simp
  then have q: "quiet False (split_on (CHR 0x0A) (strip_plan_items text))" by (simp only: lines)
  have "strip_plan_items (strip_plan_items text) = strip_plan_items text"
    unfolding strip_plan_items_def [of "strip_plan_items text"] strip_loop_id [OF q] by (rule join_split_on)
  moreover have "plan_items_block (strip_plan_items text) = None"
    unfolding plan_items_block_def by (rule block_loop_quiet [OF q])
  ultimately show ?thesis by blast
qed

subsection \<open>Parsing the block\<close>

lemma mint_key: "k \<noteq> '''' \<Longrightarrow> mint_plan_item_id hash k c = mint_plan_item_id hash k ''''"
  by (simp add: mint_plan_item_id_def)

lemma trim_space_empty: "trim_space '''' = ''''"
  by code_simp

lemma seed_loop_spec:
  assumes "\<forall>k\<in>set seen_keys. mint_plan_item_id hash k '''' \<in> set seen_ids"
  shows "distinct (map pl_id (seed_loop hash keys seen_keys seen_ids raw)) \<and>
    distinct (map pl_key (seed_loop hash keys seen_keys seen_ids raw)) \<and>
    set (map pl_id (seed_loop hash keys seen_keys seen_ids raw)) \<inter> set seen_ids = {} \<and>
    set (map pl_key (seed_loop hash keys seen_keys seen_ids raw)) \<inter> set seen_keys = {} \<and>
    (\<forall>t\<in>set (seed_loop hash keys seen_keys seen_ids raw). pl_status t = plan_item_pending \<and>
       pl_id t = mint_plan_item_id hash (pl_key t) '''' \<and>
       (\<exists>it\<in>set raw. pl_key t = sd_key it \<and> pl_content t = sd_content it \<and> pl_depends_on t = seed_deps hash keys it)) \<and>
    (\<forall>it\<in>set raw. trim_space (sd_content it) \<noteq> '''' \<and> trim_space (sd_key it) \<noteq> '''' \<longrightarrow>
       mint_plan_item_id hash (sd_key it) '''' \<in> set (map pl_id (seed_loop hash keys seen_keys seen_ids raw)) \<union> set seen_ids)"
  using assms
proof (induction raw arbitrary: seen_keys seen_ids)
  case (Cons it its)
  let ?i = "mint_plan_item_id hash (sd_key it) ''''"
  consider (blank) "trim_space (sd_content it) = '''' \<or> trim_space (sd_key it) = ''''"
    | (key) "\<not> (trim_space (sd_content it) = '''' \<or> trim_space (sd_key it) = '''')" "sd_key it \<in> set seen_keys"
    | (id) "\<not> (trim_space (sd_content it) = '''' \<or> trim_space (sd_key it) = '''')" "sd_key it \<notin> set seen_keys" "?i \<in> set seen_ids"
    | (new) "\<not> (trim_space (sd_content it) = '''' \<or> trim_space (sd_key it) = '''')" "sd_key it \<notin> set seen_keys" "?i \<notin> set seen_ids"
    by blast
  then show ?case
  proof cases
    case blank
    then show ?thesis using Cons.IH [OF Cons.prems] by auto
  next
    case key
    then show ?thesis using Cons.IH [OF Cons.prems] Cons.prems by auto
  next
    case id
    then have k: "sd_key it \<noteq> ''''" using trim_space_empty by auto
    have "\<forall>k\<in>set (sd_key it # seen_keys). mint_plan_item_id hash k '''' \<in> set seen_ids"
      using id(3) Cons.prems by auto
    note ih = Cons.IH [OF this]
    show ?thesis using id ih k mint_key [OF k, of hash "sd_content it"] by auto
  next
    case new
    then have k: "sd_key it \<noteq> ''''" using trim_space_empty by auto
    have "\<forall>k\<in>set (sd_key it # seen_keys). mint_plan_item_id hash k '''' \<in> set (?i # seen_ids)"
      using Cons.prems by auto
    note ih = Cons.IH [OF this]
    show ?thesis using new ih mint_key [OF k, of hash "sd_content it"] by (auto simp: Let_def)
  qed
qed simp

text \<open>
  A parsed seed is a well-formed plan: ids and keys are unique and every item is pending, and,
  unless some item is keyed by white space only, every dependency is the id of an item of the seed.
\<close>

theorem parsed_seed_wellformed:
  assumes "plan_items_block text = Some block" and "decode block = Some raw" and "parse_plan_seed hash decode text = Some items"
  shows "distinct (map pl_id items) \<and> distinct (map pl_key items) \<and> map pl_status items = replicate (length items) plan_item_pending \<and>
    ((\<exists>it\<in>set raw. sd_key it \<noteq> '''' \<and> trim_space (sd_key it) = '''') \<or>
     (\<Union>t\<in>set items. set (pl_depends_on t)) \<subseteq> set (map pl_id items))"
proof -
  have items: "items = seed_loop hash (seed_keys raw) [] [] raw"
    using assms by (simp add: parse_plan_seed_def)
  note spec = seed_loop_spec [of "[]" hash "[]" "seed_keys raw" raw, simplified, folded items]
  have "set (pl_depends_on t) \<subseteq> set (map pl_id items)"
    if none: "\<not> (\<exists>it\<in>set raw. sd_key it \<noteq> '''' \<and> trim_space (sd_key it) = '''')" and t: "t \<in> set items" for t
  proof
    fix d assume "d \<in> set (pl_depends_on t)"
    moreover obtain it where "pl_depends_on t = seed_deps hash (seed_keys raw) it" using spec t by blast
    ultimately obtain dep where "dep \<in> set (seed_keys raw)" and d: "d = mint_plan_item_id hash dep ''''"
      by (auto simp: seed_deps_def)
    then obtain it' where it': "it' \<in> set raw" "sd_key it' = dep" "dep \<noteq> ''''" "trim_space (sd_content it') \<noteq> ''''"
      by (auto simp: seed_keys_def)
    with none have "trim_space (sd_key it') \<noteq> ''''" by blast
    with it' spec show "d \<in> set (map pl_id items)" unfolding d by (metis set_map)
  qed
  moreover have "map pl_status items = replicate (length items) plan_item_pending"
    using spec by (auto intro!: nth_equalityI)
  ultimately show ?thesis using spec by blast
qed

definition demo_seed :: "string \<Rightarrow> string list \<Rightarrow> plan_seed_item" where
  "demo_seed k deps = \<lparr>sd_key = k, sd_content = ''do '' @ k, sd_active_form = '''', sd_depends_on = deps,
     sd_evidence_checks = [], sd_evidence_paths = []\<rparr>"

definition demo_plan_text :: string where
  "demo_plan_text = ''plan'' @ [CHR 0x0A] @ fence @ plan_items_fence @ [CHR 0x0A] @ ''x'' @ [CHR 0x0A] @ fence"

theorem parsed_seed_wellformed_witness:
  "let raw = [demo_seed ''a'' [], demo_seed ''b'' [''a'', ''b'', ''c'']];
       items = the (parse_plan_seed (\<lambda>s. s) (\<lambda>_. Some raw) demo_plan_text)
   in distinct (map pl_id items) \<and> map pl_depends_on items = [[], [''key:a'']]"
proof -
  let ?raw = "[demo_seed ''a'' [], demo_seed ''b'' [''a'', ''b'', ''c'']]"
  let ?parse = "parse_plan_seed (\<lambda>s. s) (\<lambda>_. Some ?raw) demo_plan_text"
  have b: "plan_items_block demo_plan_text = Some (''x'' @ [CHR 0x0A])" by code_simp
  have p: "?parse = Some (the ?parse)" "map pl_depends_on (the ?parse) = [[], [''key:a'']]" by code_simp+
  from parsed_seed_wellformed [OF b refl p(1)] p(2) show ?thesis unfolding Let_def by blast
qed

text \<open>
  An item keyed by white space only is dropped, but its key stays a valid dependency target, so a
  dependency on it dangles.
\<close>

lemma blank_key_dangles:
  "let raw = [demo_seed '' '' [], demo_seed ''b'' ['' '']]; items = seed_loop (\<lambda>s. s) (seed_keys raw) [] [] raw
   in map pl_id items = [''key:b''] \<and> map pl_depends_on items = [[''key: '']]"
  by code_simp

subsection \<open>What the todos tool accepts\<close>

record todo_item =
  td_content :: string
  td_status :: string
  td_active_form :: string
  td_key :: string
  td_depends_on :: "string list"
  td_evidence_checks :: "string list"
  td_evidence_paths :: "string list"

text \<open>The rejections, with what their messages name.\<close>

datatype plan_error =
    InvalidStatus string string
  | EmptyContent nat
  | BlankKey nat string
  | DuplicateKey string nat string
  | SameContent nat nat string
  | DependsOnItself string
  | UnknownKey nat string string
  | RepeatedDependency nat string string
  | EmptyCheck string
  | UnknownCheck string string
  | RepeatedCheck string string
  | EmptyPath string
  | CoversWorkingDir string string
  | DependencyCycle string string

definition plan_statuses :: "string list" where
  "plan_statuses = [''pending'', ''in_progress'', ''completed'']"

fun check_items :: "nat \<Rightarrow> string list \<Rightarrow> (string, nat) gomap \<Rightarrow> todo_item list \<Rightarrow> plan_error + string list" where
  "check_items i keys contents [] = Inr keys"
| "check_items i keys contents (it # its) =
     (if td_status it \<notin> set plan_statuses then Inl (InvalidStatus (td_status it) (td_content it))
      else if trim_space (td_content it) = '''' then Inl (EmptyContent i)
      else if td_key it \<noteq> '''' \<and> trim_space (td_key it) = '''' then Inl (BlankKey i (td_content it))
      else if td_key it \<noteq> '''' \<and> td_key it \<in> set keys then Inl (DuplicateKey (td_key it) i (td_content it))
      else case map_of contents (td_content it) of
             Some first \<Rightarrow> Inl (SameContent first i (td_content it))
           | None \<Rightarrow> check_items (Suc i) (if td_key it \<noteq> '''' then td_key it # keys else keys)
                       (AList.update (td_content it) i contents) its)"

fun check_deps :: "nat \<Rightarrow> todo_item \<Rightarrow> string list \<Rightarrow> string list \<Rightarrow> string list \<Rightarrow> plan_error option" where
  "check_deps i it keys seen [] = None"
| "check_deps i it keys seen (d # ds) =
     (if d = td_key it \<and> td_key it \<noteq> '''' then Some (DependsOnItself (td_key it))
      else if d \<notin> set keys then Some (UnknownKey i (td_content it) d)
      else if d \<in> set seen then Some (RepeatedDependency i (td_content it) d)
      else check_deps i it keys (d # seen) ds)"

fun check_checks :: "string \<Rightarrow> string list \<Rightarrow> string list \<Rightarrow> string list \<Rightarrow> plan_error option" where
  "check_checks c bindable seen [] = None"
| "check_checks c bindable seen (k # ks) =
     (if trim_space k = '''' then Some (EmptyCheck c)
      else if k \<notin> set bindable then Some (UnknownCheck c k)
      else if k \<in> set seen then Some (RepeatedCheck c k)
      else check_checks c bindable (k # seen) ks)"

fun check_paths :: "string \<Rightarrow> (string \<Rightarrow> bool) \<Rightarrow> string list \<Rightarrow> plan_error option" where
  "check_paths c covers [] = None"
| "check_paths c covers (p # ps) =
     (if trim_space p = '''' then Some (EmptyPath c)
      else if covers p then Some (CoversWorkingDir c p)
      else check_paths c covers ps)"

fun check_bindings :: "nat \<Rightarrow> string list \<Rightarrow> string list \<Rightarrow> (string \<Rightarrow> bool) \<Rightarrow> todo_item list \<Rightarrow> plan_error option" where
  "check_bindings i keys bindable covers [] = None"
| "check_bindings i keys bindable covers (it # its) =
     (case check_deps i it keys [] (td_depends_on it) of
        Some e \<Rightarrow> Some e
      | None \<Rightarrow> (case check_checks (td_content it) bindable [] (td_evidence_checks it) of
          Some e \<Rightarrow> Some e
        | None \<Rightarrow> (case check_paths (td_content it) covers (td_evidence_paths it) of
            Some e \<Rightarrow> Some e
          | None \<Rightarrow> check_bindings (Suc i) keys bindable covers its)))"

text \<open>
  \<open>detectPlanCycle\<close>. \<open>visit_deps\<close> is the loop of \<open>visit key\<close> over the dependencies that are left; a
  white dependency is visited in full before the loop goes on. It terminates because every visit
  turns a white node of the graph grey, or has no dependencies to look at.
\<close>

datatype color = White | Gray | Black

type_synonym graph = "(string, string list) gomap"

definition succs :: "graph \<Rightarrow> string \<Rightarrow> string list" where
  "succs g k = (case map_of g k of None \<Rightarrow> [] | Some ds \<Rightarrow> ds)"

function visit_deps :: "graph \<Rightarrow> string \<Rightarrow> (string \<Rightarrow> color) \<Rightarrow> string list \<Rightarrow> plan_error + (string \<Rightarrow> color)" where
  "visit_deps g key color [] = Inr color"
| "visit_deps g key color (d # ds) =
     (case color d of
        Gray \<Rightarrow> Inl (DependencyCycle key d)
      | Black \<Rightarrow> visit_deps g key color ds
      | White \<Rightarrow>
          (case visit_deps g d (color(d := Gray)) (succs g d) of
             Inl e \<Rightarrow> Inl e
           | Inr color' \<Rightarrow> visit_deps g key (color'(d := Black)) ds))"
  by pat_completeness auto

lemma visit_deps_white:
  "visit_deps_dom (g, key, color, ds) \<Longrightarrow> visit_deps g key color ds = Inr color' \<Longrightarrow> color' x = White \<Longrightarrow> color x = White"
proof (induction arbitrary: color' rule: visit_deps.pinduct)
  case (1 g key color)
  then show ?case by (simp add: visit_deps.psimps)
next
  case (2 g key color d ds)
  show ?case
  proof (cases "color d")
    case White
    then obtain c where c: "visit_deps g d (color(d := Gray)) (succs g d) = Inr c"
      and r: "visit_deps g key (c(d := Black)) ds = Inr color'"
      using 2(1,5) by (auto simp: visit_deps.psimps split: sum.splits)
    from 2(3) [OF White c r 2(6)] have cx: "c x = White" "x \<noteq> d" by (auto split: if_splits)
    from 2(2) [OF White c cx(1)] cx(2) show ?thesis by simp
  next
    case Black
    then show ?thesis using 2(1,4,5,6) by (simp add: visit_deps.psimps)
  qed (use 2(1,5) in \<open>simp add: visit_deps.psimps\<close>)
qed

definition graph_keys :: "graph \<Rightarrow> string set" where
  "graph_keys g = fst ` set g"

definition whites :: "graph \<Rightarrow> (string \<Rightarrow> color) \<Rightarrow> nat" where
  "whites g color = card {k \<in> graph_keys g. color k = White}"

lemma whites_le: "(\<And>x. color' x = White \<Longrightarrow> color x = White) \<Longrightarrow> whites g color' \<le> whites g color"
  unfolding whites_def by (rule card_mono) (auto simp: graph_keys_def)

lemma whites_less:
  assumes "d \<in> graph_keys g" and "color d = White"
  shows "whites g (color(d := Gray)) < whites g color"
proof -
  have "{k \<in> graph_keys g. (color(d := Gray)) k = White} \<subset> {k \<in> graph_keys g. color k = White}"
    using assms by auto
  then show ?thesis unfolding whites_def by (rule psubset_card_mono [rotated]) (simp add: graph_keys_def)
qed

lemma succs_unknown: "d \<notin> graph_keys g \<Longrightarrow> succs g d = []"
  by (force simp: succs_def graph_keys_def split: option.splits dest: map_of_SomeD)

termination visit_deps
proof (relation "inv_image (less_than <*lex*> less_than) (\<lambda>(g, key, color, ds). (whites g color, length ds))", goal_cases)
  case (2 g key color d ds)
  have "whites g (color(d := Gray)) \<le> whites g color" by (rule whites_le) (simp split: if_splits)
  then show ?case using whites_less [of d g color] succs_unknown [of d g] 2
    by (cases "d \<in> graph_keys g") (simp_all del: fun_upd_apply, linarith)
next
  case (3 g key color d ds color')
  have "color x = White" if "color' x = White" for x
    using visit_deps_white [of g d "color(d := Gray)" "succs g d" color' x] 3 that by (simp split: if_splits)
  then have "whites g (color'(d := Black)) \<le> whites g color"
    by (intro whites_le) (auto split: if_splits)
  then show ?case by auto
qed auto

definition plan_graph :: "todo_item list \<Rightarrow> graph" where
  "plan_graph items =
     foldl (\<lambda>g it. if td_key it \<noteq> '''' then AList.update (td_key it) (td_depends_on it) g else g) [] items"

fun visit_items :: "graph \<Rightarrow> (string \<Rightarrow> color) \<Rightarrow> todo_item list \<Rightarrow> plan_error option" where
  "visit_items g color [] = None"
| "visit_items g color (it # its) =
     (if td_key it \<noteq> '''' \<and> color (td_key it) = White
      then case visit_deps g (td_key it) (color(td_key it := Gray)) (succs g (td_key it)) of
             Inl e \<Rightarrow> Some e
           | Inr color' \<Rightarrow> visit_items g (color'(td_key it := Black)) its
      else visit_items g color its)"

definition detect_plan_cycle :: "todo_item list \<Rightarrow> plan_error option" where
  "detect_plan_cycle items = visit_items (plan_graph items) (\<lambda>_. White) items"

definition validate_plan_items :: "string list \<Rightarrow> (string \<Rightarrow> bool) \<Rightarrow> todo_item list \<Rightarrow> plan_error option" where
  "validate_plan_items bindable covers items =
     (case check_items 0 [] [] items of
        Inl e \<Rightarrow> Some e
      | Inr keys \<Rightarrow> (case check_bindings 0 keys bindable covers items of
          Some e \<Rightarrow> Some e
        | None \<Rightarrow> detect_plan_cycle items))"

subsection \<open>Cycles\<close>

definition edges :: "graph \<Rightarrow> (string \<times> string) set" where
  "edges g = {(a, b). b \<in> set (succs g a)}"

text \<open>
  Between two steps of the search: what is black has only black dependencies and no cycle among them;
  what is grey lies on the path to the node being visited.
\<close>

definition black_inv :: "graph \<Rightarrow> (string \<Rightarrow> color) \<Rightarrow> bool" where
  "black_inv g color \<longleftrightarrow>
     (\<forall>a b. color a = Black \<and> (a, b) \<in> edges g \<longrightarrow> color b = Black) \<and>
     acyclic {(a, b) \<in> edges g. color a = Black}"

definition path_inv :: "graph \<Rightarrow> string \<Rightarrow> (string \<Rightarrow> color) \<Rightarrow> bool" where
  "path_inv g key color \<longleftrightarrow> (\<forall>a. color a = Gray \<longrightarrow> (a, key) \<in> (edges g)\<^sup>*)"

lemma acyclic_new_source:
  assumes "acyclic r" and "\<And>a. (a, d) \<notin> r" and "(d, d) \<notin> s" and "\<And>a b. (a, b) \<in> s \<Longrightarrow> a = d"
  shows "acyclic (r \<union> s)"
proof -
  have range: "y \<noteq> d" if "(x, y) \<in> (r \<union> s)\<^sup>+" for x y
    using that assms(2,3,4) by (induction rule: trancl_induct) auto
  have old: "(x, y) \<in> r\<^sup>+" if "(x, y) \<in> (r \<union> s)\<^sup>+" "x \<noteq> d" for x y
    using that
  proof (induction rule: trancl_induct)
    case (base y)
    then show ?case using assms(4) by blast
  next
    case (step y z)
    from range [OF step(1)] step(2) assms(4) have "(y, z) \<in> r" by blast
    with step(3) [OF step(4)] show ?case by (rule trancl_into_trancl)
  qed
  show ?thesis unfolding acyclic_def
  proof (intro allI notI)
    fix x assume x: "(x, x) \<in> (r \<union> s)\<^sup>+"
    from old [OF x range [OF x]] assms(1) show False by (simp add: acyclic_def)
  qed
qed

lemma black_inv_finish:
  assumes "black_inv g color" and "color d = Gray" and "\<And>b. b \<in> set (succs g d) \<Longrightarrow> color b = Black"
  shows "black_inv g (color(d := Black))"
proof -
  have "{(a, b) \<in> edges g. (color(d := Black)) a = Black} =
      {(a, b) \<in> edges g. color a = Black} \<union> {(a, b) \<in> edges g. a = d}" by auto
  moreover have "acyclic ({(a, b) \<in> edges g. color a = Black} \<union> {(a, b) \<in> edges g. a = d})"
  proof (rule acyclic_new_source [of _ d])
    show "acyclic {(a, b) \<in> edges g. color a = Black}" using assms(1) by (simp add: black_inv_def)
    show "(a, d) \<notin> {(a, b) \<in> edges g. color a = Black}" for a
      using assms(1,2) unfolding black_inv_def by fastforce
    show "(d, d) \<notin> {(a, b) \<in> edges g. a = d}" using assms(2,3) by (force simp: edges_def)
  qed simp
  ultimately show ?thesis using assms(1,3) unfolding black_inv_def by (auto simp: edges_def)
qed

text \<open>
  The search: it fails with a dependency that leads back, or ends with all dependencies black, the
  grey nodes as they were, and the black ones still without cycles.
\<close>

definition cycle_found :: "graph \<Rightarrow> plan_error \<Rightarrow> bool" where
  "cycle_found g e \<longleftrightarrow> (\<exists>k d. e = DependencyCycle k d \<and> (k, d) \<in> edges g \<and> (d, k) \<in> (edges g)\<^sup>*)"

definition visited :: "graph \<Rightarrow> (string \<Rightarrow> color) \<Rightarrow> string list \<Rightarrow> plan_error + (string \<Rightarrow> color) \<Rightarrow> bool" where
  "visited g color ds r =
     (case r of
        Inl e \<Rightarrow> cycle_found g e
      | Inr color' \<Rightarrow> black_inv g color' \<and> (\<forall>x. color' x = Gray \<longleftrightarrow> color x = Gray) \<and>
          (\<forall>x. color x = Black \<longrightarrow> color' x = Black) \<and> (\<forall>d\<in>set ds. color' d = Black))"

lemma black_inv_gray:
  assumes "black_inv g color" and "color d = White"
  shows "black_inv g (color(d := Gray))"
proof -
  have "{(a, b) \<in> edges g. (color(d := Gray)) a = Black} = {(a, b) \<in> edges g. color a = Black}"
    using assms(2) by (auto split: if_splits)
  then show ?thesis using assms unfolding black_inv_def by auto
qed

text \<open>A node whose dependencies were all visited turns black.\<close>

lemma visited_finish:
  assumes "visited g (color(d := Gray)) (succs g d) (Inr c)" and "color d = White"
  shows "black_inv g (c(d := Black))" and "(c(d := Black)) x = Gray \<longleftrightarrow> color x = Gray"
    and "color x = Black \<Longrightarrow> (c(d := Black)) x = Black"
proof -
  have c: "black_inv g c" "\<And>x. c x = Gray \<longleftrightarrow> (color(d := Gray)) x = Gray"
    "\<And>x. (color(d := Gray)) x = Black \<Longrightarrow> c x = Black" "\<And>b. b \<in> set (succs g d) \<Longrightarrow> c b = Black"
    using assms(1) by (simp_all add: visited_def del: fun_upd_apply)
  show "black_inv g (c(d := Black))" by (rule black_inv_finish [OF c(1) _ c(4)]) (simp add: c(2))
  show "(c(d := Black)) x = Gray \<longleftrightarrow> color x = Gray" using c(2) [of x] assms(2) by auto
  show "color x = Black \<Longrightarrow> (c(d := Black)) x = Black" using c(3) [of x] assms(2) by auto
qed

lemma visited_step:
  assumes "visited g color' ds r" and "color' d = Black"
    and "\<And>x. color' x = Gray \<longleftrightarrow> color x = Gray" and "\<And>x. color x = Black \<Longrightarrow> color' x = Black"
  shows "visited g color (d # ds) r"
  using assms unfolding visited_def by (auto split: sum.splits)

lemma visit_deps_spec:
  assumes "black_inv g color" and "path_inv g key color" and "color key = Gray" and "set ds \<subseteq> set (succs g key)"
  shows "visited g color ds (visit_deps g key color ds)"
  using assms
proof (induction g key color ds rule: visit_deps.induct)
  case (2 g key color d ds)
  have ds: "set ds \<subseteq> set (succs g key)" and edge: "(key, d) \<in> edges g" using 2(7) by (auto simp: edges_def)
  show ?case
  proof (cases "color d")
    case Gray
    then have "(d, key) \<in> (edges g)\<^sup>*" using 2(5) by (simp add: path_inv_def)
    then show ?thesis using Gray edge by (auto simp: visited_def cycle_found_def)
  next
    case Black
    then have "visited g color ds (visit_deps g key color ds)" by (rule 2(3) [OF _ 2(4,5,6) ds])
    from visited_step [OF this Black] show ?thesis using Black by simp
  next
    case White
    let ?c = "color(d := Gray)"
    have p: "path_inv g d ?c"
      using 2(5) edge unfolding path_inv_def by (auto intro: rtrancl_into_rtrancl)
    have inner: "visited g ?c (succs g d) (visit_deps g d ?c (succs g d))"
      by (rule 2(1) [OF White black_inv_gray [OF 2(4) White] p _ subset_refl]) simp
    show ?thesis
    proof (cases "visit_deps g d ?c (succs g d)")
      case (Inl e)
      then show ?thesis using inner White by (simp add: visited_def del: fun_upd_apply)
    next
      case (Inr c)
      note fin = visited_finish [OF inner [unfolded Inr] White]
      have "path_inv g key (c(d := Black))" using 2(5) fin(2) unfolding path_inv_def by blast
      moreover have "(c(d := Black)) key = Gray" using fin(2) 2(6) by blast
      ultimately have "visited g (c(d := Black)) ds (visit_deps g key (c(d := Black)) ds)"
        using 2(2) [OF White Inr fin(1) _ _ ds] by blast
      from visited_step [OF this _ fin(2,3)] show ?thesis using White Inr by (simp del: fun_upd_apply) simp
    qed
  qed
qed (simp add: visited_def)

lemma visit_items_spec:
  assumes "black_inv g color" and "\<And>x. color x \<noteq> Gray"
  shows "case visit_items g color its of
      Some e \<Rightarrow> cycle_found g e
    | None \<Rightarrow> \<exists>c. black_inv g c \<and> (\<forall>x. color x = Black \<longrightarrow> c x = Black) \<and>
        (\<forall>it\<in>set its. td_key it \<noteq> '''' \<longrightarrow> c (td_key it) = Black)"
  using assms
proof (induction its arbitrary: color)
  case Nil
  then show ?case by (auto intro!: exI [of _ color])
next
  case (Cons it its)
  let ?k = "td_key it"
  show ?case
  proof (cases "?k \<noteq> '''' \<and> color ?k = White")
    case False
    then have "?k \<noteq> '''' \<longrightarrow> color ?k = Black" using Cons.prems(2) by (cases "color ?k") auto
    moreover have "visit_items g color (it # its) = visit_items g color its" using False by auto
    moreover note Cons.IH [OF Cons.prems]
    ultimately show ?thesis by (auto split: option.splits)
  next
    case True
    let ?c = "color(?k := Gray)"
    have "path_inv g ?k ?c" using Cons.prems(2) unfolding path_inv_def by auto
    then have v: "visited g ?c (succs g ?k) (visit_deps g ?k ?c (succs g ?k))"
      using visit_deps_spec [OF black_inv_gray [OF Cons.prems(1)] _ _ subset_refl] True by simp
    show ?thesis
    proof (cases "visit_deps g ?k ?c (succs g ?k)")
      case (Inl e)
      then show ?thesis using v True by (simp add: visited_def del: fun_upd_apply)
    next
      case (Inr c)
      have w: "color ?k = White" using True by simp
      note fin = visited_finish [OF v [unfolded Inr] w]
      have "(c(?k := Black)) x \<noteq> Gray" for x using fin(2) [of x] Cons.prems(2) [of x] by blast
      note ih = Cons.IH [OF fin(1) this]
      have eq: "visit_items g color (it # its) = visit_items g (c(?k := Black)) its" using True Inr by simp
      show ?thesis
      proof (cases "visit_items g (c(?k := Black)) its")
        case None
        have "\<exists>c'. black_inv g c' \<and> (\<forall>x. (c(?k := Black)) x = Black \<longrightarrow> c' x = Black) \<and>
            (\<forall>it\<in>set its. td_key it \<noteq> '''' \<longrightarrow> c' (td_key it) = Black)"
          using ih unfolding None by simp
        then obtain c' where c': "black_inv g c'" "\<And>x. (c(?k := Black)) x = Black \<Longrightarrow> c' x = Black"
          "\<And>it. it \<in> set its \<Longrightarrow> td_key it \<noteq> '''' \<Longrightarrow> c' (td_key it) = Black" by blast
        have "c' x = Black" if "color x = Black" for x using c'(2) fin(3) that by blast
        moreover have "c' ?k = Black" by (rule c'(2)) simp
        ultimately show ?thesis using eq None c'(1,3) by (auto intro!: exI [of _ c'])
      next
        case (Some e)
        have "cycle_found g e" using ih unfolding Some by simp
        then show ?thesis unfolding eq Some by simp
      qed
    qed
  qed
qed

definition depends :: "todo_item list \<Rightarrow> (string \<times> string) set" where
  "depends items = {(k, d). \<exists>it\<in>set items. td_key it = k \<and> k \<noteq> '''' \<and> d \<in> set (td_depends_on it)}"

lemma plan_graph_fold:
  "map_of (foldl (\<lambda>g it. if td_key it \<noteq> '''' then AList.update (td_key it) (td_depends_on it) g else g) g0 items) k = Some ds \<Longrightarrow>
   map_of g0 k = Some ds \<or> (\<exists>it\<in>set items. td_key it = k \<and> k \<noteq> '''' \<and> ds = td_depends_on it)"
proof (induction items arbitrary: g0)
  case (Cons i its)
  let ?g = "if td_key i \<noteq> '''' then AList.update (td_key i) (td_depends_on i) g0 else g0"
  have "map_of (foldl (\<lambda>g it. if td_key it \<noteq> '''' then AList.update (td_key it) (td_depends_on it) g else g) ?g its) k = Some ds"
    using Cons.prems by simp
  from Cons.IH [OF this] show ?case by (auto simp: update_conv' split: if_splits)
qed simp

lemma plan_graph_fold_kept:
  assumes "k \<notin> td_key ` set items"
  shows "map_of (foldl (\<lambda>g it. if td_key it \<noteq> '''' then AList.update (td_key it) (td_depends_on it) g else g) g0 items) k = map_of g0 k"
  using assms by (induction items arbitrary: g0) auto

lemma plan_graph_complete:
  assumes "distinct (filter (\<lambda>k. k \<noteq> '''') (map td_key items))" and "it \<in> set items" and "td_key it \<noteq> ''''"
  shows "map_of (foldl (\<lambda>g it. if td_key it \<noteq> '''' then AList.update (td_key it) (td_depends_on it) g else g) g0 items) (td_key it)
    = Some (td_depends_on it)"
  using assms
proof (induction items arbitrary: g0)
  case (Cons i its)
  show ?case
  proof (cases "it = i")
    case True
    then have "td_key it \<notin> td_key ` set its" using Cons.prems(1,3) by auto
    then show ?thesis using True Cons.prems(3) by (simp add: plan_graph_fold_kept)
  next
    case False
    then show ?thesis using Cons.prems by (simp add: Cons.IH split: if_splits)
  qed
qed simp

lemma edges_plan_graph:
  assumes "distinct (filter (\<lambda>k. k \<noteq> '''') (map td_key items))"
  shows "edges (plan_graph items) = depends items"
proof -
  have "(k, d) \<in> edges (plan_graph items) \<longleftrightarrow> (k, d) \<in> depends items" for k d
  proof
    assume "(k, d) \<in> edges (plan_graph items)"
    then obtain ds where "map_of (plan_graph items) k = Some ds" "d \<in> set ds"
      by (cases "map_of (plan_graph items) k") (auto simp: edges_def succs_def)
    with plan_graph_fold [of "[]" items k ds] show "(k, d) \<in> depends items"
      by (auto simp: plan_graph_def depends_def)
  next
    assume "(k, d) \<in> depends items"
    then obtain it where "it \<in> set items" "td_key it = k" "k \<noteq> ''''" "d \<in> set (td_depends_on it)"
      by (auto simp: depends_def)
    with plan_graph_complete [OF assms, of it "[]"] show "(k, d) \<in> edges (plan_graph items)"
      by (simp add: edges_def succs_def plan_graph_def)
  qed
  then show ?thesis by auto
qed

lemma detect_plan_cycle_iff: "detect_plan_cycle items = None \<longleftrightarrow> acyclic (edges (plan_graph items))"
proof -
  let ?g = "plan_graph items"
  have "black_inv ?g (\<lambda>_. White)" by (simp add: black_inv_def acyclic_def)
  note v = visit_items_spec [OF this, of items]
  show ?thesis
  proof (cases "detect_plan_cycle items")
    case None
    then obtain c where c: "black_inv ?g c" "\<forall>it\<in>set items. td_key it \<noteq> '''' \<longrightarrow> c (td_key it) = Black"
      using v by (auto simp: detect_plan_cycle_def)
    have "c a = Black" if e: "(a, b) \<in> edges ?g" for a b
    proof -
      obtain ds where "map_of ?g a = Some ds" using e by (cases "map_of ?g a") (auto simp: edges_def succs_def)
      with plan_graph_fold [of "[]" items a ds] c(2) show ?thesis by (auto simp: plan_graph_def)
    qed
    then have "{(a, b) \<in> edges ?g. c a = Black} = edges ?g" by auto
    with c(1) None show ?thesis by (simp add: black_inv_def)
  next
    case (Some e)
    then obtain k d where "(k, d) \<in> edges ?g" "(d, k) \<in> (edges ?g)\<^sup>*"
      using v by (auto simp: detect_plan_cycle_def cycle_found_def)
    then have "(k, k) \<in> (edges ?g)\<^sup>+" by (rule rtrancl_into_trancl2)
    then show ?thesis using Some by (auto simp: acyclic_def)
  qed
qed

subsection \<open>The accepted plans\<close>

definition item_ok :: "todo_item \<Rightarrow> bool" where
  "item_ok it \<longleftrightarrow> td_status it \<in> set plan_statuses \<and> trim_space (td_content it) \<noteq> '''' \<and>
     (td_key it = '''' \<or> trim_space (td_key it) \<noteq> '''')"

definition binding_ok :: "string list \<Rightarrow> string list \<Rightarrow> (string \<Rightarrow> bool) \<Rightarrow> todo_item \<Rightarrow> bool" where
  "binding_ok keys bindable covers it \<longleftrightarrow>
     (td_key it = '''' \<or> td_key it \<notin> set (td_depends_on it)) \<and>
     set (td_depends_on it) \<subseteq> set keys \<and> distinct (td_depends_on it) \<and>
     set (td_evidence_checks it) \<subseteq> set bindable \<and> distinct (td_evidence_checks it) \<and>
     \<not> list_ex (\<lambda>c. trim_space c = '''') (td_evidence_checks it) \<and>
     \<not> list_ex (\<lambda>p. trim_space p = '''' \<or> covers p) (td_evidence_paths it)"

definition keys_of :: "todo_item list \<Rightarrow> string list" where
  "keys_of items = filter (\<lambda>k. k \<noteq> '''') (map td_key items)"

text \<open>The rules a plan has to meet, without any order of checking.\<close>

definition plan_ok :: "string list \<Rightarrow> (string \<Rightarrow> bool) \<Rightarrow> todo_item list \<Rightarrow> bool" where
  "plan_ok bindable covers items \<longleftrightarrow>
     list_all item_ok items \<and> distinct (keys_of items) \<and> distinct (map td_content items) \<and>
     list_all (binding_ok (keys_of items) bindable covers) items \<and> acyclic (depends items)"

definition items_fit :: "string set \<Rightarrow> string set \<Rightarrow> todo_item list \<Rightarrow> bool" where
  "items_fit ks cs items \<longleftrightarrow>
     list_all item_ok items \<and> distinct (keys_of items) \<and> set (keys_of items) \<inter> ks = {} \<and>
     distinct (map td_content items) \<and> set (map td_content items) \<inter> cs = {}"

lemma items_fit_Nil [simp]: "items_fit ks cs []"
  by (simp add: items_fit_def keys_of_def)

lemma keys_of_Cons: "keys_of (it # its) = (if td_key it \<noteq> '''' then td_key it # keys_of its else keys_of its)"
  by (simp add: keys_of_def)

lemma items_fit_Cons:
  "items_fit ks cs (it # its) \<longleftrightarrow>
     item_ok it \<and> (td_key it = '''' \<or> td_key it \<notin> ks) \<and> td_content it \<notin> cs \<and>
     items_fit (if td_key it \<noteq> '''' then insert (td_key it) ks else ks) (insert (td_content it) cs) its"
  by (cases "td_key it = ''''") (auto simp: items_fit_def keys_of_Cons)

lemma check_items_spec:
  "case check_items i keys contents items of
     Inr keys' \<Rightarrow> items_fit (set keys) (fst ` set contents) items \<and> set keys' = set (keys_of items) \<union> set keys
   | Inl e \<Rightarrow> \<not> items_fit (set keys) (fst ` set contents) items"
proof (induction items arbitrary: i keys contents)
  case (Cons it its)
  let ?keys = "if td_key it \<noteq> '''' then td_key it # keys else keys"
  have dom: "map_of contents x = None \<longleftrightarrow> x \<notin> fst ` set contents" for x by (rule map_of_eq_None_iff)
  have upd: "fst ` set (AList.update (td_content it) i contents) = insert (td_content it) (fst ` set contents)"
    using dom_update [of "td_content it" i contents] by (simp add: image_image)
  have ks: "set ?keys = (if td_key it \<noteq> '''' then insert (td_key it) (set keys) else set keys)" by simp
  show ?case
  proof (cases "item_ok it \<and> (td_key it = '''' \<or> td_key it \<notin> set keys) \<and> td_content it \<notin> fst ` set contents")
    case True
    then have step: "check_items i keys contents (it # its) = check_items (Suc i) ?keys (AList.update (td_content it) i contents) its"
      using dom [of "td_content it"] by (auto simp: item_ok_def)
    have fit: "items_fit (set keys) (fst ` set contents) (it # its) \<longleftrightarrow>
        items_fit (set ?keys) (fst ` set (AList.update (td_content it) i contents)) its"
      unfolding items_fit_Cons upd ks using True by blast
    have all: "set (keys_of (it # its)) \<union> set keys = set (keys_of its) \<union> set ?keys" by (simp add: keys_of_Cons)
    show ?thesis unfolding step fit all by (rule Cons.IH)
  next
    case False
    then have "\<exists>e. check_items i keys contents (it # its) = Inl e"
      using dom [of "td_content it"] by (auto simp: item_ok_def split: option.splits)
    then obtain e where e: "check_items i keys contents (it # its) = Inl e" ..
    have "\<not> items_fit (set keys) (fst ` set contents) (it # its)"
      unfolding items_fit_Cons using False by blast
    then show ?thesis unfolding e by simp
  qed
qed (simp add: keys_of_def)

lemma check_deps_None:
  "check_deps i it keys seen ds = None \<longleftrightarrow>
     (td_key it = '''' \<or> td_key it \<notin> set ds) \<and> set ds \<subseteq> set keys \<and> distinct ds \<and> set ds \<inter> set seen = {}"
  by (induction ds arbitrary: seen) auto

lemma check_checks_None:
  "check_checks c bindable seen ks = None \<longleftrightarrow>
     set ks \<subseteq> set bindable \<and> distinct ks \<and> set ks \<inter> set seen = {} \<and> \<not> list_ex (\<lambda>c. trim_space c = '''') ks"
  by (induction ks arbitrary: seen) auto

lemma check_paths_None: "check_paths c covers ps = None \<longleftrightarrow> \<not> list_ex (\<lambda>p. trim_space p = '''' \<or> covers p) ps"
  by (induction ps) auto

lemma check_bindings_None:
  "check_bindings i keys bindable covers items = None \<longleftrightarrow> list_all (binding_ok keys bindable covers) items"
proof (induction items arbitrary: i)
  case (Cons it its)
  have "check_bindings i keys bindable covers (it # its) = None \<longleftrightarrow>
      check_deps i it keys [] (td_depends_on it) = None \<and>
      check_checks (td_content it) bindable [] (td_evidence_checks it) = None \<and>
      check_paths (td_content it) covers (td_evidence_paths it) = None \<and>
      check_bindings (Suc i) keys bindable covers its = None"
    by (simp split: option.splits)
  then show ?case by (simp add: check_deps_None check_checks_None check_paths_None Cons.IH binding_ok_def conj_ac)
qed simp

lemma validate_plan_ok:
  "validate_plan_items bindable covers items = None \<longleftrightarrow> plan_ok bindable covers items"
proof (cases "check_items 0 [] [] items")
  case (Inl e)
  then show ?thesis using check_items_spec [where i = 0 and keys = "[]" and contents = "[]" and items = items]
    by (auto simp: validate_plan_items_def plan_ok_def items_fit_def)
next
  case (Inr keys)
  with check_items_spec [where i = 0 and keys = "[]" and contents = "[]" and items = items]
  have ok: "list_all item_ok items" "distinct (keys_of items)" "distinct (map td_content items)" "set keys = set (keys_of items)"
    by (auto simp: items_fit_def)
  have "binding_ok keys bindable covers = binding_ok (keys_of items) bindable covers"
    by (intro ext) (simp add: binding_ok_def ok(4))
  then have bind: "check_bindings 0 keys bindable covers items = None \<longleftrightarrow>
      list_all (binding_ok (keys_of items) bindable covers) items"
    by (simp add: check_bindings_None)
  have "edges (plan_graph items) = depends items"
    using edges_plan_graph ok(2) by (simp add: keys_of_def)
  then have cyc: "detect_plan_cycle items = None \<longleftrightarrow> acyclic (depends items)" by (simp add: detect_plan_cycle_iff)
  have "validate_plan_items bindable covers items = None \<longleftrightarrow>
      check_bindings 0 keys bindable covers items = None \<and> detect_plan_cycle items = None"
    using Inr by (simp add: validate_plan_items_def split: option.splits)
  then show ?thesis unfolding bind cyc by (simp add: plan_ok_def ok)
qed

subsection \<open>The todos tool\<close>

record todos_metadata =
  tm_is_new :: bool
  tm_todos :: "plan_item list"
  tm_just_completed :: "string list"
  tm_just_started :: string
  tm_completed :: nat
  tm_total :: nat

definition item_of :: "(string \<Rightarrow> string) \<Rightarrow> todo_item \<Rightarrow> plan_item" where
  "item_of hash it =
     \<lparr>pl_id = mint_plan_item_id hash (td_key it) (td_content it), pl_key = td_key it, pl_content = td_content it,
      pl_status = td_status it, pl_active_form = td_active_form it,
      pl_depends_on = map (\<lambda>k. mint_plan_item_id hash k '''') (td_depends_on it),
      pl_evidence_checks = td_evidence_checks it, pl_evidence_paths = td_evidence_paths it\<rparr>"

text \<open>The body of the loop over the submitted items: counts and transitions.\<close>

definition track :: "(string \<Rightarrow> string) \<Rightarrow> (string, string) gomap \<Rightarrow> nat \<times> string list \<times> string \<Rightarrow> todo_item \<Rightarrow> nat \<times> string list \<times> string" where
  "track hash old acc it =
     (case acc of (completed, just, started) \<Rightarrow>
        let before = map_of old (pl_id (item_of hash it))
        in (if td_status it = plan_item_completed then completed + 1 else completed,
            if td_status it = plan_item_completed \<and> before \<noteq> None \<and> before \<noteq> Some plan_item_completed
            then just @ [td_content it] else just,
            if td_status it = plan_item_in_progress \<and> before \<noteq> Some plan_item_in_progress
            then (if td_active_form it \<noteq> '''' then td_active_form it else td_content it) else started))"

text \<open>
  The tool on the stored items of a session: a rejection is an answer to the model and leaves the
  session alone; \<open>save\<close> says whether storing succeeds (\<open>None\<close>: the fatal error).
\<close>

datatype todos_answer = Rejected plan_error | Updated string todos_metadata

definition todos_response :: "plan_item list \<Rightarrow> nat \<Rightarrow> string" where
  "todos_response todos completed =
     ''Todo list updated successfully.'' @ [CHR 0x0A, CHR 0x0A] @
     ''Status: '' @ nat_str (length (filter (\<lambda>t. pl_status t = plan_item_pending) todos)) @ '' pending, '' @
     nat_str (length (filter (\<lambda>t. pl_status t = plan_item_in_progress) todos)) @ '' in progress, '' @
     nat_str completed @ '' completed'' @ [CHR 0x0A] @
     ''Todos have been modified successfully. Ensure that you continue to use the todo list to track your progress. Please proceed with the current tasks if applicable.''"

definition old_status_by_id :: "plan_item list \<Rightarrow> (string, string) gomap" where
  "old_status_by_id stored = foldl (\<lambda>m t. AList.update (pl_id t) (pl_status t) m) [] stored"

definition todos_tool :: "(string \<Rightarrow> string) \<Rightarrow> string list \<Rightarrow> (string \<Rightarrow> bool) \<Rightarrow> bool \<Rightarrow> todo_item list \<Rightarrow> plan_item list \<Rightarrow>
    todos_answer option \<times> plan_item list" where
  "todos_tool hash bindable covers save items stored =
     (case validate_plan_items bindable covers items of
        Some e \<Rightarrow> (Some (Rejected e), stored)
      | None \<Rightarrow>
          (let old = old_status_by_id stored;
               todos = map (item_of hash) items;
               (completed, just, started) = foldl (track hash old) (0, [], '''') items
           in if \<not> save then (None, stored)
              else (Some (Updated (todos_response todos completed)
                       \<lparr>tm_is_new = (stored = []), tm_todos = todos, tm_just_completed = just, tm_just_started = started,
                        tm_completed = completed, tm_total = length todos\<rparr>), todos)))"

text \<open>
  An item that became completed with this call: the stored item of its id has another status.
\<close>

definition newly_completed :: "(string \<Rightarrow> string) \<Rightarrow> plan_item list \<Rightarrow> todo_item \<Rightarrow> bool" where
  "newly_completed hash stored it \<longleftrightarrow>
     td_status it = plan_item_completed \<and>
     map_of (old_status_by_id stored) (pl_id (item_of hash it)) \<notin> {None, Some plan_item_completed}"

lemma track_fold:
  "fst (foldl (track hash (old_status_by_id stored)) acc items) =
     fst acc + length (filter (\<lambda>it. td_status it = plan_item_completed) items) \<and>
   fst (snd (foldl (track hash (old_status_by_id stored)) acc items)) =
     fst (snd acc) @ map td_content (filter (newly_completed hash stored) items)"
proof (induction items arbitrary: acc)
  case (Cons it items)
  let ?acc = "track hash (old_status_by_id stored) acc it"
  have "fst ?acc = fst acc + (if td_status it = plan_item_completed then 1 else 0)"
    by (cases acc) (simp add: track_def Let_def)
  moreover have "fst (snd ?acc) = fst (snd acc) @ (if newly_completed hash stored it then [td_content it] else [])"
    by (cases acc) (auto simp: track_def Let_def newly_completed_def)
  ultimately show ?case by (simp add: Cons.IH)
qed simp

lemma todos_tool_cases:
  obtains (rejected) e where "todos_tool hash bindable covers save items stored = (Some (Rejected e), stored)"
      "validate_plan_items bindable covers items = Some e"
  | (failed) "todos_tool hash bindable covers save items stored = (None, stored)"
      "validate_plan_items bindable covers items = None" "\<not> save"
  | (updated) reply md where
      "todos_tool hash bindable covers save items stored = (Some (Updated reply md), map (item_of hash) items)"
      "validate_plan_items bindable covers items = None" "save" "tm_todos md = map (item_of hash) items"
      "tm_completed md = length (filter (\<lambda>it. td_status it = plan_item_completed) items)"
      "tm_just_completed md = map td_content (filter (newly_completed hash stored) items)"
      "tm_is_new md \<longleftrightarrow> stored = []"
proof (cases "validate_plan_items bindable covers items")
  case (Some e)
  then show ?thesis by (intro rejected) (simp_all add: todos_tool_def)
next
  case None
  obtain n just started where f: "foldl (track hash (old_status_by_id stored)) (0, [], '''') items = (n, just, started)"
    by (cases "foldl (track hash (old_status_by_id stored)) (0, [], '''') items")
  with track_fold [of hash stored "(0, [], '''')" items]
  have "n = length (filter (\<lambda>it. td_status it = plan_item_completed) items)"
    "just = map td_content (filter (newly_completed hash stored) items)" by simp_all
  then show ?thesis
  proof (cases save)
    case True
    then show ?thesis using None f \<open>n = _\<close> \<open>just = _\<close>
      by (intro updated [of "todos_response (map (item_of hash) items) n"
            "\<lparr>tm_is_new = (stored = []), tm_todos = map (item_of hash) items, tm_just_completed = just,
              tm_just_started = started, tm_completed = n, tm_total = length items\<rparr>"])
         (simp_all add: todos_tool_def Let_def)
  next
    case False
    then show ?thesis using None f by (intro failed) (simp_all add: todos_tool_def Let_def)
  qed
qed

lemma minted_ids_distinct:
  assumes "inj_on hash ((\<lambda>it. if td_key it \<noteq> '''' then ''key:'' @ td_key it else ''content:'' @ td_content it) ` set items)"
    and "distinct (keys_of items)" and "distinct (map td_content items)"
  shows "distinct (map pl_id (map (item_of hash) items))"
proof -
  let ?in = "\<lambda>it. if td_key it \<noteq> '''' then ''key:'' @ td_key it else ''content:'' @ td_content it"
  have "distinct (map ?in items)"
    using assms(2,3)
  proof (induction items)
    case (Cons it its)
    have "?in it \<notin> ?in ` set its"
      using Cons.prems by (cases "td_key it = ''''") (auto simp: keys_of_def split: if_splits)
    moreover have "distinct (keys_of its)" using Cons.prems(1) by (simp add: keys_of_Cons split: if_splits)
    ultimately show ?case using Cons.IH Cons.prems(2) by simp
  qed simp
  then have "distinct (map hash (map ?in items))" using assms(1) by (subst distinct_map) simp
  then show ?thesis by (simp add: item_of_def mint_plan_item_id_def comp_def)
qed

lemma minted_dependencies_closed:
  assumes "list_all (binding_ok (keys_of items) bindable covers) items"
  shows "(\<Union>t\<in>set (map (item_of hash) items). set (pl_depends_on t)) \<subseteq> set (map pl_id (map (item_of hash) items))"
proof
  fix d assume "d \<in> (\<Union>t\<in>set (map (item_of hash) items). set (pl_depends_on t))"
  then obtain it k where it: "it \<in> set items" "k \<in> set (td_depends_on it)" "d = mint_plan_item_id hash k ''''"
    by (auto simp: item_of_def)
  then have "k \<in> set (keys_of items)" using assms by (auto simp: list_all_iff binding_ok_def)
  then obtain it' where "it' \<in> set items" "td_key it' = k" "k \<noteq> ''''" by (auto simp: keys_of_def)
  then show "d \<in> set (map pl_id (map (item_of hash) items))"
    unfolding it(3) by (force simp: item_of_def mint_plan_item_id_def)
qed


text \<open>
  C26: the todos tool accepts a plan exactly if it meets the rules: known statuses, visible contents
  and keys, both unique, dependencies that name other items once, bindable checks named once, paths
  that bind something, and no dependency cycle. The depth-first search ends and finds a cycle exactly
  if there is one.
\<close>

theorem validate_accepts_iff:
  "validate_plan_items bindable covers items = None \<longleftrightarrow> plan_ok bindable covers items"
  by (rule validate_plan_ok)

text \<open>
  The todos tool rejects exactly the plans that break a rule and then, as when storing fails,
  leaves the session's items alone. Otherwise the items stored are the submitted ones, their ids
  unique unless the hash collides on them, every dependency the id of one of them; the metadata
  counts the completed ones and lists exactly those that a stored item of the same id had not as
  completed.
\<close>

theorem todos_tool_answers:
  assumes "inj_on hash ((\<lambda>it. if td_key it \<noteq> '''' then ''key:'' @ td_key it else ''content:'' @ td_content it) ` set items)"
    and "todos_tool hash bindable covers save items stored = (answer, todos)"
  shows "case answer of
      None \<Rightarrow> plan_ok bindable covers items \<and> \<not> save \<and> todos = stored
    | Some (Rejected e) \<Rightarrow> \<not> plan_ok bindable covers items \<and> todos = stored
    | Some (Updated reply md) \<Rightarrow> plan_ok bindable covers items \<and> save \<and> tm_todos md = todos \<and>
        map pl_content todos = map td_content items \<and> distinct (map pl_id todos) \<and>
        (\<Union>t\<in>set todos. set (pl_depends_on t)) \<subseteq> set (map pl_id todos) \<and>
        tm_completed md = length (filter (\<lambda>t. pl_status t = plan_item_completed) todos) \<and>
        tm_just_completed md = map td_content (filter (newly_completed hash stored) items)"
proof (cases rule: todos_tool_cases [of hash bindable covers save items stored])
  case (rejected e)
  then show ?thesis using assms(2) validate_plan_ok [of bindable covers items] by auto
next
  case failed
  then show ?thesis using assms(2) validate_plan_ok [of bindable covers items] by auto
next
  case (updated reply md)
  have ok: "plan_ok bindable covers items" using updated(2) by (simp add: validate_plan_ok)
  have "map pl_content (map (item_of hash) items) = map td_content items" by (simp add: item_of_def)
  moreover have "length (filter (\<lambda>t. pl_status t = plan_item_completed) (map (item_of hash) items)) =
      length (filter (\<lambda>it. td_status it = plan_item_completed) items)"
    by (simp add: filter_map comp_def item_of_def)
  moreover have "distinct (map pl_id (map (item_of hash) items))"
    using minted_ids_distinct [OF assms(1)] ok by (simp add: plan_ok_def)
  moreover have "(\<Union>t\<in>set (map (item_of hash) items). set (pl_depends_on t)) \<subseteq> set (map pl_id (map (item_of hash) items))"
    by (rule minted_dependencies_closed [of _ bindable covers]) (use ok in \<open>simp add: plan_ok_def\<close>)
  moreover have "answer = Some (Updated reply md)" "todos = map (item_of hash) items" using assms(2) updated(1) by auto
  ultimately show ?thesis using ok updated(3-6) by simp
qed

definition demo_todo :: "string \<Rightarrow> string list \<Rightarrow> todo_item" where
  "demo_todo k deps = \<lparr>td_content = ''do '' @ k, td_status = ''pending'', td_active_form = '''', td_key = k,
     td_depends_on = deps, td_evidence_checks = [], td_evidence_paths = []\<rparr>"

theorem todos_tool_answers_witness:
  "let items = [demo_todo ''a'' [], demo_todo ''b'' [''a'']];
       (answer, todos) = todos_tool (\<lambda>s. s) [] (\<lambda>_. False) True items []
   in distinct (map pl_id todos) \<and> map pl_depends_on todos = [[], [''key:a'']]"
proof -
  let ?items = "[demo_todo ''a'' [], demo_todo ''b'' [''a'']]"
  let ?r = "todos_tool (\<lambda>s. s) [] (\<lambda>_. False) True ?items []"
  have r: "case fst ?r of Some (Updated reply md) \<Rightarrow> True | _ \<Rightarrow> False" "map pl_depends_on (snd ?r) = [[], [''key:a'']]"
    by code_simp+
  have "?r = (fst ?r, snd ?r)" by simp
  from todos_tool_answers [OF _ this] r show ?thesis
    by (auto split: option.splits todos_answer.splits)
qed

end
