(* ===== verification/GoRegexp.thy ===== *)
theory GoRegexp
  imports GoLib
begin

text \<open>
  Go's regexp package, as far as the modelled code uses it: leftmost-first matching of byte
  patterns, word boundaries, the search for the first match and for all matches. An expression
  yields the ends of its matches from a position in the order of preference, so the match Go
  reports is the first of the list. Patterns here never separate the bytes of a rune: classes with
  bytes from 128 on are complements that contain all of them.
\<close>

subsection \<open>Expressions and their matches\<close>

datatype rx = REmpty | RByte "char \<Rightarrow> bool" | RSeq rx rx | RAlt rx rx | RStar rx | RBound

definition word_byte :: "char \<Rightarrow> bool" where
  "word_byte c \<longleftrightarrow> (let n = of_char c :: nat in 48 \<le> n \<and> n \<le> 57 \<or> 65 \<le> n \<and> n \<le> 90 \<or> n = 95 \<or> 97 \<le> n \<and> n \<le> 122)"

definition word_boundary :: "string \<Rightarrow> nat \<Rightarrow> bool" where
  "word_boundary t i \<longleftrightarrow> (0 < i \<and> i \<le> length t \<and> word_byte (t ! (i - 1))) \<noteq> (i < length t \<and> word_byte (t ! i))"

text \<open>An iteration of a star that consumes nothing is not followed up.\<close>

function rx_ends :: "string \<Rightarrow> rx \<Rightarrow> nat \<Rightarrow> nat list" where
  "rx_ends t REmpty i = [i]"
| "rx_ends t (RByte p) i = (if i < length t \<and> p (t ! i) then [Suc i] else [])"
| "rx_ends t (RSeq r s) i = concat (map (rx_ends t s) (rx_ends t r i))"
| "rx_ends t (RAlt r s) i = rx_ends t r i @ rx_ends t s i"
| "rx_ends t (RStar r) i =
     concat (map (\<lambda>j. if i < j \<and> j \<le> length t then rx_ends t (RStar r) j else []) (rx_ends t r i)) @ [i]"
| "rx_ends t RBound i = (if word_boundary t i then [i] else [])"
  by pat_completeness auto
termination by (relation "measures [\<lambda>(t, r, i). size r, \<lambda>(t, r, i). length t - i]") auto

declare rx_ends.simps(5) [simp del]

text \<open>The matches of an expression, without an order.\<close>

inductive rx_matches :: "string \<Rightarrow> rx \<Rightarrow> nat \<Rightarrow> nat \<Rightarrow> bool" for t where
  empty: "rx_matches t REmpty i i"
| byte: "i < length t \<Longrightarrow> p (t ! i) \<Longrightarrow> rx_matches t (RByte p) i (Suc i)"
| seq: "rx_matches t r i j \<Longrightarrow> rx_matches t s j k \<Longrightarrow> rx_matches t (RSeq r s) i k"
| left: "rx_matches t r i j \<Longrightarrow> rx_matches t (RAlt r s) i j"
| right: "rx_matches t s i j \<Longrightarrow> rx_matches t (RAlt r s) i j"
| stop: "rx_matches t (RStar r) i i"
| again: "rx_matches t r i j \<Longrightarrow> rx_matches t (RStar r) j k \<Longrightarrow> rx_matches t (RStar r) i k"
| bound: "word_boundary t i \<Longrightarrow> rx_matches t RBound i i"

inductive_simps rx_matches_simps:
  "rx_matches t REmpty i j" "rx_matches t (RByte p) i j" "rx_matches t (RSeq r s) i j"
  "rx_matches t (RAlt r s) i j" "rx_matches t RBound i j"

inductive_cases rx_matches_star: "rx_matches t (RStar r) i k"

lemma rx_matches_le: "rx_matches t r i j \<Longrightarrow> i \<le> length t \<Longrightarrow> i \<le> j \<and> j \<le> length t"
  by (induction rule: rx_matches.induct) auto

lemma star_progress:
  assumes "rx_matches t (RStar r) i k" "i \<le> length t"
  shows "i = k \<or> (\<exists>j. i < j \<and> rx_matches t r i j \<and> rx_matches t (RStar r) j k)"
  using assms
proof (induction "RStar r" i k rule: rx_matches.induct)
  case (again i j k)
  have "i \<le> j" "j \<le> length t" using rx_matches_le [OF again.hyps(1)] again.prems by auto
  then show ?case using again by (cases "i = j") auto
qed simp

text \<open>The list holds exactly the matches.\<close>

lemma rx_ends_iff: "i \<le> length t \<Longrightarrow> j \<in> set (rx_ends t r i) \<longleftrightarrow> rx_matches t r i j"
proof (induction t r i arbitrary: j rule: rx_ends.induct)
  case (3 t r s i)
  have "j \<in> set (rx_ends t (RSeq r s) i) \<longleftrightarrow> (\<exists>k. rx_matches t r i k \<and> j \<in> set (rx_ends t s k))"
    using 3 by auto
  also have "\<dots> \<longleftrightarrow> (\<exists>k. rx_matches t r i k \<and> rx_matches t s k j)"
    using 3 rx_matches_le by metis
  finally show ?case by (simp add: rx_matches_simps)
next
  case (5 t r i)
  have inner: "k \<in> set (rx_ends t r i) \<longleftrightarrow> rx_matches t r i k" for k using "5.IH"(1) "5.prems" by blast
  have rest: "j \<in> set (rx_ends t (RStar r) k) \<longleftrightarrow> rx_matches t (RStar r) k j" if "rx_matches t r i k" "i < k" for k
    using "5.IH"(2) [of k j] that inner rx_matches_le [OF that(1) "5.prems"] by simp
  have "j \<in> set (rx_ends t (RStar r) i) \<longleftrightarrow>
      j = i \<or> (\<exists>k\<in>set (rx_ends t r i). i < k \<and> k \<le> length t \<and> j \<in> set (rx_ends t (RStar r) k))"
    by (subst rx_ends.simps(5)) (auto split: if_splits)
  also have "\<dots> \<longleftrightarrow> j = i \<or> (\<exists>k. rx_matches t r i k \<and> i < k \<and> rx_matches t (RStar r) k j)"
    using inner rest rx_matches_le [OF _ "5.prems", of r] by (meson order.trans)
  also have "\<dots> \<longleftrightarrow> rx_matches t (RStar r) i j"
    using star_progress [of t r i j] "5.prems" by (auto intro: rx_matches.intros)
  finally show ?case .
qed (auto simp: rx_matches_simps)

subsection \<open>Searching\<close>

lemma find_member:
  assumes "find P xs = Some x"
  shows "x \<in> set xs" "P x"
  using assms by (auto simp: find_Some_iff)

text \<open>The leftmost match from a position on, with the preferred end.\<close>

definition rx_search :: "string \<Rightarrow> rx \<Rightarrow> nat \<Rightarrow> (nat \<times> nat) option" where
  "rx_search t r i =
     (case find (\<lambda>k. rx_ends t r k \<noteq> []) [i..<Suc (length t)] of
        None \<Rightarrow> None
      | Some k \<Rightarrow> Some (k, hd (rx_ends t r k)))"

text \<open>\<open>MatchString\<close>\<close>

definition rx_match_string :: "string \<Rightarrow> rx \<Rightarrow> bool" where
  "rx_match_string t r \<longleftrightarrow> rx_search t r 0 \<noteq> None"

lemma rx_search_Some:
  assumes "rx_search t r i = Some (a, b)"
  shows "i \<le> a" "a \<le> length t" "a \<le> b" "b \<le> length t" "rx_matches t r a b"
proof -
  from assms obtain k where k: "find (\<lambda>k. rx_ends t r k \<noteq> []) [i..<Suc (length t)] = Some k" "k = a" "hd (rx_ends t r k) = b"
    by (auto simp: rx_search_def split: option.splits)
  then have mem: "a \<in> set [i..<Suc (length t)]" "rx_ends t r a \<noteq> []"
    using find_member [OF k(1)] by (simp_all del: upt_Suc)
  then show "i \<le> a" "a \<le> length t" by auto
  moreover have "b \<in> set (rx_ends t r a)" using k(2,3) mem(2) by auto
  ultimately show "rx_matches t r a b" using rx_ends_iff by blast
  then show "a \<le> b" "b \<le> length t" using rx_matches_le \<open>a \<le> length t\<close> by blast+
qed

lemma rx_search_None: "rx_search t r i = None \<longleftrightarrow> (\<forall>a b. i \<le> a \<and> a \<le> length t \<longrightarrow> \<not> rx_matches t r a b)"
proof -
  have "rx_search t r i = None \<longleftrightarrow> find (\<lambda>k. rx_ends t r k \<noteq> []) [i..<Suc (length t)] = None"
    by (simp add: rx_search_def split: option.splits)
  also have "\<dots> \<longleftrightarrow> (\<forall>a. i \<le> a \<and> a \<le> length t \<longrightarrow> rx_ends t r a = [])"
    by (auto simp: find_None_iff simp del: upt_Suc)
  also have "\<dots> \<longleftrightarrow> (\<forall>a. i \<le> a \<and> a \<le> length t \<longrightarrow> (\<forall>b. b \<notin> set (rx_ends t r a)))" by simp
  finally show ?thesis by (auto simp: rx_ends_iff)
qed

lemma rx_match_string_iff: "rx_match_string t r \<longleftrightarrow> (\<exists>a b. a \<le> length t \<and> rx_matches t r a b)"
  unfolding rx_match_string_def using rx_search_None [of t r 0] by auto

text \<open>\<open>FindAllStringIndex\<close>: the matches one after the other, none overlapping.\<close>

function rx_find_all :: "string \<Rightarrow> rx \<Rightarrow> nat \<Rightarrow> (nat \<times> nat) list" where
  "rx_find_all t r i =
     (case rx_search t r i of
        None \<Rightarrow> []
      | Some (a, b) \<Rightarrow> (a, b) # rx_find_all t r (if a < b then b else Suc b))"
  by auto
termination
proof (relation "measure (\<lambda>(t, r, i). Suc (length t) - i)")
  fix t r i p a b
  assume "rx_search t r i = Some p" "(a, b) = p"
  then have "rx_search t r i = Some (a, b)" by simp
  from rx_search_Some [OF this]
  show "((t, r, if a < b then b else Suc b), t, r, i) \<in> measure (\<lambda>(t, r, i). Suc (length t) - i)" by auto
qed simp

declare rx_find_all.simps [simp del]

lemma rx_find_all_matches:
  "(a, b) \<in> set (rx_find_all t r i) \<Longrightarrow> i \<le> a \<and> a \<le> b \<and> b \<le> length t \<and> rx_matches t r a b"
proof (induction t r i rule: rx_find_all.induct)
  case (1 t r i)
  show ?case
  proof (cases "rx_search t r i")
    case None
    then show ?thesis using "1.prems" by (subst (asm) rx_find_all.simps) simp
  next
    case (Some p)
    obtain c d where p: "p = (c, d)" by (cases p)
    note found = rx_search_Some [OF Some [unfolded p]]
    from "1.prems" Some p consider "(a, b) = (c, d)" | "(a, b) \<in> set (rx_find_all t r (if c < d then d else Suc d))"
      by (subst (asm) rx_find_all.simps) (auto split: if_splits)
    then show ?thesis
    proof cases
      case 2
      then show ?thesis using "1.IH" [OF Some p [symmetric]] found by (auto split: if_splits)
    qed (use found in simp)
  qed
qed

subsection \<open>Building expressions\<close>

definition rlit :: "string \<Rightarrow> rx" where
  "rlit s = foldr (\<lambda>c. RSeq (RByte (\<lambda>x. x = c))) s REmpty"

fun ralts :: "rx list \<Rightarrow> rx" where
  "ralts [] = RByte (\<lambda>_. False)"
| "ralts [r] = r"
| "ralts (r # s # rs) = RAlt r (ralts (s # rs))"

definition rseqs :: "rx list \<Rightarrow> rx" where "rseqs rs = foldr RSeq rs REmpty"
definition rplus :: "rx \<Rightarrow> rx" where "rplus r = RSeq r (RStar r)"
definition ropt :: "rx \<Rightarrow> rx" where "ropt r = RAlt r REmpty"
definition rwords :: "string list \<Rightarrow> rx" where "rwords ws = ralts (map rlit ws)"

text \<open>\<open>\\s\<close>, \<open>\\S\<close>, \<open>\\d\<close> and \<open>[A-Za-z0-9_]\<close>\<close>

definition rx_blank :: "char \<Rightarrow> bool" where
  "rx_blank c \<longleftrightarrow> c \<in> {CHR 0x09, CHR 0x0A, CHR 0x0C, CHR 0x0D, CHR 0x20}"
definition rx_digit :: "char \<Rightarrow> bool" where
  "rx_digit c \<longleftrightarrow> (let n = of_char c :: nat in 48 \<le> n \<and> n \<le> 57)"

lemmas rx_builders = rlit_def rseqs_def rplus_def ropt_def rwords_def

end
