(* ===== verification/Toolclass.thy ===== *)
theory Toolclass
  imports GoRegexp
begin

text \<open>
  The vocabulary that says which tool calls write: internal/toolclass/toolclass.go. \<open>command_of\<close>
  decodes the input of a bash call; it is \<open>None\<close> where \<open>json.Unmarshal\<close> fails. Regular expressions
  are those of the source, matched by GoRegexp.
\<close>

subsection \<open>Names and patterns\<close>

definition write_tool_names :: "string list" where
  "write_tool_names = [''edit'', ''write'', ''multiedit'', ''lsp_rename'', ''lsp_replace_symbol'']"

definition read_tool_names :: "string list" where
  "read_tool_names = [''view'', ''read'']"

definition command_tool_names :: "string list" where
  "command_tool_names = [''bash'', ''grep'', ''glob'', ''ls'']"

definition download_tool_name :: string where "download_tool_name = ''download''"

abbreviation rb :: "char \<Rightarrow> rx" where "rb c \<equiv> RByte (\<lambda>x. x = c)"
abbreviation blanks :: rx where "blanks \<equiv> rplus (RByte rx_blank)"
abbreviation solids :: rx where "solids \<equiv> RStar (RByte (\<lambda>c. \<not> rx_blank c))"

definition mutating_bash_re :: rx where
  "mutating_bash_re = ralts
     [rseqs [RBound, rwords [''rm'', ''rmdir'', ''mv'', ''cp'', ''dd'', ''truncate'', ''shred'', ''chmod'', ''chown'', ''chgrp'',
               ''ln'', ''tee'', ''patch'', ''install'', ''touch'', ''mkdir'', ''rsync'', ''scp''], RBound],
      rseqs [RBound, rwords [''sed'', ''perl''], blanks,
               RStar (rseqs [rb CHR ''-'', rplus (RByte (\<lambda>c. \<not> rx_blank c)), blanks]),
               ralts [rseqs [rb CHR ''-'', solids, rb CHR ''i''], rseqs [rlit ''-i'', solids], rlit ''--in-place''], RBound],
      rseqs [RBound, rlit ''git'', blanks,
               ralts (map rlit [''commit'', ''push'', ''reset'', ''checkout'', ''switch'', ''restore'', ''clean'', ''rebase'', ''merge'',
                  ''am'', ''apply'', ''stash'', ''tag'', ''revert'', ''cherry-pick'', ''mv'', ''rm'', ''init'', ''clone'', ''pull'', ''bisect'',
                  ''submodule'', ''update-ref'', ''notes''] @
                 [rseqs [rlit ''branch'', blanks, rb CHR ''-'', RByte (\<lambda>c. c \<in> set ''dDmM'')]]), RBound],
      rseqs [RBound, rlit ''apt'', ropt (rlit ''-get''), blanks,
               rwords [''install'', ''remove'', ''purge'', ''upgrade'', ''update'', ''dist-upgrade''], RBound],
      rseqs [RBound, rlit ''kubectl'', blanks,
               rwords [''delete'', ''apply'', ''create'', ''patch'', ''edit'', ''replace'', ''scale'', ''drain'', ''cordon'', ''uncordon''], RBound]]"

text \<open>Without the pattern's anchor, which \<open>fd_dup\<close> supplies.\<close>

definition fd_dup_target_re :: rx where
  "fd_dup_target_re = RSeq (rb CHR ''&'') (RByte (\<lambda>c. c = CHR ''-'' \<or> rx_digit c))"

abbreviation apos :: char where "apos \<equiv> CHR 0x27"
abbreviation quot :: char where "quot \<equiv> CHR 0x22"
abbreviation backslash :: char where "backslash \<equiv> CHR 0x5C"
abbreviation newline :: char where "newline \<equiv> CHR 0x0A"

text \<open>A quoted span with escapes, up to the closing character.\<close>

definition escaped_span :: "char \<Rightarrow> rx" where
  "escaped_span q = RStar (RAlt (RByte (\<lambda>c. c \<noteq> q \<and> c \<noteq> backslash)) (RSeq (rb backslash) (RByte (\<lambda>c. c \<noteq> newline))))"

definition quoted_span_re :: rx where
  "quoted_span_re = ralts
     [rseqs [rb apos, RStar (RByte (\<lambda>c. c \<noteq> apos)), rb apos],
      rseqs [rb CHR ''$'', rb apos, escaped_span apos, rb apos],
      rseqs [rb quot, escaped_span quot, rb quot]]"

definition test_expr_re :: rx where
  "test_expr_re = rseqs [rlit ''[['', RStar (RByte (\<lambda>c. c \<noteq> CHR '']'')), rlit '']]'']"

definition arith_re :: rx where
  "arith_re = rseqs [ropt (rb CHR ''$''), rlit ''(('', RStar (RByte (\<lambda>c. c \<noteq> CHR '')'')), rlit ''))'']"

definition heredoc_re :: rx where
  "heredoc_re = rseqs
     [rlit ''<<'', ropt (rb CHR ''-''), RStar (RByte (\<lambda>c. c = CHR '' '' \<or> c = CHR 0x09)),
      ralts [rseqs [rb apos, rplus (RByte word_byte), rb apos],
             rseqs [rb quot, rplus (RByte word_byte), rb quot],
             rplus (RByte word_byte)]]"

definition redirect_op_re :: rx where
  "redirect_op_re = RSeq (rb CHR ''>'') (ropt (rb CHR ''>''))"

subsection \<open>Masking\<close>

text \<open>\<open>blank_out t a b\<close>: the bytes from \<open>a\<close> to before \<open>b\<close> become spaces.\<close>

definition blank_out :: "string \<Rightarrow> nat \<times> nat \<Rightarrow> string" where
  "blank_out t s = (case s of (a, b) \<Rightarrow> take a t @ replicate (min b (length t) - a) CHR '' '' @ drop (max a b) t)"

text \<open>\<open>ReplaceAllStringFunc\<close> with spaces of the length of the match.\<close>

definition mask_re :: "rx \<Rightarrow> string \<Rightarrow> string" where
  "mask_re r t = foldl blank_out t (rx_find_all t r 0)"

text \<open>
  The body of a heredoc: from the line after the opener to the line that is the delimiter, whose
  start is the answer, or past the end when there is none.
\<close>

function heredoc_end :: "string \<Rightarrow> bool \<Rightarrow> string \<Rightarrow> nat \<Rightarrow> nat" where
  "heredoc_end t strip_tabs delim pos =
     (if pos \<le> length t
      then let line = takeWhile (\<lambda>c. c \<noteq> newline) (drop pos t);
               candidate = (if strip_tabs then dropWhile (\<lambda>c. c = CHR 0x09) line else line)
           in if candidate = delim then pos
              else if pos + length line = length t then length t + 1
              else heredoc_end t strip_tabs delim (pos + length line + 1)
      else pos)"
  by pat_completeness auto
termination by (relation "measure (\<lambda>(t, _, _, pos). Suc (length t) - pos)") auto

declare heredoc_end.simps [simp del]

definition blank_lines :: "string \<Rightarrow> nat \<Rightarrow> nat \<Rightarrow> string" where
  "blank_lines t a b = take a t @ map (\<lambda>c. if c = newline then c else CHR '' '') (drop a (take b t)) @ drop (max a b) t"

text \<open>The word between the opener and its end, without the quotes around it.\<close>

definition heredoc_delim :: "string \<Rightarrow> string" where
  "heredoc_delim op =
     (let w = dropWhile (\<lambda>c. c = CHR '' '' \<or> c = CHR 0x09) (let r = drop 2 op in if has_prefix r ''-'' then tl r else r)
      in if has_prefix w [apos] \<or> has_prefix w [quot] then butlast (tl w) else w)"

definition mask_heredoc :: "string \<Rightarrow> string \<Rightarrow> string \<Rightarrow> nat \<times> nat \<Rightarrow> string" where
  "mask_heredoc command masked b m =
     (case m of (s, e) \<Rightarrow>
        if 0 < s \<and> command ! (s - 1) = CHR ''<'' \<or> masked ! s = CHR '' '' then b
        else let op = drop s (take e command);
                 strip_tabs = has_prefix (drop 2 op) ''-'';
                 line = takeWhile (\<lambda>c. c \<noteq> newline) (drop e command)
             in if e + length line = length command then b
                else let start = e + length line + 1
                     in blank_lines b start (heredoc_end command strip_tabs (heredoc_delim op) start))"

definition mask_heredoc_bodies :: "string \<Rightarrow> string \<Rightarrow> string" where
  "mask_heredoc_bodies command masked = foldl (mask_heredoc command masked) masked (rx_find_all command heredoc_re 0)"

definition mask_command :: "string \<Rightarrow> string" where
  "mask_command command =
     mask_heredoc_bodies command (mask_re arith_re (mask_re test_expr_re (mask_re quoted_span_re command)))"

subsection \<open>Redirects\<close>

fun bare_target :: "string \<Rightarrow> string" where
  "bare_target [] = []"
| "bare_target (c # cs) =
     (if c \<in> set ('' ;|<>()'' @ [CHR 0x09, newline]) then []
      else if c = backslash \<and> cs \<noteq> [] then hd cs # bare_target (tl cs)
      else c # bare_target cs)"

text \<open>The target of the operator that ends at \<open>i\<close>, empty where the loop goes on without one.\<close>

definition redirect_word :: "string \<Rightarrow> nat \<Rightarrow> string" where
  "redirect_word command i =
     (let rest = dropWhile (\<lambda>c. c = CHR '' '' \<or> c = CHR 0x09) (drop i command)
      in case rest of
           [] \<Rightarrow> []
         | q # after \<Rightarrow>
             if q = apos \<or> q = quot then (if q \<in> set after then takeWhile (\<lambda>c. c \<noteq> q) after else [])
             else bare_target rest)"

definition glued :: "string \<Rightarrow> nat \<Rightarrow> bool" where
  "glued command i \<longleftrightarrow> i < length command \<and> command ! i = CHR ''&''"

definition redirect_target :: "string \<Rightarrow> nat \<Rightarrow> string option" where
  "redirect_target command i =
     (let target = redirect_word command (if glued command i then Suc i else i)
      in if target = [] \<or> target = ''/dev/null'' then None
         else if glued command i \<and> rx_ends (CHR ''&'' # target) fd_dup_target_re 0 \<noteq> [] then None
         else Some target)"

definition concrete_redirect_target :: "string \<Rightarrow> bool" where
  "concrete_redirect_target target \<longleftrightarrow>
     \<not> has_prefix target ''~'' \<and> \<not> list_ex (\<lambda>c. c \<in> set (''$*?[{'' @ [CHR 0x60])) target"

definition bash_redirect_targets_of :: "string \<Rightarrow> bool \<Rightarrow> string list" where
  "bash_redirect_targets_of command concrete_only =
     filter (\<lambda>target. \<not> concrete_only \<or> concrete_redirect_target target)
       (List.map_filter (\<lambda>(a, b). redirect_target command b) (rx_find_all (mask_command command) redirect_op_re 0))"

definition bash_redirect_targets :: "string \<Rightarrow> string list" where
  "bash_redirect_targets command = bash_redirect_targets_of command True"

definition is_mutating_call :: "(string \<Rightarrow> string option) \<Rightarrow> string \<Rightarrow> string \<Rightarrow> bool" where
  "is_mutating_call command_of name input =
     (if name \<in> set write_tool_names \<or> name = download_tool_name then True
      else if name \<noteq> ''bash'' then False
      else case command_of input of
        None \<Rightarrow> False
      | Some command \<Rightarrow>
          if command = '''' then False
          else rx_match_string command mutating_bash_re \<or> bash_redirect_targets_of command False \<noteq> [])"
subsection \<open>What masking keeps\<close>

text \<open>Two strings of one length, the second with spaces in some places.\<close>

definition masks :: "string \<Rightarrow> string \<Rightarrow> bool" where
  "masks t m \<longleftrightarrow> list_all2 (\<lambda>c d. d = c \<or> d = CHR '' '') t m"

lemma masks_refl [simp]: "masks t t"
  by (simp add: masks_def list_all2_same)

lemma masks_trans: "masks t m \<Longrightarrow> masks m n \<Longrightarrow> masks t n"
  unfolding masks_def by (rule list_all2_trans [of _ _ _ t m n]) auto

lemma masks_length: "masks t m \<Longrightarrow> length m = length t"
  by (simp add: masks_def list_all2_lengthD)

lemma masks_nth: "masks t m \<Longrightarrow> i < length t \<Longrightarrow> m ! i = t ! i \<or> m ! i = CHR '' ''"
  by (auto simp: masks_def list_all2_conv_all_nth)

lemma blank_out_nth:
  assumes "a \<le> b" "b \<le> length t"
  shows "length (blank_out t (a, b)) = length t"
    "i < length t \<Longrightarrow> blank_out t (a, b) ! i = (if a \<le> i \<and> i < b then CHR '' '' else t ! i)"
  using assms by (auto simp: blank_out_def nth_append min_def max_def)

lemma masks_blank_out: "a \<le> b \<Longrightarrow> b \<le> length t \<Longrightarrow> masks t (blank_out t (a, b))"
  by (auto simp: masks_def list_all2_conv_all_nth blank_out_nth)

lemma fold_blank_out:
  assumes "list_all (\<lambda>(a, b). a \<le> b \<and> b \<le> length t) spans"
  shows "masks t (foldl blank_out t spans) \<and>
    (i < length t \<longrightarrow> list_ex (\<lambda>(a, b). a \<le> i \<and> i < b) spans \<longrightarrow> foldl blank_out t spans ! i = CHR '' '')"
  using assms
proof (induction spans rule: rev_induct)
  case (snoc s spans)
  obtain a b where s: "s = (a, b)" by (cases s)
  let ?m = "foldl blank_out t spans"
  have ih: "masks t ?m" "i < length t \<Longrightarrow> list_ex (\<lambda>(a, b). a \<le> i \<and> i < b) spans \<Longrightarrow> ?m ! i = CHR '' ''"
    and ab: "a \<le> b" "b \<le> length ?m" using snoc s masks_length by auto
  then show ?case using masks_trans [OF ih(1) masks_blank_out] masks_length [OF ih(1)] by (auto simp: s blank_out_nth)
qed simp

lemma found_spans: "list_all (\<lambda>(a, b). a \<le> b \<and> b \<le> length t) (rx_find_all t r 0)"
  using rx_find_all_matches by (auto simp: list_all_iff)

lemma masks_re: "masks t (mask_re r t)"
  using fold_blank_out [OF found_spans] by (simp add: mask_re_def)

lemma masked_span:
  "i < length t \<Longrightarrow> list_ex (\<lambda>(a, b). a \<le> i \<and> i < b) (rx_find_all t r 0) \<Longrightarrow> mask_re r t ! i = CHR '' ''"
  using fold_blank_out [OF found_spans] by (simp add: mask_re_def)

lemma masks_blank_lines: "masks t (blank_lines t a b)"
proof (cases "a \<le> b")
  case True
  then have split: "t = take a t @ drop a (take b t) @ drop (max a b) t"
    by (metis append.assoc append_take_drop_id max.absorb2 take_take min.absorb1)
  have "masks (drop a (take b t)) (map (\<lambda>c. if c = newline then c else CHR '' '') (drop a (take b t)))"
    by (auto simp: masks_def list_all2_conv_all_nth)
  then show ?thesis
    unfolding blank_lines_def masks_def by (subst split) (intro list_all2_appendI, auto simp: list_all2_same)
next
  case False
  then have "drop a (take b t) = []" "max a b = a" by auto
  then show ?thesis by (simp add: blank_lines_def)
qed

lemma masks_heredoc_bodies: "masks masked (mask_heredoc_bodies command masked)"
proof -
  have "masks masked b \<Longrightarrow> masks masked (foldl (mask_heredoc command masked) b ms)" for b ms
  proof (induction ms arbitrary: b)
    case (Cons m ms)
    have "masks b (mask_heredoc command masked b m)"
      by (cases m) (simp add: mask_heredoc_def Let_def masks_blank_lines)
    then have "masks masked (mask_heredoc command masked b m)" using masks_trans Cons.prems by blast
    then show ?case using Cons.IH by simp
  qed simp
  then show ?thesis by (simp add: mask_heredoc_bodies_def)
qed

lemma masks_quoted: "masks (mask_re quoted_span_re command) (mask_command command)"
  unfolding mask_command_def by (meson masks_re masks_trans masks_heredoc_bodies)

lemma masks_command: "masks command (mask_command command)"
  using masks_trans [OF masks_re masks_quoted] .

text \<open>Whether a byte stands in a quoted span.\<close>

definition quoted_at :: "string \<Rightarrow> nat \<Rightarrow> bool" where
  "quoted_at t i \<longleftrightarrow> list_ex (\<lambda>(a, b). a \<le> i \<and> i < b) (rx_find_all t quoted_span_re 0)"

lemma mask_command_quoted:
  assumes "i < length command" "quoted_at command i"
  shows "mask_command command ! i = CHR '' ''"
proof -
  have "mask_re quoted_span_re command ! i = CHR '' ''" using assms masked_span by (simp add: quoted_at_def)
  then show ?thesis using masks_nth [OF masks_quoted, of i command] assms(1) masks_length [OF masks_re] by auto
qed

subsection \<open>Where targets come from\<close>

lemma redirect_op_ends: "rx_matches t redirect_op_re a b \<Longrightarrow> a < length t \<and> t ! a = CHR ''>'' \<and> (b = Suc a \<or> b = Suc (Suc a))"
  by (auto simp: redirect_op_re_def ropt_def rx_matches_simps)

lemma redirect_targets_mem:
  "target \<in> set (bash_redirect_targets_of command concrete) \<longleftrightarrow>
     (\<not> concrete \<or> concrete_redirect_target target) \<and>
     (\<exists>a b. (a, b) \<in> set (rx_find_all (mask_command command) redirect_op_re 0) \<and> redirect_target command b = Some target)"
  by (auto simp: bash_redirect_targets_of_def List.map_filter_def image_iff) force+

text \<open>A redirect operator: a \<open>>\<close> of the command outside every quoted span.\<close>

definition redirect_at :: "string \<Rightarrow> nat \<Rightarrow> bool" where
  "redirect_at command i \<longleftrightarrow> command ! i = CHR ''>'' \<and> \<not> quoted_at command i"

lemma masked_operator:
  assumes "(a, b) \<in> set (rx_find_all (mask_command command) redirect_op_re 0)"
  shows "a < length command" "redirect_at command a" "b = Suc a \<or> b = Suc (Suc a)"
proof -
  note len = masks_length [OF masks_command, of command]
  from redirect_op_ends rx_find_all_matches [OF assms]
  have op: "a < length (mask_command command)" "mask_command command ! a = CHR ''>''" "b = Suc a \<or> b = Suc (Suc a)" by blast+
  then show "a < length command" "b = Suc a \<or> b = Suc (Suc a)" using len by auto
  then show "redirect_at command a"
    using op(2) masks_nth [OF masks_command, of a command] mask_command_quoted [of a command] by (auto simp: redirect_at_def)
qed

text \<open>
  The two scans for redirects agree. The strict one, for evidence, finds exactly the concrete
  targets of the lenient one, which decides whether a call writes, so a bash command with a concrete
  target always counts as a write. No target comes from a \<open>>\<close> inside a quoted span: each is read
  from the command itself, right behind an operator outside quotes.
\<close>

theorem redirect_scans_agree:
  "bash_redirect_targets command = filter concrete_redirect_target (bash_redirect_targets_of command False) \<and>
   list_all (\<lambda>target. is_mutating_call (\<lambda>input. Some command) ''bash'' input \<and>
       list_ex (\<lambda>i. redirect_at command i \<and> redirect_target command (Suc i) = Some target \<or>
                    redirect_at command i \<and> redirect_target command (Suc (Suc i)) = Some target) [0..<length command])
     (bash_redirect_targets command)"
proof -
  have strict: "bash_redirect_targets command = filter concrete_redirect_target (bash_redirect_targets_of command False)"
    by (simp add: bash_redirect_targets_def bash_redirect_targets_of_def)
  have "is_mutating_call (\<lambda>input. Some command) ''bash'' input" if t: "target \<in> set (bash_redirect_targets command)" for target
  proof -
    have "bash_redirect_targets_of command False \<noteq> []" using t strict by auto
    moreover have "command \<noteq> ''''"
      using t masked_operator(1) [of _ _ command] by (auto simp: bash_redirect_targets_def redirect_targets_mem)
    ultimately show ?thesis by (simp add: is_mutating_call_def write_tool_names_def download_tool_name_def)
  qed
  moreover have "list_ex (\<lambda>i. redirect_at command i \<and> redirect_target command (Suc i) = Some target \<or>
        redirect_at command i \<and> redirect_target command (Suc (Suc i)) = Some target) [0..<length command]"
    if "target \<in> set (bash_redirect_targets command)" for target
  proof -
    obtain a b where "(a, b) \<in> set (rx_find_all (mask_command command) redirect_op_re 0)" "redirect_target command b = Some target"
      using \<open>target \<in> set _\<close> by (auto simp: bash_redirect_targets_def redirect_targets_mem)
    then show ?thesis using masked_operator [of a b command] by (auto simp: list_ex_iff intro!: bexI [of _ a])
  qed
  ultimately show ?thesis using strict by (simp add: list_all_iff)
qed

subsection \<open>Writes that are not seen\<close>

text \<open>\<open>make >&2024.log\<close> writes a file, but a target that starts with a digit is taken for a descriptor.\<close>

lemma digit_file_missed:
  "redirect_target ''make >&2024.log'' 6 = None \<and> is_mutating_call Some ''bash'' ''make >&2024.log'' = False"
  by code_simp

text \<open>\<open>>|\<close> writes a file too; the bar ends the target before it starts.\<close>

lemma clobber_missed: "is_mutating_call Some ''bash'' ''ls >| out'' = False"
  by code_simp

text \<open>An escaped quote outside quotes opens no span for the shell, but does for the mask.\<close>

lemma escaped_quote_hides_write:
  "is_mutating_call Some ''bash'' (''echo '' @ [backslash, apos] @ '' >f '' @ [backslash, apos]) = False"
  by code_simp

end
