(* ===== verification/CommandKind.thy ===== *)
theory CommandKind
  imports GoLib
begin

text \<open>
  Classifying shell commands as build, test, lint, run or other: internal/toolclass/commands.go.
  The tables are association lists; a key that is missing yields the zero value, as in Go.
\<close>

subsection \<open>strings\<close>

text \<open>\<open>strings.Fields\<close> and \<open>strings.FieldsFunc\<close> with separators of one byte.\<close>

definition starts_space :: "string \<Rightarrow> bool" where
  "starts_space s \<longleftrightarrow> find (\<lambda>w. w \<noteq> [] \<and> has_prefix s w) white_space \<noteq> None"

fun split_field :: "string \<Rightarrow> string \<times> string" where
  "split_field [] = ([], [])"
| "split_field (c # cs) =
     (if starts_space (c # cs) then ([], c # cs) else case split_field cs of (f, rest) \<Rightarrow> (c # f, rest))"

lemma split_field_append: "split_field s = (f, rest) \<Longrightarrow> s = f @ rest"
  by (induction s arbitrary: f rest) (auto split: if_splits prod.splits)

lemma split_field_Nil: "split_field s = ([], rest) \<Longrightarrow> s = [] \<or> starts_space s"
  by (cases s) (auto split: if_splits prod.splits)

lemma trim_front_not_space: "\<not> starts_space (trim_front white_space s)"
  unfolding starts_space_def find_None_prefix [symmetric] using trim_front_clean by (auto simp: find_None_prefix)

lemma field_shorter:
  assumes "split_field (trim_front white_space s) = (f, rest)" "trim_front white_space s \<noteq> []"
  shows "length f + length rest \<le> length s" "f \<noteq> []" "length rest < length s"
proof -
  have "length (trim_front white_space s) \<le> length s"
    using trim_front_suffix [of white_space s] by (auto dest: suffix_length_le)
  then show le: "length f + length rest \<le> length s" using split_field_append [OF assms(1)] by simp
  show "f \<noteq> []" using split_field_Nil assms trim_front_not_space by metis
  then show "length rest < length s" using le by (cases f) auto
qed

function fields :: "string \<Rightarrow> string list" where
  "fields s =
     (let t = trim_front white_space s
      in if t = [] then [] else case split_field t of (f, rest) \<Rightarrow> f # fields rest)"
  by auto
termination
  by (relation "measure length") (auto dest!: sym [of "(_, _)"] dest: field_shorter)

declare fields.simps [simp del]

function fields_func :: "(char \<Rightarrow> bool) \<Rightarrow> string \<Rightarrow> string list" where
  "fields_func p [] = []"
| "fields_func p (c # cs) =
     (if p c then fields_func p cs
      else (c # takeWhile (\<lambda>x. \<not> p x) cs) # fields_func p (dropWhile (\<lambda>x. \<not> p x) cs))"
  by pat_completeness auto
termination by (relation "measure (\<lambda>(p, s). length s)") (auto simp: le_imp_less_Suc length_dropWhile_le)

definition trim_suffix :: "string \<Rightarrow> string \<Rightarrow> string" where
  "trim_suffix s suf = (if has_suffix s suf then take (length s - length suf) s else s)"

definition trim_dashes :: "string \<Rightarrow> string" where
  "trim_dashes s = dropWhile (\<lambda>c. c = CHR ''-'') s"

text \<open>\<open>filepath.Base\<close> on Unix\<close>

definition path_base :: "string \<Rightarrow> string" where
  "path_base p =
     (if p = [] then ''.''
      else let q = rev (dropWhile (\<lambda>c. c = CHR ''/'') (rev p))
           in if q = [] then ''/'' else rev (takeWhile (\<lambda>c. c \<noteq> CHR ''/'') (rev q)))"

subsection \<open>Tables\<close>

definition kind_build :: string where "kind_build = ''build''"
definition kind_test :: string where "kind_test = ''test''"
definition kind_lint :: string where "kind_lint = ''lint''"
definition kind_run :: string where "kind_run = ''run''"
definition kind_other :: string where "kind_other = ''other''"

lemmas kinds = kind_build_def kind_test_def kind_lint_def kind_run_def kind_other_def

definition build_test_commands :: "(string \<times> string list) list" where
  "build_test_commands =
     [(''go'', [''build'', ''test'', ''vet'']), (''cargo'', [''build'', ''test'', ''check'', ''clippy'']),
      (''npm'', [''test'', ''start'']), (''pnpm'', [''test'', ''build'', ''lint'', ''start'', ''dev'']),
      (''yarn'', [''test'', ''build'', ''lint'', ''start'', ''dev'']), (''bun'', [''test'', ''build'', ''start'', ''dev'']),
      (''deno'', [''test'', ''check'', ''lint'']), (''dotnet'', [''build'', ''test'']),
      (''mvn'', [''compile'', ''test'', ''verify'', ''package'']), (''mvnw'', [''compile'', ''test'', ''verify'', ''package'']),
      (''gradle'', [''build'', ''test'', ''check'']), (''gradlew'', [''build'', ''test'', ''check'']),
      (''cmake'', [''--build'']), (''vitest'', [''run'', ''related'', ''typecheck'']),
      (''pytest'', []), (''tsc'', []), (''make'', []), (''task'', []), (''just'', []), (''ctest'', []),
      (''golangci-lint'', []), (''staticcheck'', []), (''jest'', []), (''mocha'', []), (''ava'', []), (''tap'', [])]"

definition run_sub_is_test :: "string list" where "run_sub_is_test = [''vitest'']"

definition package_runners :: "string list" where "package_runners = [''npm'', ''pnpm'', ''yarn'', ''bun'']"

definition build_test_run_targets :: "string list" where
  "build_test_run_targets = [''build'', ''test'', ''lint'', ''check'', ''typecheck'', ''type-check'', ''tsc'', ''ci'']"

definition command_wrappers :: "string list" where
  "command_wrappers =
     [''sudo'', ''doas'', ''env'', ''time'', ''nice'', ''nohup'', ''command'', ''exec'', ''npx'', ''bunx'', ''pnpx'',
      ''timeout'', ''stdbuf'', ''watch'', ''xargs'']"

definition wrapper_flag_args :: "(string \<times> string list) list" where
  "wrapper_flag_args =
     [(''sudo'', [''u'', ''g'', ''h'', ''p'', ''D'', ''R'', ''T'', ''t'', ''U'', ''C'', ''chdir'']), (''doas'', [''u'']),
      (''env'', [''u'', ''unset'', ''C'', ''chdir'', ''S'', ''split-string'', ''P'', ''alternate-argv'']),
      (''nice'', [''n'', ''adjustment'']), (''nohup'', []), (''command'', []), (''exec'', []),
      (''time'', [''o'', ''f'', ''output'', ''format'']), (''npx'', [''p'', ''package'', ''c'', ''call'']),
      (''bunx'', [''b'', ''bun'', ''p'', ''package'']), (''pnpx'', [''p'', ''package'']),
      (''timeout'', [''k'', ''kill-after'', ''s'', ''signal'']),
      (''stdbuf'', [''i'', ''input'', ''o'', ''output'', ''e'', ''error'']), (''watch'', [''n'', ''interval'']),
      (''xargs'', [''I'', ''replace'', ''n'', ''max-args'', ''P'', ''max-procs'', ''s'', ''max-chars'', ''d'', ''delimiter'', ''L'', ''max-lines''])]"

definition wrapper_positional_args :: "string \<Rightarrow> nat" where
  "wrapper_positional_args w = (if w = ''timeout'' then 1 else 0)"

definition bare_command_kinds :: "(string \<times> string) list" where
  "bare_command_kinds =
     [(''pytest'', kind_test), (''ctest'', kind_test), (''jest'', kind_test), (''mocha'', kind_test), (''ava'', kind_test),
      (''tap'', kind_test), (''tsc'', kind_lint), (''golangci-lint'', kind_lint), (''staticcheck'', kind_lint),
      (''make'', kind_build), (''task'', kind_build), (''just'', kind_build)]"

definition bare_tool_flag_args :: "(string \<times> string list) list" where
  "bare_tool_flag_args =
     [(''make'', [''C'', ''f'', ''I'', ''j'', ''l'', ''o'', ''O'', ''W'', ''directory'', ''file'', ''makefile'', ''include-dir'', ''jobs'',
         ''old-file'', ''new-file'', ''what-if'', ''output-sync'']),
      (''task'', [''t'', ''taskfile'', ''d'', ''dir'', ''c'', ''concurrency'', ''o'', ''output'', ''sort'']),
      (''just'', [''f'', ''justfile'', ''d'', ''working-directory'', ''set'', ''shell'', ''shell-arg'', ''chooser'', ''dotenv-path'',
         ''dotenv-filename''])]"

definition subcommand_kinds :: "(string \<times> string) list" where
  "subcommand_kinds =
     [(''build'', kind_build), (''--build'', kind_build), (''compile'', kind_build), (''package'', kind_build), (''test'', kind_test),
      (''ci'', kind_test), (''verify'', kind_test), (''lint'', kind_lint), (''check'', kind_lint), (''clippy'', kind_lint),
      (''vet'', kind_lint), (''typecheck'', kind_lint), (''type-check'', kind_lint), (''tsc'', kind_lint), (''related'', kind_test),
      (''start'', kind_run), (''dev'', kind_run), (''serve'', kind_run)]"

text \<open>Indexing a map of string lists or strings.\<close>

definition values_of :: "(string \<times> string list) list \<Rightarrow> string \<Rightarrow> string list" where
  "values_of m k = (case map_of m k of None \<Rightarrow> [] | Some vs \<Rightarrow> vs)"

definition kind_of :: "(string \<times> string) list \<Rightarrow> string \<Rightarrow> string" where
  "kind_of m k = (case map_of m k of None \<Rightarrow> '''' | Some v \<Rightarrow> v)"

subsection \<open>Segments\<close>

definition env_name_byte :: "char \<Rightarrow> bool" where
  "env_name_byte c \<longleftrightarrow>
     (let n = of_char c :: nat in 97 \<le> n \<and> n \<le> 122 \<or> 65 \<le> n \<and> n \<le> 90 \<or> 48 \<le> n \<and> n \<le> 57 \<or> n = 95)"

definition is_env_assignment :: "string \<Rightarrow> bool" where
  "is_env_assignment f \<longleftrightarrow>
     \<not> has_prefix f ''-'' \<and> CHR ''='' \<in> set f \<and>
     (let name = takeWhile (\<lambda>c. c \<noteq> CHR ''='') f in name \<noteq> [] \<and> list_all env_name_byte name)"

text \<open>The loop over the leading fields; \<open>wrapper\<close> is empty before the first wrapper.\<close>

function strip_wrappers :: "string \<Rightarrow> nat \<Rightarrow> string list \<Rightarrow> string list" where
  "strip_wrappers wrapper skip [] = []"
| "strip_wrappers wrapper skip (f # fs) =
     (if is_env_assignment f then strip_wrappers wrapper skip fs
      else if f \<in> set command_wrappers then strip_wrappers f (skip + wrapper_positional_args f) fs
      else if wrapper \<noteq> '''' \<and> has_prefix f ''-''
      then strip_wrappers wrapper skip (if trim_dashes f \<in> set (values_of wrapper_flag_args wrapper) \<and> fs \<noteq> [] then tl fs else fs)
      else if wrapper \<noteq> '''' \<and> 0 < skip then strip_wrappers wrapper (skip - 1) fs
      else f # fs)"
  by pat_completeness auto
termination by (relation "measure (\<lambda>(_, _, fs). length fs)") auto

definition segment_break :: "char \<Rightarrow> bool" where
  "segment_break c \<longleftrightarrow> c \<in> set '';&|'' \<or> c = CHR 0x0A"

definition command_segments :: "string \<Rightarrow> string list list" where
  "command_segments command = map (\<lambda>seg. strip_wrappers '''' 0 (fields seg)) (fields_func segment_break command)"

subsection \<open>Build, test and lint tools\<close>

definition tool_name :: "string \<Rightarrow> string" where
  "tool_name f = trim_suffix (path_base f) ''.exe''"

text \<open>What one segment of the loop comes to.\<close>

datatype segment_verdict = NextSegment | Answer "string \<times> string" | Passthrough "string list"

definition segment_verdict_of :: "string list \<Rightarrow> segment_verdict" where
  "segment_verdict_of fs =
     (case fs of
        [] \<Rightarrow> NextSegment
      | f # args \<Rightarrow>
          let name = tool_name f
          in if name \<in> set package_runners \<and> args \<noteq> [] \<and>
                (hd args = ''dlx'' \<or> hd args = ''exec'' \<or> name = ''bun'' \<and> hd args = ''x'')
             then (let rest = dropWhile (\<lambda>a. has_prefix a ''-'') (tl args)
                   in if rest = [] then NextSegment else Passthrough rest)
             else case map_of build_test_commands name of
               None \<Rightarrow> NextSegment
             | Some subs \<Rightarrow>
                 if subs = [] then Answer (name, '''')
                 else (case args of
                   [] \<Rightarrow> NextSegment
                 | sub # more \<Rightarrow>
                     if sub = ''run'' \<or> sub = ''exec''
                     then if name \<in> set run_sub_is_test then Answer (name, ''test'')
                          else if more \<noteq> [] \<and> hd more \<in> set build_test_run_targets then Answer (name, hd more)
                          else NextSegment
                     else if sub \<in> set subs then Answer (name, sub)
                     else NextSegment))"

fun first_verdict :: "string list list \<Rightarrow> segment_verdict" where
  "first_verdict [] = NextSegment"
| "first_verdict (fs # segs) =
     (case segment_verdict_of fs of NextSegment \<Rightarrow> first_verdict segs | v \<Rightarrow> v)"
lemma fields_Nil: "trim_front white_space s = [] \<Longrightarrow> fields s = []"
  by (subst fields.simps) simp

lemma fields_Cons:
  "trim_front white_space s \<noteq> [] \<Longrightarrow> split_field (trim_front white_space s) = (f, rest) \<Longrightarrow> fields s = f # fields rest"
  by (subst fields.simps) simp

text \<open>Joining the fields again gives no longer a string.\<close>

lemma trim_front_shorter:
  assumes "starts_space s"
  shows "length (trim_front white_space s) < length s"
proof -
  obtain w where w: "find (\<lambda>w. w \<noteq> [] \<and> has_prefix s w) white_space = Some w"
    using assms by (auto simp: starts_space_def)
  then have "w \<noteq> []" "prefix w s" by (auto simp: find_Some_iff has_prefix_iff)
  then have less: "length (drop (length w) s) < length s" using prefix_length_le by (cases w) fastforce+
  have "length (trim_front white_space s) = length (trim_front white_space (drop (length w) s))"
    using w by (subst trim_front.simps) simp
  also have "\<dots> \<le> length (drop (length w) s)" by (rule suffix_length_le [OF trim_front_suffix])
  also note less
  finally show ?thesis .
qed

lemma split_field_rest: "split_field s = (f, rest) \<Longrightarrow> rest = [] \<or> starts_space rest"
  by (induction s arbitrary: f) (auto split: if_splits prod.splits)

lemma length_join_Cons: "length (join_with [c] (f # fs)) = length f + (if fs = [] then 0 else Suc (length (join_with [c] fs)))"
  by (cases fs) auto

lemma fields_length: "length (join_with [c] (fields s)) \<le> length (trim_front white_space s)"
proof (induction s rule: fields.induct)
  case (1 s)
  show ?case
  proof (cases "trim_front white_space s = []")
    case False
    obtain f rest where sf: "split_field (trim_front white_space s) = (f, rest)" by fastforce
    have ih: "length (join_with [c] (fields rest)) \<le> length (trim_front white_space rest)"
      using "1.IH" [OF refl False sf [symmetric]] by auto
    have "fields rest \<noteq> [] \<Longrightarrow> length (trim_front white_space rest) < length rest"
      using split_field_rest [OF sf] trim_front_shorter [of rest] trim_front_suffix [of white_space rest] fields_Nil [of rest]
      by auto
    moreover have "length (trim_front white_space s) = length f + length rest"
      using split_field_append [OF sf] by (metis length_append)
    ultimately show ?thesis using ih by (auto simp: fields_Cons [OF False sf] length_join_Cons)
  qed (simp add: fields_Nil)
qed

lemma strip_wrappers_suffix: "suffix (strip_wrappers wrapper skip fs) fs"
proof (induction wrapper skip fs rule: strip_wrappers.induct)
  case (2 wrapper skip f fs)
  have drop: "suffix xs fs \<Longrightarrow> suffix xs (f # fs)" for xs by (rule suffix_ConsI)
  have tl: "suffix xs (tl fs) \<Longrightarrow> suffix xs (f # fs)" for xs by (rule drop) (rule suffix_order.trans [OF _ suffix_tl])
  show ?case using 2 by (cases "is_env_assignment f") (auto simp: Let_def intro: drop tl)
qed simp

lemma fields_func_length: "seg \<in> set (fields_func p s) \<Longrightarrow> length seg \<le> length s"
proof (induction p s rule: fields_func.induct)
  case (2 p c cs)
  then show ?case
    using length_takeWhile_le [of "\<lambda>x. \<not> p x" cs] length_dropWhile_le [of "\<lambda>x. \<not> p x" cs] by (auto split: if_splits)
qed simp

lemma join_suffix_length: "suffix xs ys \<Longrightarrow> length (join_with sep xs) \<le> length (join_with sep ys)"
  using join_with_drop_suffix [of sep "length ys - length xs" ys] by (auto simp: suffix_def)

text \<open>What a package runner passes on is shorter than the command it stood in.\<close>

lemma passthrough_shorter:
  assumes "first_verdict (command_segments command) = Passthrough rest"
  shows "length (join_with [c] rest) < length command"
proof -
  have "\<exists>fs\<in>set segs. segment_verdict_of fs = Passthrough rest" if "first_verdict segs = Passthrough rest" for segs
    using that by (induction segs) (auto split: segment_verdict.splits)
  then obtain fs where "fs \<in> set (command_segments command)" and v: "segment_verdict_of fs = Passthrough rest"
    using assms by blast
  then obtain seg where seg: "seg \<in> set (fields_func segment_break command)" "fs = strip_wrappers '''' 0 (fields seg)"
    by (auto simp: command_segments_def)
  from v have "\<exists>f sub args. fs = f # sub # args \<and> suffix rest args \<and> rest \<noteq> []"
    by (cases fs; cases "tl fs")
      (auto simp: segment_verdict_of_def Let_def suffix_dropWhile dropWhile_eq_Nil_conv split: if_splits option.splits list.splits)
  then obtain f sub args where fs: "fs = f # sub # args" and rest: "suffix rest args" "rest \<noteq> []" by blast
  have suf: "suffix (f # sub # args) (fields seg)" using strip_wrappers_suffix [of "''''" 0 "fields seg"] seg(2) fs by simp
  have "args \<noteq> []" using rest by auto
  then have "length (join_with [c] args) < length (join_with [c] (f # sub # args))" by (simp add: length_join_Cons)
  also have "\<dots> \<le> length (join_with [c] (fields seg))" by (rule join_suffix_length [OF suf])
  also have "\<dots> \<le> length seg" using fields_length [of c seg] suffix_length_le [OF trim_front_suffix] by (meson order.trans)
  also have "\<dots> \<le> length command" by (rule fields_func_length [OF seg(1)])
  finally show ?thesis using join_suffix_length [OF rest(1)] by (meson order.strict_trans1)
qed

function match_build_test :: "string \<Rightarrow> (string \<times> string) option" where
  "match_build_test command =
     (case first_verdict (command_segments command) of
        NextSegment \<Rightarrow> None
      | Answer a \<Rightarrow> Some a
      | Passthrough rest \<Rightarrow> match_build_test (join_with '' '' rest))"
  by auto
termination by (relation "measure length") (auto dest: passthrough_shorter)

declare match_build_test.simps [simp del]

definition is_build_or_test_command :: "string \<Rightarrow> bool" where
  "is_build_or_test_command command \<longleftrightarrow> match_build_test command \<noteq> None"

subsection \<open>The kind\<close>

text \<open>The first argument of a bare tool that names a kind; values of flags are passed over.\<close>

function args_kind :: "string list \<Rightarrow> string list \<Rightarrow> string" where
  "args_kind flag_args [] = ''''"
| "args_kind flag_args (a # as) =
     (if has_prefix a ''-'' then args_kind flag_args (if trim_dashes a \<in> set flag_args then drop 1 as else as)
      else if kind_of subcommand_kinds a \<noteq> '''' then kind_of subcommand_kinds a
      else args_kind flag_args as)"
  by pat_completeness auto
termination by (relation "measure (\<lambda>(_, as). length as)") auto

fun bare_loop :: "string \<Rightarrow> string list list \<Rightarrow> string" where
  "bare_loop name [] = ''''"
| "bare_loop name (fs # segs) =
     (case fs of
        f # a # as \<Rightarrow>
          if tool_name f \<noteq> name then bare_loop name segs
          else let k = args_kind (values_of bare_tool_flag_args name) (a # as)
               in if k \<noteq> '''' then k else bare_loop name segs
      | _ \<Rightarrow> bare_loop name segs)"

definition bare_subcommand_kind :: "string \<Rightarrow> string \<Rightarrow> string" where
  "bare_subcommand_kind command name =
     (if map_of bare_command_kinds name = None then '''' else bare_loop name (command_segments command))"

definition command_kind :: "string \<Rightarrow> string" where
  "command_kind command =
     (case match_build_test command of
        Some (name, sub) \<Rightarrow>
          if sub = ''''
          then (let k = bare_subcommand_kind command name in if k \<noteq> '''' then k else kind_of bare_command_kinds name)
          else kind_of subcommand_kinds sub
      | None \<Rightarrow>
          if list_ex (\<lambda>fs. 2 \<le> length fs \<and> (fs ! 1 = ''run'' \<or> fs ! 1 = ''exec'')) (command_segments command) then kind_run
          else kind_other)"
subsection \<open>Every command has a kind\<close>

text \<open>The tables fit together: each subcommand and each bare tool has a kind.\<close>

lemma tables_complete:
  "list_all (\<lambda>(name, subs). (if subs = [] then kind_of bare_command_kinds name \<in> {kind_build, kind_test, kind_lint}
      else list_all (\<lambda>s. s = ''run'' \<or> s \<noteq> '''' \<and> kind_of subcommand_kinds s \<in> {kind_build, kind_test, kind_lint, kind_run}) subs))
     build_test_commands"
  "list_all (\<lambda>s. s \<noteq> '''' \<and> kind_of subcommand_kinds s \<in> {kind_build, kind_test, kind_lint, kind_run}) build_test_run_targets"
  "kind_of subcommand_kinds ''test'' = kind_test"
  by code_simp+

definition classified :: "string \<times> string \<Rightarrow> bool" where
  "classified a \<longleftrightarrow>
     (case a of (name, sub) \<Rightarrow>
        if sub = '''' then kind_of bare_command_kinds name \<in> {kind_build, kind_test, kind_lint}
        else kind_of subcommand_kinds sub \<in> {kind_build, kind_test, kind_lint, kind_run})"

lemma segment_answer_classified:
  assumes "segment_verdict_of fs = Answer a"
  shows "classified a"
proof -
  obtain f args where fs: "fs = f # args" using assms by (cases fs) (auto simp: segment_verdict_of_def)
  from assms obtain subs where subs: "map_of build_test_commands (tool_name f) = Some subs"
    by (auto simp: fs segment_verdict_of_def Let_def split: if_splits option.splits)
  then have entry: "(tool_name f, subs) \<in> set build_test_commands" by (rule map_of_SomeD)
  show ?thesis
  proof (cases "subs = []")
    case True
    then have "a = (tool_name f, '''')" using assms subs by (auto simp: fs segment_verdict_of_def Let_def split: if_splits)
    then show ?thesis using tables_complete(1) entry True by (auto simp: list_all_iff classified_def)
  next
    case False
    then obtain sub more where args: "args = sub # more"
      and a: "a = (tool_name f, ''test'') \<or> a = (tool_name f, hd more) \<and> hd more \<in> set build_test_run_targets \<or>
        a = (tool_name f, sub) \<and> sub \<in> set subs \<and> sub \<noteq> ''run''"
      using assms subs by (auto simp: fs segment_verdict_of_def Let_def split: if_splits list.splits)
    have known: "s \<noteq> '''' \<and> kind_of subcommand_kinds s \<in> {kind_build, kind_test, kind_lint, kind_run}"
      if "s \<in> set subs" "s \<noteq> ''run''" for s
      using tables_complete(1) entry False that by (fastforce simp: list_all_iff)
    from a show ?thesis
      using known tables_complete(2,3) by (auto simp: classified_def list_all_iff)
  qed
qed

lemma first_verdict_answer: "first_verdict segs = Answer a \<Longrightarrow> classified a"
  by (induction segs) (auto split: segment_verdict.splits dest: segment_answer_classified)

lemma match_classified: "match_build_test command = Some a \<Longrightarrow> classified a"
proof (induction command rule: match_build_test.induct)
  case (1 command)
  show ?case
  proof (cases "first_verdict (command_segments command)")
    case NextSegment
    then show ?thesis using "1.prems" by (subst (asm) match_build_test.simps) simp
  next
    case (Answer b)
    then have "b = a" using "1.prems" by (subst (asm) match_build_test.simps) simp
    then show ?thesis using first_verdict_answer Answer by simp
  next
    case (Passthrough rest)
    then have "match_build_test (join_with '' '' rest) = Some a" using "1.prems" by (subst (asm) match_build_test.simps) simp
    then show ?thesis using "1.IH" Passthrough by simp
  qed
qed

definition maybe_kind :: "string \<Rightarrow> bool" where
  "maybe_kind k \<longleftrightarrow> k \<in> {'''', kind_build, kind_test, kind_lint, kind_run}"

lemma maybe_kind_Nil [simp]: "maybe_kind ''''" by (simp add: maybe_kind_def)

lemma kind_of_subcommand: "maybe_kind (kind_of subcommand_kinds s)"
proof (cases "map_of subcommand_kinds s")
  case (Some k)
  have "list_all (\<lambda>(s, k). k \<in> {kind_build, kind_test, kind_lint, kind_run}) subcommand_kinds" by code_simp
  then show ?thesis using map_of_SomeD [OF Some] by (auto simp: kind_of_def Some list_all_iff maybe_kind_def)
qed (simp add: kind_of_def)

lemma args_kind_known: "maybe_kind (args_kind flag_args as)"
proof (induction flag_args as rule: args_kind.induct)
  case (2 flag_args a as)
  then show ?case using kind_of_subcommand [of a] by simp
qed simp

lemma bare_loop_known: "maybe_kind (bare_loop name segs)"
  by (induction segs) (simp_all add: Let_def args_kind_known del: args_kind.simps split: list.split)

text \<open>The segments that launch something: \<open>run\<close> or \<open>exec\<close> in second place.\<close>

definition launches :: "string \<Rightarrow> bool" where
  "launches command \<longleftrightarrow> list_ex (\<lambda>fs. 2 \<le> length fs \<and> fs ! 1 \<in> {''run'', ''exec''}) (command_segments command)"

text \<open>
  C40: every command has one of the five kinds. It is \<open>other\<close> exactly if no segment invokes a known
  build, test or lint tool and none launches anything; a command of a known tool always gets a kind
  of its own, whichever tables decide it.
\<close>

theorem command_kind_known:
  "command_kind command \<in> {kind_build, kind_test, kind_lint, kind_run, kind_other} \<and>
   (command_kind command = kind_other \<longleftrightarrow> \<not> is_build_or_test_command command \<and> \<not> launches command)"
proof (cases "match_build_test command")
  case None
  then show ?thesis by (auto simp: command_kind_def is_build_or_test_command_def launches_def kinds)
next
  case (Some a)
  obtain name sub where a: "a = (name, sub)" by (cases a)
  have "command_kind command \<in> {kind_build, kind_test, kind_lint, kind_run}"
    using match_classified [OF Some] bare_loop_known [of name "command_segments command"] Some
    by (auto simp: a command_kind_def classified_def bare_subcommand_kind_def maybe_kind_def Let_def split: if_splits)
  then show ?thesis using Some by (auto simp: is_build_or_test_command_def kinds)
qed

lemma command_kind_examples:
  "command_kind ''cd x && CGO_ENABLED=0 go test ./...'' = kind_test"
  "command_kind ''timeout 60 pnpm dlx vitest run'' = kind_test"
  "command_kind ''make -C dir lint'' = kind_lint"
  "command_kind ''npm run dev'' = kind_run"
  "command_kind ''git status'' = kind_other"
  by code_simp+

end
