(* ===== verification/LoopDetection.thy ===== *)
theory LoopDetection
  imports Toolclass
begin

text \<open>
  The steps of a finished run and the loop detectors over them: internal/agent/loop_detection.go,
  the step scans of run_edges.go and the stop conditions of agent.go. A step is seen through what
  these functions read of it: its tool calls, its tool results and its finish reason. A result has its tool's name and metadata. SHA-256 with
  the hex encoding is the argument \<open>hash\<close>, \<open>toolclass.IsMutatingCall\<close> the argument
  \<open>mutating\<close>.
\<close>

subsection \<open>Steps\<close>

datatype output_content = OutText string | OutError "string option" | OutMedia string

record call_content =
  cc_id :: string
  cc_name :: string
  cc_input :: string

record result_content =
  rc_call_id :: string
  rc_name :: string
  rc_metadata :: string
  rc_output :: "output_content option"
  rc_stop_turn :: bool

datatype step_finish = FinishStop | FinishToolCalls | FinishOther string

record step_result =
  st_calls :: "call_content list"
  st_results :: "result_content list"
  st_finish :: step_finish

subsection \<open>Writes\<close>

definition step_has_mutating_call :: "(string \<Rightarrow> string \<Rightarrow> bool) \<Rightarrow> step_result \<Rightarrow> bool" where
  "step_has_mutating_call mutating s \<longleftrightarrow> list_ex (\<lambda>c. mutating (cc_name c) (cc_input c)) (st_calls s)"

definition verify_loop_min_steps :: nat where "verify_loop_min_steps = 8"

text \<open>The loops run from the last step back; both get the reversed list.\<close>

fun verify_streak :: "(string \<Rightarrow> string \<Rightarrow> bool) \<Rightarrow> step_result list \<Rightarrow> bool \<times> nat" where
  "verify_streak mutating [] = (False, 0)"
| "verify_streak mutating (s # ss) =
     (if step_has_mutating_call mutating s then (True, 0)
      else let (saw_write, streak) = verify_streak mutating ss in (saw_write, Suc streak))"

definition has_post_write_verify_streak :: "(string \<Rightarrow> string \<Rightarrow> bool) \<Rightarrow> step_result list \<Rightarrow> bool" where
  "has_post_write_verify_streak mutating steps =
     (let (saw_write, streak) = verify_streak mutating (rev steps)
      in saw_write \<and> streak \<ge> verify_loop_min_steps)"

definition post_write_streak_len :: "(string \<Rightarrow> string \<Rightarrow> bool) \<Rightarrow> step_result list \<Rightarrow> nat" where
  "post_write_streak_len mutating steps =
     length (takeWhile (\<lambda>s. \<not> step_has_mutating_call mutating s) (rev steps))"

definition run_has_mutating_call :: "(string \<Rightarrow> string \<Rightarrow> bool) \<Rightarrow> step_result list \<Rightarrow> bool" where
  "run_has_mutating_call mutating steps \<longleftrightarrow> list_ex (step_has_mutating_call mutating) steps"

definition dedup_append :: "string list \<Rightarrow> string \<Rightarrow> string list" where
  "dedup_append out p = (if p \<in> set out then out else out @ [p])"

definition post_write_streak_tools :: "(string \<Rightarrow> string \<Rightarrow> bool) \<Rightarrow> step_result list \<Rightarrow> string list" where
  "post_write_streak_tools mutating steps =
     foldl dedup_append [] (concat (map (map cc_name \<circ> st_calls)
       (drop (length steps - post_write_streak_len mutating steps) steps)))"

text \<open>\<open>scanStepCallClasses\<close>: mutating calls, other calls, and the reads among those.\<close>

definition class_step :: "(string \<Rightarrow> string \<Rightarrow> bool) \<Rightarrow> nat \<times> nat \<times> nat \<Rightarrow> call_content \<Rightarrow> nat \<times> nat \<times> nat" where
  "class_step mutating acc c =
     (case acc of (m, e, r) \<Rightarrow>
        if mutating (cc_name c) (cc_input c) then (m + 1, e, r)
        else (m, e + 1, if cc_name c \<in> set read_tool_names then r + 1 else r))"

definition scan_step_call_classes :: "(string \<Rightarrow> string \<Rightarrow> bool) \<Rightarrow> step_result list \<Rightarrow> nat \<times> nat \<times> nat" where
  "scan_step_call_classes mutating steps = foldl (class_step mutating) (0, 0, 0) (concat (map st_calls steps))"

subsection \<open>Repeated interactions\<close>

definition tool_result_output_string :: "output_content option \<Rightarrow> string" where
  "tool_result_output_string r =
     (case r of
        None \<Rightarrow> ''''
      | Some (OutText t) \<Rightarrow> t
      | Some (OutError e) \<Rightarrow> (case e of None \<Rightarrow> '''' | Some m \<Rightarrow> m)
      | Some (OutMedia d) \<Rightarrow> d)"

definition results_by_id :: "step_result \<Rightarrow> (string, result_content) gomap" where
  "results_by_id s = foldl (\<lambda>m r. AList.update (rc_call_id r) r m) [] (st_results s)"

definition call_output :: "step_result \<Rightarrow> call_content \<Rightarrow> string" where
  "call_output s c =
     (case map_of (results_by_id s) (cc_id c) of None \<Rightarrow> '''' | Some r \<Rightarrow> tool_result_output_string (rc_output r))"

definition nul :: string where "nul = [CHR 0x00]"

definition interaction_text :: "step_result \<Rightarrow> string" where
  "interaction_text s =
     concat (map (\<lambda>c. cc_name c @ nul @ cc_input c @ nul @ call_output s c @ nul) (st_calls s))"

definition get_tool_interaction_signature :: "(string \<Rightarrow> string) \<Rightarrow> step_result \<Rightarrow> string" where
  "get_tool_interaction_signature hash s = (if st_calls s = [] then '''' else hash (interaction_text s))"

definition first_tool_call_name :: "step_result \<Rightarrow> string" where
  "first_tool_call_name s = (case st_calls s of [] \<Rightarrow> '''' | c # _ \<Rightarrow> cc_name c)"

definition loop_detection_window_size :: nat where "loop_detection_window_size = 10"
definition loop_detection_max_repeats :: nat where "loop_detection_max_repeats = 5"

text \<open>The body of the loop over the window: counts, first names and the winner (empty: none yet).\<close>

type_synonym sig_state = "(string, nat) gomap \<times> (string, string) gomap \<times> string"

definition sig_step :: "(string \<Rightarrow> string) \<Rightarrow> nat \<Rightarrow> sig_state \<Rightarrow> step_result \<Rightarrow> sig_state" where
  "sig_step hash max_repeats acc s =
     (case acc of (counts, tools, winner) \<Rightarrow>
        let g = get_tool_interaction_signature hash s
        in if g = '''' then acc
           else let n = (case map_of counts g of None \<Rightarrow> 0 | Some k \<Rightarrow> k) + 1
                in (AList.update g n counts,
                    if map_of tools g = None then AList.update g (first_tool_call_name s) tools else tools,
                    if winner = '''' \<and> n > max_repeats then g else winner))"

definition repeated_tool_signature :: "(string \<Rightarrow> string) \<Rightarrow> step_result list \<Rightarrow> nat \<Rightarrow> nat \<Rightarrow> string \<times> string \<times> nat" where
  "repeated_tool_signature hash steps window_size max_repeats =
     (if length steps < window_size then ('''', '''', 0)
      else let (counts, tools, winner) =
             foldl (sig_step hash max_repeats) ([], [], '''') (drop (length steps - window_size) steps)
           in if winner = '''' then ('''', '''', 0)
              else (winner, (case map_of tools winner of None \<Rightarrow> '''' | Some t \<Rightarrow> t),
                            (case map_of counts winner of None \<Rightarrow> 0 | Some n \<Rightarrow> n)))"

definition has_repeated_tool_calls :: "(string \<Rightarrow> string) \<Rightarrow> step_result list \<Rightarrow> nat \<Rightarrow> nat \<Rightarrow> bool" where
  "has_repeated_tool_calls hash steps window_size max_repeats \<longleftrightarrow>
     fst (repeated_tool_signature hash steps window_size max_repeats) \<noteq> ''''"

subsection \<open>Stop conditions\<close>

text \<open>
  The stop conditions of a run, evaluated in order after each step until one holds: summarising
  (\<open>summarize\<close>), repeated interactions, the verify streak, step caps. The result says whether the
  run stops and which detector stopped it.
\<close>

record stop_flags =
  sf_stop :: bool
  sf_stalled :: bool
  sf_verify_loop :: bool

definition stop_when :: "(string \<Rightarrow> string) \<Rightarrow> (string \<Rightarrow> string \<Rightarrow> bool) \<Rightarrow> bool \<Rightarrow> bool \<Rightarrow> step_result list \<Rightarrow> stop_flags" where
  "stop_when hash mutating summarize capped steps =
     (if summarize then \<lparr>sf_stop = True, sf_stalled = False, sf_verify_loop = False\<rparr>
      else if has_repeated_tool_calls hash steps loop_detection_window_size loop_detection_max_repeats
      then \<lparr>sf_stop = True, sf_stalled = True, sf_verify_loop = False\<rparr>
      else if has_post_write_verify_streak mutating steps
      then \<lparr>sf_stop = True, sf_stalled = False, sf_verify_loop = True\<rparr>
      else \<lparr>sf_stop = capped, sf_stalled = False, sf_verify_loop = False\<rparr>)"

subsection \<open>What the detectors see\<close>

lemma verify_streak_eq:
  "verify_streak mutating ss =
     (list_ex (step_has_mutating_call mutating) ss, length (takeWhile (\<lambda>s. \<not> step_has_mutating_call mutating s) ss))"
  by (induction ss) (auto split: prod.splits)

lemma verify_streak_iff:
  "has_post_write_verify_streak mutating steps \<longleftrightarrow>
     run_has_mutating_call mutating steps \<and> verify_loop_min_steps \<le> post_write_streak_len mutating steps"
  by (auto simp: has_post_write_verify_streak_def verify_streak_eq run_has_mutating_call_def post_write_streak_len_def
      list_ex_iff split: prod.splits)

















end
