(* ===== verification/RunEdges.thy ===== *)
theory RunEdges
  imports Message LoopDetection "HOL-Library.Signed_Division"
begin

text \<open>
  The run-boundary edges: \<open>runEdges\<close> and what it calls in internal/agent/run_edges.go. After a run
  ends, every edge scans the finished run, resolves its own evidence and may ask for one more turn;
  the firing edges share one retry and a budget, and every verdict is a row of the firing table.

  An edge is a record of functions, as in the code. The world is what they read and write besides:
  the final assistant message, the reconcile marks and a part \<open>aw_env\<close> the engine never looks at.
  The context is an argument \<open>err\<close>: it says at which of the places that ask \<open>ctx.Err()\<close> the run is
  already cancelled. The retry is put in front of the session's queue under the session's lock.
\<close>

subsection \<open>Triggers, edges, calls\<close>

datatype edge_outcome = Fired | Suppressed | Exhausted | Degraded | Gated | Deferred | Cleared | Cancelled

fun outcome_str :: "edge_outcome \<Rightarrow> string" where
  "outcome_str Fired = ''fired''"
| "outcome_str Suppressed = ''suppressed''"
| "outcome_str Exhausted = ''exhausted''"
| "outcome_str Degraded = ''headless-degraded''"
| "outcome_str Gated = ''gated''"
| "outcome_str Deferred = ''deferred''"
| "outcome_str Cleared = ''cleared''"
| "outcome_str Cancelled = ''cancelled''"

datatype edge_family = RetryFamily | EscalateFamily

text \<open>
  \<open>tg_evidence\<close> is what only the edge itself reads; \<open>tg_commit\<close> are the marks that
  \<open>commit\<close> stores when the prompt lands.
\<close>

record 'e edge_trigger =
  tg_fire :: bool
  tg_family :: edge_family
  tg_variant :: string
  tg_hint :: "edge_outcome option"
  tg_detail :: string
  tg_session_state :: bool
  tg_report :: string
  tg_commit :: "string list"
  tg_evidence :: 'e

type_synonym 'e edge_note = "'e edge_trigger \<Rightarrow> nat \<Rightarrow> string"

record 'e deferred_trigger =
  df_edge :: string
  df_note :: "'e edge_note option"
  df_trigger :: "'e edge_trigger"

record 'e agent_call =
  ac_session :: string
  ac_prompt :: string
  ac_non_interactive :: bool
  ac_accepted :: bool
  ac_accept_seq :: u64
  ac_repair_attempts :: nat
  ac_run_stamp :: u64
  ac_deferred :: "'e deferred_trigger list"
  ac_burn_watched :: bool

text \<open>\<open>ri_steps\<close> is \<open>None\<close> when there is no result.\<close>

record edge_input =
  ri_steps :: "step_result list option"
  ri_input_tokens :: int
  ri_stalled :: bool
  ri_verify_loop :: bool
  ri_turn_seq :: int
  ri_started_at :: int

definition result_steps :: "edge_input \<Rightarrow> step_result list" where
  "result_steps i = (case ri_steps i of None \<Rightarrow> [] | Some ss \<Rightarrow> ss)"

text \<open>\<open>aw_assistant\<close> is \<open>None\<close> when the run wrote no assistant message.\<close>

record 'x agent_world =
  aw_assistant :: "message option"
  aw_seen :: "string list"
  aw_env :: 'x

record ('x, 'e) run_edge =
  ed_name :: string
  ed_scan :: "'x agent_world \<Rightarrow> 'e agent_call \<Rightarrow> edge_input \<Rightarrow> 'e edge_trigger option"
  ed_resolve :: "('x agent_world \<Rightarrow> 'e agent_call \<Rightarrow> 'e edge_trigger \<Rightarrow> 'x agent_world \<times> 'e edge_trigger) option"
  ed_prompt :: "'e edge_trigger \<Rightarrow> string"
  ed_note :: "'e edge_note option"

record firing_row =
  fr_session :: string
  fr_turn_seq :: int
  fr_edge :: string
  fr_repair_attempts :: nat
  fr_outcome :: edge_outcome
  fr_run_stamp :: int
  fr_variant :: string
  fr_detail :: string

record ('x, 'e) boundary =
  bd_world :: "'x agent_world"
  bd_rows :: "firing_row list"
  bd_stats :: "(string, nat) gomap"
  bd_queue :: "'e agent_call list"

text \<open>
  What the agent was built with: a configuration, a firing store (whose inserts can fail) and the
  counters.
\<close>

record edge_config =
  ec_config :: bool
  ec_store :: bool
  ec_insert_fails :: "string \<Rightarrow> bool"
  ec_stats :: bool

text \<open>The places where the code asks whether the context is dead.\<close>

datatype check_point = AtEntry | AfterScan string | AfterResolve string | BeforeEnqueue | AtEnqueue

definition max_repair_attempts :: nat where "max_repair_attempts = 2"

subsection \<open>Clean stops\<close>

definition clean_stop :: "edge_input \<Rightarrow> bool" where
  "clean_stop i \<longleftrightarrow> result_steps i \<noteq> [] \<and>
     st_finish (last (result_steps i)) = FinishStop \<and>
     \<not> list_ex rc_stop_turn (st_results (last (result_steps i)))"

definition ended_on_stop_turn :: "edge_input \<Rightarrow> bool" where
  "ended_on_stop_turn i \<longleftrightarrow> result_steps i \<noteq> [] \<and> list_ex rc_stop_turn (st_results (last (result_steps i)))"

subsection \<open>Recording a verdict\<close>

definition firing_turn_seq :: "'e agent_call \<Rightarrow> edge_input \<Rightarrow> int" where
  "firing_turn_seq call i =
     (if ri_turn_seq i = 0 \<and> ac_run_stamp call \<noteq> 0
      then - ((sint (ac_run_stamp call) smod 2 ^ 40) * 4 + int (ac_repair_attempts call))
      else ri_turn_seq i)"

definition firing_of :: "'e agent_call \<Rightarrow> edge_input \<Rightarrow> string \<Rightarrow> 'e edge_trigger option \<Rightarrow> edge_outcome \<Rightarrow> firing_row" where
  "firing_of call i name t outcome =
     \<lparr>fr_session = ac_session call, fr_turn_seq = firing_turn_seq call i, fr_edge = name,
      fr_repair_attempts = ac_repair_attempts call, fr_outcome = outcome, fr_run_stamp = sint (ac_run_stamp call),
      fr_variant = (case t of None \<Rightarrow> '''' | Some t \<Rightarrow> tg_variant t),
      fr_detail = (case t of None \<Rightarrow> '''' | Some t \<Rightarrow> tg_detail t)\<rparr>"

definition same_key :: "firing_row \<Rightarrow> firing_row \<Rightarrow> bool" where
  "same_key r r' \<longleftrightarrow> fr_session r = fr_session r' \<and> fr_turn_seq r = fr_turn_seq r' \<and> fr_edge r = fr_edge r'"

text \<open>\<open>INSERT OR IGNORE\<close>: the row of a key that is taken stays.\<close>

definition record_edge_firing :: "edge_config \<Rightarrow> 'e agent_call \<Rightarrow> edge_input \<Rightarrow> string \<Rightarrow> 'e edge_trigger option \<Rightarrow> edge_outcome \<Rightarrow>
    ('x, 'e) boundary \<Rightarrow> ('x, 'e) boundary" where
  "record_edge_firing cfg call i name t outcome b =
     (if \<not> ec_store cfg \<or> ec_insert_fails cfg name then b
      else let row = firing_of call i name t outcome
      in if list_ex (same_key row) (bd_rows b) then b
         else let b' = b\<lparr>bd_rows := bd_rows b @ [row]\<rparr>
         in if \<not> ec_stats cfg then b'
            else let k = name @ '':'' @ outcome_str outcome;
                     n = (case map_of (bd_stats b) k of None \<Rightarrow> 0 | Some n \<Rightarrow> n)
                 in b'\<lparr>bd_stats := AList.update k (n + 1) (bd_stats b)\<rparr>)"

subsection \<open>Terminal notes\<close>

text \<open>The edges, lines and reports of a terminal note.\<close>

type_synonym evidence_lines = "string list \<times> string list \<times> string list"

definition add_evidence :: "nat \<Rightarrow> evidence_lines \<Rightarrow> string \<times> 'e edge_note option \<times> 'e edge_trigger \<Rightarrow> evidence_lines" where
  "add_evidence attempts ev c =
     (case ev of (names, notes, reports) \<Rightarrow> case c of (name, note, t) \<Rightarrow>
        let n = (case note of None \<Rightarrow> '''' | Some f \<Rightarrow> f t attempts)
        in (if n \<noteq> '''' then names @ [name] else names, if n \<noteq> '''' then notes @ [n] else notes,
            if tg_report t \<noteq> '''' then reports @ [tg_report t] else reports))"

definition terminal_evidence :: "nat \<Rightarrow> (string \<times> 'e edge_note option \<times> 'e edge_trigger) list \<Rightarrow> evidence_lines" where
  "terminal_evidence attempts cs = foldl (add_evidence attempts) ([], [], []) cs"

definition join_evidence :: "evidence_lines \<Rightarrow> evidence_lines \<Rightarrow> evidence_lines" where
  "join_evidence a b =
     (case a of (names, notes, reports) \<Rightarrow> case b of (names', notes', reports') \<Rightarrow>
        (names @ names', notes @ notes', reports @ reports'))"

definition upper_char :: "char \<Rightarrow> char" where
  "upper_char c = (if 97 \<le> (of_char c :: nat) \<and> (of_char c :: nat) \<le> 122 then char_of ((of_char c :: nat) - 32) else c)"

definition capitalized :: "string \<Rightarrow> string" where
  "capitalized name = (case name of [] \<Rightarrow> [] | c # cs \<Rightarrow> upper_char c # cs)"

definition blank_line :: string where "blank_line = [CHR 0x0A, CHR 0x0A]"

definition append_assistant :: "string \<Rightarrow> message \<Rightarrow> message" where
  "append_assistant s m = m\<lparr>m_parts := append_content s (m_parts m)\<rparr>"

definition write_repair_exhaustion :: "evidence_lines \<Rightarrow> ('x, 'e) boundary \<Rightarrow> ('x, 'e) boundary" where
  "write_repair_exhaustion ev b =
     (case ev of (names, notes, reports) \<Rightarrow>
        case aw_assistant (bd_world b) of
          None \<Rightarrow> b
        | Some m \<Rightarrow>
            if notes = [] then b
            else let line = blank_line @ join_with '', '' (map capitalized names) @ '': '' @ join_with '' '' notes;
                     m' = foldl (\<lambda>m r. append_assistant (blank_line @ r) m) (append_assistant line m) reports
                 in b\<lparr>bd_world := (bd_world b)\<lparr>aw_assistant := Some m'\<rparr>\<rparr>)"

subsection \<open>The scan loop\<close>

type_synonym ('x, 'e) contender = "('x, 'e) run_edge \<times> 'e edge_trigger"
type_synonym 'e carrier = "(string, 'e deferred_trigger) gomap"
type_synonym ('x, 'e) scan_state =
  "('x, 'e) boundary \<times> 'e carrier \<times> ('x, 'e) contender list \<times> 'e deferred_trigger list"

definition record_contenders :: "edge_config \<Rightarrow> 'e agent_call \<Rightarrow> edge_input \<Rightarrow> edge_outcome \<Rightarrow> ('x, 'e) contender list \<Rightarrow>
    ('x, 'e) boundary \<Rightarrow> ('x, 'e) boundary" where
  "record_contenders cfg call i outcome cs b =
     foldl (\<lambda>b (e, t). record_edge_firing cfg call i (ed_name e) (Some t) outcome b) b cs"

definition record_deferred :: "edge_config \<Rightarrow> 'e agent_call \<Rightarrow> edge_input \<Rightarrow> edge_outcome \<Rightarrow> 'e deferred_trigger list \<Rightarrow>
    ('x, 'e) boundary \<Rightarrow> ('x, 'e) boundary" where
  "record_deferred cfg call i outcome ds b =
     foldl (\<lambda>b d. record_edge_firing cfg call i (df_edge d) (Some (df_trigger d)) outcome b) b ds"

definition carried_trigger :: "'e carrier \<Rightarrow> string \<Rightarrow> 'e edge_trigger option" where
  "carried_trigger carried name = map_option df_trigger (map_of carried name)"

definition record_unscanned :: "edge_config \<Rightarrow> 'e agent_call \<Rightarrow> edge_input \<Rightarrow> 'e carrier \<Rightarrow> ('x, 'e) run_edge list \<Rightarrow>
    ('x, 'e) boundary \<Rightarrow> ('x, 'e) boundary" where
  "record_unscanned cfg call i carried es b =
     foldl (\<lambda>b e. record_edge_firing cfg call i (ed_name e) (carried_trigger carried (ed_name e)) Cancelled b) b es"

text \<open>Go leaves the order of the last loop, over a map, open; here it is the order of the carrier.\<close>

definition record_cancelled_boundary :: "edge_config \<Rightarrow> 'e agent_call \<Rightarrow> edge_input \<Rightarrow> ('x, 'e) run_edge list \<Rightarrow>
    ('x, 'e) contender list \<Rightarrow> 'e deferred_trigger list \<Rightarrow> 'e carrier \<Rightarrow> ('x, 'e) boundary \<Rightarrow> ('x, 'e) boundary" where
  "record_cancelled_boundary cfg call i remaining pending deferred carried b =
     record_deferred cfg call i Cancelled
       (map snd (filter (\<lambda>(name, d). \<not> list_ex (\<lambda>e. ed_name e = df_edge d) remaining) carried))
       (record_unscanned cfg call i carried remaining
         (record_deferred cfg call i Cancelled deferred
           (record_contenders cfg call i Cancelled pending b)))"

definition resolve_edge :: "('x, 'e) run_edge \<Rightarrow> 'x agent_world \<Rightarrow> 'e agent_call \<Rightarrow> 'e edge_trigger \<Rightarrow> 'x agent_world \<times> 'e edge_trigger" where
  "resolve_edge e w call t = (case ed_resolve e of None \<Rightarrow> (w, t) | Some r \<Rightarrow> r w call t)"

definition silent :: "'e edge_trigger \<Rightarrow> bool" where
  "silent t \<longleftrightarrow> tg_hint t = Some Gated \<or> tg_hint t = Some Suppressed"

text \<open>\<open>Inl\<close>: the boundary was cancelled.\<close>

fun scan_edges :: "edge_config \<Rightarrow> (check_point \<Rightarrow> bool) \<Rightarrow> 'e agent_call \<Rightarrow> edge_input \<Rightarrow> ('x, 'e) run_edge list \<Rightarrow>
    ('x, 'e) scan_state \<Rightarrow> ('x, 'e) boundary + ('x, 'e) scan_state" where
  "scan_edges cfg err call i [] st = Inr st"
| "scan_edges cfg err call i (e # es) (b, carried, contenders, still) =
     (let t = ed_scan e (bd_world b) call i
      in if err (AfterScan (ed_name e))
         then Inl (record_cancelled_boundary cfg call i es contenders still carried
                (record_edge_firing cfg call i (ed_name e) t Cancelled b))
         else case t of
           Some t \<Rightarrow>
             let carried' = AList.delete (ed_name e) carried
             in if silent t
                then scan_edges cfg err call i es
                       (record_edge_firing cfg call i (ed_name e) (Some t) (the (tg_hint t)) b, carried', contenders, still)
                else let (w, t') = resolve_edge e (bd_world b) call t;
                         b' = b\<lparr>bd_world := w\<rparr>
                     in if ed_resolve e \<noteq> None \<and> err (AfterResolve (ed_name e))
                        then Inl (record_cancelled_boundary cfg call i es contenders still carried'
                               (record_edge_firing cfg call i (ed_name e) (Some t') Cancelled b'))
                        else if \<not> tg_fire t'
                        then scan_edges cfg err call i es
                               (record_edge_firing cfg call i (ed_name e) (Some t')
                                  (if tg_hint t' = Some Degraded then Degraded else Cleared) b', carried', contenders, still)
                        else scan_edges cfg err call i es (b', carried', contenders @ [(e, t')], still)
         | None \<Rightarrow>
             (case map_of carried (ed_name e) of
                None \<Rightarrow> scan_edges cfg err call i es (b, carried, contenders, still)
              | Some d \<Rightarrow>
                  let carried' = AList.delete (ed_name e) carried
                  in if \<not> clean_stop i
                     then scan_edges cfg err call i es (b, carried', contenders, still @ [d])
                     else scan_edges cfg err call i es
                            (record_edge_firing cfg call i (ed_name e) (Some (df_trigger d)) Cleared b, carried', contenders, still)))"

subsection \<open>The decision\<close>

definition contender_parts :: "('x, 'e) contender \<Rightarrow> string \<times> 'e edge_note option \<times> 'e edge_trigger" where
  "contender_parts c = (ed_name (fst c), ed_note (fst c), snd c)"

definition deferred_parts :: "'e deferred_trigger \<Rightarrow> string \<times> 'e edge_note option \<times> 'e edge_trigger" where
  "deferred_parts d = (df_edge d, df_note d, df_trigger d)"

text \<open>\<open>collectDeadDeferred\<close>\<close>

definition collect_dead_deferred :: "edge_config \<Rightarrow> 'e agent_call \<Rightarrow> edge_input \<Rightarrow> edge_outcome \<Rightarrow> 'e deferred_trigger list \<Rightarrow>
    ('x, 'e) boundary \<Rightarrow> ('x, 'e) boundary \<times> evidence_lines" where
  "collect_dead_deferred cfg call i outcome still b =
     (record_deferred cfg call i outcome still b,
      terminal_evidence (ac_repair_attempts call) (map deferred_parts still))"

text \<open>The first escalation takes the slot alone; without one all contenders share it.\<close>

definition escalates :: "('x, 'e) contender \<Rightarrow> bool" where
  "escalates c \<longleftrightarrow> tg_family (snd c) = EscalateFamily"

definition split_winners :: "('x, 'e) contender list \<Rightarrow> ('x, 'e) contender list \<times> ('x, 'e) contender list" where
  "split_winners cs =
     (case dropWhile (\<lambda>c. \<not> escalates c) cs of
        [] \<Rightarrow> (cs, [])
      | w # rest \<Rightarrow> ([w], takeWhile (\<lambda>c. \<not> escalates c) cs @ rest))"

definition prompt_of :: "('x, 'e) contender \<Rightarrow> string" where
  "prompt_of c = ed_prompt (fst c) (snd c)"

definition defer_contender :: "('x, 'e) contender \<Rightarrow> 'e deferred_trigger" where
  "defer_contender c = \<lparr>df_edge = ed_name (fst c), df_note = ed_note (fst c), df_trigger = snd c\<rparr>"

text \<open>The clone of the call that becomes the retry.\<close>

definition retry_call :: "'e agent_call \<Rightarrow> ('x, 'e) contender list \<Rightarrow> ('x, 'e) contender list \<Rightarrow> 'e deferred_trigger list \<Rightarrow> 'e agent_call" where
  "retry_call call winners losers still =
     call\<lparr>ac_prompt := join_with [CHR 0x0A] (filter (\<lambda>p. p \<noteq> '''') (map prompt_of winners)),
       ac_repair_attempts := ac_repair_attempts call + 1, ac_accepted := False, ac_accept_seq := 0,
       ac_deferred := map defer_contender (filter (\<lambda>c. tg_session_state (snd c)) losers) @ still,
       ac_burn_watched := ac_burn_watched call \<or> list_ex (\<lambda>c. prompt_of c \<noteq> '''' \<and> ed_name (fst c) = ''burn-watch'') winners\<rparr>"

text \<open>Committing and recording the winners, once the retry is queued.\<close>

definition settle_winner :: "edge_config \<Rightarrow> 'e agent_call \<Rightarrow> edge_input \<Rightarrow> ('x, 'e) boundary \<Rightarrow> ('x, 'e) contender \<Rightarrow> ('x, 'e) boundary" where
  "settle_winner cfg call i b c =
     (if prompt_of c = '''' then record_edge_firing cfg call i (ed_name (fst c)) (Some (snd c)) Cleared b
      else record_edge_firing cfg call i (ed_name (fst c)) (Some (snd c)) Fired
             (b\<lparr>bd_world := (bd_world b)\<lparr>aw_seen := aw_seen (bd_world b) @ tg_commit (snd c)\<rparr>\<rparr>))"

definition cancel_contenders :: "edge_config \<Rightarrow> 'e agent_call \<Rightarrow> edge_input \<Rightarrow> ('x, 'e) contender list \<Rightarrow> 'e deferred_trigger list \<Rightarrow>
    evidence_lines \<Rightarrow> ('x, 'e) boundary \<Rightarrow> ('x, 'e) boundary" where
  "cancel_contenders cfg call i contenders still dead b =
     (let (b', cancelled) = collect_dead_deferred cfg call i Cancelled still (record_contenders cfg call i Cancelled contenders b)
      in write_repair_exhaustion (join_evidence cancelled dead) b')"

definition decide_boundary :: "edge_config \<Rightarrow> (check_point \<Rightarrow> bool) \<Rightarrow> 'e agent_call \<Rightarrow> edge_input \<Rightarrow> ('x, 'e) contender list \<Rightarrow>
    'e deferred_trigger list \<Rightarrow> ('x, 'e) boundary \<Rightarrow> bool \<times> ('x, 'e) boundary" where
  "decide_boundary cfg err call i contenders still b =
     (if contenders = [] then
        let (b', dead) = collect_dead_deferred cfg call i Cancelled still b
        in (False, write_repair_exhaustion dead b')
      else let evidence = terminal_evidence (ac_repair_attempts call) (map contender_parts contenders)
      in if max_repair_attempts \<le> ac_repair_attempts call then
        let (b', dead) = collect_dead_deferred cfg call i Exhausted still (record_contenders cfg call i Exhausted contenders b)
        in (False, write_repair_exhaustion (join_evidence evidence dead) b')
      else let (winners, losers) = split_winners contenders
      in if list_all (\<lambda>c. prompt_of c = '''') winners then
        let (b', dead) = collect_dead_deferred cfg call i Cancelled still
              (record_contenders cfg call i Deferred losers (record_contenders cfg call i Cleared winners b))
        in (False, write_repair_exhaustion (join_evidence dead evidence) b')
      else let dead = terminal_evidence (ac_repair_attempts call)
                 (map contender_parts (filter (\<lambda>c. \<not> tg_session_state (snd c)) losers));
               retry = retry_call call winners losers still
      in if err BeforeEnqueue \<or> err AtEnqueue then (False, cancel_contenders cfg call i contenders still dead b)
      else let b1 = foldl (settle_winner cfg call i) (b\<lparr>bd_queue := retry # bd_queue b\<rparr>) winners;
               b2 = record_contenders cfg call i Deferred losers b1;
               b3 = record_deferred cfg call i Deferred still b2
      in (True, write_repair_exhaustion dead b3))"

definition carry :: "'e deferred_trigger list \<Rightarrow> 'e carrier" where
  "carry ds = foldl (\<lambda>m d. AList.update (df_edge d) d m) [] ds"

text \<open>A run that wrote clears the mark of the burn watch; the carrier is consumed.\<close>

definition boundary_call :: "(string \<Rightarrow> string \<Rightarrow> bool) \<Rightarrow> 'e agent_call \<Rightarrow> edge_input \<Rightarrow> 'e agent_call" where
  "boundary_call mutating call i =
     call\<lparr>ac_burn_watched := ac_burn_watched call \<and> \<not> run_has_mutating_call mutating (result_steps i), ac_deferred := []\<rparr>"

definition run_edges :: "edge_config \<Rightarrow> (check_point \<Rightarrow> bool) \<Rightarrow> ('x, 'e) run_edge list \<Rightarrow> (string \<Rightarrow> string \<Rightarrow> bool) \<Rightarrow>
    'e agent_call \<Rightarrow> edge_input \<Rightarrow> ('x, 'e) boundary \<Rightarrow> bool \<times> 'e agent_call \<times> ('x, 'e) boundary" where
  "run_edges cfg err edges mutating call i b =
     (if \<not> ec_config cfg \<or> result_steps i = []
      then (False, call\<lparr>ac_deferred := []\<rparr>, record_deferred cfg call i Cancelled (ac_deferred call) b)
      else let carried = carry (ac_deferred call);
               call' = boundary_call mutating call i
      in if err AtEntry then (False, call', record_unscanned cfg call' i carried edges b)
      else case scan_edges cfg err call' i edges (b, carried, [], []) of
        Inl b' \<Rightarrow> (False, call', b')
      | Inr (b', carried', contenders, still) \<Rightarrow>
          let (queued, b'') = decide_boundary cfg err call' i contenders still
                 (record_deferred cfg call' i Cleared (map snd carried') b')
          in (queued, call', b''))"

subsection \<open>What a row says\<close>

text \<open>The row of an edge for this boundary.\<close>

definition verdict :: "'e agent_call \<Rightarrow> edge_input \<Rightarrow> ('x, 'e) boundary \<Rightarrow> string \<Rightarrow> firing_row option" where
  "verdict call i b name =
     find (\<lambda>r. fr_session r = ac_session call \<and> fr_turn_seq r = firing_turn_seq call i \<and> fr_edge r = name) (bd_rows b)"

definition store_works :: "edge_config \<Rightarrow> bool" where
  "store_works cfg \<longleftrightarrow> ec_store cfg \<and> ec_insert_fails cfg = (\<lambda>_. False)"

lemma verdict_cong:
  "ac_session call' = ac_session call \<Longrightarrow> firing_turn_seq call' i = firing_turn_seq call i \<Longrightarrow>
   bd_rows b' = bd_rows b \<Longrightarrow> verdict call' i b' = verdict call i b"
  by (rule ext) (simp add: verdict_def)

lemma verdict_world [simp]: "verdict call i (b\<lparr>bd_world := w\<rparr>) = verdict call i b"
  and verdict_queue [simp]: "verdict call i (b\<lparr>bd_queue := q\<rparr>) = verdict call i b"
  by (simp_all add: verdict_def fun_eq_iff)

lemma verdict_exhaustion [simp]: "verdict call i (write_repair_exhaustion ev b) = verdict call i b"
  by (simp add: write_repair_exhaustion_def split: prod.splits option.splits)

lemma verdict_record:
  assumes "store_works cfg"
  shows "verdict call i (record_edge_firing cfg call i name t outcome b) n =
    (if n = name \<and> verdict call i b name = None then Some (firing_of call i name t outcome) else verdict call i b n)"
proof -
  let ?row = "firing_of call i name t outcome"
  have key: "same_key ?row r \<longleftrightarrow>
      fr_session r = ac_session call \<and> fr_turn_seq r = firing_turn_seq call i \<and> fr_edge r = name" for r
    by (auto simp: same_key_def firing_of_def)
  have taken: "list_ex (same_key ?row) (bd_rows b) \<longleftrightarrow> verdict call i b name \<noteq> None"
    unfolding verdict_def by (auto simp: find_None_iff list_ex_iff key)
  show ?thesis
  proof (cases "verdict call i b name = None")
    case True
    then have "bd_rows (record_edge_firing cfg call i name t outcome b) = bd_rows b @ [?row]"
      using assms taken by (simp add: record_edge_firing_def store_works_def Let_def)
    then show ?thesis using True by (auto simp: verdict_def find_append firing_of_def split: option.splits)
  next
    case False
    then have "record_edge_firing cfg call i name t outcome b = b"
      using taken by (simp add: record_edge_firing_def Let_def)
    then show ?thesis using False by simp
  qed
qed

lemma record_queue [simp]: "bd_queue (record_edge_firing cfg call i name t outcome b) = bd_queue b"
  and record_world [simp]: "bd_world (record_edge_firing cfg call i name t outcome b) = bd_world b"
  by (simp_all add: record_edge_firing_def Let_def)

lemma exhaustion_queue [simp]: "bd_queue (write_repair_exhaustion ev b) = bd_queue b"
  by (simp add: write_repair_exhaustion_def split: prod.splits option.splits)

text \<open>Recording one verdict after the other: the first row of a name stays.\<close>

definition record_all :: "edge_config \<Rightarrow> 'e agent_call \<Rightarrow> edge_input \<Rightarrow> (string \<times> 'e edge_trigger option \<times> edge_outcome) list \<Rightarrow>
    ('x, 'e) boundary \<Rightarrow> ('x, 'e) boundary" where
  "record_all cfg call i vs b = foldl (\<lambda>b (name, t, outcome). record_edge_firing cfg call i name t outcome b) b vs"

lemma record_all_simps [simp]:
  "record_all cfg call i [] b = b"
  "record_all cfg call i ((name, t, outcome) # vs) b = record_all cfg call i vs (record_edge_firing cfg call i name t outcome b)"
  "record_all cfg call i (vs @ vs') b = record_all cfg call i vs' (record_all cfg call i vs b)"
  by (simp_all add: record_all_def)

lemma record_all_frame [simp]:
  "bd_queue (record_all cfg call i vs b) = bd_queue b" "bd_world (record_all cfg call i vs b) = bd_world b"
  by (induction vs arbitrary: b) auto

lemma verdict_record_all:
  assumes "store_works cfg"
  shows "verdict call i (record_all cfg call i vs b) n =
    (case verdict call i b n of
       Some r \<Rightarrow> Some r
     | None \<Rightarrow> map_option (\<lambda>(t, outcome). firing_of call i n t outcome) (map_of vs n))"
  by (induction vs arbitrary: b) (auto simp: verdict_record [OF assms] split: option.splits)

lemma recorders:
  "record_contenders cfg call i outcome cs b =
     record_all cfg call i (map (\<lambda>(e, t). (ed_name e, Some t, outcome)) cs) b"
  "record_deferred cfg call i outcome ds b =
     record_all cfg call i (map (\<lambda>d. (df_edge d, Some (df_trigger d), outcome)) ds) b"
  "record_unscanned cfg call i carried es b =
     record_all cfg call i (map (\<lambda>e. (ed_name e, carried_trigger carried (ed_name e), Cancelled)) es) b"
  by (simp_all add: record_contenders_def record_deferred_def record_unscanned_def record_all_def foldl_map split_def)

lemma map_of_names:
  "map_of (map (\<lambda>(e, t). (ed_name e, Some t, outcome)) cs) n \<noteq> None \<longleftrightarrow> n \<in> (ed_name \<circ> fst) ` set cs"
  "map_of (map (\<lambda>d. (df_edge d, Some (df_trigger d), outcome)) ds) n \<noteq> None \<longleftrightarrow> n \<in> df_edge ` set ds"
  "map_of (map (\<lambda>e. (ed_name e, f e, outcome)) es) n \<noteq> None \<longleftrightarrow> n \<in> ed_name ` set es"
  by (force simp: map_of_eq_None_iff image_iff)+

text \<open>Every name that was given to a recorder has a row.\<close>

lemma verdict_mono:
  assumes "store_works cfg" and "verdict call i b n \<noteq> None"
  shows "verdict call i (record_edge_firing cfg call i name t outcome b) n = verdict call i b n"
    and "verdict call i (record_all cfg call i vs b) n = verdict call i b n"
  using assms by (auto simp: verdict_record verdict_record_all)

lemma verdict_recorded:
  assumes "store_works cfg"
  shows "n \<in> (ed_name \<circ> fst) ` set cs \<Longrightarrow> verdict call i (record_contenders cfg call i outcome cs b) n \<noteq> None"
    and "n \<in> df_edge ` set ds \<Longrightarrow> verdict call i (record_deferred cfg call i outcome ds b) n \<noteq> None"
    and "n \<in> ed_name ` set es \<Longrightarrow> verdict call i (record_unscanned cfg call i carried es b) n \<noteq> None"
  using map_of_names(1) [of outcome cs n] map_of_names(2) [of outcome ds n]
    map_of_names(3) [of "\<lambda>e. carried_trigger carried (ed_name e)" Cancelled es n]
  by (auto simp: recorders verdict_record_all [OF assms] split: option.splits)

subsection \<open>No row means clean\<close>

text \<open>What the scans find, edge by edge, each in the world its predecessors leave.\<close>

fun evaluated :: "'e agent_call \<Rightarrow> edge_input \<Rightarrow> ('x, 'e) run_edge list \<Rightarrow> 'x agent_world \<Rightarrow> (string \<times> 'e edge_trigger option) list" where
  "evaluated call i [] w = []"
| "evaluated call i (e # es) w =
     (ed_name e, ed_scan e w call i) #
     evaluated call i es (case ed_scan e w call i of
         None \<Rightarrow> w
       | Some t \<Rightarrow> if silent t then w else fst (resolve_edge e w call t))"

lemma evaluated_names: "(n, t) \<in> set (evaluated call i es w) \<Longrightarrow> n \<in> ed_name ` set es"
  by (induction es arbitrary: w) auto

lemma verdict_kept:
  assumes "store_works cfg" and "verdict call i b n \<noteq> None"
  shows "verdict call i (record_contenders cfg call i outcome cs b) n \<noteq> None"
    and "verdict call i (record_deferred cfg call i outcome ds b) n \<noteq> None"
    and "verdict call i (record_unscanned cfg call i carried es b) n \<noteq> None"
  using assms by (simp_all add: recorders verdict_mono)

lemma cancelled_complete:
  assumes "store_works cfg"
    and "verdict call i b n \<noteq> None \<or> n \<in> (ed_name \<circ> fst) ` set cs \<or> n \<in> df_edge ` set still \<or> n \<in> ed_name ` set es"
  shows "verdict call i (record_cancelled_boundary cfg call i es cs still carried b) n \<noteq> None"
proof -
  note k = verdict_kept [OF assms(1)] and r = verdict_recorded [OF assms(1)]
  show ?thesis
    using assms(2)
  proof (elim disjE)
    assume "verdict call i b n \<noteq> None"
    then show ?thesis unfolding record_cancelled_boundary_def by (intro k(2) k(3) k(1))
  next
    assume "n \<in> (ed_name \<circ> fst) ` set cs"
    then show ?thesis unfolding record_cancelled_boundary_def by (intro k(2) k(3) r(1))
  next
    assume "n \<in> df_edge ` set still"
    then show ?thesis unfolding record_cancelled_boundary_def by (rule k(2) [OF k(3) [OF r(2)]])
  next
    assume "n \<in> ed_name ` set es"
    then show ?thesis unfolding record_cancelled_boundary_def by (rule k(2) [OF r(3)])
  qed
qed

definition carrier_ok :: "'e carrier \<Rightarrow> bool" where
  "carrier_ok carried \<longleftrightarrow> distinct (map fst carried) \<and> list_all (\<lambda>(k, d). df_edge d = k) carried"

lemma carrier_ok_delete: "carrier_ok carried \<Longrightarrow> carrier_ok (AList.delete k carried)"
  by (auto simp: carrier_ok_def list_all_iff gm_delete_set)

lemma carrier_ok_lookup: "carrier_ok carried \<Longrightarrow> map_of carried k = Some d \<Longrightarrow> df_edge d = k"
  by (auto simp: carrier_ok_def list_all_iff dest: map_of_SomeD)

lemma gm_update_subset: "set (AList.update k v m) \<subseteq> insert (k, v) (set m)"
  by (induction m) auto

lemma carrier_ok_carry: "carrier_ok (carry ds)"
proof -
  have "carrier_ok m \<Longrightarrow> carrier_ok (foldl (\<lambda>m d. AList.update (df_edge d) d m) m ds)" for m
  proof (induction ds arbitrary: m)
    case (Cons d ds)
    have "carrier_ok (AList.update (df_edge d) d m)"
      using Cons.prems gm_update_subset [of "df_edge d" d m] by (auto simp: carrier_ok_def list_all_iff distinct_update)
    then show ?case using Cons.IH by simp
  qed simp
  then show ?thesis by (simp add: carry_def carrier_ok_def)
qed

text \<open>The names the loop still has to account for.\<close>

definition open_names :: "'e agent_call \<Rightarrow> edge_input \<Rightarrow> ('x, 'e) run_edge list \<Rightarrow> ('x, 'e) scan_state \<Rightarrow> string set" where
  "open_names call i es st =
     (case st of (b, carried, cs, still) \<Rightarrow>
        {n. verdict call i b n \<noteq> None} \<union> (ed_name \<circ> fst) ` set cs \<union> df_edge ` set still \<union>
        (fst ` set carried \<inter> ed_name ` set es) \<union> {n. \<exists>t. (n, Some t) \<in> set (evaluated call i es (bd_world b))})"

lemma scan_edges_complete:
  assumes "store_works cfg" and "carrier_ok (fst (snd st))" and "n \<in> open_names call i es st"
  shows "case scan_edges cfg err call i es st of
      Inl b \<Rightarrow> verdict call i b n \<noteq> None
    | Inr st' \<Rightarrow> n \<in> open_names call i [] st'"
  using assms(2,3)
proof (induction es arbitrary: st)
  case (Cons e es)
  obtain b carried cs still where st: "st = (b, carried, cs, still)" by (cases st)
  let ?t = "ed_scan e (bd_world b) call i"
  have ok: "carrier_ok carried" "carrier_ok (AList.delete (ed_name e) carried)"
    using Cons.prems(1) carrier_ok_delete by (auto simp: st)
  have keys: "fst ` set (AList.delete (ed_name e) carried) = fst ` set carried - {ed_name e}"
    by (auto simp: gm_delete_set)
  note rec = verdict_record [OF assms(1)]
  have n: "verdict call i b n \<noteq> None \<or> n \<in> (ed_name \<circ> fst) ` set cs \<or> n \<in> df_edge ` set still \<or>
      (n \<in> fst ` set carried \<and> n \<in> ed_name ` set (e # es)) \<or> (\<exists>t. (n, Some t) \<in> set (evaluated call i (e # es) (bd_world b)))"
    using Cons.prems(2) unfolding st open_names_def by simp
  then have cancel: "verdict call i b n \<noteq> None \<or> n \<in> (ed_name \<circ> fst) ` set cs \<or> n \<in> df_edge ` set still \<or>
      n \<in> ed_name ` set es \<or> n = ed_name e"
    using evaluated_names by fastforce
  show ?case
  proof (cases "err (AfterScan (ed_name e))")
    case True
    have "verdict call i (record_edge_firing cfg call i (ed_name e) ?t Cancelled b) n \<noteq> None \<or>
        n \<in> (ed_name \<circ> fst) ` set cs \<or> n \<in> df_edge ` set still \<or> n \<in> ed_name ` set es"
      using cancel by (auto simp: rec)
    from cancelled_complete [OF assms(1) this] show ?thesis using True by (simp add: st Let_def)
  next
    case alive: False
    show ?thesis
    proof (cases ?t)
      case None
      show ?thesis
      proof (cases "map_of carried (ed_name e)")
        case n2: None
        then have "\<And>d. (ed_name e, d) \<notin> set carried" by (force simp: map_of_eq_None_iff)
        then have "n \<in> open_names call i es (b, carried, cs, still)" using n None by (auto simp: open_names_def)
        from Cons.IH [OF _ this] show ?thesis using alive None n2 ok by (simp add: st Let_def)
      next
        case (Some d)
        have d: "df_edge d = ed_name e" by (rule carrier_ok_lookup [OF ok(1) Some])
        have "n \<in> open_names call i es (b, AList.delete (ed_name e) carried, cs, still @ [d])"
          "n \<in> open_names call i es (record_edge_firing cfg call i (ed_name e) (Some (df_trigger d)) Cleared b,
             AList.delete (ed_name e) carried, cs, still)"
          using n None d by (auto simp: open_names_def keys rec)
        with Cons.IH show ?thesis using alive None Some ok by (simp add: st Let_def)
      qed
    next
      case (Some t)
      obtain w t' where r: "resolve_edge e (bd_world b) call t = (w, t')" by (cases "resolve_edge e (bd_world b) call t")
      show ?thesis
      proof (cases "silent t")
        case True
        have "n \<in> open_names call i es (record_edge_firing cfg call i (ed_name e) (Some t) (the (tg_hint t)) b,
            AList.delete (ed_name e) carried, cs, still)"
          using n Some True by (auto simp: open_names_def keys rec)
        with Cons.IH show ?thesis using alive Some True ok by (simp add: st Let_def)
      next
        case False
        have c: "verdict call i (record_edge_firing cfg call i (ed_name e) (Some t') Cancelled (b\<lparr>bd_world := w\<rparr>)) n \<noteq> None \<or>
            n \<in> (ed_name \<circ> fst) ` set cs \<or> n \<in> df_edge ` set still \<or> n \<in> ed_name ` set es"
          using cancel by (auto simp: rec)
        have "n \<in> open_names call i es (record_edge_firing cfg call i (ed_name e) (Some t') outcome (b\<lparr>bd_world := w\<rparr>),
            AList.delete (ed_name e) carried, cs, still)"
          "n \<in> open_names call i es (b\<lparr>bd_world := w\<rparr>, AList.delete (ed_name e) carried, cs @ [(e, t')], still)" for outcome
          using n Some False r by (auto simp: open_names_def keys rec)
        with Cons.IH show ?thesis using alive Some False ok r cancelled_complete [OF assms(1) c] by (simp add: st Let_def)
      qed
    qed
  qed
qed simp

text \<open>The winners of the slot: what recording them leaves.\<close>

definition winner_outcome :: "('x, 'e) contender \<Rightarrow> edge_outcome" where
  "winner_outcome c = (if prompt_of c = '''' then Cleared else Fired)"

lemma settle_winners:
  assumes "store_works cfg"
  shows "verdict call i (foldl (settle_winner cfg call i) b ws) n =
    (case verdict call i b n of
       Some r \<Rightarrow> Some r
     | None \<Rightarrow> map_option (\<lambda>(t, outcome). firing_of call i n (Some t) outcome)
                 (map_of (map (\<lambda>c. (ed_name (fst c), snd c, winner_outcome c)) ws) n))"
  by (induction ws arbitrary: b)
     (auto simp: settle_winner_def winner_outcome_def verdict_record [OF assms] split: option.splits)

lemma settle_winners_queue [simp]: "bd_queue (foldl (settle_winner cfg call i) b ws) = bd_queue b"
  by (induction ws arbitrary: b) (auto simp: settle_winner_def)

lemma recorder_queue [simp]:
  "bd_queue (record_contenders cfg call i outcome cs b) = bd_queue b"
  "bd_queue (record_deferred cfg call i outcome ds b) = bd_queue b"
  "bd_queue (record_unscanned cfg call i carried es b) = bd_queue b"
  by (simp_all add: recorders)

lemma subseq_distinct: "subseq xs ys \<Longrightarrow> distinct ys \<Longrightarrow> distinct xs"
proof (induction rule: list_emb.induct)
  case (list_emb_Cons2 x y xs ys)
  then have "set xs \<subseteq> set ys" by (auto dest: list_emb_set)
  then show ?case using list_emb_Cons2 by auto
qed auto

lemma split_winners_parts:
  assumes "split_winners cs = (ws, ls)"
  shows "mset cs = mset ws + mset ls" and "subseq ws cs"
    and "\<not> list_ex escalates cs \<Longrightarrow> ws = cs" and "list_ex escalates cs \<Longrightarrow> length ws = 1 \<and> list_all escalates ws"
proof -
  have split: "cs = takeWhile (\<lambda>c. \<not> escalates c) cs @ dropWhile (\<lambda>c. \<not> escalates c) cs" by simp
  show "mset cs = mset ws + mset ls" "subseq ws cs"
    using assms by (auto simp: split_winners_def split: list.splits)
      (metis split mset_append mset.simps(2) union_mset_add_mset_right,
       metis split subseq_append_iff list_emb_append2 subseq_Cons2 list_emb_Nil)
  show "ws = cs" if "\<not> list_ex escalates cs"
  proof -
    have nil: "dropWhile (\<lambda>c. \<not> escalates c) cs = []" using that by (simp add: dropWhile_eq_Nil_conv list_ex_iff)
    show ?thesis using assms unfolding split_winners_def nil by simp
  qed
  assume "list_ex escalates cs"
  then obtain w rest where d: "dropWhile (\<lambda>c. \<not> escalates c) cs = w # rest"
    by (cases "dropWhile (\<lambda>c. \<not> escalates c) cs") (auto simp: dropWhile_eq_Nil_conv list_ex_iff)
  then have "escalates w" using hd_dropWhile [of "\<lambda>c. \<not> escalates c" cs] by fastforce
  then show "length ws = 1 \<and> list_all escalates ws" using assms d by (auto simp: split_winners_def)
qed

lemma decide_complete:
  assumes "store_works cfg"
    and "verdict call i b n \<noteq> None \<or> n \<in> (ed_name \<circ> fst) ` set cs \<or> n \<in> df_edge ` set still"
  shows "verdict call i (snd (decide_boundary cfg err call i cs still b)) n \<noteq> None"
proof -
  obtain ws ls where ws: "split_winners cs = (ws, ls)" by (cases "split_winners cs")
  have "set cs = set ws \<union> set ls" using split_winners_parts(1) [OF ws] by (metis set_mset_mset set_mset_union)
  with assms(2) have n: "verdict call i b n \<noteq> None \<or> n \<in> (ed_name \<circ> fst) ` set ws \<or> n \<in> (ed_name \<circ> fst) ` set ls \<or>
      n \<in> df_edge ` set still" by auto
  note k = verdict_kept [OF assms(1)] and r = verdict_recorded [OF assms(1)]
  have full: "verdict call i (record_deferred cfg call i o2 still (record_contenders cfg call i o1 cs b)) n \<noteq> None" for o1 o2
    using assms(2) by (metis k(1,2) r(1,2))
  have split: "verdict call i (record_deferred cfg call i o2 still (record_contenders cfg call i o1 ls b')) n \<noteq> None"
    if "verdict call i b' n \<noteq> None \<or> n \<in> (ed_name \<circ> fst) ` set ls \<or> n \<in> df_edge ` set still" for o1 o2 b'
    using that by (metis k(1,2) r(1,2))
  have cleared: "verdict call i (record_contenders cfg call i Cleared ws b) n \<noteq> None \<or>
      n \<in> (ed_name \<circ> fst) ` set ls \<or> n \<in> df_edge ` set still"
    using n by (metis k(1) r(1))
  have fired: "verdict call i (foldl (settle_winner cfg call i) (b\<lparr>bd_queue := q\<rparr>) ws) n \<noteq> None \<or>
      n \<in> (ed_name \<circ> fst) ` set ls \<or> n \<in> df_edge ` set still" for q
  proof -
    have "map_of (map (\<lambda>c. (ed_name (fst c), snd c, winner_outcome c)) ws) n \<noteq> None \<longleftrightarrow> n \<in> (ed_name \<circ> fst) ` set ws"
      by (force simp: map_of_eq_None_iff image_iff)
    then show ?thesis using n by (auto simp: settle_winners [OF assms(1)] split: option.splits)
  qed
  show ?thesis
    using full split [OF cleared] split [OF fired]
      k(2) [of call i b n Cancelled still] r(2) [of n still call i Cancelled b] assms(2)
    by (auto simp: decide_boundary_def collect_dead_deferred_def cancel_contenders_def Let_def ws)
qed

lemma run_edges_live:
  assumes "ec_config cfg" and "result_steps i \<noteq> []"
  shows "run_edges cfg err edges mutating call i b =
    (if err AtEntry then (False, boundary_call mutating call i,
         record_unscanned cfg (boundary_call mutating call i) i (carry (ac_deferred call)) edges b)
     else case scan_edges cfg err (boundary_call mutating call i) i edges (b, carry (ac_deferred call), [], []) of
        Inl b' \<Rightarrow> (False, boundary_call mutating call i, b')
      | Inr (b1, carried, cs, still) \<Rightarrow>
          (case decide_boundary cfg err (boundary_call mutating call i) i cs still
              (record_deferred cfg (boundary_call mutating call i) i Cleared (map snd carried) b1) of
             (queued, b2) \<Rightarrow> (queued, boundary_call mutating call i, b2)))"
  using assms by (simp add: run_edges_def Let_def split: sum.splits)

lemma run_edges_call:
  assumes "ec_config cfg" and "result_steps i \<noteq> []"
  shows "fst (snd (run_edges cfg err edges mutating call i b)) = boundary_call mutating call i"
  by (simp add: run_edges_live [OF assms] split: sum.splits prod.splits)

lemma boundary_call_sel [simp]:
  "ac_session (boundary_call mutating call i) = ac_session call"
  "ac_run_stamp (boundary_call mutating call i) = ac_run_stamp call"
  "ac_repair_attempts (boundary_call mutating call i) = ac_repair_attempts call"
  "ac_deferred (boundary_call mutating call i) = []"
  "firing_turn_seq (boundary_call mutating call i) i = firing_turn_seq call i"
  "verdict (boundary_call mutating call i) i c n = verdict call i c n"
  by (simp_all add: boundary_call_def firing_turn_seq_def verdict_def)

lemma carry_names: "fst ` set (carry ds) = df_edge ` set ds"
proof -
  have "fst ` set (foldl (\<lambda>m d. AList.update (df_edge d) d m) m ds) = fst ` set m \<union> df_edge ` set ds" for m
    by (induction ds arbitrary: m) (auto simp: dom_update)
  from this [of "[]"] show ?thesis by (simp add: carry_def)
qed

text \<open>The other direction: a name nobody has reason to record keeps having no row.\<close>

lemma recorders_clean:
  assumes "store_works cfg" and "verdict call i b n = None"
  shows "n \<notin> (ed_name \<circ> fst) ` set cs \<Longrightarrow> verdict call i (record_contenders cfg call i outcome cs b) n = None"
    and "n \<notin> df_edge ` set ds \<Longrightarrow> verdict call i (record_deferred cfg call i outcome ds b) n = None"
  using map_of_names(1) [of outcome cs n] map_of_names(2) [of outcome ds n] assms(2)
  by (auto simp: recorders verdict_record_all [OF assms(1)] split: option.splits)

lemma scan_edges_clean:
  assumes "store_works cfg" and live: "\<And>m. \<not> err (AfterScan m)" "\<And>m. \<not> err (AfterResolve m)"
    and "carrier_ok (fst (snd st))" and "n \<notin> open_names call i es st" and "n \<notin> fst ` set (fst (snd st))"
  shows "\<exists>st'. scan_edges cfg err call i es st = Inr st' \<and> carrier_ok (fst (snd st')) \<and>
    n \<notin> open_names call i [] st' \<and> n \<notin> fst ` set (fst (snd st'))"
  using assms(4-6)
proof (induction es arbitrary: st)
  case (Cons e es)
  obtain b carried cs still where st: "st = (b, carried, cs, still)" by (cases st)
  let ?t = "ed_scan e (bd_world b) call i"
  have ok: "carrier_ok carried" "carrier_ok (AList.delete (ed_name e) carried)"
    and n: "n \<notin> fst ` set carried" "n \<notin> fst ` set (AList.delete (ed_name e) carried)"
    using Cons.prems(1,3) carrier_ok_delete by (auto simp: st gm_delete_set)
  note rec = verdict_record [OF assms(1)]
  have o: "verdict call i b n = None" "n \<notin> (ed_name \<circ> fst) ` set cs" "n \<notin> df_edge ` set still"
    "\<And>t. (n, Some t) \<notin> set (evaluated call i (e # es) (bd_world b))"
    using Cons.prems(2) unfolding st open_names_def by auto
  show ?case
  proof (cases ?t)
    case None
    show ?thesis
    proof (cases "map_of carried (ed_name e)")
      case n2: None
      have "n \<notin> open_names call i es (b, carried, cs, still)" using o n None by (auto simp: open_names_def)
      from Cons.IH [OF _ this] show ?thesis using live None n2 ok n by (simp add: st Let_def)
    next
      case (Some d)
      have d: "df_edge d = ed_name e" by (rule carrier_ok_lookup [OF ok(1) Some])
      have ne: "ed_name e \<noteq> n" using n(1) map_of_SomeD [OF Some] by force
      have "n \<notin> open_names call i es (b, AList.delete (ed_name e) carried, cs, still @ [d])"
        "n \<notin> open_names call i es (record_edge_firing cfg call i (ed_name e) (Some (df_trigger d)) Cleared b,
           AList.delete (ed_name e) carried, cs, still)"
        using o n None d ne by (auto simp: open_names_def rec)
      with Cons.IH show ?thesis using live None Some ok n by (simp add: st Let_def)
    qed
  next
    case (Some t)
    have ne: "ed_name e \<noteq> n" using o(4) [of t] Some by auto
    obtain w t' where r: "resolve_edge e (bd_world b) call t = (w, t')" by (cases "resolve_edge e (bd_world b) call t")
    show ?thesis
    proof (cases "silent t")
      case True
      have "n \<notin> open_names call i es (record_edge_firing cfg call i (ed_name e) (Some t) (the (tg_hint t)) b,
          AList.delete (ed_name e) carried, cs, still)"
        using o n Some True ne by (auto simp: open_names_def rec)
      with Cons.IH show ?thesis using live Some True ok n by (simp add: st Let_def)
    next
      case False
      have "n \<notin> open_names call i es (record_edge_firing cfg call i (ed_name e) (Some t') outcome (b\<lparr>bd_world := w\<rparr>),
          AList.delete (ed_name e) carried, cs, still)"
        "n \<notin> open_names call i es (b\<lparr>bd_world := w\<rparr>, AList.delete (ed_name e) carried, cs @ [(e, t')], still)" for outcome
        using o n Some False r ne by (auto simp: open_names_def rec)
      with Cons.IH show ?thesis using live Some False ok n r by (simp add: st Let_def)
    qed
  qed
qed simp

lemma settle_winners_clean:
  assumes "store_works cfg" and "verdict call i b n = None" and "n \<notin> (ed_name \<circ> fst) ` set ws"
  shows "verdict call i (foldl (settle_winner cfg call i) b ws) n = None"
proof -
  have "map_of (map (\<lambda>c. (ed_name (fst c), snd c, winner_outcome c)) ws) n = None"
    using assms(3) by (force simp: map_of_eq_None_iff image_iff)
  then show ?thesis using assms(2) by (simp add: settle_winners [OF assms(1)])
qed

lemma decide_clean:
  assumes "store_works cfg" and "verdict call i b n = None"
    and "n \<notin> (ed_name \<circ> fst) ` set cs" and "n \<notin> df_edge ` set still"
  shows "verdict call i (snd (decide_boundary cfg err call i cs still b)) n = None"
proof -
  obtain ws ls where ws: "split_winners cs = (ws, ls)" by (cases "split_winners cs")
  have "set cs = set ws \<union> set ls" using split_winners_parts(1) [OF ws] by (metis set_mset_mset set_mset_union)
  with assms(3) have n: "n \<notin> (ed_name \<circ> fst) ` set ws" "n \<notin> (ed_name \<circ> fst) ` set ls" by auto
  note c = recorders_clean [OF assms(1)]
  have fired: "verdict call i (foldl (settle_winner cfg call i) (b\<lparr>bd_queue := q\<rparr>) ws) n = None" for q
    using assms(2) by (intro settle_winners_clean [OF assms(1) _ n(1)]) simp
  show ?thesis
    using c(2) [OF assms(2,4)] c(2) [OF c(1) [OF assms(2,3)] assms(4)]
      c(2) [OF c(1) [OF c(1) [OF assms(2) n(1)] n(2)] assms(4)] c(2) [OF c(1) [OF fired n(2)] assms(4)]
    by (auto simp: decide_boundary_def collect_dead_deferred_def cancel_contenders_def Let_def ws)
qed

definition clean_edge :: "'e agent_call \<Rightarrow> 'e agent_call \<Rightarrow> edge_input \<Rightarrow> ('x, 'e) run_edge list \<Rightarrow> 'x agent_world \<Rightarrow> string \<Rightarrow> bool" where
  "clean_edge call call' i edges w name \<longleftrightarrow>
     (name, None) \<in> set (evaluated call' i edges w) \<and>
     (\<forall>t. (name, Some t) \<notin> set (evaluated call' i edges w)) \<and> name \<notin> df_edge ` set (ac_deferred call)"

lemma no_row_clean:
  assumes "store_works cfg" and "ec_config cfg" and "result_steps i \<noteq> []"
    and "run_edges cfg err edges mutating call i b = (queued, call', b')"
    and "name \<in> ed_name ` set edges" and "verdict call i b' name = None"
  shows "clean_edge call call' i edges (bd_world b) name \<and> \<not> err AtEntry"
proof -
  have call': "call' = boundary_call mutating call i"
    using run_edges_call [OF assms(2,3)] assms(4) by (metis fst_conv snd_conv)
  have none: "verdict call' i b' name = None" using assms(6) by (simp add: call')
  have run: "run_edges cfg err edges mutating call i b = (queued, call', b')" by (rule assms(4))
  have listed: "\<exists>t. (name, t) \<in> set (evaluated call' i edges w)" for w
    using assms(5) by (induction edges arbitrary: w) auto
  have entry: "\<not> err AtEntry"
    using run none verdict_recorded(3) [OF assms(1) assms(5), of call' i "carry (ac_deferred call)" b]
    by (auto simp: run_edges_live [OF assms(2,3)] call' [symmetric] split: if_splits)
  have "name \<notin> open_names call' i edges (b, carry (ac_deferred call), [], [])"
  proof
    assume open1: "name \<in> open_names call' i edges (b, carry (ac_deferred call), [], [])"
    note c = scan_edges_complete [OF assms(1) _ this, of err, simplified, OF carrier_ok_carry]
    show False
    proof (cases "scan_edges cfg err call' i edges (b, carry (ac_deferred call), [], [])")
      case (Inl x)
      then show False using c run none entry by (simp add: run_edges_live [OF assms(2,3)] call' [symmetric])
    next
      case (Inr st)
      obtain b1 carried' cs still where st: "st = (b1, carried', cs, still)" by (cases st)
      have "verdict call' i (record_deferred cfg call' i Cleared (map snd carried') b1) name \<noteq> None \<or>
          name \<in> (ed_name \<circ> fst) ` set cs \<or> name \<in> df_edge ` set still"
        using c verdict_kept(2) [OF assms(1), of call' i b1 name Cleared "map snd carried'"]
        by (auto simp: Inr st open_names_def)
      from decide_complete [OF assms(1) this, of err] show False
        using run none entry Inr st
        by (simp add: run_edges_live [OF assms(2,3)] call' [symmetric] split: prod.splits)
    qed
  qed
  then have some: "(name, Some t) \<notin> set (evaluated call' i edges (bd_world b))"
    and waiting: "name \<notin> df_edge ` set (ac_deferred call)" for t
    using assms(5) by (simp_all add: open_names_def carry_names)
  from listed obtain t where "(name, t) \<in> set (evaluated call' i edges (bd_world b))" by blast
  with some have "(name, None) \<in> set (evaluated call' i edges (bd_world b))" by (cases t) auto
  with some waiting entry show ?thesis unfolding clean_edge_def by blast
qed

lemma clean_no_row:
  assumes "store_works cfg" and "ec_config cfg" and "result_steps i \<noteq> []"
    and run: "run_edges cfg err edges mutating call i b = (queued, call', b')"
    and clean: "clean_edge call call' i edges (bd_world b) name" and "verdict call i b name = None"
    and live: "\<not> err AtEntry" "\<And>m. \<not> err (AfterScan m)" "\<And>m. \<not> err (AfterResolve m)"
  shows "verdict call i b' name = None"
proof -
  have call': "call' = boundary_call mutating call i"
    using run_edges_call [OF assms(2,3)] run by (metis fst_conv snd_conv)
  let ?st = "(b, carry (ac_deferred call), [], [])"
  have "verdict call' i b name = None" using assms(6) by (simp add: call')
  then have "name \<notin> open_names call' i edges ?st" "name \<notin> fst ` set (carry (ac_deferred call))"
    using clean by (simp_all add: clean_edge_def open_names_def carry_names)
  with scan_edges_clean [OF assms(1) live(2,3), of ?st name call' i edges] carrier_ok_carry
  obtain b1 carried cs still where scan: "scan_edges cfg err call' i edges ?st = Inr (b1, carried, cs, still)"
    and c: "carrier_ok carried" "name \<notin> open_names call' i [] (b1, carried, cs, still)" "name \<notin> fst ` set carried"
    by (metis fst_conv prod.exhaust snd_conv)
  from c(1,3) have "name \<notin> df_edge ` set (map snd carried)" by (force simp: carrier_ok_def list_all_iff)
  with c(2) have "verdict call' i (record_deferred cfg call' i Cleared (map snd carried) b1) name = None"
    by (intro recorders_clean [OF assms(1)]) (simp_all add: open_names_def)
  from decide_clean [OF assms(1) this, of cs still err] c(2)
  have "verdict call' i b' name = None"
    using run scan live(1)
    by (simp add: open_names_def run_edges_live [OF assms(2,3)] call' [symmetric] split: prod.splits)
  then show ?thesis by (simp add: call')
qed

text \<open>
  C19: no row means clean. Whatever is cancelled when, an edge that has no row after a boundary was
  evaluated (the run was not cancelled on entry), its scan found nothing, and no deferred trigger was
  waiting for it. Conversely an edge that is clean in this sense, and had no row of this boundary
  before, gets none, provided the run is not cancelled during the scans (then the edges not scanned
  are recorded as cancelled).
\<close>

theorem no_row_means_clean:
  assumes "store_works cfg" and "ec_config cfg" and "result_steps i \<noteq> []"
    and "run_edges cfg err edges mutating call i b = (queued, call', b')"
    and "name \<in> ed_name ` set edges"
  shows "(verdict call i b' name = None \<longrightarrow>
      clean_edge call call' i edges (bd_world b) name \<and> \<not> err AtEntry) \<and>
    (clean_edge call call' i edges (bd_world b) name \<longrightarrow> verdict call i b name = None \<longrightarrow> \<not> err AtEntry \<longrightarrow>
      (\<forall>m. \<not> err (AfterScan m) \<and> \<not> err (AfterResolve m)) \<longrightarrow> verdict call i b' name = None)"
  using no_row_clean [OF assms] clean_no_row [OF assms(1-4), of name] by blast

subsection \<open>Fired rows and the retry\<close>

definition fired :: "'e agent_call \<Rightarrow> edge_input \<Rightarrow> ('x, 'e) boundary \<Rightarrow> string set" where
  "fired call i b = {n. \<exists>r. verdict call i b n = Some r \<and> fr_outcome r = Fired}"

lemma fired_frame [simp]:
  "fired call i (b\<lparr>bd_world := w\<rparr>) = fired call i b" "fired call i (b\<lparr>bd_queue := q\<rparr>) = fired call i b"
  "fired call i (write_repair_exhaustion ev b) = fired call i b"
  by (simp_all add: fired_def)

lemma fired_record_edge:
  "store_works cfg \<Longrightarrow> outcome \<noteq> Fired \<Longrightarrow> fired call i (record_edge_firing cfg call i name t outcome b) = fired call i b"
  by (auto simp: fired_def verdict_record firing_of_def)

lemma fired_record_all:
  assumes "store_works cfg"
  shows "\<forall>v\<in>set vs. snd (snd v) \<noteq> Fired \<Longrightarrow> fired call i (record_all cfg call i vs b) = fired call i b"
proof (induction vs arbitrary: b)
  case (Cons v vs)
  then show ?case by (cases v) (simp add: fired_record_edge [OF assms])
qed simp

lemma fired_record [simp]:
  assumes "store_works cfg" and "outcome \<noteq> Fired"
  shows "fired call i (record_edge_firing cfg call i name t outcome b) = fired call i b"
    and "fired call i (record_contenders cfg call i outcome cs b) = fired call i b"
    and "fired call i (record_deferred cfg call i outcome ds b) = fired call i b"
  using assms by (auto simp: recorders fired_record_edge intro!: fired_record_all)

lemma fired_unscanned [simp]:
  "store_works cfg \<Longrightarrow> fired call i (record_unscanned cfg call i carried es b) = fired call i b"
  by (auto simp: recorders intro!: fired_record_all)

lemma fired_cancelled [simp]:
  assumes "store_works cfg"
  shows "fired call i (record_cancelled_boundary cfg call i es cs still carried b) = fired call i b"
    and "bd_queue (record_cancelled_boundary cfg call i es cs still carried b) = bd_queue b"
  by (simp_all add: record_cancelled_boundary_def assms)

text \<open>
  During the loop: the names still in play are distinct and have no row yet, nothing fired, and the
  contenders stand in the order of the edges.
\<close>

definition scan_fresh :: "'e agent_call \<Rightarrow> edge_input \<Rightarrow> ('x, 'e) run_edge list \<Rightarrow> ('x, 'e) run_edge list \<Rightarrow> ('x, 'e) scan_state \<Rightarrow> bool" where
  "scan_fresh call i edges es st \<longleftrightarrow>
     (case st of (b, carried, cs, still) \<Rightarrow>
        distinct (map ed_name es @ map (ed_name \<circ> fst) cs @ map df_edge still) \<and> carrier_ok carried \<and>
        (fst ` set carried) \<inter> ((ed_name \<circ> fst) ` set cs \<union> df_edge ` set still) = {} \<and>
        (\<forall>n\<in>ed_name ` set es \<union> (ed_name \<circ> fst) ` set cs \<union> df_edge ` set still \<union> fst ` set carried. verdict call i b n = None) \<and>
        fired call i b = {} \<and> subseq (map fst cs @ es) edges)"

lemma subseq_drop_middle: "subseq (xs @ y # ys) zs \<Longrightarrow> subseq (xs @ ys) zs"
proof -
  have "subseq (xs @ ys) (xs @ y # ys)" by (intro list_emb_append_mono) auto
  then show "subseq (xs @ y # ys) zs \<Longrightarrow> subseq (xs @ ys) zs" by (rule subseq_order.trans)
qed

lemma scan_fresh_step:
  assumes "store_works cfg" and "scan_fresh call i edges (e # es) (b, carried, cs, still)"
  shows "scan_fresh call i edges es (b\<lparr>bd_world := w\<rparr>, AList.delete (ed_name e) carried, cs, still)"
    and "outcome \<noteq> Fired \<Longrightarrow> scan_fresh call i edges es
      (record_edge_firing cfg call i (ed_name e) t outcome (b\<lparr>bd_world := w\<rparr>), AList.delete (ed_name e) carried, cs, still)"
    and "scan_fresh call i edges es (b\<lparr>bd_world := w\<rparr>, AList.delete (ed_name e) carried, cs @ [(e, t')], still)"
    and "\<And>d. map_of carried (ed_name e) = Some d \<Longrightarrow>
      scan_fresh call i edges es (b, AList.delete (ed_name e) carried, cs, still @ [d])"
    and "scan_fresh call i edges es (b, carried, cs, still)"
proof -
  let ?names = "(ed_name \<circ> fst) ` set cs \<union> df_edge ` set still"
  have d: "distinct (map ed_name (e # es) @ map (ed_name \<circ> fst) cs @ map df_edge still)" and ok: "carrier_ok carried"
    and apart: "fst ` set carried \<inter> ?names = {}"
    and none: "\<And>n. n \<in> ed_name ` set (e # es) \<union> ?names \<union> fst ` set carried \<Longrightarrow> verdict call i b n = None"
    and f: "fired call i b = {}" and s: "subseq (map fst cs @ e # es) edges"
    using assms(2) by (auto simp: scan_fresh_def)
  have s': "subseq (map fst cs @ es) edges" using s by (simp add: subseq_drop_middle)
  have keys: "fst ` set (AList.delete (ed_name e) carried) = fst ` set carried - {ed_name e}" by (auto simp: gm_delete_set)
  have new: "ed_name e \<notin> ed_name ` set es \<union> ?names" using d by auto
  have less: "verdict call i b n = None \<and> n \<noteq> ed_name e"
    if "n \<in> ed_name ` set es \<union> (ed_name \<circ> fst) ` set cs \<union> df_edge ` set still \<union> (fst ` set carried - {ed_name e})" for n
  proof
    have "n \<in> ed_name ` set (e # es) \<union> ?names \<union> fst ` set carried" using that by (simp only: list.set image_insert) blast
    then show "verdict call i b n = None" by (rule none)
    show "n \<noteq> ed_name e" using that new by blast
  qed
  have e: "verdict call i b (ed_name e) = None" by (rule none) simp
  have frame: "scan_fresh call i edges es (b', AList.delete (ed_name e) carried, cs, still)"
    if "fired call i b' = {}" "\<And>n. n \<noteq> ed_name e \<Longrightarrow> verdict call i b' n = verdict call i b n" for b'
    unfolding scan_fresh_def prod.case keys
  proof (intro conjI ballI)
    show "(fst ` set carried - {ed_name e}) \<inter> ?names = {}" using apart by blast
    show "verdict call i b' n = None"
      if "n \<in> ed_name ` set es \<union> (ed_name \<circ> fst) ` set cs \<union> df_edge ` set still \<union> (fst ` set carried - {ed_name e})" for n
      using less [OF that] \<open>\<And>n. n \<noteq> ed_name e \<Longrightarrow> verdict call i b' n = verdict call i b n\<close> by simp
  qed (use d s' that(1) carrier_ok_delete [OF ok] in simp_all)
  show "scan_fresh call i edges es (b\<lparr>bd_world := w\<rparr>, AList.delete (ed_name e) carried, cs, still)"
    by (rule frame) (simp_all add: f)
  show "outcome \<noteq> Fired \<Longrightarrow> scan_fresh call i edges es
      (record_edge_firing cfg call i (ed_name e) t outcome (b\<lparr>bd_world := w\<rparr>), AList.delete (ed_name e) carried, cs, still)"
    by (rule frame) (simp_all add: f assms(1) verdict_record)
  show "scan_fresh call i edges es (b\<lparr>bd_world := w\<rparr>, AList.delete (ed_name e) carried, cs @ [(e, t')], still)"
    unfolding scan_fresh_def prod.case keys
  proof (intro conjI ballI)
    show "(fst ` set carried - {ed_name e}) \<inter> ((ed_name \<circ> fst) ` set (cs @ [(e, t')]) \<union> df_edge ` set still) = {}"
      using apart by auto
    show "verdict call i (b\<lparr>bd_world := w\<rparr>) n = None"
      if "n \<in> ed_name ` set es \<union> (ed_name \<circ> fst) ` set (cs @ [(e, t')]) \<union> df_edge ` set still \<union> (fst ` set carried - {ed_name e})" for n
      using less [of n] e that by auto
  qed (use d s f carrier_ok_delete [OF ok] in \<open>simp_all add: conj_ac\<close>)
  show "scan_fresh call i edges es (b, AList.delete (ed_name e) carried, cs, still @ [d])"
    if m: "map_of carried (ed_name e) = Some d" for d
  proof -
    have de: "df_edge d = ed_name e" by (rule carrier_ok_lookup [OF ok m])
    show ?thesis unfolding scan_fresh_def prod.case keys
    proof (intro conjI ballI)
      show "(fst ` set carried - {ed_name e}) \<inter> ((ed_name \<circ> fst) ` set cs \<union> df_edge ` set (still @ [d])) = {}"
        using apart de by auto
      show "verdict call i b n = None"
        if "n \<in> ed_name ` set es \<union> (ed_name \<circ> fst) ` set cs \<union> df_edge ` set (still @ [d]) \<union> (fst ` set carried - {ed_name e})" for n
        using less [of n] e de that by auto
    qed (use \<open>distinct (map ed_name (e # es) @ _)\<close> s' f de carrier_ok_delete [OF ok] in \<open>simp_all add: conj_ac\<close>)
  qed
  show "scan_fresh call i edges es (b, carried, cs, still)"
    unfolding scan_fresh_def prod.case
  proof (intro conjI ballI)
    show "verdict call i b n = None"
      if "n \<in> ed_name ` set es \<union> (ed_name \<circ> fst) ` set cs \<union> df_edge ` set still \<union> fst ` set carried" for n
      by (rule none) (use that in \<open>simp only: list.set image_insert, blast\<close>)
  qed (use d apart s' f ok in simp_all)
qed

lemma scan_edges_fresh:
  assumes "store_works cfg" and "scan_fresh call i edges es st" and "bd_queue (fst st) = q"
  shows "case scan_edges cfg err call i es st of
      Inl b \<Rightarrow> fired call i b = {} \<and> bd_queue b = q
    | Inr st' \<Rightarrow> scan_fresh call i edges [] st' \<and> bd_queue (fst st') = q"
  using assms(2,3)
proof (induction es arbitrary: st)
  case (Cons e es)
  obtain b carried cs still where st: "st = (b, carried, cs, still)" by (cases st)
  let ?t = "ed_scan e (bd_world b) call i"
  note step = scan_fresh_step [OF assms(1) Cons.prems(1) [unfolded st]]
  have f: "fired call i b = {}" and q: "bd_queue b = q" using Cons.prems by (simp_all add: st scan_fresh_def)
  show ?case
  proof (cases "err (AfterScan (ed_name e))")
    case True
    then show ?thesis using f q by (simp add: st Let_def fired_cancelled [OF assms(1)] assms(1))
  next
    case alive: False
    show ?thesis
    proof (cases ?t)
      case None
      show ?thesis
      proof (cases "map_of carried (ed_name e)")
        case n2: None
        then show ?thesis using alive None q Cons.IH [OF step(5)] by (simp add: st Let_def)
      next
        case (Some d)
        have "scan_fresh call i edges es
            (record_edge_firing cfg call i (ed_name e) (Some (df_trigger d)) Cleared b, AList.delete (ed_name e) carried, cs, still)"
          using step(2) [of Cleared "Some (df_trigger d)" "bd_world b"] by simp
        from Cons.IH [OF this] Cons.IH [OF step(4) [OF Some]] show ?thesis
          using alive None Some q by (simp add: st Let_def)
      qed
    next
      case (Some t)
      obtain w t' where r: "resolve_edge e (bd_world b) call t = (w, t')" by (cases "resolve_edge e (bd_world b) call t")
      show ?thesis
      proof (cases "silent t")
        case True
        then have h: "the (tg_hint t) \<noteq> Fired" by (auto simp: silent_def)
        have "scan_fresh call i edges es (record_edge_firing cfg call i (ed_name e) (Some t) (the (tg_hint t)) b,
            AList.delete (ed_name e) carried, cs, still)"
          using step(2) [OF h, of "Some t" "bd_world b"] by simp
        from Cons.IH [OF this] show ?thesis using alive Some True q by (simp add: st Let_def)
      next
        case False
        show ?thesis
        proof (cases "ed_resolve e \<noteq> None \<and> err (AfterResolve (ed_name e))")
          case True
          then show ?thesis using alive Some False r f q by (simp add: st Let_def fired_cancelled [OF assms(1)] assms(1))
        next
          case go: False
          let ?o = "if tg_hint t' = Some Degraded then Degraded else Cleared"
          have o: "?o \<noteq> Fired" by simp
          have "scan_edges cfg err call i (e # es) st =
              (if \<not> tg_fire t'
               then scan_edges cfg err call i es (record_edge_firing cfg call i (ed_name e) (Some t') ?o (b\<lparr>bd_world := w\<rparr>),
                      AList.delete (ed_name e) carried, cs, still)
               else scan_edges cfg err call i es (b\<lparr>bd_world := w\<rparr>, AList.delete (ed_name e) carried, cs @ [(e, t')], still))"
            using alive Some False r go by (cases "ed_resolve e") (simp_all add: st Let_def)
          then show ?thesis
            using Cons.IH [OF step(2) [OF o, of "Some t'" w]] Cons.IH [OF step(3) [of w t']]
            using q by (cases "tg_fire t'") simp_all
        qed
      qed
    qed
  qed
qed simp

lemma winners_absent:
  "map_of (map (\<lambda>c. (ed_name (fst c), snd c, winner_outcome c)) ws) n = None \<longleftrightarrow> n \<notin> (ed_name \<circ> fst) ` set ws"
  by (induction ws) auto

lemma fired_winners:
  assumes "store_works cfg" and "distinct (map (ed_name \<circ> fst) ws)"
    and "\<And>n. n \<in> (ed_name \<circ> fst) ` set ws \<Longrightarrow> verdict call i b n = None"
  shows "fired call i (foldl (settle_winner cfg call i) b ws) =
    fired call i b \<union> (ed_name \<circ> fst) ` set (filter (\<lambda>c. prompt_of c \<noteq> '''') ws)"
proof -
  let ?vs = "map (\<lambda>c. (ed_name (fst c), snd c, winner_outcome c)) ws"
  have v: "verdict call i (foldl (settle_winner cfg call i) b ws) n =
      (case map_of ?vs n of None \<Rightarrow> verdict call i b n | Some (t, o') \<Rightarrow> Some (firing_of call i n (Some t) o'))" for n
  proof (cases "map_of ?vs n")
    case None
    then show ?thesis by (simp add: settle_winners [OF assms(1)] split: option.splits)
  next
    case (Some v)
    then have "n \<in> (ed_name \<circ> fst) ` set ws" by (force dest: map_of_SomeD)
    then show ?thesis using assms(3) Some by (simp add: settle_winners [OF assms(1)] split: prod.splits)
  qed
  have m: "map_of ?vs n = Some (snd c, winner_outcome c)" if "c \<in> set ws" "ed_name (fst c) = n" for n c
    using assms(2) that by (intro map_of_is_SomeI) (force simp: comp_def)+
  show ?thesis
  proof (intro equalityI subsetI)
    fix n assume n: "n \<in> fired call i (foldl (settle_winner cfg call i) b ws)"
    show "n \<in> fired call i b \<union> (ed_name \<circ> fst) ` set (filter (\<lambda>c. prompt_of c \<noteq> '''') ws)"
    proof (cases "map_of ?vs n")
      case None
      then show ?thesis using n by (simp add: fired_def v)
    next
      case (Some p)
      then obtain c where c: "c \<in> set ws" "ed_name (fst c) = n" "p = (snd c, winner_outcome c)"
        by (auto dest!: map_of_SomeD)
      then have "winner_outcome c = Fired" using n Some by (auto simp: fired_def v firing_of_def)
      then have "prompt_of c \<noteq> ''''" by (simp add: winner_outcome_def split: if_splits)
      then show ?thesis using c(1,2) by auto
    qed
  next
    fix n assume "n \<in> fired call i b \<union> (ed_name \<circ> fst) ` set (filter (\<lambda>c. prompt_of c \<noteq> '''') ws)"
    then consider (old) "n \<in> fired call i b"
      | (new) c where "c \<in> set ws" "prompt_of c \<noteq> ''''" "ed_name (fst c) = n" by auto
    then show "n \<in> fired call i (foldl (settle_winner cfg call i) b ws)"
    proof cases
      case old
      then have "verdict call i b n \<noteq> None" by (auto simp: fired_def)
      then have "n \<notin> (ed_name \<circ> fst) ` set ws" by (rule contrapos_nn) (rule assms(3))
      then have "map_of ?vs n = None" by (simp only: winners_absent not_False_eq_True)
      then show ?thesis using old by (simp add: fired_def v)
    next
      case new
      then show ?thesis using m [OF new(1,3)] by (simp add: fired_def v winner_outcome_def firing_of_def)
    qed
  qed
qed

text \<open>The decision: either nothing fires and nothing is queued, or one retry is.\<close>

lemma decide_fired:
  assumes "store_works cfg" and "distinct (map (ed_name \<circ> fst) cs)" and "fired call i b = {}"
    and "\<And>n. n \<in> (ed_name \<circ> fst) ` set cs \<Longrightarrow> verdict call i b n = None"
    and "decide_boundary cfg err call i cs still b = (queued, b')"
  shows "if queued
    then \<exists>ws ls. split_winners cs = (ws, ls) \<and> ac_repair_attempts call < max_repair_attempts \<and>
        filter (\<lambda>c. prompt_of c \<noteq> '''') ws \<noteq> [] \<and> bd_queue b' = retry_call call ws ls still # bd_queue b \<and>
        fired call i b' = (ed_name \<circ> fst) ` set (filter (\<lambda>c. prompt_of c \<noteq> '''') ws) \<and>
        \<not> err BeforeEnqueue \<and> \<not> err AtEnqueue
    else bd_queue b' = bd_queue b \<and> fired call i b' = {}"
proof -
  obtain ws ls where ws: "split_winners cs = (ws, ls)" by (cases "split_winners cs")
  have sub: "subseq ws cs" by (rule split_winners_parts(2) [OF ws])
  then have "distinct (map (ed_name \<circ> fst) ws)" using assms(2) by (blast intro: subseq_distinct subseq_map)
  moreover have "\<And>n. n \<in> (ed_name \<circ> fst) ` set ws \<Longrightarrow> verdict call i b n = None"
  proof -
    fix n assume "n \<in> (ed_name \<circ> fst) ` set ws"
    moreover have "set ws \<subseteq> set cs" using split_winners_parts(1) [OF ws] by (metis set_mset_mset set_mset_union sup_ge1)
    ultimately show "verdict call i b n = None" by (intro assms(4)) blast
  qed
  ultimately have f: "fired call i (foldl (settle_winner cfg call i) (b\<lparr>bd_queue := q\<rparr>) ws) =
      (ed_name \<circ> fst) ` set (filter (\<lambda>c. prompt_of c \<noteq> '''') ws)" for q
    using fired_winners [OF assms(1), of ws call i "b\<lparr>bd_queue := q\<rparr>"] assms(3) by simp
  consider (empty) "cs = []" | (spent) "cs \<noteq> []" "max_repair_attempts \<le> ac_repair_attempts call"
    | (silent) "cs \<noteq> []" "\<not> max_repair_attempts \<le> ac_repair_attempts call" "list_all (\<lambda>c. prompt_of c = '''') ws"
    | (dead) "cs \<noteq> []" "\<not> max_repair_attempts \<le> ac_repair_attempts call" "\<not> list_all (\<lambda>c. prompt_of c = '''') ws"
        "err BeforeEnqueue \<or> err AtEnqueue"
    | (go) "cs \<noteq> []" "\<not> max_repair_attempts \<le> ac_repair_attempts call" "\<not> list_all (\<lambda>c. prompt_of c = '''') ws"
        "\<not> (err BeforeEnqueue \<or> err AtEnqueue)" by blast
  then show ?thesis
  proof cases
    case go
    have "filter (\<lambda>c. prompt_of c \<noteq> '''') ws \<noteq> []" using go(3) by (auto simp: filter_empty_conv list_all_iff)
    moreover have "queued" "b' = write_repair_exhaustion (terminal_evidence (ac_repair_attempts call)
           (map contender_parts (filter (\<lambda>c. \<not> tg_session_state (snd c)) ls)))
         (record_deferred cfg call i Deferred still (record_contenders cfg call i Deferred ls
           (foldl (settle_winner cfg call i) (b\<lparr>bd_queue := retry_call call ws ls still # bd_queue b\<rparr>) ws)))"
      using assms(5) go ws by (simp_all add: decide_boundary_def Let_def)
    ultimately show ?thesis using ws go f assms(1) by simp
  qed (use assms(1,3,5) ws in \<open>auto simp: decide_boundary_def collect_dead_deferred_def cancel_contenders_def Let_def\<close>)
qed

text \<open>No edge has a row for this boundary yet.\<close>

definition fresh_boundary :: "'e agent_call \<Rightarrow> edge_input \<Rightarrow> ('x, 'e) boundary \<Rightarrow> bool" where
  "fresh_boundary call i b \<longleftrightarrow>
     \<not> list_ex (\<lambda>r. fr_session r = ac_session call \<and> fr_turn_seq r = firing_turn_seq call i) (bd_rows b)"

lemma fresh_verdict: "fresh_boundary call i b \<Longrightarrow> verdict call i b n = None"
  by (auto simp: fresh_boundary_def verdict_def find_None_iff list_ex_iff)

lemma fired_boundary_call [simp]: "fired (boundary_call mutating call i) i c = fired call i c"
  by (simp add: fired_def)

lemma carrier_names: "carrier_ok carried \<Longrightarrow> df_edge ` snd ` set carried = fst ` set carried"
  by (force simp: carrier_ok_def list_all_iff image_iff)

lemma after_scan:
  assumes "store_works cfg" and "scan_fresh call i edges [] (b, carried, cs, still)"
    and "b1 = record_deferred cfg call i Cleared (map snd carried) b"
  shows "fired call i b1 = {}" and "bd_queue b1 = bd_queue b" and "distinct (map (ed_name \<circ> fst) cs)"
    and "subseq (map fst cs) edges"
    and "\<And>n. n \<in> (ed_name \<circ> fst) ` set cs \<Longrightarrow> verdict call i b1 n = None"
proof -
  have s: "distinct (map (ed_name \<circ> fst) cs @ map df_edge still)" "carrier_ok carried"
    "fst ` set carried \<inter> ((ed_name \<circ> fst) ` set cs \<union> df_edge ` set still) = {}"
    "\<And>n. n \<in> (ed_name \<circ> fst) ` set cs \<Longrightarrow> verdict call i b n = None" "fired call i b = {}"
    "subseq (map fst cs) edges"
    using assms(2) by (auto simp: scan_fresh_def)
  show "fired call i b1 = {}" "bd_queue b1 = bd_queue b" using s(5) by (simp_all add: assms(1,3))
  show "distinct (map (ed_name \<circ> fst) cs)" "subseq (map fst cs) edges" using s(1,6) by simp_all
  fix n assume n: "n \<in> (ed_name \<circ> fst) ` set cs"
  have "n \<notin> df_edge ` set (map snd carried)"
    using n s(3) carrier_names [OF s(2)] by (simp only: list.set_map) blast
  then have "map_of (map (\<lambda>d. (df_edge d, Some (df_trigger d), Cleared)) (map snd carried)) n = None"
    using map_of_names(2) [of Cleared "map snd carried" n] by blast
  then show "verdict call i b1 n = None"
    using s(4) [OF n] by (simp add: assms(3) recorders verdict_record_all [OF assms(1)])
qed

text \<open>The retry a set of winners is merged into.\<close>

lemma retry_of_winners:
  assumes "split_winners cs = (ws, ls)" and "filter (\<lambda>c. prompt_of c \<noteq> '''') ws \<noteq> []"
    and "subseq (map fst cs) edges"
  shows "subseq (map fst (filter (\<lambda>c. prompt_of c \<noteq> '''') ws)) edges"
    and "\<not> (list_ex escalates (filter (\<lambda>c. prompt_of c \<noteq> '''') ws) \<and> length (filter (\<lambda>c. prompt_of c \<noteq> '''') ws) \<noteq> 1)"
    and "ac_repair_attempts (retry_call call ws ls still) = ac_repair_attempts call + 1"
    and "ac_session (retry_call call ws ls still) = ac_session call"
    and "ac_prompt (retry_call call ws ls still) =
      join_with [CHR 0x0A] (map prompt_of (filter (\<lambda>c. prompt_of c \<noteq> '''') ws))"
proof -
  let ?ws = "filter (\<lambda>c. prompt_of c \<noteq> '''') ws"
  show "subseq (map fst ?ws) edges"
    by (rule subseq_order.trans [OF subseq_map [OF subseq_order.trans [OF subseq_filter_left split_winners_parts(2) [OF assms(1)]]] assms(3)])
  show "\<not> (list_ex escalates ?ws \<and> length ?ws \<noteq> 1)"
  proof
    assume e: "list_ex escalates ?ws \<and> length ?ws \<noteq> 1"
    then have "list_ex escalates cs"
      using split_winners_parts(2) [OF assms(1)] by (auto simp: list_ex_iff dest: list_emb_set)
    from split_winners_parts(4) [OF assms(1) this] have "length ws = 1" by blast
    then have "length ?ws \<le> 1" using length_filter_le [of "\<lambda>c. prompt_of c \<noteq> ''''" ws] by linarith
    with e assms(2) show False by (cases ?ws) auto
  qed
  have "filter (\<lambda>p. p \<noteq> '''') (map prompt_of ws) = map prompt_of ?ws" by (simp add: filter_map comp_def)
  then show "ac_repair_attempts (retry_call call ws ls still) = ac_repair_attempts call + 1"
    "ac_session (retry_call call ws ls still) = ac_session call"
    "ac_prompt (retry_call call ws ls still) = join_with [CHR 0x0A] (map prompt_of ?ws)"
    by (simp_all add: retry_call_def)
qed

lemma retry_shape:
  assumes "split_winners cs = (ws, ls)" and "filter (\<lambda>c. prompt_of c \<noteq> '''') ws \<noteq> []"
    and "subseq (map fst cs) edges" and "ac_repair_attempts call < max_repair_attempts"
    and "q = retry_call call ws ls still # q0" and "names = (ed_name \<circ> fst) ` set (filter (\<lambda>c. prompt_of c \<noteq> '''') ws)"
  shows "\<exists>retry ws. q = retry # q0 \<and> ac_repair_attempts retry = ac_repair_attempts call + 1 \<and>
    ac_repair_attempts retry \<le> max_repair_attempts \<and> ac_session retry = ac_session call \<and>
    ac_prompt retry = join_with [CHR 0x0A] (map prompt_of ws) \<and> ws \<noteq> [] \<and> \<not> list_ex (\<lambda>c. prompt_of c = '''') ws \<and>
    set (map (ed_name \<circ> fst) ws) = names \<and> subseq (map fst ws) edges \<and>
    \<not> (list_ex escalates ws \<and> length ws \<noteq> 1)"
proof (rule exI [of _ "retry_call call ws ls still"], rule exI [of _ "filter (\<lambda>c. prompt_of c \<noteq> '''') ws"], intro conjI)
  note r = retry_of_winners [OF assms(1-3)]
  show "ac_repair_attempts (retry_call call ws ls still) \<le> max_repair_attempts"
    using assms(4) r(3) [of call still] by simp
qed (use retry_of_winners [OF assms(1-3)] assms(2,5,6) in \<open>simp_all add: list_ex_iff\<close>)

text \<open>
  C23: a boundary queues at most one retry, in front of the session's queue, and only while the
  budget of two is not spent. The retry's prompt is made of the prompts of exactly the edges whose
  row says fired, in the order of the edges, and an escalation never shares it. Without a retry
  no row says fired and the queue is as it was, wherever the run was cancelled.
\<close>

theorem fired_rows_match_retry:
  assumes "store_works cfg" and "ec_config cfg" and "result_steps i \<noteq> []" and "distinct (map ed_name edges)"
    and "fresh_boundary call i b" and "run_edges cfg err edges mutating call i b = (queued, call', b')"
  shows "if queued
    then \<exists>retry ws. bd_queue b' = retry # bd_queue b \<and> ac_repair_attempts retry = ac_repair_attempts call + 1 \<and>
        ac_repair_attempts retry \<le> max_repair_attempts \<and> ac_session retry = ac_session call \<and>
        ac_prompt retry = join_with [CHR 0x0A] (map prompt_of ws) \<and> ws \<noteq> [] \<and> \<not> list_ex (\<lambda>c. prompt_of c = '''') ws \<and>
        set (map (ed_name \<circ> fst) ws) = fired call i b' \<and> subseq (map fst ws) edges \<and>
        \<not> (list_ex escalates ws \<and> length ws \<noteq> 1)
    else bd_queue b' = bd_queue b \<and> fired call i b' = {}"
proof -
  let ?call = "boundary_call mutating call i"
  have v: "verdict ?call i b n = None" for n using fresh_verdict [OF assms(5)] by simp
  have f0: "fired ?call i b = {}" by (simp add: fired_def fresh_verdict [OF assms(5)])
  have start: "scan_fresh ?call i edges edges (b, carry (ac_deferred call), [], [])"
    unfolding scan_fresh_def prod.case
  proof (intro conjI ballI)
    show "verdict ?call i b n = None" for n by (rule v)
  qed (use f0 assms(4) carrier_ok_carry in simp_all)
  note scan = scan_edges_fresh [OF assms(1) start refl, of err]
  show ?thesis
  proof (cases "err AtEntry")
    case True
    have "fired ?call i (record_unscanned cfg ?call i (carry (ac_deferred call)) edges b) = {}"
      by (simp only: fired_unscanned [OF assms(1)] f0)
    then show ?thesis using True assms(6) by (auto simp: run_edges_live [OF assms(2,3)])
  next
    case live: False
    show ?thesis
    proof (cases "scan_edges cfg err ?call i edges (b, carry (ac_deferred call), [], [])")
      case (Inl c)
      then show ?thesis using assms(6) live scan by (auto simp: run_edges_live [OF assms(2,3)])
    next
      case (Inr st)
      obtain b1 carried cs still where st: "st = (b1, carried, cs, still)" by (cases st)
      define b2 where "b2 = record_deferred cfg ?call i Cleared (map snd carried) b1"
      have fresh: "scan_fresh ?call i edges [] (b1, carried, cs, still)" and q1: "bd_queue b1 = bd_queue b"
        using scan Inr st by simp_all
      note a = after_scan [OF assms(1) fresh b2_def]
      have d: "decide_boundary cfg err ?call i cs still b2 = (queued, b')"
        using assms(6) live Inr st by (simp add: run_edges_live [OF assms(2,3)] b2_def split: prod.splits)
      note dec = decide_fired [OF assms(1) a(3,1,5) d]
      show ?thesis
      proof (cases queued)
        case True
        with dec obtain ws ls where ws: "split_winners cs = (ws, ls)" "ac_repair_attempts ?call < max_repair_attempts"
          "filter (\<lambda>c. prompt_of c \<noteq> '''') ws \<noteq> []" "bd_queue b' = retry_call ?call ws ls still # bd_queue b2"
          "fired ?call i b' = (ed_name \<circ> fst) ` set (filter (\<lambda>c. prompt_of c \<noteq> '''') ws)" by auto
        from retry_shape [OF ws(1,3) a(4) ws(2,4,5)] True a(2) q1 show ?thesis by simp
      next
        case False
        then show ?thesis using dec a(2) q1 by simp
      qed
    qed
  qed
qed

subsection \<open>The budget\<close>

lemma decide_queued:
  assumes "decide_boundary cfg err call i cs still b = (True, b')"
  shows "ac_repair_attempts call < max_repair_attempts \<and> bd_queue b' \<noteq> [] \<and>
    ac_repair_attempts (hd (bd_queue b')) = Suc (ac_repair_attempts call)"
proof -
  have q: "bd_queue (foldl (settle_winner cfg call i) c ws) = bd_queue c" for c ws by (rule settle_winners_queue)
  show ?thesis using assms
    by (auto simp: decide_boundary_def collect_dead_deferred_def Let_def retry_call_def q split: if_splits prod.splits)
qed

lemma run_edges_queued:
  assumes "run_edges cfg err edges mutating call i b = (True, call', b')"
  shows "ac_repair_attempts call < max_repair_attempts \<and> bd_queue b' \<noteq> [] \<and>
    ac_repair_attempts (hd (bd_queue b')) = Suc (ac_repair_attempts call)"
proof -
  have live: "ec_config cfg" "result_steps i \<noteq> []" using assms by (auto simp: run_edges_def split: if_splits)
  then obtain cs still c where "decide_boundary cfg err (boundary_call mutating call i) i cs still c = (True, b')"
    using assms by (auto simp: run_edges_live [OF live] split: if_splits sum.splits prod.splits)
  from decide_queued [OF this] show ?thesis by simp
qed

text \<open>
  A user's call and the retries it leads to: each boundary of the list is the next one; the chain
  goes on with the retry at the head of the queue. The result is the number of retries.
\<close>

fun repair_chain :: "('x, 'e) run_edge list \<Rightarrow> (string \<Rightarrow> string \<Rightarrow> bool) \<Rightarrow>
    (edge_config \<times> (check_point \<Rightarrow> bool) \<times> edge_input \<times> ('x, 'e) boundary) list \<Rightarrow> 'e agent_call \<Rightarrow> nat" where
  "repair_chain edges mutating [] call = 0"
| "repair_chain edges mutating ((cfg, err, i, b) # bs) call =
     (case run_edges cfg err edges mutating call i b of
        (queued, call', b') \<Rightarrow> if queued then Suc (repair_chain edges mutating bs (hd (bd_queue b'))) else 0)"

text \<open>
  C32: whatever the edges find, at most two retries follow a call with a fresh budget, and every one
  uses a unit of it: the harness never keeps a run going by itself for long.
\<close>

theorem repair_chain_bounded:
  "repair_chain edges mutating bs call \<le> max_repair_attempts - ac_repair_attempts call"
proof (induction bs arbitrary: call)
  case (Cons e bs)
  obtain cfg err i b where e: "e = (cfg, err, i, b)" by (cases e)
  obtain queued call' b' where r: "run_edges cfg err edges mutating call i b = (queued, call', b')"
    by (cases "run_edges cfg err edges mutating call i b")
  show ?case
  proof (cases queued)
    case True
    with r have "run_edges cfg err edges mutating call i b = (True, call', b')" by simp
    note q = run_edges_queued [OF this]
    from Cons.IH [of "hd (bd_queue b')"] q show ?thesis by (auto simp: e r True)
  qed (simp add: e r)
qed simp

subsection \<open>Examples\<close>

definition demo_trigger :: "edge_family \<Rightarrow> bool \<Rightarrow> string \<Rightarrow> unit edge_trigger" where
  "demo_trigger family session_state detail =
     \<lparr>tg_fire = True, tg_family = family, tg_variant = '''', tg_hint = None, tg_detail = detail,
      tg_session_state = session_state, tg_report = '''', tg_commit = [], tg_evidence = ()\<rparr>"

definition demo_edge :: "string \<Rightarrow> unit edge_trigger option \<Rightarrow> (unit, unit) run_edge" where
  "demo_edge name t = \<lparr>ed_name = name, ed_scan = (\<lambda>w call i. t), ed_resolve = None, ed_prompt = tg_detail, ed_note = None\<rparr>"

definition demo_call :: "unit deferred_trigger list \<Rightarrow> unit agent_call" where
  "demo_call ds = \<lparr>ac_session = ''s'', ac_prompt = ''go'', ac_non_interactive = False, ac_accepted = False, ac_accept_seq = 0,
     ac_repair_attempts = 0, ac_run_stamp = 1, ac_deferred = ds, ac_burn_watched = False\<rparr>"

definition demo_input :: edge_input where
  "demo_input = \<lparr>ri_steps = Some [\<lparr>st_calls = [], st_results = [], st_finish = FinishStop\<rparr>], ri_input_tokens = 0,
     ri_stalled = False, ri_verify_loop = False, ri_turn_seq = 1, ri_started_at = 0\<rparr>"

definition demo_boundary :: "(unit, unit) boundary" where
  "demo_boundary = \<lparr>bd_world = \<lparr>aw_assistant = None, aw_seen = [], aw_env = ()\<rparr>, bd_rows = [], bd_stats = [], bd_queue = []\<rparr>"

definition demo_config :: edge_config where
  "demo_config = \<lparr>ec_config = True, ec_store = True, ec_insert_fails = (\<lambda>_. False), ec_stats = True\<rparr>"

definition demo_edges :: "(unit, unit) run_edge list" where
  "demo_edges = [demo_edge ''todos'' (Some (demo_trigger RetryFamily True ''todo'')), demo_edge ''stall'' None,
     demo_edge ''burn-watch'' (Some (demo_trigger EscalateFamily False ''ask''))]"

definition demo_run :: "bool \<times> unit agent_call \<times> (unit, unit) boundary" where
  "demo_run = run_edges demo_config (\<lambda>_. False) demo_edges (\<lambda>_ _. False) (demo_call []) demo_input demo_boundary"

lemma demo_facts:
  "store_works demo_config" "ec_config demo_config" "result_steps demo_input \<noteq> []"
  "distinct (map ed_name demo_edges)" "fresh_boundary (demo_call []) demo_input demo_boundary"
  "fst demo_run" "map ac_prompt (bd_queue (snd (snd demo_run))) = [''ask'']"
  "verdict (demo_call []) demo_input (snd (snd demo_run)) ''stall'' = None"
proof -
  show "store_works demo_config" by (simp add: store_works_def demo_config_def)
qed code_simp+

lemma demo_run_eq:
  "run_edges demo_config (\<lambda>_. False) demo_edges (\<lambda>_ _. False) (demo_call []) demo_input demo_boundary =
     (fst demo_run, fst (snd demo_run), snd (snd demo_run))"
  by (simp add: demo_run_def)

theorem no_row_means_clean_witness:
  "(''stall'', None) \<in> set (evaluated (fst (snd demo_run)) demo_input demo_edges (bd_world demo_boundary))"
proof -
  have "''stall'' \<in> ed_name ` set demo_edges" by (simp add: demo_edges_def demo_edge_def)
  from no_row_means_clean [OF demo_facts(1,2,3) demo_run_eq this] demo_facts(8)
  show ?thesis unfolding clean_edge_def by blast
qed

theorem fired_rows_match_retry_witness:
  "bd_queue (snd (snd demo_run)) \<noteq> [] \<and> fired (demo_call []) demo_input (snd (snd demo_run)) \<noteq> {}"
  using fired_rows_match_retry [OF demo_facts(1-5) demo_run_eq] demo_facts(6) by auto

text \<open>
  A deferred trigger waits for an edge whose scan finds nothing and during which the run is
  cancelled: the row is written without the trigger, and the later row that has its detail is
  ignored.
\<close>

lemma cancelled_scan_loses_detail:
  "let d = \<lparr>df_edge = ''todos'', df_note = None, df_trigger = demo_trigger RetryFamily True ''open=2''\<rparr>;
       err = (\<lambda>p. case p of AfterScan n \<Rightarrow> n = ''todos'' | _ \<Rightarrow> False);
       r = run_edges demo_config err [demo_edge ''todos'' None] (\<lambda>_ _. False) (demo_call [d]) demo_input demo_boundary
   in map (\<lambda>r. (fr_edge r, fr_outcome r, fr_detail r)) (bd_rows (snd (snd r))) = [(''todos'', Cancelled, '''')]"
  by code_simp

end
