(* ===== verification/VerifyGate.thy ===== *)
theory VerifyGate
  imports Message LoopDetection
begin

text \<open>
  The verification gate: internal/agent/verify_gate.go and internal/message/verification.go. Tool
  metadata is JSON read by gjson and encoding/json; the argument \<open>meta\<close> is what the code reads of
  it, \<open>encode\<close> and \<open>decode\<close> stand for the list under the \<open>verification\<close> key. Running a shell command
  is the argument \<open>run\<close>; what the run of a check came to is a record with everything the code looks
  at.
\<close>

subsection \<open>Checks\<close>

definition verification_passed :: string where "verification_passed = ''passed''"
definition verification_failed :: string where "verification_failed = ''failed''"
definition verification_pending :: string where "verification_pending = ''pending''"
definition verification_unverified :: string where "verification_unverified = ''unverified''"

lemmas verification_states = verification_passed_def verification_failed_def verification_pending_def verification_unverified_def

record verification_check =
  vc_check :: string
  vc_state :: string
  vc_detail :: string
  vc_path :: string
  vc_command :: string
  vc_timeout :: int

definition check_identity :: "verification_check \<Rightarrow> string" where
  "check_identity c = (if vc_path c = '''' then vc_check c else vc_check c @ nul @ vc_path c)"

record gate_check_outcome =
  go_call_id :: string
  go_step :: nat
  go_check :: verification_check
  go_output :: string

record observed_bash =
  ob_step :: int
  ob_command :: string
  ob_is_error :: bool
  ob_output :: string

subsection \<open>Scanning the steps\<close>

text \<open>\<open>tm_verification\<close> is \<open>None\<close> where the metadata does not decode.\<close>

record tool_meta =
  tm_shell_id :: string
  tm_done :: bool
  tm_command :: string
  tm_exit_code :: "int option"
  tm_verification :: "verification_check list option"

definition is_error_output :: "output_content option \<Rightarrow> bool" where
  "is_error_output r = (case r of Some (OutError e) \<Rightarrow> True | _ \<Rightarrow> False)"

definition tool_result_text :: "result_content \<Rightarrow> string" where
  "tool_result_text r =
     (case rc_output r of
        Some (OutText t) \<Rightarrow> t
      | Some (OutError (Some m)) \<Rightarrow> m
      | _ \<Rightarrow> '''')"


type_synonym gate_scan =
  "gate_check_outcome list \<times> gate_check_outcome list \<times> observed_bash list \<times> (string, nat) gomap"

definition add_check :: "string \<Rightarrow> nat \<Rightarrow> string \<Rightarrow> gate_check_outcome list \<times> gate_check_outcome list \<Rightarrow> verification_check \<Rightarrow>
    gate_check_outcome list \<times> gate_check_outcome list" where
  "add_check call_id step out acc c =
     (case acc of (failed, pending) \<Rightarrow>
        let o' = \<lparr>go_call_id = call_id, go_step = step, go_check = c, go_output = out\<rparr>
        in if vc_state c = verification_failed then (failed @ [o'], pending)
           else if vc_state c = verification_pending then (failed, pending @ [o'])
           else (failed, pending))"

text \<open>One tool result; \<open>cmds\<close> are the bash commands of the step by call.\<close>

definition scan_result :: "(string \<Rightarrow> tool_meta) \<Rightarrow> nat \<Rightarrow> (string, string) gomap \<Rightarrow> gate_scan \<Rightarrow> result_content \<Rightarrow> gate_scan" where
  "scan_result meta step cmds acc r =
     (case acc of (failed, pending, observed, launches) \<Rightarrow>
        let m = meta (rc_metadata r)
        in if rc_name r = ''bash'' \<or> rc_name r = ''job_output''
           then if rc_name r = ''bash'' \<and> tm_shell_id m \<noteq> '''' \<and> \<not> tm_done m
                then (failed, pending, observed, AList.update (tm_shell_id m) step launches)
                else if \<not> tm_done m \<and> \<not> is_error_output (rc_output r) then acc
                else let cmd = (if rc_name r = ''job_output'' then tm_command m
                                else case map_of cmds (rc_call_id r) of None \<Rightarrow> '''' | Some c \<Rightarrow> c);
                         verdict_step = (if rc_name r = ''job_output''
                                then (case map_of launches (tm_shell_id m) of None \<Rightarrow> -1 | Some l \<Rightarrow> int l)
                                else int step)
                in if cmd = '''' then acc
                   else (failed, pending,
                         observed @ [\<lparr>ob_step = verdict_step, ob_command = cmd,
                                      ob_is_error = (case tm_exit_code m of None \<Rightarrow> is_error_output (rc_output r) | Some e \<Rightarrow> e \<noteq> 0),
                                      ob_output = tool_result_text r\<rparr>],
                         launches)
           else if rc_name r \<in> set write_tool_names \<and> rc_metadata r \<noteq> ''''
           then case tm_verification m of
                  None \<Rightarrow> acc
                | Some checks \<Rightarrow>
                    (case foldl (add_check (rc_call_id r) step (tool_result_text r)) (failed, pending) checks of
                       (failed', pending') \<Rightarrow> (failed', pending', observed, launches))
           else acc)"

definition bash_commands :: "(string \<Rightarrow> string) \<Rightarrow> step_result \<Rightarrow> (string, string) gomap" where
  "bash_commands command_of s =
     foldl (\<lambda>m c. if cc_name c = ''bash'' then AList.update (cc_id c) (command_of (cc_input c)) m else m) [] (st_calls s)"

fun scan_steps :: "(string \<Rightarrow> tool_meta) \<Rightarrow> (string \<Rightarrow> string) \<Rightarrow> nat \<Rightarrow> gate_scan \<Rightarrow> step_result list \<Rightarrow> gate_scan" where
  "scan_steps meta command_of i acc [] = acc"
| "scan_steps meta command_of i acc (s # ss) =
     scan_steps meta command_of (Suc i) (foldl (scan_result meta i (bash_commands command_of s)) acc (st_results s)) ss"

definition scan_verification :: "(string \<Rightarrow> tool_meta) \<Rightarrow> (string \<Rightarrow> string) \<Rightarrow> step_result list \<Rightarrow>
    gate_check_outcome list \<times> gate_check_outcome list \<times> observed_bash list" where
  "scan_verification meta command_of steps =
     (case scan_steps meta command_of 0 ([], [], [], []) steps of
        (failed, pending, observed, launches) \<Rightarrow> (failed, pending, observed))"

subsection \<open>Resolving pending checks\<close>

record resolved_check =
  rv_state :: string
  rv_detail :: string
  rv_output :: string

text \<open>
  What \<open>shell.RunAndCapture\<close> under the check's deadline comes to: \<open>sr_cancelled\<close> says that the run
  itself was cancelled meanwhile, \<open>sr_deadline\<close> that the deadline fired.
\<close>

record shell_run =
  sr_output :: string
  sr_exit_code :: int
  sr_error :: "string option"
  sr_deadline :: bool
  sr_cancelled :: bool

text \<open>The checks by identity, first occurrence each, with the last step that recorded one.\<close>

definition add_unique :: "(verification_check \<times> nat) list \<Rightarrow> gate_check_outcome \<Rightarrow> (verification_check \<times> nat) list" where
  "add_unique us p =
     (if list_ex (\<lambda>(c, s). check_identity c = check_identity (go_check p)) us
      then map (\<lambda>(c, s). if check_identity c = check_identity (go_check p) \<and> go_step p > s then (c, go_step p) else (c, s)) us
      else us @ [(go_check p, go_step p)])"

definition unique_checks :: "gate_check_outcome list \<Rightarrow> (verification_check \<times> nat) list" where
  "unique_checks pending = foldl add_unique [] pending"

definition check_timeout :: "verification_check \<Rightarrow> int" where
  "check_timeout c = (if vc_timeout c \<le> 0 then 120 else vc_timeout c)"

definition run_verdict :: "(int \<Rightarrow> string) \<Rightarrow> verification_check \<Rightarrow> shell_run \<Rightarrow> resolved_check" where
  "run_verdict duration c r =
     (if sr_deadline r
      then \<lparr>rv_state = verification_failed, rv_detail = ''timed out after '' @ duration (check_timeout c), rv_output = sr_output r\<rparr>
      else case sr_error r of
        Some e \<Rightarrow> \<lparr>rv_state = verification_failed, rv_detail = e, rv_output = sr_output r\<rparr>
      | None \<Rightarrow>
          if sr_exit_code r \<noteq> 0
          then \<lparr>rv_state = verification_failed, rv_detail = ''exit code '' @ int_str (sr_exit_code r), rv_output = sr_output r\<rparr>
          else \<lparr>rv_state = verification_passed, rv_detail = '''', rv_output = sr_output r\<rparr>)"

text \<open>
  The loop over the checks. The result also lists the commands that were executed, in order: each
  is recorded in the command memory.
\<close>

fun resolve_checks :: "(int \<Rightarrow> string) \<Rightarrow> (verification_check \<Rightarrow> shell_run) \<Rightarrow> observed_bash list \<Rightarrow>
    (string, resolved_check) gomap \<times> (string \<times> shell_run) list \<Rightarrow> (verification_check \<times> nat) list \<Rightarrow>
    (string, resolved_check) gomap \<times> (string \<times> shell_run) list" where
  "resolve_checks duration run observed acc [] = acc"
| "resolve_checks duration run observed (out, recorded) ((c, latest) # us) =
     (if vc_command c = ''''
      then resolve_checks duration run observed
             (AList.update (check_identity c)
                \<lparr>rv_state = verification_unverified, rv_detail = ''no command to run'', rv_output = ''''\<rparr> out, recorded) us
      else case find (\<lambda>b. ob_command b = vc_command c \<and> ob_step b > int latest) observed of
        Some b \<Rightarrow>
          resolve_checks duration run observed
            (AList.update (check_identity c)
               \<lparr>rv_state = (if ob_is_error b then verification_failed else verification_passed),
                rv_detail = ''observed via bash run'', rv_output = ob_output b\<rparr> out, recorded) us
      | None \<Rightarrow>
          let r = run c; recorded' = recorded @ [(vc_command c, r)]
          in if sr_cancelled r then (out, recorded')
             else resolve_checks duration run observed
                    (AList.update (check_identity c) (run_verdict duration c r) out, recorded') us)"

definition run_gate_checks :: "(int \<Rightarrow> string) \<Rightarrow> (verification_check \<Rightarrow> shell_run) \<Rightarrow> gate_check_outcome list \<Rightarrow> observed_bash list \<Rightarrow>
    (string, resolved_check) gomap \<times> (string \<times> shell_run) list" where
  "run_gate_checks duration run pending observed = resolve_checks duration run observed ([], []) (unique_checks pending)"

subsection \<open>Writing the outcomes back\<close>

text \<open>The list part of \<open>mergeVerificationResolved\<close>: entries of the update's identity are replaced.\<close>

definition merge_one :: "verification_check list \<Rightarrow> verification_check \<Rightarrow> verification_check list" where
  "merge_one checks u =
     (if list_ex (\<lambda>c. check_identity c = check_identity u) checks
      then map (\<lambda>c. if check_identity c = check_identity u then u else c) checks
      else checks @ [u])"

definition merge_verification_resolved :: "verification_check list \<Rightarrow> verification_check list \<Rightarrow> verification_check list" where
  "merge_verification_resolved checks updates = foldl merge_one checks updates"

text \<open>\<open>unionVerificationChecks\<close> on the two lists, undecodable entries left out; \<open>order\<close> and \<open>merged\<close>.\<close>

definition union_step :: "string list \<times> (string, verification_check) gomap \<Rightarrow> verification_check \<Rightarrow>
    string list \<times> (string, verification_check) gomap" where
  "union_step acc c =
     (case acc of (order, merged) \<Rightarrow>
        if vc_check c = '''' then acc
        else case map_of merged (check_identity c) of
          None \<Rightarrow> (order @ [check_identity c], AList.update (check_identity c) c merged)
        | Some prev \<Rightarrow>
            if vc_state prev \<noteq> verification_pending then acc
            else (order, AList.update (check_identity c) c merged))"

definition union_verification_checks :: "verification_check list \<Rightarrow> verification_check list \<Rightarrow> verification_check list" where
  "union_verification_checks stored incoming =
     (case foldl union_step ([], []) (stored @ incoming) of
        (order, merged) \<Rightarrow> map (\<lambda>i. the (map_of merged i)) order)"

definition group_by_call :: "gate_check_outcome list \<Rightarrow> (string, verification_check list) gomap" where
  "group_by_call resolved =
     foldl (\<lambda>m o'. AList.update (go_call_id o')
              ((case map_of m (go_call_id o') of None \<Rightarrow> [] | Some cs \<Rightarrow> cs) @ [go_check o']) m) [] resolved"

text \<open>
  The message rewrite of \<open>writeVerificationOutcomes\<close>, up to the merge with the stored marks; the
  flag says whether the message is written. \<open>merge\<close> is \<open>mergeVerificationResolved\<close> on metadata.
\<close>

definition write_outcomes_part :: "(string \<Rightarrow> verification_check list \<Rightarrow> string) \<Rightarrow> (string, verification_check list) gomap \<Rightarrow>
    content_part \<Rightarrow> content_part" where
  "write_outcomes_part merge by_call p =
     (case p of
        Result tr \<Rightarrow>
          (case map_of by_call (tr_call_id tr) of
             None \<Rightarrow> p
           | Some cs \<Rightarrow> Result (tr\<lparr>tr_metadata := merge (tr_metadata tr) cs\<rparr>))
      | _ \<Rightarrow> p)"

definition write_outcomes :: "(string \<Rightarrow> verification_check list \<Rightarrow> string) \<Rightarrow> gate_check_outcome list \<Rightarrow> message \<Rightarrow> message \<times> bool" where
  "write_outcomes merge resolved m =
     (let by_call = group_by_call resolved
      in if resolved = [] \<or> m_role m \<noteq> ToolRole then (m, False)
         else (m\<lparr>m_parts := map (write_outcomes_part merge by_call) (m_parts m)\<rparr>,
               list_ex (\<lambda>p. case p of Result tr \<Rightarrow> map_of by_call (tr_call_id tr) \<noteq> None | _ \<Rightarrow> False) (m_parts m)))"

definition first_line :: "string \<Rightarrow> string" where
  "first_line s = takeWhile (\<lambda>c. c \<noteq> CHR 0x0A) s"

subsection \<open>Verdicts never regress\<close>

text \<open>The verdict of an identity: the first one that is not pending, else the latest.\<close>

definition named_checks :: "verification_check list \<Rightarrow> string \<Rightarrow> verification_check list" where
  "named_checks cs i = filter (\<lambda>c. vc_check c \<noteq> '''' \<and> check_identity c = i) cs"

definition settled :: "verification_check list \<Rightarrow> string \<Rightarrow> verification_check" where
  "settled cs i =
     (case find (\<lambda>c. vc_state c \<noteq> verification_pending) (named_checks cs i) of
        Some c \<Rightarrow> c
      | None \<Rightarrow> last (named_checks cs i))"

lemma find_last: "find P (xs @ [x]) = (case find P xs of None \<Rightarrow> if P x then Some x else None | Some y \<Rightarrow> Some y)"
  by (induction xs) auto

lemma settled_member:
  assumes "named_checks cs i \<noteq> []"
  shows "settled cs i \<in> set cs" and "check_identity (settled cs i) = i" and "vc_check (settled cs i) \<noteq> ''''"
proof -
  have "settled cs i \<in> set (named_checks cs i)"
    using assms by (auto simp: settled_def find_Some_iff split: option.splits)
  then show "settled cs i \<in> set cs" "check_identity (settled cs i) = i" "vc_check (settled cs i) \<noteq> ''''"
    by (auto simp: named_checks_def)
qed

lemma settled_pending:
  assumes "named_checks cs i \<noteq> []"
  shows "vc_state (settled cs i) = verification_pending \<longleftrightarrow>
    find (\<lambda>c. vc_state c \<noteq> verification_pending) (named_checks cs i) = None"
proof (cases "find (\<lambda>c. vc_state c \<noteq> verification_pending) (named_checks cs i)")
  case None
  then have "\<forall>c\<in>set (named_checks cs i). vc_state c = verification_pending" by (auto simp: find_None_iff)
  then show ?thesis using assms None by (simp add: settled_def)
next
  case (Some c)
  then have "vc_state c \<noteq> verification_pending" by (auto simp: find_Some_iff)
  then show ?thesis using Some by (simp add: settled_def)
qed

lemma named_snoc:
  "named_checks (cs @ [c]) i = named_checks cs i @ (if vc_check c \<noteq> '''' \<and> check_identity c = i then [c] else [])"
  by (simp add: named_checks_def)

lemma settled_snoc:
  "check_identity c = i \<Longrightarrow> vc_check c \<noteq> '''' \<Longrightarrow> settled (cs @ [c]) i =
     (if named_checks cs i \<noteq> [] \<and> vc_state (settled cs i) \<noteq> verification_pending then settled cs i else c)"
  "check_identity c \<noteq> i \<or> vc_check c = '''' \<Longrightarrow> settled (cs @ [c]) i = settled cs i"
proof -
  show "settled (cs @ [c]) i = settled cs i" if "check_identity c \<noteq> i \<or> vc_check c = ''''"
  proof -
    have "named_checks (cs @ [c]) i = named_checks cs i" using that by (auto simp: named_snoc)
    then show ?thesis unfolding settled_def by (rule ssubst) (rule refl)
  qed
  assume c: "check_identity c = i" "vc_check c \<noteq> ''''"
  then have n: "named_checks (cs @ [c]) i = named_checks cs i @ [c]" by (simp add: named_snoc)
  show "settled (cs @ [c]) i =
      (if named_checks cs i \<noteq> [] \<and> vc_state (settled cs i) \<noteq> verification_pending then settled cs i else c)"
  proof (cases "named_checks cs i = []")
    case True
    then show ?thesis by (simp add: settled_def n)
  next
    case False
    show ?thesis
    proof (cases "find (\<lambda>c. vc_state c \<noteq> verification_pending) (named_checks cs i)")
      case None
      then have "settled (cs @ [c]) i = c" by (simp add: settled_def n find_last)
      then show ?thesis using settled_pending [OF False] None by simp
    next
      case (Some d)
      then have "settled (cs @ [c]) i = settled cs i" by (simp add: settled_def n find_last)
      then show ?thesis using settled_pending [OF False] False Some by simp
    qed
  qed
qed

text \<open>
  The distinct elements of a list, each where it first occurs (\<open>remdups\<close> keeps the last occurrences,
  hence the reversals).
\<close>

definition first_occurrences :: "'a list \<Rightarrow> 'a list" where
  "first_occurrences xs = rev (remdups (rev xs))"

lemma first_occurrences_simps [simp]:
  "first_occurrences [] = []"
  "first_occurrences (xs @ [x]) =
     (if x \<in> set xs then first_occurrences xs else first_occurrences xs @ [x])"
  "set (first_occurrences xs) = set xs" "distinct (first_occurrences xs)"
  by (simp_all add: first_occurrences_def)

abbreviation named_ids :: "verification_check list \<Rightarrow> string list" where
  "named_ids cs \<equiv> map check_identity (filter (\<lambda>c. vc_check c \<noteq> '''') cs)"

lemma named_ids_in: "i \<in> set (named_ids cs) \<longleftrightarrow> named_checks cs i \<noteq> []"
  by (auto simp: named_checks_def filter_empty_conv)

lemma union_fold:
  "case foldl union_step ([], []) cs of (order, merged) \<Rightarrow>
     order = first_occurrences (named_ids cs) \<and>
     (\<forall>i. map_of merged i = (if named_checks cs i = [] then None else Some (settled cs i)))"
proof (induction cs rule: rev_induct)
  case Nil
  then show ?case by (simp add: named_checks_def)
next
  case (snoc c cs)
  obtain order merged where f: "foldl union_step ([], []) cs = (order, merged)" by (cases "foldl union_step ([], []) cs")
  let ?i = "check_identity c"
  from snoc.IH have ih: "order = first_occurrences (named_ids cs)"
    "\<And>i. map_of merged i = (if named_checks cs i = [] then None else Some (settled cs i))"
    by (simp_all add: f)
  have mem: "?i \<in> set (named_ids cs) \<longleftrightarrow> named_checks cs ?i \<noteq> []" by (rule named_ids_in)
  show ?case
  proof (cases "vc_check c = ''''")
    case True
    then have eq: "foldl union_step ([], []) (cs @ [c]) = (order, merged)" by (simp add: f union_step_def)
    show ?thesis unfolding eq prod.case using ih True by (auto simp: settled_snoc named_snoc)
  next
    case False
    show ?thesis
    proof (cases "named_checks cs ?i = []")
      case True
      then have "foldl union_step ([], []) (cs @ [c]) = (order @ [?i], AList.update ?i c merged)"
        using False ih(2) by (simp add: f union_step_def)
      then show ?thesis using ih False True mem by (auto simp: settled_snoc named_snoc)
    next
      case old: False
      then have m: "map_of merged ?i = Some (settled cs ?i)" using ih(2) by simp
      have ins: "?i \<in> set (named_ids cs)" using mem old by blast
      show ?thesis
      proof (cases "vc_state (settled cs ?i) = verification_pending")
        case True
        then have "foldl union_step ([], []) (cs @ [c]) = (order, AList.update ?i c merged)"
          using False m by (simp add: f union_step_def)
        then show ?thesis using ih False True old ins by (auto simp: settled_snoc named_snoc)
      next
        case res: False
        then have eq: "foldl union_step ([], []) (cs @ [c]) = (order, merged)" using False m by (simp add: f union_step_def)
        have "settled (cs @ [c]) i = settled cs i" for i
          using res old False by (cases "i = ?i") (simp_all add: settled_snoc)
        then show ?thesis unfolding eq prod.case using ih False old ins by (auto simp: settled_snoc named_snoc)
      qed
    qed
  qed
qed

text \<open>
  C28: merging the checks of a stored result with those of a rewrite made from an older copy keeps
  one entry per named check and loses none, in the order in which the checks first appear, stored
  ones first; the entry is the first resolved one, so a verdict the gate has written is never
  replaced, least of all by pending, and a check that is pending on both sides takes the incoming
  copy.
\<close>

theorem union_keeps_verdicts:
  "distinct (map check_identity (union_verification_checks stored incoming)) \<and>
   map check_identity (union_verification_checks stored incoming) =
     first_occurrences (map check_identity (filter (\<lambda>c. vc_check c \<noteq> '''') (stored @ incoming))) \<and>
   set (map check_identity (union_verification_checks stored incoming)) =
     set (map check_identity (filter (\<lambda>c. vc_check c \<noteq> '''') (stored @ incoming))) \<and>
   list_all (\<lambda>c. c = settled (stored @ incoming) (check_identity c)) (union_verification_checks stored incoming)"
proof -
  let ?cs = "stored @ incoming"
  obtain order merged where f: "foldl union_step ([], []) ?cs = (order, merged)" by (cases "foldl union_step ([], []) ?cs")
  from union_fold [of ?cs] have inv: "order = first_occurrences (named_ids ?cs)"
    "\<And>i. map_of merged i = (if named_checks ?cs i = [] then None else Some (settled ?cs i))"
    unfolding f prod.case by blast+
  have nonempty: "named_checks ?cs i \<noteq> []" if "i \<in> set order" for i
    using that named_ids_in [of i ?cs] unfolding inv(1) first_occurrences_simps(3) by simp
  have u: "union_verification_checks stored incoming = map (settled ?cs) order"
    unfolding union_verification_checks_def f prod.case
    by (rule map_cong [OF refl]) (use nonempty inv(2) in simp)
  have ids: "check_identity (settled ?cs i) = i" if "i \<in> set order" for i
    by (rule settled_member(2) [OF nonempty [OF that]])
  then have m: "map check_identity (map (settled ?cs) order) = order" by (simp add: map_idI)
  have "list_all (\<lambda>c. c = settled ?cs (check_identity c)) (map (settled ?cs) order)"
    using ids by (simp only: list_all_iff) simp
  then show ?thesis
    unfolding u m unfolding inv(1) by (simp only: first_occurrences_simps(3,4) simp_thms)
qed

subsection \<open>What a verdict rests on\<close>

text \<open>The pending entries of a check, the first of them, and the last step one was recorded on.\<close>

definition entries_of :: "gate_check_outcome list \<Rightarrow> string \<Rightarrow> gate_check_outcome list" where
  "entries_of pending i = filter (\<lambda>p. check_identity (go_check p) = i) pending"

lemma entries_snoc: "entries_of (ps @ [p]) i = entries_of ps i @ (if check_identity (go_check p) = i then [p] else [])"
  by (simp add: entries_of_def)

lemma unique_checks_spec:
  "distinct (map (check_identity \<circ> fst) (unique_checks ps)) \<and>
   set (map (check_identity \<circ> fst) (unique_checks ps)) = set (map (check_identity \<circ> go_check) ps) \<and>
   (\<forall>(c, s)\<in>set (unique_checks ps). entries_of ps (check_identity c) \<noteq> [] \<and>
      c = go_check (hd (entries_of ps (check_identity c))) \<and>
      (\<forall>p\<in>set (entries_of ps (check_identity c)). go_step p \<le> s))"
proof (induction ps rule: rev_induct)
  case Nil
  then show ?case by (simp add: unique_checks_def)
next
  case (snoc p ps)
  let ?i = "check_identity (go_check p)" and ?us = "unique_checks ps"
  from snoc.IH have ih: "distinct (map (check_identity \<circ> fst) ?us)"
    "set (map (check_identity \<circ> fst) ?us) = set (map (check_identity \<circ> go_check) ps)"
    "\<And>c s. (c, s) \<in> set ?us \<Longrightarrow> entries_of ps (check_identity c) \<noteq> [] \<and>
      c = go_check (hd (entries_of ps (check_identity c))) \<and> (\<forall>p\<in>set (entries_of ps (check_identity c)). go_step p \<le> s)"
    by (blast, blast, fast)
  have step: "unique_checks (ps @ [p]) = add_unique ?us p" by (simp add: unique_checks_def)
  have ex: "list_ex (\<lambda>(c, s). check_identity c = ?i) ?us \<longleftrightarrow> ?i \<in> set (map (check_identity \<circ> go_check) ps)"
    unfolding ih(2) [symmetric] by (force simp: list_ex_iff)
  show ?case
  proof (cases "list_ex (\<lambda>(c, s). check_identity c = ?i) ?us")
    case True
    let ?f = "\<lambda>(c, s). if check_identity c = ?i \<and> go_step p > s then (c, go_step p) else (c, s)"
    have us: "unique_checks (ps @ [p]) = map ?f ?us" using True by (simp add: step add_unique_def)
    have ids: "map (check_identity \<circ> fst) (map ?f ?us) = map (check_identity \<circ> fst) ?us" by (auto simp: split_def)
    have "entries_of (ps @ [p]) (check_identity c) \<noteq> [] \<and> c = go_check (hd (entries_of (ps @ [p]) (check_identity c))) \<and>
        (\<forall>q\<in>set (entries_of (ps @ [p]) (check_identity c)). go_step q \<le> s)" if "(c, s) \<in> set (map ?f ?us)" for c s
    proof -
      from that obtain s0 where s0: "(c, s0) \<in> set ?us" "s0 \<le> s" "check_identity c = ?i \<longrightarrow> go_step p \<le> s"
        by (auto split: if_splits)
      note old = ih(3) [OF s0(1)]
      have "\<forall>q\<in>set (entries_of ps (check_identity c)). go_step q \<le> s" using old s0(2) by (meson order_trans)
      then show ?thesis using old s0(3) by (auto simp: entries_snoc)
    qed
    then have "\<forall>(c, s)\<in>set (map ?f ?us). entries_of (ps @ [p]) (check_identity c) \<noteq> [] \<and>
        c = go_check (hd (entries_of (ps @ [p]) (check_identity c))) \<and>
        (\<forall>q\<in>set (entries_of (ps @ [p]) (check_identity c)). go_step q \<le> s)" by blast
    moreover have "set (map (check_identity \<circ> go_check) (ps @ [p])) = set (map (check_identity \<circ> go_check) ps)"
      using True ex by auto
    ultimately show ?thesis unfolding us ids using ih(1,2) by (simp only: simp_thms)
  next
    case False
    then have us: "unique_checks (ps @ [p]) = ?us @ [(go_check p, go_step p)]" by (simp add: step add_unique_def)
    have "\<forall>q\<in>set ps. check_identity (go_check q) \<noteq> ?i"
    proof
      fix q assume "q \<in> set ps"
      then have "check_identity (go_check q) \<in> set (map (check_identity \<circ> go_check) ps)" by simp
      with False ex show "check_identity (go_check q) \<noteq> ?i" by metis
    qed
    then have new: "entries_of ps ?i = []" by (simp add: entries_of_def filter_empty_conv)
    have "entries_of (ps @ [p]) (check_identity c) \<noteq> [] \<and> c = go_check (hd (entries_of (ps @ [p]) (check_identity c))) \<and>
        (\<forall>q\<in>set (entries_of (ps @ [p]) (check_identity c)). go_step q \<le> s)"
      if "(c, s) \<in> set (?us @ [(go_check p, go_step p)])" for c s
    proof (cases "(c, s) \<in> set ?us")
      case True
      then have "check_identity c \<noteq> ?i" using ih(3) [OF True] new by auto
      then show ?thesis using ih(3) [OF True] by (simp add: entries_snoc)
    next
      case False
      then show ?thesis using that new by (simp add: entries_snoc)
    qed
    then have "\<forall>(c, s)\<in>set (?us @ [(go_check p, go_step p)]). entries_of (ps @ [p]) (check_identity c) \<noteq> [] \<and>
        c = go_check (hd (entries_of (ps @ [p]) (check_identity c))) \<and>
        (\<forall>q\<in>set (entries_of (ps @ [p]) (check_identity c)). go_step q \<le> s)" by blast
    moreover have "?i \<notin> set (map (check_identity \<circ> fst) ?us)" using False ex ih(2) by simp
    then have "distinct (map (check_identity \<circ> fst) (?us @ [(go_check p, go_step p)]))" using ih(1) by simp
    moreover have "set (map (check_identity \<circ> fst) (?us @ [(go_check p, go_step p)])) =
        set (map (check_identity \<circ> go_check) (ps @ [p]))" using ih(2) by (simp only: map_append set_append) simp
    ultimately show ?thesis unfolding us by (simp only: simp_thms)
  qed
qed

text \<open>What supports a passed check: the command ran, after the last write the check covers.\<close>

definition supported :: "(verification_check \<Rightarrow> shell_run) \<Rightarrow> observed_bash list \<Rightarrow> (string \<times> shell_run) list \<Rightarrow> verification_check \<Rightarrow> nat \<Rightarrow> bool" where
  "supported run observed recorded c latest \<longleftrightarrow> vc_command c \<noteq> '''' \<and>
     (list_ex (\<lambda>b. ob_command b = vc_command c \<and> \<not> ob_is_error b \<and> int latest < ob_step b) observed \<or>
      (vc_command c, run c) \<in> set recorded \<and> sr_exit_code (run c) = 0 \<and> sr_error (run c) = None \<and>
      \<not> sr_deadline (run c) \<and> \<not> sr_cancelled (run c))"

lemma supported_more: "supported run observed recorded c s \<Longrightarrow> set recorded \<subseteq> set recorded' \<Longrightarrow> supported run observed recorded' c s"
  by (auto simp: supported_def)

lemma resolve_step:
  obtains (cancelled) "resolve_checks duration run observed (out, recorded) ((c, latest) # us) = (out, recorded @ [(vc_command c, run c)])"
      and "sr_cancelled (run c)"
  | (resolved) v recorded' where "resolve_checks duration run observed (out, recorded) ((c, latest) # us) =
        resolve_checks duration run observed (AList.update (check_identity c) v out, recorded') us"
      and "set recorded \<subseteq> set recorded'" and "rv_state v = verification_passed \<Longrightarrow> supported run observed recorded' c latest"
proof -
  consider (none) "vc_command c = ''''"
    | (seen) b where "vc_command c \<noteq> ''''" "find (\<lambda>b. ob_command b = vc_command c \<and> ob_step b > int latest) observed = Some b"
    | (dead) "vc_command c \<noteq> ''''" "find (\<lambda>b. ob_command b = vc_command c \<and> ob_step b > int latest) observed = None" "sr_cancelled (run c)"
    | (ran) "vc_command c \<noteq> ''''" "find (\<lambda>b. ob_command b = vc_command c \<and> ob_step b > int latest) observed = None" "\<not> sr_cancelled (run c)"
    by (cases "find (\<lambda>b. ob_command b = vc_command c \<and> ob_step b > int latest) observed") blast+
  then show ?thesis
  proof cases
    case none
    then show ?thesis
      by (intro resolved [of "\<lparr>rv_state = verification_unverified, rv_detail = ''no command to run'', rv_output = ''''\<rparr>" recorded])
         (simp_all add: verification_states)
  next
    case seen
    let ?v = "\<lparr>rv_state = (if ob_is_error b then verification_failed else verification_passed),
                rv_detail = ''observed via bash run'', rv_output = ob_output b\<rparr>"
    have b: "b \<in> set observed" "ob_command b = vc_command c" "int latest < ob_step b"
      using seen(2) by (auto simp: find_Some_iff)
    have "supported run observed recorded c latest" if "rv_state ?v = verification_passed"
      using that b seen(1) by (auto simp: supported_def list_ex_iff verification_states split: if_splits)
    then show ?thesis using seen by (intro resolved [of ?v recorded]) simp_all
  next
    case dead
    then show ?thesis by (intro cancelled) (simp_all add: Let_def)
  next
    case ran
    let ?v = "run_verdict duration c (run c)" and ?r = "recorded @ [(vc_command c, run c)]"
    have "supported run observed ?r c latest" if "rv_state ?v = verification_passed"
      using that ran(1,3) by (auto simp: supported_def run_verdict_def verification_states split: if_splits option.splits)
    then show ?thesis using ran by (intro resolved [of ?v ?r]) (simp_all add: Let_def subset_insertI)
  qed
qed

definition resolved_ok :: "(verification_check \<Rightarrow> shell_run) \<Rightarrow> observed_bash list \<Rightarrow> (verification_check \<times> nat) list \<Rightarrow>
    (string, resolved_check) gomap \<times> (string \<times> shell_run) list \<Rightarrow> (string, resolved_check) gomap \<times> (string \<times> shell_run) list \<Rightarrow> bool" where
  "resolved_ok run observed us acc acc' \<longleftrightarrow>
     (case acc of (out, recorded) \<Rightarrow> case acc' of (out', recorded') \<Rightarrow>
        set recorded \<subseteq> set recorded' \<and> (distinct (map fst out) \<longrightarrow> distinct (map fst out')) \<and>
        (\<forall>i v. map_of out' i = Some v \<longrightarrow> map_of out i = Some v \<or>
           (\<exists>(c, s)\<in>set us. check_identity c = i \<and> (rv_state v = verification_passed \<longrightarrow> supported run observed recorded' c s))) \<and>
        (list_ex (sr_cancelled \<circ> snd) recorded' \<or>
           fst ` set out' = fst ` set out \<union> (check_identity \<circ> fst) ` set us))"

lemma resolve_checks_spec:
  "resolved_ok run observed us acc (resolve_checks duration run observed acc us)"
proof (induction us arbitrary: acc)
  case Nil
  then show ?case by (cases acc) (simp add: resolved_ok_def)
next
  case (Cons u us)
  obtain c latest out recorded where u: "u = (c, latest)" "acc = (out, recorded)" by (cases u, cases acc)
  show ?case unfolding u
  proof (cases rule: resolve_step [of duration run observed out recorded c latest us])
    case cancelled
    show "resolved_ok run observed ((c, latest) # us) (out, recorded)
        (resolve_checks duration run observed (out, recorded) ((c, latest) # us))"
      unfolding cancelled(1) using cancelled(2) by (auto simp: resolved_ok_def)
  next
    case (resolved v recorded1)
    obtain out2 recorded2 where r: "resolve_checks duration run observed (AList.update (check_identity c) v out, recorded1) us = (out2, recorded2)"
      by (cases "resolve_checks duration run observed (AList.update (check_identity c) v out, recorded1) us")
    have ih: "set recorded1 \<subseteq> set recorded2"
      "\<And>i v'. map_of out2 i = Some v' \<Longrightarrow> map_of (AList.update (check_identity c) v out) i = Some v' \<or>
         (\<exists>(c, s)\<in>set us. check_identity c = i \<and> (rv_state v' = verification_passed \<longrightarrow> supported run observed recorded2 c s))"
      "list_ex (sr_cancelled \<circ> snd) recorded2 \<or>
         fst ` set out2 = fst ` set (AList.update (check_identity c) v out) \<union> (check_identity \<circ> fst) ` set us"
      "distinct (map fst (AList.update (check_identity c) v out)) \<Longrightarrow> distinct (map fst out2)"
      using Cons.IH [of "(AList.update (check_identity c) v out, recorded1)"] unfolding resolved_ok_def r prod.case by blast+
    have keys: "distinct (map fst out) \<longrightarrow> distinct (map fst out2)" using ih(4) by (simp add: distinct_update)
    have mine: "rv_state v = verification_passed \<Longrightarrow> supported run observed recorded2 c latest"
      using resolved(3) supported_more ih(1) by blast
    have "map_of out i = Some v' \<or>
        (\<exists>(c, s)\<in>set ((c, latest) # us). check_identity c = i \<and> (rv_state v' = verification_passed \<longrightarrow> supported run observed recorded2 c s))"
      if "map_of out2 i = Some v'" for i v'
      using ih(2) [OF that] mine by (auto split: if_splits)
    moreover have "list_ex (sr_cancelled \<circ> snd) recorded2 \<or>
         fst ` set out2 = fst ` set out \<union> (check_identity \<circ> fst) ` set ((c, latest) # us)"
      using ih(3) by (simp add: dom_update)
    ultimately show "resolved_ok run observed ((c, latest) # us) (out, recorded)
        (resolve_checks duration run observed (out, recorded) ((c, latest) # us))"
      unfolding resolved(1) r resolved_ok_def prod.case using resolved(2) ih(1) keys by blast
  qed
qed

text \<open>
  C25: a run of the gate leaves at most one verdict per check, and each belongs to a check that has a
  pending entry, whatever the verdict is and even if the run is cancelled half way. A verdict of
  passed rests on a run: the check's exact command was seen to succeed on a step after the last write
  that recorded the check, or the gate itself ran it to a zero exit in time; a check without a command
  never passes. Unless the run is cancelled, every pending check gets a verdict.
\<close>

theorem passed_means_ran:
  assumes "run_gate_checks duration run pending observed = (out, recorded)"
  shows "distinct (map fst out) \<and>
    (\<forall>i v. map_of out i = Some v \<longrightarrow> entries_of pending i \<noteq> [] \<and>
       (rv_state v = verification_passed \<longrightarrow>
          supported run observed recorded (go_check (hd (entries_of pending i))) (Max (set (map go_step (entries_of pending i)))))) \<and>
    (list_ex (sr_cancelled \<circ> snd) recorded \<or> set (map fst out) = set (map (check_identity \<circ> go_check) pending))"
proof -
  note spec = resolve_checks_spec [of run observed "unique_checks pending" "([], [])" duration,
      folded run_gate_checks_def, unfolded assms(1) resolved_ok_def prod.case]
  note u = unique_checks_spec [of pending]
  have "entries_of pending i \<noteq> [] \<and> (rv_state v = verification_passed \<longrightarrow>
      supported run observed recorded (go_check (hd (entries_of pending i))) (Max (set (map go_step (entries_of pending i)))))"
    if v: "map_of out i = Some v" for i v
  proof -
    from spec v obtain c s where c: "(c, s) \<in> set (unique_checks pending)" "check_identity c = i"
      "rv_state v = verification_passed \<longrightarrow> supported run observed recorded c s" by fastforce
    have e: "entries_of pending i \<noteq> []" "c = go_check (hd (entries_of pending i))"
      "\<forall>p\<in>set (entries_of pending i). go_step p \<le> s"
      using u c(1,2) by auto
    then have "Max (set (map go_step (entries_of pending i))) \<le> s" by simp
    then have "rv_state v = verification_passed \<longrightarrow>
        supported run observed recorded c (Max (set (map go_step (entries_of pending i))))"
      using c(3) by (auto simp: supported_def list_ex_iff)
    then show ?thesis using e by simp
  qed
  moreover have "list_ex (sr_cancelled \<circ> snd) recorded \<or> set (map fst out) = set (map (check_identity \<circ> go_check) pending)"
    using spec u by auto
  moreover have "distinct (map fst out)" using spec by simp
  ultimately show ?thesis by blast
qed

definition demo_check :: "string \<Rightarrow> string \<Rightarrow> verification_check" where
  "demo_check name cmd = \<lparr>vc_check = name, vc_state = verification_pending, vc_detail = '''', vc_path = '''', vc_command = cmd, vc_timeout = 0\<rparr>"

definition demo_pending :: "gate_check_outcome list" where
  "demo_pending = [\<lparr>go_call_id = ''a'', go_step = 0, go_check = demo_check ''verify:t'' ''make'', go_output = ''''\<rparr>,
     \<lparr>go_call_id = ''b'', go_step = 2, go_check = demo_check ''verify:t'' ''make'', go_output = ''''\<rparr>]"

definition demo_observed :: "observed_bash list" where
  "demo_observed = [\<lparr>ob_step = 1, ob_command = ''make'', ob_is_error = True, ob_output = ''''\<rparr>,
     \<lparr>ob_step = 3, ob_command = ''make'', ob_is_error = False, ob_output = ''''\<rparr>]"

definition demo_gate :: "(string, resolved_check) gomap \<times> (string \<times> shell_run) list" where
  "demo_gate = run_gate_checks (\<lambda>_. '''')
     (\<lambda>_. \<lparr>sr_output = '''', sr_exit_code = 1, sr_error = None, sr_deadline = False, sr_cancelled = False\<rparr>) demo_pending demo_observed"

theorem passed_means_ran_witness:
  "map fst (fst demo_gate) = [''verify:t''] \<and> Max (set (map go_step (entries_of demo_pending ''verify:t''))) < 3"
proof -
  have r: "demo_gate = (fst demo_gate, snd demo_gate)" by simp
  have v: "map_of (fst demo_gate) ''verify:t'' = Some (the (map_of (fst demo_gate) ''verify:t''))"
    "rv_state (the (map_of (fst demo_gate) ''verify:t'')) = verification_passed" "snd demo_gate = []"
    "map fst (fst demo_gate) = [''verify:t'']"
    by code_simp+
  have o1: "\<not> list_ex (\<lambda>b. ob_command b = ''make'' \<and> \<not> ob_is_error b \<and> int m < ob_step b) demo_observed \<or> m < 3" for m
    by (auto simp: demo_observed_def)
  have c: "vc_command (go_check (hd (entries_of demo_pending ''verify:t''))) = ''make''" by code_simp
  from passed_means_ran [OF r [unfolded demo_gate_def], folded demo_gate_def] v(1,2)
  have "supported (\<lambda>_. \<lparr>sr_output = '''', sr_exit_code = 1, sr_error = None, sr_deadline = False, sr_cancelled = False\<rparr>)
      demo_observed (snd demo_gate) (go_check (hd (entries_of demo_pending ''verify:t'')))
      (Max (set (map go_step (entries_of demo_pending ''verify:t''))))" by blast
  with v(3,4) o1 show ?thesis by (auto simp: supported_def c)
qed

end
