(* ===== verification/PlanDone.thy ===== *)
theory PlanDone
  imports VerifyGate Plan "HOL-Library.List_Lexorder"
begin

text \<open>
  When a plan item is done: internal/agent/plan_done.go. Arguments stand for what is not this code:
  \<open>norm\<close> and \<open>rel\<close> for \<open>normalizePlanPath\<close> and \<open>relPlanPath\<close>, which ask the file system, \<open>checks\<close>
  for the decoding of a result's verification list, \<open>written\<close> for the paths a call's input names
  (\<open>ToolCallFilePath\<close>, the redirects of a shell command), \<open>live\<close> and \<open>covered\<close> for the language
  servers' current diagnostics.
\<close>

subsection \<open>Evidence\<close>

datatype plan_item_state = PlanOpen | PlanEvidenceBlocked

record plan_verdict =
  pv_item :: plan_item
  pv_state :: plan_item_state
  pv_reason :: string
  pv_ready :: bool

record write_evidence =
  we_path :: string
  we_checks :: "verification_check list"

record plan_evidence =
  pe_latest :: "(string, verification_check) gomap"
  pe_writes :: "write_evidence list"
  pe_diag :: "(string, verification_check) gomap"
  pe_diag_order :: "string list"

definition no_evidence :: plan_evidence where
  "no_evidence = \<lparr>pe_latest = [], pe_writes = [], pe_diag = [], pe_diag_order = []\<rparr>"

definition set_diag :: "string \<Rightarrow> verification_check \<Rightarrow> plan_evidence \<Rightarrow> plan_evidence" where
  "set_diag p c e =
     e\<lparr>pe_diag_order := (if map_of (pe_diag e) p = None then pe_diag_order e @ [p] else pe_diag_order e),
       pe_diag := AList.update p c (pe_diag e)\<rparr>"

definition resolve_stale_diag :: "(string, nat) gomap \<Rightarrow> (string \<Rightarrow> bool) \<Rightarrow> plan_evidence \<Rightarrow> plan_evidence" where
  "resolve_stale_diag live covered e =
     e\<lparr>pe_diag := filter (\<lambda>(p, c). \<not> (vc_state c = verification_failed \<and>
         (case map_of live p of None \<Rightarrow> True | Some n \<Rightarrow> n = 0) \<and> covered p)) (pe_diag e)\<rparr>"

text \<open>The first loop: the paths a call writes, by call. \<open>written\<close> is empty for calls that write nothing.\<close>

definition add_call_paths :: "(string \<Rightarrow> string) \<Rightarrow> (string \<Rightarrow> string \<Rightarrow> string list) \<Rightarrow> (string, string list) gomap \<Rightarrow> content_part \<Rightarrow>
    (string, string list) gomap" where
  "add_call_paths norm written m p =
     (case p of
        Call tc \<Rightarrow>
          foldl (\<lambda>m path. AList.update (tc_id tc) ((case map_of m (tc_id tc) of None \<Rightarrow> [] | Some ps \<Rightarrow> ps) @ [norm path]) m)
            m (if tc_name tc = ''lsp_rename'' then [] else written (tc_name tc) (tc_input tc))
      | _ \<Rightarrow> m)"

definition call_paths :: "(string \<Rightarrow> string) \<Rightarrow> (string \<Rightarrow> string \<Rightarrow> string list) \<Rightarrow> message list \<Rightarrow> (string, string list) gomap" where
  "call_paths norm written msgs = foldl (add_call_paths norm written) [] (concat (map m_parts msgs))"

text \<open>The diagnostics entries of one result; paths are the paths its call wrote.\<close>

definition add_diag :: "(string \<Rightarrow> string) \<Rightarrow> string list \<Rightarrow> plan_evidence \<Rightarrow> verification_check \<Rightarrow> plan_evidence" where
  "add_diag norm paths e c =
     (if vc_check c \<noteq> ''diagnostics'' then e
      else if vc_path c \<noteq> '''' then set_diag (norm (vc_path c)) c e
      else foldl (\<lambda>e p. set_diag p c e) e paths)"

text \<open>The second loop, one part.\<close>

definition add_result_evidence :: "(string \<Rightarrow> string) \<Rightarrow> (string \<Rightarrow> verification_check list) \<Rightarrow> (string, string list) gomap \<Rightarrow>
    plan_evidence \<Rightarrow> content_part \<Rightarrow> plan_evidence" where
  "add_result_evidence norm checks paths_of e p =
     (case p of
        Result tr \<Rightarrow>
          if tr_is_error tr then e
          else let cs = checks (tr_metadata tr);
                   paths = (case map_of paths_of (tr_call_id tr) of None \<Rightarrow> [] | Some ps \<Rightarrow> ps);
                   e1 = e\<lparr>pe_latest := foldl (\<lambda>m c. if vc_check c \<noteq> '''' then AList.update (check_identity c) c m else m) (pe_latest e) cs,
                          pe_writes := pe_writes e @ map (\<lambda>path. \<lparr>we_path = path, we_checks = cs\<rparr>) paths\<rparr>;
                   e2 = foldl (add_diag norm paths) e1 cs
               in if list_ex (\<lambda>c. vc_check c = ''diagnostics'') cs then e2
                  else e2\<lparr>pe_diag := foldl (\<lambda>m path. AList.delete path m) (pe_diag e2) paths\<rparr>
      | _ \<Rightarrow> e)"

text \<open>\<open>servers\<close> is \<open>None\<close> when there is no language server manager.\<close>

definition scan_plan_evidence :: "(string \<Rightarrow> string) \<Rightarrow> (string \<Rightarrow> verification_check list) \<Rightarrow> (string \<Rightarrow> string \<Rightarrow> string list) \<Rightarrow>
    ((string, nat) gomap \<times> (string \<Rightarrow> bool)) option \<Rightarrow> message list \<Rightarrow> plan_evidence" where
  "scan_plan_evidence norm checks written servers msgs =
     (let e = foldl (add_result_evidence norm checks (call_paths norm written msgs)) no_evidence (concat (map m_parts msgs))
      in case servers of
           None \<Rightarrow> e
         | Some (live, covered) \<Rightarrow> resolve_stale_diag live covered e)"

subsection \<open>Reasons\<close>

definition path_covers :: "string \<Rightarrow> string \<Rightarrow> bool" where
  "path_covers p w \<longleftrightarrow> w = p \<or> has_prefix w (p @ ''/'')"

definition package_test_covers :: "string \<Rightarrow> string \<Rightarrow> bool \<Rightarrow> bool" where
  "package_test_covers declared dir declared_is_file =
     (if declared_is_file then path_dir declared = dir else dir = declared \<or> has_prefix dir (declared @ ''/''))"

definition check_verdict_reason :: "string \<Rightarrow> (string, verification_check) gomap \<Rightarrow> string" where
  "check_verdict_reason name latest =
     (case map_of latest name of
        None \<Rightarrow> ''no check named '' @ name @ '' has run (evidence unmet)''
      | Some v \<Rightarrow>
          if vc_state v = verification_passed then ''''
          else if vc_state v = verification_failed
          then (if vc_detail v \<noteq> '''' then name @ '' failed: '' @ vc_detail v else name @ '' failed'')
          else if vc_state v = verification_pending then name @ '' has not resolved''
          else name @ '' resolved unverified'')"

fun diag_reason_loop :: "(string \<Rightarrow> string) \<Rightarrow> plan_evidence \<Rightarrow> string \<Rightarrow> string list \<Rightarrow> string" where
  "diag_reason_loop rel e p [] = ''''"
| "diag_reason_loop rel e p (wp # wps) =
     (case map_of (pe_diag e) wp of
        None \<Rightarrow> diag_reason_loop rel e p wps
      | Some v \<Rightarrow>
          if \<not> path_covers p wp then diag_reason_loop rel e p wps
          else if vc_state v = verification_failed
          then (if vc_detail v \<noteq> '''' then ''check diagnostics failed on '' @ rel wp @ '': '' @ vc_detail v
                else ''check diagnostics failed on '' @ rel wp)
          else if vc_state v = verification_pending then ''check diagnostics has not resolved on '' @ rel wp
          else diag_reason_loop rel e p wps)"

definition diag_reason :: "(string \<Rightarrow> string) \<Rightarrow> plan_evidence \<Rightarrow> string \<Rightarrow> string" where
  "diag_reason rel e p = diag_reason_loop rel e p (pe_diag_order e)"

text \<open>The covering checks of a path: latest instance and first-seen order.\<close>

definition add_path_check :: "(string, verification_check) gomap \<times> string list \<Rightarrow> verification_check \<Rightarrow>
    (string, verification_check) gomap \<times> string list" where
  "add_path_check acc c =
     (case acc of (m, order) \<Rightarrow>
        if vc_check c = '''' \<or> vc_check c = ''diagnostics'' then acc
        else (AList.update (check_identity c) c m,
              if map_of m (check_identity c) = None then order @ [check_identity c] else order))"

definition covering_writes :: "plan_evidence \<Rightarrow> string \<Rightarrow> write_evidence list" where
  "covering_writes e p = filter (\<lambda>w. path_covers p (we_path w)) (pe_writes e)"

definition path_checks :: "plan_evidence \<Rightarrow> string \<Rightarrow> (string, verification_check) gomap \<times> string list" where
  "path_checks e p = foldl add_path_check ([], []) (concat (map we_checks (covering_writes e p)))"

fun path_check_reason :: "plan_evidence \<Rightarrow> string \<Rightarrow> (string, verification_check) gomap \<Rightarrow> string list \<Rightarrow> string" where
  "path_check_reason e declared on_path [] = ''''"
| "path_check_reason e declared on_path (i # is') =
     (let v = (case map_of (pe_latest e) i of Some lv \<Rightarrow> lv | None \<Rightarrow> the (map_of on_path i))
      in if vc_state v = verification_failed
         then (if vc_detail v \<noteq> '''' then ''check '' @ vc_check v @ '' failed on '' @ declared @ '': '' @ vc_detail v
               else ''check '' @ vc_check v @ '' failed on '' @ declared)
         else if vc_state v = verification_pending then ''check '' @ vc_check v @ '' has not resolved on '' @ declared
         else path_check_reason e declared on_path is')"

definition failed_names :: "plan_evidence \<Rightarrow> string list" where
  "failed_names e = sort (map fst (filter (\<lambda>(name, v). vc_state v = verification_failed) (pe_latest e)))"

fun covering_reason :: "(string \<Rightarrow> string) \<Rightarrow> string \<Rightarrow> bool \<Rightarrow> string list \<Rightarrow> string" where
  "covering_reason norm p is_file [] = ''''"
| "covering_reason norm p is_file (name # names) =
     (if has_prefix name ''package-test:'' \<and> package_test_covers p (norm (drop 13 name)) is_file
      then ''covering check '' @ name @ '' failed''
      else if has_prefix name ''verify:'' then ''covering check '' @ name @ '' failed''
      else covering_reason norm p is_file names)"

definition first_reason :: "string list \<Rightarrow> string" where
  "first_reason rs = (case dropWhile (\<lambda>r. r = '''') rs of [] \<Rightarrow> '''' | r # _ \<Rightarrow> r)"

definition path_reason :: "(string \<Rightarrow> string) \<Rightarrow> (string \<Rightarrow> string) \<Rightarrow> plan_evidence \<Rightarrow> string \<Rightarrow> string" where
  "path_reason norm rel e declared =
     (let p = norm declared; ws = covering_writes e p
      in if ws = []
         then (let r = diag_reason rel e p in if r \<noteq> '''' then r else ''no write observed on '' @ declared)
         else first_reason [case path_checks e p of (on_path, order) \<Rightarrow> path_check_reason e declared on_path order,
                            diag_reason rel e p,
                            covering_reason norm p (list_ex (\<lambda>w. we_path w = p) ws) (failed_names e)])"

definition evidence_reason :: "(string \<Rightarrow> string) \<Rightarrow> (string \<Rightarrow> string) \<Rightarrow> plan_evidence \<Rightarrow> plan_item \<Rightarrow> string" where
  "evidence_reason norm rel e it =
     first_reason (map (\<lambda>name. check_verdict_reason name (pe_latest e)) (pl_evidence_checks it) @
                   map (path_reason norm rel e) (pl_evidence_paths it))"

subsection \<open>Verdicts\<close>

definition item_reason :: "(string \<Rightarrow> string) \<Rightarrow> (string \<Rightarrow> string) \<Rightarrow> plan_evidence option \<Rightarrow> plan_item \<Rightarrow> string" where
  "item_reason norm rel ev it =
     (case ev of
        None \<Rightarrow> ''''
      | Some e \<Rightarrow> if pl_evidence_checks it \<noteq> [] \<or> pl_evidence_paths it \<noteq> [] then evidence_reason norm rel e it else '''')"

fun verdict_loop :: "(string \<Rightarrow> string) \<Rightarrow> (string \<Rightarrow> string) \<Rightarrow> plan_evidence option \<Rightarrow> string list \<times> plan_verdict list \<Rightarrow> plan_item list \<Rightarrow>
    string list \<times> plan_verdict list" where
  "verdict_loop norm rel ev acc [] = acc"
| "verdict_loop norm rel ev (done_ids, vs) (it # its) =
     (if pl_status it \<noteq> plan_item_completed
      then verdict_loop norm rel ev (done_ids, vs @ [\<lparr>pv_item = it, pv_state = PlanOpen, pv_reason = '''', pv_ready = False\<rparr>]) its
      else let r = item_reason norm rel ev it
           in if r = '''' then verdict_loop norm rel ev (done_ids @ [pl_id it], vs) its
              else verdict_loop norm rel ev
                     (done_ids, vs @ [\<lparr>pv_item = it, pv_state = PlanEvidenceBlocked, pv_reason = r, pv_ready = False\<rparr>]) its)"

text \<open>
  \<open>planVerdicts\<close>: no verdicts without the todos tool, without a readable session, or with an empty
  plan. \<open>ev\<close> is \<open>None\<close> where the messages cannot be read.
\<close>

definition plan_verdicts :: "(string \<Rightarrow> string) \<Rightarrow> (string \<Rightarrow> string) \<Rightarrow> bool \<Rightarrow> plan_item list option \<Rightarrow> plan_evidence option \<Rightarrow> plan_verdict list" where
  "plan_verdicts norm rel has_todos_tool todos ev =
     (if \<not> has_todos_tool then []
      else case todos of
        None \<Rightarrow> []
      | Some its \<Rightarrow>
          (case verdict_loop norm rel ev ([], []) its of
             (done_ids, vs) \<Rightarrow> map (\<lambda>v. v\<lparr>pv_ready := list_all (\<lambda>d. d \<in> set done_ids) (pl_depends_on (pv_item v))\<rparr>) vs))"

subsection \<open>Done items\<close>

lemma first_reason_empty: "first_reason rs = '''' \<longleftrightarrow> list_all (\<lambda>r. r = '''') rs"
proof (cases "dropWhile (\<lambda>r. r = '''') rs")
  case Nil
  then have "list_all (\<lambda>r. r = '''') rs" by (simp add: dropWhile_eq_Nil_conv list_all_iff)
  moreover have "first_reason rs = ''''" unfolding first_reason_def Nil by simp
  ultimately show ?thesis by simp
next
  case (Cons r rs')
  then have "r \<noteq> ''''" using hd_dropWhile [of "\<lambda>r. r = ''''" rs] by fastforce
  moreover have "r \<in> set rs" using Cons by (metis list.set_intros(1) set_dropWhileD)
  ultimately have "\<not> list_all (\<lambda>r. r = '''') rs" unfolding list_all_iff by blast
  moreover have "first_reason rs = r" unfolding first_reason_def Cons by simp
  ultimately show ?thesis using \<open>r \<noteq> ''''\<close> by simp
qed

lemma list_all_map_iff: "list_all P (map f xs) \<longleftrightarrow> list_all (\<lambda>x. P (f x)) xs"
  by (induction xs) auto

text \<open>The named checks, without diagnostics, of the writes a declared path covers.\<close>

definition named :: "verification_check \<Rightarrow> bool" where
  "named c \<longleftrightarrow> vc_check c \<noteq> '''' \<and> vc_check c \<noteq> ''diagnostics''"

definition covering_checks :: "plan_evidence \<Rightarrow> string \<Rightarrow> verification_check list" where
  "covering_checks e p = filter named (concat (map we_checks (covering_writes e p)))"

text \<open>The verdict that counts for a check of a path: the session's latest, else the path's latest.\<close>

definition current_check :: "plan_evidence \<Rightarrow> string \<Rightarrow> string \<Rightarrow> verification_check" where
  "current_check e p i =
     (case map_of (pe_latest e) i of
        Some v \<Rightarrow> v
      | None \<Rightarrow> last (filter (\<lambda>c. check_identity c = i) (covering_checks e p)))"

definition unresolved :: "verification_check \<Rightarrow> bool" where
  "unresolved v \<longleftrightarrow> vc_state v = verification_failed \<or> vc_state v = verification_pending"

definition blocks_path :: "(string \<Rightarrow> string) \<Rightarrow> string \<Rightarrow> bool \<Rightarrow> string \<times> verification_check \<Rightarrow> bool" where
  "blocks_path norm p is_file c =
     (case c of (name, v) \<Rightarrow> vc_state v = verification_failed \<and>
        (has_prefix name ''verify:'' \<or>
         has_prefix name ''package-test:'' \<and> package_test_covers p (norm (drop 13 name)) is_file))"

text \<open>The evidence a path needs, without an order of looking at it.\<close>

definition path_met :: "(string \<Rightarrow> string) \<Rightarrow> plan_evidence \<Rightarrow> string \<Rightarrow> bool" where
  "path_met norm e p \<longleftrightarrow>
     covering_writes e p \<noteq> [] \<and>
     \<not> list_ex (\<lambda>c. unresolved (current_check e p (check_identity c))) (covering_checks e p) \<and>
     \<not> list_ex (\<lambda>wp. path_covers p wp \<and> (case map_of (pe_diag e) wp of None \<Rightarrow> False | Some v \<Rightarrow> unresolved v)) (pe_diag_order e) \<and>
     \<not> list_ex (blocks_path norm p (list_ex (\<lambda>w. we_path w = p) (covering_writes e p))) (pe_latest e)"

definition evidence_met :: "(string \<Rightarrow> string) \<Rightarrow> plan_evidence \<Rightarrow> plan_item \<Rightarrow> bool" where
  "evidence_met norm e it \<longleftrightarrow>
     list_all (\<lambda>name. case map_of (pe_latest e) name of None \<Rightarrow> False | Some v \<Rightarrow> vc_state v = verification_passed) (pl_evidence_checks it) \<and>
     list_all (\<lambda>declared. path_met norm e (norm declared)) (pl_evidence_paths it)"

lemma check_verdict_reason_empty:
  "check_verdict_reason name latest = '''' \<longleftrightarrow>
     (case map_of latest name of None \<Rightarrow> False | Some v \<Rightarrow> vc_state v = verification_passed)"
  by (auto simp: check_verdict_reason_def split: option.splits)

lemma diag_reason_empty:
  "diag_reason rel e p = '''' \<longleftrightarrow>
     \<not> list_ex (\<lambda>wp. path_covers p wp \<and> (case map_of (pe_diag e) wp of None \<Rightarrow> False | Some v \<Rightarrow> unresolved v)) (pe_diag_order e)"
proof -
  have "diag_reason_loop rel e p wps = '''' \<longleftrightarrow>
      \<not> list_ex (\<lambda>wp. path_covers p wp \<and> (case map_of (pe_diag e) wp of None \<Rightarrow> False | Some v \<Rightarrow> unresolved v)) wps" for wps
    by (induction wps) (auto simp: unresolved_def split: option.splits)
  then show ?thesis by (simp add: diag_reason_def)
qed

lemma path_checks_fold:
  "case foldl add_path_check ([], []) cs of (m, order) \<Rightarrow>
     set order = check_identity ` set (filter named cs) \<and>
     (\<forall>i. map_of m i = (case filter (\<lambda>c. check_identity c = i) (filter named cs) of [] \<Rightarrow> None | c # cs' \<Rightarrow> Some (last (c # cs'))))"
proof (induction cs rule: rev_induct)
  case (snoc c cs)
  obtain m order where f: "foldl add_path_check ([], []) cs = (m, order)" by (cases "foldl add_path_check ([], []) cs")
  from snoc.IH have ih: "set order = check_identity ` set (filter named cs)"
    "\<And>i. map_of m i = (case filter (\<lambda>c. check_identity c = i) (filter named cs) of [] \<Rightarrow> None | c # cs' \<Rightarrow> Some (last (c # cs')))"
    by (simp_all add: f)
  show ?case
  proof (cases "named c")
    case False
    then have "foldl add_path_check ([], []) (cs @ [c]) = (m, order)" by (simp add: f add_path_check_def named_def)
    then show ?thesis using ih False by simp
  next
    case True
    have "map_of m i = None \<longleftrightarrow> filter (\<lambda>c. check_identity c = i) (filter named cs) = []" for i
      unfolding ih(2) by (cases "filter (\<lambda>c. check_identity c = i) (filter named cs)") auto
    then have "map_of m (check_identity c) = None \<longleftrightarrow> (\<forall>d\<in>set (filter named cs). check_identity d \<noteq> check_identity c)"
      unfolding filter_empty_conv by simp
    then have none: "map_of m (check_identity c) = None \<longleftrightarrow> check_identity c \<notin> set order"
      unfolding ih(1) image_iff by metis
    have "foldl add_path_check ([], []) (cs @ [c]) = (AList.update (check_identity c) c m,
        if map_of m (check_identity c) = None then order @ [check_identity c] else order)"
      using True by (simp add: f add_path_check_def named_def)
    moreover have "set (if map_of m (check_identity c) = None then order @ [check_identity c] else order) =
        check_identity ` set (filter named (cs @ [c]))"
      using ih(1) True none by auto
    moreover have "map_of (AList.update (check_identity c) c m) i =
        (case filter (\<lambda>c. check_identity c = i) (filter named (cs @ [c])) of [] \<Rightarrow> None | c # cs' \<Rightarrow> Some (last (c # cs')))" for i
      using ih(2) [of i] True by (cases "check_identity c = i") (auto split: list.splits)
    ultimately show ?thesis by simp
  qed
qed simp

lemma path_check_reason_empty:
  "path_check_reason e declared m order = '''' \<longleftrightarrow>
     \<not> list_ex (\<lambda>i. unresolved (case map_of (pe_latest e) i of Some lv \<Rightarrow> lv | None \<Rightarrow> the (map_of m i))) order"
  by (induction order) (auto simp: unresolved_def Let_def)

lemma covering_reason_empty:
  "covering_reason norm p is_file names = '''' \<longleftrightarrow>
     \<not> list_ex (\<lambda>name. has_prefix name ''verify:'' \<or>
         has_prefix name ''package-test:'' \<and> package_test_covers p (norm (drop 13 name)) is_file) names"
  by (induction names) auto

lemma path_reason_empty: "path_reason norm rel e declared = '''' \<longleftrightarrow> path_met norm e (norm declared)"
proof (cases "covering_writes e (norm declared) = []")
  case True
  then show ?thesis by (simp add: path_reason_def path_met_def Let_def)
next
  case False
  let ?p = "norm declared"
  obtain m order where f: "path_checks e ?p = (m, order)" by (cases "path_checks e ?p")
  have spec: "set order = check_identity ` set (covering_checks e ?p)"
    "\<And>i. map_of m i = (case filter (\<lambda>c. check_identity c = i) (covering_checks e ?p) of [] \<Rightarrow> None | c # cs' \<Rightarrow> Some (last (c # cs')))"
    using path_checks_fold [of "concat (map we_checks (covering_writes e ?p))"] f
    by (simp_all add: path_checks_def covering_checks_def)
  have cur: "(case map_of (pe_latest e) i of Some lv \<Rightarrow> lv | None \<Rightarrow> the (map_of m i)) = current_check e ?p i"
    if "i \<in> set order" for i
  proof -
    have "filter (\<lambda>c. check_identity c = i) (covering_checks e ?p) \<noteq> []"
      using that spec(1) by (auto simp: filter_empty_conv)
    then show ?thesis by (auto simp: current_check_def spec(2) neq_Nil_conv split: option.splits)
  qed
  have "path_check_reason e declared m order = '''' \<longleftrightarrow>
      \<not> list_ex (\<lambda>c. unresolved (current_check e ?p (check_identity c))) (covering_checks e ?p)"
    unfolding path_check_reason_empty using cur spec(1) by (auto simp: list_ex_iff)
  moreover have "covering_reason norm ?p is_file (failed_names e) = '''' \<longleftrightarrow> \<not> list_ex (blocks_path norm ?p is_file) (pe_latest e)" for is_file
    unfolding covering_reason_empty by (auto simp: failed_names_def list_ex_iff blocks_path_def)
  ultimately show ?thesis
    using False by (simp add: path_reason_def path_met_def Let_def f first_reason_empty diag_reason_empty)
qed

lemma evidence_reason_empty: "evidence_reason norm rel e it = '''' \<longleftrightarrow> evidence_met norm e it"
  unfolding evidence_reason_def evidence_met_def first_reason_empty list_all_append list_all_map_iff
  by (simp add: check_verdict_reason_empty path_reason_empty)

definition item_done :: "(string \<Rightarrow> string) \<Rightarrow> plan_evidence option \<Rightarrow> plan_item \<Rightarrow> bool" where
  "item_done norm ev it \<longleftrightarrow> pl_status it = plan_item_completed \<and>
     (case ev of
        None \<Rightarrow> True
      | Some e \<Rightarrow> pl_evidence_checks it = [] \<and> pl_evidence_paths it = [] \<or> evidence_met norm e it)"

lemma item_reason_empty: "pl_status it = plan_item_completed \<Longrightarrow> item_reason norm rel ev it = '''' \<longleftrightarrow> item_done norm ev it"
  by (auto simp: item_reason_def item_done_def evidence_reason_empty evidence_met_def split: option.splits)

lemma verdict_loop_spec:
  "verdict_loop norm rel ev (ids, vs) its =
     (ids @ map pl_id (filter (item_done norm ev) its),
      vs @ map (\<lambda>it. if pl_status it = plan_item_completed
             then \<lparr>pv_item = it, pv_state = PlanEvidenceBlocked, pv_reason = item_reason norm rel ev it, pv_ready = False\<rparr>
             else \<lparr>pv_item = it, pv_state = PlanOpen, pv_reason = '''', pv_ready = False\<rparr>)
           (filter (\<lambda>it. \<not> item_done norm ev it) its))"
proof (induction its arbitrary: ids vs)
  case (Cons it its)
  show ?case
  proof (cases "pl_status it = plan_item_completed")
    case True
    then show ?thesis using item_reason_empty [OF True] by (auto simp: Cons.IH Let_def)
  next
    case False
    then have "\<not> item_done norm ev it" by (simp add: item_done_def)
    then show ?thesis using False by (simp add: Cons.IH)
  qed
qed simp

text \<open>
  C37: if the agent has the todos tool and the session can be read, the items a run is asked to finish are exactly those that are not done, in the order of the
  plan: not marked completed, or marked completed with evidence that is not met. An item is ready
  exactly if everything it depends on is done, and a completed item never comes without the reason
  it is blocked by.
\<close>

theorem plan_verdicts_are_undone_items:
  "map pv_item (plan_verdicts norm rel True (Some its) ev) = filter (\<lambda>it. \<not> item_done norm ev it) its \<and>
   list_all (\<lambda>v. pv_ready v = list_all (\<lambda>d. d \<in> set (map pl_id (filter (item_done norm ev) its))) (pl_depends_on (pv_item v)))
       (plan_verdicts norm rel True (Some its) ev) \<and>
   list_all (\<lambda>v. (pl_status (pv_item v) = plan_item_completed) = (pv_state v = PlanEvidenceBlocked) \<and>
         (pl_status (pv_item v) = plan_item_completed) = (pv_reason v \<noteq> ''''))
       (plan_verdicts norm rel True (Some its) ev)"
proof -
  let ?undone = "filter (\<lambda>it. \<not> item_done norm ev it) its"
  let ?v = "\<lambda>it. if pl_status it = plan_item_completed
             then \<lparr>pv_item = it, pv_state = PlanEvidenceBlocked, pv_reason = item_reason norm rel ev it, pv_ready = False\<rparr>
             else \<lparr>pv_item = it, pv_state = PlanOpen, pv_reason = '''', pv_ready = False\<rparr>"
  have item: "pv_item (?v it) = it" for it by simp
  have vs: "plan_verdicts norm rel True (Some its) ev =
      map (\<lambda>v. v\<lparr>pv_ready := list_all (\<lambda>d. d \<in> set (map pl_id (filter (item_done norm ev) its))) (pl_depends_on (pv_item v))\<rparr>)
        (map ?v ?undone)"
    by (simp add: plan_verdicts_def verdict_loop_spec)
  show ?thesis
    unfolding vs using item_reason_empty by (auto simp: list_all_iff item comp_def)
qed

end
