(* ===== verification/EdgeScans.thy ===== *)
theory EdgeScans
  imports RunEdges VerifyGate PlanDone
begin

text \<open>
  The six edges a session agent runs after each turn: the scans, resolves, prompts and notes of
  internal/agent/run_edges.go. A \<open>session_agent\<close> holds what the agent was built with; its functions
  stand for what is not this code: decoding JSON inputs and metadata, the file system, the language
  servers, the shell, the project index, \<open>strconv.Quote\<close> and the screen for stored headlines. The
  environment holds what the edges read and write of the stores.
\<close>

subsection \<open>Agent, environment, evidence\<close>

record open_failure =
  of_signature :: string
  of_cmd :: string
  of_cwd :: string
  of_headline :: string
  of_first_seen :: int

record notebook_entry =
  nb_id :: string
  nb_turn :: int
  nb_event :: int
  nb_granularity :: string
  nb_text :: string
  nb_text_full :: string

record session_agent =
  sa_ambiguity :: bool
  sa_interactive :: bool
  sa_question_tool :: bool
  sa_todos_tool :: bool
  sa_sub_agent :: bool
  sa_failure_memory :: bool
  sa_failure_memory_edges_off :: bool
  sa_holdout_off :: "string \<Rightarrow> bool"
  sa_hash :: "string \<Rightarrow> string"
  sa_command :: "string \<Rightarrow> string option"
  sa_gjson_command :: "string \<Rightarrow> string"
  sa_path_params :: "string \<Rightarrow> (string \<times> string) option"
  sa_call_file_path :: "string \<Rightarrow> string"
  sa_meta :: "string \<Rightarrow> tool_meta"
  sa_checks :: "string \<Rightarrow> verification_check list"
  sa_merge :: "string \<Rightarrow> verification_check list \<Rightarrow> string"
  sa_norm :: "string \<Rightarrow> string"
  sa_rel :: "string \<Rightarrow> string"
  sa_rel_dir :: "string \<Rightarrow> string option"
  sa_quote :: "string \<Rightarrow> string"
  sa_truncate :: "string \<Rightarrow> string"
  sa_duration :: "int \<Rightarrow> string"
  sa_run :: "verification_check \<Rightarrow> shell_run"
  sa_gate_cancelled :: bool
  sa_screen :: "string \<Rightarrow> string"
  sa_subtree :: "(string \<Rightarrow> string option) option"

text \<open>\<open>None\<close>: the store is missing or the read failed.\<close>

record session_env =
  se_todos :: "plan_item list option"
  se_messages :: "message list option"
  se_servers :: "((string, nat) gomap \<times> (string \<Rightarrow> bool)) option"
  se_failures :: "open_failure list option"
  se_entries :: "notebook_entry list option"
  se_recorded :: "(string \<times> shell_run) list"

record edge_evidence =
  ee_failed :: "gate_check_outcome list"
  ee_pending :: "gate_check_outcome list"
  ee_observed :: "observed_bash list"
  ee_plan :: "plan_verdict list"
  ee_open_failures :: "open_failure list"
  ee_steps :: "step_result list"
  ee_input_tokens :: int
  ee_write_set :: "string list"
  ee_checkpoint :: string
  ee_map_slice :: string

definition no_edge_evidence :: edge_evidence where
  "no_edge_evidence =
     \<lparr>ee_failed = [], ee_pending = [], ee_observed = [], ee_plan = [], ee_open_failures = [], ee_steps = [],
      ee_input_tokens = 0, ee_write_set = [], ee_checkpoint = '''', ee_map_slice = ''''\<rparr>"

type_synonym trigger = "edge_evidence edge_trigger"
type_synonym world = "session_env agent_world"
type_synonym call = "edge_evidence agent_call"

text \<open>The zero value of a trigger.\<close>

definition no_trigger :: trigger where
  "no_trigger =
     \<lparr>tg_fire = False, tg_family = RetryFamily, tg_variant = '''', tg_hint = None, tg_detail = '''', tg_session_state = False,
      tg_report = '''', tg_commit = [], tg_evidence = no_edge_evidence\<rparr>"

definition mutating :: "session_agent \<Rightarrow> string \<Rightarrow> string \<Rightarrow> bool" where
  "mutating a = is_mutating_call (sa_command a)"

definition can_ask :: "session_agent \<Rightarrow> call \<Rightarrow> bool" where
  "can_ask a call \<longleftrightarrow> sa_interactive a \<and> \<not> ac_non_interactive call \<and> sa_question_tool a"

text \<open>The bytes of the dash and the ellipsis, and a quoted word.\<close>

definition dash :: string where "dash = [CHR 0xE2, CHR 0x80, CHR 0x94]"
definition ellipsis :: string where "ellipsis = [CHR 0xE2, CHR 0x80, CHR 0xA6]"
definition nl :: string where "nl = [CHR 0x0A]"
definition its :: string where "its = [apos, CHR ''s'']"

subsection \<open>Verification\<close>

definition verification_detail :: "edge_evidence \<Rightarrow> string" where
  "verification_detail e =
     ''failed='' @ nat_str (length (ee_failed e)) @ '' pending='' @ nat_str (length (ee_pending e))"

definition scan_verification_edge :: "session_agent \<Rightarrow> world \<Rightarrow> call \<Rightarrow> edge_input \<Rightarrow> trigger option" where
  "scan_verification_edge a w call i =
     (if \<not> clean_stop i then None
      else case scan_verification (sa_meta a) (sa_gjson_command a) (result_steps i) of
        (failed, pending, observed) \<Rightarrow>
          if failed = [] \<and> pending = [] then None
          else let e = no_edge_evidence\<lparr>ee_failed := failed, ee_pending := pending, ee_observed := observed\<rparr>
               in Some (no_trigger\<lparr>tg_fire := failed \<noteq> [], tg_detail := verification_detail e, tg_evidence := e\<rparr>))"

text \<open>The resolved verdict lands on a pending entry.\<close>

definition resolve_pending :: "(string, resolved_check) gomap \<Rightarrow> gate_check_outcome \<Rightarrow> gate_check_outcome" where
  "resolve_pending resolved p =
     (case map_of resolved (check_identity (go_check p)) of
        None \<Rightarrow> p
      | Some out \<Rightarrow>
          p\<lparr>go_check := (go_check p)\<lparr>vc_state := rv_state out, vc_detail := rv_detail out\<rparr>, go_output := rv_output out\<rparr>)"

definition resolve_verification_edge :: "session_agent \<Rightarrow> world \<Rightarrow> call \<Rightarrow> trigger \<Rightarrow> world \<times> trigger" where
  "resolve_verification_edge a w call t =
     (let e = tg_evidence t
      in if ee_pending e = [] then (w, t)
         else case run_gate_checks (sa_duration a) (sa_run a) (ee_pending e) (ee_observed e) of
           (resolved, recorded) \<Rightarrow>
             let env = (aw_env w)\<lparr>se_recorded := se_recorded (aw_env w) @ recorded\<rparr>
             in if sa_gate_cancelled a then (w\<lparr>aw_env := env\<rparr>, t)
                else let pending = map (resolve_pending resolved) (ee_pending e);
                         env' = env\<lparr>se_messages := map_option (map (\<lambda>m. fst (write_outcomes (sa_merge a) pending m))) (se_messages env)\<rparr>;
                         failed = ee_failed e @ filter (\<lambda>p. vc_state (go_check p) = verification_failed) pending;
                         e' = e\<lparr>ee_pending := pending, ee_failed := failed\<rparr>
                     in (w\<lparr>aw_env := env'\<rparr>,
                         t\<lparr>tg_fire := failed \<noteq> [], tg_detail := verification_detail e', tg_evidence := e'\<rparr>))"

definition failed_check_key :: "gate_check_outcome \<Rightarrow> string" where
  "failed_check_key f = go_call_id f @ nul @ vc_check (go_check f)"

definition failed_check_groups :: "gate_check_outcome list \<Rightarrow> gate_check_outcome list list" where
  "failed_check_groups failed =
     map (\<lambda>k. filter (\<lambda>f. failed_check_key f = k) failed) (foldl dedup_append [] (map failed_check_key failed))"

definition verification_retry_prefix :: string where "verification_retry_prefix = ''Verification failed.''"

definition group_section :: "session_agent \<Rightarrow> gate_check_outcome list \<Rightarrow> string" where
  "group_section a fs =
     (let f = hd fs
      in nl @ ''<check name='' @ sa_quote a (vc_check (go_check f)) @ ''>'' @ nl @
         concat (map (\<lambda>g. sa_rel a (vc_path (go_check g)) @
                     (if vc_detail (go_check g) \<noteq> '''' then '': '' @ vc_detail (go_check g) else '''') @ nl)
                   (filter (\<lambda>g. vc_path (go_check g) \<noteq> '''') fs)) @
         sa_truncate a (if go_output f = '''' then vc_detail (go_check f) else go_output f) @ nl @ ''</check>'' @ nl)"

definition escape_valve :: string where
  "escape_valve =
     nl @ ''If a check'' @ its @ '' failure is the task'' @ its @ '' intent '' @ dash @ '' the request asked for an '' @
     ''intentionally failing state, or fixing would violate an explicit constraint in the '' @
     ''request (e.g. '' @ [quot] @ ''do not modify X'' @ [quot] @ '') '' @ dash @ '' explain why it stays failing instead of fixing. '' @
     ''Explicit instructions in the user'' @ its @ '' request take precedence over these checks; an '' @
     ''explained failure stays recorded but does not re-prompt, while re-running a '' @
     ''still-failing check re-flags it.'' @ nl"

definition verification_retry_section :: "session_agent \<Rightarrow> trigger \<Rightarrow> string" where
  "verification_retry_section a t =
     (let failed = ee_failed (tg_evidence t)
      in if failed = [] then ''''
         else verification_retry_prefix @ '' The following check(s) did not pass '' @ dash @
              '' fix the underlying issue; do not restate success.'' @ nl @
              concat (map (group_section a) (failed_check_groups failed)) @ escape_valve)"

definition verification_exhaust_note :: "trigger \<Rightarrow> nat \<Rightarrow> string" where
  "verification_exhaust_note t attempts =
     (let failed = ee_failed (tg_evidence t)
      in if failed = [] then ''''
         else let d = vc_detail (go_check (last failed))
              in nat_str (length (failed_check_groups failed)) @ '' check(s) still failing after '' @ nat_str attempts @
                 '' attempt(s). Last failure: '' @ (if d = '''' then first_line (go_output (last failed)) else d))"

subsection \<open>Todos\<close>

text \<open>What a call's input says it writes, for the evidence of a plan.\<close>

definition written_paths :: "session_agent \<Rightarrow> string \<Rightarrow> string \<Rightarrow> string list" where
  "written_paths a name input =
     (if name \<in> set write_tool_names \<or> name = download_tool_name
      then (let p = sa_call_file_path a input in if p = '''' then [] else [p])
      else if name = ''bash'' then (case sa_command a input of None \<Rightarrow> [] | Some c \<Rightarrow> bash_redirect_targets c)
      else [])"

definition session_plan_verdicts :: "session_agent \<Rightarrow> session_env \<Rightarrow> plan_verdict list" where
  "session_plan_verdicts a env =
     plan_verdicts (sa_norm a) (sa_rel a) (sa_todos_tool a) (se_todos env)
       (map_option (scan_plan_evidence (sa_norm a) (sa_checks a) (written_paths a) (se_servers env)) (se_messages env))"

definition scan_todos_edge :: "session_agent \<Rightarrow> world \<Rightarrow> call \<Rightarrow> edge_input \<Rightarrow> trigger option" where
  "scan_todos_edge a w call i =
     (if \<not> clean_stop i then None
      else let open_items = session_plan_verdicts a (aw_env w)
           in if open_items = [] then None
              else Some (no_trigger\<lparr>tg_fire := True, tg_session_state := True,
                     tg_detail := ''open='' @ nat_str (length open_items), tg_evidence := no_edge_evidence\<lparr>ee_plan := open_items\<rparr>\<rparr>))"

definition todos_retry_prefix :: string where "todos_retry_prefix = ''The todo list still has''"
definition max_listed_todos :: nat where "max_listed_todos = 20"

definition key_by_id :: "plan_verdict list \<Rightarrow> (string, string) gomap" where
  "key_by_id vs =
     foldl (\<lambda>m v. if pl_key (pv_item v) \<noteq> '''' then AList.update (pl_id (pv_item v)) (pl_key (pv_item v)) m else m) [] vs"

definition blocker_suffix :: "(string, string) gomap \<Rightarrow> plan_verdict \<Rightarrow> string" where
  "blocker_suffix keys v =
     (let names = filter (\<lambda>k. k \<noteq> '''') (map (\<lambda>d. case map_of keys d of None \<Rightarrow> '''' | Some k \<Rightarrow> k) (pl_depends_on (pv_item v)))
      in if names = [] then '''' else '' (blocked by: '' @ join_with '', '' names @ '')'')"

text \<open>Ready items, blocked completed ones, then those that wait; each with the suffix of its line.\<close>

definition listed_todos :: "plan_verdict list \<Rightarrow> (plan_verdict \<times> string) list" where
  "listed_todos vs =
     map (\<lambda>v. (v, '''')) (filter (\<lambda>v. pv_state v = PlanOpen \<and> pv_ready v) vs) @
     map (\<lambda>v. (v, '' '' @ dash @ '' marked completed but '' @ pv_reason v)) (filter (\<lambda>v. pv_state v = PlanEvidenceBlocked) vs) @
     map (\<lambda>v. (v, blocker_suffix (key_by_id vs) v)) (filter (\<lambda>v. pv_state v = PlanOpen \<and> \<not> pv_ready v) vs)"

definition todo_line :: "plan_verdict \<times> string \<Rightarrow> string" where
  "todo_line x = (case x of (v, sfx) \<Rightarrow> ''- ['' @ pl_status (pv_item v) @ ''] '' @ pl_content (pv_item v) @ sfx @ nl)"

definition todos_retry_section :: "trigger \<Rightarrow> string" where
  "todos_retry_section t =
     (let plan = ee_plan (tg_evidence t); lines = take max_listed_todos (listed_todos plan)
      in if plan = [] then ''''
         else todos_retry_prefix @ '' unresolved item(s) '' @ dash @ '' a turn is not done while its declared tasks are open:'' @ nl @
              concat (map todo_line lines) @
              (if length plan > length lines then ''- '' @ ellipsis @ '' and '' @ nat_str (length plan - length lines) @ '' more'' @ nl else '''') @
              ''Finish the remaining work, or reconcile the list with the todos tool (mark genuinely done items completed; drop abandoned ones). An evidence-blocked item needs its evidence resolved '' @ dash @
              '' run the check or rebind it '' @ dash @
              '' not a repeated completed mark. Do not report the task finished while the list says otherwise.'' @ nl)"

definition todos_exhaust_note :: "trigger \<Rightarrow> nat \<Rightarrow> string" where
  "todos_exhaust_note t attempts =
     (let plan = ee_plan (tg_evidence t)
      in if plan = [] then ''''
         else nat_str (length plan) @ '' todo item(s) still unresolved after '' @ nat_str attempts @ '' attempt(s).'')"
subsection \<open>What a run wrote and touched\<close>

text \<open>The targets of one mutating call.\<close>

definition call_targets :: "session_agent \<Rightarrow> call_content \<Rightarrow> string list" where
  "call_targets a c =
     (if \<not> mutating a (cc_name c) (cc_input c) then []
      else if cc_name c = ''bash'' then (case sa_command a (cc_input c) of None \<Rightarrow> [] | Some cmd \<Rightarrow> bash_redirect_targets cmd)
      else case sa_path_params a (cc_input c) of None \<Rightarrow> [] | Some (fp, p) \<Rightarrow> [if fp \<noteq> '''' then fp else p])"

definition step_write_set :: "session_agent \<Rightarrow> step_result list \<Rightarrow> string list" where
  "step_write_set a steps =
     foldl dedup_append [] (filter (\<lambda>p. p \<noteq> '''') (concat (map (call_targets a) (concat (map st_calls steps)))))"

definition touched_dir :: "session_agent \<Rightarrow> call_content \<Rightarrow> string option" where
  "touched_dir a c =
     (case sa_path_params a (cc_input c) of
        None \<Rightarrow> None
      | Some (fp, p) \<Rightarrow>
          let q = (if fp \<noteq> '''' then fp else p)
          in if q = '''' then None else Some (if path_dir q = ''.'' then '''' else path_dir q))"

definition touched_dirs :: "session_agent \<Rightarrow> step_result list \<Rightarrow> string list" where
  "touched_dirs a steps = foldl dedup_append [] (List.map_filter (touched_dir a) (concat (map st_calls steps)))"

text \<open>\<open>sa_rel_dir\<close> is \<open>filepath.Rel\<close> from the working directory, which can fail.\<close>

definition rel_touched_dir :: "session_agent \<Rightarrow> string \<Rightarrow> string option" where
  "rel_touched_dir a dir =
     (if has_prefix dir ''/''
      then (case sa_rel_dir a dir of
              None \<Rightarrow> None
            | Some r \<Rightarrow> if r = ''..'' \<or> has_prefix r ''../'' then None else Some (if r = ''.'' then '''' else r))
      else Some (if dir = ''.'' then '''' else dir))"

definition rel_touched_dirs :: "session_agent \<Rightarrow> step_result list \<Rightarrow> string list" where
  "rel_touched_dirs a steps = List.map_filter (rel_touched_dir a) (touched_dirs a steps)"

subsection \<open>The handoff of a replan\<close>

definition newer :: "notebook_entry \<Rightarrow> notebook_entry \<Rightarrow> bool" where
  "newer e f \<longleftrightarrow> nb_turn e > nb_turn f \<or> nb_turn e = nb_turn f \<and> nb_event e > nb_event f"

text \<open>\<open>notebook.LatestCheckpointIDs\<close>; the newest checkpoint per granularity.\<close>

definition latest_checkpoints :: "notebook_entry list \<Rightarrow> (string, notebook_entry) gomap" where
  "latest_checkpoints es =
     foldl (\<lambda>m e. if nb_granularity e \<noteq> ''boundary'' \<and> nb_granularity e \<noteq> ''session'' then m
                  else case map_of m (nb_granularity e) of
                    None \<Rightarrow> AList.update (nb_granularity e) e m
                  | Some cur \<Rightarrow> if newer e cur then AList.update (nb_granularity e) e m else m) [] es"

definition latest_checkpoint_ids :: "notebook_entry list \<Rightarrow> string list" where
  "latest_checkpoint_ids es = map (\<lambda>(g, e). nb_id e) (latest_checkpoints es)"

definition better_checkpoint :: "string list \<Rightarrow> notebook_entry option \<Rightarrow> notebook_entry \<Rightarrow> notebook_entry option" where
  "better_checkpoint latest best e =
     (if nb_id e \<notin> set latest then best
      else case best of None \<Rightarrow> Some e | Some b \<Rightarrow> if newer e b then Some e else best)"

definition replan_checkpoint :: "notebook_entry list \<Rightarrow> string" where
  "replan_checkpoint es =
     (case foldl (better_checkpoint (latest_checkpoint_ids es)) None es of
        None \<Rightarrow> ''''
      | Some b \<Rightarrow> if nb_text_full b = '''' then nb_text b else nb_text_full b)"

definition map_slice_of :: "(string \<Rightarrow> string option) \<Rightarrow> string list \<Rightarrow> string" where
  "map_slice_of subtree dirs =
     trim_space (concat (map (\<lambda>dir. case subtree dir of
         None \<Rightarrow> ''''
       | Some part \<Rightarrow> if part = '''' \<or> has_prefix part ''Path '' \<or> has_prefix part ''No indexed files'' then '''' else part @ nl) dirs))"

text \<open>\<open>sa_subtree\<close> is \<open>None\<close> when the project index is off or not ready.\<close>

definition pull_replan_handoff :: "session_agent \<Rightarrow> world \<Rightarrow> trigger \<Rightarrow> trigger" where
  "pull_replan_handoff a w t =
     (let e = tg_evidence t;
          e1 = e\<lparr>ee_checkpoint := (case se_entries (aw_env w) of None \<Rightarrow> ee_checkpoint e
                   | Some es \<Rightarrow> if foldl (better_checkpoint (latest_checkpoint_ids es)) None es = None then ee_checkpoint e
                                else replan_checkpoint es),
                 ee_write_set := map (sa_rel a) (ee_write_set e)\<rparr>;
          dirs = rel_touched_dirs a (ee_steps e)
      in t\<lparr>tg_evidence := (case sa_subtree a of
             None \<Rightarrow> e1
           | Some subtree \<Rightarrow> if dirs = [] then e1 else e1\<lparr>ee_map_slice := map_slice_of subtree dirs\<rparr>)\<rparr>)"

subsection \<open>Stalls and verify loops\<close>

definition append_report :: "string \<Rightarrow> world \<Rightarrow> world" where
  "append_report s w = w\<lparr>aw_assistant := map_option (append_assistant (blank_line @ s)) (aw_assistant w)\<rparr>"

text \<open>The part both scans share: replan on the first repair slot, else escalate if the run can ask.\<close>

definition replan_or_escalate :: "session_agent \<Rightarrow> call \<Rightarrow> trigger \<Rightarrow> trigger" where
  "replan_or_escalate a call t =
     (let replan = ac_repair_attempts call = 0;
          t1 = t\<lparr>tg_variant := (if replan then ''replan'' else ''escalate''),
                 tg_family := (if replan then RetryFamily else EscalateFamily)\<rparr>
      in if \<not> sa_ambiguity a then t1\<lparr>tg_hint := Some Gated\<rparr>
         else if replan then t1\<lparr>tg_fire := True\<rparr>
         else if can_ask a call then t1\<lparr>tg_fire := True\<rparr>
         else t1\<lparr>tg_hint := Some Degraded\<rparr>)"

definition ended_mid_chain :: "edge_input \<Rightarrow> bool" where
  "ended_mid_chain i \<longleftrightarrow> \<not> ended_on_stop_turn i \<and> st_finish (last (result_steps i)) = FinishToolCalls"

definition repeated_in :: "session_agent \<Rightarrow> edge_input \<Rightarrow> string \<times> string \<times> nat" where
  "repeated_in a i =
     repeated_tool_signature (sa_hash a) (result_steps i) loop_detection_window_size loop_detection_max_repeats"

definition stall_blocker_report :: "session_agent \<Rightarrow> string \<Rightarrow> string" where
  "stall_blocker_report a tool =
     ''Stopped: '' @ (if tool = '''' then ''the same tool call'' else sa_quote a tool) @ '' repeated without making progress. '' @
     ''What'' @ its @ '' blocking: identical input produced identical output, so no state changed. '' @
     ''Ways forward: restate the task with a concrete file or command, narrow the scope, or grant the missing access.''"

definition scan_stall_edge :: "session_agent \<Rightarrow> world \<Rightarrow> call \<Rightarrow> edge_input \<Rightarrow> trigger option" where
  "scan_stall_edge a w call i =
     (case repeated_in a i of
        (sig, tool, repeats) \<Rightarrow>
          if \<not> ri_stalled i \<and> (sig = '''' \<or> \<not> ended_mid_chain i) then None
          else Some (replan_or_escalate a call (no_trigger\<lparr>
                 tg_report := (if sig = '''' then ''The loop detector stopped this run: the step pattern repeated without progress.''
                               else stall_blocker_report a tool),
                 tg_detail := (if sig = '''' then ''stalled (signature aged out of window)''
                               else ''tool='' @ sa_quote a tool @ '' repeats='' @ nat_str repeats @ '' signature='' @ sig),
                 tg_evidence := no_edge_evidence\<lparr>ee_steps := result_steps i, ee_write_set := step_write_set a (result_steps i)\<rparr>\<rparr>)))"

text \<open>The resolve of both edges; storing the message is not shown, the world has the message itself.\<close>

definition resolve_replan_edge :: "session_agent \<Rightarrow> world \<Rightarrow> call \<Rightarrow> trigger \<Rightarrow> world \<times> trigger" where
  "resolve_replan_edge a w call t =
     (if tg_variant t = ''replan'' \<and> tg_fire t then (w, pull_replan_handoff a w t)
      else if tg_fire t \<or> aw_assistant w = None \<or> tg_report t = '''' then (w, t)
      else (append_report (tg_report t) w, t))"

definition replan_tail :: "edge_evidence \<Rightarrow> string \<Rightarrow> string \<Rightarrow> string" where
  "replan_tail e report files_line =
     (if report \<noteq> '''' then report @ blank_line else '''') @
     (if ee_write_set e \<noteq> [] then files_line @ nl @ concat (map (\<lambda>p. ''- '' @ p @ nl) (ee_write_set e)) @ nl else '''') @
     (if ee_checkpoint e \<noteq> '''' then ''Latest session checkpoint:'' @ nl @ ee_checkpoint e @ blank_line else '''') @
     (if ee_map_slice e \<noteq> '''' then ''Project map over the touched directories:'' @ nl @ ee_map_slice e @ blank_line else '''')"

definition stall_replan_prefix :: string where "stall_replan_prefix = ''The previous attempt stalled''"
definition stall_retry_prefix :: string where "stall_retry_prefix = ''The previous attempt was stopped''"

definition stall_replan_section :: "trigger \<Rightarrow> string" where
  "stall_replan_section t =
     stall_replan_prefix @ '' '' @ dash @ '' the same tool calls repeated without making progress.'' @ blank_line @
     replan_tail (tg_evidence t) (tg_report t) ''Files written before the stall:'' @
     ''State which assumption failed in one line, then take a materially different approach '' @ dash @
     '' a different file, command, or strategy. Do not repeat the same calls; if the task is genuinely '' @
     ''blocked, name what is missing instead of retrying.''"

definition stall_retry_section :: string where
  "stall_retry_section =
     stall_retry_prefix @ '': the same tool calls repeated without making progress. '' @
     ''Do not retry the same approach. Escalate with ONE question-tool call '' @ dash @ '' a single_choice question '' @
     ''naming what you tried and what is blocking, with each choice describing the tradeoff of that '' @
     ''way forward. If the user cannot answer, proceed with your stated-best option.''"

definition stall_prompt_section :: "trigger \<Rightarrow> string" where
  "stall_prompt_section t = (if tg_variant t = ''replan'' then stall_replan_section t else stall_retry_section)"

definition stall_exhaust_note :: "trigger \<Rightarrow> nat \<Rightarrow> string" where
  "stall_exhaust_note t attempts =
     ''Stopped after repeating identical tool calls; '' @ nat_str attempts @ '' repair attempt(s) exhausted.''"

definition verify_loop_report :: "session_agent \<Rightarrow> nat \<Rightarrow> step_result list \<Rightarrow> string" where
  "verify_loop_report a streak steps =
     (let names = post_write_streak_tools (mutating a) steps
      in ''Stopped: '' @ nat_str streak @ '' consecutive verification step(s)'' @
         (if names = [] then '''' else '' ('' @ join_with '', '' names @ '')'') @
         '' after the last write produced no new edit. '' @
         ''What'' @ its @ '' blocking: the check keeps reporting the same failure, so verifying again cannot change the outcome. '' @
         ''Ways forward: state what the failed check proves about the current diagnosis and change the fix, '' @
         ''test a different hypothesis, or name the missing piece if the task is genuinely blocked.'')"

definition scan_verify_loop_edge :: "session_agent \<Rightarrow> world \<Rightarrow> call \<Rightarrow> edge_input \<Rightarrow> trigger option" where
  "scan_verify_loop_edge a w call i =
     (let steps = result_steps i; streak = post_write_streak_len (mutating a) steps
      in if ri_stalled i then None
         else if \<not> ri_verify_loop i \<and>
           (\<not> has_post_write_verify_streak (mutating a) steps \<or> \<not> ended_mid_chain i \<or> fst (repeated_in a i) \<noteq> '''') then None
         else Some (replan_or_escalate a call (no_trigger\<lparr>
                tg_report := verify_loop_report a streak steps,
                tg_detail := ''post_write_streak='' @ nat_str streak @ '' tools='' @ join_with '','' (post_write_streak_tools (mutating a) steps),
                tg_evidence := no_edge_evidence\<lparr>ee_steps := steps, ee_write_set := step_write_set a steps\<rparr>\<rparr>)))"

definition verify_loop_replan_prefix :: string where
  "verify_loop_replan_prefix = ''The previous attempt kept verifying the same fix''"
definition verify_loop_escalate_prefix :: string where
  "verify_loop_escalate_prefix = ''This run kept verifying the same fix without converging''"

definition verify_loop_replan_section :: "trigger \<Rightarrow> string" where
  "verify_loop_replan_section t =
     verify_loop_replan_prefix @ '' '' @ dash @ '' consecutive post-write steps went to '' @
     ''checking without a new edit, and the check still reports the same failure.'' @ blank_line @
     replan_tail (tg_evidence t) (tg_report t) ''Files written before the loop:'' @
     ''Re-running the same check confirms what is already known '' @ dash @ '' the fix did not take; it cannot '' @
     ''move the work forward. State in one line what the failed check proves about the current diagnosis, '' @
     ''then act on it: change the fix, test a different hypothesis, or name what is missing if the task is '' @
     ''genuinely blocked. Do not spend another step verifying an outcome that is already known.''"

definition verify_loop_escalate_section :: string where
  "verify_loop_escalate_section =
     verify_loop_escalate_prefix @ '': the check keeps producing the same failure after the write. '' @
     ''Do not re-run the same check. Escalate with ONE question-tool call '' @ dash @ '' a single_choice question '' @
     ''naming what you fixed and what keeps failing, with each choice describing the tradeoff of that '' @
     ''way forward. If the user cannot answer, proceed with your stated-best option.''"

definition verify_loop_prompt_section :: "trigger \<Rightarrow> string" where
  "verify_loop_prompt_section t =
     (if tg_variant t = ''replan'' then verify_loop_replan_section t else verify_loop_escalate_section)"

definition verify_loop_exhaust_note :: "session_agent \<Rightarrow> trigger \<Rightarrow> nat \<Rightarrow> string" where
  "verify_loop_exhaust_note a t attempts =
     ''Stopped after '' @ nat_str (post_write_streak_len (mutating a) (ee_steps (tg_evidence t))) @
     '' consecutive post-write verification step(s) without a new edit; '' @ nat_str attempts @ '' repair attempt(s) exhausted.''"
subsection \<open>Burn watch\<close>

definition burn_watch_steps_threshold :: nat where "burn_watch_steps_threshold = 30"
definition burn_watch_min_steps :: nat where "burn_watch_min_steps = 10"
definition burn_watch_input_tokens :: int where "burn_watch_input_tokens = 200000"

definition scan_burn_watch_edge :: "session_agent \<Rightarrow> world \<Rightarrow> call \<Rightarrow> edge_input \<Rightarrow> trigger option" where
  "scan_burn_watch_edge a w call i =
     (if \<not> clean_stop i \<or> ri_stalled i then None
      else let steps = length (result_steps i); tokens = ri_input_tokens i
      in case scan_step_call_classes (mutating a) (result_steps i) of
        (writes, explorations, files_read) \<Rightarrow>
          if 0 < writes then None
          else if steps \<le> burn_watch_steps_threshold \<and> (steps < burn_watch_min_steps \<or> tokens \<le> burn_watch_input_tokens) then None
          else let t = no_trigger\<lparr>tg_family := EscalateFamily,
                  tg_detail := ''steps='' @ nat_str steps @ '' input_tokens='' @ int_str tokens @ '' explorations='' @ nat_str explorations @
                    '' files_read='' @ nat_str files_read @ '' writes=0'',
                  tg_evidence := no_edge_evidence\<lparr>ee_steps := result_steps i, ee_input_tokens := tokens\<rparr>\<rparr>
          in if \<not> sa_ambiguity a then Some (t\<lparr>tg_hint := Some Gated\<rparr>)
             else if ac_burn_watched call then Some (t\<lparr>tg_hint := Some Suppressed\<rparr>)
             else if can_ask a call then Some (t\<lparr>tg_fire := True\<rparr>)
             else Some (t\<lparr>tg_hint := Some Degraded\<rparr>))"

text \<open>\<open>n / 1000\<close> of a count that is not negative where it is used.\<close>

definition human_tokens :: "int \<Rightarrow> string" where
  "human_tokens n = (if n \<ge> 1000 then int_str (n div 1000) @ ''K tokens'' else int_str n @ '' tokens'')"

definition spent_over :: "edge_evidence \<Rightarrow> string" where
  "spent_over e = human_tokens (ee_input_tokens e) @ '' over '' @ nat_str (length (ee_steps e)) @ '' steps''"

definition burn_watch_assumption :: "trigger \<Rightarrow> string" where
  "burn_watch_assumption t =
     ''Burn-watch: '' @ spent_over (tg_evidence t) @ '' with no file writes '' @ dash @
     '' assuming the exploration was intended and continuing.''"

definition resolve_burn_watch_edge :: "session_agent \<Rightarrow> world \<Rightarrow> call \<Rightarrow> trigger \<Rightarrow> world \<times> trigger" where
  "resolve_burn_watch_edge a w call t =
     (if tg_fire t \<or> tg_hint t \<noteq> Some Degraded \<or> aw_assistant w = None then (w, t)
      else (append_report (burn_watch_assumption t) w, t))"

definition burn_watch_prefix :: string where "burn_watch_prefix = ''This run spent''"

definition burn_watch_retry_section :: "trigger \<Rightarrow> string" where
  "burn_watch_retry_section t =
     burn_watch_prefix @ '' '' @ spent_over (tg_evidence t) @ '' without producing any file writes. '' @
     ''Escalate with ONE question-tool call '' @ dash @ '' a single_choice question reporting the spend and asking '' @
     ''how to proceed, with choices covering continue as-is, replan toward a concrete write target, and '' @
     ''stop. If the user cannot answer, proceed with your stated-best option.''"

definition burn_watch_exhaust_note :: "trigger \<Rightarrow> nat \<Rightarrow> string" where
  "burn_watch_exhaust_note t attempts =
     ''Spent '' @ spent_over (tg_evidence t) @ '' with no writes after '' @ nat_str attempts @ '' attempt(s).''"

subsection \<open>Reconciling failures\<close>

definition max_reconcile_listed :: nat where "max_reconcile_listed = 10"

definition reconcile_seen_key :: "string \<Rightarrow> open_failure \<Rightarrow> string" where
  "reconcile_seen_key session f = session @ nul @ of_signature f @ nul @ int_str (of_first_seen f)"

definition unseen_failures :: "world \<Rightarrow> string \<Rightarrow> open_failure list \<Rightarrow> open_failure list" where
  "unseen_failures w session fs = filter (\<lambda>f. reconcile_seen_key session f \<notin> set (aw_seen w)) fs"

text \<open>\<open>ri_started_at\<close> is in milliseconds, 0 for the zero time.\<close>

definition introduced :: "edge_input \<Rightarrow> open_failure list \<Rightarrow> nat" where
  "introduced i fs = length (filter (\<lambda>f. ri_started_at i \<noteq> 0 \<and> of_first_seen f \<ge> ri_started_at i) fs)"

definition scan_reconcile_edge :: "session_agent \<Rightarrow> world \<Rightarrow> call \<Rightarrow> edge_input \<Rightarrow> trigger option" where
  "scan_reconcile_edge a w call i =
     (if \<not> clean_stop i \<or> sa_sub_agent a then None
      else if sa_holdout_off a (ac_session call) then None
      else case se_failures (aw_env w) of
        None \<Rightarrow> None
      | Some fs \<Rightarrow>
          if fs = [] then None
          else let unseen = unseen_failures w (ac_session call) fs;
                   t = no_trigger\<lparr>tg_session_state := True,
                     tg_detail := ''open='' @ nat_str (length fs) @ '' introduced='' @ nat_str (introduced i unseen) @
                       '' suppressed='' @ nat_str (length fs - length unseen),
                     tg_evidence := no_edge_evidence\<lparr>ee_open_failures := unseen\<rparr>\<rparr>
          in Some (if unseen = [] then t\<lparr>tg_hint := Some Suppressed\<rparr>
                   else if \<not> sa_failure_memory a \<or> sa_failure_memory_edges_off a then t\<lparr>tg_hint := Some Gated\<rparr>
                   else t\<lparr>tg_fire := True,
                          tg_commit := map (reconcile_seen_key (ac_session call)) (take max_reconcile_listed unseen)\<rparr>))"

text \<open>\<open>tailSafeText\<close>\<close>

fun tail_safe_text :: "string \<Rightarrow> string" where
  "tail_safe_text [] = []"
| "tail_safe_text (c # cs) =
     (if c = CHR ''<'' then CHR ''('' # tail_safe_text cs
      else if c = CHR ''>'' then CHR '')'' # tail_safe_text cs
      else if c = CHR 0x0D \<and> has_prefix cs nl then CHR '' '' # tail_safe_text (tl cs)
      else if c = CHR 0x0A \<or> c = CHR 0x0D then CHR '' '' # tail_safe_text cs
      else c # tail_safe_text cs)"

definition reconcile_retry_prefix :: string where "reconcile_retry_prefix = ''Observed failures still open''"

definition failure_line :: "session_agent \<Rightarrow> open_failure \<Rightarrow> string" where
  "failure_line a f =
     ''- '' @ [CHR 0x60] @ tail_safe_text (of_cmd f) @ [CHR 0x60] @
     (if of_cwd f \<noteq> '''' \<and> of_cwd f \<noteq> ''.'' then '' in '' @ tail_safe_text (of_cwd f) else '''') @
     '' '' @ dash @ '' '' @ tail_safe_text (sa_screen a (of_headline f)) @ nl"

definition reconcile_retry_section :: "session_agent \<Rightarrow> trigger \<Rightarrow> string" where
  "reconcile_retry_section a t =
     (let fs = ee_open_failures (tg_evidence t)
      in if fs = [] then ''''
         else reconcile_retry_prefix @ '' '' @ dash @ '' a run is not done while command(s) it ran still have open failure rows:'' @ nl @
              concat (map (failure_line a) (take max_reconcile_listed fs)) @
              (if length fs > max_reconcile_listed
               then ''- '' @ ellipsis @ '' and '' @ nat_str (length fs - max_reconcile_listed) @ '' more'' @ nl else '''') @
              ''A failure row resolves only when its recorded command is re-run and passes. Re-run each listed command to verify the failure is gone; if it still fails, fix the cause or explain why it stays open. Do not report the task finished while these rows remain open. Flagged rows are not re-litigated this session '' @ dash @
              '' an explanation stands '' @ dash @ '' but a row stays in memory until its command passes and flags again in a new session.'' @ nl)"

definition reconcile_exhaust_note :: "trigger \<Rightarrow> nat \<Rightarrow> string" where
  "reconcile_exhaust_note t attempts =
     (let fs = ee_open_failures (tg_evidence t)
      in if fs = [] then ''''
         else nat_str (length fs) @ '' observed failure(s) still open after '' @ nat_str attempts @
              '' attempt(s). The retry budget is spent '' @ dash @
              '' they remain flagged but no longer block finishing: state them in your summary and finish.'')"

text \<open>The reconcile part of \<open>forgetSessionState\<close>\<close>

definition forget_session_marks :: "string \<Rightarrow> string list \<Rightarrow> string list" where
  "forget_session_marks session seen = filter (\<lambda>k. \<not> has_prefix k (session @ nul)) seen"

subsection \<open>The set\<close>

definition run_edge_set :: "session_agent \<Rightarrow> (session_env, edge_evidence) run_edge list" where
  "run_edge_set a =
     [\<lparr>ed_name = ''verification'', ed_scan = scan_verification_edge a, ed_resolve = Some (resolve_verification_edge a),
       ed_prompt = verification_retry_section a, ed_note = Some verification_exhaust_note\<rparr>,
      \<lparr>ed_name = ''todos'', ed_scan = scan_todos_edge a, ed_resolve = None,
       ed_prompt = todos_retry_section, ed_note = Some todos_exhaust_note\<rparr>,
      \<lparr>ed_name = ''stall'', ed_scan = scan_stall_edge a, ed_resolve = Some (resolve_replan_edge a),
       ed_prompt = stall_prompt_section, ed_note = Some stall_exhaust_note\<rparr>,
      \<lparr>ed_name = ''verify-loop'', ed_scan = scan_verify_loop_edge a, ed_resolve = Some (resolve_replan_edge a),
       ed_prompt = verify_loop_prompt_section, ed_note = Some (verify_loop_exhaust_note a)\<rparr>,
      \<lparr>ed_name = ''burn-watch'', ed_scan = scan_burn_watch_edge a, ed_resolve = Some (resolve_burn_watch_edge a),
       ed_prompt = burn_watch_retry_section, ed_note = Some burn_watch_exhaust_note\<rparr>,
      \<lparr>ed_name = ''reconcile'', ed_scan = scan_reconcile_edge a, ed_resolve = None,
       ed_prompt = reconcile_retry_section a, ed_note = Some reconcile_exhaust_note\<rparr>]"

definition repair_prompt_prefixes :: "string list" where
  "repair_prompt_prefixes =
     [verification_retry_prefix, todos_retry_prefix, stall_retry_prefix, stall_replan_prefix, burn_watch_prefix,
      verify_loop_replan_prefix, verify_loop_escalate_prefix]"

text \<open>\<open>isRepairPrompt\<close> of agent/referent_memory.go and eval/analyze.go\<close>

definition is_repair_prompt :: "string \<Rightarrow> bool" where
  "is_repair_prompt text = list_ex (\<lambda>p. has_prefix text p) repair_prompt_prefixes"
subsection \<open>One diagnosis per run\<close>

lemma replan_or_escalate_sel [simp]:
  "tg_report (replan_or_escalate a call t) = tg_report t"
  "tg_evidence (replan_or_escalate a call t) = tg_evidence t"
  by (simp_all add: replan_or_escalate_def Let_def)

lemma scan_stall_None: "scan_stall_edge a w call i = None \<longleftrightarrow> \<not> ri_stalled i \<and> (fst (repeated_in a i) = '''' \<or> \<not> ended_mid_chain i)"
  by (simp add: scan_stall_edge_def split: prod.split)

lemma scan_verify_loop_None:
  "scan_verify_loop_edge a w call i = None \<longleftrightarrow>
     ri_stalled i \<or> \<not> ri_verify_loop i \<and>
       (\<not> has_post_write_verify_streak (mutating a) (result_steps i) \<or> \<not> ended_mid_chain i \<or> fst (repeated_in a i) \<noteq> '''')"
  by (simp add: scan_verify_loop_edge_def Let_def)

lemma class_counts: "fst (scan_step_call_classes mut steps) = length (filter (\<lambda>c. mut (cc_name c) (cc_input c)) (concat (map st_calls steps)))"
proof -
  have "fst (foldl (class_step mut) acc cs) = fst acc + length (filter (\<lambda>c. mut (cc_name c) (cc_input c)) cs)" for acc cs
    by (induction cs arbitrary: acc) (auto simp: class_step_def split: prod.splits)
  then show ?thesis by (simp add: scan_step_call_classes_def)
qed

lemma writes_counted: "0 < fst (scan_step_call_classes mut steps) \<longleftrightarrow> run_has_mutating_call mut steps"
  unfolding class_counts length_greater_0_conv filter_empty_conv run_has_mutating_call_def step_has_mutating_call_def list_ex_iff
  by auto

lemma scan_burn_watch_Some:
  "scan_burn_watch_edge a w call i \<noteq> None \<Longrightarrow>
     clean_stop i \<and> \<not> ri_stalled i \<and> \<not> run_has_mutating_call (mutating a) (result_steps i)"
  using writes_counted [of "mutating a" "result_steps i"]
  by (auto simp: scan_burn_watch_edge_def Let_def split: if_splits prod.splits)

lemma mid_chain_not_clean: "ended_mid_chain i \<Longrightarrow> \<not> clean_stop i"
  by (auto simp: ended_mid_chain_def clean_stop_def)

text \<open>The boundary of a run whose stop conditions came to \<open>f\<close> after its last step.\<close>

definition boundary_of :: "edge_input \<Rightarrow> stop_flags \<Rightarrow> step_result list \<Rightarrow> edge_input" where
  "boundary_of i f steps = i\<lparr>ri_steps := Some steps, ri_stalled := sf_stalled f, ri_verify_loop := sf_verify_loop f\<rparr>"

lemma boundary_of_sel [simp]:
  "result_steps (boundary_of i f steps) = steps" "ri_stalled (boundary_of i f steps) = sf_stalled f"
  "ri_verify_loop (boundary_of i f steps) = sf_verify_loop f"
  by (simp_all add: boundary_of_def result_steps_def)

lemma stop_when_flags:
  "sf_verify_loop (stop_when hash mut summarize capped steps) \<Longrightarrow>
     fst (repeated_tool_signature hash steps loop_detection_window_size loop_detection_max_repeats) = '''' \<and>
     has_post_write_verify_streak mut steps \<and> \<not> sf_stalled (stop_when hash mut summarize capped steps)"
  by (auto simp: stop_when_def has_repeated_tool_calls_def split: if_splits)

text \<open>
  C31: a run gets at most one of the three progress diagnoses. Whatever the steps, and whether the
  run ended by a detector, by summarising, by a cap or by itself, at most one of the stall, verify
  loop and burn watch edges makes a verdict at its boundary.
\<close>

theorem one_progress_diagnosis:
  "length (filter (\<lambda>t. t \<noteq> None)
     (map (\<lambda>scan. scan a w call (boundary_of i (stop_when (sa_hash a) (mutating a) summarize capped steps) steps))
        [scan_stall_edge, scan_verify_loop_edge, scan_burn_watch_edge])) \<le> 1"
proof -
  let ?f = "stop_when (sa_hash a) (mutating a) summarize capped steps"
  let ?i = "boundary_of i ?f steps"
  have sig: "fst (repeated_in a ?i) = fst (repeated_tool_signature (sa_hash a) steps loop_detection_window_size loop_detection_max_repeats)"
    by (simp add: repeated_in_def)
  have stall_verify: "scan_stall_edge a w call ?i = None \<or> scan_verify_loop_edge a w call ?i = None"
    using stop_when_flags [of "sa_hash a" "mutating a" summarize capped steps]
    by (auto simp: scan_stall_None scan_verify_loop_None sig)
  have burn_stall: "scan_burn_watch_edge a w call ?i = None \<or> scan_stall_edge a w call ?i = None"
    using scan_burn_watch_Some [of a w call ?i] mid_chain_not_clean [of ?i] by (auto simp: scan_stall_None)
  have "scan_verify_loop_edge a w call ?i \<noteq> None \<Longrightarrow> run_has_mutating_call (mutating a) steps"
    using stop_when_flags [of "sa_hash a" "mutating a" summarize capped steps] verify_streak_iff
    by (auto simp: scan_verify_loop_None)
  then have burn_verify: "scan_burn_watch_edge a w call ?i = None \<or> scan_verify_loop_edge a w call ?i = None"
    using scan_burn_watch_Some [of a w call ?i] by (metis boundary_of_sel(1))
  show ?thesis using stall_verify burn_stall burn_verify by (auto simp del: not_None_eq)
qed
subsection \<open>A firing edge gets its turn\<close>

text \<open>Whether some edge fires, each scanned and resolved in the world its predecessors leave.\<close>

fun some_edge_fires :: "'e agent_call \<Rightarrow> edge_input \<Rightarrow> ('x, 'e) run_edge list \<Rightarrow> 'x agent_world \<Rightarrow> bool" where
  "some_edge_fires call i [] w = False"
| "some_edge_fires call i (e # es) w =
     (case ed_scan e w call i of
        None \<Rightarrow> some_edge_fires call i es w
      | Some t \<Rightarrow>
          if silent t then some_edge_fires call i es w
          else case resolve_edge e w call t of (w', t') \<Rightarrow> tg_fire t' \<or> some_edge_fires call i es w')"

text \<open>
  What the engine needs of a set of edges so that no firing edge is dropped without a retry: an edge
  that still fires after its resolve has something to say.
\<close>

locale prompting_edges =
  fixes edges :: "('x, 'e) run_edge list"
  assumes firing_prompts: "e \<in> set edges \<Longrightarrow> ed_scan e w call i = Some t \<Longrightarrow> \<not> silent t \<Longrightarrow>
      resolve_edge e w call t = (w', t') \<Longrightarrow> tg_fire t' \<Longrightarrow> ed_prompt e t' \<noteq> ''''"
begin

lemma scan_contenders:
  assumes "set es \<subseteq> set edges" and "list_all (\<lambda>c. prompt_of c \<noteq> '''') cs"
    and "scan_edges cfg (\<lambda>_. False) call i es (b, carried, cs, still) = st"
  shows "\<exists>b' carried' cs' still'. st = Inr (b', carried', cs', still') \<and> list_all (\<lambda>c. prompt_of c \<noteq> '''') cs' \<and>
    (cs' \<noteq> [] \<longleftrightarrow> cs \<noteq> [] \<or> some_edge_fires call i es (bd_world b))"
  using assms
proof (induction es arbitrary: b carried cs still)
  case (Cons e es)
  then have e: "e \<in> set edges" "set es \<subseteq> set edges" by auto
  note ih = Cons.IH [OF e(2)]
  show ?case
  proof (cases "ed_scan e (bd_world b) call i")
    case None
    show ?thesis
    proof (cases "map_of carried (ed_name e)")
      case n2: None
      then show ?thesis using ih [OF Cons.prems(2)] Cons.prems(3) None by (simp add: Let_def)
    next
      case (Some d)
      show ?thesis
      proof (cases "clean_stop i")
        case True
        then show ?thesis
          using ih [OF Cons.prems(2), of "record_edge_firing cfg call i (ed_name e) (Some (df_trigger d)) Cleared b"
              "AList.delete (ed_name e) carried" still] Cons.prems(3) None Some by (simp add: Let_def)
      next
        case False
        then show ?thesis
          using ih [OF Cons.prems(2), of b "AList.delete (ed_name e) carried" "still @ [d]"] Cons.prems(3) None Some
          by (simp add: Let_def)
      qed
    qed
  next
    case (Some t)
    obtain w t' where r: "resolve_edge e (bd_world b) call t = (w, t')" by (cases "resolve_edge e (bd_world b) call t")
    show ?thesis
    proof (cases "silent t")
      case True
      then show ?thesis
        using ih [OF Cons.prems(2), of "record_edge_firing cfg call i (ed_name e) (Some t) (the (tg_hint t)) b"
            "AList.delete (ed_name e) carried" still] Cons.prems(3) Some by (simp add: Let_def)
    next
      case loud: False
      show ?thesis
      proof (cases "tg_fire t'")
        case True
        then have "prompt_of (e, t') \<noteq> ''''" using firing_prompts [OF e(1) Some loud r] by (simp add: prompt_of_def)
        then have "list_all (\<lambda>c. prompt_of c \<noteq> '''') (cs @ [(e, t')])" using Cons.prems(2) by simp
        from ih [OF this, of "b\<lparr>bd_world := w\<rparr>" "AList.delete (ed_name e) carried" still] show ?thesis
          using Cons.prems(3) Some loud r True by (simp add: Let_def)
      next
        case False
        then show ?thesis
          using ih [OF Cons.prems(2), of "record_edge_firing cfg call i (ed_name e) (Some t')
              (if tg_hint t' = Some Degraded then Degraded else Cleared) (b\<lparr>bd_world := w\<rparr>)" "AList.delete (ed_name e) carried" still]
            Cons.prems(3) Some loud r by (simp add: Let_def)
      qed
    qed
  qed
qed auto

lemma decide_prompting:
  assumes "list_all (\<lambda>c. prompt_of c \<noteq> '''') cs" and "ac_repair_attempts call < max_repair_attempts"
  shows "fst (decide_boundary cfg (\<lambda>_. False) call i cs still b) \<longleftrightarrow> cs \<noteq> []"
proof (cases "cs = []")
  case False
  obtain ws ls where ws: "split_winners cs = (ws, ls)" by fastforce
  have "ws \<noteq> []" using ws False by (auto simp: split_winners_def split: list.splits)
  moreover have "set ws \<subseteq> set cs" using split_winners_parts(2) [OF ws] by (auto dest: list_emb_set)
  ultimately have "\<not> list_all (\<lambda>c. prompt_of c = '''') ws" using assms(1) by (cases ws) (auto simp: list_all_iff)
  then show ?thesis using False assms(2) ws by (simp add: decide_boundary_def Let_def)
qed (simp add: decide_boundary_def collect_dead_deferred_def)

lemma retry_iff_fires:
  assumes "ec_config cfg" "result_steps i \<noteq> []" "ac_repair_attempts call < max_repair_attempts"
  shows "fst (run_edges cfg (\<lambda>_. False) edges mut call i b) \<longleftrightarrow> some_edge_fires (boundary_call mut call i) i edges (bd_world b)"
proof -
  obtain b' carried' cs' still' where scan: "scan_edges cfg (\<lambda>_. False) (boundary_call mut call i) i edges (b, carry (ac_deferred call), [], []) =
      Inr (b', carried', cs', still')" "list_all (\<lambda>c. prompt_of c \<noteq> '''') cs'"
      "cs' \<noteq> [] \<longleftrightarrow> some_edge_fires (boundary_call mut call i) i edges (bd_world b)"
    using scan_contenders [of edges "[]" cfg "boundary_call mut call i" i b "carry (ac_deferred call)" "[]"] by auto
  have "ac_repair_attempts (boundary_call mut call i) < max_repair_attempts" using assms(3) by simp
  from decide_prompting [OF scan(2) this] scan(3) show ?thesis
    by (simp add: run_edges_live [OF assms(1,2)] scan(1) case_prod_beta)
qed

end
lemma scan_contenders_of:
  assumes "scan_edges cfg err call i es (b, carried, cs, still) = Inr (b', carried', cs', still')"
  shows "fst ` set cs' \<subseteq> fst ` set cs \<union> set es"
  using assms
proof (induction es arbitrary: b carried cs still)
  case (Cons e es)
  have "fst ` set cs' \<subseteq> fst ` set cs \<union> insert e (set es)"
    using Cons.prems
    by (auto simp: Let_def split: if_splits option.splits prod.splits dest!: Cons.IH) (drule (1) subsetD [OF _ imageI], simp)+
  then show ?case by simp
qed simp

lemma decide_retry:
  assumes "decide_boundary cfg err call i cs still b = (True, b')"
  shows "\<exists>ws ls. split_winners cs = (ws, ls) \<and> hd (bd_queue b') = retry_call call ws ls still \<and> \<not> list_all (\<lambda>c. prompt_of c = '''') ws"
proof -
  have q: "bd_queue (foldl (settle_winner cfg call i) c ws) = bd_queue c" for c ws by (rule settle_winners_queue)
  show ?thesis using assms
    by (auto simp: decide_boundary_def collect_dead_deferred_def Let_def q split: if_splits prod.splits)
qed

text \<open>The prompt of a retry starts with the prompt of an edge.\<close>

lemma retry_prompt_head:
  assumes "run_edges cfg err es mut call i b = (True, call', b')"
  shows "\<exists>e t rest. e \<in> set es \<and> ed_prompt e t \<noteq> '''' \<and> ac_prompt (hd (bd_queue b')) = ed_prompt e t @ rest"
proof -
  have live: "ec_config cfg" "result_steps i \<noteq> []" using assms by (auto simp: run_edges_def split: if_splits)
  from assms obtain b1 carried cs still c where scan: "scan_edges cfg err (boundary_call mut call i) i es (b, carry (ac_deferred call), [], []) = Inr (b1, carried, cs, still)"
    and dec: "decide_boundary cfg err (boundary_call mut call i) i cs still c = (True, b')"
    by (auto simp: run_edges_live [OF live] split: if_splits sum.splits prod.splits)
  from decide_retry [OF dec] obtain ws ls where ws: "split_winners cs = (ws, ls)" "hd (bd_queue b') = retry_call (boundary_call mut call i) ws ls still"
    "\<not> list_all (\<lambda>c. prompt_of c = '''') ws" by blast
  define ps where "ps = filter (\<lambda>p. p \<noteq> '''') (map prompt_of ws)"
  have prompt: "ac_prompt (hd (bd_queue b')) = join_with [CHR 0x0A] ps" by (simp add: ws(2) retry_call_def ps_def)
  have "ps \<noteq> []" using ws(3) by (auto simp: ps_def filter_empty_conv list_all_iff)
  then obtain p ps' where ps: "ps = p # ps'" by (cases ps) auto
  then have "p \<in> set ps" by simp
  then obtain w where w: "w \<in> set ws" "p = prompt_of w" "p \<noteq> ''''" by (auto simp: ps_def)
  have "set ws \<subseteq> set cs" using split_winners_parts(2) [OF ws(1)] by (auto dest: list_emb_set)
  then have "fst w \<in> set es" using scan_contenders_of [OF scan] w(1) by auto
  moreover have "\<exists>rest. join_with [CHR 0x0A] ps = p @ rest" unfolding ps by (cases ps') auto
  ultimately show ?thesis using w(2,3) prompt by (auto simp: prompt_of_def)
qed

subsection \<open>The shipped edges\<close>

lemmas prompt_defs =
  verification_retry_section_def todos_retry_section_def stall_prompt_section_def stall_replan_section_def stall_retry_section_def
  verify_loop_prompt_section_def verify_loop_replan_section_def verify_loop_escalate_section_def burn_watch_retry_section_def
  reconcile_retry_section_def

lemmas prefix_defs =
  verification_retry_prefix_def todos_retry_prefix_def stall_replan_prefix_def stall_retry_prefix_def verify_loop_replan_prefix_def
  verify_loop_escalate_prefix_def burn_watch_prefix_def reconcile_retry_prefix_def

lemma verification_fires:
  assumes "scan_verification_edge a w call i = Some t" "resolve_verification_edge a w call t = (w', t')" "tg_fire t'"
  shows "ee_failed (tg_evidence t') \<noteq> []"
  using assms
  by (auto simp: scan_verification_edge_def resolve_verification_edge_def Let_def split: if_splits prod.splits)

lemma todos_fires: "scan_todos_edge a w call i = Some t \<Longrightarrow> ee_plan (tg_evidence t) \<noteq> []"
  by (auto simp: scan_todos_edge_def Let_def split: if_splits)

lemma reconcile_fires: "scan_reconcile_edge a w call i = Some t \<Longrightarrow> tg_fire t \<Longrightarrow> ee_open_failures (tg_evidence t) \<noteq> []"
  by (auto simp: scan_reconcile_edge_def no_trigger_def Let_def split: if_splits option.splits)

lemma edge_in_set:
  assumes "e \<in> set (run_edge_set a)"
  obtains "ed_scan e = scan_verification_edge a" "ed_resolve e = Some (resolve_verification_edge a)" "ed_prompt e = verification_retry_section a"
    | "ed_scan e = scan_todos_edge a" "ed_resolve e = None" "ed_prompt e = todos_retry_section"
    | "ed_prompt e = stall_prompt_section"
    | "ed_prompt e = verify_loop_prompt_section"
    | "ed_prompt e = burn_watch_retry_section"
    | "ed_scan e = scan_reconcile_edge a" "ed_resolve e = None" "ed_prompt e = reconcile_retry_section a"
  using assms unfolding run_edge_set_def by (auto simp del: edge_trigger.defs)

interpretation shipped: prompting_edges "run_edge_set a" for a
proof
  fix e w call i t w' t'
  assume "e \<in> set (run_edge_set a)" and t: "ed_scan e w call i = Some t" and r: "resolve_edge e w call t = (w', t')" and f: "tg_fire t'"
  then show "ed_prompt e t' \<noteq> ''''"
  proof (cases rule: edge_in_set)
    case 1
    then have "ee_failed (tg_evidence t') \<noteq> []" using verification_fires t r f by (simp add: resolve_edge_def)
    then show ?thesis using 1 by (simp add: verification_retry_section_def prefix_defs Let_def)
  next
    case 2
    then have "ee_plan (tg_evidence t') \<noteq> []" using todos_fires t r by (simp add: resolve_edge_def)
    then show ?thesis using 2 by (simp add: todos_retry_section_def prefix_defs Let_def)
  next
    case 6
    then have "ee_open_failures (tg_evidence t') \<noteq> []" using reconcile_fires t r f by (simp add: resolve_edge_def)
    then show ?thesis using 6 by (simp add: reconcile_retry_section_def prefix_defs Let_def)
  qed (simp_all add: prompt_defs prefix_defs)
qed

text \<open>
  C30: no firing edge of the shipped set is dropped. With steps to look at, a budget left and no
  cancellation, a retry is queued exactly if some edge still fires after its resolve: what an edge
  says is never empty then, so the slot never goes to nobody.
\<close>

theorem firing_edge_gets_retry:
  assumes "ec_config cfg" "result_steps i \<noteq> []" "ac_repair_attempts call < max_repair_attempts"
  shows "fst (run_edges cfg (\<lambda>_. False) (run_edge_set a) (mutating a) call i b) \<longleftrightarrow>
    some_edge_fires (boundary_call (mutating a) call i) i (run_edge_set a) (bd_world b)"
  by (rule shipped.retry_iff_fires [OF assms])
text \<open>What a shipped edge says starts with one of the prefixes, or with the one of the reconcile edge.\<close>

lemma edge_prompt_prefix:
  assumes "e \<in> set (run_edge_set a)" "ed_prompt e t \<noteq> ''''"
  shows "\<exists>p\<in>set (reconcile_retry_prefix # repair_prompt_prefixes). prefix p (ed_prompt e t)"
  using assms(1)
proof (cases rule: edge_in_set)
  case 1
  then show ?thesis using assms(2) by (auto simp: verification_retry_section_def repair_prompt_prefixes_def Let_def split: if_splits)
next
  case 2
  then show ?thesis using assms(2) by (auto simp: todos_retry_section_def repair_prompt_prefixes_def Let_def split: if_splits)
next
  case 3
  then show ?thesis
    by (auto simp: stall_prompt_section_def stall_replan_section_def stall_retry_section_def repair_prompt_prefixes_def)
next
  case 4
  then show ?thesis
    by (auto simp: verify_loop_prompt_section_def verify_loop_replan_section_def verify_loop_escalate_section_def repair_prompt_prefixes_def)
next
  case 5
  then show ?thesis by (auto simp: burn_watch_retry_section_def repair_prompt_prefixes_def)
next
  case 6
  then show ?thesis using assms(2) by (auto simp: reconcile_retry_section_def Let_def split: if_splits)
qed

lemma prefixes_apart: "list_all (\<lambda>p. \<not> prefix p reconcile_retry_prefix \<and> \<not> prefix reconcile_retry_prefix p) repair_prompt_prefixes"
  by (simp add: repair_prompt_prefixes_def prefix_defs)

lemma repair_prompt_of_prefix:
  assumes "prefix p s" "p \<in> set (reconcile_retry_prefix # repair_prompt_prefixes)"
  shows "is_repair_prompt s \<longleftrightarrow> \<not> has_prefix s reconcile_retry_prefix"
proof (cases "has_prefix s reconcile_retry_prefix")
  case True
  have "\<not> prefix q s" if "q \<in> set repair_prompt_prefixes" for q
    using prefixes_apart that True prefix_same_cases [of q s reconcile_retry_prefix] by (auto simp: list_all_iff has_prefix_iff)
  then show ?thesis using True by (auto simp: is_repair_prompt_def list_ex_iff has_prefix_iff)
next
  case False
  then show ?thesis using assms by (auto simp: is_repair_prompt_def list_ex_iff has_prefix_iff)
qed

text \<open>
  Of the retries the shipped edges queue, the fingerprints of harness prompts know all but one
  kind. A retry's prompt is recognised exactly if it does not start with the section of the
  reconcile edge, that is, if the reconcile edge was not the only one to speak.
\<close>

theorem retry_prompt_recognised:
  assumes "run_edges cfg err (run_edge_set a) (mutating a) call i b = (True, call', b')"
  shows "is_repair_prompt (ac_prompt (hd (bd_queue b'))) \<longleftrightarrow> \<not> has_prefix (ac_prompt (hd (bd_queue b'))) reconcile_retry_prefix"
proof -
  obtain e t rest where e: "e \<in> set (run_edge_set a)" "ed_prompt e t \<noteq> ''''" and p: "ac_prompt (hd (bd_queue b')) = ed_prompt e t @ rest"
    using retry_prompt_head [OF assms] by blast
  from edge_prompt_prefix [OF e] obtain q where "q \<in> set (reconcile_retry_prefix # repair_prompt_prefixes)" "prefix q (ed_prompt e t)"
    by blast
  then show ?thesis using repair_prompt_of_prefix p by (metis prefixI prefix_order.trans)
qed

subsection \<open>Reminders\<close>

text \<open>
  A failure is brought up once. When the reconcile edge fired and its marks were stored, the next
  scan over the same open failures asks for exactly those the prompt had no room for; with at most
  ten of them it asks for nothing more. Nothing is marked that the prompt did not name.
\<close>

theorem reconcile_reminds_once:
  assumes "scan_reconcile_edge a w call i = Some t" "tg_fire t" "se_failures (aw_env w) = Some fs"
    and "distinct (map (reconcile_seen_key (ac_session call)) fs)"
  defines "w' \<equiv> w\<lparr>aw_seen := aw_seen w @ tg_commit t\<rparr>"
  shows "ee_open_failures (tg_evidence t) = unseen_failures w (ac_session call) fs \<and>
    unseen_failures w' (ac_session call) fs = drop max_reconcile_listed (unseen_failures w (ac_session call) fs) \<and>
    (case scan_reconcile_edge a w' call i of
       None \<Rightarrow> False
     | Some t' \<Rightarrow> ee_open_failures (tg_evidence t') = drop max_reconcile_listed (ee_open_failures (tg_evidence t)) \<and>
         tg_fire t' = (max_reconcile_listed < length (ee_open_failures (tg_evidence t))))"
proof -
  let ?key = "reconcile_seen_key (ac_session call)"
  let ?un = "unseen_failures w (ac_session call) fs"
  have t: "ee_open_failures (tg_evidence t) = ?un" "tg_commit t = map ?key (take max_reconcile_listed ?un)"
    and live: "clean_stop i" "\<not> sa_sub_agent a" "\<not> sa_holdout_off a (ac_session call)" "fs \<noteq> []"
      "sa_failure_memory a" "\<not> sa_failure_memory_edges_off a"
    using assms(1-3) by (auto simp: scan_reconcile_edge_def no_trigger_def Let_def split: if_splits)
  have "distinct (map ?key ?un)" using assms(4) by (simp add: unseen_failures_def distinct_map_filter)
  then have disj: "?key ` set (take n ?un) \<inter> ?key ` set (drop n ?un) = {}" for n
    by (metis append_take_drop_id distinct_append map_append set_map)
  have split: "filter (\<lambda>f. ?key f \<notin> ?key ` set (take n ?un)) ?un = drop n ?un" for n
  proof -
    let ?P = "\<lambda>f. ?key f \<notin> ?key ` set (take n ?un)"
    have "filter ?P (take n ?un) = []" by (auto simp: filter_empty_conv)
    moreover have "filter ?P (drop n ?un) = drop n ?un" using disj [of n] by (auto simp: filter_id_conv)
    moreover have "filter ?P ?un = filter ?P (take n ?un) @ filter ?P (drop n ?un)"
      unfolding filter_append [symmetric] append_take_drop_id ..
    ultimately show ?thesis by simp
  qed
  have un: "unseen_failures w' (ac_session call) fs = drop max_reconcile_listed ?un"
    using split [of max_reconcile_listed] by (simp add: w'_def unseen_failures_def t(2) image_Un conj_commute filter_filter)
  have "se_failures (aw_env w') = Some fs" by (simp add: w'_def assms(3))
  then show ?thesis using un t(1) live by (simp add: scan_reconcile_edge_def no_trigger_def Let_def)
qed
subsection \<open>Examples\<close>

text \<open>A run that stopped cleanly while a command it ran still fails.\<close>

definition demo_agent :: session_agent where
  "demo_agent =
     \<lparr>sa_ambiguity = True, sa_interactive = False, sa_question_tool = False, sa_todos_tool = True, sa_sub_agent = False,
      sa_failure_memory = True, sa_failure_memory_edges_off = False, sa_holdout_off = (\<lambda>_. False), sa_hash = (\<lambda>s. CHR ''#'' # s),
      sa_command = Some, sa_gjson_command = (\<lambda>s. s), sa_path_params = (\<lambda>s. None), sa_call_file_path = (\<lambda>s. ''''),
      sa_meta = (\<lambda>s. \<lparr>tm_shell_id = '''', tm_done = False, tm_command = '''', tm_exit_code = None, tm_verification = None\<rparr>),
      sa_checks = (\<lambda>s. []), sa_merge = (\<lambda>s cs. s), sa_norm = (\<lambda>s. s), sa_rel = (\<lambda>s. s), sa_rel_dir = (\<lambda>s. None),
      sa_quote = (\<lambda>s. s), sa_truncate = (\<lambda>s. s), sa_duration = int_str,
      sa_run = (\<lambda>c. \<lparr>sr_output = '''', sr_exit_code = 0, sr_error = None, sr_deadline = False, sr_cancelled = False\<rparr>),
      sa_gate_cancelled = False, sa_screen = (\<lambda>s. s), sa_subtree = None\<rparr>"

definition demo_failure :: open_failure where
  "demo_failure = \<lparr>of_signature = ''sig'', of_cmd = ''go test'', of_cwd = ''.'', of_headline = ''FAIL'', of_first_seen = 7\<rparr>"

definition demo_world :: world where
  "demo_world = \<lparr>aw_assistant = None, aw_seen = [], aw_env = \<lparr>se_todos = Some [], se_messages = Some [], se_servers = None,
     se_failures = Some [demo_failure], se_entries = None, se_recorded = []\<rparr>\<rparr>"

definition demo_agent_call :: call where
  "demo_agent_call = \<lparr>ac_session = ''s'', ac_prompt = ''go'', ac_non_interactive = False, ac_accepted = False, ac_accept_seq = 0,
     ac_repair_attempts = 0, ac_run_stamp = 1, ac_deferred = [], ac_burn_watched = False\<rparr>"

definition demo_start :: "(session_env, edge_evidence) boundary" where
  "demo_start = \<lparr>bd_world = demo_world, bd_rows = [], bd_stats = [], bd_queue = []\<rparr>"

definition demo_shipped :: "bool \<times> call \<times> (session_env, edge_evidence) boundary" where
  "demo_shipped = run_edges demo_config (\<lambda>_. False) (run_edge_set demo_agent) (mutating demo_agent) demo_agent_call demo_input demo_start"

lemma demo_shipped_facts:
  "fst demo_shipped" "has_prefix (ac_prompt (hd (bd_queue (snd (snd demo_shipped))))) reconcile_retry_prefix"
  "ac_repair_attempts demo_agent_call < max_repair_attempts"
  "distinct (map (reconcile_seen_key (ac_session demo_agent_call)) [demo_failure])"
  by code_simp+

lemma demo_scan: "\<exists>t. scan_reconcile_edge demo_agent demo_world demo_agent_call demo_input = Some t \<and> tg_fire t"
proof -
  have "(case scan_reconcile_edge demo_agent demo_world demo_agent_call demo_input of None \<Rightarrow> False | Some t \<Rightarrow> tg_fire t)"
    by code_simp
  then show ?thesis by (auto split: option.splits)
qed

theorem firing_edge_gets_retry_witness:
  "some_edge_fires (boundary_call (mutating demo_agent) demo_agent_call demo_input) demo_input (run_edge_set demo_agent) (bd_world demo_start)"
  using firing_edge_gets_retry [OF demo_facts(2,3) demo_shipped_facts(3), of demo_agent demo_start] demo_shipped_facts(1)
  unfolding demo_shipped_def by blast

text \<open>The retry of a reconcile edge alone is not taken for a harness prompt.\<close>

theorem retry_prompt_recognised_witness:
  "\<not> is_repair_prompt (ac_prompt (hd (bd_queue (snd (snd demo_shipped)))))"
proof -
  have "run_edges demo_config (\<lambda>_. False) (run_edge_set demo_agent) (mutating demo_agent) demo_agent_call demo_input demo_start =
      (True, fst (snd demo_shipped), snd (snd demo_shipped))"
    using demo_shipped_facts(1) unfolding demo_shipped_def by (metis prod.collapse)
  from retry_prompt_recognised [OF this] demo_shipped_facts(2) show ?thesis by simp
qed

theorem reconcile_reminds_once_witness:
  "\<exists>t. unseen_failures (demo_world\<lparr>aw_seen := tg_commit t\<rparr>) ''s'' [demo_failure] = [] \<and>
     scan_reconcile_edge demo_agent demo_world demo_agent_call demo_input = Some t"
proof -
  obtain t where t: "scan_reconcile_edge demo_agent demo_world demo_agent_call demo_input = Some t" "tg_fire t"
    using demo_scan by blast
  have "se_failures (aw_env demo_world) = Some [demo_failure]" "aw_seen demo_world = []" "ac_session demo_agent_call = ''s''"
    by (simp_all add: demo_world_def demo_agent_call_def)
  moreover from this have "drop max_reconcile_listed (unseen_failures demo_world ''s'' [demo_failure]) = []"
    by (simp add: unseen_failures_def max_reconcile_listed_def)
  ultimately show ?thesis using reconcile_reminds_once [OF t _ demo_shipped_facts(4)] t(1) by auto
qed

end
