(* ===== verification/Dispatch.thy ===== *)
theory Dispatch
  imports Prelude "HOL-Library.Multiset"
begin

text \<open>
  How a session agent accepts, queues, runs and cancels prompts: the dispatch half of
  internal/agent/agent.go, and \<open>SendMessage\<close> and \<open>runAgent\<close> of internal/backend/agent.go.

  One agent serves many sessions. Per session it keeps the active run, the queue, the number of
  accepted prompts that have not reached their dispatch decision, and a cancel mark. The functions
  of the first part are the operations on this state. The second part is the system: goroutines in
  the phases of \<open>Run\<close>, \<open>runTurn\<close> and \<open>summarize\<close>, each step one critical section of the session's
  dispatch mutex or one access that the code makes without it. A step may also publish: the
  published events are only appended, so it does not matter which step they belong to.

  An \<open>AcceptedRun\<close> is shared by pointer, so handles live in a store and a pointer is an index into
  it; an \<open>activeCancel\<close> pointer is a fresh number. What the model of a turn does, what it streams
  and how it ends is the environment's choice.
\<close>

subsection \<open>Calls, handles, events\<close>

record accepted_run =
  ar_session :: string
  ar_seq :: u64
  ar_done :: bool

text \<open>\<open>sc_text_attachment\<close> is \<open>ContainsTextAttachment\<close>, \<open>sc_on_complete\<close> that the hook is set.\<close>

record session_call =
  sc_session :: string
  sc_run_id :: string
  sc_prompt :: string
  sc_text_attachment :: bool
  sc_on_complete :: bool
  sc_accepted :: "nat option"
  sc_accept_seq :: u64
  sc_repair_attempts :: nat
  sc_run_stamp :: u64
  sc_soft_retried :: bool

text \<open>\<open>cp_hooked\<close>: handed to the call's \<open>OnComplete\<close> instead of the broker.\<close>

record completion =
  cp_session :: string
  cp_run_id :: string
  cp_error :: bool
  cp_cancelled :: bool
  cp_hooked :: bool

record agent_state =
  ag_active :: "(string, nat) gomap"
  ag_queue :: "(string, session_call list) gomap"
  ag_accepted :: "(string, nat) gomap"
  ag_marks :: "(string, u64) gomap"
  ag_seq_gen :: u64
  ag_handles :: "accepted_run list"
  ag_cancelled :: "nat list"
  ag_next_ctx :: nat
  ag_stamp_gen :: u64
  ag_notes :: "(string, string list) gomap"
  ag_completes :: "completion list"

datatype call_error = ErrEmptyPrompt | ErrSessionMissing

definition validate_call :: "session_call \<Rightarrow> call_error option" where
  "validate_call c =
     (if sc_prompt c = [] \<and> \<not> sc_text_attachment c then Some ErrEmptyPrompt
      else if sc_session c = [] then Some ErrSessionMissing
      else None)"

subsection \<open>Accept reservations\<close>

definition accepted_count :: "agent_state \<Rightarrow> string \<Rightarrow> nat" where
  "accepted_count a sess = (case map_of (ag_accepted a) sess of None \<Rightarrow> 0 | Some n \<Rightarrow> n)"

definition begin_accepted :: "string \<Rightarrow> agent_state \<Rightarrow> nat \<times> agent_state" where
  "begin_accepted sess a =
     (let g = ag_seq_gen a + 1 in
      (length (ag_handles a),
       a\<lparr>ag_accepted := AList.update sess (accepted_count a sess + 1) (ag_accepted a),
         ag_seq_gen := g,
         ag_handles := ag_handles a @ [\<lparr>ar_session = sess, ar_seq = g, ar_done = False\<rparr>]\<rparr>))"

definition end_accepted :: "string \<Rightarrow> agent_state \<Rightarrow> agent_state" where
  "end_accepted sess a =
     (case map_of (ag_accepted a) sess of
        None \<Rightarrow> a\<lparr>ag_accepted := AList.delete sess (ag_accepted a),
                  ag_marks := AList.delete sess (ag_marks a)\<rparr>
      | Some n \<Rightarrow>
          if n \<le> 1 then a\<lparr>ag_accepted := AList.delete sess (ag_accepted a),
                         ag_marks := AList.delete sess (ag_marks a)\<rparr>
          else a\<lparr>ag_accepted := AList.update sess (n - 1) (ag_accepted a)\<rparr>)"

text \<open>\<open>Close\<close> on a nil handle does nothing; only the first call on a handle has an effect.\<close>

definition close_accepted :: "nat option \<Rightarrow> agent_state \<Rightarrow> agent_state" where
  "close_accepted ho a =
     (case ho of
        None \<Rightarrow> a
      | Some h \<Rightarrow>
          if ar_done (ag_handles a ! h) then a
          else end_accepted (ar_session (ag_handles a ! h))
                 (a\<lparr>ag_handles := (ag_handles a)[h := (ag_handles a ! h)\<lparr>ar_done := True\<rparr>]\<rparr>))"

definition handle_seq :: "agent_state \<Rightarrow> nat \<Rightarrow> u64" where
  "handle_seq a h = ar_seq (ag_handles a ! h)"

definition canceled_by_seq :: "agent_state \<Rightarrow> string \<Rightarrow> u64 \<Rightarrow> bool" where
  "canceled_by_seq a sess seq =
     (case map_of (ag_marks a) sess of
        None \<Rightarrow> False
      | Some mark \<Rightarrow> if mark = 0 then False else seq = 0 \<or> seq \<le> mark)"

definition clear_pending_cancel :: "string \<Rightarrow> agent_state \<Rightarrow> agent_state" where
  "clear_pending_cancel sess a = a\<lparr>ag_marks := AList.delete sess (ag_marks a)\<rparr>"

subsection \<open>The queue\<close>

definition queued_calls :: "agent_state \<Rightarrow> string \<Rightarrow> session_call list" where
  "queued_calls a sess = (case map_of (ag_queue a) sess of None \<Rightarrow> [] | Some qs \<Rightarrow> qs)"

definition set_queue :: "string \<Rightarrow> session_call list \<Rightarrow> agent_state \<Rightarrow> agent_state" where
  "set_queue sess qs a = a\<lparr>ag_queue := AList.update sess qs (ag_queue a)\<rparr>"

definition del_queue :: "string \<Rightarrow> agent_state \<Rightarrow> agent_state" where
  "del_queue sess a = a\<lparr>ag_queue := AList.delete sess (ag_queue a)\<rparr>"

definition enqueue_call :: "session_call \<Rightarrow> agent_state \<Rightarrow> agent_state" where
  "enqueue_call c a =
     (let queued = c\<lparr>sc_accept_seq := (case sc_accepted c of None \<Rightarrow> sc_accept_seq c
                                                          | Some h \<Rightarrow> handle_seq a h),
                     sc_on_complete := False, sc_accepted := None\<rparr>
      in set_queue (sc_session c) (queued_calls a (sc_session c) @ [queued]) a)"

definition publish_run_complete :: "session_call \<Rightarrow> completion \<Rightarrow> agent_state \<Rightarrow> agent_state" where
  "publish_run_complete c e a = a\<lparr>ag_completes := ag_completes a @ [e\<lparr>cp_hooked := sc_on_complete c\<rparr>]\<rparr>"

definition completion_of :: "session_call \<Rightarrow> bool \<Rightarrow> bool \<Rightarrow> completion" where
  "completion_of c failed cancelled =
     \<lparr>cp_session = sc_session c, cp_run_id = sc_run_id c, cp_error = failed, cp_cancelled = cancelled,
      cp_hooked = False\<rparr>"

fun publish_canceled_queue_drops :: "session_call list \<Rightarrow> agent_state \<Rightarrow> agent_state" where
  "publish_canceled_queue_drops [] a = a"
| "publish_canceled_queue_drops (d # ds) a =
     publish_canceled_queue_drops ds
       (if sc_run_id d = [] then a else publish_run_complete d (completion_of d False True) a)"

definition clear_queue_and_notify :: "string \<Rightarrow> agent_state \<Rightarrow> agent_state" where
  "clear_queue_and_notify sess a =
     (case map_of (ag_queue a) sess of
        None \<Rightarrow> del_queue sess a
      | Some qs \<Rightarrow> publish_canceled_queue_drops qs (del_queue sess a))"

text \<open>The loop of \<open>drainQueueForStep\<close>: calls to fold, calls to keep, calls to report.\<close>

fun drain_loop :: "agent_state \<Rightarrow> string \<Rightarrow> session_call list \<Rightarrow>
    session_call list \<times> session_call list \<times> session_call list" where
  "drain_loop a sess [] = ([], [], [])"
| "drain_loop a sess (q # qs) =
     (let (f, keep, drops) = drain_loop a sess qs in
      if canceled_by_seq a sess (sc_accept_seq q)
      then (f, keep, if sc_run_id q = [] then drops else q # drops)
      else if sc_run_id q = [] then (q # f, keep, drops)
      else (f, q # keep, drops))"

definition drain_queue_for_step :: "string \<Rightarrow> agent_state \<Rightarrow>
    session_call list \<times> session_call list \<times> agent_state" where
  "drain_queue_for_step sess a =
     (let (f, keep, drops) = drain_loop a sess (queued_calls a sess)
      in (f, drops, if keep = [] then del_queue sess a else set_queue sess keep a))"

text \<open>
  The end of a turn and the end of a compaction: drop what the mark covers, then idle or take the
  first prompt.
\<close>

fun split_covered :: "u64 \<Rightarrow> session_call list \<Rightarrow> session_call list \<times> session_call list" where
  "split_covered mark [] = ([], [])"
| "split_covered mark (q # qs) =
     (let (kept, drops) = split_covered mark qs in
      if sc_accept_seq q = 0 \<or> sc_accept_seq q \<le> mark
      then (kept, if sc_run_id q = [] then drops else q # drops)
      else (q # kept, drops))"

definition drop_covered :: "string \<Rightarrow> agent_state \<Rightarrow> session_call list \<times> agent_state" where
  "drop_covered sess a =
     (let queued = queued_calls a sess in
      case map_of (ag_marks a) sess of
        None \<Rightarrow> (queued, a)
      | Some mark \<Rightarrow>
          if mark > 0 \<and> queued \<noteq> []
          then (let (kept, drops) = split_covered mark queued
                in (kept, publish_canceled_queue_drops drops (set_queue sess kept a)))
          else (queued, a))"

definition settle_idle :: "string \<Rightarrow> agent_state \<Rightarrow> agent_state" where
  "settle_idle sess a =
     (let b = del_queue sess a in
      if accepted_count b sess = 0 then b\<lparr>ag_marks := AList.delete sess (ag_marks b)\<rparr> else b)"

text \<open>The head of a non-empty queue, with a fresh reservation.\<close>

definition take_first :: "string \<Rightarrow> session_call \<Rightarrow> session_call list \<Rightarrow> agent_state \<Rightarrow>
    session_call \<times> agent_state" where
  "take_first sess q rest a =
     (let (h, b) = begin_accepted sess (set_queue sess rest a) in (q\<lparr>sc_accepted := Some h\<rparr>, b))"

text \<open>The second component of the answer says that the finished turn owes its own event.\<close>

definition turn_tail :: "session_call \<Rightarrow> agent_state \<Rightarrow> (session_call \<times> bool) option \<times> agent_state" where
  "turn_tail c a =
     (case drop_covered (sc_session c) a of
        ([], b) \<Rightarrow> (None, settle_idle (sc_session c) b)
      | (q # rest, b) \<Rightarrow>
          (let owes = sc_run_id c \<noteq> [] \<and> \<not> list_ex (\<lambda>q. sc_run_id q = sc_run_id c) (q # rest);
               (nxt, d) = take_first (sc_session c) q rest b
           in (Some (nxt, owes), d)))"

definition compact_tail :: "string \<Rightarrow> agent_state \<Rightarrow> session_call option \<times> agent_state" where
  "compact_tail sess a =
     (case drop_covered sess a of
        ([], b) \<Rightarrow> (None, settle_idle sess b)
      | (q # rest, b) \<Rightarrow> (case take_first sess q rest b of (nxt, d) \<Rightarrow> (Some nxt, d)))"

subsection \<open>Cancelling\<close>

definition is_session_busy :: "agent_state \<Rightarrow> string \<Rightarrow> bool" where
  "is_session_busy a sess \<longleftrightarrow> map_of (ag_active a) sess \<noteq> None"

definition queued_prompts :: "agent_state \<Rightarrow> string \<Rightarrow> nat" where
  "queued_prompts a sess = (case map_of (ag_queue a) sess of None \<Rightarrow> 0 | Some l \<Rightarrow> length l)"

definition queued_prompts_list :: "agent_state \<Rightarrow> string \<Rightarrow> string list" where
  "queued_prompts_list a sess =
     (case map_of (ag_queue a) sess of None \<Rightarrow> [] | Some l \<Rightarrow> map sc_prompt l)"

definition is_busy :: "agent_state \<Rightarrow> bool" where
  "is_busy a \<longleftrightarrow> ag_active a \<noteq> [] \<or> list_ex (\<lambda>(s, calls). calls \<noteq> []) (ag_queue a) \<or>
     list_ex (\<lambda>(s, n). n > 0) (ag_accepted a)"

text \<open>
  \<open>Cancel\<close> holds the dispatch mutex throughout, but the accept counter has a lock of its own, which
  it takes only to read: reservations can be taken and released between \<open>cancel_read\<close> and
  \<open>cancel_write\<close>.
\<close>

definition cancel_read :: "string \<Rightarrow> agent_state \<Rightarrow> (nat \<times> u64) \<times> agent_state" where
  "cancel_read sess a =
     ((accepted_count a sess, ag_seq_gen a),
      (case map_of (ag_active a) sess of
         None \<Rightarrow> a
       | Some ctx \<Rightarrow> a\<lparr>ag_cancelled := ctx # ag_cancelled a\<rparr>))"

definition cancel_write :: "string \<Rightarrow> nat \<times> u64 \<Rightarrow> agent_state \<Rightarrow> agent_state" where
  "cancel_write sess cm a =
     (let (count, mark) = cm;
          existing = (case map_of (ag_marks a) sess of None \<Rightarrow> 0 | Some m \<Rightarrow> m);
          b = (if count > 0 then a\<lparr>ag_marks := AList.update sess (max existing mark) (ag_marks a)\<rparr> else a)
      in if queued_prompts b sess > 0 then clear_queue_and_notify sess b else b)"

definition cancel :: "string \<Rightarrow> agent_state \<Rightarrow> agent_state" where
  "cancel sess a = (case cancel_read sess a of (cm, b) \<Rightarrow> cancel_write sess cm b)"

definition clear_queue :: "string \<Rightarrow> agent_state \<Rightarrow> agent_state" where
  "clear_queue sess a = (if queued_prompts a sess > 0 then clear_queue_and_notify sess a else a)"

text \<open>\<open>CancelAll\<close> up to its wait; \<open>ord\<close> is the order in which Go ranges over a map.\<close>

definition cancel_all :: "(string list \<Rightarrow> string list) \<Rightarrow> agent_state \<Rightarrow> agent_state" where
  "cancel_all ord a =
     (if \<not> is_busy a then a
      else (let b = fold cancel (ord (map fst (ag_active a))) a;
                c = fold cancel (ord (map fst (ag_accepted b))) b
            in fold clear_queue_and_notify (ord (map fst (ag_queue c))) c))"

definition add_note :: "string \<Rightarrow> string \<Rightarrow> agent_state \<Rightarrow> agent_state" where
  "add_note sess note_text a =
     (if note_text = [] then a
      else a\<lparr>ag_notes := AList.update sess
               ((case map_of (ag_notes a) sess of None \<Rightarrow> [] | Some ns \<Rightarrow> ns) @ [note_text]) (ag_notes a)\<rparr>)"

definition take_notes :: "string \<Rightarrow> agent_state \<Rightarrow> string list \<times> agent_state" where
  "take_notes sess a =
     ((case map_of (ag_notes a) sess of None \<Rightarrow> [] | Some ns \<Rightarrow> ns),
      a\<lparr>ag_notes := AList.delete sess (ag_notes a)\<rparr>)"

subsection \<open>Goroutines\<close>

text \<open>
  The dispatch decision of \<open>runTurn\<close>, taken under the mutex. A turn that runs is given a context.
\<close>

datatype turn_end = Completed | Failed bool

datatype compact_answer = CompactOk | CompactBlocked | CompactFailed

datatype run_phase =
    Waiting session_call
  | Ready session_call
  | EntryCancelled session_call
  | Streaming session_call nat
  | Finishing session_call nat bool
  | Requeueing session_call nat "session_call list"
  | Released session_call nat
  | HandingOff session_call nat session_call bool
  | Ending session_call nat turn_end
  | ClearingUp session_call
  | Overflowing "(session_call \<times> nat) option" string
  | Compacting "(session_call \<times> nat) option" string nat
  | CompactLeaving "(session_call \<times> nat) option" string nat compact_answer
  | CompactDone "(session_call \<times> nat) option" string nat "session_call option"
  | Joining "(session_call \<times> nat) option" nat
  | Clearing string "session_call list"
  | Returned bool

definition dispatch_call :: "session_call \<Rightarrow> agent_state \<Rightarrow> run_phase \<times> agent_state" where
  "dispatch_call c a =
     (if validate_call c \<noteq> None then (ClearingUp c, a)
      else if (case sc_accepted c of None \<Rightarrow> False
               | Some h \<Rightarrow> canceled_by_seq a (sc_session c) (handle_seq a h))
      then (EntryCancelled c, close_accepted (sc_accepted c) a)
      else if is_session_busy a (sc_session c)
      then (Returned False, close_accepted (sc_accepted c) (enqueue_call c a))
      else (let stamped = sc_run_stamp c = 0;
                stamp = (if stamped then ag_stamp_gen a + 1 else sc_run_stamp c);
                ctx = ag_next_ctx a;
                b = a\<lparr>ag_active := AList.update (sc_session c) ctx (ag_active a),
                      ag_next_ctx := ctx + 1,
                      ag_stamp_gen := (if stamped then stamp else ag_stamp_gen a)\<rparr>
            in (Streaming (c\<lparr>sc_run_stamp := stamp\<rparr>) ctx, close_accepted (sc_accepted c) b)))"

definition del_active :: "string \<Rightarrow> agent_state \<Rightarrow> agent_state" where
  "del_active sess a = a\<lparr>ag_active := AList.delete sess (ag_active a)\<rparr>"

text \<open>The deferred \<open>CompareAndDelete\<close>: only the run's own entry is removed.\<close>

definition release_own :: "string \<Rightarrow> nat \<Rightarrow> agent_state \<Rightarrow> agent_state" where
  "release_own sess ctx a = (if map_of (ag_active a) sess = Some ctx then del_active sess a else a)"

text \<open>The retry \<open>runEdges\<close> puts in front of the queue unless the run was cancelled.\<close>

definition queue_retry :: "session_call \<Rightarrow> nat \<Rightarrow> string \<Rightarrow> agent_state \<Rightarrow> agent_state" where
  "queue_retry c ctx retry_text a =
     (if ctx \<in> set (ag_cancelled a) then a
      else set_queue (sc_session c)
             (c\<lparr>sc_prompt := retry_text, sc_repair_attempts := sc_repair_attempts c + 1,
                sc_accepted := None, sc_accept_seq := 0\<rparr> # queued_calls a (sc_session c)) a)"

definition register_compaction :: "string \<Rightarrow> agent_state \<Rightarrow> (nat \<times> agent_state) option" where
  "register_compaction sess a =
     (if is_session_busy a sess then None
      else Some (ag_next_ctx a, a\<lparr>ag_active := AList.update sess (ag_next_ctx a) (ag_active a),
                                  ag_next_ctx := ag_next_ctx a + 1\<rparr>))"

definition continued_call :: "session_call \<Rightarrow> session_call" where
  "continued_call c = c\<lparr>sc_prompt := ''The previous session was interrupted because it got too long, the initial user request was: `''
     @ sc_prompt c @ ''`'', sc_soft_retried := True\<rparr>"

text \<open>What \<open>runTurn\<close> does with the answer of \<open>summarize\<close>; a manual compaction just returns it.\<close>

fun after_compact :: "(session_call \<times> nat) option \<Rightarrow> compact_answer \<Rightarrow> run_phase" where
  "after_compact None ans = Returned (ans \<noteq> CompactOk)"
| "after_compact (Some (c, ctx)) CompactOk = Finishing c ctx True"
| "after_compact (Some (c, ctx)) CompactBlocked = Finishing c ctx False"
| "after_compact (Some (c, ctx)) CompactFailed = Ending c ctx (Failed False)"

text \<open>
  \<open>ds_doomed\<close> is history the program does not keep: the handles that were waiting for their
  dispatch decision when a \<open>Cancel\<close> of their session began.
\<close>

record dispatch_sys =
  ds_agent :: agent_state
  ds_threads :: "run_phase list"
  ds_doomed :: "nat list"

text \<open>
  What may happen while \<open>Cancel\<close> is between its two halves without the dispatch mutex: a prompt is
  accepted, or an accepted one fails before it reaches \<open>Run\<close>.
\<close>

datatype free_op = FreeAccept bool session_call | FreeAbandon nat bool

datatype run_act =
    Enter
  | Persist bool
  | Drain
  | Retry string
  | Fail bool
  | Release
  | TakeTail
  | HandOff bool
  | Finish bool
  | CleanUp
  | Overflow
  | CompactStart
  | CompactStop compact_answer
  | CompactLeave
  | CompactDrain
  | CompactRelease
  | CompactJoin
  | RequeueRead
  | RequeueWrite
  | ClearQueueWrite

datatype sys_event =
    Free free_op
  | Submit session_call
  | Summarize string
  | CancelSession string "free_op list"
  | ClearQueueNow string
  | ClearQueueRead string
  | Act nat run_act

definition sys_init :: dispatch_sys where
  "sys_init = \<lparr>ds_agent = \<lparr>ag_active = [], ag_queue = [], ag_accepted = [], ag_marks = [], ag_seq_gen = 0,
     ag_handles = [], ag_cancelled = [], ag_next_ctx = 0, ag_stamp_gen = 0, ag_notes = [], ag_completes = []\<rparr>,
     ds_threads = [], ds_doomed = []\<rparr>"

definition with_agent :: "agent_state \<Rightarrow> dispatch_sys \<Rightarrow> dispatch_sys" where
  "with_agent a s = s\<lparr>ds_agent := a\<rparr>"

definition spawn :: "run_phase \<Rightarrow> agent_state \<Rightarrow> dispatch_sys \<Rightarrow> dispatch_sys" where
  "spawn p a s = s\<lparr>ds_agent := a, ds_threads := ds_threads s @ [p]\<rparr>"

definition goto :: "nat \<Rightarrow> run_phase \<Rightarrow> agent_state \<Rightarrow> dispatch_sys \<Rightarrow> dispatch_sys" where
  "goto i p a s = s\<lparr>ds_agent := a, ds_threads := (ds_threads s)[i := p]\<rparr>"

text \<open>\<open>SendMessage\<close>; \<open>closing\<close> is that the workspace is being torn down.\<close>

definition send_message :: "bool \<Rightarrow> session_call \<Rightarrow> dispatch_sys \<Rightarrow> dispatch_sys" where
  "send_message closing c s =
     (if validate_call c \<noteq> None then s
      else (case begin_accepted (sc_session c) (ds_agent s) of (h, a) \<Rightarrow>
              if closing then with_agent (close_accepted (Some h) a) s
              else spawn (Waiting (c\<lparr>sc_accepted := Some h, sc_accept_seq := 0\<rparr>)) a s))"

text \<open>
  \<open>runAgent\<close> when the coordinator fails before \<open>Run\<close>: it publishes the missing event, unless the
  error is \<open>context.Canceled\<close>, and releases the reservation.
\<close>

definition run_agent_failed :: "nat \<Rightarrow> bool \<Rightarrow> dispatch_sys \<Rightarrow> dispatch_sys" where
  "run_agent_failed i canceled s =
     (if i < length (ds_threads s) then
        (case ds_threads s ! i of
           Waiting c \<Rightarrow>
             goto i (Returned True) (close_accepted (sc_accepted c)
               (if canceled \<or> sc_run_id c = [] \<or> sc_accepted c = None then ds_agent s
                else publish_run_complete (c\<lparr>sc_on_complete := False\<rparr>) (completion_of c True False) (ds_agent s))) s
         | _ \<Rightarrow> s)
      else s)"

fun free_step :: "dispatch_sys \<Rightarrow> free_op \<Rightarrow> dispatch_sys" where
  "free_step s (FreeAccept closing c) = send_message closing c s"
| "free_step s (FreeAbandon i canceled) = run_agent_failed i canceled s"

text \<open>The reserved call a goroutine holds while it has not reached its dispatch decision.\<close>

fun pending :: "run_phase \<Rightarrow> (session_call \<times> nat) option" where
  "pending (Waiting c) = (case sc_accepted c of None \<Rightarrow> None | Some h \<Rightarrow> Some (c, h))"
| "pending (Ready c) = (case sc_accepted c of None \<Rightarrow> None | Some h \<Rightarrow> Some (c, h))"
| "pending (HandingOff c ctx nxt owes) = (case sc_accepted nxt of None \<Rightarrow> None | Some h \<Rightarrow> Some (nxt, h))"
| "pending (CompactDone owner sess ctx (Some c)) = (case sc_accepted c of None \<Rightarrow> None | Some h \<Rightarrow> Some (c, h))"
| "pending _ = None"

definition pending_handles :: "string \<Rightarrow> run_phase list \<Rightarrow> nat list" where
  "pending_handles sess ps =
     concat (map (\<lambda>p. case pending p of None \<Rightarrow> []
                      | Some (c, h) \<Rightarrow> if sc_session c = sess then [h] else []) ps)"

definition cancel_session :: "string \<Rightarrow> free_op list \<Rightarrow> dispatch_sys \<Rightarrow> dispatch_sys" where
  "cancel_session sess between s =
     (case cancel_read sess (ds_agent s) of (cm, a) \<Rightarrow>
        (let t = foldl free_step (s\<lparr>ds_agent := a,
                   ds_doomed := pending_handles sess (ds_threads s) @ ds_doomed s\<rparr>) between
         in with_agent (cancel_write sess cm (ds_agent t)) t))"

text \<open>One step of the goroutine \<open>i\<close>, in its phase; an act of another phase does nothing.\<close>

fun thread_step :: "nat \<Rightarrow> run_phase \<Rightarrow> run_act \<Rightarrow> dispatch_sys \<Rightarrow> dispatch_sys" where
  "thread_step i (Waiting c) act s =
     (case act of
        Enter \<Rightarrow> (case dispatch_call c (ds_agent s) of (p, a) \<Rightarrow> goto i p a s)
      | _ \<Rightarrow> s)"
| "thread_step i (Ready c) act s =
     (case act of
        Enter \<Rightarrow> (case dispatch_call c (ds_agent s) of (p, a) \<Rightarrow> goto i p a s)
      | _ \<Rightarrow> s)"
| "thread_step i (EntryCancelled c) act s =
     (case act of
        Persist ok \<Rightarrow>
          goto i (if ok then Returned False else ClearingUp c)
            (publish_run_complete c (completion_of c (\<not> ok) True) (ds_agent s)) s
      | _ \<Rightarrow> s)"
| "thread_step i (Streaming c ctx) act s =
     (case act of
        Drain \<Rightarrow>
          (case drain_queue_for_step (sc_session c) (ds_agent s) of
             (folded, drops, a) \<Rightarrow> with_agent (publish_canceled_queue_drops drops a) s)
      | Retry retry_text \<Rightarrow>
          if retry_text = [] then s else with_agent (queue_retry c ctx retry_text (ds_agent s)) s
      | Fail canceled \<Rightarrow> goto i (Ending c ctx (Failed canceled)) (ds_agent s) s
      | Release \<Rightarrow> goto i (Released c ctx) (del_active (sc_session c) (ds_agent s)) s
      | Overflow \<Rightarrow>
          goto i (Overflowing (Some (c, ctx)) (sc_session c)) (del_active (sc_session c) (ds_agent s)) s
      | _ \<Rightarrow> s)"
| "thread_step i (Finishing c ctx again) act s =
     (case act of
        Release \<Rightarrow> goto i (Released c ctx) (del_active (sc_session c) (ds_agent s)) s
      | RequeueRead \<Rightarrow>
          if again
          then goto i (Requeueing c ctx (queued_calls (ds_agent s) (sc_session c))) (ds_agent s) s
          else s
      | _ \<Rightarrow> s)"
| "thread_step i (Requeueing c ctx existing) act s =
     (case act of
        RequeueWrite \<Rightarrow>
          goto i (Finishing (continued_call c) ctx False)
            (set_queue (sc_session c) (existing @ [continued_call c]) (ds_agent s)) s
      | _ \<Rightarrow> s)"
| "thread_step i (Released c ctx) act s =
     (case act of
        TakeTail \<Rightarrow>
          (case turn_tail c (ds_agent s) of
             (None, a) \<Rightarrow> goto i (Ending c ctx Completed) a s
           | (Some (nxt, owes), a) \<Rightarrow> goto i (HandingOff c ctx nxt owes) a s)
      | _ \<Rightarrow> s)"
| "thread_step i (HandingOff c ctx nxt owes) act s =
     (case act of
        HandOff dead \<Rightarrow>
          goto i (Ready nxt) (release_own (sc_session c) ctx
            (if owes then publish_run_complete c (completion_of c False dead) (ds_agent s) else ds_agent s)) s
      | _ \<Rightarrow> s)"
| "thread_step i (Ending c ctx how) act s =
     (case act of
        Finish dead \<Rightarrow>
          (case how of
             Failed canceled \<Rightarrow>
               goto i (ClearingUp c) (release_own (sc_session c) ctx
                 (publish_run_complete c (completion_of c True canceled) (ds_agent s))) s
           | Completed \<Rightarrow>
               goto i (Returned False) (release_own (sc_session c) ctx
                 (publish_run_complete c (completion_of c False dead) (ds_agent s))) s)
      | _ \<Rightarrow> s)"
| "thread_step i (ClearingUp c) act s =
     (case act of
        CleanUp \<Rightarrow> goto i (Returned True) (clear_queue_and_notify (sc_session c) (ds_agent s)) s
      | _ \<Rightarrow> s)"
| "thread_step i (Overflowing owner sess) act s =
     (case act of
        CompactStart \<Rightarrow>
          (case register_compaction sess (ds_agent s) of
             None \<Rightarrow> goto i (after_compact owner CompactFailed) (ds_agent s) s
           | Some (ctx, a) \<Rightarrow> goto i (Compacting owner sess ctx) a s)
      | _ \<Rightarrow> s)"
| "thread_step i (Compacting owner sess ctx) act s =
     (case act of
        CompactStop ans \<Rightarrow>
          goto i (CompactLeaving owner sess ctx ans) (clear_queue_and_notify sess (ds_agent s)) s
      | CompactDrain \<Rightarrow>
          (case compact_tail sess (ds_agent s) of (nxt, a) \<Rightarrow> goto i (CompactDone owner sess ctx nxt) a s)
      | _ \<Rightarrow> s)"
| "thread_step i (CompactLeaving owner sess ctx ans) act s =
     (case act of
        CompactLeave \<Rightarrow> goto i (after_compact owner ans) (release_own sess ctx (ds_agent s)) s
      | _ \<Rightarrow> s)"
| "thread_step i (CompactDone owner sess ctx nxt) act s =
     (case act of
        CompactRelease \<Rightarrow>
          (let a = del_active sess (ds_agent s) in
           case nxt of
             None \<Rightarrow> goto i (after_compact owner CompactOk) a s
           | Some c \<Rightarrow> spawn (Ready c) a (goto i (Joining owner (length (ds_threads s))) a s))
      | _ \<Rightarrow> s)"
| "thread_step i (Joining owner child) act s =
     (case act of
        CompactJoin \<Rightarrow>
          (case ds_threads s ! child of
             Returned failed \<Rightarrow>
               goto i (after_compact owner (if failed then CompactFailed else CompactOk)) (ds_agent s) s
           | _ \<Rightarrow> s)
      | _ \<Rightarrow> s)"
| "thread_step i (Clearing sess queued) act s =
     (case act of
        ClearQueueWrite \<Rightarrow>
          goto i (Returned False) (publish_canceled_queue_drops queued (del_queue sess (ds_agent s))) s
      | _ \<Rightarrow> s)"
| "thread_step i (Returned failed) act s = s"

fun sys_step :: "dispatch_sys \<Rightarrow> sys_event \<Rightarrow> dispatch_sys" where
  "sys_step s (Free f) = free_step s f"
| "sys_step s (Submit c) =
     spawn (Waiting (c\<lparr>sc_accepted := None, sc_accept_seq := 0\<rparr>)) (ds_agent s) s"
| "sys_step s (Summarize sess) = spawn (Overflowing None sess) (ds_agent s) s"
| "sys_step s (CancelSession sess between) = cancel_session sess between s"
| "sys_step s (ClearQueueNow sess) = with_agent (clear_queue sess (ds_agent s)) s"
| "sys_step s (ClearQueueRead sess) =
     (if queued_prompts (ds_agent s) sess > 0
      then spawn (Clearing sess (queued_calls (ds_agent s) sess)) (ds_agent s) s else s)"
| "sys_step s (Act i act) =
     (if i < length (ds_threads s) then thread_step i (ds_threads s ! i) act s else s)"

subsection \<open>What a cancel covers\<close>

definition same_accepts :: "agent_state \<Rightarrow> agent_state \<Rightarrow> bool" where
  "same_accepts a b \<longleftrightarrow> ag_accepted b = ag_accepted a \<and> ag_marks b = ag_marks a \<and>
     ag_seq_gen b = ag_seq_gen a \<and> ag_handles b = ag_handles a"

lemma same_accepts_refl [simp]: "same_accepts a a"
  by (simp add: same_accepts_def)

lemma same_accepts_trans: "same_accepts a b \<Longrightarrow> same_accepts b c \<Longrightarrow> same_accepts a c"
  by (simp add: same_accepts_def)

lemma same_accepts_ops [simp]:
  "same_accepts a (set_queue sess qs a)" "same_accepts a (del_queue sess a)"
  "same_accepts a (publish_run_complete c e a)" "same_accepts a (del_active sess a)"
  "same_accepts a (release_own sess ctx a)" "same_accepts a (enqueue_call c a)"
  "same_accepts a (queue_retry c ctx t a)"
  "same_accepts a (a\<lparr>ag_active := x\<rparr>)" "same_accepts a (a\<lparr>ag_cancelled := y\<rparr>)"
  "same_accepts a (a\<lparr>ag_active := x, ag_next_ctx := n\<rparr>)"
  "same_accepts a (a\<lparr>ag_active := x, ag_next_ctx := n, ag_stamp_gen := g\<rparr>)"
  by (simp_all add: same_accepts_def set_queue_def del_queue_def publish_run_complete_def del_active_def
      release_own_def enqueue_call_def queue_retry_def Let_def)

lemma same_accepts_drops [simp]: "same_accepts a (publish_canceled_queue_drops ds a)"
proof (induction ds arbitrary: a)
  case (Cons d ds)
  show ?case
    by (auto intro: same_accepts_trans [OF _ Cons.IH])
qed simp

lemma same_accepts_clear [simp]: "same_accepts a (clear_queue_and_notify sess a)"
  by (auto simp: clear_queue_and_notify_def split: option.split
      intro: same_accepts_trans [OF _ same_accepts_drops])

lemma same_accepts_drain: "drain_queue_for_step sess a = (f, d, b) \<Longrightarrow> same_accepts a b"
  by (auto simp: drain_queue_for_step_def Let_def split: prod.splits if_splits)

lemma same_accepts_covered: "drop_covered sess a = (qs, b) \<Longrightarrow> same_accepts a b"
  by (auto simp: drop_covered_def Let_def split: option.splits prod.splits if_splits
      intro: same_accepts_trans [OF _ same_accepts_drops])

lemma same_accepts_sel:
  "same_accepts a b \<Longrightarrow> accepted_count b sess = accepted_count a sess"
  "same_accepts a b \<Longrightarrow> canceled_by_seq b sess seq = canceled_by_seq a sess seq"
  "same_accepts a b \<Longrightarrow> handle_seq b h = handle_seq a h"
  "same_accepts a b \<Longrightarrow> ag_handles b = ag_handles a"
  "same_accepts a b \<Longrightarrow> ag_marks b = ag_marks a"
  "same_accepts a b \<Longrightarrow> ag_seq_gen b = ag_seq_gen a"
  "same_accepts a b \<Longrightarrow> ag_accepted b = ag_accepted a"
  by (simp_all add: same_accepts_def accepted_count_def canceled_by_seq_def handle_seq_def)

text \<open>The bookkeeping of the reservations.\<close>

definition open_handles :: "string \<Rightarrow> accepted_run list \<Rightarrow> nat" where
  "open_handles sess hs = length (filter (\<lambda>r. ar_session r = sess \<and> \<not> ar_done r) hs)"

definition accept_ok :: "agent_state \<Rightarrow> bool" where
  "accept_ok a \<longleftrightarrow>
     ag_seq_gen a = of_nat (length (ag_handles a)) \<and>
     (\<forall>h<length (ag_handles a). ar_seq (ag_handles a ! h) = of_nat (Suc h)) \<and>
     (\<forall>sess. accepted_count a sess = open_handles sess (ag_handles a)) \<and>
     (\<forall>sess m. map_of (ag_marks a) sess = Some m \<longrightarrow> m \<le> of_nat (length (ag_handles a)))"

definition held :: "agent_state \<Rightarrow> session_call \<Rightarrow> nat \<Rightarrow> bool" where
  "held a c h \<longleftrightarrow> h < length (ag_handles a) \<and> \<not> ar_done (ag_handles a ! h) \<and>
     ar_session (ag_handles a ! h) = sc_session c"

definition covers :: "agent_state \<Rightarrow> session_call \<Rightarrow> nat \<Rightarrow> bool" where
  "covers a c h \<longleftrightarrow> canceled_by_seq a (sc_session c) (handle_seq a h)"

text \<open>The reserved calls of all goroutines.\<close>

definition opt_mset :: "'a option \<Rightarrow> 'a multiset" where
  "opt_mset x = (case x of None \<Rightarrow> {#} | Some y \<Rightarrow> {#y#})"

lemma opt_mset_simps [simp]: "opt_mset None = {#}" "opt_mset (Some x) = {#x#}"
  by (simp_all add: opt_mset_def)

fun gather :: "('p \<Rightarrow> 'x option) \<Rightarrow> 'p list \<Rightarrow> 'x multiset" where
  "gather f [] = {#}"
| "gather f (p # ps) = opt_mset (f p) + gather f ps"

lemma gather_append [simp]: "gather f (ps @ qs) = gather f ps + gather f qs"
  by (induction ps) (simp_all add: ac_simps)

lemma gather_update:
  "i < length ps \<Longrightarrow> gather f (ps[i := p]) + opt_mset (f (ps ! i)) = gather f ps + opt_mset (f p)"
  by (induction ps arbitrary: i) (auto simp: nth_Cons split: nat.splits)

lemma gather_member: "i < length ps \<Longrightarrow> f (ps ! i) = Some x \<Longrightarrow> x \<in># gather f ps"
  by (induction ps arbitrary: i) (auto simp: nth_Cons split: nat.splits)

lemma gather_split:
  assumes "i < length ps"
  obtains N where "gather f ps = opt_mset (f (ps ! i)) + N"
    and "\<And>p. gather f (ps[i := p]) = opt_mset (f p) + N"
proof -
  have "opt_mset (f (ps ! i)) \<subseteq># gather f ps"
    using gather_member [OF assms] by (auto simp: opt_mset_def split: option.split)
  then obtain N where N: "gather f ps = opt_mset (f (ps ! i)) + N" by (auto simp: subset_mset.le_iff_add)
  have "gather f (ps[i := p]) = opt_mset (f p) + N" for p
    using gather_update [OF assms, of f p] N by simp
  with N that show ?thesis by blast
qed

lemma gather_same: "i < length ps \<Longrightarrow> f p = f (ps ! i) \<Longrightarrow> gather f (ps[i := p]) = gather f ps"
  using gather_update [of i ps f p] by simp

abbreviation pendings :: "run_phase list \<Rightarrow> (session_call \<times> nat) multiset" where
  "pendings \<equiv> gather pending"

lemma pending_handles_mem:
  "h \<in> set (pending_handles sess ps) \<longleftrightarrow> (\<exists>c. (c, h) \<in># pendings ps \<and> sc_session c = sess)"
  by (induction ps) (auto simp: pending_handles_def opt_mset_def split: option.splits if_splits)

definition cover_ok :: "agent_state \<Rightarrow> (session_call \<times> nat) multiset \<Rightarrow> nat list \<Rightarrow> bool" where
  "cover_ok a M doomed \<longleftrightarrow> accept_ok a \<and>
     (\<forall>c h. (c, h) \<in># M \<longrightarrow> held a c h \<and> (covers a c h \<longleftrightarrow> h \<in> set doomed)) \<and>
     (\<forall>h. count (image_mset snd M) h \<le> 1) \<and>
     (\<forall>h\<in>set doomed. h < length (ag_handles a))"

abbreviation small :: "agent_state \<Rightarrow> bool" where
  "small a \<equiv> length (ag_handles a) < 2 ^ 64"

lemma of_nat_u64_le: "n < 2 ^ 64 \<Longrightarrow> m < 2 ^ 64 \<Longrightarrow> (of_nat m :: u64) \<le> of_nat n \<longleftrightarrow> m \<le> n"
  by (simp add: word_le_nat_alt unat_of_nat take_bit_nat_eq_self)

lemma of_nat_u64_pos: "0 < n \<Longrightarrow> n < 2 ^ 64 \<Longrightarrow> (of_nat n :: u64) \<noteq> 0"
proof
  assume n: "0 < n" "n < 2 ^ 64" and "(of_nat n :: u64) = 0"
  then have "unat (of_nat n :: u64) = 0" by simp
  with n show False by (simp add: unat_of_nat take_bit_nat_eq_self)
qed

lemma held_open: "held a c h \<Longrightarrow> open_handles (sc_session c) (ag_handles a) > 0"
  unfolding held_def open_handles_def
  by (metis (mono_tags, lifting) filter_empty_conv length_greater_0_conv nth_mem)

lemma accept_ok_frame: "accept_ok a \<Longrightarrow> same_accepts a b \<Longrightarrow> accept_ok b"
  by (simp add: accept_ok_def same_accepts_sel)

lemma cover_frame:
  assumes "cover_ok a M D" and same: "same_accepts a b"
  shows "cover_ok b M D"
  using assms(1) accept_ok_frame [OF _ same] unfolding cover_ok_def held_def covers_def
  by (simp add: same_accepts_sel [OF same])

lemma cover_forget: "cover_ok a (M + N) D \<Longrightarrow> cover_ok a M D"
  by (auto simp: cover_ok_def) (metis add_leD1)

text \<open>A new reservation is covered by no mark, because marks are at most the sequence before it.\<close>

lemma begin_accepted_sel:
  assumes "begin_accepted sess a = (h, b)"
  shows "h = length (ag_handles a)"
    and "ag_handles b = ag_handles a @ [\<lparr>ar_session = sess, ar_seq = ag_seq_gen a + 1, ar_done = False\<rparr>]"
    and "ag_marks b = ag_marks a" and "ag_seq_gen b = ag_seq_gen a + 1"
    and "accepted_count b s = (if s = sess then accepted_count a sess + 1 else accepted_count a s)"
    and "ag_queue b = ag_queue a" and "ag_active b = ag_active a" and "ag_completes b = ag_completes a"
    and "ag_next_ctx b = ag_next_ctx a"
  using assms by (auto simp: begin_accepted_def Let_def accepted_count_def)

lemma accept_ok_begin:
  assumes ok: "accept_ok a" and b: "begin_accepted sess a = (h, b)" and "small b"
  shows "accept_ok b"
proof -
  note sel = begin_accepted_sel [OF b]
  have n: "Suc (length (ag_handles a)) < 2 ^ 64" using \<open>small b\<close> by (simp add: sel)
  have "(of_nat (length (ag_handles a)) :: u64) \<le> of_nat (length (ag_handles b))"
    using n of_nat_u64_le [OF n, of "length (ag_handles a)"] by (simp add: sel del: of_nat_Suc)
  then have le: "map_of (ag_marks b) s = Some m \<Longrightarrow> m \<le> of_nat (length (ag_handles b))" for s m
    using ok by (fastforce simp: accept_ok_def sel(3) dest: order_trans)
  have "\<forall>k<length (ag_handles b). ar_seq (ag_handles b ! k) = of_nat (Suc k)"
    using ok by (auto simp: accept_ok_def sel nth_append less_Suc_eq ac_simps)
  moreover have "accepted_count b s = open_handles s (ag_handles b)" for s
    using ok by (simp add: accept_ok_def sel open_handles_def)
  moreover have "ag_seq_gen b = of_nat (length (ag_handles b))"
    using ok by (simp add: accept_ok_def sel ac_simps)
  ultimately show ?thesis using le unfolding accept_ok_def by blast
qed

lemma cover_begin:
  assumes ok: "cover_ok a M D" and b: "begin_accepted sess a = (h, b)" and "small b"
    and c: "sc_session c = sess"
  shows "cover_ok b (add_mset (c, h) M) D"
proof -
  note sel = begin_accepted_sel [OF b]
  have aok: "accept_ok a" using ok by (simp add: cover_ok_def)
  have n: "Suc (length (ag_handles a)) < 2 ^ 64" using \<open>small b\<close> by (simp add: sel)
  have old: "held b c' h' \<and> (covers b c' h' \<longleftrightarrow> h' \<in> set D)" if "(c', h') \<in># M" for c' h'
    using ok that by (fastforce simp: cover_ok_def held_def covers_def canceled_by_seq_def handle_seq_def
        sel nth_append)
  have "\<not> covers b c h"
  proof
    assume "covers b c h"
    then obtain m where m: "map_of (ag_marks a) sess = Some m"
        "ag_seq_gen a + 1 = 0 \<or> ag_seq_gen a + 1 \<le> m"
      by (auto simp: covers_def canceled_by_seq_def handle_seq_def sel c split: option.splits if_splits)
    have g: "ag_seq_gen a = of_nat (length (ag_handles a))" "m \<le> of_nat (length (ag_handles a))"
      using aok m(1) unfolding accept_ok_def by blast+
    have "ag_seq_gen a + 1 = of_nat (Suc (length (ag_handles a)))" by (simp add: g ac_simps)
    moreover have "(of_nat (Suc (length (ag_handles a))) :: u64) \<noteq> 0"
      using of_nat_u64_pos [OF zero_less_Suc n] .
    ultimately have "of_nat (Suc (length (ag_handles a))) \<le> (of_nat (length (ag_handles a)) :: u64)"
      using m(2) g by (auto simp: add.commute)
    then show False using of_nat_u64_le [of "length (ag_handles a)" "Suc (length (ag_handles a))"] n by simp
  qed
  moreover have "h \<notin> set D" using ok by (auto simp: cover_ok_def sel)
  moreover have "held b c h" by (simp add: held_def sel c)
  moreover have "count (image_mset snd M) h = 0"
    using ok by (force simp: cover_ok_def held_def sel count_eq_zero_iff)
  ultimately show ?thesis
    using old ok accept_ok_begin [OF aok b \<open>small b\<close>] by (auto simp: cover_ok_def sel)
qed

text \<open>Releasing a reservation: the last one of a session takes the mark with it.\<close>

lemma length_filter_update:
  "h < length xs \<Longrightarrow> length (filter P (xs[h := r])) + (if P (xs ! h) then 1 else 0) =
     length (filter P xs) + (if P r then 1 else 0)"
proof (induction xs arbitrary: h)
  case (Cons x xs)
  show ?case
  proof (cases h)
    case (Suc k)
    with Cons.IH [of k] Cons.prems show ?thesis by (cases "P x") simp_all
  qed simp
qed simp

lemma open_handles_update:
  "h < length hs \<Longrightarrow> open_handles s (hs[h := r]) + (if ar_session (hs ! h) = s \<and> \<not> ar_done (hs ! h) then 1 else 0) =
     open_handles s hs + (if ar_session r = s \<and> \<not> ar_done r then 1 else 0)"
  unfolding open_handles_def by (rule length_filter_update)

lemma covers_iff:
  assumes "accept_ok a" and "small a" and h: "h < length (ag_handles a)"
  shows "covers a c h \<longleftrightarrow> (\<exists>m. map_of (ag_marks a) (sc_session c) = Some m \<and> of_nat (Suc h) \<le> m)"
proof -
  have "handle_seq a h = of_nat (Suc h)" using assms by (simp add: accept_ok_def handle_seq_def)
  moreover have "(of_nat (Suc h) :: u64) \<noteq> 0" using of_nat_u64_pos [of "Suc h"] assms by simp
  ultimately show ?thesis
    unfolding covers_def canceled_by_seq_def by (auto split: option.split simp del: of_nat_Suc)
qed

lemma cover_unmark:
  assumes ok: "cover_ok a M D" and none: "accepted_count a sess = 0"
  shows "cover_ok (a\<lparr>ag_marks := AList.delete sess (ag_marks a)\<rparr>) M D" (is "cover_ok ?a M D")
proof -
  have "sc_session c \<noteq> sess" if "(c, h) \<in># M" for c h
    using ok none that held_open [of a c h] by (auto simp: cover_ok_def accept_ok_def)
  then have "held ?a c h \<and> (covers ?a c h \<longleftrightarrow> h \<in> set D)" if "(c, h) \<in># M" for c h
    using ok that by (auto simp: cover_ok_def held_def covers_def canceled_by_seq_def handle_seq_def)
  moreover have "accept_ok ?a"
    using ok by (auto simp: cover_ok_def accept_ok_def accepted_count_def split: if_splits)
  ultimately show ?thesis using ok by (auto simp: cover_ok_def)
qed

lemma cover_close:
  assumes ok: "cover_ok a (add_mset (c, h) M) D"
  shows "cover_ok (close_accepted (Some h) a) M D"
proof -
  let ?hs = "(ag_handles a)[h := (ag_handles a ! h)\<lparr>ar_done := True\<rparr>]"
  let ?sess = "sc_session c"
  let ?a = "a\<lparr>ag_handles := ?hs\<rparr>"
  have held: "h < length (ag_handles a)" "\<not> ar_done (ag_handles a ! h)" "ar_session (ag_handles a ! h) = ?sess"
    and aok: "accept_ok a" using ok by (auto simp: cover_ok_def held_def)
  have apart: "h' \<noteq> h" if "(c', h') \<in># M" for c' h'
    using ok that by (auto simp: cover_ok_def dest!: spec [of _ h] multi_member_split)
  have opens: "open_handles s ?hs = open_handles s (ag_handles a) - (if s = ?sess then 1 else 0)" for s
    using open_handles_update [OF held(1), of s "(ag_handles a ! h)\<lparr>ar_done := True\<rparr>"] held by (auto split: if_splits)
  have M: "held ?a c' h' \<and> (covers ?a c' h' \<longleftrightarrow> h' \<in> set D)" if "(c', h') \<in># M" for c' h'
    using ok apart [OF that] that
    by (auto simp: cover_ok_def held_def covers_def canceled_by_seq_def handle_seq_def)
  have count1: "count (image_mset snd M) k \<le> 1" for k
  proof -
    have "count (image_mset snd M) k \<le> count (image_mset snd (add_mset (c, h) M)) k" by simp
    also have "\<dots> \<le> 1" using ok unfolding cover_ok_def by blast
    finally show ?thesis .
  qed
  have seqs: "ar_seq (?hs ! k) = ar_seq (ag_handles a ! k)" if "k < length (ag_handles a)" for k
    using held(1) by (simp add: nth_list_update)
  have base: "ag_seq_gen a = of_nat (length ?hs)" "\<forall>k<length ?hs. ar_seq (?hs ! k) = of_nat (Suc k)"
      "\<And>s m. map_of (ag_marks a) s = Some m \<Longrightarrow> m \<le> of_nat (length ?hs)"
      "\<forall>k\<in>set D. k < length ?hs"
    using aok ok seqs by (auto simp: accept_ok_def cover_ok_def)
  have eq: "close_accepted (Some h) a = end_accepted ?sess ?a"
    using held by (simp add: close_accepted_def)
  have count: "accepted_count a s = open_handles s (ag_handles a)" for s
    using aok by (simp add: accept_ok_def)
  show ?thesis
  proof (cases "accepted_count a ?sess \<le> 1")
    case True
    let ?b = "?a\<lparr>ag_accepted := AList.delete ?sess (ag_accepted a),
                ag_marks := AList.delete ?sess (ag_marks a)\<rparr>"
    have b: "end_accepted ?sess ?a = ?b"
      using True by (auto simp: end_accepted_def accepted_count_def split: option.splits)
    have zero: "open_handles ?sess ?hs = 0" using opens [of ?sess] count [of ?sess] True by simp
    have other: "sc_session c' \<noteq> ?sess" if "(c', h') \<in># M" for c' h'
      using M [OF that] held_open [of ?a c' h'] zero by auto
    have "accepted_count ?b s = open_handles s ?hs" for s
      using count [of s] opens [of s] zero by (auto simp: accepted_count_def)
    then have "accept_ok ?b" using base by (auto simp: accept_ok_def split: if_splits)
    moreover have "held ?b c' h' \<and> (covers ?b c' h' \<longleftrightarrow> h' \<in> set D)" if "(c', h') \<in># M" for c' h'
      using M [OF that] other [OF that] by (auto simp: held_def covers_def canceled_by_seq_def handle_seq_def)
    ultimately show ?thesis
      unfolding eq b using count1 base(4) by (auto simp: cover_ok_def)
  next
    case False
    then obtain n where n: "map_of (ag_accepted a) ?sess = Some n" "n > 1"
      by (auto simp: accepted_count_def split: option.splits)
    let ?b = "?a\<lparr>ag_accepted := AList.update ?sess (n - 1) (ag_accepted a)\<rparr>"
    have b: "end_accepted ?sess ?a = ?b" using n by (simp add: end_accepted_def)
    have "accepted_count ?b s = open_handles s ?hs" for s
      using count [of s] opens [of s] n by (auto simp: accepted_count_def)
    then have "accept_ok ?b" using base by (auto simp: accept_ok_def)
    moreover have "held ?b c' h' \<and> (covers ?b c' h' \<longleftrightarrow> h' \<in> set D)" if "(c', h') \<in># M" for c' h'
      using M [OF that] by (auto simp: held_def covers_def canceled_by_seq_def handle_seq_def)
    ultimately show ?thesis
      unfolding eq b using count1 base(4) by (auto simp: cover_ok_def)
  qed
qed

lemma sys_sel [simp]:
  "ds_agent (with_agent a s) = a" "ds_threads (with_agent a s) = ds_threads s"
  "ds_doomed (with_agent a s) = ds_doomed s"
  "ds_agent (spawn p a s) = a" "ds_threads (spawn p a s) = ds_threads s @ [p]"
  "ds_doomed (spawn p a s) = ds_doomed s"
  "ds_agent (goto i p a s) = a" "ds_threads (goto i p a s) = (ds_threads s)[i := p]"
  "ds_doomed (goto i p a s) = ds_doomed s"
  by (simp_all add: with_agent_def spawn_def goto_def)

text \<open>
  First what does not depend on the counters: a queued call is filed under its own session and is
  one \<open>Run\<close> accepts, and so is a call that runs.
\<close>

definition fits :: "string \<Rightarrow> session_call \<Rightarrow> bool" where
  "fits sess q \<longleftrightarrow> sc_session q = sess \<and> validate_call q = None"

definition queue_ok :: "agent_state \<Rightarrow> bool" where
  "queue_ok a \<longleftrightarrow> (\<forall>sess. list_all (fits sess) (queued_calls a sess))"

fun owner_ok :: "string \<Rightarrow> (session_call \<times> nat) option \<Rightarrow> bool" where
  "owner_ok sess None = True"
| "owner_ok sess (Some (c, ctx)) = fits sess c"

fun phase_ok :: "run_phase \<Rightarrow> bool" where
  "phase_ok (Streaming c ctx) = fits (sc_session c) c"
| "phase_ok (Finishing c ctx again) = fits (sc_session c) c"
| "phase_ok (Requeueing c ctx qs) = (fits (sc_session c) c \<and> list_all (fits (sc_session c)) qs)"
| "phase_ok (HandingOff c ctx nxt owes) = fits (sc_session c) nxt"
| "phase_ok (Overflowing owner sess) = owner_ok sess owner"
| "phase_ok (Compacting owner sess ctx) = owner_ok sess owner"
| "phase_ok (CompactLeaving owner sess ctx ans) = owner_ok sess owner"
| "phase_ok (CompactDone owner sess ctx nxt) =
     (owner_ok sess owner \<and> (case nxt of None \<Rightarrow> True | Some c \<Rightarrow> fits sess c))"
| "phase_ok (Joining owner child) =
     (case owner of None \<Rightarrow> True | Some (c, ctx) \<Rightarrow> fits (sc_session c) c)"
| "phase_ok _ = True"

definition tidy :: "dispatch_sys \<Rightarrow> bool" where
  "tidy s \<longleftrightarrow> queue_ok (ds_agent s) \<and> list_all phase_ok (ds_threads s)"

lemma queued_calls_ops [simp]:
  "queued_calls (set_queue sess qs a) k = (if k = sess then qs else queued_calls a k)"
  "queued_calls (del_queue sess a) k = (if k = sess then [] else queued_calls a k)"
  "queued_calls (publish_run_complete c e a) k = queued_calls a k"
  "queued_calls (del_active sess a) k = queued_calls a k"
  "queued_calls (release_own sess ctx a) k = queued_calls a k"
  "queued_calls (a\<lparr>ag_active := x\<rparr>) k = queued_calls a k"
  "queued_calls (a\<lparr>ag_cancelled := y\<rparr>) k = queued_calls a k"
  "queued_calls (a\<lparr>ag_marks := m\<rparr>) k = queued_calls a k"
  "queued_calls (a\<lparr>ag_handles := hs\<rparr>) k = queued_calls a k"
  "queued_calls (a\<lparr>ag_accepted := acc\<rparr>) k = queued_calls a k"
  "queued_calls (a\<lparr>ag_active := x, ag_next_ctx := n\<rparr>) k = queued_calls a k"
  "queued_calls (a\<lparr>ag_active := x, ag_next_ctx := n, ag_stamp_gen := g\<rparr>) k = queued_calls a k"
  by (simp_all add: queued_calls_def set_queue_def del_queue_def publish_run_complete_def del_active_def
      release_own_def)

lemma queued_calls_drops [simp]: "queued_calls (publish_canceled_queue_drops ds a) k = queued_calls a k"
  by (induction ds arbitrary: a) simp_all

lemma queued_calls_clear [simp]:
  "queued_calls (clear_queue_and_notify sess a) k = (if k = sess then [] else queued_calls a k)"
  by (simp add: clear_queue_and_notify_def split: option.split)

lemma queued_calls_end [simp]: "queued_calls (end_accepted sess a) k = queued_calls a k"
  by (simp add: end_accepted_def queued_calls_def split: option.split)

lemma queued_calls_close [simp]: "queued_calls (close_accepted ho a) k = queued_calls a k"
  by (simp add: close_accepted_def split: option.split)

lemma queued_calls_begin [simp]: "begin_accepted sess a = (h, b) \<Longrightarrow> queued_calls b k = queued_calls a k"
  by (simp add: queued_calls_def begin_accepted_sel)

lemma queue_ok_frame: "queue_ok a \<Longrightarrow> (\<And>k. queued_calls b k = queued_calls a k \<or> queued_calls b k = []) \<Longrightarrow> queue_ok b"
  unfolding queue_ok_def by (metis list.pred_inject(1))

lemma drain_loop_subset:
  "drain_loop a sess qs = (f, keep, drops) \<Longrightarrow> set f \<subseteq> set qs \<and> set keep \<subseteq> set qs \<and> set drops \<subseteq> set qs"
  by (induction qs arbitrary: f keep drops) (auto simp: Let_def split: prod.splits if_splits)

lemma split_covered_subset:
  "split_covered mark qs = (kept, drops) \<Longrightarrow> set kept \<subseteq> set qs \<and> set drops \<subseteq> set qs"
  by (induction qs arbitrary: kept drops) (auto simp: Let_def split: prod.splits if_splits)

lemma list_all_subset: "list_all P ys \<Longrightarrow> set xs \<subseteq> set ys \<Longrightarrow> list_all P xs"
  by (auto simp: list_all_iff)

lemma queue_ok_drain:
  assumes "queue_ok a" and "drain_queue_for_step sess a = (f, d, b)"
  shows "queue_ok b"
  using assms by (auto simp: queue_ok_def drain_queue_for_step_def Let_def list_all_iff split: prod.splits if_splits
      dest!: drain_loop_subset)

lemma queue_ok_covered:
  assumes "queue_ok a" and "drop_covered sess a = (qs, b)"
  shows "queue_ok b" and "list_all (fits sess) qs" and "queued_calls b sess = qs"
proof -
  have "queue_ok b \<and> list_all (fits sess) qs \<and> queued_calls b sess = qs"
    using assms by (auto simp: queue_ok_def drop_covered_def Let_def list_all_iff split: prod.splits if_splits option.splits
        dest!: split_covered_subset)
  then show "queue_ok b" "list_all (fits sess) qs" "queued_calls b sess = qs" by simp_all
qed

lemma take_first_sel:
  assumes "take_first sess q rest a = (nxt, b)"
  shows "queued_calls b k = (if k = sess then rest else queued_calls a k)"
    and "\<exists>h. nxt = q\<lparr>sc_accepted := Some h\<rparr>" and "ag_completes b = ag_completes a"
    and "ag_active b = ag_active a" and "ag_next_ctx b = ag_next_ctx a"
proof -
  obtain h where h: "begin_accepted sess (set_queue sess rest a) = (h, b)" "nxt = q\<lparr>sc_accepted := Some h\<rparr>"
    using assms by (auto simp: take_first_def Let_def split: prod.splits)
  then show "queued_calls b k = (if k = sess then rest else queued_calls a k)"
    and "\<exists>h. nxt = q\<lparr>sc_accepted := Some h\<rparr>" by (auto dest: queued_calls_begin)
  show "ag_completes b = ag_completes a" "ag_active b = ag_active a" "ag_next_ctx b = ag_next_ctx a"
    using begin_accepted_sel [OF h(1)] by (simp_all add: set_queue_def)
qed

lemma fits_update [simp]:
  "fits k (c\<lparr>sc_accepted := ho\<rparr>) = fits k c" "fits k (c\<lparr>sc_run_stamp := g\<rparr>) = fits k c"
  "fits k (c\<lparr>sc_accept_seq := w\<rparr>) = fits k c" "fits k (c\<lparr>sc_on_complete := b\<rparr>) = fits k c"
  "fits k (c\<lparr>sc_repair_attempts := n\<rparr>) = fits k c"
  "fits k (continued_call c) = (sc_session c = k \<and> k \<noteq> [])"
  by (auto simp: fits_def validate_call_def continued_call_def)

lemma fits_prompt: "fits k c \<Longrightarrow> t \<noteq> [] \<Longrightarrow> fits k (c\<lparr>sc_prompt := t\<rparr>)"
  by (simp add: fits_def validate_call_def split: if_splits)

lemma fits_session: "fits k c \<Longrightarrow> sc_session c = k \<and> k \<noteq> []"
  by (auto simp: fits_def validate_call_def split: if_splits)

lemma tidy_goto:
  "tidy s \<Longrightarrow> queue_ok a \<Longrightarrow> phase_ok p \<Longrightarrow> tidy (goto i p a s)"
  by (auto simp: tidy_def goto_def list_all_iff dest!: set_update_subset_insert [THEN subsetD])

lemma tidy_spawn: "tidy s \<Longrightarrow> queue_ok a \<Longrightarrow> phase_ok p \<Longrightarrow> tidy (spawn p a s)"
  by (simp add: tidy_def spawn_def)

lemma tidy_agent: "tidy s \<Longrightarrow> queue_ok a \<Longrightarrow> tidy (with_agent a s)"
  by (simp add: tidy_def with_agent_def)


lemma queue_ok_set: "queue_ok a \<Longrightarrow> list_all (fits sess) qs \<Longrightarrow> queue_ok (set_queue sess qs a)"
  by (simp add: queue_ok_def)

lemma queue_ok_sess: "queue_ok a \<Longrightarrow> list_all (fits sess) (queued_calls a sess)"
  by (simp add: queue_ok_def)

lemma queue_ok_dispatch:
  assumes "queue_ok a" and "dispatch_call c a = (p, b)"
  shows "queue_ok b" and "phase_ok p"
proof -
  have "queue_ok b \<and> phase_ok p"
  proof (cases "validate_call c = None")
    case True
    then have "fits (sc_session c) c" by (simp add: fits_def)
    with assms show ?thesis
      by (auto simp: dispatch_call_def enqueue_call_def Let_def queue_ok_def split: if_splits)
  next
    case False
    with assms show ?thesis by (auto simp: dispatch_call_def)
  qed
  then show "queue_ok b" "phase_ok p" by simp_all
qed

lemma queue_ok_take:
  assumes "queue_ok a" and "list_all (fits sess) (q # rest)" and "take_first sess q rest a = (nxt, b)"
  shows "queue_ok b" and "fits sess nxt"
  using assms take_first_sel [OF assms(3)] by (auto simp: queue_ok_def)

lemma queue_ok_idle: "queue_ok a \<Longrightarrow> queue_ok (settle_idle sess a)"
  by (auto simp: settle_idle_def Let_def queue_ok_def)

lemma queue_ok_tail:
  assumes "queue_ok a" and "turn_tail c a = (r, b)"
  shows "queue_ok b" and "r = Some (nxt, owes) \<Longrightarrow> fits (sc_session c) nxt"
  using assms queue_ok_take [OF queue_ok_covered(1,2) [OF assms(1)]] queue_ok_idle [OF queue_ok_covered(1) [OF assms(1)]]
  by (auto simp: turn_tail_def Let_def split: prod.splits list.splits)

lemma queue_ok_compact:
  assumes "queue_ok a" and "compact_tail sess a = (r, b)"
  shows "queue_ok b" and "r = Some nxt \<Longrightarrow> fits sess nxt"
  using assms queue_ok_take [OF queue_ok_covered(1,2) [OF assms(1)]] queue_ok_idle [OF queue_ok_covered(1) [OF assms(1)]]
  by (auto simp: compact_tail_def split: prod.splits list.splits)

lemma phase_ok_after: "owner_ok sess owner \<Longrightarrow> phase_ok (after_compact owner ans)"
  by (cases "(owner, ans)" rule: after_compact.cases) (auto dest: fits_session)

lemma tidy_thread:
  assumes t: "tidy s" and i: "i < length (ds_threads s)" and p: "ds_threads s ! i = p"
  shows "tidy (thread_step i p act s)"
proof -
  note tg = tidy_goto [OF t] and ta = tidy_agent [OF t]
  have q: "queue_ok (ds_agent s)" using t by (simp add: tidy_def)
  note qf = queue_ok_frame [OF q]
  have ok: "phase_ok p" using t i p by (auto simp: tidy_def list_all_length)
  show ?thesis
  proof (cases p)
    case (Waiting c)
    then show ?thesis using t queue_ok_dispatch [OF q]
      by (auto split: run_act.split prod.split intro!: tg)
  next
    case (Ready c)
    then show ?thesis using t queue_ok_dispatch [OF q]
      by (auto split: run_act.split prod.split intro!: tg)
  next
    case (Streaming c ctx)
    have retry: "queue_ok (queue_retry c ctx x (ds_agent s))" if "x \<noteq> []" for x
      using ok Streaming that queue_ok_sess [OF q, of "sc_session c"] q
      by (auto simp: queue_retry_def intro!: queue_ok_set fits_prompt)
    have drain: "queue_ok (publish_canceled_queue_drops d a)"
      if "drain_queue_for_step (sc_session c) (ds_agent s) = (f, d, a)" for f d a
      by (rule queue_ok_frame [OF queue_ok_drain [OF q that]]) simp
    show ?thesis using ok t Streaming drain retry q
      by (auto split: run_act.split prod.split intro!: tg ta intro: qf)
  next
    case (Released c ctx)
    then show ?thesis using t queue_ok_tail [OF q]
      by (auto split: run_act.split prod.split option.split intro!: tg)
  next
    case (Compacting owner sess ctx)
    moreover have "queue_ok (clear_queue_and_notify sess (ds_agent s))" by (rule qf) simp
    ultimately show ?thesis using t ok queue_ok_compact [OF q]
      by (auto split: run_act.split prod.split option.split intro!: tg)
  next
    case (CompactDone owner sess ctx nxt)
    then show ?thesis using t ok phase_ok_after [of sess owner]
      by (auto simp: Let_def split: run_act.split option.split intro!: tg tidy_spawn qf)
        (cases owner; auto dest: fits_session)+
  next
    case (Joining owner child)
    then show ?thesis using t ok q phase_ok_after [of "case owner of None \<Rightarrow> [] | Some (c, ctx) \<Rightarrow> sc_session c" owner]
      by (auto split: run_act.split run_phase.split option.splits prod.splits intro!: tg)
  next
    case (Overflowing owner sess)
    then show ?thesis using t ok q phase_ok_after [of sess owner]
      by (auto simp: register_compaction_def split: run_act.split option.split if_splits intro!: tg qf)
  next
    case (CompactLeaving owner sess ctx ans)
    then show ?thesis using t ok phase_ok_after [of sess owner]
      by (auto split: run_act.split intro!: tg qf)
  next
    case (Requeueing c ctx qs)
    then show ?thesis using t ok q fits_session [of "sc_session c" c]
      by (auto split: run_act.split intro!: tg queue_ok_set simp: continued_call_def fits_def validate_call_def)
  next
    case (Finishing c ctx again)
    then show ?thesis using t ok q queue_ok_sess [OF q]
      by (auto split: run_act.split intro!: tg qf)
  qed (insert ok t, auto split: run_act.split turn_end.split intro!: tg qf)
qed

lemma tidy_free: "tidy s \<Longrightarrow> tidy (free_step s f)"
proof (cases f)
  case (FreeAccept closing c)
  moreover assume t: "tidy s"
  moreover have "queue_ok (ds_agent s)" using t by (simp add: tidy_def)
  ultimately show ?thesis
    by (auto simp: send_message_def split: prod.split intro!: tidy_agent tidy_spawn
        intro: queue_ok_frame dest: queued_calls_begin)
next
  case (FreeAbandon i canceled)
  moreover assume t: "tidy s"
  moreover have "queue_ok (ds_agent s)" using t by (simp add: tidy_def)
  ultimately show ?thesis
    by (auto simp: run_agent_failed_def split: run_phase.split intro!: tidy_goto intro: queue_ok_frame)
qed

lemma tidy_between: "tidy s \<Longrightarrow> tidy (foldl free_step s fs)"
  by (induction fs arbitrary: s) (auto intro: tidy_free)

lemma queued_calls_cancel [simp]:
  "cancel_read sess a = (cm, b) \<Longrightarrow> queued_calls b k = queued_calls a k"
  by (auto simp: cancel_read_def split: option.splits)

lemma queued_calls_cancel_write:
  "queued_calls (cancel_write sess cm a) k = queued_calls a k \<or> queued_calls (cancel_write sess cm a) k = []"
  by (auto simp: cancel_write_def Let_def split: prod.split)

lemma tidy_step: "tidy s \<Longrightarrow> tidy (sys_step s e)"
proof -
  assume t: "tidy s"
  then have q: "queue_ok (ds_agent s)" by (simp add: tidy_def)
  show ?thesis
  proof (cases e)
    case (CancelSession sess between)
    obtain cm a where cm: "cancel_read sess (ds_agent s) = (cm, a)" by fastforce
    let ?s = "s\<lparr>ds_agent := a, ds_doomed := pending_handles sess (ds_threads s) @ ds_doomed s\<rparr>"
    have "queue_ok a" using queue_ok_frame [OF q] cm by simp
    then have "tidy (foldl free_step ?s between)" using t by (intro tidy_between) (simp add: tidy_def)
    then have "tidy (with_agent (cancel_write sess cm (ds_agent (foldl free_step ?s between))) (foldl free_step ?s between))"
      by (intro tidy_agent queue_ok_frame [OF _ queued_calls_cancel_write]) (auto simp: tidy_def)
    then show ?thesis using CancelSession cm by (simp add: cancel_session_def Let_def)
  next
    case (ClearQueueNow sess)
    then show ?thesis using t q
      by (auto simp: clear_queue_def intro!: tidy_agent queue_ok_frame [OF q])
  qed (use t q in \<open>auto intro: tidy_free tidy_spawn tidy_thread\<close>)
qed

interpretation tidy: safe_system sys_step tidy
  by unfold_locales (rule tidy_step)

lemma tidy_init: "tidy sys_init"
  by (simp add: tidy_def sys_init_def queue_ok_def queued_calls_def)

text \<open>The invariant of the system, and one lemma per operation.\<close>

definition cover_sys :: "nat list \<Rightarrow> dispatch_sys \<Rightarrow> bool" where
  "cover_sys D s \<longleftrightarrow> (small (ds_agent s) \<longrightarrow> cover_ok (ds_agent s) (pendings (ds_threads s)) D)"

lemma handles_close [simp]: "length (ag_handles (close_accepted ho a)) = length (ag_handles a)"
  by (auto simp: close_accepted_def end_accepted_def split: option.split)

lemmas handles_ops [simp] = same_accepts_ops [THEN same_accepts_sel(4)]
  same_accepts_drops [THEN same_accepts_sel(4)] same_accepts_clear [THEN same_accepts_sel(4)]

lemma cover_close_opt:
  assumes "cover_ok a (opt_mset (case sc_accepted c of None \<Rightarrow> None | Some h \<Rightarrow> Some (c, h)) + N) D"
  shows "cover_ok (close_accepted (sc_accepted c) a) N D"
  using assms cover_close [of a c _ N D] by (cases "sc_accepted c") (auto simp: close_accepted_def)

lemma dispatch_handles: "dispatch_call c a = (p, b) \<Longrightarrow> length (ag_handles b) = length (ag_handles a)"
  by (auto simp: dispatch_call_def Let_def split: if_splits)

lemma cover_dispatch:
  assumes "cover_ok a (opt_mset (case sc_accepted c of None \<Rightarrow> None | Some h \<Rightarrow> Some (c, h)) + N) D"
    and "dispatch_call c a = (p, b)"
  shows "cover_ok b (opt_mset (pending p) + N) D"
proof -
  note close = cover_close_opt [OF cover_frame [OF assms(1)]]
  have "cover_ok a N D" using cover_forget [of a N] assms(1) by (metis union_commute)
  with assms(2) close show ?thesis
    by (auto simp: dispatch_call_def Let_def split: if_splits)
qed

lemma cover_take:
  assumes "cover_ok a N D" and "take_first sess q rest a = (nxt, b)" and "small b"
    and "sc_session q = sess"
  obtains h where "nxt = q\<lparr>sc_accepted := Some h\<rparr>" and "cover_ok b (add_mset (nxt, h) N) D"
proof -
  obtain h where h: "begin_accepted sess (set_queue sess rest a) = (h, b)" "nxt = q\<lparr>sc_accepted := Some h\<rparr>"
    using assms(2) by (auto simp: take_first_def Let_def split: prod.splits)
  moreover have "cover_ok b (add_mset (nxt, h) N) D"
    using cover_begin [OF cover_frame [OF assms(1)] h(1) assms(3), of nxt] h(2) assms(4) by simp
  ultimately show ?thesis using that by blast
qed

lemma cover_idle:
  assumes "cover_ok a N D"
  shows "cover_ok (settle_idle sess a) N D"
proof -
  have "cover_ok (del_queue sess a) N D" by (rule cover_frame [OF assms]) simp
  with cover_unmark [OF this] show ?thesis by (auto simp: settle_idle_def Let_def)
qed

lemma handles_mono_ops [simp]:
  "length (ag_handles (cancel_write sess cm a)) = length (ag_handles a)"
  "length (ag_handles (settle_idle sess a)) = length (ag_handles a)"
  "length (ag_handles (clear_queue sess a)) = length (ag_handles a)"
  by (auto simp: cancel_write_def settle_idle_def clear_queue_def Let_def split: prod.split)

lemma handles_begin: "begin_accepted sess a = (h, b) \<Longrightarrow> length (ag_handles b) = Suc (length (ag_handles a))"
  by (simp add: begin_accepted_sel)

lemma handles_take: "take_first sess q rest a = (nxt, b) \<Longrightarrow> length (ag_handles a) \<le> length (ag_handles b)"
  by (auto simp: take_first_def dest!: handles_begin split: prod.splits)

lemma handles_turn_tail: "turn_tail c a = (r, b) \<Longrightarrow> length (ag_handles a) \<le> length (ag_handles b)"
  by (auto simp: turn_tail_def Let_def dest!: same_accepts_covered [THEN same_accepts_sel(4)] handles_take split: prod.splits list.splits)

lemma handles_compact_tail: "compact_tail sess a = (r, b) \<Longrightarrow> length (ag_handles a) \<le> length (ag_handles b)"
  by (auto simp: compact_tail_def dest!: same_accepts_covered [THEN same_accepts_sel(4)] handles_take split: prod.splits list.splits)

definition grows :: "dispatch_sys \<Rightarrow> dispatch_sys \<Rightarrow> bool" where
  "grows s t \<longleftrightarrow> length (ag_handles (ds_agent s)) \<le> length (ag_handles (ds_agent t))"

lemma grows_trans [trans]: "grows s t \<Longrightarrow> grows t u \<Longrightarrow> grows s u"
  by (simp add: grows_def)

lemma grows_thread: "grows s (thread_step i p act s)"
  apply (cases p)
  apply (auto simp: grows_def register_compaction_def Let_def
      dest!: same_accepts_drain [THEN same_accepts_sel(4)] dispatch_handles handles_turn_tail handles_compact_tail
      split: run_act.split prod.split option.split turn_end.split run_phase.split if_splits)
  done

lemma grows_free: "grows s (free_step s f)"
  by (cases f) (auto simp: grows_def send_message_def run_agent_failed_def
      dest!: handles_begin split: prod.split run_phase.split)

lemma grows_between: "grows s (foldl free_step s fs)"
proof (induction fs arbitrary: s)
  case (Cons f fs)
  have "grows s (free_step s f)" by (rule grows_free)
  also have "grows (free_step s f) (foldl free_step (free_step s f) fs)" by (rule Cons.IH)
  finally show ?case by simp
qed (simp add: grows_def)

lemma cover_tail:
  assumes "cover_ok a N D" and "queue_ok a" and "turn_tail c a = (r, b)" and "small b"
  shows "cover_ok b (opt_mset (case r of None \<Rightarrow> None
           | Some (nxt, owes) \<Rightarrow> map_option (\<lambda>h. (nxt, h)) (sc_accepted nxt)) + N) D"
proof -
  obtain qs d where d: "drop_covered (sc_session c) a = (qs, d)" by fastforce
  have ok: "cover_ok d N D" by (rule cover_frame [OF assms(1) same_accepts_covered [OF d]])
  show ?thesis
  proof (cases qs)
    case Nil
    with assms(3) d cover_idle [OF ok] show ?thesis by (auto simp: turn_tail_def)
  next
    case (Cons q rest)
    with queue_ok_covered(2) [OF assms(2) d] have "sc_session q = sc_session c" by (simp add: fits_def)
    with assms(3,4) d Cons show ?thesis
      by (auto simp: turn_tail_def Let_def split: prod.splits elim!: cover_take [OF ok])
  qed
qed

lemma cover_compact:
  assumes "cover_ok a N D" and "queue_ok a" and "compact_tail sess a = (r, b)" and "small b"
  shows "cover_ok b (opt_mset (case r of None \<Rightarrow> None
           | Some nxt \<Rightarrow> map_option (\<lambda>h. (nxt, h)) (sc_accepted nxt)) + N) D"
proof -
  obtain qs d where d: "drop_covered sess a = (qs, d)" by fastforce
  have ok: "cover_ok d N D" by (rule cover_frame [OF assms(1) same_accepts_covered [OF d]])
  show ?thesis
  proof (cases qs)
    case Nil
    with assms(3) d cover_idle [OF ok] show ?thesis by (auto simp: compact_tail_def)
  next
    case (Cons q rest)
    with queue_ok_covered(2) [OF assms(2) d] have "sc_session q = sess" by (simp add: fits_def)
    with assms(3,4) d Cons show ?thesis
      by (auto simp: compact_tail_def split: prod.splits elim!: cover_take [OF ok])
  qed
qed

lemma pending_after [simp]: "pending (after_compact owner ans) = None"
  by (cases "(owner, ans)" rule: after_compact.cases) simp_all

lemma cover_goto:
  assumes "cover_sys D s" and "i < length (ds_threads s)" and "same_accepts (ds_agent s) a"
    and "pending p = pending (ds_threads s ! i)"
  shows "cover_sys D (goto i p a s)"
proof -
  have "pendings ((ds_threads s)[i := p]) = pendings (ds_threads s)"
    by (rule gather_same [OF assms(2,4)])
  with assms cover_frame [of "ds_agent s" _ D a] show ?thesis
    by (auto simp: cover_sys_def same_accepts_sel(4))
qed

lemma same_accepts_twice [simp]:
  "same_accepts a (release_own k ctx (publish_run_complete c e a))"
  "same_accepts a (publish_canceled_queue_drops ds (del_queue k a))"
  by (simp_all add: same_accepts_def release_own_def del_active_def publish_run_complete_def)
    (simp_all add: same_accepts_sel [OF same_accepts_drops] del_queue_def)

lemma cover_agent: "cover_sys D s \<Longrightarrow> same_accepts (ds_agent s) a \<Longrightarrow> cover_sys D (with_agent a s)"
  using cover_frame [of "ds_agent s" _ D a] by (auto simp: cover_sys_def same_accepts_sel(4))

lemma cover_enter:
  assumes ok: "cover_sys D s" and i: "i < length (ds_threads s)"
    and p: "pending (ds_threads s ! i) = (case sc_accepted c of None \<Rightarrow> None | Some h \<Rightarrow> Some (c, h))"
    and d: "dispatch_call c (ds_agent s) = (q, a)"
  shows "cover_sys D (goto i q a s)"
  unfolding cover_sys_def sys_sel
proof
  assume "small a"
  then have "cover_ok (ds_agent s) (pendings (ds_threads s)) D"
    using ok dispatch_handles [OF d] by (simp add: cover_sys_def)
  moreover obtain N where "pendings (ds_threads s) = opt_mset (pending (ds_threads s ! i)) + N"
      "\<And>p. pendings ((ds_threads s)[i := p]) = opt_mset (pending p) + N"
    using gather_split [where f = pending, OF i] by blast
  ultimately show "cover_ok a (pendings ((ds_threads s)[i := q])) D"
    using cover_dispatch [of "ds_agent s" c N D q a] d p by simp
qed

lemma cover_thread:
  assumes ok: "cover_sys D s" and t: "tidy s" and i: "i < length (ds_threads s)" and p: "ds_threads s ! i = p"
  shows "cover_sys D (thread_step i p act s)"
proof -
  note cg = cover_goto [OF ok i] and ca = cover_agent [OF ok]
  have q: "queue_ok (ds_agent s)" using t by (simp add: tidy_def)
  show ?thesis
  proof (cases p)
    case (Waiting c)
    then show ?thesis using ok p cover_enter [OF ok i, of c] by (auto split: run_act.split prod.split)
  next
    case (Ready c)
    then show ?thesis using ok p cover_enter [OF ok i, of c] by (auto split: run_act.split prod.split)
  next
    case (Streaming c ctx)
    then show ?thesis using ok p
      by (auto split: run_act.split prod.split intro!: cg ca
          intro: same_accepts_trans [OF _ same_accepts_drops] dest: same_accepts_drain)
  next
    case (Released c ctx)
    obtain N where N: "pendings (ds_threads s) = N" "\<And>p. pendings ((ds_threads s)[i := p]) = opt_mset (pending p) + N"
      using gather_split [where f = pending, OF i] p Released by auto
    have "cover_ok a (opt_mset (case r of None \<Rightarrow> None
           | Some (nxt, owes) \<Rightarrow> map_option (\<lambda>h. (nxt, h)) (sc_accepted nxt)) + N) D"
      if r: "turn_tail c (ds_agent s) = (r, a)" and "small a" for r a
      using cover_tail [OF _ q r \<open>small a\<close>] ok handles_turn_tail [OF r] \<open>small a\<close> N(1) by (simp add: cover_sys_def)
    then show ?thesis using Released ok N
      by (auto simp: cover_sys_def option.case_eq_if map_option_case split: run_act.split prod.split option.split)
  next
    case (Compacting owner sess ctx)
    obtain N where N: "pendings (ds_threads s) = N" "\<And>p. pendings ((ds_threads s)[i := p]) = opt_mset (pending p) + N"
      using gather_split [where f = pending, OF i] p Compacting by auto
    have "cover_sys D (goto i (CompactDone owner sess ctx r) a s)"
      if r: "compact_tail sess (ds_agent s) = (r, a)" for r a
    proof -
      have "cover_ok a (opt_mset (case r of None \<Rightarrow> None
           | Some nxt \<Rightarrow> map_option (\<lambda>h. (nxt, h)) (sc_accepted nxt)) + N) D" if "small a"
        using cover_compact [OF _ q r that] ok handles_compact_tail [OF r] that N(1) by (simp add: cover_sys_def)
      then show ?thesis using N by (cases r) (auto simp: cover_sys_def map_option_case)
    qed
    then show ?thesis using Compacting ok p by (auto split: run_act.split prod.split intro!: cg)
  next
    case (CompactDone owner sess ctx nxt)
    obtain N where N: "pendings (ds_threads s) = opt_mset (pending p) + N"
        "\<And>p. pendings ((ds_threads s)[i := p]) = opt_mset (pending p) + N"
      using gather_split [where f = pending, OF i] p by auto
    have "cover_sys D (spawn (Ready c) (del_active sess (ds_agent s))
        (goto i (Joining owner n) (del_active sess (ds_agent s)) s))" if "nxt = Some c" for c n
      using ok N that CompactDone cover_frame [of "ds_agent s" _ D "del_active sess (ds_agent s)"]
      by (auto simp: cover_sys_def ac_simps)
    then show ?thesis using CompactDone ok p
      by (auto simp: Let_def split: run_act.split option.split intro!: cg)
  next
    case (Joining owner child)
    then show ?thesis using ok p by (auto split: run_act.split run_phase.split intro!: cg)
  next
    case (Overflowing owner sess)
    then show ?thesis using ok p
      by (auto simp: register_compaction_def split: run_act.split option.split if_splits intro!: cg)
  next
    case (HandingOff c ctx nxt owes)
    then show ?thesis using ok p
      by (auto split: run_act.split intro!: cg)
  next
    case (Ending c ctx how)
    then show ?thesis using ok p
      by (auto split: run_act.split turn_end.split intro!: cg)
  next
    case (Clearing sess qs)
    then show ?thesis using ok p
      by (auto split: run_act.split intro!: cg)
  qed (insert ok p, auto split: run_act.split turn_end.split intro!: cg)
qed

lemma cover_free:
  assumes "cover_sys D s"
  shows "cover_sys D (free_step s f)"
proof (cases f)
  case (FreeAccept closing c)
  let ?a = "ds_agent s"
  obtain h b where b: "begin_accepted (sc_session c) ?a = (h, b)" by fastforce
  let ?c = "c\<lparr>sc_accepted := Some h, sc_accept_seq := 0\<rparr>"
  have new: "cover_ok b (add_mset (?c, h) (pendings (ds_threads s))) D" if "small b"
    using cover_begin [OF _ b that, of _ D ?c] assms that handles_begin [OF b] by (simp add: cover_sys_def)
  with cover_close [of b ?c h "pendings (ds_threads s)" D] FreeAccept assms b show ?thesis
    by (auto simp: send_message_def cover_sys_def)
next
  case (FreeAbandon i canceled)
  show ?thesis
  proof (cases "i < length (ds_threads s) \<and> (\<exists>c. ds_threads s ! i = Waiting c)")
    case True
    then obtain c where i: "i < length (ds_threads s)" and c: "ds_threads s ! i = Waiting c" by blast
    obtain N where "pendings (ds_threads s) = opt_mset (pending (Waiting c)) + N"
        "\<And>p. pendings ((ds_threads s)[i := p]) = opt_mset (pending p) + N"
      using gather_split [where f = pending, OF i] c by metis
    with FreeAbandon assms i c show ?thesis
      by (auto simp: run_agent_failed_def cover_sys_def intro!: cover_close_opt intro: cover_frame)
  next
    case False
    with FreeAbandon assms show ?thesis by (auto simp: run_agent_failed_def split: run_phase.split)
  qed
qed

lemma doomed_free [simp]: "ds_doomed (free_step s f) = ds_doomed s"
  by (cases f) (auto simp: send_message_def run_agent_failed_def split: prod.split run_phase.split)

lemma doomed_thread [simp]: "ds_doomed (thread_step i p act s) = ds_doomed s"
  by (cases p) (auto simp: Let_def split: run_act.split prod.split option.split turn_end.split run_phase.split)

text \<open>While \<open>Cancel\<close> is between its halves no old reservation turns up anew.\<close>

lemma pendings_free:
  assumes "(c, h) \<in># pendings (ds_threads (free_step s f))" and "h < length (ag_handles (ds_agent s))"
  shows "(c, h) \<in># pendings (ds_threads s)"
proof (cases f)
  case (FreeAccept closing c')
  with assms show ?thesis
    by (auto simp: send_message_def begin_accepted_def Let_def split: if_splits)
next
  case (FreeAbandon i canceled)
  show ?thesis
  proof (cases "i < length (ds_threads s) \<and> (\<exists>c. ds_threads s ! i = Waiting c)")
    case True
    then obtain c' where i: "i < length (ds_threads s)" and c: "ds_threads s ! i = Waiting c'" by blast
    obtain N where "pendings (ds_threads s) = opt_mset (pending (Waiting c')) + N"
        "\<And>p. pendings ((ds_threads s)[i := p]) = opt_mset (pending p) + N"
      using gather_split [where f = pending, OF i] c by metis
    with FreeAbandon assms i c show ?thesis by (auto simp: run_agent_failed_def)
  next
    case False
    with FreeAbandon assms show ?thesis by (auto simp: run_agent_failed_def split: run_phase.splits if_splits)
  qed
qed

lemma pendings_between:
  "(c, h) \<in># pendings (ds_threads (foldl free_step s fs)) \<Longrightarrow> h < length (ag_handles (ds_agent s)) \<Longrightarrow>
     (c, h) \<in># pendings (ds_threads s)"
proof (induction fs arbitrary: s)
  case (Cons f fs)
  have "h < length (ag_handles (ds_agent (free_step s f)))"
    using Cons.prems(2) grows_free [of s f] by (simp add: grows_def)
  with Cons show ?case by (auto intro: pendings_free)
qed simp

lemma between_cover:
  "cover_sys D s \<Longrightarrow> cover_sys D (foldl free_step s fs) \<and> ds_doomed (foldl free_step s fs) = ds_doomed s"
proof (induction fs arbitrary: s)
  case (Cons f fs)
  then show ?case using cover_free [of D s f] Cons.IH [of "free_step s f"] by simp
qed simp

lemma cover_cancel_write:
  assumes ok: "cover_ok a M D" and "small a"
    and n: "n \<le> length (ag_handles a)" and mark: "mark = of_nat n"
    and D': "\<And>h. h \<in> set D' \<longleftrightarrow> h \<in> set D \<or> (\<exists>c. (c, h) \<in># MR \<and> sc_session c = sess)"
    and MR: "\<And>c h. (c, h) \<in># M \<Longrightarrow> h < n \<Longrightarrow> (c, h) \<in># MR"
    and old: "\<And>c h. (c, h) \<in># MR \<Longrightarrow> h < n \<and> (sc_session c = sess \<longrightarrow> accs > 0)"
    and same: "\<And>c c' h. (c, h) \<in># MR \<Longrightarrow> (c', h) \<in># MR \<Longrightarrow> sc_session c = sc_session c'"
  shows "cover_ok (cancel_write sess (accs, mark) a) M D'"
proof -
  let ?ex = "case map_of (ag_marks a) sess of None \<Rightarrow> 0 | Some m \<Rightarrow> m"
  let ?b = "if accs > 0 then a\<lparr>ag_marks := AList.update sess (max ?ex mark) (ag_marks a)\<rparr> else a"
  have aok: "accept_ok a" using ok by (simp add: cover_ok_def)
  have nle: "(of_nat n :: u64) \<le> of_nat (length (ag_handles a))" using of_nat_u64_le n \<open>small a\<close> by simp
  have bok: "accept_ok ?b"
    using aok nle unfolding accept_ok_def mark
    by (auto simp: accepted_count_def split: option.splits if_splits)
  have sel: "ag_handles ?b = ag_handles a" by simp
  have "held ?b c h \<and> (covers ?b c h \<longleftrightarrow> h \<in> set D')" if "(c, h) \<in># M" for c h
  proof
    have ch: "held a c h" "covers a c h \<longleftrightarrow> h \<in> set D" using ok that by (auto simp: cover_ok_def)
    then show "held ?b c h" by (simp add: held_def)
    have h: "h < length (ag_handles a)" using ch(1) by (simp add: held_def)
    have D'h: "h \<in> set D' \<longleftrightarrow> h \<in> set D \<or> h < n \<and> sc_session c = sess"
      using D' [of h] MR [OF that] old same [of c h] by auto
    show "covers ?b c h \<longleftrightarrow> h \<in> set D'"
    proof (cases "accs > 0 \<and> sc_session c = sess")
      case True
      have "covers ?b c h \<longleftrightarrow> of_nat (Suc h) \<le> max ?ex mark"
        unfolding covers_iff [OF bok, unfolded sel, OF \<open>small a\<close> h] using True by simp
      also have "\<dots> \<longleftrightarrow> of_nat (Suc h) \<le> ?ex \<or> of_nat (Suc h) \<le> (of_nat n :: u64)"
        by (simp only: le_max_iff_disj mark)
      also have "(of_nat (Suc h) \<le> (of_nat n :: u64)) \<longleftrightarrow> h < n"
        using of_nat_u64_le [of n "Suc h"] n h \<open>small a\<close> by (simp del: of_nat_Suc add: Suc_le_eq)
      also have "(of_nat (Suc h) \<le> ?ex) \<longleftrightarrow> covers a c h"
        unfolding covers_iff [OF aok \<open>small a\<close> h] using True of_nat_u64_pos [of "Suc h"] h \<open>small a\<close>
        by (auto simp del: of_nat_Suc split: option.splits)
      finally show ?thesis using D'h ch(2) True by blast
    next
      case False
      have "covers ?b c h \<longleftrightarrow> covers a c h"
        using False by (cases "accs > 0") (auto simp: covers_def canceled_by_seq_def handle_seq_def)
      moreover have "h \<in> set D' \<longleftrightarrow> h \<in> set D"
        using D'h False old MR [OF that] by auto
      ultimately show ?thesis using ch(2) by simp
    qed
  qed
  moreover have "\<forall>h\<in>set D'. h < length (ag_handles a)"
    using D' old n ok by (fastforce simp: cover_ok_def)
  ultimately have "cover_ok ?b M D'" using bok ok by (auto simp: cover_ok_def)
  moreover have "same_accepts ?b (cancel_write sess (accs, mark) a)"
    by (simp add: cancel_write_def Let_def)
  ultimately show ?thesis by (rule cover_frame)
qed

lemma cover_cancel:
  assumes ok: "cover_sys (ds_doomed s) s"
  shows "cover_sys (ds_doomed (cancel_session sess between s)) (cancel_session sess between s)"
proof -
  obtain accs mark a where cm: "cancel_read sess (ds_agent s) = ((accs, mark), a)" by (metis surj_pair)
  let ?D = "pending_handles sess (ds_threads s) @ ds_doomed s"
  let ?s = "s\<lparr>ds_agent := a, ds_doomed := ?D\<rparr>"
  define t where "t = foldl free_step ?s between"
  have t: "cancel_session sess between s = with_agent (cancel_write sess (accs, mark) (ds_agent t)) t"
    by (simp add: cancel_session_def cm t_def Let_def)
  have same: "same_accepts (ds_agent s) a" and cnt: "accs = accepted_count (ds_agent s) sess"
    and mk: "mark = ag_seq_gen (ds_agent s)"
    using cm by (auto simp: cancel_read_def split: option.splits)
  have "cover_sys (ds_doomed s) ?s"
    using ok cover_frame [OF _ same] by (simp add: cover_sys_def same_accepts_sel(4) [OF same])
  then have tok: "cover_sys (ds_doomed s) t" and td: "ds_doomed t = ?D"
    using between_cover [of "ds_doomed s" ?s between] by (simp_all add: t_def)
  have hs: "length (ag_handles (ds_agent s)) \<le> length (ag_handles (ds_agent t))"
    using grows_between [of ?s between] by (simp add: grows_def t_def same_accepts_sel(4) [OF same])
  have "cover_ok (cancel_write sess (accs, mark) (ds_agent t)) (pendings (ds_threads t)) ?D"
    if small: "small (ds_agent t)"
  proof -
    let ?n = "length (ag_handles (ds_agent s))"
    have sok: "cover_ok (ds_agent s) (pendings (ds_threads s)) (ds_doomed s)"
      using ok small hs by (simp add: cover_sys_def)
    show ?thesis
    proof (rule cover_cancel_write [where n = "length (ag_handles (ds_agent s))" and MR = "pendings (ds_threads s)" and D = "ds_doomed s"])
      show "cover_ok (ds_agent t) (pendings (ds_threads t)) (ds_doomed s)"
        using tok small by (simp add: cover_sys_def)
      show "mark = of_nat ?n" using sok mk by (simp add: cover_ok_def accept_ok_def)
      show "h \<in> set ?D \<longleftrightarrow> h \<in> set (ds_doomed s) \<or> (\<exists>c. (c, h) \<in># pendings (ds_threads s) \<and> sc_session c = sess)" for h
        by (auto simp: pending_handles_mem)
      show "(c, h) \<in># pendings (ds_threads t) \<Longrightarrow> h < ?n \<Longrightarrow> (c, h) \<in># pendings (ds_threads s)" for c h
        using pendings_between [of c h ?s between] by (simp add: t_def same_accepts_sel(4) [OF same])
      fix c h
      assume "(c, h) \<in># pendings (ds_threads s)"
      then have held: "held (ds_agent s) c h" using sok by (auto simp: cover_ok_def)
      moreover have "accepted_count (ds_agent s) (sc_session c) = open_handles (sc_session c) (ag_handles (ds_agent s))"
        using sok by (simp add: cover_ok_def accept_ok_def)
      ultimately show "h < ?n \<and> (sc_session c = sess \<longrightarrow> accs > 0)"
        using held_open [OF held] cnt by (auto simp: held_def)
    next
      fix c c' h
      assume "(c, h) \<in># pendings (ds_threads s)" and "(c', h) \<in># pendings (ds_threads s)"
      with sok have "held (ds_agent s) c h" "held (ds_agent s) c' h" by (auto simp: cover_ok_def)
      then show "sc_session c = sc_session c'" by (simp add: held_def)
    qed (use small hs in simp_all)
  qed
  then show ?thesis by (simp add: t td cover_sys_def)
qed

lemma same_accepts_clear_queue [simp]: "same_accepts a (clear_queue sess a)"
  by (simp add: clear_queue_def)

definition cover_inv :: "dispatch_sys \<Rightarrow> bool" where
  "cover_inv s \<longleftrightarrow> tidy s \<and> cover_sys (ds_doomed s) s"

lemma cover_spawn:
  "cover_sys D s \<Longrightarrow> pending p = None \<Longrightarrow> cover_sys D (spawn p (ds_agent s) s)"
  by (simp add: cover_sys_def)

lemma cover_step: "cover_inv s \<Longrightarrow> cover_inv (sys_step s e)"
proof -
  assume "cover_inv s"
  then have t: "tidy s" and ok: "cover_sys (ds_doomed s) s" by (simp_all add: cover_inv_def)
  have "cover_sys (ds_doomed (sys_step s e)) (sys_step s e)"
  proof (cases e)
    case (CancelSession sess between)
    then show ?thesis using cover_cancel [OF ok] by simp
  qed (use ok t in \<open>auto intro: cover_free cover_thread cover_agent cover_spawn\<close>)
  with tidy_step [OF t] show ?thesis by (simp add: cover_inv_def)
qed

interpretation cover: safe_system sys_step cover_inv
  by unfold_locales (rule cover_step)

lemma cover_init: "cover_inv sys_init"
  by (auto simp: cover_inv_def tidy_init)
    (simp add: cover_sys_def cover_ok_def accept_ok_def sys_init_def accepted_count_def open_handles_def)

lemma dispatch_cancelled_iff:
  "validate_call c = None \<Longrightarrow> sc_accepted c = Some h \<Longrightarrow>
     fst (dispatch_call c a) = EntryCancelled c \<longleftrightarrow> covers a c h"
  by (auto simp: dispatch_call_def covers_def Let_def)

text \<open>The calls that have not reached the dispatch decision, at the top of \<open>Run\<close>'s loop.\<close>

fun at_dispatch :: "run_phase \<Rightarrow> session_call option" where
  "at_dispatch (Waiting c) = Some c"
| "at_dispatch (Ready c) = Some c"
| "at_dispatch _ = None"

text \<open>
  C1: A cancel covers exactly the prompts accepted before it. However goroutines, cancels, queue
  handoffs, compactions and failures interleave (reservations taken and released in the middle of a
  cancel included), a prompt with a reservation that reaches its dispatch decision is cancelled on
  entry if and only if a \<open>Cancel\<close> of its session began while it was waiting for that decision: a
  cancel is never lost, not even when another run is active or a sibling took the mark first, and
  it never poisons a prompt accepted later. (Fewer than \<open>2 ^ 64\<close> reservations: the sequence is a
  \<open>uint64\<close>.)
\<close>

theorem cancel_covers_earlier_prompts:
  assumes run: "s = foldl sys_step sys_init es"
    and few: "length (ag_handles (ds_agent s)) < 2 ^ 64"
    and i: "i < length (ds_threads s)" "at_dispatch (ds_threads s ! i) = Some c"
    and c: "sc_accepted c = Some h" "validate_call c = None"
  shows "ds_threads (sys_step s (Act i Enter)) ! i = EntryCancelled c \<longleftrightarrow> h \<in> set (ds_doomed s)"
proof -
  have "cover_inv s" unfolding run by (rule cover.run_good [OF cover_init])
  with few have ok: "cover_ok (ds_agent s) (pendings (ds_threads s)) (ds_doomed s)"
    by (simp add: cover_inv_def cover_sys_def)
  have p: "pending (ds_threads s ! i) = Some (c, h)"
    using i(2) c(1) by (cases "ds_threads s ! i") simp_all
  have "ds_threads (sys_step s (Act i Enter)) ! i = fst (dispatch_call c (ds_agent s))"
    using i by (cases "ds_threads s ! i") (auto split: prod.split)
  with dispatch_cancelled_iff [OF c(2,1)] gather_member [where f = pending, OF i(1) p] ok show ?thesis
    by (auto simp: cover_ok_def)
qed

text \<open>Two prompts, a cancel, and a third prompt accepted while the first is still waiting.\<close>

definition demo_call :: "string \<Rightarrow> string \<Rightarrow> session_call" where
  "demo_call rid words = \<lparr>sc_session = ''s'', sc_run_id = rid, sc_prompt = words, sc_text_attachment = False,
     sc_on_complete = False, sc_accepted = None, sc_accept_seq = 0, sc_repair_attempts = 0,
     sc_run_stamp = 0, sc_soft_retried = False\<rparr>"

definition demo_cancel :: "sys_event list" where
  "demo_cancel = [Free (FreeAccept False (demo_call ''r1'' ''one'')),
     Free (FreeAccept False (demo_call ''r2'' ''two'')),
     CancelSession ''s'' [FreeAccept False (demo_call ''r3'' ''three'')], Act 1 Enter]"

definition demo_cancelled :: dispatch_sys where
  "demo_cancelled = foldl sys_step sys_init demo_cancel"

lemma demo_cancelled_facts:
  "length (ag_handles (ds_agent demo_cancelled)) = 3"
  "length (ds_threads demo_cancelled) = 3" "ds_doomed demo_cancelled = [0, 1]"
  "at_dispatch (ds_threads demo_cancelled ! 0) = Some ((demo_call ''r1'' ''one'')\<lparr>sc_accepted := Some 0\<rparr>)"
  "at_dispatch (ds_threads demo_cancelled ! 2) = Some ((demo_call ''r3'' ''three'')\<lparr>sc_accepted := Some 2\<rparr>)"
  by code_simp+

lemma demo_cancelled_few: "length (ag_handles (ds_agent demo_cancelled)) < 2 ^ 64"
  by (simp add: demo_cancelled_facts)

theorem cancel_covers_earlier_prompts_witness:
  "ds_threads (sys_step demo_cancelled (Act 0 Enter)) ! 0 =
     EntryCancelled ((demo_call ''r1'' ''one'')\<lparr>sc_accepted := Some 0\<rparr>) \<and>
   ds_threads (sys_step demo_cancelled (Act 2 Enter)) ! 2 \<noteq>
     EntryCancelled ((demo_call ''r3'' ''three'')\<lparr>sc_accepted := Some 2\<rparr>)"
  using cancel_covers_earlier_prompts [OF demo_cancelled_def demo_cancelled_few, of 0 _ 0]
    cancel_covers_earlier_prompts [OF demo_cancelled_def demo_cancelled_few, of 2 _ 2]
  by (simp add: demo_cancelled_facts demo_call_def validate_call_def)

subsection \<open>One run per session\<close>

text \<open>
  What a goroutine has registered: its context, and the session whose entry it owns. A context
  outlives its entry until the deferred \<open>CompareAndDelete\<close>.
\<close>

fun token :: "run_phase \<Rightarrow> (nat \<times> string option) option" where
  "token (Streaming c ctx) = Some (ctx, Some (sc_session c))"
| "token (Released c ctx) = Some (ctx, None)"
| "token (HandingOff c ctx nxt owes) = Some (ctx, None)"
| "token (Ending c ctx how) =
     Some (ctx, case how of Completed \<Rightarrow> None | Failed canceled \<Rightarrow> Some (sc_session c))"
| "token (Compacting owner sess ctx) = Some (ctx, Some sess)"
| "token (CompactLeaving owner sess ctx ans) = Some (ctx, Some sess)"
| "token (CompactDone owner sess ctx nxt) = Some (ctx, Some sess)"
| "token _ = None"

definition runs_session :: "string \<Rightarrow> run_phase \<Rightarrow> bool" where
  "runs_session sess p \<longleftrightarrow> (case token p of None \<Rightarrow> False | Some (ctx, owner) \<Rightarrow> owner = Some sess)"

text \<open>The phases a compaction in the middle of a turn leads to.\<close>

fun in_auto_compaction :: "run_phase \<Rightarrow> bool" where
  "in_auto_compaction (Overflowing owner sess) = (owner \<noteq> None)"
| "in_auto_compaction (Compacting owner sess ctx) = (owner \<noteq> None)"
| "in_auto_compaction (CompactLeaving owner sess ctx ans) = (owner \<noteq> None)"
| "in_auto_compaction (CompactDone owner sess ctx nxt) = (owner \<noteq> None)"
| "in_auto_compaction (Joining owner child) = (owner \<noteq> None)"
| "in_auto_compaction (Finishing c ctx again) = True"
| "in_auto_compaction (Requeueing c ctx qs) = True"
| "in_auto_compaction _ = False"

definition single_ok :: "agent_state \<Rightarrow> (nat \<times> string option) multiset \<Rightarrow> bool" where
  "single_ok a T \<longleftrightarrow>
     (\<forall>sess ctx. map_of (ag_active a) sess = Some ctx \<longleftrightarrow> (ctx, Some sess) \<in># T) \<and>
     (\<forall>ctx. count (image_mset fst T) ctx \<le> 1) \<and>
     (\<forall>t\<in>#T. fst t < ag_next_ctx a)"

definition same_active :: "agent_state \<Rightarrow> agent_state \<Rightarrow> bool" where
  "same_active a b \<longleftrightarrow> ag_active b = ag_active a \<and> ag_next_ctx b = ag_next_ctx a"

lemma same_active_refl [simp]: "same_active a a"
  by (simp add: same_active_def)

lemma same_active_trans: "same_active a b \<Longrightarrow> same_active b c \<Longrightarrow> same_active a c"
  by (simp add: same_active_def)

lemma same_active_ops [simp]:
  "same_active a (set_queue sess qs a)" "same_active a (del_queue sess a)"
  "same_active a (publish_run_complete c e a)" "same_active a (enqueue_call c a)"
  "same_active a (queue_retry c ctx t a)" "same_active a (end_accepted sess a)"
  "same_active a (a\<lparr>ag_marks := m\<rparr>)" "same_active a (a\<lparr>ag_cancelled := y\<rparr>)"
  "same_active a (a\<lparr>ag_handles := hs\<rparr>)"
  by (simp_all add: same_active_def set_queue_def del_queue_def publish_run_complete_def end_accepted_def
      enqueue_call_def queue_retry_def Let_def split: option.split)

lemma same_active_drops [simp]: "same_active a (publish_canceled_queue_drops ds a)"
proof (induction ds arbitrary: a)
  case (Cons d ds)
  show ?case by (auto intro: same_active_trans [OF _ Cons.IH])
qed simp

lemma same_active_clear [simp]: "same_active a (clear_queue_and_notify sess a)"
  by (auto simp: clear_queue_and_notify_def split: option.split
      intro: same_active_trans [OF _ same_active_drops])

lemma same_active_close [simp]: "same_active a (close_accepted ho a)"
  by (auto simp: close_accepted_def split: option.split intro: same_active_trans [OF _ same_active_ops(6)])

lemma same_active_sel:
  "same_active a b \<Longrightarrow> ag_active b = ag_active a" "same_active a b \<Longrightarrow> ag_next_ctx b = ag_next_ctx a"
  by (simp_all add: same_active_def)

lemma same_active_covered: "drop_covered sess a = (qs, b) \<Longrightarrow> same_active a b"
  by (auto simp: drop_covered_def Let_def split: option.splits prod.splits if_splits
      intro: same_active_trans [OF _ same_active_drops])

lemma same_active_idle: "same_active a (settle_idle sess a)"
  by (simp add: same_active_def settle_idle_def del_queue_def Let_def)

lemma same_active_take: "take_first sess q rest a = (nxt, b) \<Longrightarrow> same_active a b"
  by (simp add: same_active_def take_first_sel)

lemma same_active_tails:
  "turn_tail c a = (r, b) \<Longrightarrow> same_active a b" "compact_tail sess a = (r', b) \<Longrightarrow> same_active a b"
  by (auto simp: turn_tail_def compact_tail_def Let_def split: prod.splits list.splits
      dest!: same_active_covered same_active_take
      intro: same_active_trans same_active_trans [OF _ same_active_idle])

lemma same_active_drain: "drain_queue_for_step sess a = (f, d, b) \<Longrightarrow> same_active a b"
  by (auto simp: drain_queue_for_step_def Let_def split: prod.splits if_splits)

lemma single_frame: "single_ok a T \<Longrightarrow> same_active a b \<Longrightarrow> single_ok b T"
  by (simp add: single_ok_def same_active_def)

lemma single_apart: "single_ok a (add_mset (x, v) T) \<Longrightarrow> (x, w) \<notin># T"
  by (auto simp: single_ok_def dest!: spec [of _ x] multi_member_split)

lemma single_active: "single_ok a T \<Longrightarrow> map_of (ag_active a) k = Some x \<longleftrightarrow> (x, Some k) \<in># T"
  by (simp add: single_ok_def)

lemma single_counts:
  assumes "single_ok a (add_mset t T)"
  shows "count (image_mset fst T) x \<le> 1"
proof -
  have "count (image_mset fst T) x \<le> count (image_mset fst (add_mset t T)) x" by simp
  also have "\<dots> \<le> 1" using assms by (simp only: single_ok_def)
  finally show ?thesis .
qed

lemma single_register:
  assumes ok: "single_ok a T" and idle: "map_of (ag_active a) k = None"
    and b: "ag_active b = AList.update k (ag_next_ctx a) (ag_active a)" "ag_next_ctx b = ag_next_ctx a + 1"
  shows "single_ok b (add_mset (ag_next_ctx a, Some k) T)"
proof -
  have new: "(ag_next_ctx a, v) \<notin># T" for v using ok by (auto simp: single_ok_def)
  then have "count (image_mset fst T) (ag_next_ctx a) = 0" by (force simp: count_eq_zero_iff)
  moreover have "(y, Some k) \<notin># T" for y using single_active [OF ok] idle by (metis option.distinct(1))
  ultimately show ?thesis using ok b new
    by (auto simp: single_ok_def)
qed

lemma single_release:
  assumes ok: "single_ok a (add_mset (x, Some k) T)"
  shows "single_ok (del_active k a) T" and "single_ok (del_active k a) (add_mset (x, None) T)"
proof -
  have x: "map_of (ag_active a) k = Some x" using ok by (simp add: single_ok_def)
  have "(y, Some k) \<notin># T" for y
    using single_active [OF ok, of k y] x single_apart [OF ok, of "Some k"] by auto
  then have "map_of (ag_active (del_active k a)) s = Some y \<longleftrightarrow> (y, Some s) \<in># T" for s y
    using ok by (auto simp: single_ok_def del_active_def)
  with single_counts [OF ok] ok
  show "single_ok (del_active k a) T" "single_ok (del_active k a) (add_mset (x, None) T)"
    by (auto simp: single_ok_def del_active_def)
qed

lemma single_own: "single_ok a (add_mset (x, Some k) T) \<Longrightarrow> single_ok (release_own k x a) T"
  using single_release(1) [of a x k T] by (auto simp: release_own_def) (simp add: single_ok_def)

lemma single_stale: "single_ok a (add_mset (x, None) T) \<Longrightarrow> single_ok (release_own k x a) T"
  using single_apart [of a x None T] single_counts [of a "(x, None)" T]
  by (auto simp: release_own_def single_ok_def)

lemma single_dispatch:
  assumes ok: "single_ok a T" and d: "dispatch_call c a = (p, b)"
  shows "single_ok b (opt_mset (token p) + T)"
proof -
  have "single_ok (close_accepted ho b') T" if "same_active a b'" for ho b'
    by (rule single_frame [OF single_frame [OF ok that]]) simp
  moreover have "single_ok (close_accepted ho b') (add_mset (ag_next_ctx a, Some (sc_session c)) T)"
    if "\<not> is_session_busy a (sc_session c)"
      "ag_active b' = AList.update (sc_session c) (ag_next_ctx a) (ag_active a)"
      "ag_next_ctx b' = ag_next_ctx a + 1" for ho b'
    by (rule single_frame [OF single_register [OF ok _ that(2,3)]])
      (use that(1) in \<open>simp_all add: is_session_busy_def\<close>)
  ultimately show ?thesis using ok d
    by (auto simp: dispatch_call_def Let_def split: if_splits)
qed

definition single_sys :: "dispatch_sys \<Rightarrow> bool" where
  "single_sys s \<longleftrightarrow> single_ok (ds_agent s) (gather token (ds_threads s)) \<and>
     \<not> list_ex in_auto_compaction (ds_threads s)"

lemma single_goto:
  assumes s: "single_sys s" and i: "i < length (ds_threads s)" and p: "\<not> in_auto_compaction p"
    and ok: "\<And>T. single_ok (ds_agent s) (opt_mset (token (ds_threads s ! i)) + T) \<Longrightarrow>
      single_ok a (opt_mset (token p) + T)"
  shows "single_sys (goto i p a s)"
proof -
  obtain T where "gather token (ds_threads s) = opt_mset (token (ds_threads s ! i)) + T"
      "gather token ((ds_threads s)[i := p]) = opt_mset (token p) + T"
    using gather_split [where f = token, OF i] by metis
  moreover have "\<not> list_ex in_auto_compaction ((ds_threads s)[i := p])"
    using s p by (auto simp: single_sys_def list_ex_iff dest!: set_update_subset_insert [THEN subsetD])
  ultimately show ?thesis using s ok by (simp add: single_sys_def)
qed

lemma single_agent: "single_sys s \<Longrightarrow> same_active (ds_agent s) a \<Longrightarrow> single_sys (with_agent a s)"
  by (auto simp: single_sys_def intro: single_frame)

lemma single_spawn:
  "single_sys s \<Longrightarrow> same_active (ds_agent s) a \<Longrightarrow> token p = None \<Longrightarrow> \<not> in_auto_compaction p \<Longrightarrow>
     single_sys (spawn p a s)"
  by (auto simp: single_sys_def intro: single_frame)

fun overflows :: "sys_event \<Rightarrow> bool" where
  "overflows (Act i Overflow) = True"
| "overflows _ = False"

lemma in_auto_dispatch: "dispatch_call c a = (p, b) \<Longrightarrow> \<not> in_auto_compaction p"
  by (auto simp: dispatch_call_def Let_def split: if_splits)

lemma single_thread:
  assumes s: "single_sys s" and i: "i < length (ds_threads s)" and p: "ds_threads s ! i = p"
    and act: "act \<noteq> Overflow"
  shows "single_sys (thread_step i p act s)"
proof -
  note sg = single_goto [OF s i] and sa = single_agent [OF s]
  have notauto: "\<not> in_auto_compaction p" using s i p by (auto simp: single_sys_def list_ex_length)
  show ?thesis
  proof (cases p)
    case (Waiting c)
    then show ?thesis using s p
      by (auto split: run_act.split prod.split intro!: sg dest: single_dispatch simp: in_auto_dispatch)
  next
    case (Ready c)
    then show ?thesis using s p
      by (auto split: run_act.split prod.split intro!: sg dest: single_dispatch simp: in_auto_dispatch)
  next
    case (Streaming c ctx)
    have "same_active (ds_agent s) (publish_canceled_queue_drops d b)"
      if "drain_queue_for_step (sc_session c) (ds_agent s) = (f, d, b)" for f d b
      using same_active_trans [OF same_active_drain [OF that]] by simp
    then show ?thesis using s p act Streaming
      by (auto split: run_act.split prod.split intro!: sg sa dest: single_release)
  next
    case (Released c ctx)
    then show ?thesis using s p
      by (auto split: run_act.split prod.split option.split intro!: sg
          dest: single_frame [OF _ same_active_tails(1)])
  next
    case (HandingOff c ctx nxt owes)
    then show ?thesis using s p
      by (auto split: run_act.split intro!: sg single_stale dest: single_frame [OF _ same_active_ops(3)])
  next
    case (Ending c ctx how)
    then show ?thesis using s p
      by (cases how) (auto split: run_act.split intro!: sg intro: single_stale [OF single_frame [OF _ same_active_ops(3)]]
          single_own [OF single_frame [OF _ same_active_ops(3)]])
  next
    case (Overflowing owner sess)
    then show ?thesis using s p notauto
      by (cases owner) (auto simp: register_compaction_def is_session_busy_def split: run_act.split option.split if_splits
          intro!: sg single_register)
  next
    case (Compacting owner sess ctx)
    then show ?thesis using s p notauto
      by (auto split: run_act.split prod.split intro!: sg
          dest: single_frame [OF _ same_active_tails(2)] single_frame [OF _ same_active_clear])
  next
    case (CompactDone owner sess ctx nxt)
    have one: "single_sys (goto i q (del_active sess (ds_agent s)) s)"
      if "token q = None" "\<not> in_auto_compaction q" for q
      by (rule sg) (use that p CompactDone in \<open>auto dest: single_release\<close>)
    have "single_sys (spawn (Ready c) (del_active sess (ds_agent s)) (goto i q (del_active sess (ds_agent s)) s))"
      if "token q = None" "\<not> in_auto_compaction q" for q c
      by (rule single_spawn [OF one [OF that]]) simp_all
    with one show ?thesis using CompactDone s notauto
      by (cases owner) (auto simp: Let_def split: run_act.split option.split)
  next
    case (Joining owner child)
    then show ?thesis using s p notauto
      by (cases owner) (auto split: run_act.split run_phase.split intro!: sg)
  next
    case (CompactLeaving owner sess ctx ans)
    then show ?thesis using s p notauto
      by (cases owner) (auto split: run_act.split intro!: sg single_own)
  next
    case (EntryCancelled c)
    then show ?thesis using s p
      by (auto split: run_act.split intro!: sg dest: single_frame [OF _ same_active_ops(3)])
  next
    case (ClearingUp c)
    then show ?thesis using s p
      by (auto split: run_act.split intro!: sg dest: single_frame [OF _ same_active_clear])
  next
    case (Clearing sess qs)
    then show ?thesis using s p
      by (auto split: run_act.split intro!: sg
          dest: single_frame [OF _ same_active_trans [OF same_active_ops(2) same_active_drops]])
  qed (use s notauto in simp_all)
qed

lemma same_active_cancel:
  "cancel_read sess a = (cm, b) \<Longrightarrow> same_active a b" "same_active a (cancel_write sess cm a)"
  by (auto simp: cancel_read_def cancel_write_def Let_def split: option.splits prod.split
      intro: same_active_trans [OF same_active_ops(7) same_active_clear])

lemma single_free: "single_sys s \<Longrightarrow> single_sys (free_step s f)"
proof (cases f)
  case (FreeAccept closing c)
  moreover have "same_active (ds_agent s) b" if "begin_accepted sess (ds_agent s) = (h, b)" for sess h b
    using begin_accepted_sel [OF that] by (simp add: same_active_def)
  moreover assume "single_sys s"
  ultimately show ?thesis
    by (auto simp: send_message_def split: prod.split intro!: single_agent single_spawn
        intro: same_active_trans [OF _ same_active_close])
next
  case (FreeAbandon i canceled)
  moreover assume "single_sys s"
  ultimately show ?thesis
    by (auto simp: run_agent_failed_def split: run_phase.split intro!: single_goto
        dest: single_frame [OF _ same_active_close]
          single_frame [OF _ same_active_trans [OF same_active_ops(3) same_active_close]])
qed

lemma single_between: "single_sys s \<Longrightarrow> single_sys (foldl free_step s fs)"
  by (induction fs arbitrary: s) (auto intro: single_free)

lemma single_step:
  assumes s: "single_sys s" and e: "\<not> overflows e"
  shows "single_sys (sys_step s e)"
proof (cases e)
  case (CancelSession sess between)
  obtain cm a where cm: "cancel_read sess (ds_agent s) = (cm, a)" by fastforce
  let ?s = "s\<lparr>ds_agent := a, ds_doomed := pending_handles sess (ds_threads s) @ ds_doomed s\<rparr>"
  have "single_sys ?s"
    using s single_frame [OF _ same_active_cancel(1) [OF cm]] by (simp add: single_sys_def)
  then have "single_sys (foldl free_step ?s between)" by (rule single_between)
  then show ?thesis using CancelSession cm
    by (simp add: cancel_session_def Let_def single_agent [OF _ same_active_cancel(2)])
next
  case (Act i act)
  with e have "act \<noteq> Overflow" by auto
  with Act s show ?thesis by (auto intro: single_thread)
qed (use s in \<open>auto simp: clear_queue_def intro: single_free single_spawn single_agent\<close>)

text \<open>A step that is only taken when \<open>allow\<close> admits the event.\<close>

definition sys_step_if :: "(sys_event \<Rightarrow> bool) \<Rightarrow> dispatch_sys \<Rightarrow> sys_event \<Rightarrow> dispatch_sys" where
  "sys_step_if allow s e = (if allow e then sys_step s e else s)"

lemma run_step_if: "list_all allow es \<Longrightarrow> foldl (sys_step_if allow) s es = foldl sys_step s es"
  by (induction es arbitrary: s) (simp_all add: sys_step_if_def)

interpretation single: safe_system "sys_step_if (\<lambda>e. \<not> overflows e)" single_sys
  by unfold_locales (simp add: sys_step_if_def single_step)

lemma single_init: "single_sys sys_init"
  by (simp add: single_sys_def single_ok_def sys_init_def)

lemma runs_session_count:
  "length (filter (runs_session sess) ps) = size {#t \<in># gather token ps. snd t = Some sess#}"
  by (induction ps) (auto simp: runs_session_def opt_mset_def split: option.splits)

text \<open>
  C4: One run per session. As long as no turn compacts the session in its middle, at every moment
  the session's entry in \<open>activeRequests\<close> is there exactly if a goroutine runs the session (a turn,
  or a manual compaction), and then exactly one does: however prompts, retries, cancels, failing
  turns and queue handoffs interleave, two never run at once, and no deferred clean-up of an old
  run removes the entry of a new one.
\<close>

theorem one_run_per_session:
  assumes run: "s = foldl sys_step sys_init es" and plain: "list_all (\<lambda>e. \<not> overflows e) es"
  shows "length (filter (runs_session sess) (ds_threads s)) =
    (if is_session_busy (ds_agent s) sess then 1 else 0)"
proof -
  have "single_sys s"
    using single.run_good [OF single_init, of es] run_step_if [OF plain] by (simp add: run)
  then have ok: "single_ok (ds_agent s) (gather token (ds_threads s))" (is "single_ok _ ?T")
    by (simp add: single_sys_def)
  let ?M = "{#t \<in># ?T. snd t = Some sess#}"
  show ?thesis
  proof (cases "map_of (ag_active (ds_agent s)) sess")
    case None
    then have "(x, Some sess) \<notin># ?T" for x using single_active [OF ok] by (metis option.distinct(1))
    then have "?M = {#}" by (auto simp: filter_mset_eq_conv multiset_eq_iff count_eq_zero_iff)
    with None show ?thesis by (simp add: runs_session_count is_session_busy_def)
  next
    case (Some x)
    then obtain T where T: "?T = add_mset (x, Some sess) T"
      using single_active [OF ok] by (metis multi_member_split)
    have "(y, Some sess) \<notin># T" for y
      using single_active [OF ok, of sess y] Some T single_apart [OF ok [unfolded T]] by auto
    then have "{#t \<in># T. snd t = Some sess#} = {#}"
      by (auto simp: filter_mset_eq_conv multiset_eq_iff count_eq_zero_iff)
    with Some T show ?thesis by (simp add: runs_session_count is_session_busy_def)
  qed
qed

text \<open>A prompt runs, two more queue behind it, and the queue is handed on.\<close>

definition demo_handoff :: "sys_event list" where
  "demo_handoff = [Free (FreeAccept False (demo_call ''r1'' ''one'')), Act 0 Enter,
     Free (FreeAccept False (demo_call ''r2'' ''two'')), Act 1 Enter, Submit (demo_call [] ''three''), Act 2 Enter,
     Act 0 Release, Act 0 TakeTail, Act 0 (HandOff False), Act 0 Enter, Act 0 Drain]"

theorem one_run_per_session_witness:
  "length (filter (runs_session ''s'') (ds_threads (foldl sys_step sys_init demo_handoff))) = 1"
proof -
  have "list_all (\<lambda>e. \<not> overflows e) demo_handoff"
    and busy: "is_session_busy (ds_agent (foldl sys_step sys_init demo_handoff)) ''s''"
    by code_simp+
  from one_run_per_session [OF refl this(1), of "''s''"] busy show ?thesis by simp
qed

text \<open>
  A turn that compacts its session in the middle releases the entry twice, and the second release
  does not look whose entry it is: here another prompt has started in between, and its entry is
  removed while it streams. The session then looks idle, a third prompt starts beside it, and a
  cancel reaches only the third.
\<close>

definition demo_overflow :: "sys_event list" where
  "demo_overflow = [Submit (demo_call ''r1'' ''one''), Act 0 Enter, Act 0 Overflow, Act 0 CompactStart,
     Act 0 CompactDrain, Act 0 CompactRelease,
     Submit (demo_call ''r2'' ''two''), Act 1 Enter, Act 0 Release,
     Submit (demo_call ''r3'' ''three''), Act 2 Enter, CancelSession ''s'' []]"

lemma compaction_frees_other_run:
  "length (filter (runs_session ''s'') (ds_threads (foldl sys_step sys_init demo_overflow))) = 2"
  "ag_cancelled (ds_agent (foldl sys_step sys_init demo_overflow)) = [3]"
  by code_simp+

subsection \<open>Every accepted prompt is accounted for\<close>

definition stored :: "string \<Rightarrow> agent_state \<Rightarrow> bool" where
  "stored r a \<longleftrightarrow> (\<exists>k. \<exists>q\<in>set (queued_calls a k). sc_run_id q = r) \<or> (\<exists>e\<in>set (ag_completes a). cp_run_id e = r)"

definition owner_is :: "string \<Rightarrow> (session_call \<times> nat) option \<Rightarrow> bool" where
  "owner_is r owner \<longleftrightarrow> (case owner of None \<Rightarrow> False | Some (c, ctx) \<Rightarrow> sc_run_id c = r)"

definition entering :: "string \<Rightarrow> session_call \<Rightarrow> bool" where
  "entering r c \<longleftrightarrow> sc_run_id c = r \<and> validate_call c = None"

fun carries :: "string \<Rightarrow> run_phase \<Rightarrow> bool" where
  "carries r (Waiting c) = (entering r c \<and> sc_accepted c \<noteq> None)"
| "carries r (Ready c) = entering r c"
| "carries r (EntryCancelled c) = (sc_run_id c = r)"
| "carries r (Streaming c ctx) = (sc_run_id c = r)"
| "carries r (Finishing c ctx again) = (sc_run_id c = r)"
| "carries r (Requeueing c ctx qs) = (sc_run_id c = r)"
| "carries r (Released c ctx) = (sc_run_id c = r)"
| "carries r (HandingOff c ctx nxt owes) = (owes \<and> sc_run_id c = r \<or> entering r nxt)"
| "carries r (Ending c ctx how) = (sc_run_id c = r)"
| "carries r (Overflowing owner sess) = owner_is r owner"
| "carries r (Compacting owner sess ctx) = owner_is r owner"
| "carries r (CompactLeaving owner sess ctx ans) = owner_is r owner"
| "carries r (CompactDone owner sess ctx nxt) =
     (owner_is r owner \<or> (case nxt of None \<Rightarrow> False | Some c \<Rightarrow> entering r c))"
| "carries r (Joining owner child) = owner_is r owner"
| "carries r _ = False"

definition accounted :: "string \<Rightarrow> dispatch_sys \<Rightarrow> bool" where
  "accounted r s \<longleftrightarrow> list_ex (carries r) (ds_threads s) \<or> stored r (ds_agent s)"

text \<open>
  The steps that lose a prompt: a coordinator that fails with \<open>context.Canceled\<close> before \<open>Run\<close>, and an
  unlocked write of the queue (the continuation of a compacted turn, \<open>ClearQueue\<close>) that is late: a
  prompt has been queued since the queue was read.
\<close>

fun quiet_free :: "free_op \<Rightarrow> bool" where
  "quiet_free (FreeAccept closing c) = True"
| "quiet_free (FreeAbandon i canceled) = (\<not> canceled)"

definition late_write :: "agent_state \<Rightarrow> run_phase \<Rightarrow> bool" where
  "late_write a p =
     (case p of
        Requeueing c ctx qs \<Rightarrow> \<not> set (queued_calls a (sc_session c)) \<subseteq> set qs
      | Clearing sess qs \<Rightarrow> \<not> set (queued_calls a sess) \<subseteq> set qs
      | _ \<Rightarrow> False)"

fun keeps_prompts :: "dispatch_sys \<Rightarrow> sys_event \<Rightarrow> bool" where
  "keeps_prompts s (Free f) = quiet_free f"
| "keeps_prompts s (CancelSession sess between) = list_all quiet_free between"
| "keeps_prompts s (Act i act) =
     ((act = RequeueWrite \<or> act = ClearQueueWrite) \<longrightarrow> i < length (ds_threads s) \<longrightarrow>
        \<not> late_write (ds_agent s) (ds_threads s ! i))"
| "keeps_prompts s _ = True"

fun all_keep_prompts :: "dispatch_sys \<Rightarrow> sys_event list \<Rightarrow> bool" where
  "all_keep_prompts s [] = True"
| "all_keep_prompts s (e # es) = (keeps_prompts s e \<and> all_keep_prompts (sys_step s e) es)"

lemma completes_ops [simp]:
  "ag_completes (set_queue sess qs a) = ag_completes a" "ag_completes (del_queue sess a) = ag_completes a"
  "ag_completes (enqueue_call c a) = ag_completes a" "ag_completes (end_accepted sess a) = ag_completes a"
  "ag_completes (del_active sess a) = ag_completes a" "ag_completes (release_own sess ctx a) = ag_completes a"
  "ag_completes (queue_retry c ctx t a) = ag_completes a" "ag_completes (settle_idle sess a) = ag_completes a"
  "ag_completes (publish_run_complete c e a) = ag_completes a @ [e\<lparr>cp_hooked := sc_on_complete c\<rparr>]"
  by (simp_all add: set_queue_def del_queue_def enqueue_call_def end_accepted_def del_active_def
      release_own_def queue_retry_def settle_idle_def publish_run_complete_def Let_def split: option.split)

lemma completes_close [simp]: "ag_completes (close_accepted ho a) = ag_completes a"
  by (simp add: close_accepted_def split: option.split)

lemma completes_drops:
  "ag_completes (publish_canceled_queue_drops ds a) = ag_completes a @
     map (\<lambda>d. (completion_of d False True)\<lparr>cp_hooked := sc_on_complete d\<rparr>) (filter (\<lambda>d. sc_run_id d \<noteq> []) ds)"
  by (induction ds arbitrary: a) simp_all

lemma completion_sel [simp]: "cp_run_id (completion_of c b b') = sc_run_id c"
  by (simp add: completion_of_def)

lemma storedI:
  "q \<in> set (queued_calls a k) \<Longrightarrow> sc_run_id q = r \<Longrightarrow> stored r a"
  "e \<in> set (ag_completes a) \<Longrightarrow> cp_run_id e = r \<Longrightarrow> stored r a"
  by (auto simp: stored_def)

text \<open>
  A prompt stays stored if every queue keeps it or its event is published, and no event is ever
  taken back.
\<close>

lemma stored_mono:
  assumes "stored r a" and "set (ag_completes a) \<subseteq> set (ag_completes b)"
    and "\<And>k q. q \<in> set (queued_calls a k) \<Longrightarrow> sc_run_id q = r \<Longrightarrow> stored r b"
  shows "stored r b"
  using assms unfolding stored_def by blast

lemma stored_frame:
  "stored r a \<Longrightarrow> ag_completes b = ag_completes a \<Longrightarrow> (\<And>k. queued_calls b k = queued_calls a k) \<Longrightarrow> stored r b"
  by (simp add: stored_def)

lemma stored_drops:
  "r \<noteq> [] \<Longrightarrow> stored r (publish_canceled_queue_drops ds a) \<longleftrightarrow> stored r a \<or> (\<exists>d\<in>set ds. sc_run_id d = r)"
  unfolding stored_def completes_drops queued_calls_drops by (simp add: bex_Un) blast

lemma stored_publish:
  "stored r (publish_run_complete c e a) \<longleftrightarrow> stored r a \<or> cp_run_id e = r"
  by (auto simp: stored_def)

lemma stored_cases [consumes 1, case_names queue event]:
  assumes "stored r a"
  obtains k q where "q \<in> set (queued_calls a k)" and "sc_run_id q = r"
    | e where "e \<in> set (ag_completes a)" and "cp_run_id e = r"
  using assms unfolding stored_def by blast

lemma stored_set_queue:
  assumes "stored r a"
    and "\<And>q. q \<in> set (queued_calls a sess) \<Longrightarrow> sc_run_id q = r \<Longrightarrow> q \<in> set qs \<or> ok"
  shows "stored r (set_queue sess qs a) \<or> ok"
  using assms(1)
proof (cases rule: stored_cases)
  case (queue k q)
  with assms(2) [of q] storedI(1) [of q "set_queue sess qs a" k r] show ?thesis
    by (cases "k = sess") auto
next
  case (event e)
  then show ?thesis by (auto intro: storedI(2))
qed

lemma stored_del_queue:
  assumes "stored r a"
  shows "stored r (del_queue sess a) \<or> (\<exists>q\<in>set (queued_calls a sess). sc_run_id q = r)"
  using assms
proof (cases rule: stored_cases)
  case (queue k q)
  with storedI(1) [of q "del_queue sess a" k r] show ?thesis by (cases "k = sess") auto
next
  case (event e)
  then show ?thesis by (auto intro: storedI(2))
qed

lemma stored_clear:
  assumes r: "r \<noteq> []" and st: "stored r a"
  shows "stored r (clear_queue_and_notify sess a)"
proof -
  have del: "stored r (del_queue sess a) \<or> (\<exists>q\<in>set (queued_calls a sess). sc_run_id q = r)"
    by (rule stored_del_queue [OF st])
  show ?thesis
  proof (cases "map_of (ag_queue a) sess")
    case None
    then have "queued_calls a sess = []" by (simp add: queued_calls_def)
    with del None show ?thesis by (simp add: clear_queue_and_notify_def)
  next
    case (Some qs)
    then have "queued_calls a sess = qs" by (simp add: queued_calls_def)
    with del Some show ?thesis by (auto simp: clear_queue_and_notify_def stored_drops [OF r])
  qed
qed

lemma drain_loop_keeps:
  "drain_loop a sess qs = (f, keep, drops) \<Longrightarrow> q \<in> set qs \<Longrightarrow> sc_run_id q \<noteq> [] \<Longrightarrow>
     q \<in> set keep \<union> set drops"
  by (induction qs arbitrary: f keep drops) (auto simp: Let_def split: prod.splits if_splits)

lemma split_covered_keeps:
  "split_covered mark qs = (kept, drops) \<Longrightarrow> q \<in> set qs \<Longrightarrow> sc_run_id q \<noteq> [] \<Longrightarrow> q \<in> set kept \<union> set drops"
  by (induction qs arbitrary: kept drops) (auto simp: Let_def split: prod.splits if_splits)

lemma stored_drain:
  assumes r: "r \<noteq> []" and st: "stored r a" and d: "drain_queue_for_step sess a = (f, drops, b)"
  shows "stored r (publish_canceled_queue_drops drops b)"
proof -
  obtain keep where keep: "drain_loop a sess (queued_calls a sess) = (f, keep, drops)"
      and b: "b = (if keep = [] then del_queue sess a else set_queue sess keep a)"
    using d by (auto simp: drain_queue_for_step_def Let_def split: prod.splits)
  have "stored r b \<or> (\<exists>q\<in>set drops. sc_run_id q = r)"
  proof (cases "keep = []")
    case True
    then show ?thesis using stored_del_queue [OF st, of sess] drain_loop_keeps [OF keep] r b by auto
  next
    case False
    have "stored r (set_queue sess keep a) \<or> (\<exists>q\<in>set drops. sc_run_id q = r)"
      by (rule stored_set_queue [OF st]) (use drain_loop_keeps [OF keep] r in auto)
    with False b show ?thesis by simp
  qed
  then show ?thesis by (simp add: stored_drops [OF r])
qed

lemma stored_covered:
  assumes r: "r \<noteq> []" and st: "stored r a" and d: "drop_covered sess a = (qs, b)"
  shows "stored r b"
proof (cases "\<exists>mark. map_of (ag_marks a) sess = Some mark \<and> mark > 0 \<and> queued_calls a sess \<noteq> []")
  case True
  then obtain mark drops where c: "split_covered mark (queued_calls a sess) = (qs, drops)"
      "b = publish_canceled_queue_drops drops (set_queue sess qs a)"
    using d by (auto simp: drop_covered_def Let_def split: prod.splits)
  have "stored r (set_queue sess qs a) \<or> (\<exists>q\<in>set drops. sc_run_id q = r)"
    by (rule stored_set_queue [OF st]) (use split_covered_keeps [OF c(1)] r in auto)
  with c(2) show ?thesis by (simp add: stored_drops [OF r])
next
  case False
  with d st show ?thesis by (auto simp: drop_covered_def Let_def split: option.splits if_splits)
qed

lemma drop_covered_queue: "drop_covered sess a = (qs, b) \<Longrightarrow> queued_calls b sess = qs"
  by (auto simp: drop_covered_def Let_def split: prod.splits option.splits if_splits)

lemma entering_first:
  "fits sess q \<Longrightarrow> sc_run_id q = r \<Longrightarrow> entering r (q\<lparr>sc_accepted := ho\<rparr>)"
  by (simp add: entering_def fits_def validate_call_def split: if_splits)

lemma stored_take:
  assumes st: "stored r a" and q: "queued_calls a sess = q # rest" and fits: "fits sess q"
    and t: "take_first sess q rest a = (nxt, b)"
  shows "stored r b \<or> entering r nxt"
proof -
  obtain h where nxt: "nxt = q\<lparr>sc_accepted := Some h\<rparr>" using take_first_sel(2) [OF t] by blast
  from st show ?thesis
  proof (cases rule: stored_cases)
    case (queue k p)
    then show ?thesis
      using take_first_sel(1) [OF t, of k] q entering_first [OF fits, of r] nxt storedI(1) [of p b k r]
      by (cases "k = sess") auto
  next
    case (event e)
    then show ?thesis using take_first_sel(3) [OF t] by (auto intro: storedI(2))
  qed
qed

lemma stored_idle: "stored r a \<Longrightarrow> queued_calls a sess = [] \<Longrightarrow> stored r (settle_idle sess a)"
  using stored_del_queue [of r a sess]
  by (auto simp: settle_idle_def Let_def intro: stored_frame)

lemma stored_turn_tail:
  assumes r: "r \<noteq> []" and ok: "queue_ok a" and st: "stored r a \<or> sc_run_id c = r"
    and t: "turn_tail c a = (Some (nxt, owes), b)"
  shows "stored r b \<or> entering r nxt \<or> owes \<and> sc_run_id c = r"
proof -
  obtain qs d where d: "drop_covered (sc_session c) a = (qs, d)" by fastforce
  with t obtain q rest where qs: "qs = q # rest" by (cases qs) (auto simp: turn_tail_def)
  have owes: "owes \<longleftrightarrow> sc_run_id c \<noteq> [] \<and> \<not> list_ex (\<lambda>q. sc_run_id q = sc_run_id c) qs"
    and take: "take_first (sc_session c) q rest d = (nxt, b)"
    using t d qs by (auto simp: turn_tail_def Let_def split: prod.splits)
  have queued: "queued_calls d (sc_session c) = q # rest" using drop_covered_queue [OF d] qs by simp
  have fits: "fits (sc_session c) q" using queue_ok_covered(2) [OF ok d] qs by simp
  have "stored r d \<or> owes \<and> sc_run_id c = r"
  proof (cases "stored r a")
    case True
    then show ?thesis using stored_covered [OF r _ d] by simp
  next
    case False
    with st have c: "sc_run_id c = r" by simp
    show ?thesis
    proof (cases owes)
      case False
      then obtain p where "p \<in> set qs" "sc_run_id p = r" using r owes c by (auto simp: list_ex_iff)
      then show ?thesis using storedI(1) [of p d "sc_session c" r] queued qs by simp
    qed (use c in simp)
  qed
  then show ?thesis using stored_take [OF _ queued fits take] by blast
qed

lemma stored_compact_tail:
  assumes r: "r \<noteq> []" and ok: "queue_ok a" and st: "stored r a" and t: "compact_tail sess a = (nxt, b)"
  shows "stored r b \<or> (\<exists>c. nxt = Some c \<and> entering r c)"
proof -
  obtain qs d where d: "drop_covered sess a = (qs, d)" by fastforce
  note sd = stored_covered [OF r st d] and q = drop_covered_queue [OF d]
  show ?thesis
  proof (cases qs)
    case Nil
    with t d sd q stored_idle [of r d sess] show ?thesis by (auto simp: compact_tail_def)
  next
    case (Cons x rest)
    with queue_ok_covered(2) [OF ok d] q have "fits sess x" "queued_calls d sess = x # rest" by simp_all
    moreover obtain c where "take_first sess x rest d = (c, b)" "nxt = Some c"
      using t d Cons by (auto simp: compact_tail_def split: prod.splits)
    ultimately show ?thesis using stored_take [OF sd] by blast
  qed
qed

lemma stored_turn_idle:
  assumes "r \<noteq> []" and "stored r a" and "turn_tail c a = (None, b)"
  shows "stored r b"
proof -
  obtain qs d where d: "drop_covered (sc_session c) a = (qs, d)" by fastforce
  note sd = stored_covered [OF assms(1,2) d] and q = drop_covered_queue [OF d]
  show ?thesis
  proof (cases qs)
    case Nil
    with assms(3) d sd q stored_idle [of r d "sc_session c"] show ?thesis by (auto simp: turn_tail_def)
  qed (use assms(3) d in \<open>auto simp: turn_tail_def Let_def split: prod.splits\<close>)
qed

lemma stored_enqueue: "stored r a \<or> sc_run_id c = r \<Longrightarrow> stored r (enqueue_call c a)"
proof -
  assume *: "stored r a \<or> sc_run_id c = r"
  let ?q = "c\<lparr>sc_accept_seq := (case sc_accepted c of None \<Rightarrow> sc_accept_seq c | Some h \<Rightarrow> handle_seq a h),
              sc_on_complete := False, sc_accepted := None\<rparr>"
  let ?b = "set_queue (sc_session c) (queued_calls a (sc_session c) @ [?q]) a"
  have b: "enqueue_call c a = ?b" by (simp add: enqueue_call_def Let_def)
  from * show ?thesis
  proof
    assume "stored r a"
    then have "stored r ?b \<or> False" by (rule stored_set_queue) simp
    then show ?thesis by (simp add: b)
  next
    assume "sc_run_id c = r"
    then show ?thesis unfolding b by (intro storedI(1) [of ?q _ "sc_session c"]) simp_all
  qed
qed

lemma stored_close [simp]: "stored r (close_accepted ho a) \<longleftrightarrow> stored r a"
  by (simp add: stored_def)

lemma stored_dispatch:
  assumes "dispatch_call c a = (p, b)"
  shows "stored r a \<Longrightarrow> stored r b" and "entering r c \<Longrightarrow> carries r p \<or> stored r b"
proof -
  have active: "stored r (a\<lparr>ag_active := x, ag_next_ctx := n, ag_stamp_gen := g\<rparr>) \<longleftrightarrow> stored r a"
      "stored r (a\<lparr>ag_active := x, ag_next_ctx := n\<rparr>) \<longleftrightarrow> stored r a" for x n g
    by (simp_all add: stored_def)
  show "stored r a \<Longrightarrow> stored r b"
    using assms by (auto simp: dispatch_call_def Let_def active intro: stored_enqueue split: if_splits)
  show "entering r c \<Longrightarrow> carries r p \<or> stored r b"
    using assms by (auto simp: dispatch_call_def Let_def entering_def intro: stored_enqueue split: if_splits)
qed

lemma accounted_goto:
  assumes acc: "accounted r s" and i: "i < length (ds_threads s)"
    and keep: "carries r (ds_threads s ! i) \<or> stored r (ds_agent s) \<Longrightarrow> carries r p \<or> stored r a"
    and mono: "stored r (ds_agent s) \<Longrightarrow> stored r a \<or> carries r p"
  shows "accounted r (goto i p a s)"
proof (cases "stored r (ds_agent s) \<or> carries r (ds_threads s ! i)")
  case True
  with keep have "carries r p \<or> stored r a" by blast
  then show ?thesis using i by (auto simp: accounted_def list_ex_iff intro!: set_update_memI)
next
  case False
  with acc obtain j where j: "j < length (ds_threads s)" "carries r (ds_threads s ! j)"
    by (auto simp: accounted_def list_ex_length)
  with False have "j \<noteq> i" by auto
  with j show ?thesis by (auto simp: accounted_def list_ex_length nth_list_update)
qed

lemma accounted_agent: "accounted r s \<Longrightarrow> (stored r (ds_agent s) \<Longrightarrow> stored r a) \<Longrightarrow> accounted r (with_agent a s)"
  by (auto simp: accounted_def)

lemma accounted_spawn: "accounted r s \<Longrightarrow> (stored r (ds_agent s) \<Longrightarrow> stored r a) \<Longrightarrow> accounted r (spawn p a s)"
  by (auto simp: accounted_def)

lemma carries_after: "owner_is r owner \<Longrightarrow> carries r (after_compact owner ans)"
  by (cases "(owner, ans)" rule: after_compact.cases) (simp_all add: owner_is_def)

lemma stored_retry: "stored r a \<Longrightarrow> stored r (queue_retry c ctx t a)"
  using stored_set_queue [of r a "sc_session c" _ False] by (auto simp: queue_retry_def)

lemma stored_active [simp]:
  "stored r (del_active sess a) \<longleftrightarrow> stored r a" "stored r (release_own sess ctx a) \<longleftrightarrow> stored r a"
  "stored r (a\<lparr>ag_active := x, ag_next_ctx := n\<rparr>) \<longleftrightarrow> stored r a"
  "stored r (a\<lparr>ag_cancelled := y\<rparr>) \<longleftrightarrow> stored r a" "stored r (a\<lparr>ag_marks := m\<rparr>) \<longleftrightarrow> stored r a"
  by (simp_all add: stored_def)

lemma accounted_thread:
  assumes acc: "accounted r s" and r: "r \<noteq> []" and t: "tidy s"
    and i: "i < length (ds_threads s)" and p: "ds_threads s ! i = p"
    and act: "act = RequeueWrite \<or> act = ClearQueueWrite \<Longrightarrow> \<not> late_write (ds_agent s) p"
  shows "accounted r (thread_step i p act s)"
proof -
  note ag = accounted_goto [OF acc i] and aa = accounted_agent [OF acc]
  have q: "queue_ok (ds_agent s)" using t by (simp add: tidy_def)
  show ?thesis
  proof (cases p)
    case (Waiting c)
    then show ?thesis using acc p
      by (auto split: run_act.split prod.split intro!: ag dest: stored_dispatch)
  next
    case (Ready c)
    then show ?thesis using acc p
      by (auto split: run_act.split prod.split intro!: ag dest: stored_dispatch)
  next
    case (EntryCancelled c)
    then show ?thesis using acc p
      by (auto split: run_act.split intro!: ag simp: stored_publish)
  next
    case (Streaming c ctx)
    then show ?thesis using acc p
      by (auto split: run_act.split prod.split intro!: ag aa stored_retry simp: owner_is_def
          dest: stored_drain [OF r])
  next
    case (Released c ctx)
    then show ?thesis using acc p stored_turn_tail [OF r q, of c] stored_turn_idle [OF r, of _ c]
      by (auto split: run_act.split prod.split option.split intro!: ag)
  next
    case (HandingOff c ctx nxt owes)
    then show ?thesis using acc p
      by (auto split: run_act.split intro!: ag simp: stored_publish)
  next
    case (Ending c ctx how)
    then show ?thesis using acc p
      by (auto split: run_act.split turn_end.split intro!: ag simp: stored_publish)
  next
    case (ClearingUp c)
    then show ?thesis using acc p
      by (auto split: run_act.split intro!: ag stored_clear [OF r])
  next
    case (Overflowing owner sess)
    then show ?thesis using acc p
      by (auto simp: register_compaction_def split: run_act.split option.split if_splits
          intro!: ag intro: carries_after)
  next
    case (Compacting owner sess ctx)
    then show ?thesis using acc p stored_compact_tail [OF r q, of sess]
      by (auto split: run_act.split prod.split intro!: ag stored_clear [OF r])
  next
    case (CompactLeaving owner sess ctx ans)
    then show ?thesis using acc p
      by (auto split: run_act.split intro!: ag intro: carries_after)
  next
    case (CompactDone owner sess ctx nxt)
    let ?a = "del_active sess (ds_agent s)"
    have "accounted r (spawn (Ready c) ?a (goto i (Joining owner n) ?a s))" if "nxt = Some c" for c n
    proof (cases "entering r c")
      case True
      then show ?thesis by (simp add: accounted_def)
    next
      case False
      have "accounted r (goto i (Joining owner n) ?a s)"
        by (rule ag) (use False that CompactDone p in auto)
      then show ?thesis by (rule accounted_spawn) simp
    qed
    then show ?thesis using CompactDone acc p
      by (auto simp: Let_def split: run_act.split option.split intro!: ag intro: carries_after)
  next
    case (Joining owner child)
    then show ?thesis using acc p
      by (auto split: run_act.split run_phase.split intro!: ag intro: carries_after)
  next
    case (Requeueing c ctx qs)
    have w: "stored r (set_queue (sc_session c) (qs @ [continued_call c]) (ds_agent s))"
      if "act = RequeueWrite" and "stored r (ds_agent s) \<or> sc_run_id c = r"
    proof (cases "sc_run_id c = r")
      case True
      then show ?thesis by (intro storedI(1) [of "continued_call c" _ "sc_session c"]) (simp_all add: continued_call_def)
    next
      case False
      have "set (queued_calls (ds_agent s) (sc_session c)) \<subseteq> set qs"
        using act that(1) by (simp add: late_write_def Requeueing)
      then show ?thesis
        using stored_set_queue [of r "ds_agent s" "sc_session c" "qs @ [continued_call c]" False] that(2) False by auto
    qed
    then show ?thesis using Requeueing acc p by (auto split: run_act.split intro!: ag)
  next
    case (Clearing sess qs)
    have w: "stored r (publish_canceled_queue_drops qs (del_queue sess (ds_agent s)))"
      if "act = ClearQueueWrite" and "stored r (ds_agent s)"
    proof -
      have "set (queued_calls (ds_agent s) sess) \<subseteq> set qs"
        using act that(1) by (simp add: late_write_def Clearing)
      with stored_del_queue [OF that(2), of sess] show ?thesis by (auto simp: stored_drops [OF r])
    qed
    then show ?thesis using Clearing acc p by (auto split: run_act.split intro!: ag)
  qed (insert acc p, auto split: run_act.split intro!: ag)
qed

lemma accounted_free:
  assumes acc: "accounted r s" and quiet: "quiet_free f" and r: "r \<noteq> []"
  shows "accounted r (free_step s f)"
proof (cases f)
  case (FreeAccept closing c)
  have "stored r b" if "begin_accepted sess (ds_agent s) = (h, b)" "stored r (ds_agent s)" for sess h b
    by (rule stored_frame [OF that(2)]) (use that(1) in \<open>simp_all add: begin_accepted_sel\<close>)
  then show ?thesis using FreeAccept acc
    by (auto simp: send_message_def split: prod.split intro!: accounted_agent accounted_spawn)
next
  case (FreeAbandon i canceled)
  then show ?thesis using acc quiet r
    by (auto simp: run_agent_failed_def entering_def stored_publish split: run_phase.split
        intro!: accounted_goto [OF acc])
qed

lemma accounted_between:
  "accounted r s \<Longrightarrow> list_all quiet_free fs \<Longrightarrow> r \<noteq> [] \<Longrightarrow> accounted r (foldl free_step s fs)"
  by (induction fs arbitrary: s) (auto intro: accounted_free)

lemma accounted_step:
  assumes acc: "accounted r s" and t: "tidy s" and keep: "keeps_prompts s e" and r: "r \<noteq> []"
  shows "accounted r (sys_step s e)"
proof (cases e)
  case (CancelSession sess between)
  obtain accs mark a where cm: "cancel_read sess (ds_agent s) = ((accs, mark), a)" by (metis surj_pair)
  let ?s = "s\<lparr>ds_agent := a, ds_doomed := pending_handles sess (ds_threads s) @ ds_doomed s\<rparr>"
  have "accounted r ?s"
    using acc cm by (auto simp: accounted_def cancel_read_def split: option.splits)
  then have "accounted r (foldl free_step ?s between)"
    using accounted_between CancelSession keep r by simp
  moreover have "stored r (cancel_write sess (accs, mark) b)" if "stored r b" for b
    using that stored_clear [OF r] by (auto simp: cancel_write_def Let_def)
  ultimately show ?thesis using CancelSession cm
    by (simp add: cancel_session_def Let_def accounted_agent)
next
  case (Act i act)
  show ?thesis
  proof (cases "i < length (ds_threads s)")
    case True
    with keep Act have "act = RequeueWrite \<or> act = ClearQueueWrite \<Longrightarrow> \<not> late_write (ds_agent s) (ds_threads s ! i)"
      by simp
    from accounted_thread [OF acc r t True refl this] True Act show ?thesis by simp
  qed (use Act acc in simp)
next
  case (ClearQueueNow sess)
  with acc show ?thesis using stored_clear [OF r] by (auto simp: clear_queue_def intro: accounted_agent)
qed (use acc keep r in \<open>auto intro: accounted_free accounted_spawn\<close>)

lemma accounted_run:
  "accounted r s \<Longrightarrow> tidy s \<Longrightarrow> all_keep_prompts s es \<Longrightarrow> r \<noteq> [] \<Longrightarrow> accounted r (foldl sys_step s es)"
  by (induction es arbitrary: s) (auto intro: accounted_step tidy_step)

lemma accounted_accept:
  "validate_call c = None \<Longrightarrow> accounted (sc_run_id c) (sys_step s (Free (FreeAccept False c)))"
  by (auto simp: send_message_def accounted_def entering_def validate_call_def split: prod.split if_splits)

text \<open>
  C6: No accepted prompt disappears, as long as no step of two kinds comes: a coordinator that gives
  up with \<open>context.Canceled\<close> before \<open>Run\<close>, and a late unlocked write of a queue (\<open>ClearQueue\<close> or the
  continuation of a compacted turn writes after a further prompt was queued behind its read). Without
  these, once \<open>SendMessage\<close> has accepted a prompt with a run id, at every later moment a goroutine
  still has it to run or to report, or it is in a queue, or its terminal event is published: it is
  never folded into another turn, and a cancel, a failing turn, a handoff, a compaction or a cleared
  queue reports it before it forgets it. Both exceptions are real: the code does lose prompts there
  (below).
\<close>

theorem accepted_prompt_accounted:
  assumes c: "validate_call c = None" and id: "sc_run_id c \<noteq> []"
    and quiet: "all_keep_prompts (foldl sys_step sys_init (earlier @ [Free (FreeAccept False c)])) later"
    and run: "s = foldl sys_step sys_init (earlier @ Free (FreeAccept False c) # later)"
  shows "list_ex (carries (sc_run_id c)) (ds_threads s) \<or>
    (\<exists>k. list_ex (\<lambda>q. sc_run_id q = sc_run_id c) (queued_calls (ds_agent s) k)) \<or>
    list_ex (\<lambda>e. cp_run_id e = sc_run_id c) (ag_completes (ds_agent s))"
proof -
  let ?s = "sys_step (foldl sys_step sys_init earlier) (Free (FreeAccept False c))"
  have "tidy ?s" by (rule tidy_step [OF tidy.run_good [OF tidy_init]])
  from accounted_run [OF accounted_accept [OF c] this _ id, of later] quiet have "accounted (sc_run_id c) s"
    by (simp add: run)
  then show ?thesis unfolding accounted_def stored_def list_ex_iff by blast
qed

theorem accepted_prompt_accounted_witness:
  "list_ex (carries ''r2'') (ds_threads (foldl sys_step sys_init demo_handoff))"
proof -
  let ?s = "foldl sys_step sys_init demo_handoff"
  have quiet: "all_keep_prompts (foldl sys_step sys_init
      (take 2 demo_handoff @ [Free (FreeAccept False (demo_call ''r2'' ''two''))])) (drop 3 demo_handoff)"
    by code_simp
  have c: "validate_call (demo_call ''r2'' ''two'') = None" "sc_run_id (demo_call ''r2'' ''two'') = ''r2''"
    and split: "demo_handoff =
       take 2 demo_handoff @ Free (FreeAccept False (demo_call ''r2'' ''two'')) # drop 3 demo_handoff"
    by (simp_all add: demo_handoff_def demo_call_def validate_call_def)
  note run = arg_cong [OF split, of "foldl sys_step sys_init"]
  have "map fst (ag_queue (ds_agent ?s)) = []"
    "list_ex (\<lambda>e. cp_run_id e = ''r2'') (ag_completes (ds_agent ?s)) = False"
    by code_simp+
  then show ?thesis
    using accepted_prompt_accounted [OF c(1) _ quiet run] c(2) by (simp add: queued_calls_def)
qed

text \<open>What the code loses or reports twice.\<close>

definition gone :: "string \<Rightarrow> dispatch_sys \<Rightarrow> bool" where
  "gone r s \<longleftrightarrow> \<not> list_ex (carries r) (ds_threads s) \<and>
     list_all (\<lambda>(k, qs). list_all (\<lambda>q. sc_run_id q \<noteq> r) qs) (ag_queue (ds_agent s)) \<and>
     list_all (\<lambda>e. cp_run_id e \<noteq> r) (ag_completes (ds_agent s))"

text \<open>
  The continuation of a compacted turn reads the queue and writes it back without the mutex: a
  prompt another goroutine queues in between is overwritten.
\<close>

lemma requeue_loses_prompt:
  "gone ''r3'' (foldl sys_step sys_init [Submit (demo_call ''r1'' ''one''), Act 0 Enter, Act 0 Overflow,
     Act 0 CompactStart, Act 0 CompactDrain, Act 0 CompactRelease,
     Submit (demo_call ''r2'' ''two''), Act 1 Enter, Act 0 RequeueRead,
     Free (FreeAccept False (demo_call ''r3'' ''three'')), Act 2 Enter, Act 0 RequeueWrite])"
  by code_simp

text \<open>\<open>ClearQueue\<close> reads the queue and deletes it without the mutex.\<close>

lemma clear_queue_loses_prompt:
  "gone ''r3'' (foldl sys_step sys_init [Submit (demo_call ''r1'' ''one''), Act 0 Enter,
     Submit (demo_call ''r2'' ''two''), Act 1 Enter, ClearQueueRead ''s'',
     Free (FreeAccept False (demo_call ''r3'' ''three'')), Act 3 Enter, Act 2 ClearQueueWrite])"
  by code_simp

text \<open>
  A prompt that arrives between the end of a manual compaction and the release of its entry is
  queued behind nobody.
\<close>

lemma compaction_strands_prompt:
  "(let s = foldl sys_step sys_init [Summarize ''s'', Act 0 CompactStart, Act 0 CompactDrain,
      Free (FreeAccept False (demo_call ''r1'' ''one'')), Act 1 Enter, Act 0 CompactRelease]
    in queued_prompts (ds_agent s) ''s'' = 1 \<and> \<not> is_session_busy (ds_agent s) ''s'' \<and>
       ds_threads s = [Returned False, Returned False])"
  by code_simp

text \<open>
  A queued retry that is cancelled reports its run id, and so does the turn that queued it.
\<close>

lemma cancelled_retry_reports_twice:
  "map cp_run_id (ag_completes (ds_agent (foldl sys_step sys_init
     [Free (FreeAccept False (demo_call ''r1'' ''one'')), Act 0 Enter, Act 0 (Retry ''again''),
      CancelSession ''s'' [], Act 0 Release, Act 0 TakeTail, Act 0 (Finish False)]))) = [''r1'', ''r1'']"
  by code_simp

text \<open>
  A call \<open>Run\<close> rejects is treated like a turn that ended in error: it drops the prompts queued
  behind another, running turn.
\<close>

lemma rejected_call_drops_queue:
  "(let s = foldl sys_step sys_init [Submit (demo_call ''r1'' ''one''), Act 0 Enter,
      Free (FreeAccept False (demo_call ''r2'' ''two'')), Act 1 Enter, Submit (demo_call [] []), Act 2 Enter, Act 2 CleanUp]
    in is_session_busy (ds_agent s) ''s'' \<and> queued_prompts (ds_agent s) ''s'' = 0 \<and>
       map (\<lambda>e. (cp_run_id e, cp_cancelled e)) (ag_completes (ds_agent s)) = [(''r2'', True)])"
  by code_simp

subsection \<open>Cancelling everything\<close>

lemma queued_calls_cancel_fold:
  "queued_calls a k = [] \<Longrightarrow> queued_calls (fold cancel ks a) k = []"
  by (induction ks arbitrary: a)
    (auto simp: cancel_def split: prod.splits, metis queued_calls_cancel queued_calls_cancel_write)

lemma queued_calls_clear_fold:
  "queued_calls (fold clear_queue_and_notify ks a) k = (if k \<in> set ks then [] else queued_calls a k)"
  by (induction ks arbitrary: a) auto

lemma cancel_all_empties_queues:
  assumes "\<And>ks. set (ord ks) = set ks"
  shows "queued_calls (cancel_all ord a) k = []"
proof (cases "is_busy a")
  case True
  have absent: "k \<notin> set (map fst (ag_queue b)) \<Longrightarrow> queued_calls b k = []" for b
    by (simp add: queued_calls_def map_of_eq_None_iff [symmetric])
  show ?thesis using True absent by (auto simp: cancel_all_def Let_def queued_calls_clear_fold assms)
next
  case False
  then have "map_of (ag_queue a) k = Some qs \<Longrightarrow> qs = []" for qs
    by (auto simp: is_busy_def list_ex_iff dest!: map_of_SomeD)
  with False show ?thesis by (auto simp: cancel_all_def queued_calls_def split: option.split)
qed
end
