(* ===== verification/EditMatch.thy ===== *)
theory EditMatch
  imports CommandKind
begin

text \<open>
  Where an edit applies: \<open>findAndReplace\<close> of internal/agent/tools/edit.go and
  internal/agent/tools/edit_whitespace.go, the exact search, the search up to white space, the
  re-indentation of the new text and the hints in the error.

  Offsets are byte offsets and lines are what \<open>strings.Split(s, "\n")\<close> yields, as in the code.
\<close>

subsection \<open>strings\<close>

text \<open>\<open>strings.Index\<close>, \<open>strings.LastIndex\<close> and, for a non-empty pattern, \<open>strings.ReplaceAll\<close>.\<close>

fun str_index :: "string \<Rightarrow> string \<Rightarrow> nat option" where
  "str_index [] t = (if t = [] then Some 0 else None)"
| "str_index (c # cs) t = (if has_prefix (c # cs) t then Some 0 else map_option Suc (str_index cs t))"

fun str_last_index :: "string \<Rightarrow> string \<Rightarrow> nat option" where
  "str_last_index [] t = (if t = [] then Some 0 else None)"
| "str_last_index (c # cs) t =
     (case str_last_index cs t of
        Some i \<Rightarrow> Some (Suc i)
      | None \<Rightarrow> if has_prefix (c # cs) t then Some 0 else None)"

function str_replace_all :: "string \<Rightarrow> string \<Rightarrow> string \<Rightarrow> string" where
  "str_replace_all old new s =
     (if s = [] \<or> old = [] then s
      else if has_prefix s old then new @ str_replace_all old new (drop (length old) s)
      else hd s # str_replace_all old new (tl s))"
  by auto
termination by (relation "measure (\<lambda>(old, new, s). length s)") auto

declare str_replace_all.simps [simp del]

abbreviation nl :: char where
  "nl \<equiv> CHR 0x0A"

abbreviation tab :: char where
  "tab \<equiv> CHR 0x09"

abbreviation lines_of :: "string \<Rightarrow> string list" where
  "lines_of \<equiv> split_on nl"

abbreviation unlines :: "string list \<Rightarrow> string" where
  "unlines \<equiv> join_with [nl]"

definition blank_char :: "char \<Rightarrow> bool" where
  "blank_char c \<longleftrightarrow> c = CHR '' '' \<or> c = tab"

text \<open>\<open>strings.TrimLeft(line, " \t")\<close> and what it cuts off.\<close>

definition trim_left :: "string \<Rightarrow> string" where
  "trim_left = dropWhile blank_char"

definition leading_blanks :: "string \<Rightarrow> string" where
  "leading_blanks line = take (length line - length (trim_left line)) line"

text \<open>\<open>%6d|\<close>\<close>

definition line_label :: "nat \<Rightarrow> string" where
  "line_label n = replicate (6 - length (nat_str n)) (CHR '' '') @ nat_str n @ ''|''"

subsection \<open>Matching up to white space\<close>

definition normalize_ws :: "string \<Rightarrow> string" where
  "normalize_ws s = join_with '' '' (fields s)"

definition join_normalized :: "string list \<Rightarrow> string" where
  "join_normalized ls = unlines (map normalize_ws ls)"

fun line_at :: "nat \<Rightarrow> nat \<Rightarrow> string list \<Rightarrow> nat \<Rightarrow> nat option" where
  "line_at pos i [] offset = None"
| "line_at pos i (l # ls) offset =
     (if pos + length l \<ge> offset then Some i else line_at (pos + length l + 1) (Suc i) ls offset)"

definition line_at_offset :: "string list \<Rightarrow> nat \<Rightarrow> nat" where
  "line_at_offset ls offset = (case line_at 0 0 ls offset of Some i \<Rightarrow> i | None \<Rightarrow> length ls - 1)"

text \<open>The search loop of \<open>findNormalizedMatches\<close>: a match is its first and its last line.\<close>

function match_loop :: "string list \<Rightarrow> string \<Rightarrow> string \<Rightarrow> nat \<Rightarrow> nat \<Rightarrow> nat \<Rightarrow> (nat \<times> nat) list" where
  "match_loop norm_lines norm_content norm_old old_count line_count from =
     (if from > length norm_content then []
      else case str_index (drop from norm_content) norm_old of
        None \<Rightarrow> []
      | Some idx \<Rightarrow>
          (let a = from + idx;
               e = a + length norm_old;
               at_start = (a = 0 \<or> norm_content ! (a - 1) = nl);
               at_end = (e = length norm_content \<or> norm_content ! e = nl)
           in if \<not> at_start \<or> \<not> at_end
              then match_loop norm_lines norm_content norm_old old_count line_count (a + 1)
              else (let first = line_at_offset norm_lines a;
                        final = first + old_count - 1
                    in if final \<ge> line_count then []
                       else (first, final) #
                         match_loop norm_lines norm_content norm_old old_count line_count (e + 1))))"
  by auto
termination
  by (relation "measure (\<lambda>(ls, content, old, k, n, from). length content + 1 - from)") auto

declare match_loop.simps [simp del]

definition find_normalized_matches :: "string \<Rightarrow> string \<Rightarrow> (nat \<times> nat) list" where
  "find_normalized_matches content old =
     (let content_lines = lines_of content;
          old_lines = lines_of old;
          norm_old = join_normalized old_lines;
          norm_lines = map normalize_ws content_lines
      in if trim_space norm_old = [] then []
         else match_loop norm_lines (unlines norm_lines) norm_old (length old_lines) (length content_lines) 0)"

subsection \<open>Indentation\<close>

text \<open>The loop of \<open>detectIndentUnit\<close>: whether a tab was seen, and the smallest run of spaces.\<close>

fun indent_loop :: "nat \<Rightarrow> string list \<Rightarrow> bool \<times> nat" where
  "indent_loop min_spaces [] = (False, min_spaces)"
| "indent_loop min_spaces (line # ls) =
     (let leading = leading_blanks line in
      if trim_left line = [] \<or> leading = [] then indent_loop min_spaces ls
      else if tab \<in> set leading then (True, min_spaces)
      else indent_loop (if min_spaces = 0 \<or> length leading < min_spaces then length leading else min_spaces) ls)"

definition detect_indent_unit :: "string list \<Rightarrow> string" where
  "detect_indent_unit ls =
     (case indent_loop 0 ls of (has_tabs, min_spaces) \<Rightarrow>
        if has_tabs then [tab] else if min_spaces > 0 then replicate min_spaces (CHR '' '') else [])"

definition measure_depth :: "string \<Rightarrow> string \<Rightarrow> nat" where
  "measure_depth leading unit =
     (if unit = [] then 0
      else if unit = [tab] then count_char tab leading
      else count_char (CHR '' '') leading div length unit)"

fun first_indent_depth :: "string \<Rightarrow> string list \<Rightarrow> nat" where
  "first_indent_depth unit [] = 0"
| "first_indent_depth unit (l # ls) =
     (if trim_left l = [] then first_indent_depth unit ls else measure_depth (leading_blanks l) unit)"

definition reindent :: "string \<Rightarrow> string \<Rightarrow> int \<Rightarrow> string \<Rightarrow> string" where
  "reindent source_unit file_unit offset line =
     (let trimmed = trim_left line in
      if trimmed = [] then line
      else concat (replicate (nat (max (int (measure_depth (leading_blanks line) source_unit) + offset) 0)) file_unit)
             @ trimmed)"

definition adapt_indentation :: "string \<Rightarrow> string \<Rightarrow> string \<Rightarrow> string \<Rightarrow> string" where
  "adapt_indentation actual old new file_unit =
     (if file_unit = [] then new
      else (let actual_lines = lines_of actual;
                old_lines = lines_of old;
                new_lines = lines_of new;
                unit1 = detect_indent_unit old_lines;
                unit2 = (if unit1 = [] then detect_indent_unit new_lines else unit1);
                source_unit = (if unit2 = [] then file_unit else unit2);
                offset = int (first_indent_depth file_unit actual_lines) -
                         int (first_indent_depth source_unit old_lines)
            in if source_unit = file_unit \<and> offset = 0 then new
               else unlines (map (reindent source_unit file_unit offset) new_lines)))"

subsection \<open>Replacing\<close>

definition splice :: "string list \<Rightarrow> nat \<times> nat \<Rightarrow> string list \<Rightarrow> string list" where
  "splice result m ins = take (fst m) result @ ins @ drop (snd m + 1) result"

definition normalized_replace :: "string \<Rightarrow> string \<Rightarrow> string \<Rightarrow> bool \<Rightarrow> string option" where
  "normalized_replace content old new replace_all =
     (let matches = find_normalized_matches content old in
      if matches = [] then None
      else if \<not> replace_all \<and> length matches > 1 then None
      else (let content_lines = lines_of content;
                file_unit = detect_indent_unit content_lines;
                result = fold (\<lambda>m result.
                   let actual = unlines (take (snd m + 1 - fst m) (drop (fst m) content_lines))
                   in splice result m (lines_of (adapt_indentation actual old new file_unit)))
                  (rev matches) content_lines
            in Some (unlines result)))"

subsection \<open>The hints\<close>

abbreviation tab_mark :: string where "tab_mark \<equiv> [CHR 0xE2, CHR 0x86, CHR 0x92]"
abbreviation space_mark :: string where "space_mark \<equiv> [CHR 0xC2, CHR 0xB7]"
abbreviation ellipsis :: string where "ellipsis \<equiv> [CHR 0xE2, CHR 0x80, CHR 0xA6]"

definition visualize_ws :: "string \<Rightarrow> string" where
  "visualize_ws s =
     (let t = str_replace_all [tab] tab_mark s;
          trimmed = dropWhile (\<lambda>c. c = CHR '' '') t;
          leading = length t - length trimmed
      in if leading > 0 then concat (replicate leading space_mark) @ trimmed else t)"

text \<open>Lines \<open>lo\<close> to \<open>hi\<close>, as far as there are such lines.\<close>

definition labelled :: "(string \<Rightarrow> string) \<Rightarrow> string list \<Rightarrow> nat \<Rightarrow> nat \<Rightarrow> string" where
  "labelled show_line ls lo hi =
     concat (map (\<lambda>i. line_label (i + 1) @ show_line (ls ! i) @ [nl]) [lo ..< min (hi + 1) (length ls)])"

definition format_whitespace_hint :: "string list \<Rightarrow> nat \<Rightarrow> nat \<Rightarrow> string" where
  "format_whitespace_hint content_lines start_line end_line =
     ''A whitespace-normalized match was found, so the text exists but with different whitespace (tabs vs spaces, or different indentation).'' @ [nl] @
     ''Actual file content (lines '' @ nat_str (start_line + 1) @ ''-'' @ nat_str (end_line + 1) @ ''):'' @ [nl] @
     labelled visualize_ws content_lines start_line end_line @
     ''Use the exact whitespace shown above ('' @ tab_mark @ '' = tab, '' @ space_mark @ '' = space).''"

definition diagnose_whitespace_mismatch :: "string list \<Rightarrow> string list \<Rightarrow> string" where
  "diagnose_whitespace_mismatch content_lines old_lines =
     (case find_normalized_matches (unlines content_lines) (unlines old_lines) of
        [] \<Rightarrow> []
      | (first, final) # _ \<Rightarrow> format_whitespace_hint content_lines first final)"

definition strip_blank_lines :: "string list \<Rightarrow> string list" where
  "strip_blank_lines ls = rev (dropWhile (\<lambda>l. l = []) (rev (dropWhile (\<lambda>l. l = []) ls)))"

definition line_score :: "string list \<Rightarrow> string list \<Rightarrow> nat \<Rightarrow> nat" where
  "line_score content_lines trimmed_old s =
     length (filter (\<lambda>j. trim_space (content_lines ! (s + j)) = trimmed_old ! j) [0 ..< length trimmed_old])"

text \<open>The best start so far and its score; a later window must be better.\<close>

definition best_window :: "string list \<Rightarrow> string list \<Rightarrow> nat option \<times> nat" where
  "best_window content_lines trimmed_old =
     foldl (\<lambda>(best, score) s.
         let sc = line_score content_lines trimmed_old s
         in if sc > score then (Some s, sc) else (best, score))
       (None, 0) [0 ..< length content_lines + 1 - length trimmed_old]"

definition best_line_match :: "string list \<Rightarrow> string list \<Rightarrow> (nat \<times> nat \<times> nat) option" where
  "best_line_match content_lines old_lines =
     (if old_lines = [] \<or> content_lines = [] then None
      else (let trimmed_old = strip_blank_lines (map trim_space old_lines);
                window = length trimmed_old
            in if trimmed_old = [] then None
               else (case best_window content_lines trimmed_old of
                  (None, _) \<Rightarrow> None
                | (Some s, score) \<Rightarrow> if score < (window + 1) div 2 then None else Some (s, window, score))))"

definition diagnose_best_line_match :: "string list \<Rightarrow> string list \<Rightarrow> string" where
  "diagnose_best_line_match content_lines old_lines =
     (case best_line_match content_lines old_lines of
        None \<Rightarrow> []
      | Some (s, window, score) \<Rightarrow>
          (let end_line = s + window - 1 in
           ''No exact match found. Closest match at lines '' @ nat_str (s + 1) @ ''-'' @ nat_str (end_line + 1) @
           '' ('' @ nat_str score @ ''/'' @ nat_str window @ '' lines match after trimming whitespace):'' @ [nl] @
           labelled visualize_ws content_lines (s - 1) (min (length content_lines - 1) (end_line + 1)) @
           ''Use the exact text shown above ('' @ tab_mark @ '' = tab, '' @ space_mark @ '' = space).''))"

definition diagnose_mismatch :: "string \<Rightarrow> string \<Rightarrow> string" where
  "diagnose_mismatch content old =
     (let hint = diagnose_whitespace_mismatch (lines_of content) (lines_of old)
      in if hint \<noteq> [] then hint else diagnose_best_line_match (lines_of content) (lines_of old))"

definition region_context_lines :: nat where "region_context_lines = 40"
definition region_context_max_len :: nat where "region_context_max_len = 8000"
definition max_line_length :: nat where "max_line_length = 2000"

fun region_loop :: "string \<Rightarrow> string list \<Rightarrow> nat list \<Rightarrow> string" where
  "region_loop b content_lines [] = b"
| "region_loop b content_lines (i # is) =
     (let line = content_lines ! i;
          shown = (if length line > max_line_length then take max_line_length line @ ellipsis else line);
          b' = b @ line_label (i + 1) @ shown @ [nl]
      in if length b' > region_context_max_len
         then b' @ ellipsis @ '' [region truncated] '' @ ellipsis @ [nl]
         else region_loop b' content_lines is)"

definition current_region_context :: "string \<Rightarrow> string \<Rightarrow> string" where
  "current_region_context content old =
     (let content_lines = lines_of content in
      case best_line_match content_lines (lines_of old) of
        None \<Rightarrow> []
      | Some (s, window, score) \<Rightarrow>
          (let lo = s - region_context_lines;
               hi = min (length content_lines - 1) (s + window - 1 + region_context_lines)
           in region_loop (''Current file content (lines '' @ nat_str (lo + 1) @ ''-'' @ nat_str (hi + 1) @ ''):'' @ [nl])
                content_lines [lo ..< hi + 1] @
              ''Edit against the exact text shown above.''))"

definition not_found_error :: "string \<Rightarrow> string \<Rightarrow> string" where
  "not_found_error content old =
     ''old_string not found in file. Make sure it matches exactly, including whitespace and line breaks'' @
     (let hint = diagnose_mismatch content old in if hint = [] then [] else [nl, nl] @ hint) @
     (let region = current_region_context content old in if region = [] then [] else [nl, nl] @ region)"

definition ambiguous_error :: string where
  "ambiguous_error = ''old_string appears multiple times in the file. Please provide more context to ensure a unique match, or set replace_all to true''"

text \<open>The new content, and whether it was found only up to white space.\<close>

definition find_and_replace :: "string \<Rightarrow> string \<Rightarrow> string \<Rightarrow> bool \<Rightarrow> string + (string \<times> bool)" where
  "find_and_replace content old new replace_all =
     (let fallback = (case normalized_replace content old new replace_all of
                        Some result \<Rightarrow> Inr (result, True)
                      | None \<Rightarrow> Inl (not_found_error content old))
      in if replace_all
         then (if str_contains content old then Inr (str_replace_all old new content, False) else fallback)
         else (case str_index content old of
                 None \<Rightarrow> fallback
               | Some i \<Rightarrow>
                   if Some i \<noteq> str_last_index content old then Inl ambiguous_error
                   else Inr (take i content @ new @ drop (i + length old) content, False)))"

subsection \<open>The searches find what they should\<close>

lemma str_index_None: "str_index s t = None \<longleftrightarrow> (\<forall>i\<le>length s. \<not> prefix t (drop i s))"
proof (induction s)
  case (Cons c cs)
  show ?case
  proof
    assume *: "str_index (c # cs) t = None"
    show "\<forall>i\<le>length (c # cs). \<not> prefix t (drop i (c # cs))"
    proof (intro allI impI)
      fix i
      assume "i \<le> length (c # cs)"
      then show "\<not> prefix t (drop i (c # cs))"
        using * Cons.IH by (cases i) (auto simp: has_prefix_iff split: if_splits)
    qed
  next
    assume *: "\<forall>i\<le>length (c # cs). \<not> prefix t (drop i (c # cs))"
    then have "\<not> prefix t (c # cs)" by (metis drop0 zero_le)
    moreover have "\<forall>i\<le>length cs. \<not> prefix t (drop i cs)"
      using * by (metis Suc_le_mono drop_Suc_Cons length_Cons)
    ultimately show "str_index (c # cs) t = None" using Cons.IH by (simp add: has_prefix_iff)
  qed
qed auto

lemma str_index_Some:
  "str_index s t = Some i \<Longrightarrow> i \<le> length s \<and> prefix t (drop i s) \<and> (\<forall>j<i. \<not> prefix t (drop j s))"
proof (induction s arbitrary: i)
  case (Cons c cs)
  show ?case
  proof (cases "prefix t (c # cs)")
    case True
    with Cons.prems show ?thesis by (simp add: has_prefix_iff)
  next
    case False
    with Cons.prems obtain k where k: "str_index cs t = Some k" "i = Suc k" by (auto simp: has_prefix_iff)
    have "\<not> prefix t (drop j (c # cs))" if "j < i" for j
      using False Cons.IH [OF k(1)] k(2) that by (cases j) auto
    with Cons.IH [OF k(1)] k(2) show ?thesis by auto
  qed
qed (auto split: if_splits)

lemma str_last_index_None: "str_last_index s t = None \<longleftrightarrow> str_index s t = None"
  by (induction s) (auto split: option.splits)

lemma str_last_index_Some:
  "str_last_index s t = Some i \<Longrightarrow> i \<le> length s \<and> prefix t (drop i s) \<and>
     (\<forall>j\<le>length s. i < j \<longrightarrow> \<not> prefix t (drop j s))"
proof (induction s arbitrary: i)
  case (Cons c cs)
  show ?case
  proof (cases "str_last_index cs t")
    case None
    then have "\<forall>j\<le>length cs. \<not> prefix t (drop j cs)" by (simp add: str_last_index_None str_index_None)
    then have "\<forall>j\<le>length (c # cs). 0 < j \<longrightarrow> \<not> prefix t (drop j (c # cs))"
      by (metis Suc_le_mono Suc_pred drop_Suc_Cons length_Cons)
    with None Cons.prems show ?thesis by (simp add: has_prefix_iff split: if_splits)
  next
    case (Some k)
    with Cons.prems have i: "i = Suc k" by simp
    have "\<not> prefix t (drop j (c # cs))" if "j \<le> length (c # cs)" "i < j" for j
      using Cons.IH [OF Some] i that by (cases j) auto
    with Cons.IH [OF Some] i show ?thesis by simp
  qed
qed (auto split: if_splits)

lemma prefix_at: "prefix t (drop i s) \<Longrightarrow> s = take i s @ t @ drop (i + length t) s"
  by (auto simp: prefix_def) (metis append_eq_conv_conj append_take_drop_id drop_drop add.commute)

text \<open>A single occurrence: first and last index agree.\<close>

lemma one_occurrence:
  assumes "str_index s t = Some i" and "str_last_index s t = Some i" and "s = p @ t @ q"
  shows "p = take i s"
proof -
  have "prefix t (drop (length p) s)" "length p \<le> length s" using assms(3) by simp_all
  moreover have "\<forall>j<i. \<not> prefix t (drop j s)" "\<forall>j\<le>length s. i < j \<longrightarrow> \<not> prefix t (drop j s)"
    using str_index_Some [OF assms(1)] str_last_index_Some [OF assms(2)] by blast+
  ultimately have "length p = i" by (meson linorder_neqE_nat)
  then show ?thesis using assms(3) by auto
qed

subsection \<open>Lines and offsets\<close>

definition no_nl :: "string list \<Rightarrow> bool" where
  "no_nl ls \<longleftrightarrow> list_all (\<lambda>l. nl \<notin> set l) ls"

lemma no_nl_split: "no_nl (lines_of s)"
  by (auto simp: no_nl_def list_all_iff dest: split_on_no_sep)

lemma no_nl_sub [simp]: "no_nl (xs @ ys) \<longleftrightarrow> no_nl xs \<and> no_nl ys" "no_nl (x # xs) \<longleftrightarrow> nl \<notin> set x \<and> no_nl xs" "no_nl []"
  by (auto simp: no_nl_def)

lemma no_nl_take_drop: "no_nl ls \<Longrightarrow> no_nl (take k ls)" "no_nl ls \<Longrightarrow> no_nl (drop k ls)"
  by (metis append_take_drop_id no_nl_sub(1))+

lemma lines_unlines: "ls \<noteq> [] \<Longrightarrow> no_nl ls \<Longrightarrow> lines_of (unlines ls) = ls"
  by (rule split_on_join) (auto simp: no_nl_def list_all_iff)

lemma split_field_no_nl: "split_field s = (f, rest) \<Longrightarrow> nl \<notin> set f"
proof (induction s arbitrary: f rest)
  case (Cons c cs)
  have "starts_space (nl # cs)"
    by (simp add: starts_space_def white_space_def has_prefix_def)
  then show ?case using Cons by (auto split: if_splits prod.splits)
qed simp

lemma fields_no_nl: "f \<in> set (fields s) \<Longrightarrow> nl \<notin> set f"
proof (induction s rule: fields.induct)
  case (1 s)
  let ?t = "trim_front white_space s"
  obtain g rest where g: "split_field ?t = (g, rest)" by fastforce
  show ?case
  proof (cases "?t = []")
    case True
    then show ?thesis using 1(2) by (subst (asm) fields.simps) simp
  next
    case False
    then have "f = g \<or> f \<in> set (fields rest)"
      using 1(2) g by (subst (asm) fields.simps) simp
    then show ?thesis using split_field_no_nl [OF g] 1(1) [OF refl False g [symmetric]] by blast
  qed
qed

lemma join_no_nl: "(\<And>p. p \<in> set ps \<Longrightarrow> nl \<notin> set p) \<Longrightarrow> nl \<notin> set sep \<Longrightarrow> nl \<notin> set (join_with sep ps)"
  by (induction sep ps rule: join_with.induct) auto

lemma normalize_no_nl: "nl \<notin> set (normalize_ws s)"
  unfolding normalize_ws_def by (rule join_no_nl) (auto dest: fields_no_nl)

lemma no_nl_normalized: "no_nl (map normalize_ws ls)"
  by (simp add: no_nl_def list_all_iff normalize_no_nl)

text \<open>A whole-line occurrence at the start of a text, seen on its lines.\<close>

lemma whole_lines:
  assumes L: "L \<noteq> []" "no_nl L" and W: "W \<noteq> []" "no_nl W"
  shows "prefix (unlines W) (unlines L) \<and>
      (length (unlines L) = length (unlines W) \<or> unlines L ! length (unlines W) = nl) \<longleftrightarrow>
    take (length W) L = W"
proof
  assume *: "prefix (unlines W) (unlines L) \<and>
      (length (unlines L) = length (unlines W) \<or> unlines L ! length (unlines W) = nl)"
  then obtain rest where rest: "unlines L = unlines W @ rest" by (auto simp: prefix_def)
  show "take (length W) L = W"
  proof (cases rest)
    case Nil
    then have "lines_of (unlines L) = lines_of (unlines W)" using rest by (simp only: append_Nil2)
    then have "L = W" by (simp only: lines_unlines [OF L] lines_unlines [OF W])
    then show ?thesis by simp
  next
    case (Cons c r)
    with * rest have "c = nl" by (auto simp: nth_append)
    then have "lines_of (unlines L) = lines_of (unlines W) @ lines_of r"
      unfolding rest Cons by (simp only: split_on_append)
    then have "L = W @ lines_of r" by (simp only: lines_unlines [OF L] lines_unlines [OF W])
    then show ?thesis by simp
  qed
next
  assume "take (length W) L = W"
  then obtain M where M: "L = W @ M" by (metis append_take_drop_id)
  show "prefix (unlines W) (unlines L) \<and>
      (length (unlines L) = length (unlines W) \<or> unlines L ! length (unlines W) = nl)"
  proof (cases "M = []")
    case False
    then have "unlines L = unlines W @ nl # unlines M" using M W by (simp add: join_with_append)
    then show ?thesis by (simp add: nth_append)
  qed (use M in simp)
qed

text \<open>Where line \<open>k\<close> starts; the line after the last one starts behind the text.\<close>

definition line_start :: "string list \<Rightarrow> nat \<Rightarrow> nat" where
  "line_start L k = sum_list (map (\<lambda>l. length l + 1) (take k L))"

lemma line_start_0 [simp]: "line_start L 0 = 0"
  by (simp add: line_start_def)

lemma line_start_Suc: "k < length L \<Longrightarrow> line_start L (Suc k) = line_start L k + length (L ! k) + 1"
  by (simp add: line_start_def take_Suc_conv_app_nth)

lemma line_start_add: "line_start L (j + k) = line_start L j + line_start (drop j L) k"
  by (simp add: line_start_def take_add)

lemma line_start_less: "j < k \<Longrightarrow> k \<le> length L \<Longrightarrow> line_start L j < line_start L k"
proof (induction k)
  case (Suc k)
  then show ?case using line_start_Suc [of k L] by (cases "j = k") auto
qed simp

lemma line_start_all: "L \<noteq> [] \<Longrightarrow> line_start L (length L) = length (unlines L) + 1"
proof (induction L)
  case (Cons l L)
  then show ?case by (cases "L = []") (auto simp: line_start_def join_with_Cons)
qed simp

lemma drop_line_start: "k < length L \<Longrightarrow> drop (line_start L k) (unlines L) = unlines (drop k L)"
proof (induction k arbitrary: L)
  case (Suc k)
  then obtain l L' where L: "L = l # L'" "k < length L'" by (cases L) auto
  then have "unlines L = l @ nl # unlines L'" by (cases L') (auto simp: join_with_Cons)
  moreover have "line_start L (Suc k) = length l + 1 + line_start L' k" by (simp add: L line_start_def)
  ultimately show ?case using Suc.IH [OF L(2)] L by simp
qed simp

lemma line_start_le: "k < length L \<Longrightarrow> line_start L k \<le> length (unlines L)"
  using line_start_less [of k "length L" L] line_start_all [of L] by (cases L) auto

lemma line_at_start:
  "k < length L \<Longrightarrow> line_at pos i L (pos + line_start L k) = Some (i + k)"
proof (induction k arbitrary: pos i L)
  case 0
  then show ?case by (cases L) auto
next
  case (Suc k)
  then obtain l L' where L: "L = l # L'" "k < length L'" by (cases L) auto
  have "line_start L (Suc k) = length l + 1 + line_start L' k" by (simp add: L line_start_def)
  then show ?case using Suc.IH [OF L(2), of "pos + length l + 1" "Suc i"] L by (simp add: ac_simps)
qed

lemma line_at_offset_start: "k < length L \<Longrightarrow> line_at_offset L (line_start L k) = k"
  using line_at_start [of k L 0 0] by (simp add: line_at_offset_def)

lemma nth_in_line:
  "k < length L \<Longrightarrow> i < length (L ! k) \<Longrightarrow> unlines L ! (line_start L k + i) = L ! k ! i"
proof -
  assume k: "k < length L" and i: "i < length (L ! k)"
  have "unlines L ! (line_start L k + i) = drop (line_start L k) (unlines L) ! i"
    using line_start_le [OF k] by simp
  also have "\<dots> = unlines (L ! k # drop (Suc k) L) ! i" using k by (simp add: drop_line_start Cons_nth_drop_Suc)
  also have "\<dots> = L ! k ! i" using i by (cases "drop (Suc k) L") (auto simp: nth_append join_with_Cons)
  finally show ?thesis .
qed

lemma nth_before_line: "Suc k < length L \<Longrightarrow> unlines L ! (line_start L (Suc k) - 1) = nl"
proof -
  assume k: "Suc k < length L"
  let ?i = "line_start L k + length (L ! k)"
  have "unlines L ! ?i = drop (line_start L k) (unlines L) ! length (L ! k)"
    using line_start_le [of k L] k by simp
  also have "\<dots> = unlines (L ! k # drop (Suc k) L) ! length (L ! k)"
    using k by (simp add: drop_line_start Cons_nth_drop_Suc)
  also have "\<dots> = nl" using k by (simp add: join_with_Cons nth_append)
  finally show ?thesis using k by (simp add: line_start_Suc)
qed

text \<open>The first line that starts at \<open>p\<close> or later.\<close>

lemma line_after:
  obtains k where "k \<le> length L" and "\<And>j. j < k \<Longrightarrow> line_start L j < p"
    and "k < length L \<Longrightarrow> p \<le> line_start L k"
proof -
  have "\<exists>k\<le>n. (\<forall>j<k. line_start L j < p) \<and> (k < n \<longrightarrow> p \<le> line_start L k)" for n
  proof (induction n)
    case (Suc n)
    then obtain k where k: "k \<le> n" "\<forall>j<k. line_start L j < p" "k < n \<longrightarrow> p \<le> line_start L k" by blast
    show ?case
    proof (cases "k < n \<or> p \<le> line_start L n")
      case True
      then show ?thesis using k by (intro exI [of _ k]) (auto simp: less_Suc_eq)
    next
      case False
      then show ?thesis using k by (intro exI [of _ "Suc n"]) (auto simp: less_Suc_eq)
    qed
  qed auto
  then show ?thesis using that by blast
qed

lemma at_line_start:
  assumes L: "L \<noteq> []" "no_nl L" and a: "a \<le> length (unlines L)" and start: "a = 0 \<or> unlines L ! (a - 1) = nl"
  obtains m where "m < length L" and "a = line_start L m"
proof -
  obtain k where k: "k \<le> length L" "\<And>j. j < k \<Longrightarrow> line_start L j < a" "k < length L \<Longrightarrow> a \<le> line_start L k"
    using line_after by blast
  show ?thesis
  proof (cases k)
    case 0
    with k(3) L(1) have "a = 0" by simp
    with L(1) that [of 0] show ?thesis by simp
  next
    case (Suc j)
    with k have j: "j < length L" "line_start L j < a" by auto
    have "line_start L k \<le> a"
    proof (rule ccontr)
      assume "\<not> line_start L k \<le> a"
      then have i: "a - 1 - line_start L j < length (L ! j)" using line_start_Suc [OF j(1)] j(2) Suc by simp
      have "unlines L ! (a - 1) = L ! j ! (a - 1 - line_start L j)"
        using nth_in_line [OF j(1) i] j(2) by simp
      moreover have "L ! j ! (a - 1 - line_start L j) \<noteq> nl"
        using i j(1) L(2) by (auto simp: no_nl_def list_all_length in_set_conv_nth)
      ultimately show False using start j(2) by simp
    qed
    then have "k < length L" using line_start_all [OF L(1)] a k(1) by (cases "k = length L") auto
    then show ?thesis using that [of k] k(3) \<open>line_start L k \<le> a\<close> by simp
  qed
qed

subsection \<open>The search up to white space is a search over lines\<close>

text \<open>The reference: from the top, a window of lines that are equal to the wanted ones, then on behind it.\<close>

function line_windows :: "nat \<Rightarrow> string list \<Rightarrow> string list \<Rightarrow> (nat \<times> nat) list" where
  "line_windows i wanted ls =
     (if ls = [] \<or> wanted = [] then []
      else if take (length wanted) ls = wanted
      then (i, i + length wanted - 1) # line_windows (i + length wanted) wanted (drop (length wanted) ls)
      else line_windows (i + 1) wanted (tl ls))"
  by auto
termination by (relation "measure (\<lambda>(i, wanted, ls). length ls)") auto

declare line_windows.simps [simp del]

lemma line_windows_skip:
  assumes "k \<le> k'" and "k' \<le> length L" and "\<And>j. k \<le> j \<Longrightarrow> j < k' \<Longrightarrow> take (length W) (drop j L) \<noteq> W" and "W \<noteq> []"
  shows "line_windows k W (drop k L) = line_windows k' W (drop k' L)"
  using assms(1-3)
proof (induction "k' - k" arbitrary: k)
  case (Suc n)
  then have k: "k < k'" "k < length L" by auto
  have "tl (drop k L) = drop (Suc k) L" by (simp add: drop_Suc tl_drop)
  moreover have "take (length W) (drop k L) \<noteq> W" using Suc.prems(3) k(1) by simp
  ultimately have "line_windows k W (drop k L) = line_windows (k + 1) W (drop (Suc k) L)"
    using k(2) \<open>W \<noteq> []\<close> line_windows.simps [of k W "drop k L"] by simp
  also have "\<dots> = line_windows k' W (drop k' L)"
    using Suc.hyps(1) [of "k + 1"] Suc.hyps(2) Suc.prems k by simp
  finally show ?case .
qed simp

lemma line_windows_none:
  "(\<And>j. k \<le> j \<Longrightarrow> j < length L \<Longrightarrow> take (length W) (drop j L) \<noteq> W) \<Longrightarrow> W \<noteq> [] \<Longrightarrow> k \<le> length L \<Longrightarrow>
     line_windows k W (drop k L) = []"
  using line_windows_skip [of k "length L" L W] line_windows.simps [of "length L" W "[]"] by simp

text \<open>
  The search up to white space finds whole lines. However the code computes it on byte offsets
  of the joined, normalised text, the ranges it returns are exactly those of a search line by line:
  from the top, each window of lines that equal the lines of \<open>old\<close> when every run of white space
  counts as one space, and then on behind that window.
\<close>

lemma find_windows:
  "find_normalized_matches content old =
     (if trim_space (join_normalized (lines_of old)) = [] then []
      else line_windows 0 (map normalize_ws (lines_of old)) (map normalize_ws (lines_of content)))"
proof -
  define L where "L = map normalize_ws (lines_of content)"
  define W where "W = map normalize_ws (lines_of old)"
  have L: "L \<noteq> []" "no_nl L" and W: "W \<noteq> []" "no_nl W" by (simp_all add: L_def W_def no_nl_normalized)
  let ?loop = "match_loop L (unlines L) (unlines W) (length W) (length L)"
  have whole: "take (length W) (drop k L) = W \<longleftrightarrow> prefix (unlines W) (drop (line_start L k) (unlines L)) \<and>
      (line_start L k + length (unlines W) = length (unlines L) \<or>
       unlines L ! (line_start L k + length (unlines W)) = nl)" if k: "k < length L" for k
  proof -
    have "drop k L \<noteq> []" "no_nl (drop k L)" using k L by (simp_all add: no_nl_take_drop)
    from whole_lines [OF this W] line_start_le [OF k] show ?thesis
      by (auto simp: drop_line_start [OF k, symmetric] prefix_def)
  qed
  have "?loop p = line_windows k W (drop k L)"
    if "k \<le> length L" "\<And>j. j < k \<Longrightarrow> line_start L j < p" "k < length L \<Longrightarrow> p \<le> line_start L k" for k p
    using that
  proof (induction "length (unlines L) + 1 - p" arbitrary: p k rule: less_induct)
    case less
    have skip: "line_windows k W (drop k L) = line_windows k' W (drop k' L)"
      if k': "k \<le> k'" "k' \<le> length L" and no: "\<And>j. j < k' \<Longrightarrow> p \<le> line_start L j \<Longrightarrow> take (length W) (drop j L) \<noteq> W" for k'
    proof (rule line_windows_skip [OF k' _ W(1)])
      fix j
      assume j: "k \<le> j" "j < k'"
      then have "k < length L" "j \<le> length L" using k' by simp_all
      then have "p \<le> line_start L j"
        using less.prems(3) line_start_less [of k j L] j by (cases "j = k") auto
      then show "take (length W) (drop j L) \<noteq> W" using no j by blast
    qed
    show ?case
    proof (cases "p > length (unlines L)")
      case True
      have "k = length L"
        using less.prems(1,3) True line_start_le [of k L] by (cases "k < length L") auto
      then show ?thesis
        using True by (subst match_loop.simps) (simp add: line_windows.simps [of "length L" W "[]"])
    next
      case inside: False
      show ?thesis
      proof (cases "str_index (drop p (unlines L)) (unlines W)")
        case None
        have no: "take (length W) (drop j L) \<noteq> W" if "j < length L" "p \<le> line_start L j" for j
        proof
          assume "take (length W) (drop j L) = W"
          then have "prefix (unlines W) (drop (line_start L j - p) (drop p (unlines L)))"
            using whole [OF that(1)] that(2) by simp
          moreover have "line_start L j - p \<le> length (drop p (unlines L))"
            using line_start_le [OF that(1)] by simp
          ultimately show False using None unfolding str_index_None by blast
        qed
        have "line_windows k W (drop k L) = line_windows (length L) W (drop (length L) L)"
          by (rule skip) (use less.prems(1) no in auto)
        then show ?thesis
          using None inside by (subst match_loop.simps) (simp add: line_windows.simps [of "length L" W "[]"])
      next
        case (Some idx)
        let ?a = "p + idx" and ?n = "length (unlines W)" and ?N = "length (unlines L)"
        let ?e = "?a + ?n"
        have idx: "idx \<le> ?N - p" "prefix (unlines W) (drop ?a (unlines L))"
            "\<And>j. j < idx \<Longrightarrow> \<not> prefix (unlines W) (drop (p + j) (unlines L))"
          using str_index_Some [OF Some] by (simp_all add: add.commute)
        then have a: "?a \<le> ?N" "?e \<le> ?N" using inside prefix_length_le [OF idx(2)] by simp_all
        have before: "take (length W) (drop j L) \<noteq> W" if "j < length L" "p \<le> line_start L j" "line_start L j < ?a" for j
          using whole [OF that(1)] idx(3) [of "line_start L j - p"] that(2,3) by auto
        let ?start = "?a = 0 \<or> unlines L ! (?a - 1) = nl" and ?stops = "?e = ?N \<or> unlines L ! ?e = nl"
        show ?thesis
        proof (cases "?start \<and> ?stops")
          case False
          obtain k' where k': "k' \<le> length L" "\<And>j. j < k' \<Longrightarrow> line_start L j < ?a + 1"
              "k' < length L \<Longrightarrow> ?a + 1 \<le> line_start L k'"
            using line_after by blast
          have kk: "k \<le> k'"
            using less.prems(2) [of k'] k'(1,3) less.prems(1) by (cases "k' < k") auto
          have no: "take (length W) (drop j L) \<noteq> W" if "j < k'" "p \<le> line_start L j" for j
          proof (cases "line_start L j = ?a")
            case True
            have j: "j < length L" using that k' by simp
            have "?start"
            proof (cases j)
              case (Suc i)
              then have "unlines L ! (line_start L j - 1) = nl"
                using j nth_before_line [of i L] by simp
              then show ?thesis using True by simp
            qed (use True in simp)
            then show ?thesis using False whole [OF j] True by simp
          next
            case other: False
            then show ?thesis using before [of j] that k'(1) k'(2) [of j] by simp
          qed
          have "?loop p = ?loop (?a + 1)"
            using inside Some False by (subst match_loop.simps) (auto simp: Let_def)
          also have "\<dots> = line_windows k' W (drop k' L)"
            by (rule less.hyps) (use inside k' in auto)
          also have "\<dots> = line_windows k W (drop k L)"
            by (rule skip [symmetric]) (use kk k'(1) no in auto)
          finally show ?thesis .
        next
          case True
          obtain m where m: "m < length L" "?a = line_start L m"
            using at_line_start [OF L a(1)] True by blast
          have here: "take (length W) (drop m L) = W" using whole [OF m(1)] m(2) idx(2) True by simp
          have fits: "m + length W \<le> length L"
            using arg_cong [OF here, of length] m(1) by (simp add: min_def split: if_splits)
          have "line_start (drop m L) (length W) = line_start W (length W)"
            unfolding line_start_def here by simp
          then have "line_start L (m + length W) = ?a + line_start W (length W)"
            by (simp only: line_start_add m(2))
          then have next_start: "line_start L (m + length W) = ?e + 1"
            using line_start_all [OF W(1)] by simp
          have kk: "k \<le> m"
            using less.prems(2) [of m] m by (cases "m < k") auto
          have no: "take (length W) (drop j L) \<noteq> W" if "j < m" "p \<le> line_start L j" for j
            using before [of j] that m line_start_less [of j m L] by simp
          have "?loop p = (m, m + length W - 1) # ?loop (?e + 1)"
            using inside Some True m fits W(1) line_at_offset_start [OF m(1)]
            by (subst match_loop.simps) (auto simp: Let_def)
          also have "?loop (?e + 1) = line_windows (m + length W) W (drop (m + length W) L)"
          proof (rule less.hyps)
            show "?N + 1 - (?e + 1) < ?N + 1 - p" using inside by simp
            show "m + length W \<le> length L" by (rule fits)
            show "line_start L j < ?e + 1" if "j < m + length W" for j
              using line_start_less [OF that fits] next_start by simp
          qed (simp add: next_start)
          also have "(m, m + length W - 1) # line_windows (m + length W) W (drop (m + length W) L) =
              line_windows m W (drop m L)"
            using here m(1) W(1) line_windows.simps [of m W "drop m L"] by (simp add: add.commute)
          also have "\<dots> = line_windows k W (drop k L)"
            by (rule skip [symmetric]) (use kk m no in auto)
          finally show ?thesis .
        qed
      qed
    qed
  qed
  from this [of 0 0] have "?loop 0 = line_windows 0 W L" by simp
  then show ?thesis
    by (simp add: find_normalized_matches_def Let_def join_normalized_def L_def W_def)
qed

subsection \<open>What an edit changes\<close>

lemma line_windows_sound:
  "(s, e) \<in> set (line_windows i W ls) \<Longrightarrow> i \<le> s \<and> e = s + length W - 1 \<and> s - i + length W \<le> length ls \<and>
     take (length W) (drop (s - i) ls) = W"
proof (induction i W ls rule: line_windows.induct)
  case (1 i W ls)
  show ?case
  proof (cases "ls = [] \<or> W = []")
    case True
    then show ?thesis using 1(3) by (subst (asm) line_windows.simps) simp
  next
    case False
    show ?thesis
    proof (cases "take (length W) ls = W")
      case True
      have len: "length W \<le> length ls" using arg_cong [OF True, of length] by simp
      have "(s, e) = (i, i + length W - 1) \<or> (s, e) \<in> set (line_windows (i + length W) W (drop (length W) ls))"
        using 1(3) False True by (subst (asm) line_windows.simps) simp
      then show ?thesis
      proof
        assume "(s, e) \<in> set (line_windows (i + length W) W (drop (length W) ls))"
        from 1(1) [OF False True this] len show ?thesis by (auto simp: ac_simps)
      qed (use True len in simp)
    next
      case no: False
      have "(s, e) \<in> set (line_windows (i + 1) W (tl ls))"
        using 1(3) False no by (subst (asm) line_windows.simps) simp
      from 1(2) [OF False no this] show ?thesis using False
        by (cases ls) (auto simp: Suc_diff_Suc [symmetric] drop_Suc Suc_diff_le)
    qed
  qed
qed

lemma match_window:
  assumes "(s, e) \<in> set (find_normalized_matches content old)"
  shows "s \<le> e" and "e < length (lines_of content)"
    and "map normalize_ws (take (e + 1 - s) (drop s (lines_of content))) = map normalize_ws (lines_of old)"
proof -
  let ?W = "map normalize_ws (lines_of old)"
  have "(s, e) \<in> set (line_windows 0 ?W (map normalize_ws (lines_of content)))"
    using assms by (simp add: find_windows split: if_splits)
  note w = line_windows_sound [OF this]
  have "0 < length (lines_of old)" by simp
  then have len: "e + 1 - s = length ?W" "s \<le> e" "e < length (lines_of content)" using w unfolding length_map by linarith+
  then show "s \<le> e" "e < length (lines_of content)"
    "map normalize_ws (take (e + 1 - s) (drop s (lines_of content))) = ?W"
    using w by (simp_all only: len take_map [symmetric] drop_map [symmetric] diff_zero length_map)
qed

lemma trim_left_leading: "list_all blank_char b \<Longrightarrow> trim_left (b @ s) = trim_left s"
  by (induction b) (simp_all add: trim_left_def)

lemma trim_left_idem [simp]: "trim_left (trim_left s) = trim_left s"
  by (simp only: trim_left_def dropWhile_idem)

lemma detect_indent_blank: "list_all blank_char (detect_indent_unit ls)"
  by (auto simp: detect_indent_unit_def blank_char_def list_all_iff split: prod.split)

lemma trim_left_reindent:
  assumes "list_all blank_char unit"
  shows "trim_left (reindent src unit offset line) = trim_left line"
proof -
  have "list_all blank_char (concat (replicate n unit))" for n
    using assms by (induction n) simp_all
  then show ?thesis by (simp add: reindent_def Let_def trim_left_leading)
qed

lemma reindent_no_nl:
  assumes "nl \<notin> set line" and "list_all blank_char unit"
  shows "nl \<notin> set (reindent src unit offset line)"
proof -
  have "\<not> blank_char nl" by (simp add: blank_char_def)
  then have "nl \<notin> set unit" using assms(2) unfolding list_all_iff by blast
  moreover have "set (trim_left line) \<subseteq> set line" by (auto simp: trim_left_def dest: set_dropWhileD)
  ultimately show ?thesis using assms(1) by (auto simp: reindent_def Let_def)
qed

text \<open>The adapted text differs from the new text only in the blanks its lines start with.\<close>

lemma adapt_keeps_text:
  assumes "list_all blank_char unit"
  shows "map trim_left (lines_of (adapt_indentation actual old new unit)) = map trim_left (lines_of new)"
proof -
  have "lines_of (unlines (map (reindent src unit offset) (lines_of new))) =
      map (reindent src unit offset) (lines_of new)" for src offset
    by (rule lines_unlines)
      (use no_nl_split [of new] reindent_no_nl [OF _ assms] in \<open>auto simp: no_nl_def list_all_iff\<close>)
  then show ?thesis
    by (simp add: adapt_indentation_def Let_def comp_def trim_left_reindent [OF assms])
qed

text \<open>
  C5: An edit changes one place. If a replacement of a single occurrence succeeds, then either the
  old text occurs in the file, exactly once (overlapping occurrences included), and the result is
  the file with that occurrence replaced byte for byte; or it does not occur at all, and the result
  is the file with one block of whole lines replaced, which are the lines of the old text up to
  white space, by the lines of the new text up to leading blanks. All text before and after stays
  as it was.
\<close>

theorem edit_changes_one_place:
  assumes edit: "find_and_replace content old new False = Inr (result, corrected)"
  shows "if corrected
    then \<not> str_contains content old \<and>
      (\<exists>before mid after inserted.
         lines_of content = before @ mid @ after \<and> result = unlines (before @ inserted @ after) \<and>
         map normalize_ws mid = map normalize_ws (lines_of old) \<and>
         map trim_left inserted = map trim_left (lines_of new))
    else (\<exists>before after.
         content = before @ old @ after \<and> result = before @ new @ after \<and>
         (\<forall>p q. content = p @ old @ q \<longrightarrow> p = before))"
proof (cases "str_index content old")
  case (Some i)
  then have last: "str_last_index content old = Some i" and r: "\<not> corrected"
      "result = take i content @ new @ drop (i + length old) content"
    using edit by (auto simp: find_and_replace_def Let_def split: if_splits)
  have here: "content = take i content @ old @ drop (i + length old) content"
    by (rule prefix_at) (use str_index_Some [OF Some] in simp)
  have once: "\<forall>p q. content = p @ old @ q \<longrightarrow> p = take i content"
    using one_occurrence [OF Some last] by blast
  show ?thesis unfolding if_not_P [OF r(1)] by (intro exI conjI) (rule here r(2) once)+
next
  case None
  have absent: "\<not> str_contains content old"
  proof
    assume "str_contains content old"
    then obtain p q where "content = p @ old @ q" by (auto simp: str_contains_iff sublist_def)
    then have "prefix old (drop (length p) content)" "length p \<le> length content" by simp_all
    with None show False unfolding str_index_None by blast
  qed
  let ?ms = "find_normalized_matches content old"
  have n: "normalized_replace content old new False = Some result" and c: "corrected"
    using edit None by (auto simp: find_and_replace_def Let_def split: option.splits)
  then obtain s e where m: "?ms = [(s, e)]"
    by (cases ?ms; cases "tl ?ms") (auto simp: normalized_replace_def Let_def split: if_splits)
  let ?L = "lines_of content"
  let ?mid = "take (e + 1 - s) (drop s ?L)"
  let ?ins = "lines_of (adapt_indentation (unlines ?mid) old new (detect_indent_unit ?L))"
  have se: "s \<le> e" "e < length ?L" "map normalize_ws ?mid = map normalize_ws (lines_of old)"
    using match_window [of s e content old] m by simp_all
  have "?mid @ drop (e + 1 - s + s) ?L = drop s ?L"
    by (simp only: append_take_drop_id flip: drop_drop)
  then have "take s ?L @ ?mid @ drop (e + 1) ?L = take s ?L @ drop s ?L" using se(1) by simp
  then have "?L = take s ?L @ ?mid @ drop (e + 1) ?L" by (simp only: append_take_drop_id)
  moreover have "result = unlines (take s ?L @ ?ins @ drop (e + 1) ?L)"
    using n m by (simp add: normalized_replace_def Let_def splice_def)
  moreover have "map trim_left ?ins = map trim_left (lines_of new)"
    by (rule adapt_keeps_text [OF detect_indent_blank])
  ultimately show ?thesis using se(3) absent c by auto
qed

definition demo_file :: string where
  "demo_file = ''func f() {'' @ [nl, tab] @ ''x := 1'' @ [nl] @ ''}'' @ [nl]"

theorem edit_changes_one_place_witness:
  "\<exists>before after. demo_file = before @ ''x := 1'' @ after \<and>
     ''func f() {'' @ [nl, tab] @ ''x := 2'' @ [nl] @ ''}'' @ [nl] = before @ ''x := 2'' @ after \<and>
     (\<forall>p q. demo_file = p @ ''x := 1'' @ q \<longrightarrow> p = before)"
proof -
  have "find_and_replace demo_file ''x := 1'' ''x := 2'' False =
      Inr (''func f() {'' @ [nl, tab] @ ''x := 2'' @ [nl] @ ''}'' @ [nl], False)"
    by code_simp
  from edit_changes_one_place [OF this] show ?thesis by (simp only: if_False)
qed

text \<open>
  Two windows that overlap are not noticed: the file has two places the old text could mean, but the
  search goes on behind the first, and the edit is made there. With the exact text the same edit is
  refused as ambiguous.
\<close>

lemma overlapping_windows_unnoticed:
  "find_and_replace (unlines ['' a'', '' a'', '' a'']) (unlines [''a'', ''a'']) ''b'' False =
     Inr (unlines ['' b'', '' a''], True)"
  "find_and_replace (unlines [''a'', ''a'', ''a'']) (unlines [''a'', ''a'']) ''b'' False = Inl ambiguous_error"
  by code_simp+

end
