(* ===== verification/FileHistory.thy ===== *)
theory FileHistory
  imports GoLib "HOL-Library.Multiset" "HOL-Library.List_Lexorder" "HOL-Library.Char_ord"
begin

text \<open>
  The versions of the files a session edited (internal/history/file.go) and the files it read
  (internal/filetracker/service.go), over the tables of internal/db.

  A table is its rows in the order of insertion; what the queries of internal/db/sql select and how
  they order it is written out, with \<open>sort_key\<close> for \<open>ORDER BY\<close>. Whether a statement fails, the ids
  \<open>uuid.New\<close> draws and the clock are arguments. \<open>relpath\<close> asks the file system for the canonical
  path and is a parameter of the tracker.
\<close>

subsection \<open>The files table\<close>

record file_row =
  fr_id :: string
  fr_session :: string
  fr_path :: string
  fr_content :: string
  fr_version :: int
  fr_created :: int
  fr_updated :: int

definition empty_file :: file_row where
  "empty_file = \<lparr>fr_id = [], fr_session = [], fr_path = [], fr_content = [], fr_version = 0, fr_created = 0, fr_updated = 0\<rparr>"

datatype file_event = FileCreated file_row | FileDeleted file_row

record file_history =
  fh_rows :: "file_row list"
  fh_events :: "file_event list"

datatype history_error = QueryFailed | NoRows | BeginFailed | InsertFailed | UniqueFailed | CommitFailed

abbreviation no_history :: file_history where
  "no_history \<equiv> \<lparr>fh_rows = [], fh_events = []\<rparr>"

definition list_files_by_path :: "string \<Rightarrow> file_row list \<Rightarrow> file_row list" where
  "list_files_by_path path rows =
     sort_key (\<lambda>r. - fr_version r) (sort_key (\<lambda>r. - fr_created r) (filter (\<lambda>r. fr_path r = path) rows))"

definition latest_file :: "string \<Rightarrow> string \<Rightarrow> file_row list \<Rightarrow> file_row option" where
  "latest_file path session rows =
     (case filter (\<lambda>r. fr_session r = session) (list_files_by_path path rows) of [] \<Rightarrow> None | r # _ \<Rightarrow> Some r)"

definition list_files_by_session :: "string \<Rightarrow> file_row list \<Rightarrow> file_row list" where
  "list_files_by_session session rows =
     sort_key fr_version (sort_key fr_created (filter (\<lambda>r. fr_session r = session) rows))"

text \<open>The maxima are taken over every session's rows of the path.\<close>

definition list_latest_session_files :: "string \<Rightarrow> file_row list \<Rightarrow> file_row list" where
  "list_latest_session_files session rows =
     sort_key fr_path (filter (\<lambda>f.
       (let same = filter (\<lambda>r. fr_path r = fr_path f) rows
        in fr_version f = Max (set (map fr_version same)) \<and> fr_created f = Max (set (map fr_created same))) \<and>
       fr_session f = session) rows)"

subsection \<open>The service\<close>

text \<open>One attempt of the retry loop: what fails, the id drawn, the second the row is created in.\<close>

datatype tx_fault = TxFine | TxBegin | TxInsert | TxCommit

record attempt =
  at_fault :: tx_fault
  at_id :: string
  at_now :: int

definition taken :: "string \<Rightarrow> string \<Rightarrow> string \<Rightarrow> int \<Rightarrow> file_row list \<Rightarrow> bool" where
  "taken uid path session version rows \<longleftrightarrow>
     list_ex (\<lambda>r. fr_id r = uid \<or> (fr_path r = path \<and> fr_session r = session \<and> fr_version r = version)) rows"

text \<open>
  The loop with \<open>k\<close> attempts left; \<open>i\<close> is the number of the attempt. An insertion that hits a unique
  key is tried again with the next version, unless it was the last attempt.
\<close>

fun create_attempts ::
  "nat \<Rightarrow> nat \<Rightarrow> (nat \<Rightarrow> attempt) \<Rightarrow> string \<Rightarrow> string \<Rightarrow> string \<Rightarrow> int \<Rightarrow> file_history \<Rightarrow>
   (history_error + file_row) \<times> file_history" where
  "create_attempts 0 i att session path content version h = (Inr empty_file, h)"
| "create_attempts (Suc k) i att session path content version h =
     (let a = att i in
      if at_fault a = TxBegin then (Inl BeginFailed, h)
      else if at_fault a = TxInsert then (Inl InsertFailed, h)
      else if taken (at_id a) path session version (fh_rows h)
      then (if k > 0 then create_attempts k (Suc i) att session path content (version + 1) h
            else (Inl UniqueFailed, h))
      else if at_fault a = TxCommit then (Inl CommitFailed, h)
      else let row = \<lparr>fr_id = at_id a, fr_session = session, fr_path = path, fr_content = content,
                      fr_version = version, fr_created = at_now a, fr_updated = at_now a\<rparr>
           in (Inr row, h\<lparr>fh_rows := fh_rows h @ [row], fh_events := fh_events h @ [FileCreated row]\<rparr>))"

definition max_retries :: nat where "max_retries = 3"

definition create_with_version ::
  "(nat \<Rightarrow> attempt) \<Rightarrow> string \<Rightarrow> string \<Rightarrow> string \<Rightarrow> int \<Rightarrow> file_history \<Rightarrow> (history_error + file_row) \<times> file_history" where
  "create_with_version = create_attempts max_retries 0"

definition initial_version :: int where "initial_version = 0"

definition create_file ::
  "(nat \<Rightarrow> attempt) \<Rightarrow> string \<Rightarrow> string \<Rightarrow> string \<Rightarrow> file_history \<Rightarrow> (history_error + file_row) \<times> file_history" where
  "create_file att session path content = create_with_version att session path content initial_version"

definition create_version ::
  "bool \<Rightarrow> (nat \<Rightarrow> attempt) \<Rightarrow> string \<Rightarrow> string \<Rightarrow> string \<Rightarrow> file_history \<Rightarrow> (history_error + file_row) \<times> file_history" where
  "create_version list_ok att session path content h =
     (if \<not> list_ok then (Inl QueryFailed, h)
      else (case list_files_by_path path (fh_rows h) of
        [] \<Rightarrow> create_file att session path content h
      | latest # _ \<Rightarrow> create_with_version att session path content (fr_version latest + 1) h))"

definition get_file :: "bool \<Rightarrow> string \<Rightarrow> file_history \<Rightarrow> history_error + file_row" where
  "get_file ok uid h =
     (if \<not> ok then Inl QueryFailed
      else (case filter (\<lambda>r. fr_id r = uid) (fh_rows h) of [] \<Rightarrow> Inl NoRows | r # _ \<Rightarrow> Inr r))"

definition get_by_path_and_session :: "bool \<Rightarrow> string \<Rightarrow> string \<Rightarrow> file_history \<Rightarrow> history_error + file_row" where
  "get_by_path_and_session ok path session h =
     (if \<not> ok then Inl QueryFailed
      else (case latest_file path session (fh_rows h) of None \<Rightarrow> Inl NoRows | Some r \<Rightarrow> Inr r))"

definition list_by_session :: "bool \<Rightarrow> string \<Rightarrow> file_history \<Rightarrow> history_error + file_row list" where
  "list_by_session ok session h =
     (if \<not> ok then Inl QueryFailed else Inr (list_files_by_session session (fh_rows h)))"

definition list_latest_by_session :: "bool \<Rightarrow> string \<Rightarrow> file_history \<Rightarrow> history_error + file_row list" where
  "list_latest_by_session ok session h =
     (if \<not> ok then Inl QueryFailed else Inr (list_latest_session_files session (fh_rows h)))"

definition delete_file :: "bool \<times> bool \<Rightarrow> string \<Rightarrow> file_history \<Rightarrow> history_error option \<times> file_history" where
  "delete_file ok uid h =
     (case get_file (fst ok) uid h of
        Inl e \<Rightarrow> (Some e, h)
      | Inr file \<Rightarrow>
          if \<not> snd ok then (Some QueryFailed, h)
          else (None, h\<lparr>fh_rows := filter (\<lambda>r. fr_id r \<noteq> uid) (fh_rows h), fh_events := fh_events h @ [FileDeleted file]\<rparr>))"

fun delete_files :: "(string \<Rightarrow> bool \<times> bool) \<Rightarrow> file_row list \<Rightarrow> file_history \<Rightarrow> history_error option \<times> file_history" where
  "delete_files oks [] h = (None, h)"
| "delete_files oks (f # fs) h =
     (case delete_file (oks (fr_id f)) (fr_id f) h of
        (Some e, h') \<Rightarrow> (Some e, h')
      | (None, h') \<Rightarrow> delete_files oks fs h')"

definition delete_session_files ::
  "bool \<Rightarrow> (string \<Rightarrow> bool \<times> bool) \<Rightarrow> string \<Rightarrow> file_history \<Rightarrow> history_error option \<times> file_history" where
  "delete_session_files ok oks session h =
     (case list_by_session ok session h of Inl e \<Rightarrow> (Some e, h) | Inr fs \<Rightarrow> delete_files oks fs h)"

subsection \<open>The files a session read\<close>

record read_row =
  rd_session :: string
  rd_path :: string
  rd_at :: int

text \<open>
  The upsert; it fails silently, on a database error or on the table's checks. The table's key is the
  path and the session.
\<close>

definition record_read :: "(string \<Rightarrow> string) \<Rightarrow> bool \<Rightarrow> int \<Rightarrow> string \<Rightarrow> string \<Rightarrow> read_row list \<Rightarrow> read_row list" where
  "record_read relpath ok now session path reads =
     (let p = relpath path in
      if \<not> ok \<or> session = [] \<or> p = [] then reads
      else if list_ex (\<lambda>r. rd_session r = session \<and> rd_path r = p) reads
      then map (\<lambda>r. if rd_session r = session \<and> rd_path r = p then r\<lparr>rd_at := now\<rparr> else r) reads
      else reads @ [\<lparr>rd_session = session, rd_path = p, rd_at = now\<rparr>])"

text \<open>\<open>None\<close> is the zero time.\<close>

definition last_read_time :: "(string \<Rightarrow> string) \<Rightarrow> bool \<Rightarrow> string \<Rightarrow> string \<Rightarrow> read_row list \<Rightarrow> int option" where
  "last_read_time relpath ok session path reads =
     (if \<not> ok then None
      else map_option rd_at (find (\<lambda>r. rd_session r = session \<and> rd_path r = relpath path) reads))"

definition list_session_read_files :: "string \<Rightarrow> read_row list \<Rightarrow> read_row list" where
  "list_session_read_files session reads = sort_key (\<lambda>r. - rd_at r) (filter (\<lambda>r. rd_session r = session) reads)"

definition path_join :: "string \<Rightarrow> string \<Rightarrow> string" where
  "path_join a b = (if a = [] \<and> b = [] then [] else if a = [] then path_clean b
     else if b = [] then path_clean a else path_clean (a @ ''/'' @ b))"

definition abs_paths :: "string \<Rightarrow> read_row list \<Rightarrow> string list" where
  "abs_paths workdir rows = map (\<lambda>r. path_join workdir (rd_path r)) rows"

definition list_read_files :: "string \<Rightarrow> bool \<Rightarrow> string \<Rightarrow> read_row list \<Rightarrow> string list option" where
  "list_read_files workdir ok session reads =
     (if \<not> ok then None else Some (abs_paths workdir (list_session_read_files session reads)))"

definition list_recent_read_files :: "string \<Rightarrow> bool \<Rightarrow> string \<Rightarrow> int \<Rightarrow> read_row list \<Rightarrow> string list option" where
  "list_recent_read_files workdir ok session limit reads =
     (if \<not> ok then None
      else let rows = list_session_read_files session reads
           in Some (abs_paths workdir (if limit > 0 \<and> int (length rows) > limit then take (nat limit) rows else rows)))"

text \<open>Paths other sessions read, with how many of them did and when last.\<close>

definition list_hot_read_files :: "string \<Rightarrow> nat \<Rightarrow> read_row list \<Rightarrow> (string \<times> nat \<times> int) list" where
  "list_hot_read_files session limit reads =
     (let others = filter (\<lambda>r. rd_session r \<noteq> session) reads;
          heat = (\<lambda>p. let rs = filter (\<lambda>r. rd_path r = p) others
                      in (p, length (remdups (map rd_session rs)), Max (set (map rd_at rs))))
      in take limit (sort_key (\<lambda>(_, n, _). - int n) (sort_key (\<lambda>(_, _, t). - t)
           (map heat (remdups (map rd_path others))))))"

definition list_hot_files :: "string \<Rightarrow> bool \<Rightarrow> string \<Rightarrow> int \<Rightarrow> read_row list \<Rightarrow> (string \<times> nat \<times> int) list option" where
  "list_hot_files workdir ok session limit reads =
     (if limit \<le> 0 then Some []
      else if \<not> ok then None
      else Some (map (\<lambda>(p, n, t). (path_join workdir p, n, t)) (list_hot_read_files session (nat limit) reads)))"

subsection \<open>Versions\<close>

text \<open>
  What a history promises: for a path and a session it is the list of the contents stored, and
  storing appends to it.
\<close>

definition contents :: "string \<Rightarrow> string \<Rightarrow> file_history \<Rightarrow> string list" where
  "contents path session h =
     map fr_content (filter (\<lambda>r. fr_path r = path) (list_files_by_session session (fh_rows h)))"

text \<open>The versions a session has of a path are below \<open>version\<close>.\<close>

definition above :: "string \<Rightarrow> string \<Rightarrow> int \<Rightarrow> file_row list \<Rightarrow> bool" where
  "above path session version rows \<longleftrightarrow>
     (\<forall>r\<in>set rows. fr_path r = path \<and> fr_session r = session \<longrightarrow> fr_version r < version)"

lemma filter_none: "(\<And>x. x \<in> set xs \<Longrightarrow> \<not> P x) \<Longrightarrow> filter P xs = []"
  by (simp add: filter_empty_conv)

lemma sort_key_new_max:
  fixes f :: "'a \<Rightarrow> int" and g :: "'a \<Rightarrow> int"
  assumes "\<And>y. y \<in> set xs \<Longrightarrow> f y < f x"
  shows "sort_key f (sort_key g (xs @ [x])) = sort_key f (sort_key g xs) @ [x]"
proof (rule properties_for_sort_key)
  show "mset (sort_key f (sort_key g xs) @ [x]) = mset (sort_key g (xs @ [x]))" by simp
  show "sorted (map f (sort_key f (sort_key g xs) @ [x]))"
    using assms by (auto simp: sorted_append intro: less_imp_le)
next
  fix k
  assume k: "k \<in> set (sort_key f (sort_key g xs) @ [x])"
  have stable: "filter (\<lambda>y. f k = f y) (sort_key f (sort_key g xs)) = filter (\<lambda>y. f k = f y) (sort_key g xs)"
    using sort_key_stable [of f "f k" "sort_key g xs"] by (simp add: eq_commute)
  show "filter (\<lambda>y. f k = f y) (sort_key f (sort_key g xs) @ [x]) = filter (\<lambda>y. f k = f y) (sort_key g (xs @ [x]))"
  proof (cases "k = x")
    case True
    have "filter (\<lambda>y. f x = f y) xs = []"
      by (rule filter_none) (metis assms less_irrefl)
    moreover have "filter (\<lambda>y. f x = f y) (sort_key f (sort_key g xs)) = []"
      by (rule filter_none) (metis assms less_irrefl set_sort)
    ultimately show ?thesis by (simp add: True filter_sort)
  next
    case False
    then have "f k < f x" using k assms by auto
    then show ?thesis unfolding filter_append stable by (simp add: filter_sort)
  qed
qed

lemma filter_by_session:
  "filter (\<lambda>r. fr_path r = path) (list_files_by_session session rows) =
     sort_key fr_version (sort_key fr_created (filter (\<lambda>r. fr_path r = path \<and> fr_session r = session) rows))"
  by (simp add: list_files_by_session_def filter_sort conj_commute)

lemma contents_new:
  assumes "fh_rows h' = fh_rows h @ [row]" and "above (fr_path row) (fr_session row) (fr_version row) (fh_rows h)"
  shows "contents path session h' =
    (if path = fr_path row \<and> session = fr_session row then contents path session h @ [fr_content row]
     else contents path session h)"
proof -
  let ?P = "\<lambda>r. fr_path r = path \<and> fr_session r = session"
  show ?thesis
  proof (cases "?P row")
    case True
    have "sort_key fr_version (sort_key fr_created (filter ?P (fh_rows h) @ [row])) =
        sort_key fr_version (sort_key fr_created (filter ?P (fh_rows h))) @ [row]"
      by (rule sort_key_new_max) (use assms(2) True in \<open>auto simp: above_def\<close>)
    with True show ?thesis by (auto simp: contents_def filter_by_session assms(1))
  next
    case False
    then show ?thesis by (auto simp: contents_def filter_by_session assms(1))
  qed
qed

lemma list_files_by_path_Nil: "list_files_by_path path rows = [] \<longleftrightarrow> (\<forall>r\<in>set rows. fr_path r \<noteq> path)"
proof -
  have "list_files_by_path path rows = [] \<longleftrightarrow> set (list_files_by_path path rows) = {}" by simp
  also have "\<dots> \<longleftrightarrow> (\<forall>r\<in>set rows. fr_path r \<noteq> path)" by (auto simp: list_files_by_path_def)
  finally show ?thesis .
qed

lemma sort_key_Cons_le:
  fixes f :: "'a \<Rightarrow> int"
  assumes "sort_key f xs = y # ys" and "x \<in> set xs"
  shows "f y \<le> f x"
proof -
  have "sorted (map f (y # ys))" using assms(1) by (metis sorted_sort_key)
  moreover have "x \<in> set (y # ys)" using assms by (metis set_sort)
  ultimately show ?thesis by auto
qed

lemma list_files_by_path_first:
  assumes "list_files_by_path path rows = latest # rest"
  shows "above path session (fr_version latest + 1) rows"
proof -
  have "- fr_version latest \<le> - fr_version r" if "r \<in> set rows" "fr_path r = path" for r
    by (rule sort_key_Cons_le [OF assms [unfolded list_files_by_path_def]]) (use that in simp)
  then show ?thesis by (force simp: above_def)
qed

lemma create_attempts_Inr:
  assumes "create_attempts k i att session path content version h = (Inr row, h')" and "k > 0"
  shows "fh_rows h' = fh_rows h @ [row] \<and> fh_events h' = fh_events h @ [FileCreated row] \<and> fr_path row = path \<and>
    fr_session row = session \<and> fr_content row = content \<and> version \<le> fr_version row \<and>
    \<not> taken (fr_id row) path session (fr_version row) (fh_rows h)"
  using assms
proof (induction k i att session path content version h rule: create_attempts.induct)
  case (2 k i att session path content version h)
  show ?case
  proof (cases "taken (at_id (att i)) path session version (fh_rows h) \<and> k > 0 \<and> at_fault (att i) \<noteq> TxBegin \<and> at_fault (att i) \<noteq> TxInsert")
    case True
    then have "create_attempts k (Suc i) att session path content (version + 1) h = (Inr row, h')"
      using "2.prems"(1) by (simp add: Let_def)
    then show ?thesis using "2.IH" [OF refl] True by fastforce
  next
    case False
    then show ?thesis using "2.prems"(1) by (auto simp: Let_def split: if_splits)
  qed
qed simp

lemma create_attempts_Inl:
  "create_attempts k i att session path content version h = (Inl e, h') \<Longrightarrow> h' = h"
  by (induction k i att session path content version h rule: create_attempts.induct)
    (auto simp: Let_def split: if_splits)

lemma create_with_version_Inr:
  assumes "create_with_version att session path content version h = (Inr row, h')"
  shows "fh_rows h' = fh_rows h @ [row]" and "fh_events h' = fh_events h @ [FileCreated row]"
    and "fr_path row = path" "fr_session row = session" "fr_content row = content" "version \<le> fr_version row"
    and "\<not> taken (fr_id row) path session (fr_version row) (fh_rows h)"
  using create_attempts_Inr [of max_retries 0 att session path content version h row h'] assms
  by (auto simp: create_with_version_def max_retries_def)

lemma create_version_Inr:
  assumes "create_version ok att session path content h = (Inr row, h')"
  shows "fh_rows h' = fh_rows h @ [row]" and "fh_events h' = fh_events h @ [FileCreated row]"
    and "fr_path row = path" "fr_session row = session" "fr_content row = content"
    and "above path s (fr_version row) (fh_rows h)"
    and "\<not> taken (fr_id row) path session (fr_version row) (fh_rows h)"
proof -
  obtain v where v: "create_with_version att session path content v h = (Inr row, h')" and a: "\<And>s. above path s v (fh_rows h)"
  proof (cases "list_files_by_path path (fh_rows h)")
    case Nil
    then have "\<forall>r\<in>set (fh_rows h). fr_path r \<noteq> path" by (simp add: list_files_by_path_Nil)
    then show ?thesis using assms Nil that [of initial_version]
      by (auto simp: create_version_def create_file_def above_def split: if_splits)
  next
    case (Cons latest rest)
    then show ?thesis using assms list_files_by_path_first [OF Cons] that [of "fr_version latest + 1"]
      by (auto simp: create_version_def split: if_splits)
  qed
  note c = create_with_version_Inr [OF v]
  show "fh_rows h' = fh_rows h @ [row]" "fh_events h' = fh_events h @ [FileCreated row]" "fr_path row = path"
    "fr_session row = session" "fr_content row = content"
    "\<not> taken (fr_id row) path session (fr_version row) (fh_rows h)" by (rule c)+
  show "above path s (fr_version row) (fh_rows h)" using a c(6) by (fastforce simp: above_def)
qed

lemma create_version_Inl: "create_version ok att session path content h = (Inl e, h') \<Longrightarrow> h' = h"
  by (auto simp: create_version_def create_file_def create_with_version_def dest: create_attempts_Inl
      split: if_splits list.splits)

lemma latest_new:
  assumes "above (fr_path row) (fr_session row) (fr_version row) rows"
  shows "latest_file path session (rows @ [row]) =
    (if path = fr_path row \<and> session = fr_session row then Some row else latest_file path session rows)"
proof -
  let ?P = "\<lambda>r. fr_path r = path \<and> fr_session r = session"
  have flt: "filter (\<lambda>r. fr_session r = session) (list_files_by_path path rs) =
      sort_key (\<lambda>r. - fr_version r) (sort_key (\<lambda>r. - fr_created r) (filter ?P rs))" for rs
    by (simp add: list_files_by_path_def filter_sort conj_commute)
  show ?thesis
  proof (cases "?P row")
    case True
    let ?s = "sort_key (\<lambda>r. - fr_version r) (sort_key (\<lambda>r. - fr_created r) (filter ?P (rows @ [row])))"
    have mem: "row \<in> set ?s" using True by simp
    obtain y ys where y: "?s = y # ys"
    proof (cases ?s)
      case Nil
      then show ?thesis using mem by (simp only: list.set empty_iff)
    qed (rule that)
    have "- fr_version y \<le> - fr_version row"
      by (rule sort_key_Cons_le [OF y]) (use True in simp)
    moreover have "y \<in> set ?s" unfolding y by simp
    then have "y = row \<or> (y \<in> set rows \<and> fr_path y = fr_path row \<and> fr_session y = fr_session row)" using True by auto
    ultimately have "y = row" using assms by (fastforce simp: above_def)
    with y True show ?thesis by (simp add: latest_file_def flt)
  next
    case False
    then have "filter ?P (rows @ [row]) = filter ?P rows" by auto
    then show ?thesis using False unfolding latest_file_def flt by auto
  qed
qed

lemma latest_create_version:
  assumes "create_version ok att session path content h = (Inr row, h')"
  shows "get_by_path_and_session True p s h' =
    (if p = path \<and> s = session then Inr row else get_by_path_and_session True p s h)"
proof -
  note c = create_version_Inr [OF assms]
  have "latest_file p s (fh_rows h') = (if p = path \<and> s = session then Some row else latest_file p s (fh_rows h))"
    unfolding c(1) using latest_new [of row "fh_rows h" p s] c(3,4,6) by simp
  then show ?thesis by (simp add: get_by_path_and_session_def)
qed

subsection \<open>The contract the editing tools rely on\<close>

text \<open>
  A log of versions per key: adding either fails and changes nothing, or appends the content to the
  key's log and makes it the key's latest; other keys are not touched.
\<close>

locale version_log =
  fixes add :: "'e \<Rightarrow> 'k \<Rightarrow> 'c \<Rightarrow> 's \<Rightarrow> ('x + 'r) \<times> 's"
    and latest :: "'k \<Rightarrow> 's \<Rightarrow> 'c option"
    and log_of :: "'k \<Rightarrow> 's \<Rightarrow> 'c list"
  assumes add_fails: "add e k c s = (Inl x, s') \<Longrightarrow> s' = s"
    and add_logs: "add e k c s = (Inr r, s') \<Longrightarrow> log_of k' s' = log_of k' s @ (if k' = k then [c] else [])"
    and add_latest: "add e k c s = (Inr r, s') \<Longrightarrow> latest k' s' = (if k' = k then Some c else latest k' s)"
begin

definition add_all :: "('e \<times> 'k \<times> 'c) list \<Rightarrow> 's \<Rightarrow> 's" where
  "add_all adds s = fold (\<lambda>(e, k, c) s. snd (add e k c s)) adds s"

lemma add_log: "log_of k' (snd (add e k c s)) = log_of k' s @ (if k' = k \<and> \<not> isl (fst (add e k c s)) then [c] else [])"
  by (cases "add e k c s"; cases "fst (add e k c s)") (auto dest: add_fails add_logs [of _ _ _ _ _ _ k'])

lemma add_snd_latest:
  "latest k' (snd (add e k c s)) = (if k' = k \<and> \<not> isl (fst (add e k c s)) then Some c else latest k' s)"
  by (cases "add e k c s"; cases "fst (add e k c s)") (auto dest: add_fails add_latest [of _ _ _ _ _ _ k'])

text \<open>Whatever fails on the way, the log only grows, and only by what was added.\<close>

lemma add_all_grows: "\<exists>new. log_of k (add_all adds s) = log_of k s @ new \<and> set new \<subseteq> {c. \<exists>e. (e, k, c) \<in> set adds}"
proof (induction adds arbitrary: s)
  case (Cons a adds)
  obtain e k' c where a: "a = (e, k', c)" by (cases a)
  let ?s = "snd (add e k' c s)"
  obtain new where new: "log_of k (add_all adds ?s) = log_of k ?s @ new" "set new \<subseteq> {c. \<exists>e. (e, k, c) \<in> set adds}"
    using Cons.IH by blast
  let ?here = "if k = k' \<and> \<not> isl (fst (add e k' c s)) then [c] else []"
  have "log_of k (add_all (a # adds) s) = log_of k s @ ?here @ new"
    using new(1) by (simp add: add_all_def a add_log)
  moreover have "set (?here @ new) \<subseteq> {c. \<exists>e. (e, k, c) \<in> set (a # adds)}"
    using new(2) a by auto
  ultimately show ?case by blast
qed (simp add: add_all_def)

text \<open>If nothing fails, the last content added to a key is its latest.\<close>

lemma add_all_latest:
  assumes "\<And>e k c s. (e, k, c) \<in> set adds \<Longrightarrow> \<not> isl (fst (add e k c s))"
  shows "latest k (add_all adds s) =
    (case filter (\<lambda>(e, k', c). k' = k) (rev adds) of [] \<Rightarrow> latest k s | (e, k', c) # _ \<Rightarrow> Some c)"
  using assms
proof (induction adds arbitrary: s rule: rev_induct)
  case (snoc a adds)
  obtain e k' c where a: "a = (e, k', c)" by (cases a)
  have ok: "\<not> isl (fst (add e k' c t))" for t using snoc.prems a by simp
  have "latest k (add_all (adds @ [a]) s) = (if k = k' then Some c else latest k (add_all adds s))"
    using ok by (simp add: add_all_def a add_snd_latest)
  then show ?case using snoc a by auto
qed (simp add: add_all_def)

end

definition add_version :: "bool \<times> (nat \<Rightarrow> attempt) \<Rightarrow> string \<times> string \<Rightarrow> string \<Rightarrow> file_history \<Rightarrow> (history_error + file_row) \<times> file_history" where
  "add_version e k c h = create_version (fst e) (snd e) (snd k) (fst k) c h"

definition latest_content :: "string \<times> string \<Rightarrow> file_history \<Rightarrow> string option" where
  "latest_content k h = map_option fr_content (latest_file (fst k) (snd k) (fh_rows h))"

interpretation file_versions: version_log add_version latest_content "\<lambda>k. contents (fst k) (snd k)"
proof
  show "s' = s" if "add_version e k c s = (Inl x, s')" for e k c s x s'
    using that by (simp add: add_version_def create_version_Inl)
  fix e k c s r s' k'
  assume "add_version e k c s = (Inr r, s')"
  note c = create_version_Inr [OF this [unfolded add_version_def]]
  show "contents (fst k') (snd k') s' = contents (fst k') (snd k') s @ (if k' = k then [c] else [])"
    using contents_new [OF c(1), of "fst k'" "snd k'"] c(3-6) by (auto simp: prod_eq_iff)
  show "latest_content k' s' = (if k' = k then Some c else latest_content k' s)"
    using latest_new [of r "fh_rows s" "fst k'" "snd k'"] c(1,3-6) by (auto simp: latest_content_def prod_eq_iff)
qed

subsection \<open>Keys stay unique\<close>

definition row_key :: "file_row \<Rightarrow> string \<times> string \<times> int" where
  "row_key r = (fr_path r, fr_session r, fr_version r)"

definition unique_rows :: "file_history \<Rightarrow> bool" where
  "unique_rows h \<longleftrightarrow> distinct (map row_key (fh_rows h)) \<and> distinct (map fr_id (fh_rows h))"

datatype history_call =
    CallCreateFile "nat \<Rightarrow> attempt" string string string
  | CallCreateVersion bool "nat \<Rightarrow> attempt" string string string
  | CallDeleteFile "bool \<times> bool" string
  | CallDeleteSession bool "string \<Rightarrow> bool \<times> bool" string

fun history_step :: "file_history \<Rightarrow> history_call \<Rightarrow> file_history" where
  "history_step h (CallCreateFile att session path c) = snd (create_file att session path c h)"
| "history_step h (CallCreateVersion ok att session path c) = snd (create_version ok att session path c h)"
| "history_step h (CallDeleteFile ok uid) = snd (delete_file ok uid h)"
| "history_step h (CallDeleteSession ok oks session) = snd (delete_session_files ok oks session h)"

lemma unique_new:
  assumes "unique_rows h" and "fh_rows h' = fh_rows h @ [row]"
    and "\<not> taken (fr_id row) (fr_path row) (fr_session row) (fr_version row) (fh_rows h)"
  shows "unique_rows h'"
  using assms by (auto simp: unique_rows_def taken_def list_ex_iff row_key_def)

lemma unique_filter: "unique_rows h \<Longrightarrow> fh_rows h' = filter P (fh_rows h) \<Longrightarrow> unique_rows h'"
  by (simp add: unique_rows_def distinct_map_filter)

lemma delete_file_unique: "unique_rows h \<Longrightarrow> unique_rows (snd (delete_file ok uid h))"
  by (auto simp: delete_file_def split: sum.splits intro: unique_filter)

lemma delete_files_unique: "unique_rows h \<Longrightarrow> unique_rows (snd (delete_files oks fs h))"
proof (induction fs arbitrary: h)
  case (Cons f fs)
  then show ?case using delete_file_unique [OF Cons.prems, of "oks (fr_id f)" "fr_id f"]
    by (auto split: prod.splits option.splits)
qed simp

lemma history_step_unique: "unique_rows h \<Longrightarrow> unique_rows (history_step h call)"
proof (induction h call rule: history_step.induct)
  case (1 h att session path c)
  obtain x h' where x: "create_with_version att session path c initial_version h = (x, h')" by fastforce
  show ?case
  proof (cases x)
    case (Inl e)
    then show ?thesis using x 1 create_attempts_Inl
      by (fastforce simp: create_file_def create_with_version_def)
  next
    case (Inr row)
    note c = create_with_version_Inr [OF x [unfolded Inr]]
    show ?thesis using unique_new [OF 1 c(1)] c x by (simp add: create_file_def)
  qed
next
  case (2 h ok att session path c)
  obtain x h' where x: "create_version ok att session path c h = (x, h')" by fastforce
  show ?case
  proof (cases x)
    case (Inl e)
    then show ?thesis using x 2 create_version_Inl by fastforce
  next
    case (Inr row)
    note c = create_version_Inr [OF x [unfolded Inr]]
    show ?thesis using unique_new [OF 2 c(1)] c x by simp
  qed
next
  case (4 h ok oks session)
  then show ?case by (auto simp: delete_session_files_def delete_files_unique split: sum.splits)
qed (simp add: delete_file_unique)

interpretation history_calls: safe_system history_step unique_rows
  by unfold_locales (rule history_step_unique)

text \<open>
  C11: A session's history of a file is an append-only log. Storing a version, whichever of its
  statements fail and however often a version was taken, either changes nothing, or appends the
  content to what the session has of the path, publishes the row, and is what
  \<open>GetByPathAndSession\<close> then returns; the histories of every other path and session stay as they
  are.
\<close>

theorem create_version_appends:
  "case create_version ok att session path c h of
     (Inl e, h') \<Rightarrow> h' = h
   | (Inr row, h') \<Rightarrow>
       contents path session h' = contents path session h @ [c] \<and> fh_events h' = fh_events h @ [FileCreated row] \<and>
       get_by_path_and_session True path session h' = Inr row \<and> fr_content row = c \<and>
       (\<forall>p s. (p, s) = (path, session) \<or>
         (contents p s h' = contents p s h \<and> get_by_path_and_session True p s h' = get_by_path_and_session True p s h))"
proof (cases "create_version ok att session path c h")
  case (Pair x h')
  show ?thesis
  proof (cases x)
    case (Inl e)
    then show ?thesis using Pair create_version_Inl by simp
  next
    case (Inr row)
    note r = Pair [unfolded Inr]
    note c = create_version_Inr [OF r]
    have logs: "contents p s h' = contents p s h @ (if (p, s) = (path, session) then [c] else [])" for p s
      using file_versions.add_logs [of "(ok, att)" "(path, session)" c h row h' "(p, s)"] r by (simp add: add_version_def)
    have "\<forall>p s. (p, s) = (path, session) \<or>
         (contents p s h' = contents p s h \<and> get_by_path_and_session True p s h' = get_by_path_and_session True p s h)"
      using logs latest_create_version [OF r] by auto
    with logs [of path session] latest_create_version [OF r, of path session] c(2,5) r Inr show ?thesis by simp
  qed
qed

lemma history_keys_unique: "unique_rows (foldl history_step no_history calls)"
  by (rule history_calls.run_good) (simp add: unique_rows_def)

text \<open>
  The list of a session's latest files is not per session: a file two sessions edited is only listed
  for the one with the higher version, and a clock that went back hides a file from both.
\<close>

definition two_sessions :: file_history where
  "two_sessions = foldl history_step no_history
     [CallCreateFile (\<lambda>_. \<lparr>at_fault = TxFine, at_id = ''1'', at_now = 10\<rparr>) ''A'' ''f'' ''a'',
      CallCreateVersion True (\<lambda>_. \<lparr>at_fault = TxFine, at_id = ''2'', at_now = 20\<rparr>) ''B'' ''f'' ''b'']"

lemma latest_files_of_other_session:
  "map_option fr_content (latest_file ''f'' ''A'' (fh_rows two_sessions)) = Some ''a''"
  "list_latest_session_files ''A'' (fh_rows two_sessions) = []"
  "map fr_content (list_latest_session_files ''B'' (fh_rows two_sessions)) = [''b'']"
  by code_simp+

subsection \<open>Reads\<close>

definition unique_reads :: "read_row list \<Rightarrow> bool" where
  "unique_reads reads \<longleftrightarrow> distinct (map (\<lambda>r. (rd_session r, rd_path r)) reads)"

lemma record_read_unique: "unique_reads reads \<Longrightarrow> unique_reads (record_read relpath ok now session path reads)"
proof -
  assume u: "unique_reads reads"
  let ?f = "\<lambda>r. if rd_session r = session \<and> rd_path r = relpath path then r\<lparr>rd_at := now\<rparr> else r"
  have "map (\<lambda>r. (rd_session r, rd_path r)) (map ?f reads) = map (\<lambda>r. (rd_session r, rd_path r)) reads"
    unfolding map_map by (rule map_cong) auto
  then show ?thesis using u unfolding record_read_def unique_reads_def Let_def by (auto simp: list_ex_iff simp del: map_map)
qed

lemma find_map_same: "(\<And>x. P x \<Longrightarrow> f x = x) \<Longrightarrow> (\<And>x. P (f x) = P x) \<Longrightarrow> find P (map f xs) = find P xs"
  by (induction xs) auto

lemma find_map_hit:
  "(\<And>x. P (f x) = P x) \<Longrightarrow> find P (map f xs) = map_option f (find P xs)"
  by (induction xs) auto

lemma last_read_other:
  assumes "session' \<noteq> session \<or> relpath path' \<noteq> relpath path"
  shows "last_read_time relpath ok' session' path' (record_read relpath ok now session path reads) =
     last_read_time relpath ok' session' path' reads"
proof -
  let ?P = "\<lambda>r. rd_session r = session' \<and> rd_path r = relpath path'"
  have "find ?P (map (\<lambda>r. if rd_session r = session \<and> rd_path r = relpath path then r\<lparr>rd_at := now\<rparr> else r) reads) = find ?P reads"
  proof (rule find_map_same)
    fix r :: read_row
    assume "?P r"
    then have "\<not> (rd_session r = session \<and> rd_path r = relpath path)" using assms by metis
    then show "(if rd_session r = session \<and> rd_path r = relpath path then r\<lparr>rd_at := now\<rparr> else r) = r" by (rule if_not_P)
  qed simp
  then show ?thesis using assms
    by (auto simp: last_read_time_def record_read_def Let_def find_snoc split: option.splits)
qed

lemma last_read_recorded:
  assumes "session \<noteq> []" and "relpath path \<noteq> []"
  shows "last_read_time relpath True session path (record_read relpath True now session path reads) = Some now"
proof -
  let ?P = "\<lambda>r. rd_session r = session \<and> rd_path r = relpath path"
  let ?f = "\<lambda>r. if ?P r then r\<lparr>rd_at := now\<rparr> else r"
  have m: "find ?P (map ?f reads) = map_option ?f (find ?P reads)"
    by (rule find_map_hit) simp
  show ?thesis
  proof (cases "find ?P reads")
    case None
    then have "\<not> list_ex ?P reads" by (auto simp: find_None_iff list_ex_iff)
    with None assms show ?thesis by (simp add: last_read_time_def record_read_def Let_def find_snoc)
  next
    case (Some r)
    then have "?P r" "list_ex ?P reads" by (auto simp: find_Some_iff list_ex_iff)
    with Some m assms show ?thesis by (simp add: last_read_time_def record_read_def Let_def)
  qed
qed

end
