(* ===== verification/EditTool.thy ===== *)
theory EditTool
  imports EditMatch FileHistory Permission
begin

text \<open>
  The tools that change a file: internal/agent/tools/edit.go, multiedit.go and write.go, with the
  line endings of internal/fsext/fileutil.go and the diff counts of internal/diff.

  The world is the disk, the history and the reads of all sessions, and a log of what the tools ask,
  write and announce. A \<open>tool_env\<close> holds what one call depends on: the context's session, what the
  operating system and the database refuse, the times, and \<open>en_ask\<close>, the permission service, which
  may keep the call waiting while anything but the log changes. Apart from that wait nothing else
  runs between the steps of a call. Paths are clean, and \<open>udiff.Unified\<close> is a parameter.
\<close>

subsection \<open>Line endings and diffs\<close>

abbreviation crlf :: string where "crlf \<equiv> [CHR 0x0D, CHR 0x0A]"

definition to_unix_line_endings :: "string \<Rightarrow> string \<times> bool" where
  "to_unix_line_endings content =
     (if str_contains content crlf then (str_replace_all crlf [nl] content, True) else (content, False))"

definition to_windows_line_endings :: "string \<Rightarrow> string \<times> bool" where
  "to_windows_line_endings content =
     (if \<not> str_contains content crlf then (str_replace_all [nl] crlf content, True) else (content, False))"

text \<open>\<open>udiff\<close> gets the two names and the two texts.\<close>

definition generate_diff ::
  "(string \<Rightarrow> string \<Rightarrow> string \<Rightarrow> string \<Rightarrow> string) \<Rightarrow> string \<Rightarrow> string \<Rightarrow> string \<Rightarrow> string \<times> nat \<times> nat" where
  "generate_diff udiff before after file_name =
     (let name = (if has_prefix file_name ''/'' then drop 1 file_name else file_name);
          unified = udiff (''a/'' @ name) (''b/'' @ name) before after;
          added = (\<lambda>l. has_prefix l ''+'' \<and> \<not> has_prefix l ''+++'');
          removed = (\<lambda>l. has_prefix l ''-'' \<and> \<not> has_prefix l ''---'')
      in (unified, length (filter added (lines_of unified)), length (filter removed (lines_of unified))))"

subsection \<open>The world\<close>

text \<open>A node of the file system; the time of a file's last change is in nanoseconds.\<close>

datatype fs_node = DirNode | FileNode string int

record edit_permissions_params =
  ep_path :: string
  ep_old :: string
  ep_new :: string

type_synonym ask_request = "edit_permissions_params create_request"

datatype tool_event = Asked ask_request bool | Wrote string string | Announced string

record tool_world =
  wd_fs :: "string \<Rightarrow> fs_node option"
  wd_history :: file_history
  wd_reads :: "read_row list"
  wd_log :: "tool_event list"

record tool_env =
  en_session :: string
  en_call_id :: string
  en_workdir :: string
  en_relpath :: "string \<Rightarrow> string"
  en_shown_path :: "string \<Rightarrow> string"
  en_udiff :: "string \<Rightarrow> string \<Rightarrow> string \<Rightarrow> string \<Rightarrow> string"
  en_stat_error :: "string option"
  en_read_error :: "nat \<Rightarrow> string option"
  en_mkdir_error :: "string option"
  en_write_error :: "(string \<times> string option) option"
  en_write_time :: int
  en_last_read_ok :: bool
  en_get_ok :: bool
  en_create :: "nat \<Rightarrow> attempt"
  en_version :: "nat \<Rightarrow> bool \<times> (nat \<Rightarrow> attempt)"
  en_record_ok :: bool
  en_record_time :: int
  en_ask :: "ask_request \<Rightarrow> tool_world \<Rightarrow> (string + bool) \<times> tool_world"

datatype stat_result = StatDir | StatFile int | NotExist | StatError string

definition stat :: "tool_env \<Rightarrow> string \<Rightarrow> tool_world \<Rightarrow> stat_result" where
  "stat env path w =
     (case en_stat_error env of
        Some e \<Rightarrow> StatError e
      | None \<Rightarrow> (case wd_fs w path of None \<Rightarrow> NotExist | Some DirNode \<Rightarrow> StatDir | Some (FileNode c m) \<Rightarrow> StatFile m))"

definition read_file :: "tool_env \<Rightarrow> nat \<Rightarrow> string \<Rightarrow> tool_world \<Rightarrow> string + string" where
  "read_file env n path w =
     (case en_read_error env n of
        Some e \<Rightarrow> Inl e
      | None \<Rightarrow> (case wd_fs w path of Some (FileNode c m) \<Rightarrow> Inr c
                  | Some DirNode \<Rightarrow> Inl ''is a directory'' | None \<Rightarrow> Inl ''no such file or directory''))"

text \<open>
  \<open>os.WriteFile\<close>. When it fails the file may be left as it was, or with any bytes. A write that
  succeeded is logged.
\<close>

definition write_file :: "tool_env \<Rightarrow> string \<Rightarrow> string \<Rightarrow> tool_world \<Rightarrow> string option \<times> tool_world" where
  "write_file env path bytes w =
     (if wd_fs w path = Some DirNode then (Some ''is a directory'', w)
      else (case en_write_error env of
        Some (e, None) \<Rightarrow> (Some e, w)
      | Some (e, Some left) \<Rightarrow> (Some e, w\<lparr>wd_fs := (wd_fs w)(path \<mapsto> FileNode left (en_write_time env))\<rparr>)
      | None \<Rightarrow> (None, w\<lparr>wd_fs := (wd_fs w)(path \<mapsto> FileNode bytes (en_write_time env)), wd_log := wd_log w @ [Wrote path bytes]\<rparr>)))"

definition parent_dirs :: "string \<Rightarrow> string list" where
  "parent_dirs path = [take i path. i \<leftarrow> [1 ..< length path], path ! i = CHR ''/'']"

definition ensure_parent_dir :: "tool_env \<Rightarrow> string \<Rightarrow> tool_world \<Rightarrow> string option \<times> tool_world" where
  "ensure_parent_dir env path w =
     (case en_mkdir_error env of
        Some e \<Rightarrow> (Some (''failed to create parent directories: '' @ e), w)
      | None \<Rightarrow>
          if list_ex (\<lambda>d. wd_fs w d \<noteq> None \<and> wd_fs w d \<noteq> Some DirNode) (parent_dirs path)
          then (Some ''failed to create parent directories: not a directory'', w)
          else (None, w\<lparr>wd_fs := (\<lambda>p. if p \<in> set (parent_dirs path) then Some DirNode else wd_fs w p)\<rparr>))"

definition write_file_with_parents :: "tool_env \<Rightarrow> string \<Rightarrow> string \<Rightarrow> tool_world \<Rightarrow> string option \<times> tool_world" where
  "write_file_with_parents env path bytes w =
     (case ensure_parent_dir env path w of
        (Some e, w') \<Rightarrow> (Some e, w')
      | (None, w') \<Rightarrow>
          (case write_file env path bytes w' of
             (Some e, w'') \<Rightarrow> (Some (''failed to write file: '' @ e), w'')
           | (None, w'') \<Rightarrow> (None, w'')))"

subsection \<open>Responses\<close>

record failed_edit =
  fe_index :: nat
  fe_error :: string
  fe_old :: string
  fe_new :: string

datatype tool_meta =
    NoMeta
  | EditMeta nat nat string string
  | MultiMeta nat nat string string nat "failed_edit list"
  | WriteMeta string nat nat

record tool_response =
  rs_content :: string
  rs_error :: bool
  rs_stop :: bool
  rs_meta :: tool_meta

definition text_response :: "string \<Rightarrow> tool_response" where
  "text_response s = \<lparr>rs_content = s, rs_error = False, rs_stop = False, rs_meta = NoMeta\<rparr>"

definition error_response :: "string \<Rightarrow> tool_response" where
  "error_response s = \<lparr>rs_content = s, rs_error = True, rs_stop = False, rs_meta = NoMeta\<rparr>"

definition denied_response :: "tool_meta \<Rightarrow> tool_response" where
  "denied_response m = \<lparr>rs_content = ''User denied permission'', rs_error = True, rs_stop = True, rs_meta = m\<rparr>"

definition with_result :: "(string + tool_response) \<times> tool_world \<Rightarrow> (string + tool_response) \<times> tool_world" where
  "with_result r =
     (case r of
        (Inl e, w) \<Rightarrow> (Inl e, w)
      | (Inr resp, w) \<Rightarrow>
          (Inr (if rs_error resp then resp
                else resp\<lparr>rs_content := ''<result>'' @ [nl] @ rs_content resp @ [nl] @ ''</result>'' @ [nl]\<rparr>), w))"

definition whitespace_corrected_note :: string where
  "whitespace_corrected_note = ''Note: old_string did not match exactly. The edit was applied to whitespace-equivalent text in the file and new_string was re-indented to match the file's style. Verify the result.''"

definition with_whitespace_note :: "string \<Rightarrow> bool \<Rightarrow> string" where
  "with_whitespace_note message corrected =
     (if corrected then message @ [nl] @ whitespace_corrected_note else message)"

definition smart_join :: "string \<Rightarrow> string \<Rightarrow> string" where
  "smart_join one two = (if has_prefix two ''/'' then two else path_join one two)"

subsection \<open>Asking, loading and committing\<close>

text \<open>The permission request of the three tools; the log keeps the answer.\<close>

definition request ::
  "tool_env \<Rightarrow> string \<Rightarrow> string \<Rightarrow> string \<Rightarrow> string \<Rightarrow> string \<Rightarrow> tool_world \<Rightarrow> (string + bool) \<times> tool_world" where
  "request env tool description path old new w =
     (let r = \<lparr>cr_session = en_session env, cr_call = en_call_id env, cr_tool = tool, cr_description = description,
               cr_action = ''write'', cr_params = \<lparr>ep_path = path, ep_old = old, ep_new = new\<rparr>,
               cr_path = en_shown_path env path, cr_danger = [], cr_grant = []\<rparr>
      in case en_ask env r w of
        (answer, w') \<Rightarrow> (answer, w'\<lparr>wd_log := wd_log w @ [Asked r (answer = Inr True)]\<rparr>))"

definition diff_stats :: "tool_env \<Rightarrow> string \<Rightarrow> string \<Rightarrow> string \<Rightarrow> string \<times> nat \<times> nat" where
  "diff_stats env path old new =
     generate_diff (en_udiff env) old new
       (if has_prefix path (en_workdir env) then drop (length (en_workdir env)) path else path)"

definition edit_meta :: "tool_env \<Rightarrow> string \<Rightarrow> string \<Rightarrow> string \<Rightarrow> string \<Rightarrow> tool_meta" where
  "edit_meta env path old new shown =
     (case diff_stats env path old new of (_, additions, removals) \<Rightarrow> EditMeta additions removals old shown)"

definition announce :: "tool_env \<Rightarrow> string \<Rightarrow> tool_world \<Rightarrow> tool_world" where
  "announce env path w =
     w\<lparr>wd_reads := record_read (en_relpath env) (en_record_ok env) (en_record_time env div 10 ^ 9) (en_session env) path (wd_reads w),
       wd_log := wd_log w @ [Announced path]\<rparr>"

text \<open>
  The history after a write. A row the service could not find is created; \<open>file\<close> is then still the
  zero value it was before the call.
\<close>

definition store_versions ::
  "tool_env \<Rightarrow> string \<Rightarrow> string \<Rightarrow> string \<Rightarrow> file_history \<Rightarrow> (history_error + file_row) \<times> file_history" where
  "store_versions env path old new h =
     (let session = en_session env;
          got = get_by_path_and_session (en_get_ok env) path session h;
          h1 = (case got of Inl e \<Rightarrow> snd (create_file (en_create env) session path old h) | Inr r \<Rightarrow> h);
          file = (case got of Inl e \<Rightarrow> empty_file | Inr r \<Rightarrow> r);
          h2 = (if fr_content file \<noteq> old
                then snd (create_version (fst (en_version env 0)) (snd (en_version env 0)) session path old h1) else h1)
      in create_version (fst (en_version env 1)) (snd (en_version env 1)) session path new h2)"

definition commit_file_change :: "tool_env \<Rightarrow> string \<Rightarrow> string \<Rightarrow> string \<Rightarrow> tool_world \<Rightarrow> string option \<times> tool_world" where
  "commit_file_change env path old new w =
     (case write_file env path new w of
        (Some e, w') \<Rightarrow> (Some (''failed to write file: '' @ e), w')
      | (None, w') \<Rightarrow> (None, announce env path (w'\<lparr>wd_history := snd (store_versions env path old new (wd_history w'))\<rparr>)))"

text \<open>What \<open>loadExistingFile\<close> yields: a Go error, a response, or the content and whether it had CRLF.\<close>

datatype loaded = LoadFail string | LoadResponse tool_response | Loaded string bool

definition newer_than :: "int \<Rightarrow> int option \<Rightarrow> bool" where
  "newer_than mtime read_at = (case read_at of None \<Rightarrow> True | Some t \<Rightarrow> mtime div 10 ^ 9 > t)"

definition load_existing_file :: "tool_env \<Rightarrow> (int \<Rightarrow> string) \<Rightarrow> string \<Rightarrow> string \<Rightarrow> tool_world \<Rightarrow> loaded" where
  "load_existing_file env rfc3339 path session_error w =
     (case stat env path w of
        NotExist \<Rightarrow> LoadResponse (error_response (''file not found: '' @ path))
      | StatError e \<Rightarrow> LoadResponse (error_response (''Failed to access file: '' @ e))
      | StatDir \<Rightarrow> LoadResponse (error_response (''path is a directory, not a file: '' @ path))
      | StatFile mtime \<Rightarrow>
          if en_session env = [] then LoadFail session_error
          else (case last_read_time (en_relpath env) (en_last_read_ok env) (en_session env) path (wd_reads w) of
            None \<Rightarrow> LoadResponse (error_response ''you must read the file before editing it. Use the View tool first'')
          | Some read_at \<Rightarrow>
              if newer_than mtime (Some read_at)
              then LoadResponse (error_response (''file '' @ path @ '' has been modified since it was last read (mod time: '' @
                rfc3339 (mtime div 10 ^ 9) @ '', last read: '' @ rfc3339 read_at @ '')''))
              else (case read_file env 0 path w of
                Inl e \<Rightarrow> LoadResponse (error_response (''Failed to read file: '' @ e))
              | Inr content \<Rightarrow> (case to_unix_line_endings content of (old, is_crlf) \<Rightarrow> Loaded old is_crlf))))"

definition write_content :: "string \<Rightarrow> bool \<Rightarrow> string" where
  "write_content content is_crlf = (if is_crlf then fst (to_windows_line_endings content) else content)"
subsection \<open>The edit tool\<close>

abbreviation edit_tool_name :: string where "edit_tool_name \<equiv> ''edit''"
abbreviation multi_edit_tool_name :: string where "multi_edit_tool_name \<equiv> ''multiedit''"
abbreviation write_tool_name :: string where "write_tool_name \<equiv> ''write''"

text \<open>
  What follows the check in every tool that makes a file: ask, write it with its directories, start
  its history, record the read.
\<close>

definition ask_and_create ::
  "tool_env \<Rightarrow> string \<Rightarrow> string \<Rightarrow> string \<Rightarrow> string \<Rightarrow> tool_meta \<Rightarrow> string \<Rightarrow> tool_world \<Rightarrow> (string + tool_response) \<times> tool_world" where
  "ask_and_create env tool description path content meta message w =
     (case request env tool description path [] content w of
        (Inl e, w1) \<Rightarrow> (Inl e, w1)
      | (Inr False, w1) \<Rightarrow> (Inr (denied_response meta), w1)
      | (Inr True, w1) \<Rightarrow>
          (case write_file_with_parents env path content w1 of
             (Some e, w2) \<Rightarrow> (Inr (error_response (''Failed to write file: '' @ e)), w2)
           | (None, w2) \<Rightarrow>
               (let h1 = snd (create_file (en_create env) (en_session env) path [] (wd_history w2));
                    h2 = snd (create_version (fst (en_version env 0)) (snd (en_version env 0)) (en_session env) path content h1)
                in (Inr (text_response message\<lparr>rs_meta := meta\<rparr>), announce env path (w2\<lparr>wd_history := h2\<rparr>)))))"

definition create_new_file :: "tool_env \<Rightarrow> string \<Rightarrow> string \<Rightarrow> tool_world \<Rightarrow> (string + tool_response) \<times> tool_world" where
  "create_new_file env path content w =
     (case stat env path w of
        StatDir \<Rightarrow> (Inr (error_response (''path is a directory, not a file: '' @ path)), w)
      | StatFile m \<Rightarrow> (Inr (error_response (''file already exists: '' @ path)), w)
      | StatError e \<Rightarrow> (Inr (error_response (''Failed to access file: '' @ e)), w)
      | NotExist \<Rightarrow>
          if en_session env = [] then (Inl ''session ID is required for creating a new file'', w)
          else ask_and_create env edit_tool_name (''Create file '' @ path) path content
                 (edit_meta env path [] content content) (''File created: '' @ path) w)"

text \<open>What follows the new content in every tool that changes a file.\<close>

definition ask_and_commit ::
  "tool_env \<Rightarrow> string \<Rightarrow> string \<Rightarrow> string \<Rightarrow> string \<Rightarrow> string \<Rightarrow> bool \<Rightarrow> tool_meta \<Rightarrow> tool_meta \<Rightarrow> string \<Rightarrow> tool_world \<Rightarrow>
   (string + tool_response) \<times> tool_world" where
  "ask_and_commit env tool description path old new is_crlf denied_meta meta message w =
     (case request env tool description path old new w of
        (Inl e, w1) \<Rightarrow> (Inl e, w1)
      | (Inr False, w1) \<Rightarrow> (Inr (denied_response denied_meta), w1)
      | (Inr True, w1) \<Rightarrow>
          (case commit_file_change env path old (write_content new is_crlf) w1 of
             (Some e, w2) \<Rightarrow> (Inr (error_response (''Failed to write file: '' @ e)), w2)
           | (None, w2) \<Rightarrow> (Inr (text_response message\<lparr>rs_meta := meta\<rparr>), w2)))"

definition delete_content ::
  "tool_env \<Rightarrow> (int \<Rightarrow> string) \<Rightarrow> string \<Rightarrow> string \<Rightarrow> bool \<Rightarrow> tool_world \<Rightarrow> (string + tool_response) \<times> tool_world" where
  "delete_content env rfc3339 path old_string replace_all w =
     (case load_existing_file env rfc3339 path ''session ID is required for deleting content'' w of
        LoadFail e \<Rightarrow> (Inl e, w)
      | LoadResponse resp \<Rightarrow> (Inr resp, w)
      | Loaded old is_crlf \<Rightarrow>
          (case find_and_replace old old_string [] replace_all of
             Inl e \<Rightarrow> (Inr (error_response e), w)
           | Inr (new, corrected) \<Rightarrow>
               ask_and_commit env edit_tool_name (''Delete content from file '' @ path) path old new is_crlf
                 (edit_meta env path old new new) (edit_meta env path old new (write_content new is_crlf))
                 (with_whitespace_note (''Content deleted from file: '' @ path) corrected) w))"

definition replace_content ::
  "tool_env \<Rightarrow> (int \<Rightarrow> string) \<Rightarrow> string \<Rightarrow> string \<Rightarrow> string \<Rightarrow> bool \<Rightarrow> tool_world \<Rightarrow> (string + tool_response) \<times> tool_world" where
  "replace_content env rfc3339 path old_string new_string replace_all w =
     (case load_existing_file env rfc3339 path ''session ID is required for editing a file'' w of
        LoadFail e \<Rightarrow> (Inl e, w)
      | LoadResponse resp \<Rightarrow> (Inr resp, w)
      | Loaded old is_crlf \<Rightarrow>
          (case find_and_replace old old_string new_string replace_all of
             Inl e \<Rightarrow> (Inr (error_response e), w)
           | Inr (new, corrected) \<Rightarrow>
               if new = old then (Inr (error_response ''new content is the same as old content. No changes made.''), w)
               else ask_and_commit env edit_tool_name (''Replace content in file '' @ path) path old new is_crlf
                 (edit_meta env path old new new) (edit_meta env path old new (write_content new is_crlf))
                 (with_whitespace_note (''Content replaced in file: '' @ path) corrected) w))"

record edit_params =
  ed_path :: string
  ed_old :: string
  ed_new :: string
  ed_all :: bool

definition edit_tool :: "tool_env \<Rightarrow> (int \<Rightarrow> string) \<Rightarrow> edit_params \<Rightarrow> tool_world \<Rightarrow> (string + tool_response) \<times> tool_world" where
  "edit_tool env rfc3339 ps w =
     (if ed_path ps = [] then (Inr (error_response ''file_path is required''), w)
      else let path = smart_join (en_workdir env) (ed_path ps)
           in with_result
             (if ed_old ps = [] then create_new_file env path (ed_new ps) w
              else if ed_new ps = [] then delete_content env rfc3339 path (ed_old ps) (ed_all ps) w
              else replace_content env rfc3339 path (ed_old ps) (ed_new ps) (ed_all ps) w))"

subsection \<open>The multiedit tool\<close>

record edit_operation =
  op_old :: string
  op_new :: string
  op_all :: bool

text \<open>The first edit with an empty old text that is not the first edit.\<close>

definition validate_edits :: "edit_operation list \<Rightarrow> string option" where
  "validate_edits edits =
     map_option (\<lambda>i. ''edit '' @ nat_str (i + 1) @ '': only the first edit can have empty old_string (for file creation)'')
       (find (\<lambda>i. i > 0 \<and> op_old (edits ! i) = []) [0 ..< length edits])"

definition apply_edit_to_content :: "string \<Rightarrow> edit_operation \<Rightarrow> string + (string \<times> bool)" where
  "apply_edit_to_content content edit =
     (if op_old edit = [] \<and> op_new edit = [] then Inr (content, False)
      else if op_old edit = [] then Inl ''old_string cannot be empty for content replacement''
      else find_and_replace content (op_old edit) (op_new edit) (op_all edit))"

fun apply_edits_to_content :: "string \<Rightarrow> edit_operation list \<Rightarrow> nat \<Rightarrow> string \<times> failed_edit list \<times> bool" where
  "apply_edits_to_content content [] start = (content, [], False)"
| "apply_edits_to_content content (edit # edits) start =
     (case apply_edit_to_content content edit of
        Inl e \<Rightarrow>
          (case apply_edits_to_content content edits (start + 1) of
             (result, failed, corrected) \<Rightarrow>
               (result, \<lparr>fe_index = start + 1, fe_error = e, fe_old = op_old edit, fe_new = op_new edit\<rparr> # failed, corrected))
      | Inr (new, here) \<Rightarrow>
          (case apply_edits_to_content new edits (start + 1) of
             (result, failed, corrected) \<Rightarrow> (result, failed, here \<or> corrected)))"

definition multi_meta :: "tool_env \<Rightarrow> string \<Rightarrow> string \<Rightarrow> string \<Rightarrow> string \<Rightarrow> nat \<Rightarrow> failed_edit list \<Rightarrow> tool_meta" where
  "multi_meta env path old new shown applied failed =
     (case diff_stats env path old new of (_, additions, removals) \<Rightarrow> MultiMeta additions removals old shown applied failed)"

definition of_edits :: "nat \<Rightarrow> nat \<Rightarrow> string" where
  "of_edits applied n_edits = nat_str applied @ '' of '' @ nat_str n_edits"

definition process_multi_edit_with_creation :: "tool_env \<Rightarrow> string \<Rightarrow> edit_operation list \<Rightarrow> tool_world \<Rightarrow> (string + tool_response) \<times> tool_world" where
  "process_multi_edit_with_creation env path edits w =
     (if op_old (hd edits) \<noteq> [] then (Inr (error_response ''first edit must have empty old_string for file creation''), w)
      else (case stat env path w of
        StatError e \<Rightarrow> (Inr (error_response (''Failed to access file: '' @ e)), w)
      | NotExist \<Rightarrow>
          (case apply_edits_to_content (op_new (hd edits)) (tl edits) 1 of (content, failed, corrected) \<Rightarrow>
             if en_session env = [] then (Inl ''session ID is required for creating a new file'', w)
             else let n_edits = length edits;
                      applied = n_edits - length failed;
                      description = (if failed \<noteq> []
                        then ''Create file '' @ path @ '' with '' @ of_edits applied n_edits @ '' edits ('' @ nat_str (length failed) @ '' failed)''
                        else ''Create file '' @ path @ '' with '' @ nat_str applied @ '' edits'');
                      message = (if failed \<noteq> []
                        then ''File created with '' @ of_edits applied n_edits @ '' edits: '' @ path @ '' ('' @ nat_str (length failed) @ '' edit(s) failed)''
                        else ''File created with '' @ nat_str n_edits @ '' edits: '' @ path)
                  in ask_and_create env multi_edit_tool_name description path content
                       (multi_meta env path [] content content applied failed) (with_whitespace_note message corrected) w)
      | _ \<Rightarrow> (Inr (error_response (''file already exists: '' @ path)), w)))"

definition process_multi_edit_existing_file ::
  "tool_env \<Rightarrow> (int \<Rightarrow> string) \<Rightarrow> string \<Rightarrow> edit_operation list \<Rightarrow> tool_world \<Rightarrow> (string + tool_response) \<times> tool_world" where
  "process_multi_edit_existing_file env rfc3339 path edits w =
     (case load_existing_file env rfc3339 path ''session ID is required for editing a file'' w of
        LoadFail e \<Rightarrow> (Inl e, w)
      | LoadResponse resp \<Rightarrow> (Inr resp, w)
      | Loaded old is_crlf \<Rightarrow>
          (case apply_edits_to_content old edits 0 of (new, failed, corrected) \<Rightarrow>
             if old = new
             then (if failed \<noteq> []
                   then (Inr (error_response (''no changes made - all '' @ nat_str (length failed) @ '' edit(s) failed'')
                               \<lparr>rs_meta := MultiMeta 0 0 [] [] 0 failed\<rparr>), w)
                   else (Inr (error_response ''no changes made - all edits resulted in identical content''), w))
             else let n_edits = length edits;
                      applied = n_edits - length failed;
                      description = (if failed \<noteq> []
                        then ''Apply '' @ of_edits applied n_edits @ '' edits to file '' @ path @ '' ('' @ nat_str (length failed) @ '' failed)''
                        else ''Apply '' @ nat_str applied @ '' edits to file '' @ path);
                      message = (if failed \<noteq> []
                        then ''Applied '' @ of_edits applied n_edits @ '' edits to file: '' @ path @ '' ('' @ nat_str (length failed) @ '' edit(s) failed)''
                        else ''Applied '' @ nat_str n_edits @ '' edits to file: '' @ path)
                  in ask_and_commit env multi_edit_tool_name description path old new is_crlf
                       (multi_meta env path old new new applied failed)
                       (multi_meta env path old new (write_content new is_crlf) applied failed)
                       (with_whitespace_note message corrected) w))"

definition multi_edit_tool ::
  "tool_env \<Rightarrow> (int \<Rightarrow> string) \<Rightarrow> string \<Rightarrow> edit_operation list \<Rightarrow> tool_world \<Rightarrow> (string + tool_response) \<times> tool_world" where
  "multi_edit_tool env rfc3339 file_path edits w =
     (if file_path = [] then (Inr (error_response ''file_path is required''), w)
      else if edits = [] then (Inr (error_response ''at least one edit operation is required''), w)
      else let path = smart_join (en_workdir env) file_path in
        (case validate_edits edits of
           Some e \<Rightarrow> (Inr (error_response e), w)
         | None \<Rightarrow> with_result
             (if op_old (hd edits) = [] then process_multi_edit_with_creation env path edits w
              else process_multi_edit_existing_file env rfc3339 path edits w)))"

subsection \<open>The write tool\<close>

text \<open>The first read decides whether there is anything to do, the second is what the user is shown.\<close>

definition write_tool ::
  "tool_env \<Rightarrow> (int \<Rightarrow> string) \<Rightarrow> (int option \<Rightarrow> string) \<Rightarrow> string \<Rightarrow> string \<Rightarrow> tool_world \<Rightarrow> (string + tool_response) \<times> tool_world" where
  "write_tool env rfc3339 rfc3339_read file_path content w =
     (if file_path = [] then (Inr (error_response ''file_path is required''), w)
      else if en_session env = [] then (Inl ''session_id is required'', w)
      else let path = smart_join (en_workdir env) file_path;
               read_at = last_read_time (en_relpath env) (en_last_read_ok env) (en_session env) path (wd_reads w);
               go = (\<lambda>old. case diff_stats env path old content of (diff, additions, removals) \<Rightarrow>
                 (case request env write_tool_name (''Create file '' @ path) path old content w of
                    (Inl e, w1) \<Rightarrow> (Inl e, w1)
                  | (Inr False, w1) \<Rightarrow> (Inr (denied_response (WriteMeta diff additions removals)), w1)
                  | (Inr True, w1) \<Rightarrow>
                      (case write_file_with_parents env path content w1 of
                         (Some e, w2) \<Rightarrow> (Inr (error_response (''Failed to write file: '' @ e)), w2)
                       | (None, w2) \<Rightarrow>
                           (Inr (text_response (''<result>'' @ [nl] @ ''File successfully written: '' @ path @ [nl] @ ''</result>'')
                                   \<lparr>rs_meta := WriteMeta diff additions removals\<rparr>),
                            announce env path (w2\<lparr>wd_history := snd (store_versions env path old content (wd_history w2))\<rparr>)))))
           in (case stat env path w of
                 StatDir \<Rightarrow> (Inr (error_response (''Path is a directory, not a file: '' @ path)), w)
               | StatError e \<Rightarrow> (Inr (error_response (''Failed to check file: '' @ e)), w)
               | NotExist \<Rightarrow> go []
               | StatFile mtime \<Rightarrow>
                   if newer_than mtime read_at
                   then (Inr (error_response (''File '' @ path @ '' has been modified since it was last read.'' @ [nl] @
                          ''Last modification: '' @ rfc3339 (mtime div 10 ^ 9) @ [nl] @ ''Last read: '' @ rfc3339_read read_at @ [nl, nl] @
                          ''Please read the file again before modifying it.'')), w)
                   else if read_file env 0 path w = Inr content
                   then (Inr (error_response (''File '' @ path @ '' already contains the exact content. No changes made.'')), w)
                   else go (case read_file env 1 path w of Inr c \<Rightarrow> c | Inl _ \<Rightarrow> [])))"

subsection \<open>Line endings\<close>

lemma str_replace_all_Cons:
  "old \<noteq> [] \<Longrightarrow> str_replace_all old new (c # cs) =
     (if has_prefix (c # cs) old then new @ str_replace_all old new (drop (length old) (c # cs))
      else c # str_replace_all old new cs)"
  by (subst str_replace_all.simps) simp

lemma str_replace_all_Nil [simp]: "str_replace_all old new [] = []"
  by (subst str_replace_all.simps) simp

definition expand_nl :: "string \<Rightarrow> string" where
  "expand_nl s = concat (map (\<lambda>c. if c = nl then crlf else [c]) s)"

lemma replace_nl: "str_replace_all [nl] crlf s = expand_nl s"
  by (induction s) (auto simp: str_replace_all_Cons expand_nl_def has_prefix_def)

lemma expand_nl_start: "expand_nl s = c # t \<Longrightarrow> c \<noteq> nl"
  by (cases s) (auto simp: expand_nl_def split: if_splits)

lemma replace_crlf_expanded: "str_replace_all crlf [nl] (expand_nl s) = s"
proof (induction s)
  case Nil
  then show ?case by (simp add: expand_nl_def)
next
  case (Cons c cs)
  show ?case
  proof (cases "c = nl")
    case True
    then have "expand_nl (c # cs) = CHR 0x0D # nl # expand_nl cs" by (simp add: expand_nl_def)
    then show ?thesis using Cons True by (simp add: str_replace_all_Cons has_prefix_def)
  next
    case False
    then have e: "expand_nl (c # cs) = c # expand_nl cs" by (simp add: expand_nl_def)
    have "\<not> has_prefix (c # expand_nl cs) crlf"
      using expand_nl_start [of cs] by (cases "expand_nl cs") (auto simp: has_prefix_def)
    then show ?thesis using Cons e by (simp add: str_replace_all_Cons)
  qed
qed

lemma expand_nl_contains: "str_contains (expand_nl s) crlf \<longleftrightarrow> nl \<in> set s"
proof
  assume "str_contains (expand_nl s) crlf"
  then have "nl \<in> set (expand_nl s)" by (auto simp: str_contains_iff sublist_def)
  then show "nl \<in> set s" by (auto simp: expand_nl_def split: if_splits)
next
  assume "nl \<in> set s"
  then obtain p q where "s = p @ nl # q" by (meson split_list)
  then have "expand_nl s = expand_nl p @ crlf @ expand_nl q" by (simp add: expand_nl_def)
  then show "str_contains (expand_nl s) crlf" by (auto simp: str_contains_iff sublist_def)
qed

lemma expand_nl_absent: "nl \<notin> set s \<Longrightarrow> expand_nl s = s"
  by (induction s) (auto simp: expand_nl_def)

lemma unix_of_windows:
  assumes "\<not> str_contains s crlf"
  shows "to_unix_line_endings (write_content s is_crlf) = (s, is_crlf \<and> nl \<in> set s)"
proof (cases is_crlf)
  case True
  then have "write_content s is_crlf = expand_nl s"
    using assms by (simp add: write_content_def to_windows_line_endings_def replace_nl)
  then show ?thesis using True expand_nl_absent [of s]
    by (auto simp: to_unix_line_endings_def expand_nl_contains replace_crlf_expanded)
next
  case False
  then show ?thesis using assms by (simp add: write_content_def to_unix_line_endings_def)
qed

subsection \<open>What a call leaves in the log\<close>

fun backs :: "tool_event \<Rightarrow> string \<Rightarrow> string \<Rightarrow> bool" where
  "backs (Asked r granted) path bytes \<longleftrightarrow> granted \<and> ep_path (cr_params r) = path \<and>
     (bytes = ep_new (cr_params r) \<or> bytes = fst (to_windows_line_endings (ep_new (cr_params r))))"
| "backs (Wrote p b) path bytes \<longleftrightarrow> False"
| "backs (Announced p) path bytes \<longleftrightarrow> False"

text \<open>Every write comes right after a granted request that showed it.\<close>

fun backed :: "tool_event option \<Rightarrow> tool_event list \<Rightarrow> bool" where
  "backed prev [] \<longleftrightarrow> True"
| "backed prev (e # es) \<longleftrightarrow>
     (case e of Wrote path bytes \<Rightarrow> (case prev of None \<Rightarrow> False | Some p \<Rightarrow> backs p path bytes) | _ \<Rightarrow> True) \<and> backed (Some e) es"

text \<open>A call asks nothing; or asks and leaves the disk alone; or asks, is granted, writes what it showed and says so.\<close>

definition call_log :: "string \<Rightarrow> tool_event list \<Rightarrow> bool" where
  "call_log path es \<longleftrightarrow>
     es = [] \<or> (\<exists>r b. es = [Asked r b]) \<or>
     (\<exists>r bytes. es = [Asked r True, Wrote path bytes, Announced path] \<and> backs (Asked r True) path bytes)"

lemma backed_append: "backed prev (xs @ ys) \<longleftrightarrow> backed prev xs \<and> backed (if xs = [] then prev else Some (last xs)) ys"
  by (induction xs arbitrary: prev) auto

lemma backed_call_log: "call_log path es \<Longrightarrow> backed prev es"
  by (auto simp: call_log_def)

definition extends_log :: "string \<Rightarrow> tool_world \<Rightarrow> 'r \<times> tool_world \<Rightarrow> bool" where
  "extends_log path w r \<longleftrightarrow> (\<exists>es. wd_log (snd r) = wd_log w @ es \<and> call_log path es)"

lemma extends_same [simp, intro]: "extends_log path w (r, w)"
  by (auto simp: extends_log_def call_log_def)

lemma extends_with_result [simp]: "extends_log path w (with_result r) \<longleftrightarrow> extends_log path w r"
  by (auto simp: extends_log_def with_result_def split: prod.splits sum.splits)

lemma request_log:
  "request env tool d path old new w = (answer, w') \<Longrightarrow>
   \<exists>r. wd_log w' = wd_log w @ [Asked r (answer = Inr True)] \<and> cr_params r = \<lparr>ep_path = path, ep_old = old, ep_new = new\<rparr>"
  by (auto simp: request_def Let_def split: prod.splits)

lemma write_file_log:
  "write_file env path bytes w = (e, w') \<Longrightarrow> wd_log w' = wd_log w @ (if e = None then [Wrote path bytes] else [])"
  by (auto simp: write_file_def split: if_splits option.splits)

lemma ensure_parent_log: "ensure_parent_dir env path w = (e, w') \<Longrightarrow> wd_log w' = wd_log w"
  by (auto simp: ensure_parent_dir_def split: if_splits option.splits)

lemma write_with_parents_log:
  "write_file_with_parents env path bytes w = (e, w') \<Longrightarrow> wd_log w' = wd_log w @ (if e = None then [Wrote path bytes] else [])"
  by (auto simp: write_file_with_parents_def split: prod.splits option.splits dest!: ensure_parent_log write_file_log)

lemma announce_log [simp]: "wd_log (announce env path w) = wd_log w @ [Announced path]"
  by (simp add: announce_def)

lemma commit_log:
  "commit_file_change env path old new w = (e, w') \<Longrightarrow>
   wd_log w' = wd_log w @ (if e = None then [Wrote path new, Announced path] else [])"
  by (auto simp: commit_file_change_def split: prod.splits option.splits dest: write_file_log)

lemma backs_write_content: "cr_params r = \<lparr>ep_path = path, ep_old = old, ep_new = new\<rparr> \<Longrightarrow> backs (Asked r True) path (write_content new is_crlf)"
  by (simp add: write_content_def)

lemma ask_and_create_log: "extends_log path w (ask_and_create env tool d path content meta msg w)"
proof -
  obtain answer w1 where q: "request env tool d path [] content w = (answer, w1)" by fastforce
  obtain r where r: "wd_log w1 = wd_log w @ [Asked r (answer = Inr True)]" "cr_params r = \<lparr>ep_path = path, ep_old = [], ep_new = content\<rparr>"
    using request_log [OF q] by blast
  obtain e w2 where f: "write_file_with_parents env path content w1 = (e, w2)" by fastforce
  show ?thesis
    using q r f write_with_parents_log [OF f]
    by (auto simp: ask_and_create_def extends_log_def call_log_def Let_def split: sum.splits bool.splits option.splits)
qed

lemma ask_and_commit_log: "extends_log path w (ask_and_commit env tool d path old new is_crlf dm meta msg w)"
proof -
  obtain answer w1 where q: "request env tool d path old new w = (answer, w1)" by fastforce
  obtain r where r: "wd_log w1 = wd_log w @ [Asked r (answer = Inr True)]" "cr_params r = \<lparr>ep_path = path, ep_old = old, ep_new = new\<rparr>"
    using request_log [OF q] by blast
  obtain e w2 where f: "commit_file_change env path old (write_content new is_crlf) w1 = (e, w2)" by fastforce
  show ?thesis
    using q r f commit_log [OF f] backs_write_content [OF r(2), of is_crlf]
    by (auto simp: ask_and_commit_def extends_log_def call_log_def Let_def split: sum.splits bool.splits option.splits)
qed

lemmas ask_logs = ask_and_create_log ask_and_commit_log

lemma edit_tool_log: "extends_log (smart_join (en_workdir env) (ed_path ps)) w (edit_tool env fmt ps w)"
  by (auto simp: edit_tool_def create_new_file_def delete_content_def replace_content_def Let_def ask_logs
      split: stat_result.splits loaded.splits sum.splits)

lemma multi_edit_tool_log: "extends_log (smart_join (en_workdir env) path) w (multi_edit_tool env fmt path edits w)"
  by (auto simp: multi_edit_tool_def process_multi_edit_with_creation_def process_multi_edit_existing_file_def Let_def ask_logs
      split: stat_result.splits loaded.splits option.splits prod.splits)

lemma write_tool_log: "extends_log (smart_join (en_workdir env) file_path) w (write_tool env fmt fmt' file_path content w)"
proof -
  let ?path = "smart_join (en_workdir env) file_path"
  have go: "extends_log ?path w
    (case request env write_tool_name d ?path old content w of
       (Inl e, w1) \<Rightarrow> (Inl e, w1)
     | (Inr False, w1) \<Rightarrow> (Inr (denied_response m), w1)
     | (Inr True, w1) \<Rightarrow>
         (case write_file_with_parents env ?path content w1 of
            (Some e, w2) \<Rightarrow> (Inr (error_response (''Failed to write file: '' @ e)), w2)
          | (None, w2) \<Rightarrow> (Inr resp, announce env ?path (w2\<lparr>wd_history := h w2\<rparr>))))" for d old m resp h
  proof -
    obtain answer w1 where q: "request env write_tool_name d ?path old content w = (answer, w1)" by fastforce
    obtain r where r: "wd_log w1 = wd_log w @ [Asked r (answer = Inr True)]" "cr_params r = \<lparr>ep_path = ?path, ep_old = old, ep_new = content\<rparr>"
      using request_log [OF q] by blast
    obtain e w2 where f: "write_file_with_parents env ?path content w1 = (e, w2)" by fastforce
    show ?thesis
      using q r f write_with_parents_log [OF f]
      by (auto simp: extends_log_def call_log_def Let_def split: sum.splits bool.splits option.splits)
  qed
  show ?thesis
    by (auto simp: write_tool_def Let_def go split: stat_result.splits prod.splits sum.splits)
qed

subsection \<open>Nothing is written that was not granted\<close>

text \<open>The calls of all sessions, and whatever else happens to the world between them.\<close>

datatype tool_call =
    EditCall tool_env edit_params
  | MultiEditCall tool_env string "edit_operation list"
  | WriteCall tool_env string string
  | Outside "tool_world \<Rightarrow> tool_world"

fun tool_step :: "(int \<Rightarrow> string) \<Rightarrow> (int option \<Rightarrow> string) \<Rightarrow> tool_world \<Rightarrow> tool_call \<Rightarrow> tool_world" where
  "tool_step fmt fmt' w (EditCall env ps) = snd (edit_tool env fmt ps w)"
| "tool_step fmt fmt' w (MultiEditCall env path edits) = snd (multi_edit_tool env fmt path edits w)"
| "tool_step fmt fmt' w (WriteCall env path content) = snd (write_tool env fmt fmt' path content w)"
| "tool_step fmt fmt' w (Outside f) = (f w)\<lparr>wd_log := wd_log w\<rparr>"

definition honest :: "tool_world \<Rightarrow> bool" where
  "honest w \<longleftrightarrow> backed None (wd_log w)"

lemma extends_honest: "honest w \<Longrightarrow> extends_log path w r \<Longrightarrow> honest (snd r)"
  by (auto simp: honest_def extends_log_def backed_append backed_call_log)

interpretation tools: safe_system "tool_step fmt fmt'" honest for fmt fmt'
proof
  fix w call
  assume w: "honest w"
  show "honest (tool_step fmt fmt' w call)"
  proof (cases call)
    case (Outside f)
    then show ?thesis using w by (simp add: honest_def)
  qed (simp_all add: extends_honest [OF w edit_tool_log] extends_honest [OF w multi_edit_tool_log] extends_honest [OF w write_tool_log])
qed

text \<open>
  C3: Whatever the edit, multiedit and write tools put on the disk was granted. In every sequence
  of their calls, from any sessions, with anything happening to files, history and reads in
  between and while the user is asked, each write comes right after a granted permission request for the same path,
  and its bytes are the new content that request showed, or that content with CRLF line endings.
\<close>

theorem writes_were_granted:
  "backed None (wd_log (foldl (tool_step fmt fmt') (w\<lparr>wd_log := []\<rparr>) calls))"
  using tools.run_good [of "w\<lparr>wd_log := []\<rparr>" fmt fmt' calls] by (simp add: honest_def)

subsection \<open>A file has to be read before it is changed\<close>

definition refused :: "tool_world \<Rightarrow> (string + tool_response) \<times> tool_world \<Rightarrow> bool" where
  "refused w r \<longleftrightarrow> snd r = w \<and> (case fst r of Inl e \<Rightarrow> True | Inr resp \<Rightarrow> rs_error resp)"

lemma refused_simps [simp]:
  "refused w (Inl e, w') \<longleftrightarrow> w' = w" "refused w (Inr resp, w') \<longleftrightarrow> w' = w \<and> rs_error resp"
  "refused w (with_result r) \<longleftrightarrow> refused w r"
  by (auto simp: refused_def with_result_def error_response_def split: sum.splits prod.splits)

lemma error_response_error [simp]: "rs_error (error_response e)"
  by (simp add: error_response_def)

lemma stat_existing: "wd_fs w path = Some (FileNode c m) \<Longrightarrow> stat env path w = StatFile m \<or> (\<exists>e. stat env path w = StatError e)"
  by (simp add: stat_def split: option.splits)

lemma load_stale:
  assumes "wd_fs w path = Some (FileNode c m)"
    and "newer_than m (last_read_time (en_relpath env) (en_last_read_ok env) (en_session env) path (wd_reads w))"
  shows "(\<exists>e. load_existing_file env fmt path err w = LoadFail e) \<or>
    (\<exists>e. load_existing_file env fmt path err w = LoadResponse (error_response e))"
proof (cases "stat env path w = StatFile m")
  case True
  then show ?thesis
    using assms(2) by (cases "last_read_time (en_relpath env) (en_last_read_ok env) (en_session env) path (wd_reads w)")
      (auto simp: load_existing_file_def)
next
  case False
  then show ?thesis using stat_existing [OF assms(1), of env] by (auto simp: load_existing_file_def)
qed

text \<open>
  C9: A file that is on the disk and that the session has not read, or that changed in a later
  second than the session last read it, is not changed: edit, multiedit and write, whatever their
  arguments, return an error and leave the world as it is. Nobody is asked.
\<close>

theorem stale_file_refused:
  assumes here: "wd_fs w (smart_join (en_workdir env) p) = Some (FileNode c m)"
    and stale: "newer_than m (last_read_time (en_relpath env) (en_last_read_ok env) (en_session env)
                  (smart_join (en_workdir env) p) (wd_reads w))"
  shows "refused w (edit_tool env fmt (ps\<lparr>ed_path := p\<rparr>) w) \<and> refused w (multi_edit_tool env fmt p edits w) \<and>
    refused w (write_tool env fmt fmt' p content w)"
proof -
  let ?path = "smart_join (en_workdir env) p"
  note st = stat_existing [OF here, of env]
  have load: "refused w (case load_existing_file env fmt ?path err w of
      LoadFail e \<Rightarrow> (Inl e, w) | LoadResponse resp \<Rightarrow> (Inr resp, w) | Loaded old is_crlf \<Rightarrow> f old is_crlf)" for err f
    using load_stale [OF here stale, of fmt err] by auto
  have "refused w (edit_tool env fmt (ps\<lparr>ed_path := p\<rparr>) w)"
    using st load by (auto simp: edit_tool_def create_new_file_def delete_content_def replace_content_def Let_def)
  moreover have "refused w (multi_edit_tool env fmt p edits w)"
    using st load
    by (auto simp: multi_edit_tool_def process_multi_edit_with_creation_def process_multi_edit_existing_file_def Let_def
        split: option.splits)
  moreover have "refused w (write_tool env fmt fmt' p content w)"
    using st stale by (auto simp: write_tool_def Let_def)
  ultimately show ?thesis by blast
qed

text \<open>A file nobody read, and the tools' refusals.\<close>

definition demo_env :: tool_env where
  "demo_env = \<lparr>en_session = ''s'', en_call_id = ''c'', en_workdir = ''/w'', en_relpath = (\<lambda>p. p), en_shown_path = (\<lambda>p. p),
     en_udiff = (\<lambda>_ _ _ _. []), en_stat_error = None, en_read_error = (\<lambda>_. None), en_mkdir_error = None,
     en_write_error = None, en_write_time = 5000000000, en_last_read_ok = True, en_get_ok = True,
     en_create = (\<lambda>_. \<lparr>at_fault = TxFine, at_id = ''i0'', at_now = 5\<rparr>),
     en_version = (\<lambda>n. (True, \<lambda>_. \<lparr>at_fault = TxFine, at_id = (if n = 0 then ''i1'' else ''i2''), at_now = 5\<rparr>)),
     en_record_ok = True, en_record_time = 5000000000, en_ask = (\<lambda>r w. (Inr True, w))\<rparr>"

definition demo_world :: "string \<Rightarrow> tool_world" where
  "demo_world content = \<lparr>wd_fs = [''/w/f'' \<mapsto> FileNode content 3999999999], wd_history = no_history,
     wd_reads = [\<lparr>rd_session = ''s'', rd_path = ''/w/f'', rd_at = 3\<rparr>], wd_log = []\<rparr>"

theorem stale_file_refused_witness:
  "refused (demo_world ''a'') (write_tool (demo_env\<lparr>en_session := ''t''\<rparr>) (\<lambda>_. []) (\<lambda>_. []) ''/w/f'' ''b'' (demo_world ''a''))"
proof -
  have "wd_fs (demo_world ''a'') (smart_join (en_workdir (demo_env\<lparr>en_session := ''t''\<rparr>)) ''/w/f'') = Some (FileNode ''a'' 3999999999)"
    by code_simp
  moreover have "newer_than 3999999999 (last_read_time (en_relpath (demo_env\<lparr>en_session := ''t''\<rparr>)) (en_last_read_ok (demo_env\<lparr>en_session := ''t''\<rparr>))
      (en_session (demo_env\<lparr>en_session := ''t''\<rparr>)) (smart_join (en_workdir (demo_env\<lparr>en_session := ''t''\<rparr>)) ''/w/f'') (wd_reads (demo_world ''a'')))"
    by code_simp
  ultimately show ?thesis by (rule stale_file_refused [THEN conjunct2, THEN conjunct2])
qed

subsection \<open>What is granted is what is read back\<close>

lemma load_Loaded:
  assumes "load_existing_file env fmt path err w = Loaded old is_crlf"
  shows "en_session env \<noteq> []"
  using assms by (auto simp: load_existing_file_def split: stat_result.splits if_splits)

lemma load_response_error: "load_existing_file env fmt path err w = LoadResponse resp \<Longrightarrow> rs_error resp"
  by (auto simp: load_existing_file_def split: stat_result.splits if_splits option.splits sum.splits prod.splits)

lemma write_file_None:
  "write_file env path bytes w = (None, w') \<Longrightarrow>
   wd_fs w' = (wd_fs w)(path \<mapsto> FileNode bytes (en_write_time env)) \<and> wd_history w' = wd_history w \<and> wd_reads w' = wd_reads w"
  by (auto simp: write_file_def split: if_splits option.splits)

lemma commit_None:
  assumes "commit_file_change env path old bytes w = (None, w')"
  shows "wd_fs w' path = Some (FileNode bytes (en_write_time env))"
    and "wd_history w' = snd (store_versions env path old bytes (wd_history w))"
    and "wd_reads w' = record_read (en_relpath env) (en_record_ok env) (en_record_time env div 10 ^ 9) (en_session env) path (wd_reads w)"
  using assms by (auto simp: commit_file_change_def announce_def split: prod.splits option.splits dest!: write_file_None)

text \<open>After the write, a load with the same session and paths sees the bytes.\<close>

lemma load_committed:
  assumes c: "commit_file_change env path old bytes w = (None, w')"
    and env: "en_session env \<noteq> []" "en_record_ok env" "en_relpath env path \<noteq> []" "en_write_time env \<le> en_record_time env"
    and env': "en_session env' = en_session env" "en_relpath env' = en_relpath env" "en_stat_error env' = None"
      "en_read_error env' 0 = None" "en_last_read_ok env'"
  shows "load_existing_file env' fmt path err w' = (case to_unix_line_endings bytes of (s, is_crlf) \<Rightarrow> Loaded s is_crlf)"
proof -
  have "last_read_time (en_relpath env) True (en_session env) path (wd_reads w') = Some (en_record_time env div 10 ^ 9)"
    using last_read_recorded [of "en_session env" "en_relpath env" path] env by (simp add: commit_None(3) [OF c])
  moreover have "\<not> newer_than (en_write_time env) (Some (en_record_time env div 10 ^ 9))"
    using zdiv_mono1 [OF env(4), of "10 ^ 9"] by (simp add: newer_than_def)
  moreover have "stat env' path w' = StatFile (en_write_time env)" "read_file env' 0 path w' = Inr bytes"
    using commit_None(1) [OF c] env' by (simp_all add: stat_def read_file_def)
  ultimately show ?thesis using env env' by (simp add: load_existing_file_def)
qed

lemma ask_and_commit_ok:
  assumes "ask_and_commit env tool d path old new is_crlf dm meta msg w = (Inr resp, w')" and "\<not> rs_error resp"
  obtains r w1 where "request env tool d path old new w = (Inr True, w1)"
    and "commit_file_change env path old (write_content new is_crlf) w1 = (None, w')"
    and "wd_log w' = wd_log w @ [Asked r True, Wrote path (write_content new is_crlf), Announced path]"
    and "cr_params r = \<lparr>ep_path = path, ep_old = old, ep_new = new\<rparr>"
proof -
  obtain answer w1 where q: "request env tool d path old new w = (answer, w1)" by fastforce
  obtain r where r: "wd_log w1 = wd_log w @ [Asked r (answer = Inr True)]" "cr_params r = \<lparr>ep_path = path, ep_old = old, ep_new = new\<rparr>"
    using request_log [OF q] by blast
  obtain e w2 where c: "commit_file_change env path old (write_content new is_crlf) w1 = (e, w2)" by fastforce
  have a: "answer = Inr True" "e = None" "w2 = w'"
    using assms q c by (auto simp: ask_and_commit_def denied_response_def split: sum.splits bool.splits option.splits)
  show ?thesis using that [of w1 r] q c r commit_log [OF c] unfolding a by simp
qed

text \<open>A later call of the same session whose look at the file and at the recorded read succeeds.\<close>

definition reads_like :: "tool_env \<Rightarrow> tool_env \<Rightarrow> bool" where
  "reads_like env env' \<longleftrightarrow> en_session env' = en_session env \<and> en_relpath env' = en_relpath env \<and>
     en_stat_error env' = None \<and> en_read_error env' 0 = None \<and> en_last_read_ok env'"

text \<open>
  C8: An edit is what was granted, and the file is ready for the next edit. If editing an existing
  file succeeds, the user was shown and granted the text before (the file with its line endings
  made LF) and after, and the text after is the text before with the one replacement. Suppose further
  that the read of the file was recorded, no earlier than the write and under a path relative to the
  working directory, that a later load in the same session can stat and read the file and query the
  last read, and that the text after has no CRLF of its own. Then that load is not refused as stale and
  yields exactly the text the user granted, and the flag for CRLF exactly if the file had a CRLF and the
  new text has a line break. (The bytes are written with one kind of line ending throughout: a file that
  mixed them has its other lines rewritten, see \<open>mixed_line_endings_rewritten\<close>.)
\<close>

theorem edit_reads_back:
  assumes edit: "edit_tool env fmt ps w = (Inr resp, w')" "\<not> rs_error resp" "ed_old ps \<noteq> []"
    and path: "path = smart_join (en_workdir env) (ed_path ps)"
  shows "\<exists>r old new is_crlf corrected.
    wd_log w' = wd_log w @ [Asked r True, Wrote path (write_content new is_crlf), Announced path] \<and>
    cr_params r = \<lparr>ep_path = path, ep_old = old, ep_new = new\<rparr> \<and>
    (\<exists>err. load_existing_file env fmt path err w = Loaded old is_crlf) \<and>
    find_and_replace old (ed_old ps) (ed_new ps) (ed_all ps) = Inr (new, corrected) \<and>
    (en_record_ok env \<longrightarrow> en_relpath env path \<noteq> [] \<longrightarrow> en_write_time env \<le> en_record_time env \<longrightarrow>
     (\<forall>env' err'. reads_like env env' \<longrightarrow> \<not> str_contains new crlf \<longrightarrow>
        load_existing_file env' fmt path err' w' = Loaded new (is_crlf \<and> nl \<in> set new)))"
proof -
  obtain err old is_crlf new corrected d dm meta msg resp0 where
      l: "load_existing_file env fmt path err w = Loaded old is_crlf"
    and f: "find_and_replace old (ed_old ps) (ed_new ps) (ed_all ps) = Inr (new, corrected)"
    and a: "ask_and_commit env edit_tool_name d path old new is_crlf dm meta msg w = (Inr resp0, w')" "\<not> rs_error resp0"
  proof (cases "ed_new ps = []")
    case True
    then have "delete_content env fmt path (ed_old ps) (ed_all ps) w = (Inr resp0, w') \<Longrightarrow> \<not> rs_error resp0 \<Longrightarrow> thesis" for resp0
      using that by (auto simp: delete_content_def dest: load_response_error split: loaded.splits sum.splits prod.splits)
    moreover have "\<exists>resp0. delete_content env fmt path (ed_old ps) (ed_all ps) w = (Inr resp0, w') \<and> \<not> rs_error resp0"
      using edit True by (auto simp: edit_tool_def path Let_def with_result_def split: if_splits prod.splits sum.splits)
    ultimately show ?thesis by blast
  next
    case False
    then have "replace_content env fmt path (ed_old ps) (ed_new ps) (ed_all ps) w = (Inr resp0, w') \<Longrightarrow> \<not> rs_error resp0 \<Longrightarrow> thesis" for resp0
      using that by (auto simp: replace_content_def dest: load_response_error split: loaded.splits sum.splits prod.splits if_splits)
    moreover have "\<exists>resp0. replace_content env fmt path (ed_old ps) (ed_new ps) (ed_all ps) w = (Inr resp0, w') \<and> \<not> rs_error resp0"
      using edit False by (auto simp: edit_tool_def path Let_def with_result_def split: if_splits prod.splits sum.splits)
    ultimately show ?thesis by blast
  qed
  obtain r w1 where c: "commit_file_change env path old (write_content new is_crlf) w1 = (None, w')"
    and log: "wd_log w' = wd_log w @ [Asked r True, Wrote path (write_content new is_crlf), Announced path]"
    and r: "cr_params r = \<lparr>ep_path = path, ep_old = old, ep_new = new\<rparr>"
    using ask_and_commit_ok [OF a] by blast
  have "load_existing_file env' fmt path err' w' = Loaded new (is_crlf \<and> nl \<in> set new)"
    if env: "en_record_ok env" "en_relpath env path \<noteq> []" "en_write_time env \<le> en_record_time env"
      and env': "reads_like env env'" and new: "\<not> str_contains new crlf" for env' err'
    unfolding load_committed [OF c load_Loaded [OF l] env env' [unfolded reads_like_def, THEN conjunct1]
        env' [unfolded reads_like_def, THEN conjunct2, THEN conjunct1]
        env' [unfolded reads_like_def, THEN conjunct2, THEN conjunct2, THEN conjunct1]
        env' [unfolded reads_like_def, THEN conjunct2, THEN conjunct2, THEN conjunct2, THEN conjunct1]
        env' [unfolded reads_like_def, THEN conjunct2, THEN conjunct2, THEN conjunct2, THEN conjunct2]]
      unix_of_windows [OF new] by simp
  with log r l f show ?thesis by blast
qed

definition two_lines :: "string \<Rightarrow> string \<Rightarrow> string" where
  "two_lines a b = a @ crlf @ b @ crlf"

definition demo_edit :: edit_params where
  "demo_edit = \<lparr>ed_path = ''f'', ed_old = ''a'', ed_new = ''c'', ed_all = False\<rparr>"

abbreviation no_format :: "int \<Rightarrow> string" where
  "no_format \<equiv> \<lambda>_. []"

lemma succeeded:
  assumes "\<not> isl (fst r) \<and> \<not> rs_error (projr (fst r))"
  shows "r = (Inr (projr (fst r)), snd r)" and "\<not> rs_error (projr (fst r))"
  using assms by (cases r; cases "fst r"; simp)+

theorem edit_reads_back_witness:
  "\<exists>r old new is_crlf corrected.
    wd_log (snd (edit_tool demo_env no_format demo_edit (demo_world (two_lines ''a'' ''b'')))) =
      wd_log (demo_world (two_lines ''a'' ''b'')) @ [Asked r True, Wrote ''/w/f'' (write_content new is_crlf), Announced ''/w/f''] \<and>
    cr_params r = \<lparr>ep_path = ''/w/f'', ep_old = old, ep_new = new\<rparr> \<and>
    (\<exists>err. load_existing_file demo_env no_format ''/w/f'' err (demo_world (two_lines ''a'' ''b'')) = Loaded old is_crlf) \<and>
    find_and_replace old (ed_old demo_edit) (ed_new demo_edit) (ed_all demo_edit) = Inr (new, corrected) \<and>
    (str_contains new crlf \<or>
     load_existing_file demo_env no_format ''/w/f'' [] (snd (edit_tool demo_env no_format demo_edit (demo_world (two_lines ''a'' ''b'')))) =
       Loaded new (is_crlf \<and> nl \<in> set new))"
proof -
  let ?w = "demo_world (two_lines ''a'' ''b'')"
  let ?r = "edit_tool demo_env no_format demo_edit ?w"
  let ?old = "''a'' @ [nl] @ ''b'' @ [nl]" and ?new = "''c'' @ [nl] @ ''b'' @ [nl]"
  have l: "load_existing_file demo_env no_format ''/w/f'' ''session ID is required for editing a file'' ?w = Loaded ?old True"
    by code_simp
  have f: "find_and_replace ?old ''a'' ''c'' False = Inr (?new, False)" by code_simp
  have e: "ed_path demo_edit = ''f''" "ed_old demo_edit = ''a''" "ed_new demo_edit = ''c''" "ed_all demo_edit = False"
    by (simp_all add: demo_edit_def)
  have j: "smart_join (en_workdir demo_env) ''f'' = ''/w/f''" by code_simp
  obtain d dm meta msg where r0: "?r = with_result (ask_and_commit demo_env edit_tool_name d ''/w/f'' ?old ?new True dm meta msg ?w)"
    unfolding edit_tool_def e j Let_def replace_content_def l loaded.case f sum.case prod.case by simp
  have ok: "\<not> isl (fst (with_result (ask_and_commit demo_env edit_tool_name d ''/w/f'' ?old ?new True dm meta msg ?w))) \<and>
      \<not> rs_error (projr (fst (with_result (ask_and_commit demo_env edit_tool_name d ''/w/f'' ?old ?new True dm meta msg ?w))))" for d dm meta msg
    by (simp add: ask_and_commit_def request_def commit_file_change_def write_file_def with_result_def
        text_response_def Let_def demo_env_def demo_world_def)
  have "\<not> isl (fst ?r) \<and> \<not> rs_error (projr (fst ?r))" unfolding r0 by (rule ok)
  note r = succeeded [OF this]
  have p: "''/w/f'' = smart_join (en_workdir demo_env) (ed_path demo_edit)" by (simp only: e j)
  have env: "en_record_ok demo_env" "en_relpath demo_env ''/w/f'' \<noteq> []" "en_write_time demo_env \<le> en_record_time demo_env"
    "en_stat_error demo_env = None" "en_read_error demo_env 0 = None" "en_last_read_ok demo_env" "ed_old demo_edit \<noteq> []"
    by (simp_all add: demo_env_def demo_edit_def)
  have "reads_like demo_env demo_env" using env(4-6) by (simp add: reads_like_def)
  with edit_reads_back [OF r env(7) p] env(1-3) show ?thesis by blast
qed

subsection \<open>Every edit is recorded\<close>

lemma latest_None: "get_by_path_and_session True path session h = Inl e \<Longrightarrow>
   filter (\<lambda>r. fr_path r = path \<and> fr_session r = session) (fh_rows h) = []"
proof -
  assume "get_by_path_and_session True path session h = Inl e"
  then have "filter (\<lambda>r. fr_session r = session) (list_files_by_path path (fh_rows h)) = []"
    by (simp add: get_by_path_and_session_def latest_file_def split: option.splits list.splits)
  then have "set (filter (\<lambda>r. fr_session r = session) (list_files_by_path path (fh_rows h))) = {}" by (simp only: list.set)
  then show ?thesis by (auto simp: list_files_by_path_def filter_empty_conv)
qed

lemma create_file_contents:
  assumes new: "filter (\<lambda>r. fr_path r = path \<and> fr_session r = session) (fh_rows h) = []"
  shows "\<exists>added. contents p s (snd (create_file att session path c h)) = contents p s h @ added \<and>
    set added \<subseteq> (if (p, s) = (path, session) then {c} else {})"
proof -
  obtain x h' where x: "create_with_version att session path c initial_version h = (x, h')" by fastforce
  show ?thesis
  proof (cases x)
    case (Inl e)
    then show ?thesis using x create_attempts_Inl by (fastforce simp: create_file_def create_with_version_def)
  next
    case (Inr row)
    note i = create_with_version_Inr [OF x [unfolded Inr]]
    have "above (fr_path row) (fr_session row) (fr_version row) (fh_rows h)"
      using new i(3,4) by (auto simp: above_def filter_empty_conv)
    then show ?thesis using contents_new [OF i(1), of p s] i x by (auto simp: create_file_def)
  qed
qed

text \<open>
  If the last statement of an edit's bookkeeping goes through, the session's latest version of
  the file is what the edit put on the disk, it comes after every version there was, and all that
  may stand in between is the text the edit started from. No other file's history changes.
\<close>

theorem edit_recorded:
  assumes stored: "store_versions env path old new h = (Inr row, h')" and get: "en_get_ok env"
  shows "latest_content (path, en_session env) h' = Some new \<and>
    (\<exists>added. contents path (en_session env) h' = contents path (en_session env) h @ added @ [new] \<and> set added \<subseteq> {old}) \<and>
    (\<forall>p s. (p, s) = (path, en_session env) \<or> contents p s h' = contents p s h)"
proof -
  let ?k = "(path, en_session env)" and ?log = "\<lambda>k. contents (fst k) (snd k)"
  let ?got = "get_by_path_and_session True path (en_session env) h"
  define h1 where "h1 = (case ?got of Inl e \<Rightarrow> snd (create_file (en_create env) (en_session env) path old h) | Inr r \<Rightarrow> h)"
  define differs where "differs \<longleftrightarrow> fr_content (case ?got of Inl e \<Rightarrow> empty_file | Inr r \<Rightarrow> r) \<noteq> old"
  define h2 where "h2 = (if differs then snd (add_version (en_version env 0) ?k old h1) else h1)"
  have last_add: "add_version (en_version env 1) ?k new h2 = (Inr row, h')"
    using stored get by (simp add: store_versions_def add_version_def Let_def h1_def h2_def differs_def cong: if_cong)
  have one: "\<exists>added. ?log k h1 = ?log k h @ added \<and> set added \<subseteq> (if k = ?k then {old} else {})" for k
  proof (cases ?got)
    case (Inl e)
    then show ?thesis using create_file_contents [OF latest_None [OF Inl], of "fst k" "snd k" "en_create env" old]
      by (auto simp: h1_def prod_eq_iff split: if_splits)
  qed (simp add: h1_def)
  have two: "\<exists>added. ?log k h2 = ?log k h @ added \<and> set added \<subseteq> (if k = ?k then {old} else {})" for k
    using one [of k] file_versions.add_log [of k "en_version env 0" ?k old h1] by (auto simp: h2_def)
  have three: "?log k h' = ?log k h2 @ (if k = ?k then [new] else [])" for k
    by (rule file_versions.add_logs [OF last_add])
  have "latest_content ?k h' = Some new" using file_versions.add_latest [OF last_add, of ?k] by simp
  moreover have "\<exists>added. ?log ?k h' = ?log ?k h @ added @ [new] \<and> set added \<subseteq> {old}"
    using two [of ?k] three [of ?k] by auto
  moreover have "?log k h' = ?log k h" if "k \<noteq> ?k" for k
    using two [of k] three [of k] that by auto
  ultimately show ?thesis by fastforce
qed

theorem edit_recorded_witness:
  "latest_content (''f'', ''s'') (snd (store_versions demo_env ''f'' ''a'' ''b'' no_history)) = Some ''b''"
proof -
  let ?r = "store_versions demo_env ''f'' ''a'' ''b'' no_history"
  have "\<not> isl (fst ?r)" by code_simp
  then obtain row where "?r = (Inr row, snd ?r)" by (cases ?r; cases "fst ?r") simp_all
  moreover have "en_get_ok demo_env" "en_session demo_env = ''s''" by (simp_all add: demo_env_def)
  ultimately show ?thesis using edit_recorded [of demo_env "''f''" "''a''" "''b''" no_history row "snd ?r"] by simp
qed

subsection \<open>Where the tools fall short\<close>

text \<open>
  What the session's history has of \<open>path\<close>, and what is on the disk, after a call; a call that finds
  every service working and is granted.
\<close>

definition on_disk :: "string \<Rightarrow> tool_world \<Rightarrow> string" where
  "on_disk path w = (case wd_fs w path of Some (FileNode c m) \<Rightarrow> c | _ \<Rightarrow> [])"

text \<open>A CRLF file whose new text has one CRLF of its own loses the line endings of all other lines.\<close>

lemma crlf_in_new_text_unifies_nothing:
  "write_content (''c'' @ crlf @ ''d'' @ [nl] @ ''b'' @ [nl]) True = ''c'' @ crlf @ ''d'' @ [nl] @ ''b'' @ [nl]"
  "to_unix_line_endings (two_lines ''a'' ''b'') = (''a'' @ [nl] @ ''b'' @ [nl], True)"
  "find_and_replace (''a'' @ [nl] @ ''b'' @ [nl]) ''a'' (''c'' @ crlf @ ''d'') False =
     Inr (''c'' @ crlf @ ''d'' @ [nl] @ ''b'' @ [nl], False)"
  by code_simp+

text \<open>In a file with mixed line endings, an edit rewrites lines it does not touch.\<close>

lemma mixed_line_endings_rewritten:
  "to_unix_line_endings (''a'' @ crlf @ ''b'' @ [nl]) = (''a'' @ [nl] @ ''b'' @ [nl], True)"
  "write_content (''c'' @ [nl] @ ''b'' @ [nl]) True = two_lines ''c'' ''b''"
  by code_simp+

text \<open>The first edit of a file stores the text it starts from twice.\<close>

lemma first_edit_stores_twice:
  "contents ''f'' ''s'' (snd (store_versions demo_env ''f'' ''a'' ''b'' no_history)) = [''a'', ''a'', ''b'']"
  by code_simp

text \<open>
  Every further edit of a CRLF file records a change nobody made: the history has the bytes written,
  the next edit compares them with the text it loaded.
\<close>

lemma crlf_edit_records_user_change:
  "let h = \<lparr>fh_rows = [\<lparr>fr_id = ''i'', fr_session = ''s'', fr_path = ''f'', fr_content = two_lines ''a'' ''b'',
                        fr_version = 1, fr_created = 1, fr_updated = 1\<rparr>], fh_events = []\<rparr>;
       old = fst (to_unix_line_endings (two_lines ''a'' ''b''))
   in contents ''f'' ''s'' (snd (store_versions demo_env ''f'' old (two_lines ''c'' ''b'') h)) =
        [two_lines ''a'' ''b'', old, two_lines ''c'' ''b'']"
  by code_simp

text \<open>What the user saves while the permission prompt is open is overwritten.\<close>

definition user_saves :: "string \<Rightarrow> string \<Rightarrow> ask_request \<Rightarrow> tool_world \<Rightarrow> (string + bool) \<times> tool_world" where
  "user_saves path content r w = (Inr True, w\<lparr>wd_fs := (wd_fs w)(path \<mapsto> FileNode content 4000000000)\<rparr>)"

lemma change_during_prompt_lost:
  "on_disk ''/w/f'' (snd (ask_and_commit (demo_env\<lparr>en_ask := user_saves ''/w/f'' ''precious''\<rparr>) edit_tool_name [] ''/w/f'' ''a'' ''c''
     False NoMeta NoMeta [] (demo_world ''a''))) = ''c''"
  by (simp add: ask_and_commit_def request_def commit_file_change_def write_file_def on_disk_def announce_def user_saves_def
      write_content_def Let_def demo_env_def demo_world_def)

text \<open>A change in the second of the read is not noticed: the file is from 3.99 s, it was read at 3 s.\<close>

lemma same_second_change_unnoticed:
  "load_existing_file demo_env no_format ''/w/f'' [] (demo_world ''x'') = Loaded ''x'' False"
  by code_simp

text \<open>Two edits that cancel out and one that fails are reported as all failed.\<close>

lemma cancelling_edits_all_failed:
  "apply_edits_to_content ''a'' [\<lparr>op_old = ''a'', op_new = ''b'', op_all = False\<rparr>, \<lparr>op_old = ''b'', op_new = ''a'', op_all = False\<rparr>,
       \<lparr>op_old = [], op_new = ''c'', op_all = False\<rparr>] 0 =
     (''a'', [\<lparr>fe_index = 3, fe_error = ''old_string cannot be empty for content replacement'', fe_old = [], fe_new = ''c''\<rparr>], False)"
  by code_simp

text \<open>A removed line that starts with two dashes is not counted.\<close>

lemma removed_dashes_not_counted:
  "generate_diff (\<lambda>_ _ _ _. unlines [''--- a/q.sql'', ''+++ b/q.sql'', ''@@ -1 +0,0 @@'', ''--- drop it'']) ''-- drop it'' [] ''q.sql'' =
     (unlines [''--- a/q.sql'', ''+++ b/q.sql'', ''@@ -1 +0,0 @@'', ''--- drop it''], 0, 0)"
  by code_simp

subsection \<open>Several edits at once\<close>

text \<open>The edits that apply are applied in order; the others are reported by their number.\<close>

fun applied_edits :: "string \<Rightarrow> edit_operation list \<Rightarrow> edit_operation list" where
  "applied_edits content [] = []"
| "applied_edits content (edit # edits) =
     (case apply_edit_to_content content edit of
        Inl e \<Rightarrow> applied_edits content edits
      | Inr (new, here) \<Rightarrow> edit # applied_edits new edits)"

lemma apply_edits_numbers:
  "apply_edits_to_content content edits start = (result, failed, corrected) \<Longrightarrow>
   list_all (\<lambda>f. start < fe_index f \<and> fe_index f \<le> start + length edits \<and>
     fe_old f = op_old (edits ! (fe_index f - start - 1))) failed \<and>
   sorted_wrt (<) (map fe_index failed) \<and>
   length failed + length (applied_edits content edits) = length edits"
proof (induction content edits start arbitrary: result failed corrected rule: apply_edits_to_content.induct)
  case (2 content edit edits start)
  show ?case
  proof (cases "apply_edit_to_content content edit")
    case (Inl e)
    obtain res fs c where rest: "apply_edits_to_content content edits (start + 1) = (res, fs, c)" by (metis prod_cases3)
    have ih: "list_all (\<lambda>f. start + 1 < fe_index f \<and> fe_index f \<le> start + 1 + length edits \<and>
        fe_old f = op_old (edits ! (fe_index f - (start + 1) - 1))) fs"
      "sorted_wrt (<) (map fe_index fs)" "length fs + length (applied_edits content edits) = length edits"
      using "2.IH"(1) [OF Inl rest] by auto
    have failed: "failed = \<lparr>fe_index = start + 1, fe_error = e, fe_old = op_old edit, fe_new = op_new edit\<rparr> # fs"
      using "2.prems" Inl rest by simp
    have "fe_old f = op_old ((edit # edits) ! (fe_index f - start - 1))" if "f \<in> set fs" for f
      using ih(1) that by (auto simp: list_all_iff nth_Cons')
    then show ?thesis using ih Inl unfolding failed by (auto simp: list_all_iff)
  next
    case (Inr p)
    obtain new here where p: "p = (new, here)" by fastforce
    obtain res fs c where rest: "apply_edits_to_content new edits (start + 1) = (res, fs, c)" by (metis prod_cases3)
    have ih: "list_all (\<lambda>f. start + 1 < fe_index f \<and> fe_index f \<le> start + 1 + length edits \<and>
        fe_old f = op_old (edits ! (fe_index f - (start + 1) - 1))) fs"
      "sorted_wrt (<) (map fe_index fs)" "length fs + length (applied_edits new edits) = length edits"
      using "2.IH"(2) [OF Inr p [symmetric] rest] p by auto
    have failed: "failed = fs" using "2.prems" Inr p rest by simp
    have "fe_old f = op_old ((edit # edits) ! (fe_index f - start - 1))" if "f \<in> set fs" for f
      using ih(1) that by (auto simp: list_all_iff nth_Cons')
    then show ?thesis using ih Inr p unfolding failed by (auto simp: list_all_iff)
  qed
qed simp

text \<open>The result is what the applied edits alone give.\<close>

lemma apply_edits_applied:
  "fst (apply_edits_to_content content (applied_edits content edits) start) = fst (apply_edits_to_content content edits start')"
proof (induction content edits arbitrary: start start' rule: applied_edits.induct)
  case (2 content edit edits)
  then show ?case by (auto split: sum.splits prod.splits) (metis fst_conv)+
qed simp

end
