(* ===== verification/SafeCommand.thy ===== *)
theory SafeCommand
  imports CommandKind Permission Hooks
begin

text \<open>
  Which shell commands run without a question, which are flagged, and the gate of the bash tool:
  internal/agent/tools/safe.go and bash.go, internal/shell/wrappers.go and the command check of
  internal/shell/shell.go.

  Parsing is mvdan.cc/sh's: \<open>stmt\<close> and \<open>word_part\<close> are what the code distinguishes of its syntax tree,
  \<open>parse\<close> and the nodes its walker visits are arguments, and so are \<open>expand\<close>, the expansion of a
  call's words without running anything (\<open>None\<close> is its error), and \<open>is_subset\<close>, the set inclusion of
  charmbracelet/x. Running a command (the background shells) is outside: the gate ends with the
  decision to run and the block list that is handed over.
\<close>

subsection \<open>The syntax tree\<close>

text \<open>\<open>Expansion\<close> is a parameter, command, process or arithmetic expansion; \<open>OtherPart\<close> has the parts inside it.\<close>

datatype word_part =
    Lit string
  | SglQuoted bool string
  | DblQuoted bool "word_part list"
  | Expansion
  | OtherPart "word_part list"

datatype bin_op = AndStmt | OrStmt | Pipe | PipeAll | OtherOp

text \<open>A statement has its command, the number of its redirections, and the flags background, coprocess, negated, disown.\<close>

datatype stmt = Stmt "command option" nat bool bool bool bool
and command =
    CallExpr nat "word_part list list"
  | BinaryCmd bin_op stmt stmt
  | Subshell "stmt list"
  | TimeClause "stmt option"
  | OtherCmd

subsection \<open>Wrappers\<close>

definition is_flag :: "string \<Rightarrow> bool" where
  "is_flag tok \<longleftrightarrow> length tok > 1 \<and> has_prefix tok ''-'' \<and> tok \<noteq> ''--''"

definition flag_name :: "string \<Rightarrow> string" where
  "flag_name tok = takeWhile (\<lambda>c. c \<noteq> CHR ''='') tok"

definition normalize_command :: "string \<Rightarrow> string" where
  "normalize_command cmd =
     (let c = trim_space cmd in
      if c = [] then []
      else (let b = to_lower (path_base c) in
            case find (\<lambda>ext. length b > length ext \<and> has_suffix b ext) [''.exe'', ''.bat'', ''.cmd''] of
              Some ext \<Rightarrow> take (length b - length ext) b
            | None \<Rightarrow> b))"

record command_wrapper =
  cw_name :: string
  cw_value_flags :: "string list"
  cw_skip :: nat

definition shell_wrappers :: "command_wrapper list" where
  "shell_wrappers =
     [\<lparr>cw_name = ''env'', cw_value_flags = [''-u'', ''--unset'', ''-C'', ''--chdir'', ''-S'', ''--split-string''], cw_skip = 0\<rparr>,
      \<lparr>cw_name = ''nohup'', cw_value_flags = [], cw_skip = 0\<rparr>,
      \<lparr>cw_name = ''nice'', cw_value_flags = [''-n'', ''--adjustment''], cw_skip = 0\<rparr>,
      \<lparr>cw_name = ''timeout'', cw_value_flags = [''-s'', ''--signal'', ''-k'', ''--kill-after''], cw_skip = 1\<rparr>]"

text \<open>The loop over a wrapper's own arguments; \<open>skip\<close> is how many operands are still its own.\<close>

fun peel_args :: "string list \<Rightarrow> nat \<Rightarrow> string list \<Rightarrow> string list option" where
  "peel_args value_flags skip [] = None"
| "peel_args value_flags skip (tok # rest) =
     (if tok = ''--'' then (if rest = [] then None else Some rest)
      else if is_flag tok then
        (if flag_name tok \<in> set value_flags \<and> CHR ''='' \<notin> set tok
         then (case rest of [] \<Rightarrow> None | v # rest' \<Rightarrow> peel_args value_flags skip rest')
         else peel_args value_flags skip rest)
      else if skip > 0 then peel_args value_flags (skip - 1) rest
      else Some (tok # rest))"

definition peel_wrapper :: "string list \<Rightarrow> string list option" where
  "peel_wrapper argv =
     (case argv of
        [] \<Rightarrow> None
      | name # rest \<Rightarrow>
          (case find (\<lambda>w. cw_name w = normalize_command name) shell_wrappers of
             None \<Rightarrow> None
           | Some w \<Rightarrow> peel_args (cw_value_flags w) (cw_skip w) rest))"

definition max_wrapper_depth :: nat where "max_wrapper_depth = 4"

fun resolve_loop :: "nat \<Rightarrow> string list \<Rightarrow> string list" where
  "resolve_loop 0 argv = argv"
| "resolve_loop (Suc n) argv = (case peel_wrapper argv of None \<Rightarrow> argv | Some wrapped \<Rightarrow> resolve_loop n wrapped)"

definition resolve_argv :: "string list \<Rightarrow> string list" where
  "resolve_argv = resolve_loop max_wrapper_depth"

subsection \<open>The list of safe commands\<close>

record safe_command =
  sc_argv :: "string list"
  sc_restrict :: bool
  sc_allow :: "string list"
  sc_deny :: "string list"
  sc_require :: bool
  sc_operands :: bool

definition safe_entry :: "string list \<Rightarrow> bool \<Rightarrow> string list \<Rightarrow> string list \<Rightarrow> bool \<Rightarrow> bool \<Rightarrow> safe_command" where
  "safe_entry argv restrict allow denied require operands =
     \<lparr>sc_argv = argv, sc_restrict = restrict, sc_allow = allow, sc_deny = denied, sc_require = require, sc_operands = operands\<rparr>"

definition git_code_exec_flags :: "string list" where
  "git_code_exec_flags =
     [''--ext-diff'', ''--textconv'', ''--open-files-in-pager'', ''-O'', ''--output'',
      ''--output-indicator-new'', ''--upload-pack'', ''--receive-pack'', ''--exec'']"

definition safe_commands :: "safe_command list" where
  "safe_commands =
     [safe_entry [''cal''] False [] [] False True,
      safe_entry [''date''] False [] [''-s'', ''--set''] False True,
      safe_entry [''df''] False [] [] False True,
      safe_entry [''du''] False [] [] False True,
      safe_entry [''echo''] False [] [] False True,
      safe_entry [''free''] False [] [] False True,
      safe_entry [''groups''] False [] [] False True,
      safe_entry [''hostname''] True [''-a'', ''--alias'', ''-A'', ''--all-fqdns'', ''-d'', ''--domain'', ''-f'', ''--fqdn'', ''--long'', ''-i'', ''--ip-address'', ''-I'', ''--all-ip-addresses'', ''-s'', ''--short'', ''-y'', ''--yp'', ''--nis''] [] False False,
      safe_entry [''id''] False [] [] False True,
      safe_entry [''ls''] False [] [] False True,
      safe_entry [''printenv''] False [] [] False True,
      safe_entry [''ps''] False [] [] False True,
      safe_entry [''pwd''] False [] [] False False,
      safe_entry [''top''] False [] [] False True,
      safe_entry [''type''] False [] [] False True,
      safe_entry [''uname''] False [] [] False True,
      safe_entry [''uptime''] False [] [] False True,
      safe_entry [''whatis''] False [] [] False True,
      safe_entry [''whereis''] False [] [] False True,
      safe_entry [''which''] False [] [] False True,
      safe_entry [''whoami''] False [] [] False False,
      safe_entry [''git'', ''blame''] False [] git_code_exec_flags False True,
      safe_entry [''git'', ''describe''] False [] git_code_exec_flags False True,
      safe_entry [''git'', ''diff''] False [] git_code_exec_flags False True,
      safe_entry [''git'', ''grep''] False [] git_code_exec_flags False True,
      safe_entry [''git'', ''log''] False [] git_code_exec_flags False True,
      safe_entry [''git'', ''ls-files''] False [] git_code_exec_flags False True,
      safe_entry [''git'', ''rev-parse''] False [] git_code_exec_flags False True,
      safe_entry [''git'', ''shortlog''] False [] git_code_exec_flags False True,
      safe_entry [''git'', ''show''] False [] git_code_exec_flags False True,
      safe_entry [''git'', ''status''] False [] git_code_exec_flags False True,
      safe_entry [''git'', ''branch''] True [''-l'', ''--list'', ''-a'', ''--all'', ''-r'', ''--remotes'', ''-v'', ''-vv'', ''--verbose'', ''--show-current'', ''--format'', ''--sort''] [] False False,
      safe_entry [''git'', ''tag''] True [''-l'', ''--list'', ''-n'', ''--contains'', ''--no-contains'', ''--merged'', ''--no-merged'', ''--points-at'', ''--format'', ''--sort''] [] False False,
      safe_entry [''git'', ''branch''] True [''--contains'', ''--no-contains'', ''--merged'', ''--no-merged'', ''--points-at''] [] True True,
      safe_entry [''git'', ''tag''] True [''--contains'', ''--no-contains'', ''--merged'', ''--no-merged'', ''--points-at''] [] True True,
      safe_entry [''git'', ''remote''] True [''-v'', ''--verbose''] [] False False,
      safe_entry [''git'', ''remote'', ''show''] True [''-n''] [] True True,
      safe_entry [''git'', ''remote'', ''get-url''] False [] [] False True,
      safe_entry [''git'', ''config''] True [''--get'', ''--get-all'', ''--list'', ''-l''] [] True True,
      safe_entry [''env''] True [] [] False False]"

definition windows_safe_commands :: "safe_command list" where
  "windows_safe_commands =
     [safe_entry [''ipconfig''] False [] [] False True, safe_entry [''systeminfo''] False [] [] False True,
      safe_entry [''tasklist''] False [] [] False True, safe_entry [''where''] False [] [] False True]"

definition flag_denied :: "string \<Rightarrow> string list \<Rightarrow> bool" where
  "flag_denied tok denied \<longleftrightarrow>
     flag_name tok \<in> set denied \<or>
     (\<not> has_prefix tok ''--'' \<and> list_ex (\<lambda>c. [CHR ''-'', c] \<in> set denied) (tl tok))"

text \<open>The loop of \<open>matches\<close>: whether an argument failed it, and whether a flag was seen.\<close>

fun match_args :: "safe_command \<Rightarrow> bool \<Rightarrow> bool \<Rightarrow> string list \<Rightarrow> bool \<times> bool" where
  "match_args sc operands_only saw_flag [] = (True, saw_flag)"
| "match_args sc operands_only saw_flag (arg # rest) =
     (if arg = ''--'' then match_args sc True saw_flag rest
      else if \<not> operands_only \<and> is_flag arg then
        (if sc_restrict sc \<and> flag_name arg \<notin> set (sc_allow sc) then (False, saw_flag)
         else if \<not> sc_restrict sc \<and> flag_denied arg (sc_deny sc) then (False, saw_flag)
         else match_args sc operands_only True rest)
      else if \<not> sc_operands sc then (False, saw_flag)
      else match_args sc operands_only saw_flag rest)"

definition safe_matches :: "safe_command \<Rightarrow> string list \<Rightarrow> bool" where
  "safe_matches sc argv =
     (if length argv < length (sc_argv sc) \<or> take (length (sc_argv sc)) argv \<noteq> sc_argv sc then False
      else (case match_args sc False False (drop (length (sc_argv sc)) argv) of
              (ok, saw_flag) \<Rightarrow> ok \<and> (saw_flag \<or> \<not> sc_require sc)))"

definition safe_argv :: "safe_command list \<Rightarrow> safe_command list \<Rightarrow> string list \<Rightarrow> bool" where
  "safe_argv builtin extra argv =
     (let argv' = resolve_argv argv in
      if argv' = [] then False
      else list_ex (\<lambda>sc. safe_matches sc argv') builtin \<or> list_ex (\<lambda>sc. safe_matches sc argv') extra)"

record permissions_config =
  pc_blocked :: "string list"
  pc_allowed :: "string list"
  pc_safe :: "string list"

definition user_safe_commands :: "permissions_config option \<Rightarrow> safe_command list" where
  "user_safe_commands perms =
     (case perms of
        None \<Rightarrow> []
      | Some p \<Rightarrow>
          concat (map (\<lambda>entry.
            (let argv = CommandKind.fields entry in
             if argv = [] then []
             else (let argv' = resolve_argv argv
                   in [safe_entry (normalize_command (hd argv') # tl argv') True [] [] False False])))
            (pc_safe p)))"

subsection \<open>Literal words\<close>

fun literal_inner :: "word_part list \<Rightarrow> string option" where
  "literal_inner [] = Some []"
| "literal_inner (Lit v # ps) = (if CHR 0x5C \<in> set v then None else map_option ((@) v) (literal_inner ps))"
| "literal_inner (p # ps) = None"

fun literal_word :: "word_part list \<Rightarrow> string option" where
  "literal_word [] = Some []"
| "literal_word (p # ps) =
     (case (case p of
              Lit v \<Rightarrow> if CHR 0x5C \<in> set v then None else Some v
            | SglQuoted dollar v \<Rightarrow> if dollar then None else Some v
            | DblQuoted dollar parts \<Rightarrow> if dollar then None else literal_inner parts
            | _ \<Rightarrow> None) of
        None \<Rightarrow> None
      | Some s \<Rightarrow> map_option ((@) s) (literal_word ps))"

fun literal_args :: "word_part list list \<Rightarrow> string list option" where
  "literal_args [] = Some []"
| "literal_args (w # ws) =
     (case literal_word w of None \<Rightarrow> None | Some s \<Rightarrow> map_option ((#) s) (literal_args ws))"

subsection \<open>Safe statements\<close>

fun safe_stmt :: "(string list \<Rightarrow> bool) \<Rightarrow> stmt \<Rightarrow> bool"
and safe_command_node :: "(string list \<Rightarrow> bool) \<Rightarrow> command \<Rightarrow> bool"
and safe_stmts :: "(string list \<Rightarrow> bool) \<Rightarrow> stmt list \<Rightarrow> bool" where
  "safe_stmt ok (Stmt cmd redirs background coprocess negated disown) =
     (case cmd of
        None \<Rightarrow> False
      | Some c \<Rightarrow>
          if redirs > 0 \<or> background \<or> coprocess \<or> negated \<or> disown then False
          else safe_command_node ok c)"
| "safe_command_node ok (TimeClause s) = (case s of None \<Rightarrow> False | Some s' \<Rightarrow> safe_stmt ok s')"
| "safe_command_node ok (BinaryCmd op x y) = (if op = OtherOp then False else safe_stmt ok x \<and> safe_stmt ok y)"
| "safe_command_node ok (Subshell ss) = (if ss = [] then False else safe_stmts ok ss)"
| "safe_command_node ok (CallExpr assigns args) =
     (if assigns > 0 \<or> args = [] then False
      else (case literal_args args of None \<Rightarrow> False | Some argv \<Rightarrow> ok argv))"
| "safe_command_node ok OtherCmd = False"
| "safe_stmts ok [] = True"
| "safe_stmts ok (s # ss) = (if \<not> safe_stmt ok s then False else safe_stmts ok ss)"

definition is_safe_read_only :: "(string \<Rightarrow> stmt list option) \<Rightarrow> safe_command list \<Rightarrow> safe_command list \<Rightarrow> string \<Rightarrow> bool" where
  "is_safe_read_only parse builtin extra command =
     (case parse command of
        None \<Rightarrow> False
      | Some stmts \<Rightarrow> if stmts = [] then False else safe_stmts (safe_argv builtin extra) stmts)"

subsection \<open>The list of blocked commands\<close>

definition default_blocked_commands :: "string list" where
  "default_blocked_commands =
     [''alias'', ''aria2c'', ''axel'', ''chrome'', ''curl'', ''curlie'', ''firefox'', ''http-prompt'',
      ''httpie'', ''links'', ''lynx'', ''nc'', ''safari'', ''scp'', ''ssh'', ''telnet'', ''w3m'',
      ''wget'', ''xh'', ''doas'', ''su'', ''sudo'', ''env'', ''eval'', ''nohup'', ''xargs'', ''apk'',
      ''apt'', ''apt-cache'', ''apt-get'', ''dnf'', ''dpkg'', ''emerge'', ''home-manager'', ''makepkg'',
      ''opkg'', ''pacman'', ''paru'', ''pkg'', ''pkg_add'', ''pkg_delete'', ''portage'', ''rpm'',
      ''yay'', ''yum'', ''zypper'', ''at'', ''batch'', ''chkconfig'', ''crontab'', ''fdisk'', ''mkfs'',
      ''mount'', ''parted'', ''service'', ''systemctl'', ''umount'', ''firewall-cmd'', ''ifconfig'',
      ''ip'', ''iptables'', ''netstat'', ''pfctl'', ''route'', ''ufw'']"

text \<open>The loop that drops repeated names; \<open>seen\<close> are the names so far.\<close>

fun dedup_names :: "string list \<Rightarrow> string list \<Rightarrow> string list" where
  "dedup_names seen [] = []"
| "dedup_names seen (c # cs) = (if c \<in> set seen then dedup_names seen cs else c # dedup_names (c # seen) cs)"

definition resolve_blocked_commands :: "permissions_config option \<Rightarrow> string list" where
  "resolve_blocked_commands perms =
     (case perms of
        None \<Rightarrow> default_blocked_commands
      | Some p \<Rightarrow>
          (let allowed = map normalize_command (pc_allowed p);
               blocked_names = default_blocked_commands @ filter (\<lambda>n. n \<noteq> []) (map normalize_command (pc_blocked p))
           in dedup_names [] (filter (\<lambda>c. normalize_command c \<notin> set allowed) blocked_names)))"

definition commands_blocker :: "string list \<Rightarrow> string list \<Rightarrow> bool" where
  "commands_blocker cmds args =
     (case resolve_argv args of [] \<Rightarrow> False | name # _ \<Rightarrow> normalize_command name \<in> set (map normalize_command cmds))"

text \<open>Positional arguments and flags.\<close>

fun split_args_flags :: "bool \<Rightarrow> string list \<Rightarrow> string list \<times> string list" where
  "split_args_flags end_of_flags [] = ([], [])"
| "split_args_flags end_of_flags (part # parts) =
     (if end_of_flags \<or> part = ''-'' \<or> \<not> has_prefix part ''-''
      then (case split_args_flags end_of_flags parts of (args, flags) \<Rightarrow> (part # args, flags))
      else if part = ''--'' then split_args_flags True parts
      else (case split_args_flags end_of_flags parts of (args, flags) \<Rightarrow>
              (args, flag_name part #
                 (if \<not> has_prefix (flag_name part) ''--'' \<and> length (flag_name part) > 2
                  then map (\<lambda>c. [CHR ''-'', c]) (tl (flag_name part)) else []) @ flags)))"

record block_rule =
  br_command :: string
  br_args :: "string list"
  br_flags :: "string list"

definition rule_match :: "(string list \<Rightarrow> string list \<Rightarrow> bool) \<Rightarrow> block_rule \<Rightarrow> string list \<Rightarrow> bool" where
  "rule_match is_subset r args =
     (case resolve_argv args of
        [] \<Rightarrow> False
      | name # rest \<Rightarrow>
          if normalize_command name \<noteq> normalize_command (br_command r) then False
          else (case split_args_flags False rest of (pos, flags) \<Rightarrow>
            if length pos < length (br_args r) \<or> take (length (br_args r)) pos \<noteq> br_args r then False
            else is_subset (br_flags r) flags))"

definition arguments_blocker :: "(string list \<Rightarrow> string list \<Rightarrow> bool) \<Rightarrow> string \<times> string list \<times> string list \<Rightarrow> string list \<Rightarrow> bool" where
  "arguments_blocker is_subset = (\<lambda>(cmd, args, flags). rule_match is_subset \<lparr>br_command = cmd, br_args = args, br_flags = flags\<rparr>)"

definition argument_rules :: "(string \<times> string list \<times> string list) list" where
  "argument_rules =
     [(''apk'', [''add''], []),
      (''apt'', [''install''], []),
      (''apt-get'', [''install''], []),
      (''dnf'', [''install''], []),
      (''pacman'', [], [''-S'']),
      (''pkg'', [''install''], []),
      (''yum'', [''install''], []),
      (''zypper'', [''install''], []),
      (''brew'', [''install''], []),
      (''cargo'', [''install''], []),
      (''gem'', [''install''], []),
      (''go'', [''install''], []),
      (''npm'', [''install''], [''--global'']),
      (''npm'', [''install''], [''-g'']),
      (''pip'', [''install''], [''--user'']),
      (''pip3'', [''install''], [''--user'']),
      (''pnpm'', [''add''], [''--global'']),
      (''pnpm'', [''add''], [''-g'']),
      (''yarn'', [''global'', ''add''], []),
      (''go'', [''test''], [''-exec''])]"

definition block_funcs :: "(string list \<Rightarrow> string list \<Rightarrow> bool) \<Rightarrow> string list \<Rightarrow> (string list \<Rightarrow> bool) list" where
  "block_funcs is_subset blocked_names = commands_blocker blocked_names # map (arguments_blocker is_subset) argument_rules"

subsection \<open>Checking a command\<close>

text \<open>What \<open>syntax.Walk\<close> visits, with what is below it.\<close>

datatype walk_node =
    CallNode "word_part list list" "walk_node list"
  | RedirectNode "word_part list option" "walk_node list"
  | OtherNode "walk_node list"

record command_check =
  ck_matched :: bool
  ck_reason :: string

definition no_check :: command_check where
  "no_check = \<lparr>ck_matched = False, ck_reason = []\<rparr>"

fun is_dynamic_part :: "word_part \<Rightarrow> bool" where
  "is_dynamic_part (Lit v) = False"
| "is_dynamic_part (SglQuoted dollar v) = False"
| "is_dynamic_part (DblQuoted dollar ps) = list_ex is_dynamic_part ps"
| "is_dynamic_part Expansion = True"
| "is_dynamic_part (OtherPart ps) = list_ex is_dynamic_part ps"

definition is_dynamic_word :: "word_part list \<Rightarrow> bool" where
  "is_dynamic_word w = list_ex is_dynamic_part w"

definition suspect :: "string \<Rightarrow> command_check \<Rightarrow> command_check" where
  "suspect reason r = r\<lparr>ck_reason := (if ck_reason r \<noteq> [] then ck_reason r else reason)\<rparr>"

fun check_node :: "(word_part list list \<Rightarrow> string list option) \<Rightarrow> (string list \<Rightarrow> bool) list \<Rightarrow> walk_node \<Rightarrow> command_check \<Rightarrow> command_check"
and check_nodes :: "(word_part list list \<Rightarrow> string list option) \<Rightarrow> (string list \<Rightarrow> bool) list \<Rightarrow> walk_node list \<Rightarrow> command_check \<Rightarrow> command_check" where
  "check_node expand blockers (CallNode args below) r =
     (if ck_matched r then r
      else if args = [] then check_nodes expand blockers below r
      else if is_dynamic_word (hd args) then suspect ''expansion in command name'' r
      else (case expand args of
        None \<Rightarrow> suspect ''substitution in arguments'' r
      | Some fs \<Rightarrow>
          if list_ex (\<lambda>b. b fs) blockers
          then \<lparr>ck_matched = True, ck_reason = normalize_command (hd (resolve_argv fs))\<rparr>
          else check_nodes expand blockers below r))"
| "check_node expand blockers (RedirectNode w below) r =
     (if ck_matched r then r
      else (case w of
        None \<Rightarrow> check_nodes expand blockers below r
      | Some word \<Rightarrow>
          if expand [word] = None then suspect ''process substitution in redirect position'' r
          else check_nodes expand blockers below r))"
| "check_node expand blockers (OtherNode below) r =
     (if ck_matched r then r else check_nodes expand blockers below r)"
| "check_nodes expand blockers [] r = r"
| "check_nodes expand blockers (n # ns) r = check_nodes expand blockers ns (check_node expand blockers n r)"

text \<open>\<open>walk\<close> is \<open>None\<close> for a command that cannot be parsed.\<close>

definition check_command ::
  "(string \<Rightarrow> walk_node list option) \<Rightarrow> (word_part list list \<Rightarrow> string list option) \<Rightarrow> (string list \<Rightarrow> bool) list \<Rightarrow> string \<Rightarrow> command_check" where
  "check_command walk expand blockers command =
     (case walk command of None \<Rightarrow> no_check | Some nodes \<Rightarrow> check_nodes expand blockers nodes no_check)"

subsection \<open>The bash tool\<close>

record bash_params =
  bp_description :: string
  bp_command :: string
  bp_working_dir :: string
  bp_background :: bool
  bp_auto_background :: int

datatype bash_outcome =
    BashError string
  | BashFailed string
  | BashDenied
  | BashRun string "string list option"

record bash_env =
  be_parse :: "string \<Rightarrow> stmt list option"
  be_walk :: "string \<Rightarrow> walk_node list option"
  be_expand :: "word_part list list \<Rightarrow> string list option"
  be_subset :: "string list \<Rightarrow> string list \<Rightarrow> bool"
  be_windows :: bool
  be_working_dir :: string
  be_perms :: "permissions_config option"
  be_session :: string
  be_call_id :: string
  be_ask :: "bash_params create_request \<Rightarrow> string + bool"
  be_mode :: perm_mode

text \<open>
  The tool up to \<open>executeBashCommand\<close>: the request it made, if any, and the outcome. \<open>BashRun dir blocked_names\<close>
  runs the command in \<open>dir\<close> under the block functions of \<open>blocked_names\<close>, or under none.
\<close>

definition bash_tool :: "bash_env \<Rightarrow> bash_params \<Rightarrow> bash_params create_request option \<times> bash_outcome" where
  "bash_tool env ps =
     (if bp_command ps = [] then (None, BashError ''missing command'')
      else (let blocked_names = resolve_blocked_commands (be_perms env);
                dir = (if bp_working_dir ps \<noteq> [] then bp_working_dir ps else be_working_dir env);
                builtin = safe_commands @ (if be_windows env then windows_safe_commands else []);
                safe = is_safe_read_only (be_parse env) builtin (user_safe_commands (be_perms env)) (bp_command ps);
                run = (\<lambda>check. BashRun dir (if \<not> ck_matched check \<and> be_mode env \<noteq> ModeSysadmin then Some blocked_names else None))
            in if be_session env = [] then (None, BashFailed ''session ID is required for executing shell command'')
               else if safe then (None, run no_check)
               else (let check = check_command (be_walk env) (be_expand env) (block_funcs (be_subset env) blocked_names) (bp_command ps);
                         r = \<lparr>cr_session = be_session env, cr_call = be_call_id env, cr_tool = ''bash'',
                              cr_description = ''Execute command: '' @ bp_command ps, cr_action = ''execute'', cr_params = ps,
                              cr_path = dir, cr_danger = ck_reason check, cr_grant = bp_command ps\<rparr>
                     in (Some r, case be_ask env r of
                          Inl e \<Rightarrow> BashFailed e
                        | Inr False \<Rightarrow> BashDenied
                        | Inr True \<Rightarrow> run check))))"

text \<open>\<open>trunc\<close> is \<open>TruncateOutput\<close>, \<open>show\<close> the text of an error.\<close>

definition format_output :: "(string \<Rightarrow> string) \<Rightarrow> (exec_error \<Rightarrow> string) \<Rightarrow> string \<Rightarrow> string \<Rightarrow> exec_error option \<Rightarrow> string" where
  "format_output trunc error_text out err exec_err =
     (let out1 = trunc out;
          err1 = trunc err;
          message = (if err1 = [] \<and> exec_err \<noteq> None then error_text (the exec_err) else err1);
          gap = (if message \<noteq> [] then [CHR 0x0A] else []);
          message' = (if is_interrupt exec_err then message @ gap @ ''Command was aborted before completion''
                      else if exit_code exec_err \<noteq> 0 then message @ gap @ ''Exit code '' @ int_str (exit_code exec_err)
                      else message);
          out2 = (if out1 \<noteq> [] \<and> err1 \<noteq> [] then out1 @ [CHR 0x0A] else out1)
      in if message' \<noteq> [] then out2 @ [CHR 0x0A] @ message' else out2)"

subsection \<open>What an entry accepts\<close>

text \<open>The flags and the operands after an entry's tokens: nothing after the first \<open>--\<close> is a flag.\<close>

definition cmd_flags :: "string list \<Rightarrow> string list" where
  "cmd_flags args = filter is_flag (takeWhile (\<lambda>a. a \<noteq> ''--'') args)"

definition cmd_operands :: "string list \<Rightarrow> string list" where
  "cmd_operands args =
     filter (\<lambda>a. \<not> is_flag a) (takeWhile (\<lambda>a. a \<noteq> ''--'') args) @
     filter (\<lambda>a. a \<noteq> ''--'') (dropWhile (\<lambda>a. a \<noteq> ''--'') args)"

definition flag_ok :: "safe_command \<Rightarrow> string \<Rightarrow> bool" where
  "flag_ok sc flag = (if sc_restrict sc then flag_name flag \<in> set (sc_allow sc) else \<not> flag_denied flag (sc_deny sc))"

definition entry_accepts :: "safe_command \<Rightarrow> string list \<Rightarrow> bool" where
  "entry_accepts sc args \<longleftrightarrow>
     list_all (flag_ok sc) (cmd_flags args) \<and> (if sc_operands sc then True else cmd_operands args = []) \<and>
     (if sc_require sc then cmd_flags args \<noteq> [] else True)"

lemma match_args_rest:
  "match_args sc True saw args = (ok, saw') \<Longrightarrow>
   ok = (sc_operands sc \<or> list_all (\<lambda>a. a = ''--'') args) \<and> saw' = saw"
  by (induction args) (auto split: if_splits)

lemma not_flag_dashes [simp]: "\<not> is_flag ''--''"
  by (simp add: is_flag_def)

lemma match_args_spec:
  "match_args sc False saw args = (ok, saw') \<Longrightarrow>
   ok = (list_all (flag_ok sc) (cmd_flags args) \<and> (sc_operands sc \<or> cmd_operands args = [])) \<and>
   (ok \<longrightarrow> saw' = (saw \<or> cmd_flags args \<noteq> []))"
proof (induction args arbitrary: saw)
  case Nil
  then show ?case by (simp add: cmd_flags_def cmd_operands_def)
next
  case (Cons a args)
  show ?case
  proof (cases "a = ''--''")
    case True
    with Cons.prems have "match_args sc True saw args = (ok, saw')" by simp
    from match_args_rest [OF this] True show ?thesis
      by (auto simp: cmd_flags_def cmd_operands_def list_all_iff filter_empty_conv)
  next
    case other: False
    show ?thesis
    proof (cases "is_flag a")
      case True
      have f: "cmd_flags (a # args) = a # cmd_flags args" "cmd_operands (a # args) = cmd_operands args"
        using other True by (simp_all add: cmd_flags_def cmd_operands_def)
      show ?thesis
      proof (cases "flag_ok sc a")
        case ok: True
        with Cons.prems other True have "match_args sc False True args = (ok, saw')"
          by (auto simp: flag_ok_def split: if_splits)
        from Cons.IH [OF this] ok f show ?thesis by simp
      next
        case False
        with Cons.prems other True have "\<not> ok" by (auto simp: flag_ok_def split: if_splits)
        with False f show ?thesis by simp
      qed
    next
      case False
      have f: "cmd_flags (a # args) = cmd_flags args" "cmd_operands (a # args) = a # cmd_operands args"
        using other False by (simp_all add: cmd_flags_def cmd_operands_def)
      show ?thesis
      proof (cases "sc_operands sc")
        case True
        with Cons.prems other False have "match_args sc False saw args = (ok, saw')" by simp
        from Cons.IH [OF this] True f show ?thesis by simp
      next
        case no: False
        with Cons.prems other False have "\<not> ok" by simp
        with no f show ?thesis by simp
      qed
    qed
  qed
qed

text \<open>
  An entry of the safe list accepts exactly the commands that start with its tokens and go on
  with flags it allows, operands only if it takes any, and at least one flag if it requires one.
  What comes after the first double dash is an operand, however it looks.
\<close>

lemma safe_matches_iff:
  "safe_matches sc argv \<longleftrightarrow> (\<exists>args. argv = sc_argv sc @ args \<and> entry_accepts sc args)"
proof (cases "take (length (sc_argv sc)) argv = sc_argv sc")
  case True
  then obtain args where argv: "argv = sc_argv sc @ args" by (metis append_take_drop_id)
  obtain ok saw where m: "match_args sc False False args = (ok, saw)" by fastforce
  show ?thesis using match_args_spec [OF m] m by (auto simp: safe_matches_def argv entry_accepts_def)
next
  case False
  then show ?thesis by (auto simp: safe_matches_def)
qed

subsection \<open>Wrappers are peeled to the end\<close>

lemma peel_args_suffix: "peel_args vf k args = Some rest \<Longrightarrow> suffix rest args \<and> rest \<noteq> []"
proof (induction vf k args rule: peel_args.induct)
  case (2 vf k tok args)
  consider "rest = args" "args \<noteq> []" | "rest = tok # args" | "peel_args vf k (tl args) = Some rest" "args \<noteq> []"
      "is_flag tok" "tok \<noteq> ''--''" "flag_name tok \<in> set vf \<and> CHR ''='' \<notin> set tok"
    | "peel_args vf k args = Some rest" "is_flag tok" "tok \<noteq> ''--''" "\<not> (flag_name tok \<in> set vf \<and> CHR ''='' \<notin> set tok)"
    | "peel_args vf (k - 1) args = Some rest" "\<not> is_flag tok" "tok \<noteq> ''--''" "k > 0"
    using "2.prems" by (fastforce split: if_splits list.splits)
  then show ?case
  proof cases
    case 3
    then obtain v args' where args: "args = v # args'" by (cases args) auto
    then have "suffix rest args' \<and> rest \<noteq> []" using "2.IH"(1) [of v args'] 3 by simp
    then show ?thesis by (simp add: args suffix_Cons)
  next
    case 4
    then have "suffix rest args \<and> rest \<noteq> []" using "2.IH"(2) by simp
    then show ?thesis by (simp add: suffix_Cons)
  next
    case 5
    then have "suffix rest args \<and> rest \<noteq> []" using "2.IH"(3) by simp
    then show ?thesis by (simp add: suffix_Cons)
  qed (simp_all add: suffix_Cons)
qed simp

lemma peel_wrapper_suffix:
  assumes "peel_wrapper argv = Some rest"
  shows "strict_suffix rest argv \<and> rest \<noteq> []"
proof -
  obtain name args where argv: "argv = name # args" using assms by (cases argv) (auto simp: peel_wrapper_def)
  with assms obtain vf k where "peel_args vf k args = Some rest" by (auto simp: peel_wrapper_def split: option.splits)
  from peel_args_suffix [OF this] argv show ?thesis
    by (auto simp: strict_suffix_def suffix_def)
qed

lemma resolve_loop_suffix: "suffix (resolve_loop n argv) argv"
proof (induction n arbitrary: argv)
  case (Suc n)
  show ?case
  proof (cases "peel_wrapper argv")
    case (Some rest)
    then show ?thesis using Suc [of rest] peel_wrapper_suffix [OF Some]
      by (auto simp: strict_suffix_def intro: suffix_order.trans)
  qed simp
qed simp

lemma resolve_argv_suffix: "suffix (resolve_argv argv) argv"
  unfolding resolve_argv_def by (rule resolve_loop_suffix)

lemma resolve_argv_Nil [simp]: "resolve_argv argv = [] \<longleftrightarrow> argv = []"
proof -
  have "argv \<noteq> [] \<Longrightarrow> resolve_loop n argv \<noteq> []" for n
  proof (induction n arbitrary: argv)
    case (Suc n)
    then show ?case using peel_wrapper_suffix [of argv] by (auto split: option.splits)
  qed simp
  then show ?thesis using resolve_argv_suffix [of argv] by (auto simp: resolve_argv_def)
qed

definition is_wrapper :: "string \<Rightarrow> bool" where
  "is_wrapper name \<longleftrightarrow> list_ex (\<lambda>w. cw_name w = normalize_command name) shell_wrappers"

definition all_safe_commands :: "bool \<Rightarrow> safe_command list" where
  "all_safe_commands windows = safe_commands @ (if windows then windows_safe_commands else [])"

text \<open>The one wrapper on the safe list takes neither flags nor operands.\<close>

lemma safe_entries_known:
  "list_all (\<lambda>sc. sc_argv sc \<noteq> [] \<and>
     (if is_wrapper (hd (sc_argv sc)) then tl (sc_argv sc) = [] \<and> sc_restrict sc \<and> sc_allow sc = [] \<and> \<not> sc_operands sc else True))
     (safe_commands @ windows_safe_commands)"
  by code_simp

lemma safe_entry_known:
  "sc \<in> set (all_safe_commands windows) \<Longrightarrow> sc_argv sc \<noteq> [] \<and>
     (if is_wrapper (hd (sc_argv sc)) then tl (sc_argv sc) = [] \<and> sc_restrict sc \<and> sc_allow sc = [] \<and> \<not> sc_operands sc else True)"
  using safe_entries_known by (auto simp: all_safe_commands_def list_all_iff split: if_splits)

lemma only_dashes:
  assumes "cmd_flags args = []" and "cmd_operands args = []"
  shows "list_all (\<lambda>a. a = ''--'') args"
proof -
  have "takeWhile (\<lambda>a. a \<noteq> ''--'') args = []"
    using assms unfolding cmd_flags_def cmd_operands_def
    by (metis (mono_tags, lifting) append_is_Nil_conv filter_empty_conv list.set_intros(1) neq_Nil_conv)
  then have "dropWhile (\<lambda>a. a \<noteq> ''--'') args = args" by (metis append_Nil takeWhile_dropWhile_id)
  then show ?thesis using assms(2) by (simp add: cmd_operands_def filter_empty_conv list_all_iff)
qed

lemma accepted_not_wrapped:
  assumes "sc \<in> set (all_safe_commands windows)" and "entry_accepts sc args"
  shows "\<not> is_wrapper (hd (sc_argv sc @ args)) \<or> list_all (\<lambda>a. a = ''--'') (tl (sc_argv sc @ args))"
proof (cases "is_wrapper (hd (sc_argv sc))")
  case True
  then have sc: "sc_argv sc \<noteq> []" "tl (sc_argv sc) = []" "sc_restrict sc" "sc_allow sc = []" "\<not> sc_operands sc"
    using safe_entry_known [OF assms(1)] by (simp_all only: if_True) blast+
  have "cmd_flags args = []"
    using assms(2) sc by (cases "cmd_flags args") (auto simp: entry_accepts_def flag_ok_def)
  moreover have "cmd_operands args = []" using assms(2) sc by (simp add: entry_accepts_def)
  ultimately show ?thesis using only_dashes sc by (cases "sc_argv sc") auto
next
  case False
  then show ?thesis using safe_entry_known [OF assms(1)] by (cases "sc_argv sc") auto
qed

subsection \<open>What runs without a question\<close>

text \<open>
  A plain statement has no redirection, is not in the background, negated or detached, and is a
  call without assignments, a chain or a pipeline, a subshell or a timed statement of plain ones.
\<close>

fun plain_stmt :: "stmt \<Rightarrow> bool"
and plain_command :: "command \<Rightarrow> bool"
and plain_stmts :: "stmt list \<Rightarrow> bool" where
  "plain_stmt (Stmt cmd redirs background coprocess negated disown) \<longleftrightarrow>
     redirs = 0 \<and> \<not> background \<and> \<not> coprocess \<and> \<not> negated \<and> \<not> disown \<and>
     (case cmd of None \<Rightarrow> False | Some c \<Rightarrow> plain_command c)"
| "plain_command (TimeClause s) \<longleftrightarrow> (case s of None \<Rightarrow> False | Some s' \<Rightarrow> plain_stmt s')"
| "plain_command (BinaryCmd op x y) \<longleftrightarrow> op \<noteq> OtherOp \<and> plain_stmt x \<and> plain_stmt y"
| "plain_command (Subshell ss) \<longleftrightarrow> ss \<noteq> [] \<and> plain_stmts ss"
| "plain_command (CallExpr assigns args) \<longleftrightarrow> assigns = 0 \<and> args \<noteq> []"
| "plain_command OtherCmd \<longleftrightarrow> False"
| "plain_stmts [] \<longleftrightarrow> True"
| "plain_stmts (s # ss) \<longleftrightarrow> plain_stmt s \<and> plain_stmts ss"

text \<open>The calls of a statement, as their words.\<close>

fun stmt_calls :: "stmt \<Rightarrow> word_part list list list"
and command_calls :: "command \<Rightarrow> word_part list list list"
and stmts_calls :: "stmt list \<Rightarrow> word_part list list list" where
  "stmt_calls (Stmt cmd redirs background coprocess negated disown) = (case cmd of None \<Rightarrow> [] | Some c \<Rightarrow> command_calls c)"
| "command_calls (TimeClause s) = (case s of None \<Rightarrow> [] | Some s' \<Rightarrow> stmt_calls s')"
| "command_calls (BinaryCmd op x y) = stmt_calls x @ stmt_calls y"
| "command_calls (Subshell ss) = stmts_calls ss"
| "command_calls (CallExpr assigns args) = [args]"
| "command_calls OtherCmd = []"
| "stmts_calls [] = []"
| "stmts_calls (s # ss) = stmt_calls s @ stmts_calls ss"

definition literal_call :: "(string list \<Rightarrow> bool) \<Rightarrow> word_part list list \<Rightarrow> bool" where
  "literal_call ok args \<longleftrightarrow> (case literal_args args of None \<Rightarrow> False | Some argv \<Rightarrow> ok argv)"

lemma safe_stmt_iff:
  "safe_stmt ok s \<longleftrightarrow> plain_stmt s \<and> list_all (literal_call ok) (stmt_calls s)"
  "safe_command_node ok c \<longleftrightarrow> plain_command c \<and> list_all (literal_call ok) (command_calls c)"
  "safe_stmts ok ss \<longleftrightarrow> plain_stmts ss \<and> list_all (literal_call ok) (stmts_calls ss)"
  by (induction ok s and ok c and ok ss rule: safe_stmt_safe_command_node_safe_stmts.induct)
    (auto simp: literal_call_def split: option.splits)

text \<open>A part that means itself, and what it says.\<close>

fun literal_part :: "word_part \<Rightarrow> bool" where
  "literal_part (Lit v) \<longleftrightarrow> CHR 0x5C \<notin> set v"
| "literal_part (SglQuoted dollar v) \<longleftrightarrow> \<not> dollar"
| "literal_part (DblQuoted dollar ps) \<longleftrightarrow>
     \<not> dollar \<and> list_all (\<lambda>p. case p of Lit v \<Rightarrow> CHR 0x5C \<notin> set v | _ \<Rightarrow> False) ps"
| "literal_part Expansion \<longleftrightarrow> False"
| "literal_part (OtherPart ps) \<longleftrightarrow> False"

fun part_text :: "word_part \<Rightarrow> string" where
  "part_text (Lit v) = v"
| "part_text (SglQuoted dollar v) = v"
| "part_text (DblQuoted dollar ps) = concat (map part_text ps)"
| "part_text Expansion = []"
| "part_text (OtherPart ps) = concat (map part_text ps)"

definition word_text :: "word_part list \<Rightarrow> string" where
  "word_text w = concat (map part_text w)"

lemma literal_inner_spec:
  "literal_inner ps = (if list_all (\<lambda>p. case p of Lit v \<Rightarrow> CHR 0x5C \<notin> set v | _ \<Rightarrow> False) ps
     then Some (concat (map part_text ps)) else None)"
  by (induction ps rule: literal_inner.induct) auto

lemma literal_word_spec: "literal_word w = (if list_all literal_part w then Some (word_text w) else None)"
proof (induction w)
  case (Cons p ps)
  then show ?case by (cases p) (auto simp: word_text_def literal_inner_spec)
qed (simp add: word_text_def)

lemma literal_args_spec:
  "literal_args args = (if list_all (list_all literal_part) args then Some (map word_text args) else None)"
  by (induction args) (auto simp: literal_word_spec)

definition listed_call :: "safe_command list \<Rightarrow> word_part list list \<Rightarrow> bool" where
  "listed_call table args \<longleftrightarrow>
     list_all (list_all literal_part) args \<and>
     (\<exists>sc rest. sc \<in> set table \<and> resolve_argv (map word_text args) = sc_argv sc @ rest \<and> entry_accepts sc rest)"

lemma literal_call_listed:
  assumes "args \<noteq> []"
  shows "literal_call (safe_argv builtin extra) args \<longleftrightarrow> listed_call (builtin @ extra) args"
  using assms
  by (auto simp: literal_call_def listed_call_def literal_args_spec safe_argv_def Let_def list_ex_iff safe_matches_iff)

lemma plain_calls_nonempty:
  "plain_stmt s \<Longrightarrow> [] \<notin> set (stmt_calls s)"
  "plain_command c \<Longrightarrow> [] \<notin> set (command_calls c)"
  "plain_stmts ss \<Longrightarrow> [] \<notin> set (stmts_calls ss)"
  by (induction s and c and ss rule: plain_stmt_plain_command_plain_stmts.induct) (auto split: option.splits)

lemma is_safe_iff:
  "is_safe_read_only parse builtin extra command \<longleftrightarrow>
     (\<exists>stmts. parse command = Some stmts \<and> stmts \<noteq> [] \<and> plain_stmts stmts \<and>
        list_all (listed_call (builtin @ extra)) (stmts_calls stmts))"
proof -
  have "list_all (literal_call (safe_argv builtin extra)) (stmts_calls ss) \<longleftrightarrow> list_all (listed_call (builtin @ extra)) (stmts_calls ss)"
    if "plain_stmts ss" for ss
    using plain_calls_nonempty(3) [OF that] literal_call_listed by (metis (mono_tags, lifting) list_all_iff)
  then show ?thesis by (auto simp: is_safe_read_only_def safe_stmt_iff(3) split: option.splits)
qed

text \<open>
  C2: A bash call runs without asking exactly if its command parses into plain statements whose
  every call is made of literal words and, once its wrappers are peeled, is accepted by an entry of
  the safe list or of the user's. Nothing else runs unasked: no redirection, no assignment, no
  expansion, no statement the analysis does not know.
\<close>

theorem unasked_bash_is_listed:
  "(\<exists>dir bl. bash_tool env ps = (None, BashRun dir bl)) \<longleftrightarrow>
     bp_command ps \<noteq> [] \<and> be_session env \<noteq> [] \<and>
     (\<exists>stmts. be_parse env (bp_command ps) = Some stmts \<and> stmts \<noteq> [] \<and> plain_stmts stmts \<and>
        list_all (listed_call (all_safe_commands (be_windows env) @ user_safe_commands (be_perms env))) (stmts_calls stmts))"
  unfolding bash_tool_def is_safe_iff all_safe_commands_def
  by (auto simp: Let_def split: sum.splits bool.splits)

text \<open>
  C17: Peeling does not stop early on the safe list: if a built-in entry accepts a command, the
  command that was checked is no wrapper any more, unless it is one with nothing to run.
\<close>

theorem safe_is_innermost:
  assumes "safe_argv (all_safe_commands windows) [] argv"
  shows "(if is_wrapper (hd (resolve_argv argv)) then list_all (\<lambda>a. a = ''--'') (tl (resolve_argv argv)) else True)"
proof -
  obtain sc rest where "sc \<in> set (all_safe_commands windows)" "resolve_argv argv = sc_argv sc @ rest" "entry_accepts sc rest"
    using assms by (auto simp: safe_argv_def Let_def list_ex_iff safe_matches_iff split: if_splits)
  then show ?thesis using accepted_not_wrapped by metis
qed

theorem safe_is_innermost_witness:
  "safe_argv (all_safe_commands False) [] [''nice'', ''-n'', ''10'', ''nohup'', ''git'', ''log'', ''--oneline''] \<and>
   (if is_wrapper (hd (resolve_argv [''nice'', ''-n'', ''10'', ''nohup'', ''git'', ''log'', ''--oneline'']))
    then list_all (\<lambda>a. a = ''--'') (tl (resolve_argv [''nice'', ''-n'', ''10'', ''nohup'', ''git'', ''log'', ''--oneline''])) else True)"
proof -
  have "safe_argv (all_safe_commands False) [] [''nice'', ''-n'', ''10'', ''nohup'', ''git'', ''log'', ''--oneline'']"
    by code_simp
  then show ?thesis using safe_is_innermost by blast
qed

subsection \<open>The blocked names\<close>

lemma set_dedup: "set (dedup_names seen cs) = set cs - set seen"
  by (induction seen cs rule: dedup_names.induct) auto

lemma distinct_dedup: "distinct (dedup_names seen cs)"
  by (induction seen cs rule: dedup_names.induct) (auto simp: set_dedup)

lemma subseq_dedup: "subseq (dedup_names seen cs) cs"
  by (induction seen cs rule: dedup_names.induct) auto

text \<open>
  The names the bash tool refuses are the built-in ones and the configured ones, brought to the
  form they are matched in, without those that the configuration allows in any spelling; no name
  twice, the built-in ones first and in their order.
\<close>

theorem blocked_names_resolved:
  "set (resolve_blocked_commands (Some p)) =
     {c \<in> set default_blocked_commands \<union> (normalize_command ` set (pc_blocked p) - {[]}).
        normalize_command c \<notin> normalize_command ` set (pc_allowed p)} \<and>
   distinct (resolve_blocked_commands (Some p)) \<and>
   subseq (resolve_blocked_commands (Some p)) (default_blocked_commands @ map normalize_command (pc_blocked p))"
proof -
  let ?b = "default_blocked_commands @ filter (\<lambda>n. n \<noteq> []) (map normalize_command (pc_blocked p))"
  let ?f = "filter (\<lambda>c. normalize_command c \<notin> set (map normalize_command (pc_allowed p))) ?b"
  have r: "resolve_blocked_commands (Some p) = dedup_names [] ?f"
    by (simp add: resolve_blocked_commands_def Let_def)
  have "subseq ?f (default_blocked_commands @ map normalize_command (pc_blocked p))"
    by (rule subseq_order.trans [OF subseq_filter_left]) (simp add: list_emb_append_mono subseq_filter_left)
  then have "subseq (dedup_names [] ?f) (default_blocked_commands @ map normalize_command (pc_blocked p))"
    by (rule subseq_order.trans [OF subseq_dedup])
  then show ?thesis unfolding r by (auto simp: set_dedup distinct_dedup)
qed

subsection \<open>What the check reports\<close>

text \<open>
  The reference: the calls the walk gets to and what their words expand to, in the order of the
  walk, and the reasons to be suspicious of what it does not look into.
\<close>

fun visible :: "(word_part list list \<Rightarrow> string list option) \<Rightarrow> walk_node \<Rightarrow> string list list"
and visibles :: "(word_part list list \<Rightarrow> string list option) \<Rightarrow> walk_node list \<Rightarrow> string list list" where
  "visible expand (CallNode args below) =
     (if args = [] then visibles expand below
      else if is_dynamic_word (hd args) then []
      else (case expand args of None \<Rightarrow> [] | Some fs \<Rightarrow> fs # visibles expand below))"
| "visible expand (RedirectNode w below) =
     (case w of None \<Rightarrow> visibles expand below
      | Some word \<Rightarrow> if expand [word] = None then [] else visibles expand below)"
| "visible expand (OtherNode below) = visibles expand below"
| "visibles expand [] = []"
| "visibles expand (n # ns) = visible expand n @ visibles expand ns"

fun doubts :: "(word_part list list \<Rightarrow> string list option) \<Rightarrow> walk_node \<Rightarrow> string list"
and doubts_all :: "(word_part list list \<Rightarrow> string list option) \<Rightarrow> walk_node list \<Rightarrow> string list" where
  "doubts expand (CallNode args below) =
     (if args = [] then doubts_all expand below
      else if is_dynamic_word (hd args) then [''expansion in command name'']
      else (case expand args of None \<Rightarrow> [''substitution in arguments''] | Some fs \<Rightarrow> doubts_all expand below))"
| "doubts expand (RedirectNode w below) =
     (case w of None \<Rightarrow> doubts_all expand below
      | Some word \<Rightarrow> if expand [word] = None then [''process substitution in redirect position''] else doubts_all expand below)"
| "doubts expand (OtherNode below) = doubts_all expand below"
| "doubts_all expand [] = []"
| "doubts_all expand (n # ns) = doubts expand n @ doubts_all expand ns"

definition refused_by :: "(string list \<Rightarrow> bool) list \<Rightarrow> string list \<Rightarrow> bool" where
  "refused_by blockers fs \<longleftrightarrow> list_ex (\<lambda>b. b fs) blockers"

definition first_doubt :: "string list \<Rightarrow> string" where
  "first_doubt ds = (case ds of [] \<Rightarrow> [] | d # _ \<Rightarrow> d)"

definition settle_check :: "(string list \<Rightarrow> bool) list \<Rightarrow> string list list \<Rightarrow> string list \<Rightarrow> command_check \<Rightarrow> command_check" where
  "settle_check blockers calls ds r =
     (if ck_matched r then r
      else (case find (refused_by blockers) calls of
        Some fs \<Rightarrow> \<lparr>ck_matched = True, ck_reason = normalize_command (hd (resolve_argv fs))\<rparr>
      | None \<Rightarrow> suspect (first_doubt ds) r))"

lemma suspect_nothing [simp]: "suspect [] r = r"
  by (simp add: suspect_def)

lemma ck_matched_suspect [simp]: "ck_matched (suspect d r) = ck_matched r"
  by (simp add: suspect_def)

lemma settle_nothing [simp]: "settle_check blockers [] [] r = r"
  by (simp add: settle_check_def first_doubt_def)

lemma suspect_twice:
  "[] \<notin> set ds \<Longrightarrow> suspect (first_doubt ds') (suspect (first_doubt ds) r) = suspect (first_doubt (ds @ ds')) r"
  by (cases ds) (auto simp: suspect_def first_doubt_def)

lemma settle_append:
  assumes "[] \<notin> set ds"
  shows "settle_check blockers (calls @ calls') (ds @ ds') r = settle_check blockers calls' ds' (settle_check blockers calls ds r)"
  using assms by (simp add: settle_check_def find_append suspect_twice split: option.split)

lemma doubts_named: "[] \<notin> set (doubts expand n)" "[] \<notin> set (doubts_all expand ns)"
  by (induction expand n and expand ns rule: doubts_doubts_all.induct) (auto split: option.splits)

lemma settle_matched: "ck_matched r \<Longrightarrow> settle_check blockers calls ds r = r"
  by (simp add: settle_check_def)

lemma settle_call:
  "\<not> ck_matched r \<Longrightarrow> settle_check blockers (fs # calls) ds r =
     (if refused_by blockers fs then \<lparr>ck_matched = True, ck_reason = normalize_command (hd (resolve_argv fs))\<rparr>
      else settle_check blockers calls ds r)"
  by (simp add: settle_check_def)

lemma settle_doubt: "\<not> ck_matched r \<Longrightarrow> settle_check blockers [] [d] r = suspect d r"
  by (simp add: settle_check_def first_doubt_def)

lemma check_node_spec:
  "check_node expand blockers n r = settle_check blockers (visible expand n) (doubts expand n) r"
  "check_nodes expand blockers ns r = settle_check blockers (visibles expand ns) (doubts_all expand ns) r"
proof (induction expand blockers n r and expand blockers ns r rule: check_node_check_nodes.induct)
  case (1 expand blockers args below r)
  show ?case
  proof (cases "ck_matched r")
    case False
    then show ?thesis using 1
      by (auto simp: settle_doubt settle_call refused_by_def split: option.split)
  qed (simp add: settle_matched)
next
  case (2 expand blockers w below r)
  show ?case
  proof (cases "ck_matched r")
    case False
    then show ?thesis using 2 by (auto simp: settle_doubt split: option.split)
  qed (simp add: settle_matched)
next
  case (3 expand blockers below r)
  then show ?case by (cases "ck_matched r") (simp_all add: settle_matched)
next
  case (5 expand blockers n ns r)
  then show ?case by (simp add: settle_append doubts_named)
qed simp_all

text \<open>
  C16: The check names a command exactly if the walk of the parsed text gets to a call that some
  block rule refuses, and it names the first such call, by the command its wrappers run; otherwise
  it reports the first part it could not look into, or nothing.
\<close>

theorem check_reports_first_refused:
  "check_command walk expand blockers command =
     (case walk command of
        None \<Rightarrow> no_check
      | Some nodes \<Rightarrow>
          (case find (refused_by blockers) (visibles expand nodes) of
             Some fs \<Rightarrow> \<lparr>ck_matched = True, ck_reason = normalize_command (hd (resolve_argv fs))\<rparr>
           | None \<Rightarrow> \<lparr>ck_matched = False, ck_reason = first_doubt (doubts_all expand nodes)\<rparr>))"
  by (simp add: check_command_def check_node_spec settle_check_def no_check_def suspect_def split: option.split)

subsection \<open>Where the lists fall short\<close>

abbreviation plain_call :: "string list \<Rightarrow> stmt" where
  "plain_call argv \<equiv> Stmt (Some (CallExpr 0 (map (\<lambda>w. [Lit w]) argv))) 0 False False False False"

text \<open>
  The value of \<open>env -S\<close> is a command line that \<open>env\<close> splits and runs, with what follows as its
  arguments. Peeling skips it as a flag's value and checks the words that follow instead.
\<close>

lemma env_split_string_runs_unasked:
  "peel_wrapper [''env'', ''-S'', ''rm -rf .'', ''ls''] = Some [''ls'']"
  "safe_argv (all_safe_commands False) [] [''env'', ''-S'', ''rm -rf .'', ''ls'']"
  "safe_argv (all_safe_commands False) [] [''env'', ''--split-string=rm -rf .'', ''ls'']"
  "\<not> commands_blocker default_blocked_commands [''env'', ''-S'', ''curl example.com'', ''ls'']"
  by code_simp+

text \<open>
  An operand of \<open>date\<close> sets the clock just as \<open>-s\<close> does, and a long flag can be spelled by a prefix or come out of
  a brace expansion, which is applied after this check.
\<close>

lemma date_operand_accepted: "safe_argv (all_safe_commands False) [] [''date'', ''010112002030'']"
  by code_simp

lemma abbreviated_flag_accepted:
  "\<not> safe_argv (all_safe_commands False) [] [''git'', ''diff'', ''--output=x'']"
  "safe_argv (all_safe_commands False) [] [''git'', ''diff'', ''--outpu=x'']"
  by code_simp+

lemma brace_expansion_accepted:
  "literal_word [Lit ''--outpu{t,}=x''] = Some ''--outpu{t,}=x''"
  "safe_argv (all_safe_commands False) [] [''git'', ''diff'', ''--outpu{t,}=x'']"
  by code_simp+

text \<open>Peeling stops after four wrappers, so a fifth hides the command from the block list.\<close>

lemma fifth_wrapper_hides_command:
  "commands_blocker default_blocked_commands [''nice'', ''nice'', ''nice'', ''nice'', ''curl'', ''x'']"
  "\<not> commands_blocker default_blocked_commands [''nice'', ''nice'', ''nice'', ''nice'', ''nice'', ''curl'', ''x'']"
  by code_simp+

text \<open>What cannot be parsed is reported as harmless.\<close>

lemma unparsed_not_suspicious: "check_command (\<lambda>_. None) expand blockers command = no_check"
  by (simp add: check_command_def)

end
