(* ===== verification/Question.thy ===== *)
theory Question
  imports Prelude GoLib
begin

text \<open>
  Questions to the user (\<open>internal/question/question.go\<close>) and the tool that asks them
  (\<open>internal/agent/tools/question.go\<close>): validation, the service with its single pending
  question, and the text the model reads.

  The service is modelled with its goroutines: every \<open>Ask\<close>, \<open>Answer\<close> and \<open>Cancel\<close> is a thread
  that takes one step per critical section, channel operation or event, and the scheduler is a
  list of such steps. The two channels an \<open>Ask\<close> makes are named by its thread. A step that
  would close a closed channel is a panic, which is \<open>None\<close>; a step that would block changes
  nothing. \<open>quote\<close> is fmt's \<open>%q\<close>, \<open>new_id\<close> stands for \<open>uuid.New\<close>, \<open>marshal\<close> for the JSON of a list
  of strings, and the order in which Go ranges over the notes of an answer is an argument.
\<close>

subsection \<open>Requests\<close>

datatype question_type = YesNo | SingleChoice | MultiChoice | FreeText | OtherType string

fun type_string :: "question_type \<Rightarrow> string" where
  "type_string YesNo = ''yes_no''"
| "type_string SingleChoice = ''single_choice''"
| "type_string MultiChoice = ''multi_choice''"
| "type_string FreeText = ''free_text''"
| "type_string (OtherType s) = s"

record choice =
  c_id :: string
  c_label :: string
  c_desc :: string

record question =
  q_id :: string
  q_type :: question_type
  q_label :: string
  q_text :: string
  q_desc :: string
  q_choices :: "choice list"

record answer =
  a_question :: string
  a_selected :: "string list"
  a_fill_in :: string
  a_yes :: "bool option"
  a_notes :: "(string, string) gomap"

definition has_notes :: "answer \<Rightarrow> bool" where
  "has_notes a = (0 < length (a_notes a))"

record question_request =
  ar_id :: string
  ar_session :: string
  ar_tool_call :: string
  ar_questions :: "question list"
  ar_title :: string
  ar_desc :: string

definition no_request :: question_request where
  "no_request = \<lparr>ar_id = [], ar_session = [], ar_tool_call = [], ar_questions = [], ar_title = [], ar_desc = []\<rparr>"

definition max_question_length :: nat where "max_question_length = 240"
definition max_description_length :: nat where "max_description_length = 600"
definition max_choice_label_length :: nat where "max_choice_label_length = 200"
definition max_choice_description_length :: nat where "max_choice_description_length = 200"
definition max_choices :: nat where "max_choices = 5"
definition max_questions :: nat where "max_questions = 5"

lemmas question_limits =
  max_question_length_def max_description_length_def max_choice_label_length_def
  max_choice_description_length_def max_choices_def max_questions_def

definition q_identifier :: "question \<Rightarrow> string" where
  "q_identifier q =
     (if q_label q \<noteq> [] then ''['' @ q_label q @ '']''
      else if q_text q \<noteq> [] then
        ''['' @ (if 40 < length (q_text q) then take 40 (q_text q) @ [CHR 0xE2, CHR 0x80, CHR 0xA6] else q_text q) @ '']''
      else ''[unnamed question]'')"

text \<open>The first argument of a refusal is the \<open>q_identifier\<close>, a number that of the choice.\<close>

datatype choice_error =
    ChoiceNoId nat
  | ChoiceDuplicateId nat string
  | ChoiceNoLabel nat string
  | ChoiceLabelTooLong nat nat
  | ChoiceDescTooLong nat nat

datatype question_error =
    TextRequired string
  | TextTooLong string nat
  | DescRequired string
  | DescTooLong string nat
  | TooFewChoices string question_type nat
  | TooManyChoices string nat
  | BadChoice string choice_error
  | UnknownType string string

fun check_choices :: "nat \<Rightarrow> string list \<Rightarrow> choice list \<Rightarrow> choice_error option" where
  "check_choices i seen [] = None"
| "check_choices i seen (c # cs) =
     (if c_id c = [] then Some (ChoiceNoId (i + 1))
      else if c_id c \<in> set seen then Some (ChoiceDuplicateId (i + 1) (c_id c))
      else if c_label c = [] then Some (ChoiceNoLabel (i + 1) (c_id c))
      else if max_choice_label_length < length (c_label c) then Some (ChoiceLabelTooLong (i + 1) (length (c_label c)))
      else if max_choice_description_length < length (c_desc c) then Some (ChoiceDescTooLong (i + 1) (length (c_desc c)))
      else check_choices (i + 1) (c_id c # seen) cs)"

definition check_choice_list :: "question \<Rightarrow> question_error option" where
  "check_choice_list q =
     (let n = length (q_choices q) in
      if n < 2 then Some (TooFewChoices (q_identifier q) (q_type q) n)
      else if max_choices < n then Some (TooManyChoices (q_identifier q) n)
      else map_option (BadChoice (q_identifier q)) (check_choices 0 [] (q_choices q)))"

definition validate_question :: "question \<Rightarrow> question_error option" where
  "validate_question q =
     (if q_text q = [] then Some (TextRequired (q_identifier q))
      else if max_question_length < length (q_text q) then Some (TextTooLong (q_identifier q) (length (q_text q)))
      else if q_desc q = [] then Some (DescRequired (q_identifier q))
      else if max_description_length < length (q_desc q) then Some (DescTooLong (q_identifier q) (length (q_desc q)))
      else (case q_type q of
          YesNo \<Rightarrow> None
        | FreeText \<Rightarrow> None
        | SingleChoice \<Rightarrow> check_choice_list q
        | MultiChoice \<Rightarrow> check_choice_list q
        | OtherType t \<Rightarrow> Some (UnknownType (q_identifier q) t)))"

datatype request_error = NoQuestions | TooManyQuestions nat | BadQuestion nat question_error

fun check_questions :: "nat \<Rightarrow> question list \<Rightarrow> request_error option" where
  "check_questions i [] = None"
| "check_questions i (q # qs) =
     (case validate_question q of Some e \<Rightarrow> Some (BadQuestion (i + 1) e) | None \<Rightarrow> check_questions (i + 1) qs)"

definition validate_request :: "question_request \<Rightarrow> request_error option" where
  "validate_request r =
     (let n = length (ar_questions r) in
      if n = 0 then Some NoQuestions
      else if max_questions < n then Some (TooManyQuestions n)
      else check_questions 0 (ar_questions r))"

text \<open>The identifiers and the titles \<open>Ask\<close> fills in; \<open>new_id n\<close> is the \<open>n\<close>-th identifier drawn.\<close>

fun fill_ids :: "(nat \<Rightarrow> string) \<Rightarrow> nat \<Rightarrow> question list \<Rightarrow> question list" where
  "fill_ids new_id n [] = []"
| "fill_ids new_id n (q # qs) =
     (if q_id q = [] then q\<lparr>q_id := new_id n\<rparr> # fill_ids new_id (n + 1) qs else q # fill_ids new_id n qs)"

definition complete_request :: "(nat \<Rightarrow> string) \<Rightarrow> question_request \<Rightarrow> question_request" where
  "complete_request new_id r =
     (let n = (if ar_id r = [] then 1 else 0);
          r1 = r\<lparr>ar_id := (if ar_id r = [] then new_id 0 else ar_id r), ar_questions := fill_ids new_id n (ar_questions r)\<rparr>
      in if 2 \<le> length (ar_questions r1)
         then r1\<lparr>ar_title := (if ar_title r1 = [] then ''Ready to go?'' else ar_title r1),
                 ar_desc := (if ar_desc r1 = [] then ''Review your answers above and confirm.'' else ar_desc r1)\<rparr>
         else r1)"

subsection \<open>What validation accepts\<close>

definition choice_ok :: "choice \<Rightarrow> bool" where
  "choice_ok c \<longleftrightarrow> c_id c \<noteq> [] \<and> c_label c \<noteq> [] \<and> length (c_label c) \<le> 200 \<and> length (c_desc c) \<le> 200"

definition question_ok :: "question \<Rightarrow> bool" where
  "question_ok q \<longleftrightarrow>
     length (q_text q) \<in> {1..240} \<and> length (q_desc q) \<in> {1..600} \<and>
     (q_type q \<in> {YesNo, FreeText} \<or>
      q_type q \<in> {SingleChoice, MultiChoice} \<and> length (q_choices q) \<in> {2..5} \<and>
      list_all choice_ok (q_choices q) \<and> distinct (map c_id (q_choices q)))"

lemma check_choices_None:
  "check_choices i seen cs = None \<longleftrightarrow>
     list_all choice_ok cs \<and> distinct (map c_id cs) \<and> set (map c_id cs) \<inter> set seen = {}"
  by (induction i seen cs rule: check_choices.induct) (auto simp: choice_ok_def question_limits)

lemma check_choice_list_None:
  "check_choice_list q = None \<longleftrightarrow>
     length (q_choices q) \<in> {2..5} \<and> list_all choice_ok (q_choices q) \<and> distinct (map c_id (q_choices q))"
  by (auto simp: check_choice_list_def check_choices_None question_limits Let_def)

lemma length_pos_iff: "Suc 0 \<le> length xs \<longleftrightarrow> xs \<noteq> []"
  by (cases xs) auto

lemma validate_question_None: "validate_question q = None \<longleftrightarrow> question_ok q"
  by (cases "q_type q")
     (auto simp: validate_question_def question_ok_def check_choice_list_None question_limits length_pos_iff)

lemma check_questions_None: "check_questions i qs = None \<longleftrightarrow> list_all question_ok qs"
  by (induction i qs rule: check_questions.induct) (auto simp flip: validate_question_None split: option.splits)

lemma length_fill_ids [simp]: "length (fill_ids new_id n qs) = length qs"
  by (induction new_id n qs rule: fill_ids.induct) auto

lemma fill_ids_Nil [simp]: "fill_ids new_id n qs = [] \<longleftrightarrow> qs = []"
  using length_fill_ids [of new_id n qs] by (cases qs) auto

lemma fill_ids_ok [simp]: "list_all question_ok (fill_ids new_id n qs) = list_all question_ok qs"
  by (induction new_id n qs rule: fill_ids.induct) (auto simp: question_ok_def)

text \<open>
  \<open>Ask\<close> accepts a request exactly if it has one to five questions, each with a text of 1 to
  240 bytes, a description of 1 to 600, a known type and, if it is a choice, two to five choices
  with distinct identifiers, a label each and no overlong text. Filling in identifiers and titles
  first changes nothing about this.
\<close>

theorem ask_accepts_iff:
  "validate_request (complete_request new_id r) = None \<longleftrightarrow>
     length (ar_questions r) \<in> {1..5} \<and> list_all question_ok (ar_questions r)"
  by (auto simp: validate_request_def complete_request_def check_questions_None question_limits Let_def length_pos_iff)

subsection \<open>The service\<close>

datatype ask_result = AskInvalid request_error | ErrQuestionPending | ErrCancelled | ErrContext | Answered "answer list"

datatype question_thread =
    AskNew question_request
  | AskMade question_request
  | AskReady
  | AskWaits "nat option" "nat option"
  | AskLeft ask_result
  | AskDone ask_result
  | AnswerNew "answer list"
  | AnswerHolds "answer list" nat string string
  | AnswerSent string string
  | AnswerDone bool
  | CancelNew
  | CancelHolds nat string string
  | CancelClosed string string
  | CancelDone bool

text \<open>
  The fields of \<open>questionService\<close>, the channels by the thread of their \<open>Ask\<close>, what the two brokers
  published, and the threads. \<open>qs_sent\<close> only records which answering thread sent what to
  which channel.
\<close>

record question_sys =
  qs_pending :: "nat option"
  qs_cancelled :: "nat option"
  qs_pending_id :: string
  qs_pending_req :: question_request
  qs_buffer :: "nat \<Rightarrow> answer list option"
  qs_closed :: "nat \<Rightarrow> bool"
  qs_published :: "question_request list"
  qs_notes :: "(string \<times> string) list"
  qs_threads :: "question_thread list"
  qs_crashed :: bool
  qs_sent :: "(nat \<times> nat \<times> answer list) list"

definition new_question_service :: question_sys where
  "new_question_service =
     \<lparr>qs_pending = None, qs_cancelled = None, qs_pending_id = [], qs_pending_req = no_request,
      qs_buffer = (\<lambda>_. None), qs_closed = (\<lambda>_. False), qs_published = [], qs_notes = [],
      qs_threads = [], qs_crashed = False, qs_sent = []\<rparr>"

definition question_goto :: "nat \<Rightarrow> question_thread \<Rightarrow> question_sys \<Rightarrow> question_sys" where
  "question_goto i th s = s\<lparr>qs_threads := (qs_threads s)[i := th]\<rparr>"

definition ask_register :: "(nat \<Rightarrow> string) \<Rightarrow> nat \<Rightarrow> question_request \<Rightarrow> question_sys \<Rightarrow> question_sys" where
  "ask_register new_id i r s =
     (let r' = complete_request new_id r in
      case validate_request r' of
        Some e \<Rightarrow> question_goto i (AskDone (AskInvalid e)) s
      | None \<Rightarrow>
          if qs_pending s \<noteq> None then question_goto i (AskDone ErrQuestionPending) s
          else question_goto i (AskMade r')
                 (s\<lparr>qs_pending := Some i, qs_cancelled := Some i, qs_pending_id := ar_id r', qs_pending_req := r',
                    qs_buffer := (qs_buffer s)(i := None), qs_closed := (qs_closed s)(i := False)\<rparr>))"

definition ask_publish :: "nat \<Rightarrow> question_request \<Rightarrow> question_sys \<Rightarrow> question_sys" where
  "ask_publish i r s = question_goto i AskReady (s\<lparr>qs_published := qs_published s @ [r]\<rparr>)"

definition ask_select :: "nat \<Rightarrow> question_sys \<Rightarrow> question_sys" where
  "ask_select i s = question_goto i (AskWaits (qs_cancelled s) (qs_pending s)) s"

definition ask_cleanup :: "nat \<Rightarrow> ask_result \<Rightarrow> question_sys \<Rightarrow> question_sys" where
  "ask_cleanup i res s =
     question_goto i (AskDone res) (s\<lparr>qs_pending := None, qs_cancelled := None, qs_pending_id := [], qs_pending_req := no_request\<rparr>)"

definition answer_read :: "nat \<Rightarrow> answer list \<Rightarrow> question_sys \<Rightarrow> question_sys" where
  "answer_read i as s =
     (case qs_pending s of
        None \<Rightarrow> question_goto i (AnswerDone False) s
      | Some c \<Rightarrow> question_goto i (AnswerHolds as c (qs_pending_id s) (ar_session (qs_pending_req s))) s)"

definition answer_send :: "nat \<Rightarrow> answer list \<Rightarrow> nat \<Rightarrow> string \<Rightarrow> string \<Rightarrow> question_sys \<Rightarrow> question_sys" where
  "answer_send i as c batch session s =
     (case qs_buffer s c of
        Some _ \<Rightarrow> s
      | None \<Rightarrow> question_goto i (AnswerSent batch session)
                  (s\<lparr>qs_buffer := (qs_buffer s)(c := Some as), qs_sent := qs_sent s @ [(c, i, as)]\<rparr>))"

definition dismiss :: "string \<Rightarrow> string \<Rightarrow> question_sys \<Rightarrow> question_sys" where
  "dismiss batch session s = (if batch \<noteq> [] then s\<lparr>qs_notes := qs_notes s @ [(batch, session)]\<rparr> else s)"

definition question_cancel_read :: "nat \<Rightarrow> question_sys \<Rightarrow> question_sys" where
  "question_cancel_read i s =
     (case qs_cancelled s of
        None \<Rightarrow> question_goto i (CancelDone False) s
      | Some c \<Rightarrow> question_goto i (CancelHolds c (qs_pending_id s) (ar_session (qs_pending_req s))) s)"

definition question_cancel_close :: "nat \<Rightarrow> nat \<Rightarrow> string \<Rightarrow> string \<Rightarrow> question_sys \<Rightarrow> question_sys" where
  "question_cancel_close i c batch session s =
     (if qs_closed s c then s\<lparr>qs_crashed := True\<rparr>
      else question_goto i (CancelClosed batch session) (s\<lparr>qs_closed := (qs_closed s)(c := True)\<rparr>))"

fun question_thread_step :: "(nat \<Rightarrow> nat \<Rightarrow> string) \<Rightarrow> nat \<Rightarrow> question_thread \<Rightarrow> question_sys \<Rightarrow> question_sys" where
  "question_thread_step new_id i (AskNew r) s = ask_register (new_id i) i r s"
| "question_thread_step new_id i (AskMade r) s = ask_publish i r s"
| "question_thread_step new_id i AskReady s = ask_select i s"
| "question_thread_step new_id i (AskLeft res) s = ask_cleanup i res s"
| "question_thread_step new_id i (AnswerNew as) s = answer_read i as s"
| "question_thread_step new_id i (AnswerHolds as c b ses) s = answer_send i as c b ses s"
| "question_thread_step new_id i (AnswerSent b ses) s = question_goto i (AnswerDone True) (dismiss b ses s)"
| "question_thread_step new_id i CancelNew s = question_cancel_read i s"
| "question_thread_step new_id i (CancelHolds c b ses) s = question_cancel_close i c b ses s"
| "question_thread_step new_id i (CancelClosed b ses) s = question_goto i (CancelDone True) (dismiss b ses s)"
| "question_thread_step new_id i _ s = s"

text \<open>The cases of the \<open>select\<close>.\<close>

datatype select_case = ContextDone | FromCancelled | FromPending

definition select_from :: "select_case \<Rightarrow> nat \<Rightarrow> nat option \<Rightarrow> nat option \<Rightarrow> question_sys \<Rightarrow> question_sys" where
  "select_from sc i cancel_ch pending_ch s =
     (case sc of
        ContextDone \<Rightarrow> question_goto i (AskLeft ErrContext) s
      | FromCancelled \<Rightarrow>
          (case cancel_ch of None \<Rightarrow> s | Some c \<Rightarrow> if qs_closed s c then question_goto i (AskLeft ErrCancelled) s else s)
      | FromPending \<Rightarrow>
          (case pending_ch of None \<Rightarrow> s | Some c \<Rightarrow>
             (case qs_buffer s c of
                None \<Rightarrow> s
              | Some as \<Rightarrow> question_goto i (AskLeft (Answered as)) (s\<lparr>qs_buffer := (qs_buffer s)(c := None)\<rparr>))))"

datatype question_event =
  CallAsk question_request | CallAnswer "answer list" | CallCancel | Run nat | Select nat select_case

definition question_spawn :: "question_thread \<Rightarrow> question_sys \<Rightarrow> question_sys" where
  "question_spawn th s = s\<lparr>qs_threads := qs_threads s @ [th]\<rparr>"

fun question_step :: "(nat \<Rightarrow> nat \<Rightarrow> string) \<Rightarrow> question_sys \<Rightarrow> question_event \<Rightarrow> question_sys" where
  "question_step new_id s e =
     (if qs_crashed s then s
      else case e of
        CallAsk r \<Rightarrow> question_spawn (AskNew r) s
      | CallAnswer as \<Rightarrow> question_spawn (AnswerNew as) s
      | CallCancel \<Rightarrow> question_spawn CancelNew s
      | Run i \<Rightarrow> if i < length (qs_threads s) then question_thread_step new_id i (qs_threads s ! i) s else s
      | Select i sc \<Rightarrow>
          if i < length (qs_threads s)
          then (case qs_threads s ! i of AskWaits c p \<Rightarrow> select_from sc i c p s | _ \<Rightarrow> s)
          else s)"

abbreviation question_run :: "(nat \<Rightarrow> nat \<Rightarrow> string) \<Rightarrow> question_event list \<Rightarrow> question_sys" where
  "question_run new_id es \<equiv> foldl (question_step new_id) new_question_service es"

text \<open>\<open>Pending\<close>.\<close>

definition pending_question :: "question_sys \<Rightarrow> question_request option" where
  "pending_question s = (if qs_pending_id s = [] then None else Some (qs_pending_req s))"

subsection \<open>One question at a time, answered by those who saw it\<close>

fun in_flight :: "question_thread \<Rightarrow> bool" where
  "in_flight (AskMade r) = True"
| "in_flight AskReady = True"
| "in_flight (AskWaits c p) = True"
| "in_flight (AskLeft res) = True"
| "in_flight _ = False"

definition sent_to :: "question_sys \<Rightarrow> nat \<Rightarrow> answer list \<Rightarrow> bool" where
  "sent_to s c as \<longleftrightarrow> (\<exists>j. (c, j, as) \<in> set (qs_sent s))"

fun result_ok :: "question_sys \<Rightarrow> nat \<Rightarrow> ask_result \<Rightarrow> bool" where
  "result_ok s i (Answered as) = sent_to s i as"
| "result_ok s i ErrCancelled = qs_closed s i"
| "result_ok s i _ = True"

fun thread_ok :: "question_sys \<Rightarrow> nat \<Rightarrow> question_thread \<Rightarrow> bool" where
  "thread_ok s i (AskWaits c p) = (c = Some i \<and> p = Some i)"
| "thread_ok s i (AskLeft res) = result_ok s i res"
| "thread_ok s i (AskDone res) = result_ok s i res"
| "thread_ok s i _ = True"

fun has_sent :: "question_thread \<Rightarrow> bool" where
  "has_sent (AnswerSent b ses) = True"
| "has_sent (AnswerDone d) = d"
| "has_sent _ = False"

definition question_inv :: "question_sys \<Rightarrow> bool" where
  "question_inv s \<longleftrightarrow>
     (\<forall>i<length (qs_threads s). in_flight (qs_threads s ! i) = (qs_pending s = Some i)) \<and>
     qs_cancelled s = qs_pending s \<and>
     (\<forall>c. qs_pending s = Some c \<longrightarrow> c < length (qs_threads s)) \<and>
     (\<forall>i<length (qs_threads s). thread_ok s i (qs_threads s ! i)) \<and>
     (\<forall>c as. qs_buffer s c = Some as \<longrightarrow> sent_to s c as) \<and>
     (\<forall>(c, j, as)\<in>set (qs_sent s). j < length (qs_threads s) \<and> has_sent (qs_threads s ! j)) \<and>
     distinct (map (fst \<circ> snd) (qs_sent s))"

lemma question_invI:
  assumes "\<And>i. i < length (qs_threads s) \<Longrightarrow> in_flight (qs_threads s ! i) = (qs_pending s = Some i)"
    and "qs_cancelled s = qs_pending s"
    and "\<And>c. qs_pending s = Some c \<Longrightarrow> c < length (qs_threads s)"
    and "\<And>i. i < length (qs_threads s) \<Longrightarrow> thread_ok s i (qs_threads s ! i)"
    and "\<And>c as. qs_buffer s c = Some as \<Longrightarrow> sent_to s c as"
    and "\<And>c j as. (c, j, as) \<in> set (qs_sent s) \<Longrightarrow> j < length (qs_threads s) \<and> has_sent (qs_threads s ! j)"
    and "distinct (map (fst \<circ> snd) (qs_sent s))"
  shows "question_inv s"
  using assms unfolding question_inv_def by blast

lemma question_invD:
  assumes "question_inv s"
  shows "i < length (qs_threads s) \<Longrightarrow> in_flight (qs_threads s ! i) = (qs_pending s = Some i)"
    and "qs_cancelled s = qs_pending s"
    and "i < length (qs_threads s) \<Longrightarrow> thread_ok s i (qs_threads s ! i)"
    and "qs_buffer s c = Some as \<Longrightarrow> sent_to s c as"
    and "(c, j, as) \<in> set (qs_sent s) \<Longrightarrow> j < length (qs_threads s) \<and> has_sent (qs_threads s ! j)"
    and "distinct (map (fst \<circ> snd) (qs_sent s))"
    and "qs_pending s = Some c \<Longrightarrow> c < length (qs_threads s)"
  using assms unfolding question_inv_def by blast+

lemma result_ok_mono:
  "result_ok s i res \<Longrightarrow> set (qs_sent s) \<subseteq> set (qs_sent t) \<Longrightarrow> (qs_closed s i \<Longrightarrow> qs_closed t i) \<Longrightarrow> result_ok t i res"
  by (cases res) (auto simp: sent_to_def)

lemma thread_ok_mono:
  "thread_ok s i th \<Longrightarrow> set (qs_sent s) \<subseteq> set (qs_sent t) \<Longrightarrow> (qs_closed s i \<Longrightarrow> qs_closed t i) \<Longrightarrow> thread_ok t i th"
  by (cases th) (auto intro: result_ok_mono)

lemma question_inv_goto:
  assumes inv: "question_inv s" and i: "i < length (qs_threads s)"
    and t: "qs_threads t = (qs_threads s)[i := th]"
    and pend: "qs_cancelled t = qs_pending t" "in_flight th = (qs_pending t = Some i)"
      "\<And>j. j \<noteq> i \<Longrightarrow> (qs_pending t = Some j) = (qs_pending s = Some j)"
    and ok: "thread_ok t i th"
    and closed: "\<And>j. j \<noteq> i \<Longrightarrow> qs_closed s j \<Longrightarrow> qs_closed t j"
    and buf: "\<And>c as. qs_buffer t c = Some as \<Longrightarrow> qs_buffer s c = Some as \<or> sent_to t c as"
    and sent: "qs_sent t = qs_sent s @ new"
      "new = [] \<and> (has_sent (qs_threads s ! i) \<longrightarrow> has_sent th) \<or>
       (\<exists>c as. new = [(c, i, as)] \<and> has_sent th \<and> \<not> has_sent (qs_threads s ! i))"
  shows "question_inv t"
proof (rule question_invI)
  fix j assume j: "j < length (qs_threads t)"
  then have j': "j < length (qs_threads s)" by (simp add: t)
  show "in_flight (qs_threads t ! j) = (qs_pending t = Some j)"
    using question_invD(1) [OF inv j'] pend j' by (cases "j = i") (auto simp: t)
  have "thread_ok s j (qs_threads s ! j)" by (rule question_invD(3) [OF inv j'])
  then show "thread_ok t j (qs_threads t ! j)"
    using ok closed j' by (cases "j = i") (auto simp: t sent(1) elim: thread_ok_mono)
next
  fix c as assume "qs_buffer t c = Some as"
  then show "sent_to t c as"
    using buf question_invD(4) [OF inv] by (fastforce simp: sent_to_def sent(1))
next
  fix c j as assume "(c, j, as) \<in> set (qs_sent t)"
  then show "j < length (qs_threads t) \<and> has_sent (qs_threads t ! j)"
    using question_invD(5) [OF inv, of c j as] sent(2) i by (cases "j = i") (auto simp: t sent(1))
next
  have "(c, i, as) \<notin> set (qs_sent s)" if "\<not> has_sent (qs_threads s ! i)" for c as
    using question_invD(5) [OF inv, of c i as] that by blast
  then show "distinct (map (fst \<circ> snd) (qs_sent t))"
    using question_invD(6) [OF inv] sent(2) by (auto simp: sent(1) image_image)
next
  fix c assume "qs_pending t = Some c"
  then show "c < length (qs_threads t)"
    using pend question_invD(7) [OF inv] i by (cases "c = i") (auto simp: t)
qed (use pend in simp)

lemma question_goto_sel [simp]:
  "qs_threads (question_goto i th s) = (qs_threads s)[i := th]" "qs_pending (question_goto i th s) = qs_pending s"
  "qs_cancelled (question_goto i th s) = qs_cancelled s" "qs_buffer (question_goto i th s) = qs_buffer s"
  "qs_closed (question_goto i th s) = qs_closed s" "qs_sent (question_goto i th s) = qs_sent s" "qs_crashed (question_goto i th s) = qs_crashed s"
  by (simp_all add: question_goto_def)

lemma dismiss_sel [simp]:
  "qs_threads (dismiss b ses s) = qs_threads s" "qs_pending (dismiss b ses s) = qs_pending s"
  "qs_cancelled (dismiss b ses s) = qs_cancelled s" "qs_buffer (dismiss b ses s) = qs_buffer s"
  "qs_closed (dismiss b ses s) = qs_closed s" "qs_sent (dismiss b ses s) = qs_sent s"
  by (simp_all add: dismiss_def)

lemma sent_to_cong: "qs_sent t = qs_sent s \<Longrightarrow> sent_to t = sent_to s"
  by (simp add: sent_to_def fun_eq_iff)

lemma question_inv_crash: "question_inv s \<Longrightarrow> question_inv (s\<lparr>qs_crashed := True\<rparr>)"
proof (rule question_invI)
  fix i assume "question_inv s" "i < length (qs_threads (s\<lparr>qs_crashed := True\<rparr>))"
  then show "thread_ok (s\<lparr>qs_crashed := True\<rparr>) i (qs_threads (s\<lparr>qs_crashed := True\<rparr>) ! i)"
    using thread_ok_mono [OF question_invD(3)] by simp
qed (simp_all add: question_inv_def sent_to_cong [of "s\<lparr>qs_crashed := True\<rparr>" s], blast?)

lemmas question_inv_same = question_inv_goto [where new = "[]", simplified]

lemmas question_inv_sends = question_inv_goto [where new = "[(c, i, as)]" for c i as, simplified]

lemma question_thread_step_inv:
  assumes inv: "question_inv s" and i: "i < length (qs_threads s)" and th: "qs_threads s ! i = th"
  shows "question_inv (question_thread_step new_id i th s)"
proof -
  note D = question_invD(1) [OF inv i, unfolded th] question_invD(2) [OF inv] question_invD(3) [OF inv i, unfolded th]
  note I = question_inv_same [OF inv i]
  show ?thesis
  proof (cases th)
    case (AskNew r)
    then show ?thesis
      using inv D by (auto simp: ask_register_def Let_def th split: option.split if_splits intro!: I)
  next
    case (AskMade r)
    then show ?thesis using inv D by (auto simp: ask_publish_def th intro!: I)
  next
    case AskReady
    then show ?thesis using inv D by (auto simp: ask_select_def th intro!: I)
  next
    case (AskLeft res)
    then show ?thesis using inv D by (auto simp: ask_cleanup_def th intro!: I result_ok_mono [of s i res])
  next
    case (AnswerNew as)
    then show ?thesis using inv D by (auto simp: answer_read_def th split: option.split intro!: I)
  next
    case (AnswerHolds as c b ses)
    then show ?thesis
      using inv D by (auto simp: answer_send_def th sent_to_def split: option.split if_splits
        intro!: question_inv_sends [OF inv i])
  next
    case (CancelHolds c b ses)
    then show ?thesis
      using inv D by (auto simp: question_cancel_close_def th intro!: I question_inv_crash split: if_splits)
  qed (use inv D in \<open>auto simp: question_cancel_read_def th split: option.split intro!: I\<close>)
qed

lemma select_from_inv:
  assumes inv: "question_inv s" and i: "i < length (qs_threads s)" and th: "qs_threads s ! i = AskWaits c p"
  shows "question_inv (select_from sc i c p s)"
proof -
  note D = question_invD(1) [OF inv i, unfolded th] question_invD(2) [OF inv] question_invD(3) [OF inv i, unfolded th]
  show ?thesis
    using inv D question_invD(4) [OF inv]
    by (auto simp: select_from_def th sent_to_def split: select_case.split option.split if_splits
        intro!: question_inv_same [OF inv i])
qed

lemma question_spawn_inv:
  assumes inv: "question_inv s" and th: "\<not> in_flight th" "\<not> has_sent th" "\<And>s i. thread_ok s i th"
  shows "question_inv (question_spawn th s)"
proof (rule question_invI)
  note S = nth_append less_Suc_eq question_spawn_def
  fix i assume i: "i < length (qs_threads (question_spawn th s))"
  have "qs_pending s \<noteq> Some (length (qs_threads s))"
    using question_invD(7) [OF inv] by blast
  then show "in_flight (qs_threads (question_spawn th s) ! i) = (qs_pending (question_spawn th s) = Some i)"
    using i th(1) question_invD(1) [OF inv] by (auto simp: S)
qed (use inv th in \<open>auto simp: question_spawn_def nth_append less_Suc_eq sent_to_def
       intro: thread_ok_mono [of s] dest: question_invD\<close>)

lemma question_step_inv: "question_inv s \<Longrightarrow> question_inv (question_step new_id s e)"
  by (cases e) (auto intro: question_spawn_inv question_thread_step_inv select_from_inv split: question_thread.split)

lemma new_question_inv: "question_inv new_question_service"
  by (simp add: question_inv_def new_question_service_def)

interpretation question_threads: safe_system "question_step new_id" question_inv for new_id
  by unfold_locales (rule question_step_inv)

lemma only_sent_once:
  "distinct (map (fst \<circ> snd) xs) \<Longrightarrow> (i, k, as) \<in> set xs \<Longrightarrow> filter (\<lambda>x. fst (snd x) = k) xs = [(i, k, as)]"
  by (induction xs) (auto simp: filter_empty_conv image_iff)

text \<open>
  C13: However calls to \<open>Ask\<close>, \<open>Answer\<close> and \<open>Cancel\<close> interleave, at most one question is in flight,
  it waits on its own channels, and the answers it returns were sent to it by an \<open>Answer\<close> call that
  sent them to no other question.
\<close>

theorem answers_reach_their_question:
  assumes "s = question_run new_id es" and "i < length (qs_threads s)"
  shows "(\<forall>j<length (qs_threads s). in_flight (qs_threads s ! i) \<longrightarrow> in_flight (qs_threads s ! j) \<longrightarrow> i = j) \<and>
    (\<forall>c p. qs_threads s ! i = AskWaits c p \<longrightarrow> c = Some i \<and> p = Some i \<and> qs_pending s = Some i) \<and>
    (\<forall>as. qs_threads s ! i = AskDone (Answered as) \<longrightarrow>
       (\<exists>k<length (qs_threads s). has_sent (qs_threads s ! k) \<and>
          filter (\<lambda>x. fst (snd x) = k) (qs_sent s) = [(i, k, as)]))"
proof -
  have inv: "question_inv s"
    unfolding assms(1) by (rule question_threads.run_good [OF new_question_inv])
  note D = question_invD(1) [OF inv] question_invD(3) [OF inv assms(2)]
  show ?thesis
  proof (intro conjI allI impI)
    fix as assume "qs_threads s ! i = AskDone (Answered as)"
    with D obtain k where "(i, k, as) \<in> set (qs_sent s)" by (auto simp: sent_to_def)
    then show "\<exists>k<length (qs_threads s). has_sent (qs_threads s ! k) \<and>
        filter (\<lambda>x. fst (snd x) = k) (qs_sent s) = [(i, k, as)]"
      using question_invD(5,6) [OF inv] by (blast intro: only_sent_once)
  next
    fix c p assume "qs_threads s ! i = AskWaits c p"
    then show "c = Some i" "p = Some i" "qs_pending s = Some i"
      using D(2) D(1) [OF assms(2)] by simp_all
  qed (use D(1) assms(2) in auto)
qed

definition demo_ask :: question_request where
  "demo_ask = no_request\<lparr>ar_questions :=
     [\<lparr>q_id = ''q'', q_type = YesNo, q_label = [], q_text = ''Sure?'', q_desc = ''Really.'', q_choices = []\<rparr>]\<rparr>"

definition demo_ids :: "nat \<Rightarrow> nat \<Rightarrow> string" where
  "demo_ids i n = [CHR ''a'', char_of (i + n)]"

definition demo_answer :: "bool \<Rightarrow> answer" where
  "demo_answer b = \<lparr>a_question = ''q'', a_selected = [], a_fill_in = [], a_yes = Some b, a_notes = []\<rparr>"

text \<open>A question that is asked and waits; its \<open>Ask\<close> is thread 0.\<close>

abbreviation asked :: "question_event list" where
  "asked \<equiv> [CallAsk demo_ask, Run 0, Run 0, Run 0]"

abbreviation demo_es :: "question_event list" where
  "demo_es \<equiv> asked @ [CallAnswer [demo_answer True], Run 1, Run 1, Select 0 FromPending, Run 0, Run 1]"

definition demo_answered :: question_sys where
  "demo_answered = question_run demo_ids demo_es"

lemma demo_threads:
  "qs_threads demo_answered = [AskDone (Answered [demo_answer True]), AnswerDone True]"
  by code_simp

theorem answers_reach_their_question_witness:
  "\<exists>k<2. filter (\<lambda>x. fst (snd x) = k) (qs_sent demo_answered) = [(0, k, [demo_answer True])]"
  using answers_reach_their_question [OF demo_answered_def, of 0]
  by (fastforce simp: demo_threads numeral_2_eq_2)

subsection \<open>What \<open>Answer\<close> and \<open>Cancel\<close> promise\<close>

text \<open>
  \<open>Cancel\<close> "returns false if no question is pending". A second \<open>Cancel\<close> that comes after the first
  has returned, but before \<open>Ask\<close> has cleaned up, closes the channel again and panics.
\<close>

lemma second_cancel_panics:
  "let s = question_run demo_ids (asked @ [CallCancel, Run 1, Run 1, Run 1, CallCancel, Run 2, Run 2]) in
     qs_crashed s \<and> qs_threads s ! 1 = CancelDone True"
  by code_simp

text \<open>
  \<open>Answer\<close> "returns false if no question is pending (already answered or cancelled)". A second
  answer that comes before \<open>Ask\<close> has cleaned up returns true and is dropped.
\<close>

lemma late_answer_reported_delivered:
  "qs_threads (question_run demo_ids (asked @ [CallAnswer [demo_answer True], Run 1, Run 1, Run 1,
       Select 0 FromPending, CallAnswer [demo_answer False], Run 2, Run 2, Run 2, Run 0])) =
     [AskDone (Answered [demo_answer True]), AnswerDone True, AnswerDone True]"
  by code_simp

text \<open>
  When \<open>Ask\<close> leaves without emptying its channel, the second of two answers that had already read
  it sends to a full channel nobody receives from, and never returns.
\<close>

definition stuck :: "nat \<Rightarrow> nat \<Rightarrow> question_sys \<Rightarrow> bool" where
  "stuck c k s \<longleftrightarrow>
     k < length (qs_threads s) \<and> c < length (qs_threads s) \<and>
     (\<exists>res as b ses. qs_threads s ! c = AskDone res \<and> qs_threads s ! k = AnswerHolds as c b ses) \<and>
     qs_buffer s c \<noteq> None"

lemma stuck_step:
  assumes inv: "question_inv s" and st: "stuck c k s"
  shows "stuck c k (question_step new_id s e)"
proof (cases e)
  case (Run i)
  show ?thesis
  proof (cases "i < length (qs_threads s) \<and> \<not> qs_crashed s")
    case True
    with Run st show ?thesis
      by (cases "qs_threads s ! i")
         (auto simp: stuck_def ask_register_def ask_publish_def ask_select_def ask_cleanup_def answer_read_def
            answer_send_def question_cancel_read_def question_cancel_close_def Let_def nth_list_update split: option.splits)
  qed (use Run st in auto)
next
  case (Select i sc)
  show ?thesis
  proof (cases "i < length (qs_threads s) \<and> \<not> qs_crashed s")
    case True
    with Select st question_invD(3) [OF inv, of i] show ?thesis
      by (cases "qs_threads s ! i")
         (auto simp: stuck_def select_from_def nth_list_update split: select_case.split option.splits)
  qed (use Select st in auto)
qed (use st in \<open>auto simp: stuck_def question_spawn_def nth_append\<close>)

interpretation stuck_answers: safe_system "question_step new_id" "\<lambda>s. question_inv s \<and> stuck c k s" for new_id c k
  by unfold_locales (simp add: question_step_inv stuck_step del: question_step.simps)

definition demo_stuck :: question_sys where
  "demo_stuck = question_run demo_ids (asked @
     [CallAnswer [demo_answer True], CallAnswer [demo_answer False], Run 1, Run 2, Run 1, Select 0 ContextDone, Run 0])"

lemma answer_blocks_forever: "stuck 0 2 (foldl (question_step demo_ids) demo_stuck es)"
proof -
  have "qs_threads demo_stuck =
      [AskDone ErrContext, AnswerSent [CHR ''a'', char_of (0 :: nat)] [],
       AnswerHolds [demo_answer False] 0 [CHR ''a'', char_of (0 :: nat)] []]"
    and "qs_buffer demo_stuck 0 = Some [demo_answer True]"
    by code_simp+
  then have "stuck 0 2 demo_stuck" by (simp add: stuck_def)
  moreover have "question_inv demo_stuck"
    unfolding demo_stuck_def by (rule question_threads.run_good [OF new_question_inv])
  ultimately show ?thesis using stuck_answers.run_good [of demo_stuck 0 2 demo_ids es] by blast
qed

text \<open>A second \<open>Ask\<close> fails at once and leaves the first alone.\<close>

lemma second_ask_refused:
  assumes "i < length (qs_threads s)" and "qs_threads s ! i = AskNew r" and "\<not> qs_crashed s"
    and "qs_pending s \<noteq> None" and "validate_request (complete_request (new_id i) r) = None"
  shows "question_step new_id s (Run i) = question_goto i (AskDone ErrQuestionPending) s"
  using assms by (simp add: ask_register_def Let_def)

subsection \<open>The question tool\<close>

record question_item =
  qi_label :: string
  qi_type :: question_type
  qi_question :: string
  qi_desc :: string
  qi_choices :: "choice list"
  qi_options :: "choice list"

definition get_choices :: "question_item \<Rightarrow> choice list" where
  "get_choices q = (if 0 < length (qi_choices q) then qi_choices q else qi_options q)"

text \<open>A question as the tool passes it on.\<close>

definition question_of :: "question_item \<Rightarrow> question" where
  "question_of it = \<lparr>q_id = [], q_type = qi_type it, q_label = qi_label it, q_text = qi_question it,
     q_desc = qi_desc it, q_choices = get_choices it\<rparr>"

fun convert_items :: "(string \<Rightarrow> string) \<Rightarrow> nat \<Rightarrow> question_item list \<Rightarrow> string + question list" where
  "convert_items quote i [] = Inr []"
| "convert_items quote i (it # its) =
     (case qi_type it of
        OtherType t \<Rightarrow>
          Inl (''question '' @ nat_str (i + 1) @ '' ['' @ (if qi_label it = [] then qi_question it else qi_label it) @
               '']: invalid type '' @ quote t @ '' (must be yes_no, single_choice, multi_choice, or free_text)'')
      | _ \<Rightarrow> (case convert_items quote (i + 1) its of Inl e \<Rightarrow> Inl e | Inr qs \<Rightarrow> Inr (question_of it # qs)))"

definition format_note :: "string \<times> string \<Rightarrow> string" where
  "format_note kn = (if fst kn = ''_question'' then [CHR 0x0A] @ ''- '' @ snd kn
                     else [CHR 0x0A] @ ''- ['' @ fst kn @ '']: '' @ snd kn)"

definition format_answer ::
  "(string list \<Rightarrow> string) \<Rightarrow> ((string, string) gomap \<Rightarrow> (string, string) gomap) \<Rightarrow> answer \<Rightarrow> string" where
  "format_answer marshal order a =
     (case a_yes a of
        Some b \<Rightarrow> if b then ''User answered: yes'' else ''User answered: no''
      | None \<Rightarrow>
          if 0 < length (a_selected a) \<or> a_fill_in a \<noteq> [] then
            join_with [CHR 0x0A]
              ((if 0 < length (a_selected a) then [''User selected: '' @ marshal (a_selected a)] else []) @
               (if a_fill_in a \<noteq> [] then [''User provided: '' @ a_fill_in a] else []))
          else ''User skipped this question'') @
     (if 0 < length (a_notes a)
      then [CHR 0x0A, CHR 0x0A] @ ''Notes:'' @ concat (map format_note (order (a_notes a))) else [])"

fun format_answers_from ::
  "(string list \<Rightarrow> string) \<Rightarrow> ((string, string) gomap \<Rightarrow> (string, string) gomap) \<Rightarrow> question list \<Rightarrow> nat \<Rightarrow> answer list \<Rightarrow> string" where
  "format_answers_from marshal order qs i [] = []"
| "format_answers_from marshal order qs i (a # as) =
     (if 0 < i then [CHR 0x0A, CHR 0x0A] else []) @
     (if i < length qs then CHR ''Q'' # nat_str (i + 1) @ '': '' @ q_text (qs ! i) @ [CHR 0x0A] else []) @
     format_answer marshal order a @ format_answers_from marshal order qs (i + 1) as"

definition format_answers ::
  "(string list \<Rightarrow> string) \<Rightarrow> ((string, string) gomap \<Rightarrow> (string, string) gomap) \<Rightarrow> answer list \<Rightarrow> question list \<Rightarrow> string" where
  "format_answers marshal order as qs = format_answers_from marshal order qs 0 as"

record question_params =
  qp_questions :: "question_item list"
  qp_title :: string
  qp_desc :: string

datatype tool_text = ToolText string | ToolError string bool

text \<open>The tool up to its call of \<open>Ask\<close>, and what it makes of the result; \<open>err_text\<close> is \<open>Error\<close>.\<close>

definition question_tool_request :: "(string \<Rightarrow> string) \<Rightarrow> string \<Rightarrow> string \<Rightarrow> question_params \<Rightarrow> string + question_request" where
  "question_tool_request quote session call_id p =
     (if length (qp_questions p) = 0 then Inl ''at least one question is required''
      else if max_questions < length (qp_questions p) then
        Inl (''exceeds maximum of '' @ nat_str max_questions @ '' questions per batch (got '' @ nat_str (length (qp_questions p)) @
             ''). Split into multiple batches and tell the user there will be follow-up questions'')
      else (case convert_items quote 0 (qp_questions p) of
          Inl e \<Rightarrow> Inl e
        | Inr qs \<Rightarrow> Inr \<lparr>ar_id = [], ar_session = session, ar_tool_call = call_id, ar_questions = qs,
                        ar_title = qp_title p, ar_desc = qp_desc p\<rparr>))"

definition question_tool_answer ::
  "(string list \<Rightarrow> string) \<Rightarrow> ((string, string) gomap \<Rightarrow> (string, string) gomap) \<Rightarrow> (ask_result \<Rightarrow> string) \<Rightarrow>
   question list \<Rightarrow> ask_result \<Rightarrow> tool_text" where
  "question_tool_answer marshal order err_text qs r =
     (case r of
        Answered as \<Rightarrow> ToolText (format_answers marshal order as qs)
      | ErrCancelled \<Rightarrow> ToolError ''User cancelled this question'' True
      | e \<Rightarrow> ToolError (err_text e) False)"

lemma convert_items_Inr:
  "convert_items quote i its = Inr qs \<Longrightarrow> qs = map question_of its \<and> (\<forall>it\<in>set its. \<forall>t. qi_type it \<noteq> OtherType t)"
  by (induction quote i its arbitrary: qs rule: convert_items.induct)
     (auto split: question_type.splits sum.splits)

text \<open>What the tool passes to \<open>Ask\<close> is refused only for the contents of a question.\<close>

lemma check_questions_bad: "check_questions i qs = Some e \<Longrightarrow> \<exists>n qe. e = BadQuestion n qe"
  by (induction i qs rule: check_questions.induct) (auto split: option.splits)

lemma tool_request_refused:
  assumes "question_tool_request quote session call_id p = Inr r"
    and "validate_request (complete_request new_id r) = Some e"
  shows "\<exists>n qe. e = BadQuestion n qe"
proof -
  from assms(1) have "length (ar_questions r) = length (qp_questions p)" "length (qp_questions p) \<in> {1..max_questions}"
    by (auto simp: question_tool_request_def length_pos_iff dest: convert_items_Inr split: if_splits sum.splits)
  with assms(2) show ?thesis
    by (auto simp: validate_request_def complete_request_def Let_def split: if_splits dest: check_questions_bad)
qed

end
