(* ===== verification/ScopeGate.thy ===== *)
theory ScopeGate
  imports Toolclass Plan Question
begin

text \<open>
  The scope gate (\<open>internal/agent/scope_gate.go\<close>): the decorator of every tool that holds the
  first mutating call of a run back when much was explored without a declared plan, and asks the
  user. Tool calls run in parallel: each is a thread here that takes one step per critical
  section, read of the session, question or run of the wrapped tool. The results of what is not
  the gate's own (the stored plan, the answer of the question service, the outcome of the wrapped
  tool) come with the steps. \<open>ge_command\<close> and \<open>ge_plan\<close> stand for \<open>json.Unmarshal\<close>. Telemetry
  and logging are left out.
\<close>

subsection \<open>State\<close>

definition scope_gate_min_exploration :: nat where "scope_gate_min_exploration = 8"
definition scope_gate_plan_bounce_budget :: nat where "scope_gate_plan_bounce_budget = 3"

lemmas gate_limits = scope_gate_min_exploration_def scope_gate_plan_bounce_budget_def

record gate_state =
  gs_stamp :: u64
  gs_explore :: nat
  gs_asking :: bool
  gs_resolved :: bool
  gs_bounces :: nat

datatype gate_verdict = GatePass | GateWait | GateConfirm | GateRejectPlan | GateEscalatePlan

record scope_gate =
  g_interactive :: bool
  g_states :: "string \<Rightarrow> gate_state option"
  g_approved :: "string \<Rightarrow> bool"

record gate_call =
  gc_session :: string
  gc_stamp :: u64
  gc_name :: string
  gc_input :: string

record gate_env =
  ge_command :: "string \<Rightarrow> string option"
  ge_plan :: "string \<Rightarrow> todo_item list option"

definition todos_tool_name :: string where "todos_tool_name = ''todos''"
definition question_tool_name :: string where "question_tool_name = ''question''"

definition plan_params_resolve :: "todo_item list \<Rightarrow> bool" where
  "plan_params_resolve items \<longleftrightarrow>
     items \<noteq> [] \<and> \<not> list_ex (\<lambda>it. td_evidence_checks it = [] \<and> td_evidence_paths it = []) items"

definition plan_call_resolves :: "gate_env \<Rightarrow> string \<Rightarrow> bool" where
  "plan_call_resolves env input = (case ge_plan env input of None \<Rightarrow> False | Some items \<Rightarrow> plan_params_resolve items)"

definition new_scope_gate :: "bool \<Rightarrow> bool \<Rightarrow> scope_gate option" where
  "new_scope_gate has_service interactive =
     (if interactive \<and> \<not> has_service then None
      else Some \<lparr>g_interactive = interactive, g_states = (\<lambda>_. None), g_approved = (\<lambda>_. False)\<rparr>)"

text \<open>\<open>stored\<close> is \<open>None\<close> without a session service or when the session cannot be read.\<close>

definition plan_declared :: "plan_item list option \<Rightarrow> bool" where
  "plan_declared stored = (case stored of None \<Rightarrow> False | Some items \<Rightarrow> plan_items_bound items)"

definition approve_plan :: "string \<Rightarrow> scope_gate \<Rightarrow> scope_gate" where
  "approve_plan sid g = g\<lparr>g_approved := (g_approved g)(sid := True)\<rparr>"

text \<open>Whether \<open>stateFor\<close> makes a new state, and what it returns.\<close>

definition is_stale :: "string \<Rightarrow> u64 \<Rightarrow> scope_gate \<Rightarrow> bool" where
  "is_stale sid stamp g = (case g_states g sid of None \<Rightarrow> True | Some st \<Rightarrow> gs_stamp st \<noteq> stamp)"

definition put_state :: "string \<Rightarrow> gate_state \<Rightarrow> scope_gate \<Rightarrow> scope_gate" where
  "put_state sid st g = g\<lparr>g_states := (g_states g)(sid := Some st)\<rparr>"

definition state_for :: "string \<Rightarrow> u64 \<Rightarrow> scope_gate \<Rightarrow> gate_state \<times> scope_gate" where
  "state_for sid stamp g =
     (if is_stale sid stamp g then
        let st = \<lparr>gs_stamp = stamp, gs_explore = 0, gs_asking = False, gs_resolved = g_approved g sid, gs_bounces = 0\<rparr>
        in (st, put_state sid st (g\<lparr>g_approved := (g_approved g)(sid := False)\<rparr>))
      else (the (g_states g sid), g))"

definition gate_armed :: "gate_state \<Rightarrow> bool" where
  "gate_armed st \<longleftrightarrow> \<not> gs_resolved st \<and> \<not> gs_asking st \<and> scope_gate_min_exploration \<le> gs_explore st"

text \<open>The two critical sections of \<open>observe\<close>.\<close>

definition observe_enter :: "gate_call \<Rightarrow> scope_gate \<Rightarrow> bool \<times> scope_gate" where
  "observe_enter c g =
     (case state_for (gc_session c) (gc_stamp c) g of
        (st, g') \<Rightarrow> (gc_name c = todos_tool_name \<and> gate_armed st, g'))"

definition judge :: "gate_env \<Rightarrow> gate_call \<Rightarrow> bool \<Rightarrow> gate_state \<Rightarrow> gate_verdict \<times> gate_state" where
  "judge env c declared st =
     (if is_mutating_call (ge_command env) (gc_name c) (gc_input c) then
        (if gs_resolved st \<or> gs_explore st < scope_gate_min_exploration then (GatePass, st)
         else if gs_asking st then (GateWait, st)
         else (GateConfirm, st\<lparr>gs_asking := True\<rparr>))
      else if gc_name c = question_tool_name then (GatePass, st\<lparr>gs_resolved := True\<rparr>)
      else if gc_name c = todos_tool_name then
        (if gate_armed st then
           (case ge_plan env (gc_input c) of
              None \<Rightarrow> (GatePass, st)
            | Some items \<Rightarrow>
                if \<not> plan_params_resolve items \<and> \<not> declared then
                  (if scope_gate_plan_bounce_budget \<le> gs_bounces st then (GateEscalatePlan, st\<lparr>gs_asking := True\<rparr>)
                   else (GateRejectPlan, st\<lparr>gs_bounces := gs_bounces st + 1\<rparr>))
                else (GatePass, st))
         else (GatePass, st))
      else (GatePass, st\<lparr>gs_explore := gs_explore st + 1\<rparr>))"

definition observe_verdict ::
  "gate_env \<Rightarrow> gate_call \<Rightarrow> bool \<Rightarrow> scope_gate \<Rightarrow> gate_verdict \<times> gate_state \<times> gate_state \<times> scope_gate" where
  "observe_verdict env c declared g =
     (case state_for (gc_session c) (gc_stamp c) g of
        (st, g') \<Rightarrow> (case judge env c declared st of
           (v, st') \<Rightarrow> (v, st, st', put_state (gc_session c) st' g')))"

definition gate_resolve :: "gate_call \<Rightarrow> scope_gate \<Rightarrow> scope_gate" where
  "gate_resolve c g =
     (if gc_session c = [] then g
      else (case g_states g (gc_session c) of
          None \<Rightarrow> g
        | Some st \<Rightarrow> put_state (gc_session c) (st\<lparr>gs_asking := False, gs_resolved := True\<rparr>) g))"

subsection \<open>The question\<close>

abbreviation scope_dash :: string where "scope_dash \<equiv> [CHR 0xE2, CHR 0x80, CHR 0x94]"

definition scope_text :: "nat \<Rightarrow> nat \<Rightarrow> string" where
  "scope_text explore bounces =
     ''This task has explored '' @ nat_str explore @ '' steps without a declared plan'' @
     (if 1 < bounces then
        '', and '' @ nat_str bounces @ '' plan declarations were rejected for missing evidence binding '' @ scope_dash @
        '' the model may be stuck in a bounce loop''
      else if bounces = 1 then '', and a plan declaration was rejected for missing evidence binding''
      else []) @
     ''. Confirm scope before the first write?''"

definition scope_question :: "nat \<Rightarrow> nat \<Rightarrow> question" where
  "scope_question explore bounces =
     \<lparr>q_id = [], q_type = SingleChoice, q_label = ''Scope check'', q_text = scope_text explore bounces,
      q_desc = ''The exploration so far suggests a non-routine change. '' @
        ''Confirming means the plan is worth a checkpoint; you can also narrow the scope or stop to restate the task.'',
      q_choices =
        [\<lparr>c_id = ''proceed'', c_label = ''Proceed'', c_desc = ''Scope looks right '' @ scope_dash @ '' run the planned writes.''\<rparr>,
         \<lparr>c_id = ''narrow'', c_label = ''Narrow scope'', c_desc = ''Do less: the agent restates a smaller plan before writing.''\<rparr>,
         \<lparr>c_id = ''stop'', c_label = ''Stop'', c_desc = ''End the turn so you can restate the task.''\<rparr>]\<rparr>"

definition scope_request :: "string \<Rightarrow> nat \<Rightarrow> nat \<Rightarrow> question_request" where
  "scope_request sid explore bounces = no_request\<lparr>ar_session := sid, ar_questions := [scope_question explore bounces]\<rparr>"

datatype confirm_result = Proceed | Narrow | Stopped | Failed

definition confirm_id :: "string \<Rightarrow> confirm_result option" where
  "confirm_id sel = (if sel = ''proceed'' then Some Proceed else if sel = ''stop'' then Some Stopped else None)"

definition confirm_of :: "ask_result \<Rightarrow> confirm_result" where
  "confirm_of r =
     (case r of
        Answered as \<Rightarrow>
          (case first_some (\<lambda>a. first_some confirm_id (a_selected a)) as of Some res \<Rightarrow> res | None \<Rightarrow> Narrow)
      | ErrCancelled \<Rightarrow> Stopped
      | _ \<Rightarrow> Failed)"

subsection \<open>Calls as threads\<close>

datatype gate_reply = FromTool | ErrorText string | StopTurn string

definition bounce_text :: "bool \<Rightarrow> string" where
  "bounce_text interactive =
     ''This todos call does not count as declaring the plan: every item must bind '' @
     ''evidence via evidence_checks or evidence_paths, and the list must not be empty. '' @
     ''Resubmit with evidence bound to each item'' @
     (if interactive then '', or proceed and answer the scope-check question when the first write triggers it.''
      else '' '' @ scope_dash @ '' the scope check resolves on the first write.'')"

definition wait_text :: string where
  "wait_text = ''Scope check in progress '' @ scope_dash @ '' re-issue this call after the pending question resolves.''"

definition narrow_text :: string where
  "narrow_text = ''Scope check: the user asked to narrow the plan. Restate a smaller scope '' @
     ''with the todos tool, then re-issue the call.''"

datatype gate_thread =
    ToolNew gate_call
  | PlanCheck gate_call
  | Looked gate_call bool
  | Judged gate_call gate_verdict nat nat
  | Questioning gate_call question_request
  | Replied gate_call confirm_result
  | Settled gate_call confirm_result
  | Headless gate_call
  | Inner gate_call bool
  | Landed gate_call
  | Done gate_reply

text \<open>What happened, the latest first: a history variable.\<close>

datatype gate_event =
    EvTurn string u64 bool
  | EvExplored nat gate_call
  | EvFreed nat gate_call
  | EvPassed nat gate_call
  | EvHeld nat gate_call
  | EvClaimed nat gate_call
  | EvBounced nat gate_call
  | EvAnswered nat gate_call confirm_result
  | EvRan nat gate_call

record gate_sys =
  gy_gate :: scope_gate
  gy_threads :: "gate_thread list"
  gy_log :: "gate_event list"

definition opened :: "gate_call \<Rightarrow> scope_gate \<Rightarrow> gate_event list" where
  "opened c g = (if is_stale (gc_session c) (gc_stamp c) g
                 then [EvTurn (gc_session c) (gc_stamp c) (g_approved g (gc_session c))] else [])"

definition freed_by :: "nat \<Rightarrow> gate_call \<Rightarrow> bool \<Rightarrow> bool \<Rightarrow> gate_event list" where
  "freed_by i c before after = (if after \<and> \<not> before then [EvFreed i c] else [])"

fun verdict_event :: "nat \<Rightarrow> gate_call \<Rightarrow> gate_verdict \<Rightarrow> gate_event" where
  "verdict_event i c GatePass = EvPassed i c"
| "verdict_event i c GateWait = EvHeld i c"
| "verdict_event i c GateConfirm = EvClaimed i c"
| "verdict_event i c GateRejectPlan = EvBounced i c"
| "verdict_event i c GateEscalatePlan = EvClaimed i c"

definition move :: "nat \<Rightarrow> gate_thread \<Rightarrow> scope_gate \<Rightarrow> gate_event list \<Rightarrow> gate_sys \<Rightarrow> gate_sys" where
  "move i th g evs s = \<lparr>gy_gate = g, gy_threads = (gy_threads s)[i := th], gy_log = evs @ gy_log s\<rparr>"

definition enter_step :: "nat \<Rightarrow> gate_call \<Rightarrow> gate_sys \<Rightarrow> gate_sys" where
  "enter_step i c s =
     (if gc_session c = [] then move i (Judged c GatePass 0 0) (gy_gate s) [EvPassed i c] s
      else (case observe_enter c (gy_gate s) of
          (needs, g) \<Rightarrow> move i (if needs then PlanCheck c else Looked c False) g (opened c (gy_gate s)) s))"

definition verdict_step :: "gate_env \<Rightarrow> nat \<Rightarrow> gate_call \<Rightarrow> bool \<Rightarrow> gate_sys \<Rightarrow> gate_sys" where
  "verdict_step env i c declared s =
     (case observe_verdict env c declared (gy_gate s) of
        (v, st, st', g) \<Rightarrow>
          move i (Judged c v (gs_explore st') (gs_bounces st')) g
            (verdict_event i c v # freed_by i c (gs_resolved st) (gs_resolved st') @
             (if gs_explore st < gs_explore st' then [EvExplored i c] else []) @ opened c (gy_gate s)) s)"

definition resolve_step :: "nat \<Rightarrow> gate_call \<Rightarrow> gate_thread \<Rightarrow> gate_sys \<Rightarrow> gate_sys" where
  "resolve_step i c th s =
     (let g = gate_resolve c (gy_gate s);
          resolved = (\<lambda>g. case g_states g (gc_session c) of None \<Rightarrow> False | Some st \<Rightarrow> gs_resolved st)
      in move i th g (freed_by i c (resolved (gy_gate s)) (resolved g)) s)"

definition gate_act_step :: "nat \<Rightarrow> gate_call \<Rightarrow> gate_verdict \<Rightarrow> nat \<Rightarrow> nat \<Rightarrow> gate_sys \<Rightarrow> gate_sys" where
  "gate_act_step i c v explore bounces s =
     (case v of
        GatePass \<Rightarrow> move i (Inner c True) (gy_gate s) [EvRan i c] s
      | GateRejectPlan \<Rightarrow> move i (Done (ErrorText (bounce_text (g_interactive (gy_gate s))))) (gy_gate s) [] s
      | GateWait \<Rightarrow> move i (Done (ErrorText wait_text)) (gy_gate s) [] s
      | _ \<Rightarrow>
          if \<not> g_interactive (gy_gate s) then resolve_step i c (Headless c) s
          else move i (Questioning c (scope_request (gc_session c) explore bounces)) (gy_gate s) [] s)"

definition settle_step :: "nat \<Rightarrow> gate_call \<Rightarrow> confirm_result \<Rightarrow> gate_sys \<Rightarrow> gate_sys" where
  "settle_step i c r s =
     (case r of
        Stopped \<Rightarrow> move i (Done (StopTurn ''User stopped at the scope check'')) (gy_gate s) [] s
      | Narrow \<Rightarrow> move i (Done (ErrorText narrow_text)) (gy_gate s) [] s
      | _ \<Rightarrow> move i (Inner c False) (gy_gate s) [EvRan i c] s)"

text \<open>The wrapped tool has returned; \<open>ok\<close>: without an error.\<close>

definition returned_step :: "gate_env \<Rightarrow> nat \<Rightarrow> gate_call \<Rightarrow> bool \<Rightarrow> bool \<Rightarrow> gate_sys \<Rightarrow> gate_sys" where
  "returned_step env i c passed ok s =
     (if passed \<and> ok \<and> gc_name c = todos_tool_name \<and> plan_call_resolves env (gc_input c)
      then move i (Landed c) (gy_gate s) [] s
      else move i (Done FromTool) (gy_gate s) [] s)"

datatype gate_step =
    Call gate_call
  | Approve string
  | Step nat
  | ReadPlan nat "plan_item list option"
  | Reply nat ask_result
  | Return nat bool

fun gate_thread_step :: "gate_env \<Rightarrow> nat \<Rightarrow> gate_thread \<Rightarrow> gate_sys \<Rightarrow> gate_sys" where
  "gate_thread_step env i (ToolNew c) s = enter_step i c s"
| "gate_thread_step env i (Looked c d) s = verdict_step env i c d s"
| "gate_thread_step env i (Judged c v e b) s = gate_act_step i c v e b s"
| "gate_thread_step env i (Replied c r) s = resolve_step i c (Settled c r) s"
| "gate_thread_step env i (Settled c r) s = settle_step i c r s"
| "gate_thread_step env i (Headless c) s = move i (Inner c False) (gy_gate s) [EvRan i c] s"
| "gate_thread_step env i (Landed c) s = resolve_step i c (Done FromTool) s"
| "gate_thread_step env i _ s = s"

definition gate_step :: "gate_env \<Rightarrow> gate_sys \<Rightarrow> gate_step \<Rightarrow> gate_sys" where
  "gate_step env s e =
     (case e of
        Call c \<Rightarrow> s\<lparr>gy_threads := gy_threads s @ [ToolNew c]\<rparr>
      | Approve sid \<Rightarrow> s\<lparr>gy_gate := approve_plan sid (gy_gate s)\<rparr>
      | Step i \<Rightarrow> if i < length (gy_threads s) then gate_thread_step env i (gy_threads s ! i) s else s
      | ReadPlan i stored \<Rightarrow>
          if i < length (gy_threads s)
          then (case gy_threads s ! i of PlanCheck c \<Rightarrow> move i (Looked c (plan_declared stored)) (gy_gate s) [] s | _ \<Rightarrow> s)
          else s
      | Reply i r \<Rightarrow>
          if i < length (gy_threads s)
          then (case gy_threads s ! i of
                  Questioning c q \<Rightarrow> move i (Replied c (confirm_of r)) (gy_gate s) [EvAnswered i c (confirm_of r)] s
                | _ \<Rightarrow> s)
          else s
      | Return i ok \<Rightarrow>
          if i < length (gy_threads s)
          then (case gy_threads s ! i of Inner c passed \<Rightarrow> returned_step env i c passed ok s | _ \<Rightarrow> s)
          else s)"

definition gate_start :: "bool \<Rightarrow> gate_sys" where
  "gate_start interactive =
     \<lparr>gy_gate = \<lparr>g_interactive = interactive, g_states = (\<lambda>_. None), g_approved = (\<lambda>_. False)\<rparr>,
      gy_threads = [], gy_log = []\<rparr>"

subsection \<open>What the gate promises\<close>

fun ev_session :: "gate_event \<Rightarrow> string" where
  "ev_session (EvTurn sid stamp a) = sid"
| "ev_session (EvExplored i c) = gc_session c"
| "ev_session (EvFreed i c) = gc_session c"
| "ev_session (EvPassed i c) = gc_session c"
| "ev_session (EvHeld i c) = gc_session c"
| "ev_session (EvClaimed i c) = gc_session c"
| "ev_session (EvBounced i c) = gc_session c"
| "ev_session (EvAnswered i c r) = gc_session c"
| "ev_session (EvRan i c) = gc_session c"

fun is_turn :: "gate_event \<Rightarrow> bool" where
  "is_turn (EvTurn sid stamp a) = True"
| "is_turn _ = False"

fun explored :: "gate_event \<Rightarrow> bool" where
  "explored (EvExplored i c) = True"
| "explored _ = False"

fun bounced :: "gate_event \<Rightarrow> bool" where
  "bounced (EvBounced i c) = True"
| "bounced _ = False"

fun claimed :: "gate_event \<Rightarrow> bool" where
  "claimed (EvClaimed i c) = True"
| "claimed _ = False"

text \<open>A run is released by an approved plan, or later.\<close>

fun releases :: "gate_event \<Rightarrow> bool" where
  "releases (EvTurn sid stamp a) = a"
| "releases (EvFreed i c) = True"
| "releases _ = False"

text \<open>The number of events of a kind in the current run of a session.\<close>

fun in_run :: "(gate_event \<Rightarrow> bool) \<Rightarrow> string \<Rightarrow> gate_event list \<Rightarrow> nat" where
  "in_run P sid [] = 0"
| "in_run P sid (e # log) =
     (if ev_session e \<noteq> sid then in_run P sid log
      else (if P e then 1 else 0) + (if is_turn e then 0 else in_run P sid log))"

text \<open>
  The abstract specification, as an acceptor of histories. A mutating call passes only in a run
  with fewer than eight explorations or a release; the slot of the question is claimed, and a plan
  bounced, only in a run with eight explorations and no release, the slot once per run and at most
  three bounces; a run is released by a question of the model, by a todos call that has run and
  binds its items, or by whoever claimed the slot, after the answer if there is a user; a tool runs
  only for a call that passed or whose claim ended with the answer to proceed, a failure of the
  question, or nobody to ask.
\<close>

fun event_ok :: "gate_env \<Rightarrow> bool \<Rightarrow> gate_event \<Rightarrow> gate_event list \<Rightarrow> bool" where
  "event_ok env interactive (EvPassed i c) log =
     (gc_session c = [] \<or> \<not> is_mutating_call (ge_command env) (gc_name c) (gc_input c) \<or>
      in_run explored (gc_session c) log < 8 \<or> 0 < in_run releases (gc_session c) log)"
| "event_ok env interactive (EvClaimed i c) log =
     (8 \<le> in_run explored (gc_session c) log \<and> in_run releases (gc_session c) log = 0 \<and> in_run claimed (gc_session c) log = 0)"
| "event_ok env interactive (EvBounced i c) log =
     (8 \<le> in_run explored (gc_session c) log \<and> in_run releases (gc_session c) log = 0 \<and>
      in_run claimed (gc_session c) log = 0 \<and> in_run bounced (gc_session c) log < 3)"
| "event_ok env interactive (EvFreed i c) log =
     (gc_name c = question_tool_name \<or>
      gc_name c = todos_tool_name \<and> plan_call_resolves env (gc_input c) \<and> EvRan i c \<in> set log \<or>
      EvClaimed i c \<in> set log \<and> (interactive \<longrightarrow> (\<exists>r. EvAnswered i c r \<in> set log)))"
| "event_ok env interactive (EvRan i c) log =
     (EvPassed i c \<in> set log \<or>
      EvClaimed i c \<in> set log \<and>
      (if interactive then EvAnswered i c Proceed \<in> set log \<or> EvAnswered i c Failed \<in> set log else True))"
| "event_ok env interactive _ log = True"

fun history_ok :: "gate_env \<Rightarrow> bool \<Rightarrow> gate_event list \<Rightarrow> bool" where
  "history_ok env interactive [] = True"
| "history_ok env interactive (e # log) = (event_ok env interactive e log \<and> history_ok env interactive log)"

text \<open>The state of a session counts the events of its current run.\<close>

definition state_linked :: "gate_event list \<Rightarrow> string \<Rightarrow> gate_state option \<Rightarrow> bool" where
  "state_linked log sid so =
     (case so of
        None \<Rightarrow> True
      | Some st \<Rightarrow> in_run explored sid log = gs_explore st \<and> in_run bounced sid log = gs_bounces st \<and>
          gs_bounces st \<le> 3 \<and> (0 < in_run releases sid log) = gs_resolved st \<and>
          (0 < in_run claimed sid log \<longrightarrow> gs_asking st \<or> gs_resolved st))"

fun thread_linked :: "gate_env \<Rightarrow> bool \<Rightarrow> gate_event list \<Rightarrow> nat \<Rightarrow> gate_thread \<Rightarrow> bool" where
  "thread_linked env interactive log i (ToolNew c) = True"
| "thread_linked env interactive log i (PlanCheck c) = (gc_session c \<noteq> [])"
| "thread_linked env interactive log i (Looked c d) = (gc_session c \<noteq> [])"
| "thread_linked env interactive log i (Judged c v e b) =
     (b \<le> 3 \<and> verdict_event i c v \<in> set log)"
| "thread_linked env interactive log i (Questioning c q) = (EvClaimed i c \<in> set log)"
| "thread_linked env interactive log i (Replied c r) = (EvClaimed i c \<in> set log \<and> EvAnswered i c r \<in> set log)"
| "thread_linked env interactive log i (Settled c r) = (EvClaimed i c \<in> set log \<and> EvAnswered i c r \<in> set log)"
| "thread_linked env interactive log i (Headless c) = (EvClaimed i c \<in> set log \<and> \<not> interactive)"
| "thread_linked env interactive log i (Inner c passed) = (EvRan i c \<in> set log)"
| "thread_linked env interactive log i (Landed c) =
     (EvRan i c \<in> set log \<and> gc_name c = todos_tool_name \<and> plan_call_resolves env (gc_input c))"
| "thread_linked env interactive log i (Done r) = True"

definition gate_inv :: "gate_env \<Rightarrow> bool \<Rightarrow> gate_sys \<Rightarrow> bool" where
  "gate_inv env interactive s \<longleftrightarrow>
     g_interactive (gy_gate s) = interactive \<and>
     history_ok env interactive (gy_log s) \<and>
     (\<forall>sid. sid \<noteq> [] \<longrightarrow> state_linked (gy_log s) sid (g_states (gy_gate s) sid)) \<and>
     (\<forall>i<length (gy_threads s). thread_linked env interactive (gy_log s) i (gy_threads s ! i))"

lemma thread_linked_mono:
  "thread_linked env b log i th \<Longrightarrow> set log \<subseteq> set log' \<Longrightarrow> thread_linked env b log' i th"
  by (cases th) auto

lemma gate_inv_move:
  assumes inv: "gate_inv env b s" and i: "i < length (gy_threads s)"
    and g: "g_interactive g = b"
    and h: "history_ok env b (evs @ gy_log s)"
    and st: "\<And>sid. sid \<noteq> [] \<Longrightarrow> state_linked (evs @ gy_log s) sid (g_states g sid)"
    and th: "thread_linked env b (evs @ gy_log s) i th"
  shows "gate_inv env b (move i th g evs s)"
proof -
  have "thread_linked env b (evs @ gy_log s) j (gy_threads s ! j)" if "j < length (gy_threads s)" for j
    using inv that by (auto simp: gate_inv_def intro: thread_linked_mono)
  then show ?thesis
    using assms by (auto simp: gate_inv_def move_def nth_list_update)
qed

lemma state_linked_other [simp]:
  "ev_session e \<noteq> sid \<Longrightarrow> state_linked (e # log) sid so = state_linked log sid so"
  by (simp add: state_linked_def split: option.split)

lemma state_linked_plain:
  assumes "\<not> is_turn e" "\<not> explored e" "\<not> bounced e" "\<not> claimed e" "\<not> releases e"
  shows "state_linked (e # log) sid so = state_linked log sid so"
  using assms by (cases "ev_session e = sid") (auto simp: state_linked_def split: option.split)

lemma gate_invD:
  assumes "gate_inv env b s"
  shows "g_interactive (gy_gate s) = b" and "history_ok env b (gy_log s)"
    and "sid \<noteq> [] \<Longrightarrow> state_linked (gy_log s) sid (g_states (gy_gate s) sid)"
    and "i < length (gy_threads s) \<Longrightarrow> thread_linked env b (gy_log s) i (gy_threads s ! i)"
  using assms by (auto simp: gate_inv_def)

text \<open>A step that leaves the gate alone and adds at most one event that changes no count.\<close>

lemma gate_inv_stays:
  assumes inv: "gate_inv env b s" and i: "i < length (gy_threads s)"
    and e: "evs = [] \<or> (\<exists>e. evs = [e] \<and> event_ok env b e (gy_log s) \<and>
        \<not> is_turn e \<and> \<not> explored e \<and> \<not> bounced e \<and> \<not> claimed e \<and> \<not> releases e)"
    and th: "thread_linked env b (evs @ gy_log s) i th"
  shows "gate_inv env b (move i th (gy_gate s) evs s)"
  using gate_inv_move [OF inv i _ _ _ th] gate_invD [OF inv] e
  by (auto simp: state_linked_plain)

text \<open>What \<open>stateFor\<close> returns is linked to the history it leaves.\<close>

lemma state_for_linked:
  assumes "gate_inv env b s" and sid: "gc_session c \<noteq> []"
    and sf: "state_for (gc_session c) (gc_stamp c) (gy_gate s) = (st, g)"
  shows "g_interactive g = b" and "g_states g (gc_session c) = Some st"
    and "\<And>sid. sid \<noteq> [] \<Longrightarrow> state_linked (opened c (gy_gate s) @ gy_log s) sid (g_states g sid)"
    and "history_ok env b (opened c (gy_gate s) @ gy_log s)"
proof -
  note D = gate_invD [OF assms(1)]
  show "g_interactive g = b" "g_states g (gc_session c) = Some st"
    using sf D(1) by (auto simp: state_for_def put_state_def Let_def is_stale_def split: if_splits option.splits)
  show "history_ok env b (opened c (gy_gate s) @ gy_log s)"
    using D(2) by (simp add: opened_def)
  fix sid :: string
  assume "sid \<noteq> []"
  then show "state_linked (opened c (gy_gate s) @ gy_log s) sid (g_states g sid)"
    using sf D(3) [of sid]
    by (cases "sid = gc_session c")
       (auto simp: state_for_def put_state_def Let_def opened_def state_linked_def is_stale_def split: if_splits option.splits)
qed

lemma enter_step_inv:
  assumes inv: "gate_inv env b s" and i: "i < length (gy_threads s)"
  shows "gate_inv env b (enter_step i c s)"
proof (cases "gc_session c = []")
  case True
  with inv i show ?thesis by (auto simp: enter_step_def intro!: gate_inv_stays)
next
  case False
  obtain st g where sf: "state_for (gc_session c) (gc_stamp c) (gy_gate s) = (st, g)" by fastforce
  note S = state_for_linked [OF inv False sf]
  have "gate_inv env b (move i th g (opened c (gy_gate s)) s)" if "thread_linked env b (opened c (gy_gate s) @ gy_log s) i th" for th
    by (rule gate_inv_move [OF inv i S(1,4,3) that])
  with False show ?thesis by (simp add: enter_step_def observe_enter_def sf)
qed

text \<open>One verdict, on a state linked to its history.\<close>

lemma judge_linked:
  assumes "judge env c d st = (v, st')" and "state_linked log (gc_session c) (Some st)"
    and evs: "evs = verdict_event i c v # freed_by i c (gs_resolved st) (gs_resolved st') @
      (if gs_explore st < gs_explore st' then [EvExplored i c] else [])"
    and "history_ok env b log"
  shows "state_linked (evs @ log) (gc_session c) (Some st')" and "history_ok env b (evs @ log)" and "gs_bounces st' \<le> 3"
  using assms
  by (auto simp: judge_def state_linked_def gate_limits gate_armed_def freed_by_def split: if_splits option.splits)

lemma verdict_step_inv:
  assumes inv: "gate_inv env b s" and i: "i < length (gy_threads s)" and sid: "gc_session c \<noteq> []"
  shows "gate_inv env b (verdict_step env i c d s)"
proof -
  obtain st g where sf: "state_for (gc_session c) (gc_stamp c) (gy_gate s) = (st, g)" by fastforce
  obtain v st' where j: "judge env c d st = (v, st')" by fastforce
  let ?evs = "verdict_event i c v # freed_by i c (gs_resolved st) (gs_resolved st') @
      (if gs_explore st < gs_explore st' then [EvExplored i c] else [])"
  let ?log = "opened c (gy_gate s) @ gy_log s"
  note S = state_for_linked [OF inv sid sf]
  from S(2) S(3) [OF sid] have "state_linked ?log (gc_session c) (Some st)" by simp
  note J = judge_linked [where i = i, OF j this refl S(4)]
  have others: "state_linked (?evs @ ?log) sid so = state_linked ?log sid so" if "sid \<noteq> gc_session c" for sid so
    using that by (cases v) (auto simp: freed_by_def)
  show ?thesis
    unfolding verdict_step_def observe_verdict_def sf j prod.case
    by (rule gate_inv_move [OF inv i]) (use S J others in \<open>auto simp: put_state_def\<close>)
qed

lemma resolve_step_inv:
  assumes inv: "gate_inv env b s" and i: "i < length (gy_threads s)"
    and ok: "event_ok env b (EvFreed i c) (gy_log s)"
    and th: "\<And>evs. thread_linked env b (evs @ gy_log s) i th"
  shows "gate_inv env b (resolve_step i c th s)"
proof -
  note D = gate_invD [OF inv]
  let ?g = "gate_resolve c (gy_gate s)"
  let ?resolved = "\<lambda>g. case g_states g (gc_session c) of None \<Rightarrow> False | Some st \<Rightarrow> gs_resolved st"
  let ?evs = "freed_by i c (?resolved (gy_gate s)) (?resolved ?g)"
  have "state_linked (?evs @ gy_log s) sid (g_states ?g sid)" if "sid \<noteq> []" for sid
    using D(3) [OF that]
    by (cases "sid = gc_session c")
       (auto simp: gate_resolve_def put_state_def freed_by_def state_linked_def split: option.splits)
  moreover have "g_interactive ?g = b"
    using D(1) by (auto simp: gate_resolve_def put_state_def split: option.split)
  moreover have "history_ok env b (?evs @ gy_log s)"
    using D(2) ok by (simp add: freed_by_def)
  ultimately show ?thesis
    unfolding resolve_step_def Let_def by (intro gate_inv_move [OF inv i] th)
qed

lemma gate_act_step_inv:
  assumes inv: "gate_inv env b s" and i: "i < length (gy_threads s)"
    and th: "thread_linked env b (gy_log s) i (Judged c v e n)"
  shows "gate_inv env b (gate_act_step i c v e n s)"
proof -
  have "gate_inv env b (resolve_step i c (Headless c) s)" if "EvClaimed i c \<in> set (gy_log s)" "\<not> b"
    using that by (intro resolve_step_inv [OF inv i]) auto
  then show ?thesis
    using inv i th gate_invD(1) [OF inv] by (cases v) (auto simp: gate_act_step_def intro!: gate_inv_stays)
qed

lemma gate_thread_step_inv:
  assumes inv: "gate_inv env b s" and i: "i < length (gy_threads s)" and th: "gy_threads s ! i = th"
  shows "gate_inv env b (gate_thread_step env i th s)"
proof -
  note L = gate_invD(4) [OF inv i, unfolded th]
  note D = gate_invD(1) [OF inv]
  show ?thesis
  proof (cases th)
    case (Judged c v e n)
    with L show ?thesis by (simp add: gate_act_step_inv [OF inv i])
  next
    case (Replied c r)
    with L inv i show ?thesis by (auto intro!: resolve_step_inv)
  next
    case (Settled c r)
    with L inv i show ?thesis by (cases r) (auto simp: settle_step_def intro!: gate_inv_stays)
  next
    case (Headless c)
    with L inv i show ?thesis by (auto intro!: gate_inv_stays)
  next
    case (Landed c)
    with L inv i show ?thesis by (auto intro!: resolve_step_inv)
  qed (use inv i L in \<open>simp_all add: enter_step_inv verdict_step_inv\<close>)
qed

lemma gate_step_inv:
  assumes inv: "gate_inv env b s"
  shows "gate_inv env b (gate_step env s e)"
proof (cases e)
  case (Call c)
  with inv show ?thesis by (auto simp: gate_step_def gate_inv_def nth_append less_Suc_eq)
next
  case (Approve sid)
  with inv show ?thesis by (simp add: gate_step_def gate_inv_def approve_plan_def)
next
  case (Step i)
  with inv show ?thesis by (simp add: gate_step_def gate_thread_step_inv)
next
  case (ReadPlan i stored)
  with inv gate_invD(4) [OF inv, of i] show ?thesis
    by (auto simp: gate_step_def intro!: gate_inv_stays split: gate_thread.splits)
next
  case (Reply i r)
  with inv gate_invD(4) [OF inv, of i] show ?thesis
    by (auto simp: gate_step_def intro!: gate_inv_stays split: gate_thread.splits)
next
  case (Return i ok)
  with inv gate_invD(4) [OF inv, of i] show ?thesis
    by (auto simp: gate_step_def returned_step_def intro!: gate_inv_stays split: gate_thread.splits)
qed

lemma gate_start_inv: "gate_inv env b (gate_start b)"
  by (simp add: gate_inv_def gate_start_def state_linked_def)

interpretation gate_calls: safe_system "gate_step env" "gate_inv env b" for env b
  by unfold_locales (rule gate_step_inv)

text \<open>
  C10: Every history of the gate, whatever calls run in parallel and however their steps
  interleave, is one the abstract specification accepts.
\<close>

theorem gate_history_accepted:
  "history_ok env interactive (gy_log (foldl (gate_step env) (gate_start interactive) es))"
  by (rule gate_invD(2) [OF gate_calls.run_good [OF gate_start_inv]])

text \<open>What that means for one run of a session.\<close>

lemma history_ok_bounds:
  "history_ok env b log \<Longrightarrow> in_run claimed sid log \<le> 1 \<and> in_run bounced sid log \<le> 3"
proof (induction log)
  case (Cons e log)
  then show ?case by (cases e) auto
qed simp

text \<open>
  In one run of a session the gate claims the question at most once and bounces at most three
  plans, however many calls there are.
\<close>

theorem gate_asks_once_per_run:
  "in_run claimed sid (gy_log (foldl (gate_step env) (gate_start interactive) es)) \<le> 1 \<and>
   in_run bounced sid (gy_log (foldl (gate_step env) (gate_start interactive) es)) \<le> 3"
  by (rule history_ok_bounds [OF gate_invD(2) [OF gate_calls.run_good [OF gate_start_inv]]])

subsection \<open>The question is one the service accepts\<close>

lemma length_nat_str: "n < 10 ^ Suc k \<Longrightarrow> length (nat_str n) \<le> Suc k"
proof (induction n arbitrary: k rule: nat_str.induct)
  case (1 n)
  show ?case
  proof (cases "n < 10")
    case False
    then obtain k' where k: "k = Suc k'" using "1.prems" by (cases k) auto
    from "1.prems" have "n div 10 < 10 ^ Suc k'" unfolding k by (simp add: less_mult_imp_div_less mult.commute)
    from "1.IH" [OF False this] False show ?thesis by (simp add: nat_str.simps [of n] k)
  qed (simp add: nat_str.simps)
qed

lemma scope_request_valid:
  assumes "explore < 2 ^ 63" and "bounces \<le> 3"
  shows "validate_request (complete_request new_id (scope_request sid explore bounces)) = None"
proof -
  have "length (nat_str explore) \<le> 19"
    using length_nat_str [of explore 18] assms(1) by simp
  moreover have "length (nat_str bounces) \<le> 1"
    using length_nat_str [of bounces 0] assms(2) by simp
  ultimately show ?thesis
    by (simp add: ask_accepts_iff scope_request_def scope_question_def question_ok_def choice_ok_def scope_text_def)
qed

fun modest_thread :: "nat \<Rightarrow> gate_thread \<Rightarrow> bool" where
  "modest_thread k (Judged c v e n) = (e \<le> k \<and> n \<le> 3)"
| "modest_thread k (Questioning c q) = (\<exists>sid e n. q = scope_request sid e n \<and> e \<le> k \<and> n \<le> 3)"
| "modest_thread k _ = True"

definition modest :: "nat \<Rightarrow> gate_sys \<Rightarrow> bool" where
  "modest k s \<longleftrightarrow>
     (\<forall>sid st. g_states (gy_gate s) sid = Some st \<longrightarrow> gs_explore st \<le> k \<and> gs_bounces st \<le> 3) \<and>
     (\<forall>i<length (gy_threads s). modest_thread k (gy_threads s ! i))"

lemma modest_thread_mono: "modest_thread k th \<Longrightarrow> k \<le> k' \<Longrightarrow> modest_thread k' th"
  by (cases th) fastforce+

lemma modest_move:
  assumes "modest k s" and "k \<le> k'" and "modest_thread k' th"
    and "\<And>sid st. g_states g sid = Some st \<Longrightarrow> gs_explore st \<le> k' \<and> gs_bounces st \<le> 3"
  shows "modest k' (move i th g evs s)"
proof -
  have "modest_thread k' ((gy_threads s)[i := th] ! j)" if "j < length (gy_threads s)" for j
    using assms(1-3) that by (cases "j = i") (auto simp: modest_def intro: modest_thread_mono)
  with assms(4) show ?thesis by (auto simp: modest_def move_def)
qed

lemma modest_question: "e \<le> k \<Longrightarrow> n \<le> 3 \<Longrightarrow> modest_thread k (Questioning c (scope_request sid e n))"
  by auto

lemma modest_states:
  "modest k s \<Longrightarrow> g_states (gy_gate s) sid = Some st \<Longrightarrow> gs_explore st \<le> Suc k \<and> gs_bounces st \<le> 3"
  by (fastforce simp: modest_def)

lemma modest_state_for:
  assumes "modest k s" and "state_for sid stamp (gy_gate s) = (st, g)"
  shows "gs_explore st \<le> k \<and> gs_bounces st \<le> 3"
    and "g_states g sid' = Some st' \<Longrightarrow> gs_explore st' \<le> k \<and> gs_bounces st' \<le> 3"
  using assms
  by (auto simp: modest_def state_for_def put_state_def Let_def is_stale_def split: if_splits option.splits)

lemma modest_judge:
  "judge env c d st = (v, st') \<Longrightarrow> gs_explore st \<le> k \<Longrightarrow> gs_bounces st \<le> 3 \<Longrightarrow> gs_explore st' \<le> Suc k \<and> gs_bounces st' \<le> 3"
  by (auto simp: judge_def gate_limits split: if_splits option.splits)

lemma modest_verdict:
  assumes "modest k s"
  shows "modest (Suc k) (verdict_step env i c d s)"
proof -
  obtain st g where sf: "state_for (gc_session c) (gc_stamp c) (gy_gate s) = (st, g)" by fastforce
  obtain v st' where j: "judge env c d st = (v, st')" by fastforce
  note F = modest_state_for [OF assms sf]
  from modest_judge [OF j] F(1) have J: "gs_explore st' \<le> Suc k \<and> gs_bounces st' \<le> 3" by blast
  show ?thesis
    unfolding verdict_step_def observe_verdict_def sf j prod.case
    by (rule modest_move [OF assms]) (use J F(2) in \<open>auto simp: put_state_def le_SucI split: if_splits\<close>)
qed

lemma modest_enter:
  assumes "modest k s"
  shows "modest (Suc k) (enter_step i c s)"
proof -
  obtain st g where sf: "state_for (gc_session c) (gc_stamp c) (gy_gate s) = (st, g)" by fastforce
  from modest_state_for(2) [OF assms sf] modest_states [OF assms] show ?thesis
    by (auto simp: enter_step_def observe_enter_def sf le_SucI intro!: modest_move [OF assms])
qed

lemma modest_resolve:
  assumes "modest k s" and "modest_thread (Suc k) th"
  shows "modest (Suc k) (resolve_step i c th s)"
  using modest_states [OF assms(1)] assms(2)
  by (auto simp: resolve_step_def gate_resolve_def put_state_def Let_def split: option.split if_splits
      intro!: modest_move [OF assms(1)])

lemma modest_step:
  assumes "modest k s"
  shows "modest (Suc k) (gate_step env s e)"
proof -
  note S = modest_states [OF assms]
  note M = modest_move [OF assms, of "Suc k", OF le_SucI [OF le_refl]]
  have later: "modest (Suc k) s"
    using assms by (fastforce simp: modest_def intro: modest_thread_mono)
  show ?thesis
  proof (cases e)
    case (Call c)
    with later show ?thesis by (auto simp: gate_step_def modest_def nth_append less_Suc_eq)
  next
    case (Approve sid)
    with later show ?thesis by (simp add: gate_step_def modest_def approve_plan_def)
  next
    case (Step i)
    show ?thesis
    proof (cases "i < length (gy_threads s)")
      case True
      with later have th: "modest_thread (Suc k) (gy_threads s ! i)" by (simp add: modest_def)
      show ?thesis
      proof (cases "gy_threads s ! i")
        case (Judged c v x n)
        with th True Step show ?thesis
          by (cases v) (auto simp: gate_step_def gate_act_step_def S simp del: modest_thread.simps(2)
              intro!: M modest_resolve [OF assms] modest_question)
      next
        case (Settled c r)
        with True Step show ?thesis by (cases r) (auto simp: gate_step_def settle_step_def S intro!: M)
      qed (use True Step assms later in \<open>auto simp: gate_step_def S intro!: M modest_verdict modest_enter modest_resolve\<close>)
    qed (use Step later in \<open>simp add: gate_step_def\<close>)
  qed (use later in \<open>auto simp: gate_step_def returned_step_def S split: gate_thread.split intro!: M\<close>)
qed

text \<open>
  C15: The question of the gate never fails validation: a request refused by the service would let
  the write through without asking.
\<close>

theorem scope_question_accepted:
  assumes "length es < 2 ^ 63" and "s = foldl (gate_step env) (gate_start interactive) es"
    and "i < length (gy_threads s)" and "gy_threads s ! i = Questioning c q"
  shows "validate_request (complete_request new_id q) = None"
proof -
  have "modest (length es) (foldl (gate_step env) (gate_start interactive) es)"
  proof (induction es rule: rev_induct)
    case Nil
    show ?case by (simp add: modest_def gate_start_def)
  qed (simp add: modest_step)
  then have "modest_thread (length es) (Questioning c q)"
    using assms(2-4) by (auto simp: modest_def)
  then show ?thesis
    using assms(1) by (auto intro!: scope_request_valid)
qed

subsection \<open>Examples\<close>

definition demo_gate_call :: "u64 \<Rightarrow> string \<Rightarrow> gate_call" where
  "demo_gate_call stamp name = \<lparr>gc_session = ''s'', gc_stamp = stamp, gc_name = name, gc_input = []\<rparr>"

definition demo_gate_env :: gate_env where
  "demo_gate_env = \<lparr>ge_command = (\<lambda>_. None), ge_plan = (\<lambda>_. None)\<rparr>"

text \<open>Eight reads, then a write that asks; the write is thread 8.\<close>

definition demo_explored :: "gate_step list" where
  "demo_explored =
     concat (map (\<lambda>i. [Call (demo_gate_call 1 ''view''), Step i, Step i]) [0..<8]) @
     [Call (demo_gate_call 1 ''write''), Step 8, Step 8, Step 8]"

definition demo_gate_sys :: gate_sys where
  "demo_gate_sys = foldl (gate_step demo_gate_env) (gate_start True) demo_explored"

lemma demo_explored_short: "length demo_explored < 2 ^ 63"
  by (simp add: demo_explored_def length_concat comp_def sum_list_triv)

lemma demo_asked:
  "gy_threads demo_gate_sys ! 8 = Questioning (demo_gate_call 1 ''write'') (scope_request ''s'' 8 0)"
  "8 < length (gy_threads demo_gate_sys)"
  by code_simp+

theorem scope_question_accepted_witness:
  "validate_request (complete_request (\<lambda>_. ''id'') (scope_request ''s'' 8 0)) = None"
  using scope_question_accepted [OF demo_explored_short demo_gate_sys_def demo_asked(2,1)] .

text \<open>
  The turn is cancelled while the user is asked, so \<open>Ask\<close> returns the error of the context; the
  write is run all the same.
\<close>

lemma cancelled_question_runs_write:
  "hd (gy_log (foldl (gate_step demo_gate_env) demo_gate_sys [Reply 8 ErrContext, Step 8, Step 8])) =
     EvRan 8 (demo_gate_call 1 ''write'')"
  by code_simp

text \<open>The question of another session is pending: the write runs without having been asked about.\<close>

lemma busy_service_runs_write:
  "hd (gy_log (foldl (gate_step demo_gate_env) demo_gate_sys [Reply 8 ErrQuestionPending, Step 8, Step 8])) =
     EvRan 8 (demo_gate_call 1 ''write'')"
  by code_simp

end
