(* ===== verification/HookedTool.thy ===== *)
theory HookedTool
  imports Hooks Permission
begin

text \<open>
  The decorator that runs user hooks around a tool (\<open>internal/agent/hooked_tool.go\<close>), on top of
  the models of the hook runner and of the permission service. \<open>runner\<close> is \<open>Runner.Run\<close>, \<open>run_tool\<close>
  the wrapped tool: it is given what \<open>WithHookApproval\<close> left in the context and returns a response
  and an error. \<open>marshal\<close> is \<open>json.Marshal\<close>, \<open>set_hook\<close> sjson's \<open>SetRaw\<close> at the key \<open>hook\<close>. Of a
  response only the fields the decorator touches are kept.
\<close>

record wrapped_call =
  tl_id :: string
  tl_name :: string
  tl_input :: string

record wrapped_response =
  rs_content :: string
  rs_error :: bool
  rs_stop :: bool
  rs_meta :: string

definition wrapped_error :: "string \<Rightarrow> wrapped_response" where
  "wrapped_error text = \<lparr>rs_content = text, rs_error = True, rs_stop = False, rs_meta = []\<rparr>"

definition join_non_empty :: "string \<Rightarrow> string list \<Rightarrow> string" where
  "join_non_empty content parts =
     foldl (\<lambda>c p. if p = [] then c else (if c \<noteq> [] then c @ [CHR 0x0A] else c) @ p) content parts"

record hook_metadata =
  hm_count :: nat
  hm_decision :: string
  hm_halt :: bool
  hm_reason :: string
  hm_input :: bool
  hm_output :: bool
  hm_hooks :: "hook_info list"

definition merge_result :: "hook_metadata \<times> hook_decision \<Rightarrow> aggregate_result \<Rightarrow> hook_metadata \<times> hook_decision" where
  "merge_result md r =
     (if ag_count r = 0 then md
      else (let m = fst md in
        (\<lparr>hm_count = hm_count m + ag_count r, hm_decision = hm_decision m, hm_halt = (hm_halt m \<or> ag_halt r),
          hm_reason = trim_space (hm_reason m @ [CHR 0x0A] @ ag_reason r),
          hm_input = (hm_input m \<or> ag_input r \<noteq> []), hm_output = (hm_output m \<or> ag_output r \<noteq> []),
          hm_hooks = hm_hooks m @ ag_hooks r\<rparr>, max (snd md) (ag_decision r))))"

definition empty_metadata :: hook_metadata where
  "empty_metadata = \<lparr>hm_count = 0, hm_decision = [], hm_halt = False, hm_reason = [], hm_input = False,
     hm_output = False, hm_hooks = []\<rparr>"

definition merged_metadata :: "aggregate_result list \<Rightarrow> hook_metadata" where
  "merged_metadata results =
     (case foldl merge_result (empty_metadata, DecisionNone) results of
        (m, d) \<Rightarrow> m\<lparr>hm_decision := decision_string d\<rparr>)"

definition merge_hook_metadata ::
  "(hook_metadata \<Rightarrow> string option) \<Rightarrow> (string \<Rightarrow> string \<Rightarrow> string option) \<Rightarrow> string \<Rightarrow> aggregate_result list \<Rightarrow> string" where
  "merge_hook_metadata marshal set_hook existing results =
     (let meta = merged_metadata results in
      if hm_count meta = 0 then existing
      else (case marshal meta of
          None \<Rightarrow> existing
        | Some data \<Rightarrow>
            (let existing' = (if existing = [] then ''{}'' else existing) in
             case set_hook existing' data of None \<Rightarrow> existing' | Some merged \<Rightarrow> merged)))"

definition pre_event :: "string \<Rightarrow> wrapped_call \<Rightarrow> hook_event" where
  "pre_event session call =
     \<lparr>hv_name = ''PreToolUse'', hv_session = session,
      hv_tool = Some \<lparr>ht_id = tl_id call, ht_name = tl_name call, ht_input = tl_input call\<rparr>,
      hv_response = None, hv_error = [], hv_last_message = None, hv_decision = [], hv_source = [],
      hv_reason = [], hv_trigger = []\<rparr>"

definition post_tool_event :: "hook_event \<Rightarrow> wrapped_response \<Rightarrow> string option \<Rightarrow> hook_event" where
  "post_tool_event ev resp err =
     (case err of
        Some e \<Rightarrow> ev\<lparr>hv_name := ''PostToolUseFailure'', hv_error := e\<rparr>
      | None \<Rightarrow>
          if rs_error resp then ev\<lparr>hv_name := ''PostToolUseFailure'', hv_error := rs_content resp\<rparr>
          else ev\<lparr>hv_name := ''PostToolUse'', hv_response := Some (rs_content resp)\<rparr>)"

text \<open>
  What one call comes to: what the tool was run with, if it was (the approval in its context and
  the call), the response and error returned, and the events the hooks saw.
\<close>

record hooked_result =
  hx_ran :: "(string option \<times> wrapped_call) option"
  hx_response :: wrapped_response
  hx_error :: "string option"
  hx_events :: "hook_event list"

definition refuse_call ::
  "(hook_metadata \<Rightarrow> string option) \<Rightarrow> (string \<Rightarrow> string \<Rightarrow> string option) \<Rightarrow> aggregate_result \<Rightarrow> wrapped_response" where
  "refuse_call marshal set_hook pre =
     (wrapped_error (if ag_halt pre then ''Turn halted by hook. Reason: '' @ ag_reason pre
                      else ''Tool call blocked by hook. Reason: '' @ ag_reason pre))
       \<lparr>rs_stop := ag_halt pre, rs_meta := merge_hook_metadata marshal set_hook [] [pre]\<rparr>"

definition finish_call ::
  "(hook_metadata \<Rightarrow> string option) \<Rightarrow> (string \<Rightarrow> string \<Rightarrow> string option) \<Rightarrow> aggregate_result \<Rightarrow> aggregate_result \<Rightarrow>
   hook_event \<Rightarrow> wrapped_response \<Rightarrow> string option \<Rightarrow> wrapped_response" where
  "finish_call marshal set_hook pre post ev resp err =
     (let resp1 = (if ag_output post \<noteq> [] \<and> hv_name ev = ''PostToolUse'' then resp\<lparr>rs_content := ag_output post\<rparr> else resp);
          resp2 = resp1\<lparr>rs_stop := (rs_stop resp1 \<or> ag_halt post),
                        rs_meta := merge_hook_metadata marshal set_hook (rs_meta resp1) [pre, post]\<rparr>
      in if err \<noteq> None then resp2
         else resp2\<lparr>rs_content := join_non_empty (rs_content resp2)
                ([ag_context pre, ag_context post] @
                 (if blocked post \<and> ag_reason post \<noteq> [] then [''Hook feedback: '' @ ag_reason post] else []))\<rparr>)"

definition hooked_tool_run ::
  "(hook_metadata \<Rightarrow> string option) \<Rightarrow> (string \<Rightarrow> string \<Rightarrow> string option) \<Rightarrow> (hook_event \<Rightarrow> aggregate_result) \<Rightarrow>
   (string option \<Rightarrow> wrapped_call \<Rightarrow> wrapped_response \<times> string option) \<Rightarrow> string \<Rightarrow> string option \<Rightarrow> wrapped_call \<Rightarrow> hooked_result" where
  "hooked_tool_run marshal set_hook runner run_tool session approved call =
     (let ev = pre_event session call; pre = runner ev in
      if blocked pre
      then \<lparr>hx_ran = None, hx_response = refuse_call marshal set_hook pre, hx_error = None, hx_events = [ev]\<rparr>
      else (let call' = (if ag_input pre \<noteq> [] then call\<lparr>tl_input := ag_input pre\<rparr> else call);
                approved' = (if ag_decision pre = DecisionAllow then Some (tl_id call') else approved);
                (resp, err) = run_tool approved' call';
                ev' = post_tool_event (pre_event session call') resp err;
                post = runner ev'
            in \<lparr>hx_ran = Some (approved', call'), hx_response = finish_call marshal set_hook pre post ev' resp err,
                hx_error = err, hx_events = [ev, ev']\<rparr>))"

text \<open>\<open>wrapToolsWithHooks\<close>; \<open>wrap\<close> is \<open>newHookedTool\<close>.\<close>

definition wrap_tools_with_hooks :: "('t \<Rightarrow> 'r \<Rightarrow> 't) \<Rightarrow> 't list \<Rightarrow> 'r option \<Rightarrow> bool \<Rightarrow> 't list" where
  "wrap_tools_with_hooks wrap tools runner is_sub_agent =
     (case runner of None \<Rightarrow> tools | Some r \<Rightarrow> if is_sub_agent then tools else map (\<lambda>t. wrap t r) tools)"

subsection \<open>What reaches the tool\<close>

lemma allow_iff: "d = DecisionAllow \<longleftrightarrow> d \<noteq> DecisionNone \<and> d \<noteq> DecisionDeny"
  by (cases d) auto

text \<open>The aggregate of a run, hook by hook.\<close>

lemma run_hooks_facts:
  assumes "hooks = fst (matching_hooks compile matches source ev cache)" and "set fin = {..<length hooks}"
    and "a = fst (run_hooks je jd compile matches source exec fin ev cache)"
  shows "blocked a \<longleftrightarrow> (\<exists>h\<in>set hooks. blocking jd (exec h))"
    and "ag_decision a = DecisionDeny \<longleftrightarrow> (\<exists>h\<in>set hooks. hr_decision (run_one jd (exec h)) = DecisionDeny)"
    and "ag_decision a = DecisionNone \<longleftrightarrow> (\<forall>h\<in>set hooks. hr_decision (run_one jd (exec h)) = DecisionNone)"
proof -
  obtain c where m: "matching_hooks compile matches source ev cache = (hooks, c)"
    using assms(1) by (cases "matching_hooks compile matches source ev cache") simp
  have upd: "blocked (a\<lparr>ag_hooks := hs\<rparr>) = blocked a" for a hs by (simp add: blocked_def)
  show "blocked a \<longleftrightarrow> (\<exists>h\<in>set hooks. blocking jd (exec h))"
    "ag_decision a = DecisionDeny \<longleftrightarrow> (\<exists>h\<in>set hooks. hr_decision (run_one jd (exec h)) = DecisionDeny)"
    "ag_decision a = DecisionNone \<longleftrightarrow> (\<forall>h\<in>set hooks. hr_decision (run_one jd (exec h)) = DecisionNone)"
    using aggregate_facts [of je "map (run_one jd \<circ> exec) hooks"] run_one_blocks [of jd]
    by (cases "hooks = []";
        simp add: assms(3) run_hooks_def m upd Let_def run_parallel_order [OF assms(2)] blocked_def empty_aggregate_def)+
qed

lemma hooked_ran:
  "hx_ran (hooked_tool_run marshal set_hook runner run_tool session approved call) =
     (let pre = runner (pre_event session call) in
      if blocked pre then None
      else Some (if ag_decision pre = DecisionAllow then Some (tl_id call) else approved,
                 if ag_input pre \<noteq> [] then call\<lparr>tl_input := ag_input pre\<rparr> else call))"
  by (simp add: hooked_tool_run_def Let_def split: prod.split)

text \<open>
  C12: A tool wrapped with hooks is run exactly if no selected PreToolUse hook blocks the call. It is
  run on the same call, with at most another input, and the permission prompt of no other call is
  skipped; that of this call is only if some hook allowed it.
\<close>

theorem hooked_call_guarded:
  assumes "hooks = fst (matching_hooks compile matches source ev cache)" and "set fin = {..<length hooks}"
    and "ev = pre_event session call"
    and "runner ev = fst (run_hooks je jd compile matches source exec fin ev cache)"
    and "r = hooked_tool_run marshal set_hook runner run_tool session None call"
  shows "(hx_ran r = None \<longleftrightarrow> (\<exists>h\<in>set hooks. blocking jd (exec h))) \<and>
    (\<forall>approved c. hx_ran r = Some (approved, c) \<longrightarrow>
       tl_id c = tl_id call \<and> tl_name c = tl_name call \<and>
       (\<forall>call_id. hook_approved approved call_id \<longleftrightarrow>
          call_id = tl_id call \<and> call_id \<noteq> [] \<and>
          (\<exists>h\<in>set hooks. hr_decision (run_one jd (exec h)) = DecisionAllow)))"
proof -
  note F = run_hooks_facts [OF assms(1,2,4)]
  have allow: "ag_decision (runner ev) = DecisionAllow \<longleftrightarrow> (\<exists>h\<in>set hooks. hr_decision (run_one jd (exec h)) = DecisionAllow)"
    if "\<not> blocked (runner ev)"
  proof -
    from that have "ag_decision (runner ev) \<noteq> DecisionDeny" by (simp add: blocked_def)
    with F(2,3) show ?thesis by (auto simp: allow_iff)
  qed
  have ran: "hx_ran r = (if blocked (runner ev) then None
      else Some (if ag_decision (runner ev) = DecisionAllow then Some (tl_id call) else None,
                 if ag_input (runner ev) \<noteq> [] then call\<lparr>tl_input := ag_input (runner ev)\<rparr> else call))"
    unfolding assms(5) hooked_ran Let_def assms(3) ..
  show ?thesis
  proof (cases "blocked (runner ev)")
    case True
    with F(1) ran show ?thesis by simp
  next
    case False
    with F(1) ran allow [OF False] show ?thesis by (auto simp: hook_approved_def split: if_splits)
  qed
qed

definition demo_hooked_call :: wrapped_call where
  "demo_hooked_call = \<lparr>tl_id = ''c1'', tl_name = ''bash'', tl_input = ''{}''\<rparr>"

definition demo_dec :: json_dec where
  "demo_dec = \<lparr>jd_envelope = \<lambda>_. None, jd_specific = \<lambda>_. None, jd_string = \<lambda>_. None, jd_strings = \<lambda>_. None\<rparr>"

definition demo_runner :: "hook_exec \<Rightarrow> hook_event \<Rightarrow> aggregate_result" where
  "demo_runner ex ev = fst (run_hooks demo_edit demo_dec demo_compile (=) (\<lambda>_. demo_hooks) (\<lambda>_. ex) [0] ev [])"

theorem hooked_call_guarded_witness:
  "hx_ran (hooked_tool_run (\<lambda>_. None) (\<lambda>_ _. None) (demo_runner (ExecDone (Some (ExitStatus 2)) [] ''no''))
     (\<lambda>_ _. (wrapped_error [], None)) ''s'' None demo_hooked_call) = None"
proof -
  let ?ev = "pre_event ''s'' demo_hooked_call"
  let ?ex = "ExecDone (Some (ExitStatus 2)) [] ''no''"
  have hooks: "fst (matching_hooks demo_compile (=) (\<lambda>_. demo_hooks) ?ev []) = [hd demo_hooks]"
    by (simp add: demo_hooks_def pre_event_def demo_hooked_call_def demo_compile_def matching_hooks_def matcher_def)
  have "blocking demo_dec ?ex" by (simp add: blocking_def)
  then show ?thesis
    using hooked_call_guarded [OF refl _ refl, where compile = demo_compile and matches = "(=)" and source = "\<lambda>_. demo_hooks"
        and session = "''s''" and call = demo_hooked_call and cache = "[]" and fin = "[0]" and runner = "demo_runner ?ex"
        and je = demo_edit and jd = demo_dec and exec = "\<lambda>_. ?ex"]
    by (simp add: hooks demo_runner_def lessThan_Suc)
qed

subsection \<open>What comes back\<close>

lemma join_non_empty_spec:
  "join_non_empty content parts = join_with [CHR 0x0A] (filter (\<lambda>p. p \<noteq> []) (content # parts))"
proof (induction parts rule: rev_induct)
  case (snoc p ps)
  show ?case
  proof (cases "filter (\<lambda>p. p \<noteq> []) (content # ps) = []")
    case True
    with snoc show ?thesis by (auto simp: join_non_empty_def)
  next
    case False
    then have "join_with [CHR 0x0A] (filter (\<lambda>p. p \<noteq> []) (content # ps)) \<noteq> []"
      by (subst join_with_Nil_iff) auto
    with False snoc join_with_append [OF False, of "[p]" "[CHR 0x0A]"] show ?thesis
      by (auto simp: join_non_empty_def)
  qed
qed (simp add: join_non_empty_def)

lemma hooked_finished:
  assumes "hx_ran (hooked_tool_run marshal set_hook runner run_tool session approved call) = Some (ap, c)"
    and "run_tool ap c = (resp, err)"
  shows "hx_response (hooked_tool_run marshal set_hook runner run_tool session approved call) =
      (let ev = post_tool_event (pre_event session c) resp err in
       finish_call marshal set_hook (runner (pre_event session call)) (runner ev) ev resp err)"
    and "hx_error (hooked_tool_run marshal set_hook runner run_tool session approved call) = err"
proof -
  have "\<not> blocked (runner (pre_event session call))"
    using assms(1) by (auto simp: hooked_ran Let_def split: if_splits)
  moreover from this assms(1)
  have "ap = (if ag_decision (runner (pre_event session call)) = DecisionAllow then Some (tl_id call) else approved)"
    "c = (if ag_input (runner (pre_event session call)) \<noteq> []
          then call\<lparr>tl_input := ag_input (runner (pre_event session call))\<rparr> else call)"
    unfolding hooked_ran Let_def by simp_all
  ultimately show "hx_response (hooked_tool_run marshal set_hook runner run_tool session approved call) =
      (let ev = post_tool_event (pre_event session c) resp err in
       finish_call marshal set_hook (runner (pre_event session call)) (runner ev) ev resp err)"
    "hx_error (hooked_tool_run marshal set_hook runner run_tool session approved call) = err"
    using assms(2) by (simp_all add: hooked_tool_run_def Let_def if_distrib [of tl_id] cong: if_cong)
qed

text \<open>
  A post hook changes the text only of a success, cannot undo the error or the end of the turn, and
  all that hooks have to say is appended line by line.
\<close>

lemma finish_call_spec:
  assumes "post_event = post_tool_event (pre_event session c) resp None"
  shows "rs_content (finish_call marshal set_hook pre post post_event resp None) =
      join_with [CHR 0x0A] (filter (\<lambda>p. p \<noteq> [])
        [if ag_output post \<noteq> [] \<and> \<not> rs_error resp then ag_output post else rs_content resp,
         ag_context pre, ag_context post,
         if blocked post \<and> ag_reason post \<noteq> [] then ''Hook feedback: '' @ ag_reason post else []])"
    and "rs_error (finish_call marshal set_hook pre post post_event resp None) = rs_error resp"
    and "rs_stop (finish_call marshal set_hook pre post post_event resp None) = (rs_stop resp \<or> ag_halt post)"
  unfolding assms finish_call_def
  by (simp_all add: Let_def post_tool_event_def join_non_empty_spec pre_event_def)

lemma merge_fold:
  "hm_count (fst (foldl merge_result md rs)) = hm_count (fst md) + sum_list (map ag_count rs) \<and>
   hm_halt (fst (foldl merge_result md rs)) = (hm_halt (fst md) \<or> (\<exists>r\<in>set rs. ag_count r \<noteq> 0 \<and> ag_halt r)) \<and>
   snd (foldl merge_result md rs) = fold max (map ag_decision (filter (\<lambda>r. ag_count r \<noteq> 0) rs)) (snd md)"
  by (induction rs arbitrary: md) (auto simp: merge_result_def Let_def max.commute)

text \<open>The combined metadata counts the hooks that ran and carries the strongest decision.\<close>

lemma merged_metadata_spec:
  "hm_count (merged_metadata rs) = sum_list (map ag_count rs)"
  "hm_halt (merged_metadata rs) \<longleftrightarrow> (\<exists>r\<in>set rs. ag_count r \<noteq> 0 \<and> ag_halt r)"
  "hm_decision (merged_metadata rs) =
     decision_string (fold max (map ag_decision (filter (\<lambda>r. ag_count r \<noteq> 0) rs)) DecisionNone)"
  using merge_fold [of "(empty_metadata, DecisionNone)" rs]
  by (auto simp: merged_metadata_def empty_metadata_def split: prod.split)

lemma merge_nothing: "\<forall>r\<in>set rs. ag_count r = 0 \<Longrightarrow> merge_hook_metadata marshal set_hook existing rs = existing"
  by (simp add: merge_hook_metadata_def merged_metadata_spec sum_list_eq_0_iff)

end
