(* ===== verification/Pressure.thy ===== *)
theory Pressure
  imports Message "HOL-Library.Log_Nat"
begin

text \<open>
  How much of the context window a request takes, and what follows from it
  (\<open>internal/agent/pressure.go\<close>, \<open>usage_fallback.go\<close>, \<open>notebook_boundary.go\<close> and the sizes of
  \<open>telemetry.go\<close>): the estimates of tokens, the reserve of the summary trigger, the window cap and
  the latched pressure gate. Tokens and bytes are exact integers; the one computation in floating
  point is written out. Pointer and value cases of the provider library's types are one case here.
\<close>

subsection \<open>Estimates\<close>

definition approx_token_count :: "string \<Rightarrow> nat" where
  "approx_token_count s = (if s = [] then 0 else (length s + 3) div 4)"

datatype wire_result = ResText string | ResError "string option" | ResMedia string string string

text \<open>The parts of a message to a provider; \<open>ResMedia\<close> and \<open>WireFile\<close> have type, text or name, data.\<close>

datatype wire_part =
    WireText string
  | WireReasoning string
  | WireFile string string string
  | WireCall string string
  | WireResult string "wire_result option"
  | WireOther

record wire_message =
  wm_role :: string
  wm_content :: "wire_part list"

definition estimate_media_tokens :: "string \<Rightarrow> string \<Rightarrow> nat \<Rightarrow> nat" where
  "estimate_media_tokens media text bytes =
     (if bytes = 0 then approx_token_count media + approx_token_count text
      else approx_token_count (media @ '' '' @ text @ '' '' @ nat_str bytes @ '' bytes'') + bytes div 4)"

definition estimate_tool_call_tokens :: "string \<Rightarrow> string \<Rightarrow> nat" where
  "estimate_tool_call_tokens name input = approx_token_count name + approx_token_count input"

definition estimate_tool_result_content_tokens :: "string \<Rightarrow> string \<Rightarrow> string \<Rightarrow> wire_result option \<Rightarrow> nat" where
  "estimate_tool_result_content_tokens call_id name metadata output =
     approx_token_count call_id + approx_token_count name + approx_token_count metadata +
     (case output of
        Some (ResText t) \<Rightarrow> approx_token_count t
      | Some (ResError (Some e)) \<Rightarrow> approx_token_count e
      | Some (ResMedia media t d) \<Rightarrow> estimate_media_tokens media t (length d)
      | _ \<Rightarrow> 0)"

definition estimate_message_part_tokens :: "wire_part \<Rightarrow> nat" where
  "estimate_message_part_tokens p =
     (case p of
        WireText t \<Rightarrow> approx_token_count t
      | WireReasoning t \<Rightarrow> approx_token_count t
      | WireFile media name d \<Rightarrow> estimate_media_tokens media name (length d)
      | WireCall name input \<Rightarrow> estimate_tool_call_tokens name input
      | WireResult call_id output \<Rightarrow> estimate_tool_result_content_tokens call_id [] [] output
      | WireOther \<Rightarrow> 0)"

definition estimate_message_tokens :: "wire_message list \<Rightarrow> nat" where
  "estimate_message_tokens msgs =
     sum_list (map (\<lambda>m. approx_token_count (wm_role m) + sum_list (map estimate_message_part_tokens (wm_content m))) msgs)"

definition tool_result_output_bytes :: "wire_result option \<Rightarrow> nat" where
  "tool_result_output_bytes output =
     (case output of
        Some (ResText t) \<Rightarrow> length t
      | Some (ResError (Some e)) \<Rightarrow> length e
      | Some (ResMedia media t d) \<Rightarrow> length d + length media + length t
      | _ \<Rightarrow> 0)"

definition message_part_bytes :: "wire_part \<Rightarrow> nat" where
  "message_part_bytes p =
     (case p of
        WireText t \<Rightarrow> length t
      | WireReasoning t \<Rightarrow> length t
      | WireFile media name d \<Rightarrow> length d + length name + length media
      | WireCall name input \<Rightarrow> length name + length input
      | WireResult call_id output \<Rightarrow> tool_result_output_bytes output
      | WireOther \<Rightarrow> 0)"

definition message_content_bytes :: "wire_message \<Rightarrow> nat" where
  "message_content_bytes m = length (wm_role m) + sum_list (map message_part_bytes (wm_content m))"

text \<open>The stored messages; \<open>quote\<close> is \<open>%q\<close>.\<close>

definition raw_part_chars :: "(string \<Rightarrow> string) \<Rightarrow> content_part \<Rightarrow> nat" where
  "raw_part_chars quote p =
     (case p of
        TextPart t \<Rightarrow> length (mt_text t)
      | Call c \<Rightarrow> length (tc_input c)
      | Result r \<Rightarrow>
          (case tr_superseded r of
             Some m \<Rightarrow> if sm_applied m then length (stub_text quote m r) else length (tr_content r)
           | None \<Rightarrow> length (tr_content r))
      | Reasoning r \<Rightarrow> length (mr_thinking r)
      | _ \<Rightarrow> 0)"

definition estimate_raw_message_tokens :: "(string \<Rightarrow> string) \<Rightarrow> message list \<Rightarrow> nat" where
  "estimate_raw_message_tokens quote msgs =
     sum_list (map (\<lambda>m. sum_list (map (raw_part_chars quote) (m_parts m))) msgs) div 4"

text \<open>The size of the tool schemas; a tool is what its decorators wrap and the length of its JSON, if it has one.\<close>

datatype agent_tool =
    HookedTool agent_tool
  | VerifyingTool agent_tool
  | ScopeGateTool agent_tool
  | McpTool "nat option"
  | BuiltinTool "nat option"

fun is_mcp_tool :: "agent_tool \<Rightarrow> bool" where
  "is_mcp_tool (HookedTool t) = is_mcp_tool t"
| "is_mcp_tool (VerifyingTool t) = is_mcp_tool t"
| "is_mcp_tool (ScopeGateTool t) = is_mcp_tool t"
| "is_mcp_tool (McpTool n) = True"
| "is_mcp_tool (BuiltinTool n) = False"

fun schema_bytes :: "agent_tool \<Rightarrow> nat option" where
  "schema_bytes (HookedTool t) = schema_bytes t"
| "schema_bytes (VerifyingTool t) = schema_bytes t"
| "schema_bytes (ScopeGateTool t) = schema_bytes t"
| "schema_bytes (McpTool n) = n"
| "schema_bytes (BuiltinTool n) = n"

fun tool_schema_bytes :: "agent_tool list \<Rightarrow> nat \<times> nat" where
  "tool_schema_bytes [] = (0, 0)"
| "tool_schema_bytes (t # ts) =
     (case tool_schema_bytes ts of
        (builtin, mcp) \<Rightarrow>
          (case schema_bytes t of
             None \<Rightarrow> (builtin, mcp)
           | Some n \<Rightarrow> if is_mcp_tool t then (builtin, n + mcp) else (n + builtin, mcp)))"

text \<open>Usage, and the fallback when a provider reports none.\<close>

record usage =
  us_input :: nat
  us_output :: nat
  us_total :: nat
  us_reasoning :: nat
  us_cache_write :: nat
  us_cache_read :: nat

definition no_usage :: usage where
  "no_usage = \<lparr>us_input = 0, us_output = 0, us_total = 0, us_reasoning = 0, us_cache_write = 0, us_cache_read = 0\<rparr>"

definition usage_is_zero :: "usage \<Rightarrow> bool" where
  "usage_is_zero u \<longleftrightarrow> us_input u = 0 \<and> us_output u = 0 \<and> us_total u = 0 \<and> us_reasoning u = 0 \<and>
     us_cache_write u = 0 \<and> us_cache_read u = 0"

definition normalized_prompt_tokens :: "usage \<Rightarrow> nat" where
  "normalized_prompt_tokens u = us_input u + us_cache_write u + us_cache_read u"

text \<open>What a step produced; a source has its type, id, URL, title, media type and file name.\<close>

datatype step_content =
    StepText string
  | StepReasoning string
  | StepFile string string
  | StepSource string string string string string string
  | StepCall string string
  | StepResult string string string "wire_result option" bool
  | StepOther

definition estimate_source_tokens :: "string \<Rightarrow> string \<Rightarrow> string \<Rightarrow> string \<Rightarrow> string \<Rightarrow> string \<Rightarrow> nat" where
  "estimate_source_tokens kind sid url title media name =
     approx_token_count kind + approx_token_count sid + approx_token_count url + approx_token_count title +
     approx_token_count media + approx_token_count name"

definition estimate_step_completion_tokens :: "step_content list \<Rightarrow> nat" where
  "estimate_step_completion_tokens cs = sum_list (map (\<lambda>c.
     case c of
       StepText t \<Rightarrow> approx_token_count t
     | StepReasoning t \<Rightarrow> approx_token_count t
     | StepFile media d \<Rightarrow> estimate_media_tokens media [] (length d)
     | StepSource kind sid url title media name \<Rightarrow> estimate_source_tokens kind sid url title media name
     | StepCall name input \<Rightarrow> estimate_tool_call_tokens name input
     | StepResult call_id name metadata output by_provider \<Rightarrow>
         if by_provider then estimate_tool_result_content_tokens call_id name metadata output else 0
     | StepOther \<Rightarrow> 0) cs)"

definition fallback_step_usage :: "wire_message list \<Rightarrow> usage \<Rightarrow> step_content list \<Rightarrow> usage \<times> bool" where
  "fallback_step_usage msgs reported cs =
     (if \<not> usage_is_zero reported then (reported, False)
      else (let i = estimate_message_tokens msgs; out = estimate_step_completion_tokens cs
            in if i = 0 \<and> out = 0 then (no_usage, False)
               else (no_usage\<lparr>us_input := i, us_output := out, us_total := i + out\<rparr>, True)))"

subsection \<open>The estimate never falls below the bytes counted\<close>

lemma approx_ge: "length s \<le> 4 * approx_token_count s"
  unfolding approx_token_count_def by (cases "s = []") (simp, presburger)

lemma approx_Nil [simp]: "approx_token_count [] = 0"
  by (simp add: approx_token_count_def)

lemma media_ge: "length media + length t + bytes \<le> 4 * estimate_media_tokens media t bytes"
proof (cases "bytes = 0")
  case True
  then show ?thesis using approx_ge [of media] approx_ge [of t] by (simp add: estimate_media_tokens_def)
next
  case False
  have "length media + length t + 8 \<le> 4 * approx_token_count (media @ '' '' @ t @ '' '' @ nat_str bytes @ '' bytes'')"
    using approx_ge [of "media @ '' '' @ t @ '' '' @ nat_str bytes @ '' bytes''"] by simp
  with False show ?thesis by (simp add: estimate_media_tokens_def)
qed

lemma part_ge: "message_part_bytes p \<le> 4 * estimate_message_part_tokens p"
proof (cases p)
  case (WireFile media name d)
  then show ?thesis using media_ge [of media name "length d"]
    by (simp add: message_part_bytes_def estimate_message_part_tokens_def)
next
  case (WireCall name input)
  then show ?thesis using approx_ge [of name] approx_ge [of input]
    by (simp add: message_part_bytes_def estimate_message_part_tokens_def estimate_tool_call_tokens_def)
next
  case (WireResult call_id res)
  have "tool_result_output_bytes res \<le> 4 * estimate_tool_result_content_tokens call_id [] [] res"
  proof (cases res)
    case (Some r)
    have "tool_result_output_bytes (Some r) \<le> 4 * (estimate_tool_result_content_tokens [] [] [] (Some r))"
    proof (cases r)
      case (ResMedia media t d)
      with media_ge [of media t "length d"] show ?thesis
        by (simp add: tool_result_output_bytes_def estimate_tool_result_content_tokens_def)
    qed (use approx_ge in \<open>auto simp: tool_result_output_bytes_def estimate_tool_result_content_tokens_def
           split: option.split\<close>)
    then show ?thesis by (simp add: Some estimate_tool_result_content_tokens_def)
  qed (simp add: tool_result_output_bytes_def)
  with WireResult show ?thesis by (simp add: message_part_bytes_def estimate_message_part_tokens_def)
qed (use approx_ge in \<open>simp_all add: message_part_bytes_def estimate_message_part_tokens_def\<close>)

lemma parts_ge: "sum_list (map message_part_bytes ps) \<le> 4 * sum_list (map estimate_message_part_tokens ps)"
proof (induction ps)
  case (Cons p ps)
  with part_ge [of p] show ?case by simp
qed simp

lemma messages_ge: "sum_list (map message_content_bytes msgs) \<le> 4 * estimate_message_tokens msgs"
proof (induction msgs)
  case (Cons m msgs)
  with approx_ge [of "wm_role m"] parts_ge [of "wm_content m"] show ?case
    by (simp add: estimate_message_tokens_def message_content_bytes_def)
qed (simp add: estimate_message_tokens_def)

subsection \<open>Reserves\<close>

definition pressure_parallel_results :: int where "pressure_parallel_results = 4"
definition tool_result_max_content_bytes :: int where "tool_result_max_content_bytes = 50000"
definition default_output_reserve :: int where "default_output_reserve = 4096"
definition large_context_window_threshold :: int where "large_context_window_threshold = 200000"
definition large_context_window_buffer :: int where "large_context_window_buffer = 20000"

lemmas window_constants =
  pressure_parallel_results_def tool_result_max_content_bytes_def default_output_reserve_def
  large_context_window_threshold_def large_context_window_buffer_def

definition pressure_margin :: "int \<Rightarrow> int" where
  "pressure_margin reserve = reserve + pressure_parallel_results * (tool_result_max_content_bytes div 4)"

text \<open>
  \<open>int64(float64(cw) * 0.2)\<close>: the constant is the double \<open>3602879701896397 / 2 ^ 54\<close>; the product
  is rounded to 53 significant bits, halves to even, and truncated.
\<close>

definition round_53 :: "int \<Rightarrow> int" where
  "round_53 n =
     (let e = nat (bitlen n - 53); q = n div 2 ^ e; r = n mod 2 ^ e
      in if 2 ^ e < 2 * r \<or> 2 ^ e = 2 * r \<and> odd q then (q + 1) * 2 ^ e else q * 2 ^ e)"

definition fifth_of :: "int \<Rightarrow> int" where
  "fifth_of cw = sgn cw * (round_53 (\<bar>cw\<bar> * 3602879701896397) div 2 ^ 54)"

definition summarize_threshold :: "int \<Rightarrow> int \<Rightarrow> int" where
  "summarize_threshold cw reserve =
     (if large_context_window_threshold < cw
      then min (max large_context_window_buffer (pressure_margin reserve)) (cw - large_context_window_buffer)
      else fifth_of cw)"

lemma fifth_of_examples: "map fifth_of [0, 4, 5, 8191, 131072, 200000] = [0, 0, 1, 1638, 26214, 40000]"
  by code_simp

text \<open>The rounding error, and that it cannot cross an integer.\<close>

lemma round_53_facts:
  assumes "0 \<le> n" and "n < 2 ^ (53 + k)"
  shows "n \<le> round_53 n + 2 ^ k" and "round_53 n \<le> n + 2 ^ k"
    and "2 ^ k dvd m \<Longrightarrow> m \<le> n \<Longrightarrow> m \<le> round_53 n"
proof -
  let ?e = "nat (bitlen n - 53)"
  have "bitlen n \<le> int (53 + k)"
    using assms by (subst bitlen_le_iff_power) (simp_all add: nat_add_distrib)
  then have "?e \<le> k" by linarith
  then have e: "(2 :: int) ^ ?e dvd 2 ^ k" by (rule le_imp_power_dvd)
  define E where "E = (2 :: int) ^ ?e"
  have pos: "0 < E" by (simp add: E_def)
  from e have le: "E \<le> 2 ^ k" by (intro zdvd_imp_le) (simp_all add: E_def)
  define D M where "D = n div E" and "M = n mod E"
  have n: "n = D * E + M" "0 \<le> M" "M < E" using pos by (simp_all add: D_def M_def)
  have r: "round_53 n = (if E < 2 * M \<or> E = 2 * M \<and> odd D then D * E + E else D * E)"
    by (simp add: round_53_def E_def D_def M_def Let_def distrib_right)
  show "n \<le> round_53 n + 2 ^ k" "round_53 n \<le> n + 2 ^ k"
    unfolding r using n le by auto
  assume "2 ^ k dvd m" "m \<le> n"
  from dvd_trans [OF e this(1)] have "E dvd m" by (simp add: E_def)
  then obtain c where c: "m = c * E" by (metis dvd_div_mult_self)
  with \<open>m \<le> n\<close> pos have "c \<le> D" unfolding D_def by (metis nonzero_mult_div_cancel_right order_less_irrefl zdiv_mono1)
  with pos have "m \<le> D * E" by (simp add: c)
  with pos show "m \<le> round_53 n" unfolding r by auto
qed

lemma fifth_of_eq:
  assumes "0 \<le> cw" and "cw \<le> 200000"
  shows "fifth_of cw = cw div 5"
proof -
  define q j where "q = cw div 5" and "j = cw mod 5"
  have cw: "cw = 5 * q + j" "0 \<le> j" "j \<le> 4" "0 \<le> q" "q \<le> 40000"
    using assms by (simp_all add: q_def j_def)
  define n where "n = cw * 3602879701896397"
  have n: "0 \<le> n" "n < 2 ^ (53 + 17)" using assms by (simp_all add: n_def)
  have n5: "5 * n = (5 * q + j) * (2 ^ 54 + 1)" by (simp add: n_def cw(1))
  note R = round_53_facts [OF n]
  have "q * 2 ^ 54 \<le> round_53 n"
  proof (cases "j = 0")
    case True
    have "(2 :: int) ^ 17 dvd q * 2 ^ 54" by (intro dvd_mult le_imp_power_dvd) simp
    moreover from n5 True cw(4) have "q * 2 ^ 54 \<le> n" by simp
    ultimately show ?thesis by (rule R(3))
  next
    case False
    with cw(2) have "1 \<le> j" by simp
    with n5 cw(4) R(1) show ?thesis by simp
  qed
  moreover have "round_53 n < (q + 1) * 2 ^ 54"
    using R(2) n5 cw by simp
  ultimately have "round_53 n div 2 ^ 54 = q"
    by (intro int_div_pos_eq [of _ _ _ "round_53 n - q * 2 ^ 54"]) (simp_all add: algebra_simps)
  then show ?thesis using assms by (cases "cw = 0") (simp_all add: fifth_of_def n_def q_def sgn_if)
qed

text \<open>The trigger keeps room for the output and the jump of one step wherever the window has it.\<close>

lemma summarize_threshold_bounds:
  assumes "0 < cw"
  shows "0 \<le> summarize_threshold cw reserve" and "summarize_threshold cw reserve < cw"
proof -
  note c = window_constants summarize_threshold_def
  show "0 \<le> summarize_threshold cw reserve" "summarize_threshold cw reserve < cw"
    using assms fifth_of_eq [of cw] by (auto simp: c min_def)
qed

subsection \<open>The window cap\<close>

definition output_reserve :: "int \<Rightarrow> int" where
  "output_reserve default_max = (if 0 < default_max then default_max else default_output_reserve)"

definition window_estimate :: "int \<Rightarrow> wire_message list \<Rightarrow> agent_tool list \<Rightarrow> int \<Rightarrow> int \<times> int" where
  "window_estimate default_max msgs tools max_output =
     (let out = (if max_output \<le> 0 then output_reserve default_max else max_output) in
      case tool_schema_bytes tools of
        (builtin, mcp) \<Rightarrow> (int (estimate_message_tokens msgs) + int (builtin + mcp) div 4, out))"

text \<open>The error names the estimate, the output and the window.\<close>

definition enforce_window_cap ::
  "bool \<Rightarrow> int \<Rightarrow> int \<Rightarrow> wire_message list \<Rightarrow> agent_tool list \<Rightarrow> int \<Rightarrow> (int \<times> int \<times> int) option" where
  "enforce_window_cap enforce cw default_max msgs tools max_output =
     (if \<not> enforce then None
      else if cw \<le> 0 then None
      else (case window_estimate default_max msgs tools max_output of
          (est, out) \<Rightarrow> if est + out \<le> cw then None else Some (est, out, cw)))"

definition window_overflow :: "int \<Rightarrow> int \<Rightarrow> wire_message list \<Rightarrow> agent_tool list \<Rightarrow> int \<Rightarrow> bool" where
  "window_overflow cw default_max msgs tools max_output =
     (if cw \<le> 0 then False
      else (case window_estimate default_max msgs tools max_output of (est, out) \<Rightarrow> cw < est + out))"

text \<open>The two caps trip on the same requests.\<close>

lemma caps_agree:
  "window_overflow cw default_max msgs tools max_output \<longleftrightarrow> enforce_window_cap True cw default_max msgs tools max_output \<noteq> None"
  by (auto simp: window_overflow_def enforce_window_cap_def split: prod.split)

text \<open>Decorators change neither the partition of a tool nor its size.\<close>

fun bare :: "agent_tool \<Rightarrow> agent_tool" where
  "bare (HookedTool t) = bare t"
| "bare (VerifyingTool t) = bare t"
| "bare (ScopeGateTool t) = bare t"
| "bare t = t"

lemma bare_tool [simp]: "is_mcp_tool (bare t) = is_mcp_tool t" "schema_bytes (bare t) = schema_bytes t"
  by (induction t) simp_all

lemma tool_schema_bytes_bare: "tool_schema_bytes (map bare ts) = tool_schema_bytes ts"
  by (induction ts) (simp_all split: option.split prod.split)

text \<open>
  C20: A request the window cap lets through has at most four bytes of content and schemas for every
  token the window leaves beside the output budget, and at most three bytes more: the rounding of the
  schemas.
\<close>

theorem accepted_request_fits:
  assumes "enforce_window_cap True cw default_max msgs tools max_output = None" and "0 < cw"
    and "tool_schema_bytes tools = (builtin, mcp)"
  shows "int (sum_list (map message_content_bytes msgs)) + int (builtin + mcp) \<le>
     4 * (cw - (if max_output \<le> 0 then output_reserve default_max else max_output)) + 3"
proof -
  have "int (sum_list (map message_content_bytes msgs)) \<le> 4 * int (estimate_message_tokens msgs)"
    using messages_ge [of msgs] by (simp flip: of_nat_le_iff)
  moreover have "int (builtin + mcp) \<le> 4 * (int (builtin + mcp) div 4) + 3" by presburger
  moreover have "int (estimate_message_tokens msgs) + int (builtin + mcp) div 4 +
      (if max_output \<le> 0 then output_reserve default_max else max_output) \<le> cw"
    using assms by (simp add: enforce_window_cap_def window_estimate_def Let_def split: if_splits)
  ultimately show ?thesis by (simp add: algebra_simps)
qed

theorem accepted_request_fits_witness:
  "int (sum_list (map message_content_bytes [\<lparr>wm_role = ''user'', wm_content = [WireText ''hello'']\<rparr>])) + int (800 + 0) \<le>
     4 * (5000 - (if (0 :: int) \<le> 0 then output_reserve 0 else 0)) + 3"
  by (rule accepted_request_fits [where tools = "[HookedTool (BuiltinTool (Some 800))]"])
    (simp_all add: enforce_window_cap_def window_estimate_def estimate_message_tokens_def approx_token_count_def
      estimate_message_part_tokens_def output_reserve_def window_constants)

subsection \<open>The pressure gate\<close>

text \<open>The fields of \<open>requestStats\<close> the gate keeps, the last one first set from the usage of a request.\<close>

record request_stats =
  rq_rendered :: nat
  rq_estimate :: int
  rq_engaged :: bool
  rq_activations :: nat
  rq_last_prompt :: int

definition no_stats :: request_stats where
  "no_stats = \<lparr>rq_rendered = 0, rq_estimate = 0, rq_engaged = False, rq_activations = 0, rq_last_prompt = 0\<rparr>"

text \<open>
  The session's statistics and the flag of the notebook service, by session; \<open>pp_notebook\<close> is
  \<open>None\<close> without a notebook.
\<close>

record pressure_state =
  pp_stats :: "(string \<Rightarrow> request_stats option) option"
  pp_notebook :: "(string \<Rightarrow> bool) option"

definition stats_of :: "(string \<Rightarrow> request_stats option) \<Rightarrow> string \<Rightarrow> request_stats" where
  "stats_of m sid = (case m sid of None \<Rightarrow> no_stats | Some rs \<Rightarrow> rs)"

definition set_pressure :: "string \<Rightarrow> bool \<Rightarrow> (string \<Rightarrow> bool) option \<Rightarrow> (string \<Rightarrow> bool) option" where
  "set_pressure sid on nb = map_option (\<lambda>f. f(sid := on)) nb"

definition render_estimate :: "(string \<Rightarrow> string) \<Rightarrow> request_stats \<Rightarrow> message list \<Rightarrow> int" where
  "render_estimate quote rs msgs =
     (if 0 < rq_last_prompt rs
      then rq_last_prompt rs + int (estimate_raw_message_tokens quote (drop (min (rq_rendered rs) (length msgs)) msgs))
      else int (estimate_raw_message_tokens quote msgs))"

text \<open>
  One evaluation on the statistics of a session: the answer, whether it has just engaged, and the
  statistics stored.
\<close>

definition gate_render ::
  "(string \<Rightarrow> string) \<Rightarrow> int \<Rightarrow> int \<Rightarrow> message list \<Rightarrow> request_stats \<Rightarrow> bool \<times> bool \<times> request_stats" where
  "gate_render quote cw default_max msgs rs0 =
     (let est = render_estimate quote rs0 msgs;
          rs = rs0\<lparr>rq_estimate := est, rq_rendered := length msgs\<rparr>
      in if cw = 0 then (True, False, rs)
         else if \<not> rq_engaged rs \<and> cw - pressure_margin (output_reserve default_max) \<le> est
         then (True, True, rs\<lparr>rq_engaged := True, rq_activations := rq_activations rs + 1\<rparr>)
         else (rq_engaged rs, False, rs))"

definition pressure_engaged ::
  "(string \<Rightarrow> string) \<Rightarrow> int \<Rightarrow> int \<Rightarrow> string \<Rightarrow> message list \<Rightarrow> pressure_state \<Rightarrow> bool \<times> pressure_state" where
  "pressure_engaged quote cw default_max sid msgs s =
     (case pp_stats s of
        None \<Rightarrow> (True, s)
      | Some m \<Rightarrow>
          if sid = [] then (True, s)
          else (case gate_render quote cw default_max msgs (stats_of m sid) of
              (on, fresh, rs) \<Rightarrow>
                (on, s\<lparr>pp_stats := Some (m(sid := Some rs)),
                       pp_notebook := (if fresh then set_pressure sid True (pp_notebook s) else pp_notebook s)\<rparr>)))"

definition clear_pressure_state :: "string \<Rightarrow> pressure_state \<Rightarrow> pressure_state" where
  "clear_pressure_state sid s =
     (let s1 = s\<lparr>pp_notebook := set_pressure sid False (pp_notebook s)\<rparr> in
      case pp_stats s1 of
        None \<Rightarrow> s1
      | Some m \<Rightarrow> s1\<lparr>pp_stats := Some (m(sid := Some ((stats_of m sid)\<lparr>rq_engaged := False, rq_estimate := 0,
                                       rq_rendered := 0, rq_last_prompt := 0\<rparr>)))\<rparr>)"

text \<open>The end of a step reports its usage.\<close>

definition report_usage :: "string \<Rightarrow> usage \<Rightarrow> pressure_state \<Rightarrow> pressure_state" where
  "report_usage sid u s =
     (case pp_stats s of
        None \<Rightarrow> s
      | Some m \<Rightarrow> s\<lparr>pp_stats := Some (m(sid := Some ((stats_of m sid)\<lparr>rq_last_prompt := int (normalized_prompt_tokens u)\<rparr>)))\<rparr>)"

lemma gate_render_facts:
  assumes "gate_render quote cw d msgs rs0 = (on, fresh, rs)"
  shows "rq_estimate rs = render_estimate quote rs0 msgs" and "rq_engaged rs \<longleftrightarrow> rq_engaged rs0 \<or> fresh"
    and "fresh \<Longrightarrow> \<not> rq_engaged rs0" and "rq_activations rs = rq_activations rs0 + (if fresh then 1 else 0)"
    and "on = (cw = 0 \<or> rq_engaged rs)"
    and "\<not> on \<Longrightarrow> render_estimate quote rs0 msgs + pressure_margin (output_reserve d) < cw"
  using assms by (auto simp: gate_render_def Let_def split: if_splits)

text \<open>
  While the gate reports that it is not engaged, the estimate of the request, the output
  budget and four results of the largest size together are below the window.
\<close>

theorem disengaged_leaves_room:
  assumes "pressure_engaged quote cw default_max sid msgs s = (False, s')"
  shows "\<exists>m m'. pp_stats s = Some m \<and> pp_stats s' = Some m' \<and> cw \<noteq> 0 \<and>
     rq_estimate (stats_of m' sid) = render_estimate quote (stats_of m sid) msgs \<and>
     rq_estimate (stats_of m' sid) + output_reserve default_max + 4 * 12500 < cw"
proof -
  obtain m where m: "pp_stats s = Some m" "sid \<noteq> []"
    using assms by (auto simp: pressure_engaged_def split: option.splits if_splits)
  obtain on fresh rs where g: "gate_render quote cw default_max msgs (stats_of m sid) = (on, fresh, rs)"
    using prod_cases3 by blast
  note G = gate_render_facts [OF g]
  from assms m g have "\<not> on" "pp_stats s' = Some (m(sid := Some rs))" by (auto simp: pressure_engaged_def)
  with G(1,5,6) m show ?thesis
    by (simp add: stats_of_def pressure_margin_def window_constants)
qed

theorem disengaged_leaves_room_witness:
  "let s = \<lparr>pp_stats = Some (\<lambda>_. None), pp_notebook = None\<rparr>; s' = snd (pressure_engaged (\<lambda>s. s) 200000 8000 ''s'' [] s)
   in \<exists>m'. pp_stats s' = Some m' \<and> rq_estimate (stats_of m' ''s'') + output_reserve 8000 + 4 * 12500 < 200000"
proof -
  let ?s = "\<lparr>pp_stats = Some (\<lambda>_. None), pp_notebook = None\<rparr>"
  have "\<not> fst (pressure_engaged (\<lambda>s. s) 200000 8000 ''s'' [] ?s)"
    by (simp add: pressure_engaged_def gate_render_def stats_of_def no_stats_def render_estimate_def
        estimate_raw_message_tokens_def pressure_margin_def output_reserve_def window_constants Let_def)
  then have "pressure_engaged (\<lambda>s. s) 200000 8000 ''s'' [] ?s = (False, snd (pressure_engaged (\<lambda>s. s) 200000 8000 ''s'' [] ?s))"
    by (metis prod.collapse)
  from disengaged_leaves_room [OF this] show ?thesis by (auto simp: Let_def)
qed

subsection \<open>The latch\<close>

datatype pressure_event =
    Render string "message list" int int
  | Usage string usage
  | Compacted string

definition pressure_step :: "(string \<Rightarrow> string) \<Rightarrow> pressure_state \<Rightarrow> pressure_event \<Rightarrow> pressure_state" where
  "pressure_step quote s e =
     (case e of
        Render sid msgs cw default_max \<Rightarrow> snd (pressure_engaged quote cw default_max sid msgs s)
      | Usage sid u \<Rightarrow> report_usage sid u s
      | Compacted sid \<Rightarrow> clear_pressure_state sid s)"

definition pressure_start :: pressure_state where
  "pressure_start = \<lparr>pp_stats = Some (\<lambda>_. None), pp_notebook = Some (\<lambda>_. False)\<rparr>"

definition latched :: "pressure_state \<Rightarrow> string \<Rightarrow> bool" where
  "latched s sid = (case pp_stats s of None \<Rightarrow> False | Some m \<Rightarrow> rq_engaged (stats_of m sid))"

definition activations :: "pressure_state \<Rightarrow> string \<Rightarrow> nat" where
  "activations s sid = (case pp_stats s of None \<Rightarrow> 0 | Some m \<Rightarrow> rq_activations (stats_of m sid))"

lemma stats_of_upd [simp]: "stats_of (m(sid := Some rs)) sid' = (if sid' = sid then rs else stats_of m sid')"
  by (simp add: stats_of_def)

text \<open>
  The flag of the notebook follows the latch, and every activation but the one latched now was
  undone by a compaction.
\<close>

definition compactions :: "pressure_event list \<Rightarrow> string \<Rightarrow> nat" where
  "compactions es sid = length (filter (\<lambda>e. e = Compacted sid) es)"

lemma compactions_snoc: "compactions (es @ [e]) sid = compactions es sid + (if e = Compacted sid then 1 else 0)"
  by (simp add: compactions_def)

definition pressure_inv :: "pressure_event list \<Rightarrow> pressure_state \<Rightarrow> bool" where
  "pressure_inv es s \<longleftrightarrow>
     pp_stats s \<noteq> None \<and> (\<exists>f. pp_notebook s = Some f \<and> (\<forall>sid. f sid = latched s sid)) \<and>
     (\<forall>sid. activations s sid \<le> Suc (compactions es sid)) \<and>
     (\<forall>sid. \<not> latched s sid \<longrightarrow> activations s sid \<le> compactions es sid)"

lemma pressure_step_inv:
  assumes "pressure_inv es s"
  shows "pressure_inv (es @ [e]) (pressure_step quote s e)"
    and "latched s sid \<Longrightarrow> e \<noteq> Compacted sid \<Longrightarrow> latched (pressure_step quote s e) sid"
proof -
  obtain m f where m: "pp_stats s = Some m" and f: "pp_notebook s = Some f" "\<And>sid. f sid = rq_engaged (stats_of m sid)"
    and c: "\<And>sid. rq_activations (stats_of m sid) \<le> Suc (compactions es sid)"
      "\<And>sid. \<not> rq_engaged (stats_of m sid) \<Longrightarrow> rq_activations (stats_of m sid) \<le> compactions es sid"
    using assms by (auto simp: pressure_inv_def latched_def activations_def)
  have le: "compactions es sid \<le> compactions (es @ [e]) sid" for sid by (simp add: compactions_def)
  have c': "rq_activations (stats_of m sid) \<le> Suc (compactions (es @ [e]) sid)"
      "\<not> rq_engaged (stats_of m sid) \<Longrightarrow> rq_activations (stats_of m sid) \<le> compactions (es @ [e]) sid" for sid
    using c [of sid] le [of sid] by linarith+
  have "pressure_inv (es @ [e]) (pressure_step quote s e) \<and>
      (latched s sid \<longrightarrow> e \<noteq> Compacted sid \<longrightarrow> latched (pressure_step quote s e) sid)"
  proof (cases e)
    case (Render sid' msgs cw d)
    obtain on fresh rs where g: "gate_render quote cw d msgs (stats_of m sid') = (on, fresh, rs)"
      using prod_cases3 by blast
    note G = gate_render_facts(2-4) [OF g]
    show ?thesis
      using m f c' G
      by (auto simp: Render pressure_step_def pressure_inv_def pressure_engaged_def g set_pressure_def latched_def
          activations_def)
  next
    case (Usage sid' u)
    with m f c' show ?thesis
      by (auto simp: pressure_step_def pressure_inv_def report_usage_def latched_def activations_def)
  next
    case (Compacted sid')
    with m f c show ?thesis
      by (auto simp: pressure_step_def pressure_inv_def clear_pressure_state_def latched_def activations_def
          set_pressure_def Let_def compactions_snoc intro: le_SucI)
  qed
  then show "pressure_inv (es @ [e]) (pressure_step quote s e)"
    "latched s sid \<Longrightarrow> e \<noteq> Compacted sid \<Longrightarrow> latched (pressure_step quote s e) sid" by blast+
qed

lemma pressure_run_inv: "pressure_inv es (foldl (pressure_step quote) pressure_start es)"
proof (induction es rule: rev_induct)
  case Nil
  show ?case
    by (simp add: pressure_inv_def pressure_start_def latched_def activations_def stats_of_def no_stats_def compactions_def)
qed (simp add: pressure_step_inv)

text \<open>
  C21: In any order of renders, reported usage and compactions, the notebook generates under pressure
  exactly for the sessions that are latched, only a compaction of its own session releases a latch,
  and a session engages at most once more often than it is compacted.
\<close>

theorem pressure_latch:
  assumes "s = foldl (pressure_step quote) pressure_start es"
  shows "(\<exists>f. pp_notebook s = Some f \<and> f sid = latched s sid) \<and>
     (latched s sid \<longrightarrow> e \<noteq> Compacted sid \<longrightarrow> latched (pressure_step quote s e) sid) \<and>
     activations s sid \<le> compactions es sid + 1"
  using pressure_run_inv [of es quote] pressure_step_inv(2) [OF pressure_run_inv [of es quote], of sid e quote]
  unfolding assms by (auto simp: pressure_inv_def)

text \<open>A window of 60000 tokens and requests of 30000 and, after a compaction, 20000.\<close>

definition demo_pressure :: pressure_state where
  "demo_pressure = foldl (pressure_step (\<lambda>s. s)) pressure_start
     [Usage ''s'' (no_usage\<lparr>us_input := 30000\<rparr>), Render ''s'' [] 60000 8000, Compacted ''s'',
      Usage ''s'' (no_usage\<lparr>us_input := 20000\<rparr>), Render ''s'' [] 60000 8000]"

lemma demo_pressure_facts: "latched demo_pressure ''s''" "activations demo_pressure ''s'' = 2"
  by (simp_all add: demo_pressure_def pressure_step_def report_usage_def pressure_engaged_def gate_render_def
      clear_pressure_state_def pressure_start_def latched_def activations_def stats_of_def no_stats_def no_usage_def
      render_estimate_def normalized_prompt_tokens_def estimate_raw_message_tokens_def pressure_margin_def
      output_reserve_def window_constants set_pressure_def Let_def)

theorem pressure_latch_witness:
  "latched (pressure_step (\<lambda>s. s) demo_pressure (Render ''s'' [] 0 0)) ''s''"
  using pressure_latch [OF demo_pressure_def, of "''s''" "Render ''s'' [] 0 0"] demo_pressure_facts(1) by simp

text \<open>
  The comment of the counter says that a session activates at most once; with a compaction in
  between it does so twice.
\<close>

lemma activates_twice: "activations demo_pressure ''s'' = 2"
  by (rule demo_pressure_facts(2))

end
