(* ===== verification/Spec2Isabelle.thy ===== *)
theory Spec2Isabelle
  imports Prelude GoLib CSync PubSub Permission Hooks StringExt OutputBounds JsonScan Message MessageStore Settle Plan GoRegexp Toolclass CommandKind LoopDetection RunEdges VerifyGate PlanDone EdgeScans Dispatch EditMatch FileHistory EditTool SafeCommand Question ScopeGate HookedTool Pressure
begin

text \<open>
  A verification library of Crush, a coding agent for the terminal (a Go program). A user's prompt
  becomes a run of a session agent: the agent is dispatched (one run per session, others queue),
  streams a model's answer into a message, executes the tool calls in it after asking the
  permission service and the user's hooks, settles calls left open, and at the boundary of the run
  checks whether the plan is done, whether what changed was verified, and whether to queue a repair
  prompt. What this library models is that core: the Go code under src/internal that decides,
  orders and records. Screens, network and processes are outside.

  \<^bold>\<open>Conventions.\<close> A string is a list of bytes. A Go map is an association list with distinct keys
  (\<open>gomap\<close>), so the order of a \<open>range\<close> is an argument where it matters; a record is a struct with
  abbreviated field prefixes; an error return is \<open>Inl\<close>, \<open>None\<close> or an error component. Counters that
  wrap are words (\<open>u64\<close>). Mutable state is passed explicitly. Concurrency is a step function on a
  system state, one step per critical section or unlocked access, and a run is \<open>foldl\<close> of steps, so
  a theorem about every list of steps is a theorem about every interleaving. What is not this
  program's code (SQL, encoding/json's decoding, SHA-256 and xxh3, x/ansi, uuid, udiff, the clock,
  the file system's canonical paths, the shell's execution) is an argument of the definitions.

  \<^bold>\<open>Foundations.\<close>
  \<^item> \<^theory_text>\<open>Prelude\<close>: maps, loops that return the first hit, and the contracts \<open>safe_system\<close>,
    \<open>ordered_system\<close> and \<open>progressing_system\<close>, under which invariants of steps carry over to runs.
  \<^item> \<^theory_text>\<open>GoLib\<close>: the functions of strings, strconv and path/filepath the code uses, with their laws.
  \<^item> \<^theory_text>\<open>GoRegexp\<close>: leftmost-first matching of regular expressions, by recursion on a measure of the
    expression and the text that is left.
  \<^item> \<^theory_text>\<open>JsonScan\<close>: json.Valid as a pushdown scanner.

  \<^bold>\<open>Services.\<close>
  \<^item> \<^theory_text>\<open>CSync\<close> (internal/csync): thread-safe maps, slices and values; the locales \<open>keyed_store\<close> and
    \<open>take_store\<close> are the contract their clients rely on.
  \<^item> \<^theory_text>\<open>PubSub\<close> (internal/pubsub): subscriptions, pumps and the broker. Nothing panics; as long as
    the pump gives up on no delivery and no event with a key takes the blocking send, no must-deliver
    event is lost and coalescing keeps the order and the newest event of each key.
  \<^item> \<^theory_text>\<open>Permission\<close> (internal/permission): who has to be asked, the remembered grants, the sweep of
    pending requests, and all callers interleaved, the sweep entry by entry. Every request gets one
    answer, the winner's.
  \<^item> \<^theory_text>\<open>Hooks\<close> (internal/hooks): parsing, running and merging of hook answers. An event is blocked
    exactly if some hook blocks it, in whatever order they complete.
  \<^item> \<^theory_text>\<open>FileHistory\<close> (internal/history, internal/filetracker, internal/db queries on files): the rows
    of the versions of edited files, and what was read when. The locale \<open>version_log\<close> is the
    contract of the editing tools; the service is its interpretation.

  \<^item> \<^theory_text>\<open>Question\<close> (internal/question, tools/question.go): validation, the single pending question with
    its channels, and the tool. An answer reaches the question it was given to, and no other.

  \<^bold>\<open>Messages.\<close>
  \<^item> \<^theory_text>\<open>StringExt\<close>, \<^theory_text>\<open>OutputBounds\<close> (internal/stringext, internal/shell, internal/agent/tools): cut
    points, normalisation, and the bounds on what a command's output keeps.
  \<^item> \<^theory_text>\<open>Message\<close>, \<^theory_text>\<open>MessageStore\<close> (internal/message): a message while it streams, what is replayed of
    it, and the debounced store. The store refines a plain map from ids to parts, under every
    interleaving of updates, timers, flushes and failing statements.
  \<^item> \<^theory_text>\<open>Settle\<close> (internal/agent/settle.go): every call of a stored transcript gets one answer,
    and a repair changes nothing else but finished flags and a missing finish.

  \<^bold>\<open>Tools.\<close>
  \<^item> \<^theory_text>\<open>Toolclass\<close>, \<^theory_text>\<open>CommandKind\<close> (internal/toolclass): which calls and commands write, read, test or
    run. The two redirect scans of a command agree.
  \<^item> \<^theory_text>\<open>EditMatch\<close> (edit.go, edit_whitespace.go): where an edit applies. The search up to white space
    finds exactly the windows of equal normalised lines, and an edit changes one place.
  \<^item> \<^theory_text>\<open>EditTool\<close> (edit.go, multiedit.go, write.go, fsext, diff): the tools that change files, on a
    world of disk, history and reads. Nothing is written that was not granted; a file has to be
    read first; if the read of the result is recorded, what was granted is what the next edit reads.
  \<^item> \<^theory_text>\<open>SafeCommand\<close> (safe.go, bash.go, internal/shell): wrappers, the safe list, the block list and
    the gate of the bash tool. What runs unasked is made of literal calls an entry accepts.

  \<^item> \<^theory_text>\<open>HookedTool\<close> (hooked_tool.go): the decorator that runs the user's hooks around a tool, on the
    models of the hook runner and the permission service.
  \<^item> \<^theory_text>\<open>ScopeGate\<close> (scope_gate.go): the decorator that asks before the first write of a long
    exploration. Its histories are those of an abstract specification, an acceptor of events.

  \<^bold>\<open>The agent.\<close>
  \<^item> \<^theory_text>\<open>Dispatch\<close> (agent.go, backend/agent.go): accepting, queueing, cancelling, compacting and ending
    runs, as phases of goroutines over the agent's shared state. One run per session, prompts are
    accounted for (but for the late unlocked writes of a queue and a coordinator cancelled before its
    run, which lose some), and a cancel covers exactly the prompts accepted before it.
  \<^item> \<^theory_text>\<open>LoopDetection\<close> (loop_detection.go): a run stops if it repeats one interaction.
  \<^item> \<^theory_text>\<open>Plan\<close>, \<^theory_text>\<open>PlanDone\<close> (internal/session, todos.go, plan_done.go): the plan, the tool that
    submits it, and when an item counts as done.
  \<^item> \<^theory_text>\<open>VerifyGate\<close> (verify_gate.go, message/verify.go): the checks a change needs and how they
    resolve.
  \<^item> \<^theory_text>\<open>RunEdges\<close>, \<^theory_text>\<open>EdgeScans\<close> (run_edges.go): the engine that runs at the boundary of a run, and the six
    edges it ships with. The locale \<open>prompting_edges\<close> is what the engine's results need of its
    edges; the shipped set is its interpretation.

  \<^item> \<^theory_text>\<open>Pressure\<close> (pressure.go, usage_fallback.go, parts of telemetry.go): estimates of what a request
    takes of the context window, the window cap, the summary trigger and the latched pressure gate.

  \<^bold>\<open>How the lemmas are grouped.\<close> Each theory has its definitions in the order of the code, then per
  operation the lemmas that say what it does on every branch, then an invariant with one
  preservation lemma per operation or step, an interpretation of a system locale that carries it to
  runs, and the properties, each with a witness at a concrete input where it has hypotheses. Lemmas
  whose names say what goes wrong (\<open>requeue_loses_prompt\<close>, \<open>change_during_prompt_lost\<close>, ...) are
  concrete runs of the model on which the code does not do what its comments or its other half say.

  \<^bold>\<open>Bounds and termination.\<close> Every loop is a total function: structural recursion, or a measure (the
  bytes left of a text, the items not yet visited by the cycle search, the distance of a match from
  the end). No definition takes fuel for a loop of the code, except that a number the code itself
  bounds is counted down (three attempts to store a version, two repairs of a run). Waiting is not
  modelled as time: a blocked goroutine is a phase that no step leaves before its condition holds.

  \<^bold>\<open>Not modelled.\<close> The terminal interface (internal/ui) and the command line (internal/cmd), the
  client and server protocol (internal/server, client, proto, workspace), the language servers
  (internal/lsp), the providers and their sign-in (internal/oauth, the coordinator), the shell
  interpreter and background jobs, and the generated database code are input, output or glue around
  the core. Of the agent, the streaming loop of a turn, the prompt assembly (turn_context.go), the
  notebook, command log and failure memory are database-backed bookkeeping of a size this library
  does not reach; their results enter as arguments where the modelled code reads them.
  Cancelled contexts are reduced to being cancelled, logs and timings are left out.
\<close>

end
